(* ===== verification/Ext2_Prelude.thy ===== *)
theory Ext2_Prelude
  imports Main "HOL-Library.Word"
begin

text \<open>
  Shared vocabulary of the development: the machine types of the C code, the error codes
  of \<^verbatim>\<open>lib/ext2fs/ext2_err.et\<close>, the outcome of a memory request, the array loops that
  several components repeat (insert a cell by shifting up, delete one by shifting down),
  and the generic facts on sorted prefixes of arrays.
\<close>

section \<open>Machine types, errors and memory\<close>

type_synonym u8 = "8 word"
type_synonym u16 = "16 word"
type_synonym u32 = "32 word"
type_synonym u64 = "64 word"

text \<open>
  The error codes the modelled functions return. A C return value of 0 is \<open>Inr\<close>, any
  other value is \<open>Inl\<close> with the code. \<open>ENOENT\<close>, \<open>EINVAL\<close>,
  \<open>EOVERFLOW\<close>, \<open>EIO\<close> and \<open>ENOMEM\<close> are codes of the C library that the code returns as they are, or negated in the journal code. A \<open>magic\<close> field of a structure holds \<open>Some\<close> of
  one of these codes, or \<open>None\<close> for any value that is not a code of the table.
\<close>

datatype errcode =
    EXT2_ET_NO_MEMORY
  | EXT2_ET_MAGIC_BADBLOCKS_LIST
  | EXT2_ET_MAGIC_BADBLOCKS_ITERATE
  | EXT2_ET_MAGIC_EXT2FS_FILSYS
  | EXT2_ET_MAGIC_GENERIC_BITMAP
  | EXT2_ET_MAGIC_BLOCK_BITMAP
  | EXT2_ET_MAGIC_INODE_BITMAP
  | EXT2_ET_MAGIC_GENERIC_BITMAP64
  | EXT2_ET_MAGIC_BLOCK_BITMAP64
  | EXT2_ET_MAGIC_INODE_BITMAP64
  | EXT2_ET_BAD_GENERIC_MARK
  | EXT2_ET_BAD_BLOCK_MARK
  | EXT2_ET_BAD_INODE_MARK
  | EXT2_ET_NEQ_BLOCK_BITMAP
  | EXT2_ET_NEQ_INODE_BITMAP
  | EXT2_ET_FUDGE_BLOCK_BITMAP_END
  | EXT2_ET_FUDGE_INODE_BITMAP_END
  | EXT2_ET_INVALID_ARGUMENT
  | EXT2_ET_FILE_TOO_BIG
  | EXT2_ET_DIRHASH_UNSUPP
  | EXT2_ET_CANT_USE_LEGACY_BITMAPS
  | EXT2_ET_UNIMPLEMENTED
  | EXT2_ET_MAGIC_ICOUNT
  | EXT2_ET_BLOCK_ALLOC_FAIL
  | EXT2_ET_INODE_ALLOC_FAIL
  | EXT2_ET_NO_BLOCK_BITMAP
  | EXT2_ET_NO_INODE_BITMAP
  | EXT2_ET_RO_FILSYS
  | EXT2_ET_DIR_CORRUPTED
  | EXT2_ET_DIR_NO_SPACE
  | EXT2_ET_DIR_CSUM_INVALID
  | EXT2_ET_DIR_NO_SPACE_FOR_CSUM
  | EXT2_ET_DB_NOT_FOUND
  | EXT2_ET_FILE_NOT_FOUND
  | ENOENT
  | EINVAL
  | EOVERFLOW
  | EIO
  | ENOMEM

text \<open>
  The outcome of \<^verbatim>\<open>malloc\<close> or \<^verbatim>\<open>realloc\<close>: \<open>None\<close> when the request fails, otherwise
  the contents of the fresh cells, which the C library leaves arbitrary.
\<close>

type_synonym 'a mem_outcome = "(nat \<Rightarrow> 'a) option"

definition fresh_cells :: "(nat \<Rightarrow> 'a) \<Rightarrow> nat \<Rightarrow> 'a list" where
  "fresh_cells g n = map g [0..<n]"

lemma length_fresh_cells [simp]: "length (fresh_cells g n) = n"
  by (simp add: fresh_cells_def)

lemma fresh_cells_0 [simp]: "fresh_cells g 0 = []"
  by (simp add: fresh_cells_def)

lemma sint_word_of_int32: "sint (word_of_int d :: u32) = signed_take_bit 31 d"
  by (simp add: sint_sbintrunc')

lemma word_bits_eq: "(a :: 'a::len word) = b \<longleftrightarrow> (\<forall>n<LENGTH('a). bit a n = bit b n)"
  by (auto intro: bit_word_eqI)

lemma unat_pred: "(a :: 'a::len word) < w \<Longrightarrow> unat (w - 1) = unat w - 1"
  by (metis unat_minus_one word_not_simps(1))

lemma unat_pred_less: "(a :: 'a::len word) < w \<Longrightarrow> unat (w - 1) < unat w"
  by (simp add: unat_pred word_less_nat_alt)

lemma unat_succ: "(i :: 'a::len word) + 1 \<noteq> 0 \<Longrightarrow> unat (i + 1) = unat i + 1"
  by (metis Suc_eq_plus1 add.commute unatSuc)

lemma unat_succ_less: "(a :: 'a::len word) < i + 1 \<Longrightarrow> unat (i + 1) = unat i + 1"
  by (rule unat_succ) auto

lemma unat_succ_below: "(i :: 'a::len word) < e \<Longrightarrow> unat (i + 1) = unat i + 1"
proof (rule unat_succ)
  assume "i < e"
  then have "i \<noteq> -1" by (metis leD word_n1_ge)
  then show "i + 1 \<noteq> 0" by (metis eq_neg_iff_add_eq_0)
qed

lemma unat_plus64:
  "unat a + unat b < 2 ^ 64 \<Longrightarrow> unat (a + b :: u64) = unat a + unat b"
  by (simp add: unat_word_ariths)

lemma unat_mult64:
  "unat a * unat b < 2 ^ 64 \<Longrightarrow> unat (a * b :: u64) = unat a * unat b"
  by (simp add: unat_word_ariths)

lemma unat_minus_le: "(b :: 'a::len word) \<le> a \<Longrightarrow> unat (a - b) = unat a - unat b"
  by (simp add: unat_sub)

lemma unat_minus_nat: "unat b \<le> unat a \<Longrightarrow> unat (a - b :: 'a::len word) = unat a - unat b"
  by (simp add: unat_sub word_le_nat_alt)

lemma unat_drop_bit: "unat (drop_bit n (w :: 'a::len word)) = unat w div 2 ^ n"
proof -
  have "take_bit LENGTH('a) (unat w) = unat w"
    by (simp add: take_bit_nat_eq_self)
  then show ?thesis
    by (subst unsigned_drop_bit_eq, subst drop_bit_eq_div) simp
qed

lemma unat_drop_bit3 [simp]: "unat (drop_bit 3 (w :: 'a::len word)) = unat w div 8"
  by (simp add: unat_drop_bit)

lemma unat_less32: "unat (w :: u32) < 2 ^ 32"
proof -
  have "unat w < 2 ^ LENGTH(32)" by (rule unsigned_less)
  then show ?thesis by simp
qed

lemma unat_ucast_32_64 [simp]: "unat (ucast (w :: u32) :: u64) = unat w"
  using unat_less32[of w] by (simp add: unsigned_ucast_eq take_bit_nat_eq_self)

lemma unat_less64: "unat (w :: u64) < 2 ^ 64"
proof -
  have "unat w < 2 ^ LENGTH(64)" by (rule unsigned_less)
  then show ?thesis by simp
qed

lemma unat_exp64:
  assumes "n < 64"
  shows "unat (2 ^ n :: u64) = 2 ^ n"
proof -
  have "unat (of_nat (2 ^ n) :: u64) = take_bit 64 (2 ^ n)"
    by (subst unsigned_of_nat) simp
  also have "\<dots> = 2 ^ n" using assms by (intro take_bit_nat_eq_self) (rule power_strict_increasing; simp)
  finally show ?thesis by simp
qed

named_theorems sorted_array_intros
named_theorems word_bound_simps

section \<open>Array loops\<close>

text \<open>\<^verbatim>\<open>for (i = hi; i > j; i--) a[i] = a[i-1];\<close>\<close>

fun shift_up :: "'a list \<Rightarrow> nat \<Rightarrow> nat \<Rightarrow> 'a list" where
  "shift_up a j i = (if j < i then shift_up (a[i := a ! (i - 1)]) j (i - 1) else a)"

declare shift_up.simps [simp del]

text \<open>\<^verbatim>\<open>for (i = from; i < hi; i++) a[i] = a[i+1];\<close>\<close>

function shift_down :: "'a list \<Rightarrow> nat \<Rightarrow> nat \<Rightarrow> 'a list" where
  "shift_down a i hi = (if i < hi then shift_down (a[i := a ! (i + 1)]) (i + 1) hi else a)"
  by pat_completeness auto
termination
  by (relation "measure (\<lambda>(a, i, hi). hi - i)") auto

declare shift_down.simps [simp del]

lemma length_shift_up [simp]: "length (shift_up a j i) = length a"
proof (induction a j i rule: shift_up.induct)
  case (1 a j i)
  then show ?case by (subst shift_up.simps) simp
qed

lemma length_shift_down [simp]: "length (shift_down a i l) = length a"
proof (induction a i l rule: shift_down.induct)
  case (1 a i l)
  then show ?case by (subst shift_down.simps) simp
qed

lemma nth_shift_up:
  "hi < length a \<Longrightarrow> k < length a \<Longrightarrow>
     shift_up a j hi ! k = (if j < k \<and> k \<le> hi then a ! (k - 1) else a ! k)"
proof (induction a j hi rule: shift_up.induct)
  case (1 a j hi)
  show ?case
  proof (cases "j < hi")
    case True
    have "shift_up (a[hi := a ! (hi - 1)]) j (hi - 1) ! k =
        (if j < k \<and> k \<le> hi - 1 then a[hi := a ! (hi - 1)] ! (k - 1)
         else a[hi := a ! (hi - 1)] ! k)"
      using 1 True by simp
    with True "1.prems" show ?thesis
      by (subst shift_up.simps) (auto simp: nth_list_update)
  next
    case False
    then show ?thesis by (subst shift_up.simps) auto
  qed
qed

lemma nth_shift_down:
  "hi < length a \<Longrightarrow> k < length a \<Longrightarrow>
     shift_down a i hi ! k = (if i \<le> k \<and> k < hi then a ! (k + 1) else a ! k)"
proof (induction a i hi rule: shift_down.induct)
  case (1 a i hi)
  show ?case
  proof (cases "i < hi")
    case True
    have "shift_down (a[i := a ! (i + 1)]) (i + 1) hi ! k =
        (if i + 1 \<le> k \<and> k < hi then a[i := a ! (i + 1)] ! (k + 1)
         else a[i := a ! (i + 1)] ! k)"
      using 1 True by simp
    with True "1.prems" show ?thesis
      by (subst shift_down.simps) (auto simp: nth_list_update)
  next
    case False
    then show ?thesis by (subst shift_down.simps) auto
  qed
qed

text \<open>Opening a cell at \<open>j\<close> and writing it is insertion into the used prefix.\<close>

lemma take_insert_cell:
  assumes "num < length a" and "j \<le> num"
  shows "take (Suc num) ((shift_up a j num)[j := x]) = take j a @ x # drop j (take num a)"
proof (rule nth_equalityI)
  show "length (take (Suc num) ((shift_up a j num)[j := x]))
      = length (take j a @ x # drop j (take num a))"
    using assms by simp
next
  fix k
  assume "k < length (take (Suc num) ((shift_up a j num)[j := x]))"
  then have k: "k \<le> num" "k < length a" using assms by auto
  then show "take (Suc num) ((shift_up a j num)[j := x]) ! k
      = (take j a @ x # drop j (take num a)) ! k"
    using assms by (auto simp: nth_append nth_Cons' nth_list_update nth_shift_up)
qed

text \<open>Closing the cell \<open>r\<close> removes it from the used prefix.\<close>

lemma take_delete_cell:
  assumes "num \<le> length a" and "r < num"
  shows "take (num - 1) (shift_down a r (num - 1)) = take r a @ drop (Suc r) (take num a)"
proof (rule nth_equalityI)
  show "length (take (num - 1) (shift_down a r (num - 1)))
      = length (take r a @ drop (Suc r) (take num a))"
    using assms by simp
next
  fix k
  assume "k < length (take (num - 1) (shift_down a r (num - 1)))"
  then have k: "k < num - 1" using assms by auto
  then show "take (num - 1) (shift_down a r (num - 1)) ! k
      = (take r a @ drop (Suc r) (take num a)) ! k"
    using assms by (auto simp: nth_append nth_shift_down)
qed

lemma nth_take_mem [intro]: "i < num \<Longrightarrow> num \<le> length l \<Longrightarrow> l ! i \<in> set (take num l)"
  by (auto simp: in_set_conv_nth)

lemma map_update_same: "k < length xs \<Longrightarrow> f x = f (xs ! k) \<Longrightarrow> map f (xs[k := x]) = map f xs"
  by (rule nth_equalityI) (auto simp: nth_list_update)

section \<open>Strictly sorted lists\<close>

abbreviation ssorted :: "'a::linorder list \<Rightarrow> bool" where
  "ssorted xs \<equiv> sorted_wrt (<) xs"

lemma ssorted_nth_less: "ssorted xs \<Longrightarrow> i < j \<Longrightarrow> j < length xs \<Longrightarrow> xs ! i < xs ! j"
  by (simp add: sorted_wrt_iff_nth_less)

lemma ssorted_nth_mono: "ssorted xs \<Longrightarrow> i \<le> j \<Longrightarrow> j < length xs \<Longrightarrow> xs ! i \<le> xs ! j"
  using ssorted_nth_less [of xs i j] by (cases "i = j") auto

lemma ssorted_nth_less_iff:
  assumes "ssorted xs" "i < length xs" "j < length xs"
  shows "xs ! i < xs ! j \<longleftrightarrow> i < j"
  using ssorted_nth_less [OF assms(1)] assms(2,3)
  by (metis linorder_neqE_nat order_less_asym order_less_irrefl)

lemma ssorted_nth_inj:
  assumes "ssorted xs" "i < length xs" "j < length xs" "xs ! i = xs ! j"
  shows "i = j"
  using ssorted_nth_less_iff [OF assms(1)] assms(2-4) by (metis less_irrefl linorder_neqE_nat)

lemma ssorted_insert_middle [sorted_array_intros]:
  assumes "ssorted xs" "\<forall>y \<in> set (take j xs). y < x" "\<forall>y \<in> set (drop j xs). x < y"
  shows "ssorted (take j xs @ x # drop j xs)"
proof -
  have "ssorted (take j xs @ drop j xs)" using assms(1) by simp
  with assms(2,3) show ?thesis unfolding sorted_wrt_append by auto
qed

lemma ssorted_delete_middle [sorted_array_intros]:
  assumes "ssorted xs"
  shows "ssorted (take r xs @ drop (Suc r) xs)"
proof -
  have sub: "set (drop (Suc r) xs) \<subseteq> set (drop r xs)"
    by (rule set_drop_subset_set_drop) simp
  have "ssorted (take r xs @ drop r xs)" using assms by simp
  with sub show ?thesis
    unfolding sorted_wrt_append
    by (metis assms sorted_wrt_drop sorted_wrt_take subsetD)
qed

lemma set_insert_middle [simp]: "set (take j xs @ x # drop j xs) = insert x (set xs)"
  by (metis Un_insert_right append_take_drop_id list.simps(15) set_append)

lemma set_delete_middle:
  assumes "ssorted xs" "r < length xs"
  shows "set (take r xs @ drop (Suc r) xs) = set xs - {xs ! r}"
proof -
  have d: "distinct xs" using assms(1) by (simp add: strict_sorted_iff)
  have "xs = take r xs @ xs ! r # drop (Suc r) xs"
    using assms(2) by (rule id_take_nth_drop)
  with d show ?thesis
    by (metis (no_types, lifting) Diff_insert_absorb Un_insert_right distinct.simps(2)
        distinct_append disjoint_insert(1) inf_commute list.simps(15) set_append UnE)
qed

text \<open>Two strictly sorted lists with the same elements are the same list.\<close>

lemma ssorted_set_unique: "ssorted xs \<Longrightarrow> ssorted ys \<Longrightarrow> set xs = set ys \<Longrightarrow> xs = ys"
  by (metis strict_sorted_equal)

end
