(* ===== verification/Badblocks.thy ===== *)
theory Badblocks
  imports Ext2_Prelude
begin

text \<open>
  The sorted 32-bit list of \<^verbatim>\<open>lib/ext2fs/badblocks.c\<close>, which holds the bad blocks of a
  device and several inode sets of e2fsck, and its reader \<^verbatim>\<open>lib/ext2fs/read_bb_file.c\<close>.
  The list is an array of \<open>size\<close> cells whose first \<open>num\<close> cells are in use; its promise
  is that of a set. The locale \<open>block_set\<close> states that promise; the reader is proved
  against the locale, and the interpretation discharges it for the array.
\<close>

section \<open>Data and operations\<close>

record u32_list =
  ul_magic :: "errcode option"
  ul_num :: nat
  ul_size :: nat
  ul_list :: "u32 list"
  badblocks_flags :: int

text \<open>
  \<open>ok_struct\<close> and \<open>ok_array\<close> say whether the two memory requests succeed. The whole array is
  written before use, so its fresh contents do not matter here.
\<close>

definition make_u32_list ::
    "bool \<Rightarrow> bool \<Rightarrow> nat \<Rightarrow> nat \<Rightarrow> u32 list option \<Rightarrow> errcode + u32_list" where
  "make_u32_list ok_struct ok_array size0 num lst =
     (if \<not> ok_struct then Inl EXT2_ET_NO_MEMORY
      else let sz = (if size0 \<noteq> 0 then size0 else 10)
       in if \<not> ok_array then Inl EXT2_ET_NO_MEMORY
          else Inr \<lparr>ul_magic = Some EXT2_ET_MAGIC_BADBLOCKS_LIST, ul_num = num, ul_size = sz,
                    ul_list = (case lst of Some l \<Rightarrow> take sz l | None \<Rightarrow> replicate sz 0),
                    badblocks_flags = 0\<rparr>)"

definition ext2fs_u32_list_create :: "bool \<Rightarrow> bool \<Rightarrow> nat \<Rightarrow> errcode + u32_list" where
  "ext2fs_u32_list_create ok_struct ok_array size0 = make_u32_list ok_struct ok_array size0 0 None"

definition ext2fs_badblocks_list_create :: "bool \<Rightarrow> bool \<Rightarrow> nat \<Rightarrow> errcode + u32_list" where
  "ext2fs_badblocks_list_create ok_struct ok_array size0 =
     make_u32_list ok_struct ok_array size0 0 None"

definition ext2fs_u32_copy :: "bool \<Rightarrow> bool \<Rightarrow> u32_list \<Rightarrow> errcode + u32_list" where
  "ext2fs_u32_copy ok_struct ok_array src =
     (case make_u32_list ok_struct ok_array (ul_size src) (ul_num src) (Some (ul_list src)) of
        Inl e \<Rightarrow> Inl e
      | Inr dest \<Rightarrow> Inr (dest\<lparr>badblocks_flags := badblocks_flags src\<rparr>))"

text \<open>The first loop of the insertion: \<open>None\<close> when the block is found, else its place.\<close>

function u32_insert_pos :: "u32 list \<Rightarrow> u32 \<Rightarrow> nat \<Rightarrow> nat \<Rightarrow> nat option" where
  "u32_insert_pos l blk num i =
     (if i < num then
        if l ! i = blk then None
        else if blk < l ! i then Some i
        else u32_insert_pos l blk num (i + 1)
      else Some num)"
  by pat_completeness auto
termination
  by (relation "measure (\<lambda>(l, blk, num, i). num - i)") auto

declare u32_insert_pos.simps [simp del]

definition u32_list_grow :: "u32 mem_outcome \<Rightarrow> u32_list \<Rightarrow> errcode + u32_list" where
  "u32_list_grow mem bb =
     (if ul_size bb \<le> ul_num bb then
        (case mem of
           None \<Rightarrow> Inl EXT2_ET_NO_MEMORY
         | Some g \<Rightarrow> Inr (bb\<lparr>ul_size := ul_size bb + 100,
                             ul_list := ul_list bb @ fresh_cells g 100\<rparr>))
      else Inr bb)"

definition ext2fs_u32_list_add ::
    "u32 mem_outcome \<Rightarrow> u32_list \<Rightarrow> u32 \<Rightarrow> errcode + u32_list" where
  "ext2fs_u32_list_add mem bb blk =
     (if ul_magic bb \<noteq> Some EXT2_ET_MAGIC_BADBLOCKS_LIST
      then Inl EXT2_ET_MAGIC_BADBLOCKS_LIST
      else case u32_list_grow mem bb of
        Inl e \<Rightarrow> Inl e
      | Inr bb \<Rightarrow>
          let num = ul_num bb; i = num - 1 in
          if num \<noteq> 0 \<and> ul_list bb ! i = blk then Inr bb
          else if num = 0 \<or> ul_list bb ! i < blk then
            Inr (bb\<lparr>ul_list := (ul_list bb)[num := blk], ul_num := num + 1\<rparr>)
          else case u32_insert_pos (ul_list bb) blk num 0 of
            None \<Rightarrow> Inr bb
          | Some j \<Rightarrow>
              Inr (bb\<lparr>ul_list := (shift_up (ul_list bb) j num)[j := blk], ul_num := num + 1\<rparr>))"

definition ext2fs_badblocks_list_add ::
    "u32 mem_outcome \<Rightarrow> u32_list \<Rightarrow> u32 \<Rightarrow> errcode + u32_list" where
  "ext2fs_badblocks_list_add mem bb blk = ext2fs_u32_list_add mem bb blk"

function u32_find_loop :: "u32 list \<Rightarrow> u32 \<Rightarrow> nat \<Rightarrow> nat \<Rightarrow> int" where
  "u32_find_loop l blk low high =
     (if low < high then
        let mid = (low + high) div 2 in
        if mid = low \<or> mid = high then -1
        else if blk = l ! mid then int mid
        else if blk < l ! mid then u32_find_loop l blk low mid
        else u32_find_loop l blk mid high
      else -1)"
  by pat_completeness auto
termination
  by (relation "measure (\<lambda>(l, blk, low, high). high - low)") auto

declare u32_find_loop.simps [simp del]

definition ext2fs_u32_list_find :: "u32_list \<Rightarrow> u32 \<Rightarrow> int" where
  "ext2fs_u32_list_find bb blk =
     (if ul_magic bb \<noteq> Some EXT2_ET_MAGIC_BADBLOCKS_LIST then -1
      else if ul_num bb = 0 then -1
      else let high = ul_num bb - 1 in
        if blk = ul_list bb ! 0 then 0
        else if blk = ul_list bb ! high then int high
        else u32_find_loop (ul_list bb) blk 0 high)"

definition ext2fs_u32_list_test :: "u32_list \<Rightarrow> u32 \<Rightarrow> bool" where
  "ext2fs_u32_list_test bb blk = (\<not> ext2fs_u32_list_find bb blk < 0)"

definition ext2fs_badblocks_list_test :: "u32_list \<Rightarrow> u32 \<Rightarrow> bool" where
  "ext2fs_badblocks_list_test bb blk = ext2fs_u32_list_test bb blk"

text \<open>The result is the C return value and the list after the call.\<close>

definition ext2fs_u32_list_del :: "u32_list \<Rightarrow> u32 \<Rightarrow> int \<times> u32_list" where
  "ext2fs_u32_list_del bb blk =
     (if ul_num bb = 0 then (-1, bb)
      else let remloc = ext2fs_u32_list_find bb blk in
        if remloc < 0 then (-1, bb)
        else (0, bb\<lparr>ul_list := shift_down (ul_list bb) (nat remloc) (ul_num bb - 1),
                    ul_num := ul_num bb - 1\<rparr>))"

definition ext2fs_badblocks_list_del :: "u32_list \<Rightarrow> u32 \<Rightarrow> u32_list" where
  "ext2fs_badblocks_list_del bb blk = snd (ext2fs_u32_list_del bb blk)"

text \<open>
  An iterator points to a list. The list it points to is an argument of each step, so that
  a caller may change the list between two steps.
\<close>

record u32_iterate =
  it_magic :: "errcode option"
  it_ptr :: nat

definition ext2fs_u32_list_iterate_begin :: "bool \<Rightarrow> u32_list \<Rightarrow> errcode + u32_iterate" where
  "ext2fs_u32_list_iterate_begin ok bb =
     (if ul_magic bb \<noteq> Some EXT2_ET_MAGIC_BADBLOCKS_LIST
      then Inl EXT2_ET_MAGIC_BADBLOCKS_LIST
      else if \<not> ok then Inl EXT2_ET_NO_MEMORY
      else Inr \<lparr>it_magic = Some EXT2_ET_MAGIC_BADBLOCKS_ITERATE, it_ptr = 0\<rparr>)"

text \<open>
  The result is the C return value, what is written to \<open>*blk\<close> (\<open>None\<close> when nothing is),
  and the iterator after the step.
\<close>

definition ext2fs_u32_list_iterate ::
    "u32_iterate \<Rightarrow> u32_list \<Rightarrow> bool \<times> u32 option \<times> u32_iterate" where
  "ext2fs_u32_list_iterate iter bb =
     (if it_magic iter \<noteq> Some EXT2_ET_MAGIC_BADBLOCKS_ITERATE then (False, None, iter)
      else if ul_magic bb \<noteq> Some EXT2_ET_MAGIC_BADBLOCKS_LIST then (False, None, iter)
      else if it_ptr iter < ul_num bb then
        (True, Some (ul_list bb ! it_ptr iter), iter\<lparr>it_ptr := it_ptr iter + 1\<rparr>)
      else (False, Some 0, iter))"

definition ext2fs_u32_list_equal :: "u32_list \<Rightarrow> u32_list \<Rightarrow> errcode + bool" where
  "ext2fs_u32_list_equal bb1 bb2 =
     (if ul_magic bb1 \<noteq> Some EXT2_ET_MAGIC_BADBLOCKS_LIST \<or>
         ul_magic bb2 \<noteq> Some EXT2_ET_MAGIC_BADBLOCKS_LIST
      then Inl EXT2_ET_MAGIC_BADBLOCKS_LIST
      else if ul_num bb1 \<noteq> ul_num bb2 then Inr False
      else Inr (take (ul_num bb1) (ul_list bb1) = take (ul_num bb1) (ul_list bb2)))"

definition ext2fs_u32_list_count :: "u32_list \<Rightarrow> nat" where
  "ext2fs_u32_list_count bb = ul_num bb"

text \<open>The use of an iterator: \<^verbatim>\<open>while (ext2fs_u32_list_iterate(iter, &blk)) ...\<close>.\<close>

fun u32_list_drain :: "nat \<Rightarrow> u32_iterate \<Rightarrow> u32_list \<Rightarrow> u32 list option" where
  "u32_list_drain 0 iter bb = None"
| "u32_list_drain (Suc fuel) iter bb =
     (case ext2fs_u32_list_iterate iter bb of
        (True, Some b, iter') \<Rightarrow> map_option ((#) b) (u32_list_drain fuel iter' bb)
      | _ \<Rightarrow> Some [])"

section \<open>Reading a list of bad blocks from a file\<close>

text \<open>
  The file system the blocks are checked against: whether its magic number is right, the
  first data block and the number of blocks. The input is the sequence of lines, each as
  \<^verbatim>\<open>sscanf(buf, "%llu", ..)\<close> reads it, with the outcome of the memory request an insertion
  may make. The blocks handed to the \<open>invalid\<close> callback are returned in order.
\<close>

record bb_fs =
  bf_magic_ok :: bool
  bf_first_data_block :: u64
  bf_blocks_count :: u64

definition bb_out_of_range :: "bb_fs option \<Rightarrow> u64 \<Rightarrow> bool" where
  "bb_out_of_range fs blockno =
     (case fs of None \<Rightarrow> False
      | Some f \<Rightarrow> blockno < bf_first_data_block f \<or> bf_blocks_count f \<le> blockno)"

fun read_bb_loop ::
    "('m \<Rightarrow> 's \<Rightarrow> u32 \<Rightarrow> errcode + 's) \<Rightarrow> bb_fs option \<Rightarrow> (u64 option \<times> 'm) list \<Rightarrow>
     's \<Rightarrow> u32 list \<Rightarrow> errcode option \<times> 's \<times> u32 list" where
  "read_bb_loop add fs [] bb bad = (None, bb, bad)"
| "read_bb_loop add fs ((None, m) # rest) bb bad = read_bb_loop add fs rest bb bad"
| "read_bb_loop add fs ((Some blockno, m) # rest) bb bad =
     (if drop_bit 32 blockno \<noteq> 0 then (Some EOVERFLOW, bb, bad)
      else if bb_out_of_range fs blockno then
        read_bb_loop add fs rest bb (bad @ [ucast blockno])
      else case add m bb (ucast blockno) of
          Inl e \<Rightarrow> (Some e, bb, bad)
        | Inr bb' \<Rightarrow> read_bb_loop add fs rest bb' bad)"

text \<open>The list is created when the caller has none; the first result is the error code.\<close>

definition ext2fs_read_bb_FILE2 ::
    "bool \<Rightarrow> bool \<Rightarrow> bb_fs option \<Rightarrow> (u64 option \<times> u32 mem_outcome) list \<Rightarrow> u32_list option \<Rightarrow>
     errcode option \<times> u32_list option \<times> u32 list" where
  "ext2fs_read_bb_FILE2 ok_struct ok_array fs lines bb_list =
     (if (case fs of None \<Rightarrow> False | Some f \<Rightarrow> \<not> bf_magic_ok f)
      then (Some EXT2_ET_MAGIC_EXT2FS_FILSYS, bb_list, [])
      else case (case bb_list of Some bb \<Rightarrow> Inr bb
                 | None \<Rightarrow> ext2fs_badblocks_list_create ok_struct ok_array 10) of
          Inl e \<Rightarrow> (Some e, bb_list, [])
        | Inr bb \<Rightarrow> (case read_bb_loop ext2fs_badblocks_list_add fs lines bb [] of
                       (r, bb', bad) \<Rightarrow> (r, Some bb', bad)))"

section \<open>The promise: a set of blocks\<close>

definition u32_list_inv :: "u32_list \<Rightarrow> bool" where
  "u32_list_inv bb \<longleftrightarrow>
     ul_magic bb = Some EXT2_ET_MAGIC_BADBLOCKS_LIST \<and> 0 < ul_size bb \<and>
     ul_num bb \<le> ul_size bb \<and> length (ul_list bb) = ul_size bb \<and>
     ssorted (take (ul_num bb) (ul_list bb))"

definition u32_elems :: "u32_list \<Rightarrow> u32 set" where
  "u32_elems bb = set (take (ul_num bb) (ul_list bb))"

lemma u32_elems_nth: "ul_num bb \<le> length (ul_list bb) \<Longrightarrow>
    b \<in> u32_elems bb \<longleftrightarrow> (\<exists>k < ul_num bb. ul_list bb ! k = b)"
  by (auto simp: u32_elems_def in_set_conv_nth)

lemma u32_insert_pos_spec:
  assumes "num \<le> length l" and "\<forall>k<i. l ! k < blk" and "ssorted (take num l)"
  shows "case u32_insert_pos l blk num i of
       None \<Rightarrow> blk \<in> set (take num l)
     | Some j \<Rightarrow> (i \<le> num \<longrightarrow> j \<le> num) \<and> (\<forall>k<j. k < num \<longrightarrow> l ! k < blk) \<and>
                 (\<forall>k. j \<le> k \<and> k < num \<longrightarrow> blk < l ! k)"
  using assms
proof (induction l blk num i rule: u32_insert_pos.induct)
  case (1 l blk num i)
  consider "\<not> i < num" | "i < num" "l ! i = blk" | "i < num" "blk < l ! i" | "i < num" "l ! i < blk"
    by (meson linorder_neqE)
  then show ?case
  proof cases
    case 1
    with "1.prems" show ?thesis by (subst u32_insert_pos.simps) auto
  next
    case 2
    with "1.prems" show ?thesis by (subst u32_insert_pos.simps) (auto simp: in_set_conv_nth)
  next
    case 3
    have "blk < l ! k" if "i \<le> k" "k < num" for k
      using that 3 "1.prems" ssorted_nth_less [of "take num l" i k] by (cases "i = k") auto
    with 3 "1.prems" show ?thesis by (subst u32_insert_pos.simps) auto
  next
    case 4
    then have "\<forall>k<i + 1. l ! k < blk" using "1.prems"(2) less_Suc_eq by auto
    from "1.IH" [OF 4(1) _ _ "1.prems"(1) this "1.prems"(3)] 4
    show ?thesis by (subst u32_insert_pos.simps) (auto split: option.splits)
  qed
qed

lemma u32_find_loop_spec:
  assumes "high < num" and "num \<le> length l" and "ssorted (take num l)"
  shows "(u32_find_loop l blk low high = -1 \<and> (\<forall>k. low < k \<and> k < high \<longrightarrow> l ! k \<noteq> blk)) \<or>
         (\<exists>k. u32_find_loop l blk low high = int k \<and> low < k \<and> k < high \<and> l ! k = blk)"
  using assms
proof (induction l blk low high rule: u32_find_loop.induct)
  case (1 l blk low high)
  define mid where "mid = (low + high) div 2"
  have less: "l ! i < l ! j" if "i < j" "j < num" for i j
    using that "1.prems" ssorted_nth_less [of "take num l" i j] by simp
  show ?case
  proof (cases "low < high \<and> mid \<noteq> low \<and> mid \<noteq> high")
    case False
    then have "\<not> (low < k \<and> k < high)" for k by (auto simp: mid_def)
    with False show ?thesis by (subst u32_find_loop.simps) (auto simp: mid_def Let_def)
  next
    case True
    then have m: "low < mid" "mid < high" by (auto simp: mid_def)
    consider "blk = l ! mid" | "blk < l ! mid" | "l ! mid < blk" by (meson linorder_neqE)
    then show ?thesis
    proof cases
      case 1
      with True m show ?thesis by (subst u32_find_loop.simps) (auto simp: mid_def Let_def)
    next
      case 2
      have out: "l ! k \<noteq> blk" if "mid \<le> k" "k < high" for k
        using that 2 "1.prems" less [of mid k] by (cases "k = mid") auto
      have eq: "u32_find_loop l blk low high = u32_find_loop l blk low mid"
        using True 2 by (subst u32_find_loop.simps) (auto simp: mid_def Let_def)
      have ih: "(u32_find_loop l blk low mid = -1 \<and> (\<forall>k. low < k \<and> k < mid \<longrightarrow> l ! k \<noteq> blk)) \<or>
          (\<exists>k. u32_find_loop l blk low mid = int k \<and> low < k \<and> k < mid \<and> l ! k = blk)"
        using "1.IH"(1) [OF _ mid_def] True 2 "1.prems" m by auto
      have "\<forall>k. low < k \<and> k < high \<longrightarrow> l ! k \<noteq> blk"
        if "\<forall>k. low < k \<and> k < mid \<longrightarrow> l ! k \<noteq> blk"
        using that out by (metis not_less)
      with ih eq m show ?thesis by (auto dest: less_trans)
    next
      case 3
      have out: "l ! k \<noteq> blk" if "low < k" "k \<le> mid" for k
        using that 3 m "1.prems" less [of k mid] by (cases "k = mid") auto
      have eq: "u32_find_loop l blk low high = u32_find_loop l blk mid high"
        using True 3 by (subst u32_find_loop.simps) (auto simp: mid_def Let_def)
      have ih: "(u32_find_loop l blk mid high = -1 \<and> (\<forall>k. mid < k \<and> k < high \<longrightarrow> l ! k \<noteq> blk)) \<or>
          (\<exists>k. u32_find_loop l blk mid high = int k \<and> mid < k \<and> k < high \<and> l ! k = blk)"
        using "1.IH"(2) [OF _ mid_def] True 3 "1.prems" m by auto
      have "\<forall>k. low < k \<and> k < high \<longrightarrow> l ! k \<noteq> blk"
        if "\<forall>k. mid < k \<and> k < high \<longrightarrow> l ! k \<noteq> blk"
        using that out by (metis not_less)
      with ih eq m show ?thesis by (auto dest: less_trans)
    qed
  qed
qed

lemma u32_list_find_spec:
  assumes "u32_list_inv bb"
  shows "(ext2fs_u32_list_find bb blk = -1 \<and> blk \<notin> u32_elems bb) \<or>
         (\<exists>k. ext2fs_u32_list_find bb blk = int k \<and> k < ul_num bb \<and> ul_list bb ! k = blk)"
proof (cases "ul_num bb = 0")
  case True
  with assms show ?thesis by (simp add: u32_list_inv_def u32_elems_def ext2fs_u32_list_find_def)
next
  case False
  note inv = assms [unfolded u32_list_inv_def]
  let ?h = "ul_num bb - 1"
  have le: "ul_num bb \<le> length (ul_list bb)" using inv by simp
  show ?thesis
  proof (cases "blk = ul_list bb ! 0 \<or> blk = ul_list bb ! ?h")
    case True
    then show ?thesis
    proof (cases "blk = ul_list bb ! 0")
      case True
      then have "ext2fs_u32_list_find bb blk = int 0"
        using False inv by (simp add: ext2fs_u32_list_find_def Let_def)
      with True False show ?thesis by blast
    next
      case no: False
      then have "ext2fs_u32_list_find bb blk = int ?h"
        using True False inv by (simp add: ext2fs_u32_list_find_def Let_def)
      with True no False show ?thesis by (metis diff_less less_one bot_nat_0.not_eq_extremum)
    qed
  next
    case out: False
    then have eq: "ext2fs_u32_list_find bb blk = u32_find_loop (ul_list bb) blk 0 ?h"
      using False inv by (simp add: ext2fs_u32_list_find_def Let_def)
    have notin: "blk \<notin> u32_elems bb"
      if "\<forall>k. 0 < k \<and> k < ?h \<longrightarrow> ul_list bb ! k \<noteq> blk"
      unfolding u32_elems_nth [OF le]
    proof clarify
      fix k assume k: "k < ul_num bb" "blk = ul_list bb ! k"
      then have "k \<noteq> 0" "k \<noteq> ?h" using out by metis+
      then have "0 < k \<and> k < ?h" using k(1) by linarith
      with k(2) that show False by blast
    qed
    have h: "?h < ul_num bb" using False by simp
    from inv have "ssorted (take (ul_num bb) (ul_list bb))" by simp
    from u32_find_loop_spec [OF h le this, of blk 0] show ?thesis
    proof
      assume "u32_find_loop (ul_list bb) blk 0 ?h = -1 \<and>
          (\<forall>k. 0 < k \<and> k < ?h \<longrightarrow> ul_list bb ! k \<noteq> blk)"
      then show ?thesis unfolding eq using notin by blast
    next
      assume "\<exists>k. u32_find_loop (ul_list bb) blk 0 ?h = int k \<and> 0 < k \<and> k < ?h \<and> ul_list bb ! k = blk"
      then obtain k where "u32_find_loop (ul_list bb) blk 0 ?h = int k" "k < ?h" "ul_list bb ! k = blk"
        by blast
      then show ?thesis unfolding eq using h by (intro disjI2 exI [of _ k]) simp
    qed
  qed
qed

lemma u32_list_test_iff: "u32_list_inv bb \<Longrightarrow> ext2fs_u32_list_test bb blk \<longleftrightarrow> blk \<in> u32_elems bb"
  using u32_list_find_spec [of bb blk]
  by (auto simp: ext2fs_u32_list_test_def u32_elems_nth u32_list_inv_def)

lemma u32_list_grow_inv:
  assumes "u32_list_inv bb" and "u32_list_grow mem bb = Inr bb'"
  shows "u32_list_inv bb' \<and> u32_elems bb' = u32_elems bb \<and> ul_num bb' = ul_num bb
       \<and> ul_num bb' < ul_size bb'"
  using assms
  by (auto simp: u32_list_grow_def u32_list_inv_def u32_elems_def split: if_splits option.splits)

lemma u32_list_add_spec:
  assumes inv0: "u32_list_inv bb0" and add: "ext2fs_u32_list_add mem bb0 blk = Inr bb'"
  shows "u32_list_inv bb' \<and> u32_elems bb' = insert blk (u32_elems bb0)"
proof -
  from add inv0 obtain bb where grow: "u32_list_grow mem bb0 = Inr bb"
    by (auto simp: ext2fs_u32_list_add_def u32_list_inv_def split: sum.splits if_splits)
  note g = u32_list_grow_inv [OF inv0 grow]
  then have inv: "u32_list_inv bb" and el: "u32_elems bb = u32_elems bb0"
    and room: "ul_num bb < ul_size bb" by auto
  let ?l = "ul_list bb" and ?n = "ul_num bb"
  have len: "?n < length ?l" and srt: "ssorted (take ?n ?l)"
    using inv room by (auto simp: u32_list_inv_def)
  have magic: "ul_magic bb0 = Some EXT2_ET_MAGIC_BADBLOCKS_LIST"
    using inv0 by (simp add: u32_list_inv_def)
  have ins: "u32_list_inv bb' \<and> u32_elems bb' = insert blk (u32_elems bb)"
    if j: "j \<le> ?n" and lo: "\<forall>k<j. ?l ! k < blk" and hi: "\<forall>k. j \<le> k \<and> k < ?n \<longrightarrow> blk < ?l ! k"
      and bb': "bb' = bb\<lparr>ul_list := (shift_up ?l j ?n)[j := blk], ul_num := ?n + 1\<rparr>" for j
  proof -
    have pre: "take (Suc ?n) (ul_list bb') = take j (take ?n ?l) @ blk # drop j (take ?n ?l)"
      using take_insert_cell [OF len j, of blk] j by (simp add: bb' min_absorb1)
    moreover have "ssorted (take j (take ?n ?l) @ blk # drop j (take ?n ?l))"
      using srt lo hi len j by (intro sorted_array_intros) (auto simp: in_set_conv_nth)
    moreover have "set (take (Suc ?n) (ul_list bb')) = insert blk (u32_elems bb)"
      unfolding pre set_insert_middle u32_elems_def ..
    ultimately show ?thesis
      using inv room by (simp add: u32_list_inv_def u32_elems_def bb')
  qed
  have case1: "u32_list_inv bb' \<and> u32_elems bb' = insert blk (u32_elems bb)"
    if "?n \<noteq> 0" "?l ! (?n - 1) = blk" "bb' = bb"
  proof -
    have "?n - 1 < ?n" using that(1) by simp
    then have "blk \<in> u32_elems bb" using that(2) len u32_elems_nth [of bb blk] by auto
    with that(3) inv show ?thesis by (simp add: insert_absorb)
  qed
  have case2: "u32_list_inv bb' \<and> u32_elems bb' = insert blk (u32_elems bb)"
    if c: "?n = 0 \<or> ?l ! (?n - 1) < blk"
      and bb': "bb' = bb\<lparr>ul_list := ?l[?n := blk], ul_num := ?n + 1\<rparr>"
  proof (rule ins [of ?n])
    show "\<forall>k<?n. ?l ! k < blk"
    proof (intro allI impI)
      fix k assume k: "k < ?n"
      then have "k = ?n - 1 \<or> ?l ! k < ?l ! (?n - 1)"
        using len ssorted_nth_less [OF srt, of k "?n - 1"] by fastforce
      then show "?l ! k < blk" using c k by auto
    qed
    show "bb' = bb\<lparr>ul_list := (shift_up ?l ?n ?n)[?n := blk], ul_num := ?n + 1\<rparr>"
      by (simp add: bb' shift_up.simps)
  qed auto
  have case3: "u32_list_inv bb' \<and> u32_elems bb' = insert blk (u32_elems bb)"
    if "(case u32_insert_pos ?l blk ?n 0 of None \<Rightarrow> Inr bb
         | Some j \<Rightarrow> Inr (bb\<lparr>ul_list := (shift_up ?l j ?n)[j := blk], ul_num := ?n + 1\<rparr>))
        = (Inr bb' :: errcode + u32_list)"
  proof (cases "u32_insert_pos ?l blk ?n 0")
    case None
    with u32_insert_pos_spec [of ?n ?l 0 blk] len srt inv that show ?thesis
      by (simp add: u32_elems_def insert_absorb)
  next
    case (Some j)
    with u32_insert_pos_spec [of ?n ?l 0 blk] len srt
    have "j \<le> ?n" "\<forall>k<j. k < ?n \<longrightarrow> ?l ! k < blk" "\<forall>k. j \<le> k \<and> k < ?n \<longrightarrow> blk < ?l ! k"
      by auto
    with that Some show ?thesis by (intro ins [of j]) auto
  qed
  show ?thesis
    using add magic case1 case2 case3 unfolding el
    by (auto simp: ext2fs_u32_list_add_def grow Let_def split: if_splits)
qed

text \<open>Insertion fails only for want of memory, and leaves the list as it was.\<close>

lemma u32_list_add_error:
  assumes "u32_list_inv bb"
  shows "(\<exists>bb'. ext2fs_u32_list_add mem bb blk = Inr bb') \<longleftrightarrow> mem \<noteq> None \<or> ul_num bb < ul_size bb"
    and "ext2fs_u32_list_add mem bb blk = Inl e \<Longrightarrow> e = EXT2_ET_NO_MEMORY"
  using assms
  by (auto simp: ext2fs_u32_list_add_def u32_list_inv_def u32_list_grow_def Let_def
      split: option.splits if_splits)

lemma u32_list_del_spec:
  assumes inv: "u32_list_inv bb" and del: "ext2fs_u32_list_del bb blk = (r, bb')"
  shows "u32_list_inv bb'" and "u32_elems bb' = u32_elems bb - {blk}"
    and "r = (if blk \<in> u32_elems bb then 0 else -1)"
proof -
  let ?l = "ul_list bb" and ?n = "ul_num bb"
  have le: "?n \<le> length ?l" and srt: "ssorted (take ?n ?l)"
    using inv by (auto simp: u32_list_inv_def)
  have "u32_list_inv bb' \<and> u32_elems bb' = u32_elems bb - {blk} \<and>
        r = (if blk \<in> u32_elems bb then 0 else -1)"
    using u32_list_find_spec [OF inv, of blk]
  proof
    assume "ext2fs_u32_list_find bb blk = -1 \<and> blk \<notin> u32_elems bb"
    with del inv show ?thesis
      by (auto simp: ext2fs_u32_list_del_def Let_def split: if_splits)
  next
    assume "\<exists>k. ext2fs_u32_list_find bb blk = int k \<and> k < ?n \<and> ?l ! k = blk"
    then obtain k where k: "ext2fs_u32_list_find bb blk = int k" "k < ?n" "?l ! k = blk" by blast
    then have r: "r = 0" and bb': "bb' = bb\<lparr>ul_list := shift_down ?l k (?n - 1), ul_num := ?n - 1\<rparr>"
      using del by (auto simp: ext2fs_u32_list_del_def Let_def)
    have pre: "take (?n - 1) (ul_list bb') = take k (take ?n ?l) @ drop (Suc k) (take ?n ?l)"
      using take_delete_cell [OF le k(2)] k(2) by (simp add: bb' min_absorb1)
    have mem: "blk \<in> u32_elems bb" using k le u32_elems_nth by blast
    have inv': "u32_list_inv bb'"
      using inv pre ssorted_delete_middle [OF srt, of k] k(2)
      unfolding u32_list_inv_def by (simp add: bb' le_diff_conv)
    have "u32_elems bb' = set (take k (take ?n ?l) @ drop (Suc k) (take ?n ?l))"
      using pre by (simp add: u32_elems_def bb')
    also have "\<dots> = u32_elems bb - {blk}"
      using set_delete_middle [OF srt, of k] k le by (simp add: u32_elems_def)
    finally show ?thesis using inv' mem r by simp
  qed
  then show "u32_list_inv bb'" and "u32_elems bb' = u32_elems bb - {blk}"
    and "r = (if blk \<in> u32_elems bb then 0 else -1)" by auto
qed

lemma u32_list_create_inv:
  "ext2fs_u32_list_create ok_struct ok_array n = Inr bb \<Longrightarrow> u32_list_inv bb \<and> u32_elems bb = {}"
  by (auto simp: ext2fs_u32_list_create_def make_u32_list_def u32_list_inv_def u32_elems_def Let_def
      split: if_splits)

lemma u32_copy_same:
  "u32_list_inv bb \<Longrightarrow> ext2fs_u32_copy ok_struct ok_array bb = Inr bb' \<Longrightarrow> bb' = bb"
  by (auto simp: ext2fs_u32_copy_def make_u32_list_def u32_list_inv_def Let_def
      split: if_splits sum.splits)

lemma u32_list_drain_spec:
  assumes "u32_list_inv bb" and "it_magic iter = Some EXT2_ET_MAGIC_BADBLOCKS_ITERATE"
    and "ul_num bb - it_ptr iter < fuel"
  shows "u32_list_drain fuel iter bb = Some (drop (it_ptr iter) (take (ul_num bb) (ul_list bb)))"
  using assms(2,3)
proof (induction fuel arbitrary: iter)
  case 0
  then show ?case by simp
next
  case (Suc fuel)
  note inv = assms(1) [unfolded u32_list_inv_def]
  show ?case
  proof (cases "it_ptr iter < ul_num bb")
    case True
    let ?it = "iter\<lparr>it_ptr := it_ptr iter + 1\<rparr>"
    have "u32_list_drain fuel ?it bb = Some (drop (it_ptr iter + 1) (take (ul_num bb) (ul_list bb)))"
      using Suc.IH [of ?it] Suc.prems True by simp
    moreover have "ul_list bb ! it_ptr iter # drop (it_ptr iter + 1) (take (ul_num bb) (ul_list bb))
        = drop (it_ptr iter) (take (ul_num bb) (ul_list bb))"
      using True inv Cons_nth_drop_Suc [of "it_ptr iter" "take (ul_num bb) (ul_list bb)"] by simp
    ultimately show ?thesis
      using True Suc.prems(1) inv by (simp add: ext2fs_u32_list_iterate_def)
  next
    case False
    with Suc.prems(1) inv show ?thesis by (simp add: ext2fs_u32_list_iterate_def)
  qed
qed

section \<open>The interface and its client\<close>

text \<open>
  What a client of a block list relies on: a successful insertion adds exactly the given
  block, a deletion removes exactly it, the test answers membership, and all of them keep
  the provider's invariant.
\<close>

locale block_set =
  fixes add :: "'m \<Rightarrow> 's \<Rightarrow> u32 \<Rightarrow> errcode + 's"
    and test :: "'s \<Rightarrow> u32 \<Rightarrow> bool"
    and del :: "'s \<Rightarrow> u32 \<Rightarrow> 's"
    and elems :: "'s \<Rightarrow> u32 set"
    and ok :: "'s \<Rightarrow> bool"
  assumes add_ok: "ok s \<Longrightarrow> add m s k = Inr s' \<Longrightarrow> ok s'"
    and add_elems: "ok s \<Longrightarrow> add m s k = Inr s' \<Longrightarrow> elems s' = insert k (elems s)"
    and test_elems: "ok s \<Longrightarrow> test s k \<longleftrightarrow> k \<in> elems s"
    and del_ok: "ok s \<Longrightarrow> ok (del s k)"
    and del_elems: "ok s \<Longrightarrow> elems (del s k) = elems s - {k}"
begin

lemma add_test: "ok s \<Longrightarrow> add m s k = Inr s' \<Longrightarrow> test s' b \<longleftrightarrow> b = k \<or> test s b"
  by (auto simp: test_elems add_elems add_ok)

lemma del_test: "ok s \<Longrightarrow> test (del s k) b \<longleftrightarrow> b \<noteq> k \<and> test s b"
  by (auto simp: test_elems del_elems del_ok)

lemma read_bb_loop_ok:
  "ok s \<Longrightarrow> read_bb_loop add fs lines s bad = (r, s', bad') \<Longrightarrow> ok s'"
proof (induction lines arbitrary: s bad)
  case (Cons line rest)
  obtain x m where line: "line = (x, m)" by (cases line)
  show ?case
  proof (cases x)
    case None
    with Cons line show ?thesis by auto
  next
    case (Some b)
    with Cons line show ?thesis by (auto split: if_splits sum.splits dest: add_ok)
  qed
qed auto

text \<open>A run that ends without error has accepted every block in range and nothing else.\<close>

lemma read_bb_loop_elems:
  assumes "ok s" and "read_bb_loop add fs lines s bad = (None, s', bad')"
  shows "elems s' = elems s \<union> {ucast b | b m. (Some b, m) \<in> set lines \<and> \<not> bb_out_of_range fs b}
       \<and> bad' = bad @ map ucast (filter (bb_out_of_range fs) (List.map_filter fst lines))
       \<and> (\<forall>b m. (Some b, m) \<in> set lines \<longrightarrow> drop_bit 32 b = 0)"
  using assms
proof (induction lines arbitrary: s bad)
  case Nil
  then show ?case by (simp add: map_filter_simps)
next
  case (Cons line rest)
  obtain x m where line: "line = (x, m)" by (cases line)
  show ?case
  proof (cases x)
    case None
    with Cons line show ?thesis by (auto simp: map_filter_simps)
  next
    case (Some b)
    with Cons.prems line have small: "drop_bit 32 b = 0" by (auto split: if_splits)
    show ?thesis
    proof (cases "bb_out_of_range fs b")
      case True
      with Cons.prems line Some small
      have rest: "read_bb_loop add fs rest s (bad @ [ucast b]) = (None, s', bad')" by simp
      from Cons.IH [OF Cons.prems(1) rest] line Some True small show ?thesis
        by (auto simp: map_filter_simps)
    next
      case False
      with Cons.prems line Some small obtain t where t: "add m s (ucast b) = Inr t"
        and rest: "read_bb_loop add fs rest t bad = (None, s', bad')"
        by (auto split: sum.splits)
      from Cons.IH [OF add_ok [OF Cons.prems(1) t] rest] add_elems [OF Cons.prems(1) t]
      show ?thesis using line Some False small by (auto simp: map_filter_simps)
    qed
  qed
qed

end

interpretation bl: block_set ext2fs_u32_list_add ext2fs_u32_list_test ext2fs_badblocks_list_del
  u32_elems u32_list_inv
proof unfold_locales
  fix s m k s'
  assume ok: "u32_list_inv s"
  show "ext2fs_u32_list_test s k \<longleftrightarrow> k \<in> u32_elems s" by (rule u32_list_test_iff [OF ok])
  show "u32_list_inv (ext2fs_badblocks_list_del s k)"
    and "u32_elems (ext2fs_badblocks_list_del s k) = u32_elems s - {k}"
    using u32_list_del_spec [OF ok, of k] unfolding ext2fs_badblocks_list_del_def
    by (metis prod.collapse)+
  show "u32_list_inv s'" and "u32_elems s' = insert k (u32_elems s)"
    if "ext2fs_u32_list_add m s k = Inr s'"
    using u32_list_add_spec [OF ok that] by auto
qed

lemma read_bb_loop_badblocks_add:
  "read_bb_loop ext2fs_badblocks_list_add fs lines bb bad =
   read_bb_loop ext2fs_u32_list_add fs lines bb bad"
proof -
  have "ext2fs_badblocks_list_add = ext2fs_u32_list_add"
    by (intro ext) (simp add: ext2fs_badblocks_list_add_def)
  then show ?thesis by simp
qed

section \<open>Properties\<close>

definition bb_example :: u32_list where
  "bb_example = \<lparr>ul_magic = Some EXT2_ET_MAGIC_BADBLOCKS_LIST, ul_num = 2, ul_size = 3,
                 ul_list = [3, 7, 0], badblocks_flags = 0\<rparr>"

lemma bb_example_inv: "u32_list_inv bb_example"
  by (simp add: u32_list_inv_def bb_example_def)

text \<open>C9: a successful insertion into a well-formed list keeps it well formed (sorted, without
  duplicates, within its array), and afterwards the membership test, a binary search over
  the array, answers yes for exactly the inserted block and the blocks it answered yes for
  before.\<close>

theorem u32_list_add_then_test:
  assumes "u32_list_inv bb" and "ext2fs_u32_list_add mem bb blk = Inr bb'"
  shows "u32_list_inv bb' \<and>
         (\<forall>b. ext2fs_u32_list_test bb' b \<longleftrightarrow> b = blk \<or> ext2fs_u32_list_test bb b)"
  using bl.add_ok [OF assms] bl.add_test [OF assms] by simp

theorem u32_list_add_then_test_witness:
  "ext2fs_u32_list_add None bb_example 5 = Inr (bb_example\<lparr>ul_list := [3, 5, 7], ul_num := 3\<rparr>) \<and>
   ext2fs_u32_list_test (bb_example\<lparr>ul_list := [3, 5, 7], ul_num := 3\<rparr>) 7"
proof -
  have a: "ext2fs_u32_list_add None bb_example 5 =
      Inr (bb_example\<lparr>ul_list := [3, 5, 7], ul_num := 3\<rparr>)"
    by code_simp
  have t: "ext2fs_u32_list_test bb_example 7" by code_simp
  show ?thesis using u32_list_add_then_test [OF bb_example_inv a] a t by simp
qed

text \<open>C25: deleting from a well-formed list keeps it well formed, returns 0 exactly when the
  block was present and -1 otherwise, and removes that block and no other.\<close>

theorem u32_list_del_then_test:
  assumes "u32_list_inv bb" and "ext2fs_u32_list_del bb blk = (r, bb')"
  shows "u32_list_inv bb' \<and> r = (if ext2fs_u32_list_test bb blk then 0 else -1) \<and>
         (\<forall>b. ext2fs_u32_list_test bb' b \<longleftrightarrow> b \<noteq> blk \<and> ext2fs_u32_list_test bb b)"
proof -
  have bb': "bb' = ext2fs_badblocks_list_del bb blk"
    by (simp add: ext2fs_badblocks_list_del_def assms(2))
  show ?thesis
    using u32_list_del_spec [OF assms] bl.del_test [OF assms(1)] u32_list_test_iff [OF assms(1)]
    unfolding bb' by simp
qed

theorem u32_list_del_then_test_witness:
  "ext2fs_u32_list_del bb_example 3 = (0, bb_example\<lparr>ul_list := [7, 7, 0], ul_num := 1\<rparr>) \<and>
   \<not> ext2fs_u32_list_test (bb_example\<lparr>ul_list := [7, 7, 0], ul_num := 1\<rparr>) 3"
proof -
  have d: "ext2fs_u32_list_del bb_example 3 = (0, bb_example\<lparr>ul_list := [7, 7, 0], ul_num := 1\<rparr>)"
    by code_simp
  show ?thesis using u32_list_del_then_test [OF bb_example_inv d] d by simp
qed

text \<open>stepping an iterator through a well-formed list until it reports the end needs at
  most one step more than the list has entries and yields every member once, in increasing
  order.\<close>

theorem u32_list_iterate_sorted:
  assumes "u32_list_inv bb" and "ext2fs_u32_list_iterate_begin ok bb = Inr iter"
    and "ext2fs_u32_list_count bb < fuel"
  shows "\<exists>bs. u32_list_drain fuel iter bb = Some bs \<and> ssorted bs \<and>
              (\<forall>b. b \<in> set bs \<longleftrightarrow> ext2fs_u32_list_test bb b)"
proof -
  from assms(2) have it: "it_magic iter = Some EXT2_ET_MAGIC_BADBLOCKS_ITERATE" "it_ptr iter = 0"
    by (auto simp: ext2fs_u32_list_iterate_begin_def split: if_splits)
  then have "u32_list_drain fuel iter bb = Some (take (ul_num bb) (ul_list bb))"
    using u32_list_drain_spec [OF assms(1) it(1), of fuel] assms(3)
    by (simp add: ext2fs_u32_list_count_def)
  then show ?thesis
    using assms(1) u32_list_test_iff [OF assms(1)] by (simp add: u32_list_inv_def u32_elems_def)
qed

theorem u32_list_iterate_sorted_witness:
  "\<exists>bs. u32_list_drain 3 \<lparr>it_magic = Some EXT2_ET_MAGIC_BADBLOCKS_ITERATE, it_ptr = 0\<rparr> bb_example
     = Some bs \<and> ssorted bs \<and> (\<forall>b. b \<in> set bs \<longleftrightarrow> ext2fs_u32_list_test bb_example b)"
  by (rule u32_list_iterate_sorted [OF bb_example_inv, of True])
     (simp_all add: ext2fs_u32_list_iterate_begin_def bb_example_def ext2fs_u32_list_count_def)

text \<open>two well-formed lists compare equal exactly when they hold the same blocks: the
  bytewise comparison of the arrays decides equality of the sets.\<close>

theorem u32_list_equal_iff:
  assumes "u32_list_inv bb1" and "u32_list_inv bb2"
  shows "ext2fs_u32_list_equal bb1 bb2 =
         Inr (\<forall>b. ext2fs_u32_list_test bb1 b \<longleftrightarrow> ext2fs_u32_list_test bb2 b)"
proof -
  let ?p1 = "take (ul_num bb1) (ul_list bb1)" and ?p2 = "take (ul_num bb2) (ul_list bb2)"
  note inv = assms [unfolded u32_list_inv_def]
  have "(\<forall>b. ext2fs_u32_list_test bb1 b \<longleftrightarrow> ext2fs_u32_list_test bb2 b) \<longleftrightarrow> set ?p1 = set ?p2"
    using assms by (auto simp: u32_list_test_iff u32_elems_def)
  also have "\<dots> \<longleftrightarrow> ?p1 = ?p2" using inv ssorted_set_unique by metis
  also have "\<dots> \<longleftrightarrow> ul_num bb1 = ul_num bb2 \<and> ?p1 = take (ul_num bb1) (ul_list bb2)"
    using inv by (metis length_take min.absorb2)
  finally show ?thesis using inv by (simp add: ext2fs_u32_list_equal_def)
qed

theorem u32_list_equal_iff_witness:
  "ext2fs_u32_list_equal bb_example bb_example = Inr True"
  using u32_list_equal_iff [OF bb_example_inv bb_example_inv] by simp

text \<open>reading a file of block numbers into a well-formed list, when it ends without an
  error, leaves a well-formed list that holds exactly the old blocks and the blocks read
  that lie inside the file system, reports the blocks outside it in order, and has
  met no block number of more than 32 bits.\<close>

theorem read_bb_FILE2_collects:
  assumes "u32_list_inv bb"
    and "ext2fs_read_bb_FILE2 ok1 ok2 fs lines (Some bb) = (None, Some bb', bad)"
  shows "u32_list_inv bb' \<and>
         (\<forall>x. ext2fs_u32_list_test bb' x \<longleftrightarrow> ext2fs_u32_list_test bb x \<or>
            (\<exists>b m. (Some b, m) \<in> set lines \<and> \<not> bb_out_of_range fs b \<and> x = ucast b)) \<and>
         bad = map ucast (filter (bb_out_of_range fs) (List.map_filter fst lines)) \<and>
         (\<forall>b m. (Some b, m) \<in> set lines \<longrightarrow> drop_bit 32 b = 0)"
proof -
  have loop: "read_bb_loop ext2fs_u32_list_add fs lines bb [] = (None, bb', bad)"
    using assms(2)
    by (auto simp: ext2fs_read_bb_FILE2_def read_bb_loop_badblocks_add
        split: if_splits prod.splits option.splits)
  have inv': "u32_list_inv bb'" by (rule bl.read_bb_loop_ok [OF assms(1) loop])
  show ?thesis
    using bl.read_bb_loop_elems [OF assms(1) loop] inv'
    by (auto simp: u32_list_test_iff [OF inv'] u32_list_test_iff [OF assms(1)])
qed

theorem read_bb_FILE2_collects_witness:
  "ext2fs_read_bb_FILE2 True True (Some \<lparr>bf_magic_ok = True, bf_first_data_block = 1,
       bf_blocks_count = 8\<rparr>) [(Some 5, None), (None, None), (Some 9, None)] (Some bb_example)
     = (None, Some (bb_example\<lparr>ul_list := [3, 5, 7], ul_num := 3\<rparr>), [9]) \<and>
   ext2fs_u32_list_test (bb_example\<lparr>ul_list := [3, 5, 7], ul_num := 3\<rparr>) 5"
proof -
  let ?fs = "Some \<lparr>bf_magic_ok = True, bf_first_data_block = 1, bf_blocks_count = 8\<rparr>"
  have r: "ext2fs_read_bb_FILE2 True True ?fs [(Some 5, None), (None, None), (Some 9, None)]
      (Some bb_example) = (None, Some (bb_example\<lparr>ul_list := [3, 5, 7], ul_num := 3\<rparr>), [9])"
    by code_simp
  have "\<not> bb_out_of_range ?fs 5" by code_simp
  then have "\<exists>b m. (Some b, m) \<in> set [(Some 5, None), (None, None), (Some 9, None :: u32 mem_outcome)]
      \<and> \<not> bb_out_of_range ?fs b \<and> (5 :: u32) = ucast (b :: u64)"
    by (intro exI [of _ 5] exI [of _ None]) simp
  with read_bb_FILE2_collects [OF bb_example_inv r] r show ?thesis by blast
qed

end
