(* ===== verification/Region.thy ===== *)
theory Region
  imports Ext2_Prelude
begin

text \<open>
  The region allocator of \<^verbatim>\<open>e2fsck/region.c\<close>, with which e2fsck checks that the pieces of an
  extended-attribute block do not overlap. A region keeps the allocated half-open
  intervals in a linked list, here an Isabelle list in the order of the links. Addresses
  are 64-bit words, so \<open>start + n\<close> wraps as the C code does.
\<close>

section \<open>Data and operations\<close>

record region_el =
  el_start :: u64
  el_end :: u64

record region_struct =
  region_min :: u64
  region_max :: u64
  allocated :: "region_el list"

definition region_create :: "bool \<Rightarrow> u64 \<Rightarrow> u64 \<Rightarrow> region_struct option" where
  "region_create ok mn mx =
     (if \<not> ok then None else Some \<lparr>region_min = mn, region_max = mx, allocated = []\<rparr>)"

definition region_conflict :: "u64 \<Rightarrow> u64 \<Rightarrow> region_el \<Rightarrow> bool" where
  "region_conflict st en r \<longleftrightarrow>
     (el_start r \<le> st \<and> st < el_end r) \<or>
     (el_start r < en \<and> en \<le> el_end r) \<or>
     (st \<le> el_start r \<and> el_end r \<le> en)"

text \<open>Past the loop: a new element is linked in before the rest of the list.\<close>

definition region_insert :: "bool \<Rightarrow> u64 \<Rightarrow> u64 \<Rightarrow> region_el list \<Rightarrow> int \<times> region_el list" where
  "region_insert ok st en rest =
     (if \<not> ok then (-1, rest) else (0, \<lparr>el_start = st, el_end = en\<rparr> # rest))"

fun region_loop :: "bool \<Rightarrow> u64 \<Rightarrow> u64 \<Rightarrow> region_el list \<Rightarrow> int \<times> region_el list" where
  "region_loop ok st en [] = region_insert ok st en []"
| "region_loop ok st en (r # rs) =
     (if region_conflict st en r then (1, r # rs)
      else if en = el_start r then (0, r\<lparr>el_start := st\<rparr> # rs)
      else if st = el_end r then
        (case rs of
           [] \<Rightarrow> (0, r\<lparr>el_end := en\<rparr> # rs)
         | nxt # rest \<Rightarrow>
             if el_start nxt < en then (1, r # rs)
             else if en = el_start nxt then (0, r\<lparr>el_end := el_end nxt\<rparr> # rest)
             else (0, r\<lparr>el_end := en\<rparr> # rs))
      else if st < el_start r then region_insert ok st en (r # rs)
      else (case region_loop ok st en rs of (rc, rs') \<Rightarrow> (rc, r # rs')))"

text \<open>\<open>n\<close> is a C \<open>int\<close>, converted to the 64-bit address type when it is added.\<close>

definition region_allocate :: "bool \<Rightarrow> region_struct \<Rightarrow> u64 \<Rightarrow> int \<Rightarrow> int \<times> region_struct" where
  "region_allocate ok reg st n =
     (let en = st + word_of_int n in
      if st < region_min reg \<or> region_max reg < en then (-1, reg)
      else if n = 0 then (1, reg)
      else case region_loop ok st en (allocated reg) of
             (rc, rs) \<Rightarrow> (rc, reg\<lparr>allocated := rs\<rparr>))"

section \<open>Invariant and the allocated set\<close>

text \<open>
  The list is sorted, its intervals are not empty, and between two neighbours there is a
  gap (touching intervals are merged).
\<close>

fun region_sorted :: "region_el list \<Rightarrow> bool" where
  "region_sorted [] = True"
| "region_sorted [r] = (el_start r < el_end r)"
| "region_sorted (r # s # rest) =
     (el_start r < el_end r \<and> el_end r < el_start s \<and> region_sorted (s # rest))"

definition el_cells :: "region_el \<Rightarrow> u64 set" where
  "el_cells r = {el_start r ..< el_end r}"

definition region_cells :: "region_el list \<Rightarrow> u64 set" where
  "region_cells rs = (\<Union>r \<in> set rs. el_cells r)"

definition region_inv :: "region_struct \<Rightarrow> bool" where
  "region_inv reg \<longleftrightarrow> region_sorted (allocated reg) \<and>
     region_cells (allocated reg) \<subseteq> {region_min reg ..< region_max reg}"

lemma region_cells_simps [simp]:
  "region_cells [] = {}" "region_cells (r # rs) = el_cells r \<union> region_cells rs"
  by (auto simp: region_cells_def)

lemma region_sorted_tl: "region_sorted (r # rs) \<Longrightarrow> region_sorted rs"
  by (cases rs) auto

lemma region_sorted_hd: "region_sorted (r # rs) \<Longrightarrow> el_start r < el_end r"
  by (cases rs) auto

lemma region_sorted_above:
  "region_sorted (r # rs) \<Longrightarrow> s \<in> set rs \<Longrightarrow> el_end r < el_start s"
proof (induction rs arbitrary: r)
  case (Cons t rs)
  then show ?case
    using region_sorted_hd [of t rs] by (auto intro: less_trans)
qed simp

lemma region_sorted_ConsI:
  "el_start r < el_end r \<Longrightarrow> region_sorted rs \<Longrightarrow> (\<forall>s \<in> set rs. el_end r < el_start s) \<Longrightarrow>
   region_sorted (r # rs)"
  by (cases rs) auto

lemma region_cells_above:
  "region_sorted (r # rs) \<Longrightarrow> c \<in> region_cells rs \<Longrightarrow> el_end r < c"
  using region_sorted_above [of r rs] by (fastforce simp: region_cells_def el_cells_def)

lemma region_conflict_iff:
  "st < en \<Longrightarrow> el_start r < el_end r \<Longrightarrow>
   region_conflict st en r \<longleftrightarrow> {st ..< en} \<inter> el_cells r \<noteq> {}"
  unfolding region_conflict_def el_cells_def
  by (auto simp: not_less not_le ivl_disj_int)

lemma region_start_in_cells: "region_sorted rs \<Longrightarrow> s \<in> set rs \<Longrightarrow> el_start s \<in> region_cells rs"
proof (induction rs)
  case (Cons r rs)
  then show ?case
    using region_sorted_hd [of r rs] region_sorted_tl [of r rs] by (auto simp: el_cells_def)
qed simp

lemma region_sorted_Cons_cells:
  assumes "el_start r < el_end r" "region_sorted rs" "\<forall>c \<in> region_cells rs. el_end r < c"
  shows "region_sorted (r # rs)"
  using assms region_start_in_cells [OF assms(2)] by (intro region_sorted_ConsI) auto

lemma interval_join:
  fixes a b c :: "'a::linorder"
  shows "a \<le> b \<Longrightarrow> b \<le> c \<Longrightarrow> {a ..< b} \<union> {b ..< c} = {a ..< c}"
  by (rule ivl_disj_un)

text \<open>
  What the loop does, in the three cases of its return value: a conflict leaves the list
  alone, a failed memory request too, and success adds exactly the requested cells.
\<close>

definition region_outcome ::
    "bool \<Rightarrow> u64 \<Rightarrow> u64 \<Rightarrow> region_el list \<Rightarrow> int \<Rightarrow> region_el list \<Rightarrow> bool" where
  "region_outcome ok st en rs rc rs' \<longleftrightarrow>
     (rc = 1 \<and> rs' = rs \<and> {st ..< en} \<inter> region_cells rs \<noteq> {}) \<or>
     (rc = -1 \<and> \<not> ok \<and> rs' = rs \<and> {st ..< en} \<inter> region_cells rs = {}) \<or>
     (rc = 0 \<and> {st ..< en} \<inter> region_cells rs = {} \<and> region_sorted rs' \<and>
        region_cells rs' = region_cells rs \<union> {st ..< en})"

lemma region_insert_outcome:
  assumes "region_sorted rs" "st < en" "\<forall>c \<in> region_cells rs. en < c"
    and "region_insert ok st en rs = (rc, rs')"
  shows "region_outcome ok st en rs rc rs'"
proof (cases ok)
  case True
  have dis: "{st ..< en} \<inter> region_cells rs = {}" using assms(3) by force
  have rs': "rc = 0" "rs' = \<lparr>el_start = st, el_end = en\<rparr> # rs"
    using True assms(4) by (auto simp: region_insert_def)
  have "region_sorted rs'"
    unfolding rs' using assms(1-3) by (intro region_sorted_Cons_cells) auto
  with rs' dis show ?thesis by (auto simp: region_outcome_def el_cells_def)
next
  case False
  moreover have "{st ..< en} \<inter> region_cells rs = {}" using assms(3) by force
  ultimately show ?thesis using assms(4) by (auto simp: region_outcome_def region_insert_def)
qed

lemma region_loop_append_case:
  assumes srt: "region_sorted (r # rs)" and se: "st < en" and st: "st = el_end r"
    and nc: "\<not> region_conflict st en r"
    and res: "(case rs of
           [] \<Rightarrow> (0, r\<lparr>el_end := en\<rparr> # rs)
         | nxt # rest \<Rightarrow>
             if el_start nxt < en then (1, r # rs)
             else if en = el_start nxt then (0, r\<lparr>el_end := el_end nxt\<rparr> # rest)
             else (0, r\<lparr>el_end := en\<rparr> # rs)) = (rc, rs')"
  shows "region_outcome ok st en (r # rs) rc rs'"
proof -
  have rr: "el_start r < el_end r" using srt by (rule region_sorted_hd)
  have dis: "{st ..< en} \<inter> el_cells r = {}"
    using nc region_conflict_iff [OF se rr] by simp
  have ext: "{el_start r ..< en} = el_cells r \<union> {st ..< en}"
    using interval_join [of "el_start r" st en] rr se st by (simp add: el_cells_def)
  have grow: "region_outcome ok st en (r # rs) 0 (r\<lparr>el_end := en\<rparr> # rs)"
    if "\<forall>c \<in> region_cells rs. en < c"
  proof -
    have "region_sorted (r\<lparr>el_end := en\<rparr> # rs)"
      using that rr se st region_sorted_tl [OF srt] by (intro region_sorted_Cons_cells) auto
    moreover have "{st ..< en} \<inter> region_cells rs = {}" using that by force
    ultimately show ?thesis using dis ext by (auto simp: region_outcome_def el_cells_def)
  qed
  show ?thesis
  proof (cases rs)
    case Nil
    with res grow show ?thesis by simp
  next
    case (Cons nxt rest)
    have nn: "el_start nxt < el_end nxt" "el_end r < el_start nxt"
      using srt Cons region_sorted_hd [of nxt rest] by auto
    have up: "\<forall>c \<in> region_cells rest. el_end nxt < c"
      using srt Cons region_cells_above [of nxt rest] by auto
    consider "el_start nxt < en" | "en = el_start nxt" | "en < el_start nxt" by fastforce
    then show ?thesis
    proof cases
      case 1
      then have "el_start nxt \<in> {st ..< en} \<inter> el_cells nxt"
        using nn st by (auto simp: el_cells_def)
      with 1 res Cons show ?thesis by (auto simp: region_outcome_def)
    next
      case 2
      have r': "rs' = r\<lparr>el_end := el_end nxt\<rparr> # rest" "rc = 0" using 2 res Cons by auto
      have "region_sorted rs'"
        unfolding r' using up rr nn srt Cons region_sorted_tl [of nxt rest]
        by (intro region_sorted_Cons_cells) auto
      moreover have "{el_start r ..< el_end nxt} = el_cells r \<union> {st ..< en} \<union> el_cells nxt"
        using interval_join [of "el_start r" en "el_end nxt"] ext 2 nn rr st se
        by (simp add: el_cells_def)
      moreover have "{st ..< en} \<inter> region_cells rs = {}"
        using 2 Cons up nn by (force simp: el_cells_def)
      ultimately show ?thesis
        using dis Cons r' by (auto simp: region_outcome_def el_cells_def)
    next
      case 3
      then have "\<forall>c \<in> region_cells rs. en < c" using Cons up nn by (force simp: el_cells_def)
      then have "region_outcome ok st en (r # rs) 0 (r\<lparr>el_end := en\<rparr> # rs)" by (rule grow)
      moreover have "rc = 0" "rs' = r\<lparr>el_end := en\<rparr> # rs"
        using 3 res Cons by (auto split: if_splits)
      ultimately show ?thesis by simp
    qed
  qed
qed

lemma region_loop_outcome:
  assumes "region_sorted rs" "st < en" "region_loop ok st en rs = (rc, rs')"
  shows "region_outcome ok st en rs rc rs'"
  using assms(1,3)
proof (induction rs arbitrary: rc rs')
  case Nil
  with assms(2) show ?case using region_insert_outcome [of "[]"] by simp
next
  case (Cons r rs)
  have rr: "el_start r < el_end r" using Cons.prems(1) by (rule region_sorted_hd)
  have up: "\<forall>c \<in> region_cells rs. el_end r < c" using region_cells_above [OF Cons.prems(1)] by blast
  show ?case
  proof (cases "region_conflict st en r")
    case True
    then show ?thesis
      using Cons.prems(2) region_conflict_iff [OF assms(2) rr] by (auto simp: region_outcome_def)
  next
    case nc: False
    then have dis: "{st ..< en} \<inter> el_cells r = {}"
      using region_conflict_iff [OF assms(2) rr] by simp
    consider (prepend) "en = el_start r" | (app) "en \<noteq> el_start r" "st = el_end r"
      | (before) "en < el_start r"  | (after) "el_end r < st"
      using nc assms(2) rr unfolding region_conflict_def
      by (metis not_le_imp_less order.strict_iff_order le_less_linear)
    then show ?thesis
    proof cases
      case prepend
      have res: "rc = 0" "rs' = r\<lparr>el_start := st\<rparr> # rs" using Cons.prems(2) nc prepend by auto
      have "region_sorted rs'"
        unfolding res using up rr assms(2) prepend region_sorted_tl [OF Cons.prems(1)]
        by (intro region_sorted_Cons_cells) auto
      moreover have "{st ..< el_end r} = {st ..< en} \<union> el_cells r"
        using interval_join [of st en "el_end r"] assms(2) prepend rr by (simp add: el_cells_def)
      moreover have "{st ..< en} \<inter> region_cells rs = {}" using up prepend rr by force
      ultimately show ?thesis
        using dis res by (auto simp: region_outcome_def el_cells_def)
    next
      case app
      with Cons.prems nc show ?thesis
        by (intro region_loop_append_case [OF Cons.prems(1) assms(2) app(2) nc]) auto
    next
      case before
      have "\<forall>c \<in> region_cells (r # rs). en < c"
        using before up rr by (force simp: el_cells_def)
      moreover have "region_insert ok st en (r # rs) = (rc, rs')"
        using Cons.prems(2) nc before assms(2) rr by (auto split: if_splits)
      ultimately show ?thesis by (rule region_insert_outcome [OF Cons.prems(1) assms(2)])
    next
      case after
      obtain rs1 where rec: "region_loop ok st en rs = (rc, rs1)" and rs': "rs' = r # rs1"
        using Cons.prems(2) nc after assms(2) rr
        by (auto split: if_splits prod.splits)
      have "region_outcome ok st en rs rc rs1"
        using Cons.IH [OF region_sorted_tl [OF Cons.prems(1)] rec] .
      moreover have "region_sorted (r # rs1)"
        if "region_sorted rs1" "region_cells rs1 = region_cells rs \<union> {st ..< en}"
        using that up after rr by (intro region_sorted_Cons_cells) auto
      ultimately show ?thesis using dis rs' by (auto simp: region_outcome_def)
    qed
  qed
qed

text \<open>
  A request is sane when its length is not negative and its end does not pass the end of
  the address type; the callers check lengths against the block size first.
\<close>

definition sane_request :: "u64 \<Rightarrow> int \<Rightarrow> bool" where
  "sane_request st n \<longleftrightarrow> 0 \<le> n \<and> uint st + n < 2 ^ 64"

definition request_cells :: "u64 \<Rightarrow> int \<Rightarrow> u64 set" where
  "request_cells st n = {st ..< st + word_of_int n}"

lemma uint_request_end: "sane_request st n \<Longrightarrow> uint (st + word_of_int n) = uint st + n"
proof -
  assume "sane_request st n"
  then have b: "0 \<le> uint st + n" "uint st + n < 2 ^ 64" by (auto simp: sane_request_def)
  have "uint (st + word_of_int n) = (uint st + n) mod 2 ^ 64"
    by (simp add: uint_word_ariths uint_word_of_int mod_simps)
  with b show ?thesis by (simp add: mod_pos_pos_trivial)
qed

lemma request_end_le: "sane_request st n \<Longrightarrow> st \<le> st + word_of_int n"
  by (simp add: word_le_def uint_request_end) (simp add: sane_request_def)

lemma request_end_less: "sane_request st n \<Longrightarrow> n \<noteq> 0 \<Longrightarrow> st < st + word_of_int n"
  by (simp add: word_less_def uint_request_end) (simp add: sane_request_def)

lemma region_allocate_outcome:
  assumes inv: "region_inv reg" and sane: "sane_request st n"
    and res: "region_allocate ok reg st n = (rc, reg')"
  shows "region_inv reg' \<and>
    (let inside = (region_min reg \<le> st \<and> st + word_of_int n \<le> region_max reg);
         clash = (request_cells st n \<inter> region_cells (allocated reg) \<noteq> {}) in
     (rc = 0 \<longrightarrow> inside \<and> n \<noteq> 0 \<and> \<not> clash \<and>
        region_cells (allocated reg') = region_cells (allocated reg) \<union> request_cells st n) \<and>
     (rc = 1 \<longleftrightarrow> inside \<and> (n = 0 \<or> clash)) \<and>
     (rc \<noteq> 0 \<longrightarrow> reg' = reg) \<and>
     (ok \<longrightarrow> (rc = -1 \<longleftrightarrow> \<not> inside)))"
proof -
  let ?en = "st + word_of_int n"
  consider (out) "\<not> (region_min reg \<le> st \<and> ?en \<le> region_max reg)"
    | (none) "region_min reg \<le> st" "?en \<le> region_max reg" "n = 0"
    | (run) "region_min reg \<le> st" "?en \<le> region_max reg" "n \<noteq> 0" by blast
  then show ?thesis
  proof cases
    case out
    then have "st < region_min reg \<or> region_max reg < ?en" by (auto simp: not_le)
    then have "rc = -1" "reg' = reg" using res by (auto simp: region_allocate_def Let_def)
    with out inv show ?thesis by auto
  next
    case none
    then have "\<not> st < region_min reg" "\<not> region_max reg < ?en" by (auto simp: not_less)
    with none have "rc = 1" "reg' = reg" using res by (auto simp: region_allocate_def Let_def)
    with none inv show ?thesis by auto
  next
    case run
    have b: "\<not> st < region_min reg" "\<not> region_max reg < ?en"
      using run(1,2) by (auto simp: not_less)
    obtain rs' where loop: "region_loop ok st ?en (allocated reg) = (rc, rs')"
      and reg': "reg' = reg\<lparr>allocated := rs'\<rparr>"
      using run(3) b res by (auto simp: region_allocate_def Let_def split: prod.splits)
    have srt: "region_sorted (allocated reg)" using inv by (simp add: region_inv_def)
    have o: "region_outcome ok st ?en (allocated reg) rc rs'"
      using region_loop_outcome [OF srt request_end_less [OF sane run(3)] loop] .
    have sub: "{st ..< ?en} \<subseteq> {region_min reg ..< region_max reg}" using run(1,2) by auto
    have "region_inv reg'"
      using o inv reg' sub unfolding region_outcome_def region_inv_def
      by (elim disjE) (simp_all del: ivl_subset)
    then show ?thesis
      using o run reg' unfolding region_outcome_def request_cells_def Let_def by auto
  qed
qed

text \<open>A sequence of requests, with the return values in order.\<close>

fun region_run :: "region_struct \<Rightarrow> (bool \<times> u64 \<times> int) list \<Rightarrow> int list \<times> region_struct" where
  "region_run reg [] = ([], reg)"
| "region_run reg ((ok, st, n) # qs) =
     (case region_allocate ok reg st n of (rc, reg1) \<Rightarrow>
      case region_run reg1 qs of (rcs, reg2) \<Rightarrow> (rc # rcs, reg2))"

fun granted :: "(bool \<times> u64 \<times> int) list \<Rightarrow> int list \<Rightarrow> u64 set list" where
  "granted ((ok, st, n) # qs) (rc # rcs) =
     (if rc = 0 then request_cells st n # granted qs rcs else granted qs rcs)"
| "granted _ _ = []"

lemma region_run_spec:
  assumes "region_inv reg" "list_all (\<lambda>(ok, st, n). sane_request st n) qs"
    and "region_run reg qs = (rcs, reg')"
  shows "region_inv reg' \<and>
     region_cells (allocated reg') = region_cells (allocated reg) \<union> \<Union> (set (granted qs rcs)) \<and>
     sorted_wrt (\<lambda>A B. A \<inter> B = {}) (granted qs rcs) \<and>
     (\<forall>A \<in> set (granted qs rcs). A \<inter> region_cells (allocated reg) = {})"
  using assms
proof (induction qs arbitrary: reg rcs)
  case Nil
  then show ?case by simp
next
  case (Cons q qs)
  obtain ok st n where q: "q = (ok, st, n)" by (cases q)
  obtain rc reg1 rcs1 where a: "region_allocate ok reg st n = (rc, reg1)"
    and r: "region_run reg1 qs = (rcs1, reg')" and rcs: "rcs = rc # rcs1"
    using Cons.prems(3) q by (auto split: prod.splits)
  have sane: "sane_request st n" using Cons.prems(2) q by simp
  note o = region_allocate_outcome [OF Cons.prems(1) sane a, unfolded Let_def]
  then have ih: "region_inv reg' \<and>
     region_cells (allocated reg') = region_cells (allocated reg1) \<union> \<Union> (set (granted qs rcs1)) \<and>
     sorted_wrt (\<lambda>A B. A \<inter> B = {}) (granted qs rcs1) \<and>
     (\<forall>A \<in> set (granted qs rcs1). A \<inter> region_cells (allocated reg1) = {})"
    using Cons.IH [of reg1 rcs1] r Cons.prems(2) by simp
  show ?case
  proof (cases "rc = 0")
    case True
    then have "region_cells (allocated reg1) = region_cells (allocated reg) \<union> request_cells st n"
      and "request_cells st n \<inter> region_cells (allocated reg) = {}" using o by auto
    with ih True q rcs show ?thesis by auto
  next
    case False
    then have "reg1 = reg" using o by auto
    with ih False q rcs show ?thesis by auto
  qed
qed

section \<open>Properties\<close>

text \<open>C21: a request of \<open>n\<close> cells whose end does not wrap, on a well-formed region: the list
  stays sorted, disjoint, merged and inside the bounds; 0 is returned only for a non-empty
  request inside the bounds that touches no allocated cell, and then exactly the
  requested cells become allocated; 1 is returned exactly for an empty request or an
  overlap inside the bounds; when memory is available, -1 is returned exactly for a request
  outside the bounds; on any other value than 0 nothing changes.\<close>

theorem region_allocate_correct:
  assumes "region_inv reg" and "sane_request st n"
    and "region_allocate ok reg st n = (rc, reg')"
  shows "region_inv reg' \<and>
    (let inside = (region_min reg \<le> st \<and> st + word_of_int n \<le> region_max reg);
         clash = (request_cells st n \<inter> region_cells (allocated reg) \<noteq> {}) in
     (rc = 0 \<longrightarrow> inside \<and> n \<noteq> 0 \<and> \<not> clash \<and>
        region_cells (allocated reg') = region_cells (allocated reg) \<union> request_cells st n) \<and>
     (rc = 1 \<longleftrightarrow> inside \<and> (n = 0 \<or> clash)) \<and>
     (rc \<noteq> 0 \<longrightarrow> reg' = reg) \<and>
     (ok \<longrightarrow> (rc = -1 \<longleftrightarrow> \<not> inside)))"
  using assms by (rule region_allocate_outcome)

definition region_example :: region_struct where
  "region_example = \<lparr>region_min = 1, region_max = 1001,
     allocated = [\<lparr>el_start = 10, el_end = 20\<rparr>, \<lparr>el_start = 30, el_end = 40\<rparr>]\<rparr>"

lemma region_example_inv: "region_inv region_example"
  by (auto simp: region_inv_def region_example_def el_cells_def intro: le_less_trans less_le_trans)

theorem region_allocate_correct_witness:
  "region_allocate True region_example 20 10 =
     (0, region_example\<lparr>allocated := [\<lparr>el_start = 10, el_end = 40\<rparr>]\<rparr>) \<and>
   region_inv (region_example\<lparr>allocated := [\<lparr>el_start = 10, el_end = 40\<rparr>]\<rparr>)"
proof -
  have r: "region_allocate True region_example 20 10 =
     (0, region_example\<lparr>allocated := [\<lparr>el_start = 10, el_end = 40\<rparr>]\<rparr>)" by code_simp
  have s: "sane_request 20 10" by (simp add: sane_request_def)
  show ?thesis using region_allocate_correct [OF region_example_inv s r] r by simp
qed

text \<open>C8: For any sequence of requests to a fresh region whose counts are not negative and whose ends do not wrap around at \<open>2 ^ 64\<close>
  (\<open>sane_request\<close>), the requests that were granted are pairwise disjoint, and the cells recorded as allocated are exactly those of the granted
  requests.\<close>

theorem region_never_double_allocates:
  assumes "region_create True mn mx = Some reg"
    and "list_all (\<lambda>(ok, st, n). sane_request st n) qs"
    and "region_run reg qs = (rcs, reg')"
  shows "sorted_wrt (\<lambda>A B. A \<inter> B = {}) (granted qs rcs) \<and>
         region_cells (allocated reg') = \<Union> (set (granted qs rcs))"
proof -
  have reg: "allocated reg = []" "region_inv reg"
    using assms(1) by (auto simp: region_create_def region_inv_def)
  show ?thesis using region_run_spec [OF reg(2) assms(2,3)] reg(1) by simp
qed

theorem region_never_double_allocates_witness:
  "fst (region_run \<lparr>region_min = 1, region_max = 1001, allocated = []\<rparr>
     [(True, 10, 10), (True, 30, 10), (True, 15, 8), (True, 20, 10)]) = [0, 0, 1, 0] \<and>
   sorted_wrt (\<lambda>A B. A \<inter> B = {}) (granted
     [(True, 10, 10), (True, 30, 10), (True, 15, 8), (True, 20, 10)] [0, 0, 1, 0])"
proof -
  let ?reg = "\<lparr>region_min = 1, region_max = 1001, allocated = []\<rparr>"
  let ?qs = "[(True, 10, 10), (True, 30, 10), (True, 15, 8), (True, 20, 10)]"
  have c: "region_create True 1 1001 = Some ?reg" by (simp add: region_create_def)
  have s: "list_all (\<lambda>(ok, st, n). sane_request st n) ?qs" by (simp add: sane_request_def)
  have f: "fst (region_run ?reg ?qs) = [0, 0, 1, 0]" by code_simp
  then have r: "region_run ?reg ?qs = ([0, 0, 1, 0], snd (region_run ?reg ?qs))"
    by (simp add: prod_eq_iff)
  show ?thesis using f region_never_double_allocates [OF c s r] by simp
qed

text \<open>C26: The condition that counts are not negative is needed: the count is a signed number, and a negative one passes the guards. In any fresh
  region, and for any \<open>n \<ge> 2\<close> cells inside it from \<open>st\<close> on, the allocation of the cells is granted, then a request of \<open>- n\<close> cells at
  their end is granted too and empties the element, and then the first \<open>n - 1\<close> of the same cells are granted a second time.\<close>

theorem region_negative_count_regrants:
  assumes "region_create True mn mx = Some reg" "2 \<le> n" "uint mn \<le> uint st" "uint st + n \<le> uint mx"
  shows "fst (region_run reg [(True, st, n), (True, st + word_of_int n, - n), (True, st, n - 1)]) = [0, 0, 0]"
proof -
  have reg: "reg = \<lparr>region_min = mn, region_max = mx, allocated = []\<rparr>" using assms(1) by (simp add: region_create_def)
  have "uint mx < 2 ^ 64" using uint_bounded[of mx] by simp
  then have sane: "sane_request st n" "sane_request st (n - 1)"
    using assms(2,4) unfolding sane_request_def by linarith+
  define en e1 where "en = st + word_of_int n" and "e1 = st + word_of_int (n - 1)"
  have en: "uint en = uint st + n" "uint e1 = uint st + (n - 1)"
    unfolding en_def e1_def by (rule uint_request_end[OF sane(1)], rule uint_request_end[OF sane(2)])
  have undo: "en + word_of_int (- n) = st" by (simp add: en_def)
  have n: "n \<noteq> 0" "- n \<noteq> 0" "n - 1 \<noteq> 0" using assms(2) by simp_all
  have guards: "\<not> (st < mn \<or> mx < en)" "\<not> (en < mn \<or> mx < st)" "\<not> (st < mn \<or> mx < e1)"
    using assms(2-4) en unfolding word_less_def by linarith+
  have order: "st < e1" "e1 < en" "st < en" using assms(2) en unfolding word_less_def by linarith+
  then have o: "\<not> en \<le> st" "\<not> en < e1" "\<not> en \<le> e1" "e1 \<noteq> en" "en \<noteq> st" "\<not> en < st" "\<not> e1 < st" by auto
  define reg1 reg2 where "reg1 = reg\<lparr>allocated := [\<lparr>el_start = st, el_end = en\<rparr>]\<rparr>"
    and "reg2 = reg\<lparr>allocated := [\<lparr>el_start = en, el_end = en\<rparr>]\<rparr>"
  have loops: "region_loop True st en [] = (0, [\<lparr>el_start = st, el_end = en\<rparr>])"
    "region_loop True en st [\<lparr>el_start = st, el_end = en\<rparr>] = (0, [\<lparr>el_start = en, el_end = en\<rparr>])"
    "fst (region_loop True st e1 [\<lparr>el_start = en, el_end = en\<rparr>]) = 0"
    using o order by (simp_all add: region_insert_def region_conflict_def)
  have f: "region_min reg = mn" "region_max reg = mx" "allocated reg = []" by (simp_all add: reg)
  have 1: "region_allocate True reg st n = (0, reg1)"
    unfolding region_allocate_def en_def[symmetric] Let_def f if_not_P[OF guards(1)] if_not_P[OF n(1)] loops reg1_def by simp
  have f1: "region_min reg1 = mn" "region_max reg1 = mx" "allocated reg1 = [\<lparr>el_start = st, el_end = en\<rparr>]"
    by (simp_all add: reg1_def reg)
  have 2: "region_allocate True reg1 en (- n) = (0, reg2)"
    unfolding region_allocate_def undo Let_def f1 if_not_P[OF guards(2)] if_not_P[OF n(2)] loops by (simp add: reg1_def reg2_def)
  have f2: "region_min reg2 = mn" "region_max reg2 = mx" "allocated reg2 = [\<lparr>el_start = en, el_end = en\<rparr>]"
    by (simp_all add: reg2_def reg)
  have 3: "fst (region_allocate True reg2 st (n - 1)) = 0"
    unfolding region_allocate_def e1_def[symmetric] Let_def f2 if_not_P[OF guards(3)] if_not_P[OF n(3)]
    using loops(3) by (simp add: case_prod_beta)
  obtain reg3 where 4: "region_allocate True reg2 st (n - 1) = (0, reg3)" using 3 by (metis prod.collapse)
  show ?thesis unfolding en_def[symmetric] region_run.simps 1 2 4 prod.case by simp
qed

theorem region_negative_count_regrants_witness:
  "fst (region_run \<lparr>region_min = 0, region_max = 1024, allocated = []\<rparr> [(True, 16, 8), (True, 24, - 8), (True, 16, 7)]) = [0, 0, 0]"
  using region_negative_count_regrants[of 0 1024 "\<lparr>region_min = 0, region_max = 1024, allocated = []\<rparr>" 8 16]
  by (simp add: region_create_def)

end
