(* ===== verification/Extent_Table.thy ===== *)
theory Extent_Table
  imports Ext2_Prelude Complex_Main
begin

text \<open>
  The translation table of \<^verbatim>\<open>resize/extent.c\<close>: resize2fs records in it every block or inode
  it moves (\<open>ext2fs_add_extent_entry\<close>) and looks every reference up in it
  (\<open>ext2fs_extent_translate\<close>). Runs of consecutive moves share one entry, the table is
  sorted on the first lookup after an entry came out of order, and the lookup is an
  interpolation search in single-precision arithmetic. The rounding of that arithmetic
  depends on the platform, so it is a parameter \<open>rnd\<close> of the lookup.
\<close>

section \<open>Data and operations\<close>

record ext2_extent_entry =
  old_loc :: u64
  new_loc :: u64
  ent_size :: u64

record ext2_extent =
  ext_list :: "ext2_extent_entry list"
  ext_cursor :: nat
  ext_size :: nat
  ext_num :: nat
  ext_sorted :: bool

definition zero_entry :: ext2_extent_entry where
  "zero_entry = \<lparr>old_loc = 0, new_loc = 0, ent_size = 0\<rparr>"

definition ext2fs_create_extent_table :: "bool \<Rightarrow> bool \<Rightarrow> nat \<Rightarrow> errcode + ext2_extent" where
  "ext2fs_create_extent_table ok_struct ok_array size0 =
     (if \<not> ok_struct then Inl EXT2_ET_NO_MEMORY
      else let sz = (if size0 \<noteq> 0 then size0 else 50)
       in if \<not> ok_array then Inl EXT2_ET_NO_MEMORY
          else Inr \<lparr>ext_list = replicate sz zero_entry, ext_cursor = 0, ext_size = sz,
                    ext_num = 0, ext_sorted = True\<rparr>)"

definition extent_grow :: "ext2_extent_entry mem_outcome \<Rightarrow> ext2_extent \<Rightarrow> errcode + ext2_extent" where
  "extent_grow mem ex =
     (if ext_size ex \<le> ext_num ex then
        (case mem of
           None \<Rightarrow> Inl EXT2_ET_NO_MEMORY
         | Some g \<Rightarrow> Inr (ex\<lparr>ext_list := ext_list ex @ fresh_cells g 100,
                             ext_size := ext_size ex + 100\<rparr>))
      else Inr ex)"

definition extent_append :: "ext2_extent \<Rightarrow> u64 \<Rightarrow> u64 \<Rightarrow> ext2_extent" where
  "extent_append ex old new =
     ex\<lparr>ext_list := (ext_list ex)[ext_num ex := \<lparr>old_loc = old, new_loc = new, ent_size = 1\<rparr>],
        ext_num := ext_num ex + 1\<rparr>"

definition ext2fs_add_extent_entry ::
    "ext2_extent_entry mem_outcome \<Rightarrow> ext2_extent \<Rightarrow> u64 \<Rightarrow> u64 \<Rightarrow> errcode + ext2_extent" where
  "ext2fs_add_extent_entry mem ex0 old new =
     (case extent_grow mem ex0 of
        Inl e \<Rightarrow> Inl e
      | Inr ex \<Rightarrow>
          let curr = ext_num ex in
          if curr \<noteq> 0 then
            let ent = ext_list ex ! (curr - 1) in
            if old_loc ent + ent_size ent = old \<and> new_loc ent + ent_size ent = new then
              Inr (ex\<lparr>ext_list := (ext_list ex)[curr - 1 := ent\<lparr>ent_size := ent_size ent + 1\<rparr>]\<rparr>)
            else if old < old_loc ent + ent_size ent then
              Inr (extent_append (ex\<lparr>ext_sorted := False\<rparr>) old new)
            else Inr (extent_append ex old new)
          else Inr (extent_append ex old new))"

text \<open>
  The comparison function returns a C \<open>int\<close>: the 64-bit difference cut to its low 32 bits
  and read as a signed number.
\<close>

definition extent_cmp :: "ext2_extent_entry \<Rightarrow> ext2_extent_entry \<Rightarrow> int" where
  "extent_cmp a b = sint (ucast (old_loc a - old_loc b) :: u32)"

text \<open>
  \<^verbatim>\<open>qsort\<close> of the C library, as insertion by the caller's comparison. C leaves the order of
  elements that compare equal open; the results below do not depend on it.
\<close>

fun qsort_insert :: "('a \<Rightarrow> 'a \<Rightarrow> int) \<Rightarrow> 'a \<Rightarrow> 'a list \<Rightarrow> 'a list" where
  "qsort_insert cmp x [] = [x]"
| "qsort_insert cmp x (y # ys) = (if cmp x y \<le> 0 then x # y # ys else y # qsort_insert cmp x ys)"

fun qsort :: "('a \<Rightarrow> 'a \<Rightarrow> int) \<Rightarrow> 'a list \<Rightarrow> 'a list" where
  "qsort cmp [] = []"
| "qsort cmp (x # xs) = qsort_insert cmp x (qsort cmp xs)"

text \<open>The values of the C constants \<open>0.9\<close> and \<open>0.1\<close>, which are of type \<open>double\<close>.\<close>

definition dbl_0_9 :: rat where "dbl_0_9 = 8106479329266893 / 2 ^ 53"
definition dbl_0_1 :: rat where "dbl_0_1 = 3602879701896397 / 2 ^ 55"

text \<open>
  The probe position of the interpolation. \<open>rnd\<close> rounds a value to \<open>float\<close>. \<open>None\<close> is
  a division by zero, whose conversion to an integer C leaves undefined.
\<close>

definition extent_range :: "(rat \<Rightarrow> rat) \<Rightarrow> u64 \<Rightarrow> u64 \<Rightarrow> u64 \<Rightarrow> rat option" where
  "extent_range rnd old lowval highval =
     (if old < lowval then Some 0
      else if highval < old then Some 1
      else if highval = lowval then None
      else
        let rg = rnd (rnd (of_int (uint (old - lowval))) / rnd (of_int (uint (highval - lowval))));
            rg = (if dbl_0_9 < rg then rnd dbl_0_9 else rg);
            rg = (if rg < dbl_0_1 then rnd dbl_0_1 else rg)
        in Some rg)"

definition extent_mid ::
    "(rat \<Rightarrow> rat) \<Rightarrow> ext2_extent_entry list \<Rightarrow> u64 \<Rightarrow> int \<Rightarrow> int \<Rightarrow> int option" where
  "extent_mid rnd l old low high =
     (if low = high then Some low
      else case extent_range rnd old (old_loc (l ! nat low)) (old_loc (l ! nat high)) of
          None \<Rightarrow> None
        | Some rg \<Rightarrow> Some (low + \<lfloor>rnd (rg * rnd (of_int (high - low)))\<rfloor>))"

text \<open>
  The search loop. \<open>None\<close> when a probe is undefined or leaves \<open>low .. high\<close>, where the C code
  would read entries it has excluded or cells outside the table; the correctness theorem
  shows that this does not happen.
\<close>

function extent_search ::
    "(rat \<Rightarrow> rat) \<Rightarrow> ext2_extent_entry list \<Rightarrow> u64 \<Rightarrow> int \<Rightarrow> int \<Rightarrow> u64 option" where
  "extent_search rnd l old low high =
     (if low \<le> high then
        (case extent_mid rnd l old low high of
           None \<Rightarrow> None
         | Some mid \<Rightarrow>
             if mid < low \<or> high < mid then None
             else let ent = l ! nat mid in
               if old_loc ent \<le> old \<and> old < old_loc ent + ent_size ent then
                 Some (new_loc ent + (old - old_loc ent))
               else if old < old_loc ent then extent_search rnd l old low (mid - 1)
               else extent_search rnd l old (mid + 1) high)
      else Some 0)"
  by pat_completeness auto
termination
  by (relation "measure (\<lambda>(rnd, l, old, low, high). nat (high - low + 1))") auto

declare extent_search.simps [simp del]

definition extent_sort :: "ext2_extent \<Rightarrow> ext2_extent" where
  "extent_sort ex =
     (if ext_sorted ex then ex
      else ex\<lparr>ext_list := qsort extent_cmp (take (ext_num ex) (ext_list ex)) @
                drop (ext_num ex) (ext_list ex), ext_sorted := True\<rparr>)"

text \<open>The lookup returns the translation (0 for none) and the table, sorted by the call.\<close>

definition ext2fs_extent_translate ::
    "(rat \<Rightarrow> rat) \<Rightarrow> ext2_extent \<Rightarrow> u64 \<Rightarrow> u64 option \<times> ext2_extent" where
  "ext2fs_extent_translate rnd ex0 old =
     (let ex = extent_sort ex0 in
      (extent_search rnd (ext_list ex) old 0 (int (ext_num ex) - 1), ex))"

text \<open>
  The iteration: \<open>None\<close> for a null \<open>old_loc\<close> pointer, which rewinds the cursor; the three
  values are those written through the pointers.
\<close>

definition ext2fs_iterate_extent ::
    "ext2_extent \<Rightarrow> bool \<Rightarrow> (u64 \<times> u64 \<times> u64) option \<times> ext2_extent" where
  "ext2fs_iterate_extent ex want =
     (if \<not> want then (None, ex\<lparr>ext_cursor := 0\<rparr>)
      else if ext_num ex \<le> ext_cursor ex then (Some (0, 0, 0), ex)
      else let ent = ext_list ex ! ext_cursor ex in
        (Some (old_loc ent, new_loc ent, ent_size ent), ex\<lparr>ext_cursor := ext_cursor ex + 1\<rparr>))"

section \<open>Probe positions\<close>

text \<open>
  What the lookup relies on of single precision: rounding is monotone and integers of at
  most 24 bits are exact.
\<close>

definition float_rounding :: "(rat \<Rightarrow> rat) \<Rightarrow> bool" where
  "float_rounding rnd \<longleftrightarrow> mono rnd \<and> (\<forall>n::int. 0 \<le> n \<and> n \<le> 2 ^ 24 \<longrightarrow> rnd (of_int n) = of_int n)"

lemma float_rounding_01: "float_rounding rnd \<Longrightarrow> rnd 0 = 0 \<and> rnd 1 = 1"
  unfolding float_rounding_def by (metis of_int_0 of_int_1 order_refl zero_le_numeral zero_le_one
      one_le_numeral one_le_power zero_le_power)

lemma extent_range_unit:
  assumes "float_rounding rnd" and "lowval < highval"
  shows "\<exists>rg. extent_range rnd old lowval highval = Some rg \<and> 0 \<le> rg \<and> rg \<le> 1"
proof -
  have m: "x \<le> y \<Longrightarrow> rnd x \<le> rnd y" for x y
    using assms(1) by (auto simp: float_rounding_def mono_def)
  note z = float_rounding_01 [OF assms(1)]
  have "rnd dbl_0_9 \<le> 1" using m [of dbl_0_9 1] z by (simp add: dbl_0_9_def)
  moreover have "0 \<le> rnd dbl_0_9" using m [of 0 dbl_0_9] z by (simp add: dbl_0_9_def)
  moreover have "rnd dbl_0_1 \<le> 1" using m [of dbl_0_1 1] z by (simp add: dbl_0_1_def)
  moreover have "0 \<le> rnd dbl_0_1" using m [of 0 dbl_0_1] z by (simp add: dbl_0_1_def)
  moreover have "rg \<le> dbl_0_9 \<Longrightarrow> rg \<le> 1" for rg by (simp add: dbl_0_9_def)
  moreover have "dbl_0_1 \<le> rg \<Longrightarrow> 0 \<le> rg" for rg by (simp add: dbl_0_1_def)
  ultimately show ?thesis using assms(2) by (auto simp: extent_range_def Let_def not_less)
qed

lemma extent_mid_bounds:
  assumes fl: "float_rounding rnd" and le: "low \<le> high" and sz: "high - low \<le> 2 ^ 24"
    and lt: "low < high \<Longrightarrow> old_loc (l ! nat low) < old_loc (l ! nat high)"
  shows "\<exists>mid. extent_mid rnd l old low high = Some mid \<and> low \<le> mid \<and> mid \<le> high"
proof (cases "low = high")
  case True
  then show ?thesis by (simp add: extent_mid_def)
next
  case False
  then have "low < high" using le by simp
  from extent_range_unit [OF fl lt [OF this]] obtain rg where
    rg: "extent_range rnd old (old_loc (l ! nat low)) (old_loc (l ! nat high)) = Some rg"
        "0 \<le> rg" "rg \<le> 1" by blast
  define n where "n = high - low"
  have "0 \<le> n" "n \<le> 2 ^ 24" using sz le by (auto simp: n_def)
  then have n: "0 \<le> n" "rnd (of_int n) = of_int n"
    using fl unfolding float_rounding_def by blast+
  have m: "x \<le> y \<Longrightarrow> rnd x \<le> rnd y" for x y using fl by (auto simp: float_rounding_def mono_def)
  have "rg * of_int n \<le> of_int n" using rg(2,3) n(1) by (simp add: mult_left_le_one_le)
  then have "rnd (rg * of_int n) \<le> of_int n" using m n(2) by metis
  moreover have "0 \<le> rnd (rg * of_int n)"
    using m [of 0 "rg * of_int n"] rg(2) n(1) float_rounding_01 [OF fl] by simp
  ultimately have "0 \<le> \<lfloor>rnd (rg * of_int n)\<rfloor>" "\<lfloor>rnd (rg * of_int n)\<rfloor> \<le> n" by linarith+
  then show ?thesis
    using False rg(1) n by (simp add: extent_mid_def n_def [symmetric]) (simp add: n_def)
qed

section \<open>What a table means\<close>

definition ent_ok :: "ext2_extent_entry \<Rightarrow> bool" where
  "ent_ok e \<longleftrightarrow> 0 < uint (ent_size e) \<and> uint (old_loc e) + uint (ent_size e) < 2 ^ 64"

definition ent_covers :: "ext2_extent_entry \<Rightarrow> u64 \<Rightarrow> bool" where
  "ent_covers e old \<longleftrightarrow> old_loc e \<le> old \<and> old < old_loc e + ent_size e"

definition ent_image :: "ext2_extent_entry \<Rightarrow> u64 \<Rightarrow> u64" where
  "ent_image e old = new_loc e + (old - old_loc e)"

definition ext_rel :: "ext2_extent_entry list \<Rightarrow> u64 \<Rightarrow> u64 \<Rightarrow> bool" where
  "ext_rel es old new \<longleftrightarrow> (\<exists>e \<in> set es. ent_covers e old \<and> new = ent_image e old)"

text \<open>The entries are well formed and their ranges do not meet.\<close>

definition ext_apart :: "ext2_extent_entry list \<Rightarrow> bool" where
  "ext_apart es \<longleftrightarrow> (\<forall>e \<in> set es. ent_ok e) \<and> distinct (map old_loc es) \<and>
     (\<forall>a \<in> set es. \<forall>b \<in> set es. old_loc a < old_loc b \<longrightarrow>
        uint (old_loc a) + uint (ent_size a) \<le> uint (old_loc b))"

lemma uint_ent_end: "ent_ok e \<Longrightarrow> uint (old_loc e + ent_size e) = uint (old_loc e) + uint (ent_size e)"
proof -
  assume "ent_ok e"
  then have "uint (old_loc e) + uint (ent_size e) < 2 ^ 64" by (simp add: ent_ok_def)
  then show ?thesis by (simp add: uint_word_ariths mod_pos_pos_trivial)
qed

lemma ent_covers_uint:
  "ent_ok e \<Longrightarrow> ent_covers e old \<longleftrightarrow>
     uint (old_loc e) \<le> uint old \<and> uint old < uint (old_loc e) + uint (ent_size e)"
  by (simp add: ent_covers_def word_le_def word_less_def uint_ent_end)

lemma ent_covers_own: "ent_ok e \<Longrightarrow> ent_covers e (old_loc e)"
  by (simp add: ent_covers_uint) (simp add: ent_ok_def)

lemma ext_apart_unique:
  assumes "ext_apart es" "a \<in> set es" "b \<in> set es" "ent_covers a x" "ent_covers b x"
  shows "a = b"
proof (rule ccontr)
  assume "a \<noteq> b"
  have ok: "ent_ok a" "ent_ok b" using assms by (auto simp: ext_apart_def)
  have "old_loc a \<noteq> old_loc b"
    using \<open>a \<noteq> b\<close> assms(1-3) unfolding ext_apart_def by (metis distinct_map inj_onD)
  moreover have "old_loc a < old_loc b \<Longrightarrow> uint (old_loc a) + uint (ent_size a) \<le> uint (old_loc b)"
    and "old_loc b < old_loc a \<Longrightarrow> uint (old_loc b) + uint (ent_size b) \<le> uint (old_loc a)"
    using assms(1-3) by (auto simp: ext_apart_def)
  ultimately show False
    using assms(4,5) ok by (cases "old_loc a" "old_loc b" rule: linorder_cases) (auto simp: ent_covers_uint)
qed

lemma ext_rel_functional:
  "ext_apart es \<Longrightarrow> ext_rel es old m \<Longrightarrow> ext_rel es old n \<Longrightarrow> m = n"
  unfolding ext_rel_def using ext_apart_unique by blast

section \<open>The search\<close>

definition ext_key_sorted :: "ext2_extent_entry list \<Rightarrow> bool" where
  "ext_key_sorted es \<longleftrightarrow> ext_apart es \<and> ssorted (map old_loc es)"

lemma extent_search_spec:
  assumes fl: "float_rounding rnd" and srt: "ext_key_sorted (take num l)"
    and len: "num \<le> length l" and small: "num \<le> 2 ^ 24"
    and "0 \<le> low" and "high < int num"
    and "\<forall>k < num. ent_covers (l ! k) old \<longrightarrow> low \<le> int k \<and> int k \<le> high"
  shows "\<exists>r. extent_search rnd l old low high = Some r \<and>
     (if \<exists>n. ext_rel (take num l) old n then ext_rel (take num l) old r else r = 0)"
  using assms
proof (induction rnd l old low high rule: extent_search.induct)
  case (1 rnd l old low high)
  note prems = "1.prems"
  have less: "old_loc (l ! i) < old_loc (l ! j)" if "i < j" "j < num" for i j
    using that prems(2,3) ssorted_nth_less [of "map old_loc (take num l)" i j]
    by (simp add: ext_key_sorted_def)
  have ok: "ent_ok (l ! i)" if "i < num" for i
    using that prems(2,3) nth_take_mem [of i num l] by (auto simp: ext_key_sorted_def ext_apart_def)
  show ?case
  proof (cases "low \<le> high")
    case False
    then have "\<not> ext_rel (take num l) old n" for n
      using prems(3,7) by (force simp: ext_rel_def in_set_conv_nth)
    with False show ?thesis by (subst extent_search.simps) auto
  next
    case True
    have "\<exists>mid. extent_mid rnd l old low high = Some mid \<and> low \<le> mid \<and> mid \<le> high"
      using prems True less by (intro extent_mid_bounds) (auto simp: nat_less_iff)
    then obtain mid where mid: "extent_mid rnd l old low high = Some mid" "low \<le> mid" "mid \<le> high"
      by blast
    let ?e = "l ! nat mid"
    have mn: "nat mid < num" and m0: "0 \<le> mid" using mid prems(5,6) by auto
    have inset: "?e \<in> set (take num l)" using mn prems(3) by blast
    show ?thesis
    proof (cases "ent_covers ?e old")
      case cov: True
      then have "extent_search rnd l old low high = Some (ent_image ?e old)"
        using True mid by (subst extent_search.simps) (simp add: ent_covers_def ent_image_def Let_def)
      moreover have "ext_rel (take num l) old (ent_image ?e old)"
        using cov inset by (auto simp: ext_rel_def)
      ultimately show ?thesis by auto
    next
      case nc: False
      show ?thesis
      proof (cases "old < old_loc ?e")
        case lt: True
        have "int k \<le> mid - 1" if "k < num" "ent_covers (l ! k) old" for k
        proof (rule ccontr)
          assume "\<not> int k \<le> mid - 1"
          then have "nat mid \<le> k" using m0 by linarith
          then have "old_loc ?e \<le> old_loc (l ! k)"
            using less that(1) by (cases "nat mid = k") (auto intro: less_imp_le)
          then show False using that(2) lt by (auto simp: ent_covers_def)
        qed
        then have "\<exists>r. extent_search rnd l old low (mid - 1) = Some r \<and>
            (if \<exists>n. ext_rel (take num l) old n then ext_rel (take num l) old r else r = 0)"
          using True mid nc lt prems by (intro "1.IH"(1) [of mid ?e]) (auto simp: ent_covers_def)
        moreover have "extent_search rnd l old low high = extent_search rnd l old low (mid - 1)"
          using True mid nc lt
          by (subst extent_search.simps) (auto simp: ent_covers_def Let_def)
        ultimately show ?thesis by simp
      next
        case ge: False
        have "mid + 1 \<le> int k" if "k < num" "ent_covers (l ! k) old" for k
        proof (rule ccontr)
          assume "\<not> mid + 1 \<le> int k"
          then have k: "k \<le> nat mid" using m0 by linarith
          show False
          proof (cases "k = nat mid")
            case True
            with that nc show False by simp
          next
            case False
            then have lk: "old_loc (l ! k) < old_loc ?e" using k mn less [of k "nat mid"] by simp
            have "l ! k \<in> set (take num l)" using that(1) prems(3) by blast
            then have "uint (old_loc (l ! k)) + uint (ent_size (l ! k)) \<le> uint (old_loc ?e)"
              using lk prems(2) inset by (auto simp: ext_key_sorted_def ext_apart_def)
            with that ok ge show False
              by (auto simp: ent_covers_uint word_less_def not_less)
          qed
        qed
        then have "\<exists>r. extent_search rnd l old (mid + 1) high = Some r \<and>
            (if \<exists>n. ext_rel (take num l) old n then ext_rel (take num l) old r else r = 0)"
          using True mid nc ge prems by (intro "1.IH"(2) [of mid ?e]) (auto simp: ent_covers_def)
        moreover have "extent_search rnd l old low high = extent_search rnd l old (mid + 1) high"
          using True mid nc ge
          by (subst extent_search.simps) (auto simp: ent_covers_def Let_def)
        ultimately show ?thesis by simp
      qed
    qed
  qed
qed

section \<open>Sorting\<close>

lemma qsort_insert_key:
  "(\<forall>y \<in> set ys. cmp x y \<le> 0 \<longleftrightarrow> f x \<le> f y) \<Longrightarrow> qsort_insert cmp x ys = insort_key f x ys"
  by (induction ys) auto

lemma qsort_key:
  "(\<forall>x \<in> set xs. \<forall>y \<in> set xs. cmp x y \<le> 0 \<longleftrightarrow> f x \<le> f y) \<Longrightarrow> qsort cmp xs = sort_key f xs"
proof (induction xs)
  case (Cons x xs)
  then have "qsort cmp xs = sort_key f xs" by simp
  with Cons.prems show ?case by (simp add: qsort_insert_key)
qed simp

text \<open>Below \<open>2^31\<close> the cut difference has the right sign.\<close>

lemma extent_cmp_small:
  assumes "uint (old_loc a) < 2 ^ 31" "uint (old_loc b) < 2 ^ 31"
  shows "extent_cmp a b \<le> 0 \<longleftrightarrow> old_loc a \<le> old_loc b"
proof -
  let ?d = "uint (old_loc a) - uint (old_loc b)"
  have "0 \<le> uint (old_loc a)" "0 \<le> uint (old_loc b)" by simp_all
  then have d: "- (2 ^ 31) \<le> ?d" "?d < 2 ^ 31" using assms by linarith+
  have "(ucast (old_loc a - old_loc b) :: u32) = word_of_int ?d"
    by (simp add: word_uint_eq_iff unsigned_ucast_eq uint_word_of_int take_bit_eq_mod
        uint_word_ariths mod_mod_cancel mod_simps)
  then have "extent_cmp a b = signed_take_bit 31 ?d"
    by (simp only: extent_cmp_def sint_word_of_int32)
  also have "\<dots> = ?d" using d by (intro signed_take_bit_int_eq_self) auto
  finally show ?thesis by (simp add: word_le_def)
qed

lemma ext_apart_sort [simp]: "ext_apart (sort_key f xs) \<longleftrightarrow> ext_apart xs"
  by (simp add: ext_apart_def distinct_map)

section \<open>Adding entries\<close>

abbreviation ext_used :: "ext2_extent \<Rightarrow> ext2_extent_entry list" where
  "ext_used ex \<equiv> take (ext_num ex) (ext_list ex)"

definition ext_inv :: "ext2_extent \<Rightarrow> bool" where
  "ext_inv ex \<longleftrightarrow> ext_num ex \<le> ext_size ex \<and> length (ext_list ex) = ext_size ex \<and>
     ext_apart (ext_used ex) \<and> (ext_sorted ex \<longrightarrow> ssorted (map old_loc (ext_used ex)))"

lemma extent_grow_inv:
  assumes "ext_inv ex0" "extent_grow mem ex0 = Inr ex"
  shows "ext_inv ex" "ext_used ex = ext_used ex0" "ext_num ex = ext_num ex0"
    "ext_sorted ex = ext_sorted ex0" "ext_num ex < ext_size ex"
  using assms by (auto simp: extent_grow_def ext_inv_def split: if_splits option.splits)

lemma ext_apart_not_covered:
  assumes "ext_apart es" "e \<in> set es" "\<not> (\<exists>n. ext_rel es old n)"
  shows "old_loc e \<noteq> old"
    and "old_loc e < old \<Longrightarrow> uint (old_loc e) + uint (ent_size e) \<le> uint old"
proof -
  have ok: "ent_ok e" using assms(1,2) by (auto simp: ext_apart_def)
  have nc: "\<not> ent_covers e old" using assms(2,3) by (auto simp: ext_rel_def)
  then show "old_loc e \<noteq> old" using ent_covers_own [OF ok] by auto
  show "old_loc e < old \<Longrightarrow> uint (old_loc e) + uint (ent_size e) \<le> uint old"
    using nc by (simp add: ent_covers_uint [OF ok] word_less_def)
qed

lemma ext_apart_snoc:
  fixes new :: u64
  assumes ap: "ext_apart es" and nr: "\<not> (\<exists>n. ext_rel es old n)" and mx: "uint old + 1 < 2 ^ 64"
  defines "e \<equiv> \<lparr>old_loc = old, new_loc = new, ent_size = 1\<rparr>"
  shows "ext_apart (es @ [e])"
    and "ext_rel (es @ [e]) a b \<longleftrightarrow> ext_rel es a b \<or> a = old \<and> b = new"
proof -
  have ok: "ent_ok e" using mx by (simp add: ent_ok_def e_def)
  have cov: "ent_covers e a \<longleftrightarrow> a = old" for a
    unfolding ent_covers_uint [OF ok] by (auto simp: e_def word_uint_eq_iff)
  show "ext_rel (es @ [e]) a b \<longleftrightarrow> ext_rel es a b \<or> a = old \<and> b = new"
    by (auto simp: ext_rel_def cov ent_image_def) (auto simp: e_def)
  have "old_loc c \<noteq> old" if "c \<in> set es" for c using ext_apart_not_covered [OF ap that nr] by simp
  moreover have "uint (old_loc c) + uint (ent_size c) \<le> uint old" if "c \<in> set es" "old_loc c < old" for c
    using ext_apart_not_covered [OF ap that(1) nr] that(2) by simp
  ultimately show "ext_apart (es @ [e])"
    using ap ok unfolding ext_apart_def by (auto simp: e_def word_less_def)
qed

lemma ext_apart_extend:
  assumes ap: "ext_apart es" and k: "k < length es" and nr: "\<not> (\<exists>n. ext_rel es old n)"
    and mx: "uint old + 1 < 2 ^ 64"
    and nxt: "old_loc (es ! k) + ent_size (es ! k) = old" "new_loc (es ! k) + ent_size (es ! k) = new"
  defines "e \<equiv> (es ! k)\<lparr>ent_size := ent_size (es ! k) + 1\<rparr>"
  shows "ext_apart (es[k := e])"
    and "ext_rel (es[k := e]) a b \<longleftrightarrow> ext_rel es a b \<or> a = old \<and> b = new"
proof -
  let ?o = "es ! k"
  have oin: "?o \<in> set es" using k by simp
  have oko: "ent_ok ?o" using ap oin by (auto simp: ext_apart_def)
  have end_o: "uint (old_loc ?o) + uint (ent_size ?o) = uint old"
    using uint_ent_end [OF oko] nxt(1) by simp
  have "0 \<le> uint (old_loc ?o)" by simp
  then have "uint (ent_size ?o) + 1 < 2 ^ 64" using end_o mx by linarith
  then have sz: "uint (ent_size ?o + 1) = uint (ent_size ?o) + 1"
    by (simp add: uint_word_ariths mod_pos_pos_trivial)
  have e: "old_loc e = old_loc ?o" "new_loc e = new_loc ?o" "uint (ent_size e) = uint (ent_size ?o) + 1"
    using sz by (simp_all add: e_def)
  have ok: "ent_ok e" using oko end_o mx by (simp add: ent_ok_def e)
  have cov: "ent_covers e x \<longleftrightarrow> ent_covers ?o x \<or> x = old" for x
    using oko end_o unfolding ent_covers_uint [OF ok] ent_covers_uint [OF oko]
    by (auto simp: e word_uint_eq_iff ent_ok_def)
  have img: "ent_image e x = ent_image ?o x" for x by (simp add: ent_image_def e)
  have imgo: "ent_image ?o old = new" using nxt by (auto simp: ent_image_def)
  have d: "distinct es" using ap by (auto simp: ext_apart_def distinct_map)
  have st: "set (es[k := e]) = insert e (set es - {?o})" using d k by (rule set_update_distinct)
  show "ext_rel (es[k := e]) a b \<longleftrightarrow> ext_rel es a b \<or> a = old \<and> b = new"
    unfolding ext_rel_def st using oin imgo by (auto simp: cov img)
  have keys: "map old_loc (es[k := e]) = map old_loc es"
    using k by (intro map_update_same) (simp_all add: e)
  have after: "uint (old_loc ?o) + (uint (ent_size ?o) + 1) \<le> uint (old_loc b)"
    if "b \<in> set es" "old_loc ?o < old_loc b" for b
  proof -
    have "uint (old_loc ?o) + uint (ent_size ?o) \<le> uint (old_loc b)"
      using ap oin that by (auto simp: ext_apart_def)
    moreover have "uint (old_loc b) \<noteq> uint old"
      using ext_apart_not_covered(1) [OF ap that(1) nr] by (simp add: word_uint_eq_iff)
    ultimately show ?thesis using end_o by linarith
  qed
  show "ext_apart (es[k := e])"
    unfolding ext_apart_def keys st using ap ok oin after
    by (auto simp: ext_apart_def e)
qed

text \<open>
  One move recorded: the table gains exactly that pair. It stays sorted when the location
  lies above all recorded ones.
\<close>

lemma extent_add_spec:
  assumes inv0: "ext_inv ex0" and add: "ext2fs_add_extent_entry mem ex0 old new = Inr ex"
    and nr: "\<not> (\<exists>n. ext_rel (ext_used ex0) old n)" and mx: "uint old + 1 < 2 ^ 64"
  shows "ext_inv ex \<and> ext_num ex \<le> ext_num ex0 + 1 \<and>
     (\<forall>a b. ext_rel (ext_used ex) a b \<longleftrightarrow> ext_rel (ext_used ex0) a b \<or> a = old \<and> b = new) \<and>
     (ext_sorted ex0 \<and> (\<forall>a b. ext_rel (ext_used ex0) a b \<longrightarrow> a < old) \<longrightarrow> ext_sorted ex)"
proof -
  from add obtain ex1 where g: "extent_grow mem ex0 = Inr ex1"
    by (auto simp: ext2fs_add_extent_entry_def split: sum.splits)
  note gi = extent_grow_inv [OF inv0 g]
  let ?es = "ext_used ex1" and ?n = "ext_num ex1"
  have len: "?n < length (ext_list ex1)" using gi(1,5) by (simp add: ext_inv_def)
  have ap: "ext_apart ?es" using gi(1) by (simp add: ext_inv_def)
  have nr1: "\<not> (\<exists>n. ext_rel ?es old n)" using nr gi(2) by simp
  define s where "s = (ext_sorted ex1 \<and> (?n = 0 \<or>
      \<not> old < old_loc (ext_list ex1 ! (?n - 1)) + ent_size (ext_list ex1 ! (?n - 1))))"
  let ?last = "ext_list ex1 ! (?n - 1)"
  have srt: "ssorted (map old_loc ?es)" if s using that gi(1) by (simp add: s_def ext_inv_def)
  have lastin: "?last \<in> set ?es" if "?n \<noteq> 0" using that len by auto
  have okl: "ent_ok ?last" if "?n \<noteq> 0" using lastin [OF that] ap by (auto simp: ext_apart_def)
  have append: ?thesis
    if ex: "ex = (extent_append ex1 old new)\<lparr>ext_sorted := s\<rparr>"
  proof -
    let ?e = "\<lparr>old_loc = old, new_loc = new, ent_size = 1\<rparr>"
    have used: "ext_used ex = ?es @ [?e]"
      using len by (simp add: ex extent_append_def take_Suc_conv_app_nth)
    have below: "old_loc c < old" if cs: s and cin: "c \<in> set ?es" for c
    proof -
      have n0: "?n \<noteq> 0" using cin by (cases "?n = 0") auto
      have "uint (old_loc ?last) < uint old"
        using cs n0 okl [OF n0] uint_ent_end [OF okl [OF n0]]
        by (auto simp: s_def word_less_def not_less ent_ok_def)
      moreover obtain i where i: "i < ?n" "c = ext_list ex1 ! i"
        using cin len by (auto simp: in_set_conv_nth)
      have "old_loc c \<le> old_loc ?last"
        using i len srt [OF cs] ssorted_nth_mono [of "map old_loc ?es" i "?n - 1"] by simp
      ultimately show ?thesis by (simp add: word_less_def word_le_def)
    qed
    have "s" if "ext_sorted ex0" "\<forall>a b. ext_rel (ext_used ex0) a b \<longrightarrow> a < old"
    proof (cases "?n = 0")
      case True
      with that(1) gi(4) show ?thesis by (simp add: s_def)
    next
      case False
      have "ext_rel ?es (old_loc ?last) (ent_image ?last (old_loc ?last))"
        using lastin [OF False] ent_covers_own [OF okl [OF False]] by (auto simp: ext_rel_def)
      then have "old_loc ?last < old" using that(2) gi(2) by metis
      then have "uint (old_loc ?last) + uint (ent_size ?last) \<le> uint old"
        using ext_apart_not_covered(2) [OF ap lastin [OF False] nr1] by simp
      then show ?thesis
        using that(1) gi(4) uint_ent_end [OF okl [OF False]] by (simp add: s_def word_less_def)
    qed
    then show ?thesis
      using gi len ext_apart_snoc [OF ap nr1 mx] used srt below
      by (auto simp: ext_inv_def ex extent_append_def sorted_wrt_append)
  qed
  have extend: ?thesis
    if c: "?n \<noteq> 0" "old_loc ?last + ent_size ?last = old" "new_loc ?last + ent_size ?last = new"
      and ex: "ex = ex1\<lparr>ext_list := (ext_list ex1)[?n - 1 := ?last\<lparr>ent_size := ent_size ?last + 1\<rparr>]\<rparr>"
  proof -
    let ?e = "?last\<lparr>ent_size := ent_size ?last + 1\<rparr>"
    have k: "?n - 1 < length ?es" and nth: "?es ! (?n - 1) = ?last" using c(1) len by auto
    have used: "ext_used ex = ?es[?n - 1 := ?e]" by (simp add: ex take_update_swap)
    have keys: "map old_loc (?es[?n - 1 := ?e]) = map old_loc ?es"
      using k nth by (intro map_update_same) simp_all
    note ext = ext_apart_extend [OF ap k nr1 mx, unfolded nth, OF c(2,3)]
    have "ext_inv ex"
      unfolding ext_inv_def used keys using gi(1) ext(1) by (simp add: ext_inv_def ex)
    moreover have "ext_rel (ext_used ex) a b \<longleftrightarrow> ext_rel (ext_used ex0) a b \<or> a = old \<and> b = new" for a b
      unfolding used gi(2) [symmetric] by (rule ext(2))
    ultimately show ?thesis using gi(3,4) by (simp add: ex)
  qed
  have same: "(extent_append ex1 old new)\<lparr>ext_sorted := ext_sorted ex1\<rparr> = extent_append ex1 old new"
    "(extent_append ex1 old new)\<lparr>ext_sorted := False\<rparr> = extent_append (ex1\<lparr>ext_sorted := False\<rparr>) old new"
    by (simp_all add: extent_append_def)
  consider (ext) "?n \<noteq> 0" "old_loc ?last + ent_size ?last = old" "new_loc ?last + ent_size ?last = new"
    | (unsorted) "?n \<noteq> 0" "old < old_loc ?last + ent_size ?last"
    | (app) "?n = 0 \<or> \<not> old < old_loc ?last + ent_size ?last"
      "\<not> (?n \<noteq> 0 \<and> old_loc ?last + ent_size ?last = old \<and> new_loc ?last + ent_size ?last = new)"
    by metis
  then show ?thesis
  proof cases
    case ext
    with add show ?thesis by (intro extend) (simp_all add: ext2fs_add_extent_entry_def g Let_def)
  next
    case unsorted
    with add same show ?thesis
      by (intro append) (auto simp: ext2fs_add_extent_entry_def g Let_def s_def split: if_splits)
  next
    case app
    then have "ex = extent_append ex1 old new"
      using add by (auto simp: ext2fs_add_extent_entry_def g Let_def split: if_splits)
    moreover have "s = ext_sorted ex1" using app(1) by (auto simp: s_def)
    ultimately show ?thesis using same by (intro append) simp
  qed
qed

text \<open>Recording a list of moves, and what the table then means.\<close>

fun extent_add_all ::
    "ext2_extent \<Rightarrow> (ext2_extent_entry mem_outcome \<times> u64 \<times> u64) list \<Rightarrow> errcode + ext2_extent" where
  "extent_add_all ex [] = Inr ex"
| "extent_add_all ex ((mem, old, new) # ms) =
     (case ext2fs_add_extent_entry mem ex old new of
        Inl e \<Rightarrow> Inl e | Inr ex' \<Rightarrow> extent_add_all ex' ms)"

lemma extent_add_all_spec:
  assumes "ext_inv ex0" "extent_add_all ex0 ms = Inr ex" "distinct (map (\<lambda>m. fst (snd m)) ms)"
    and "\<forall>(mem, old, new) \<in> set ms. uint old + 1 < 2 ^ 64 \<and> \<not> (\<exists>n. ext_rel (ext_used ex0) old n)"
  shows "ext_inv ex \<and> ext_num ex \<le> ext_num ex0 + length ms \<and>
     (\<forall>a b. ext_rel (ext_used ex) a b \<longleftrightarrow>
        ext_rel (ext_used ex0) a b \<or> (a, b) \<in> snd ` set ms) \<and>
     (ext_sorted ex0 \<and> sorted (map (\<lambda>m. fst (snd m)) ms) \<and>
        (\<forall>a b. ext_rel (ext_used ex0) a b \<longrightarrow> (\<forall>m \<in> set ms. a < fst (snd m))) \<longrightarrow> ext_sorted ex)"
  using assms
proof (induction ms arbitrary: ex0)
  case Nil
  then show ?case by simp
next
  case (Cons m ms)
  obtain mem old new where m: "m = (mem, old, new)" by (cases m)
  obtain ex1 where a: "ext2fs_add_extent_entry mem ex0 old new = Inr ex1"
    and rest: "extent_add_all ex1 ms = Inr ex"
    using Cons.prems(2) m by (auto split: sum.splits)
  have nr: "\<not> (\<exists>n. ext_rel (ext_used ex0) old n)" and mx: "uint old + 1 < 2 ^ 64"
    using Cons.prems(4) m by auto
  note one = extent_add_spec [OF Cons.prems(1) a nr mx]
  have nin: "old \<notin> (\<lambda>m. fst (snd m)) ` set ms" using Cons.prems(3) m by simp
  have ih: "ext_inv ex \<and> ext_num ex \<le> ext_num ex1 + length ms \<and>
     (\<forall>a b. ext_rel (ext_used ex) a b \<longleftrightarrow>
        ext_rel (ext_used ex1) a b \<or> (a, b) \<in> snd ` set ms) \<and>
     (ext_sorted ex1 \<and> sorted (map (\<lambda>m. fst (snd m)) ms) \<and>
        (\<forall>a b. ext_rel (ext_used ex1) a b \<longrightarrow> (\<forall>m \<in> set ms. a < fst (snd m))) \<longrightarrow> ext_sorted ex)"
  proof (rule Cons.IH)
    show "\<forall>(mem, old, new) \<in> set ms. uint old + 1 < 2 ^ 64 \<and> \<not> (\<exists>n. ext_rel (ext_used ex1) old n)"
    proof
      fix x assume x: "x \<in> set ms"
      obtain c o' n' where xe: "x = (c, o', n')" by (cases x)
      have "o' \<noteq> old" using nin x xe by force
      moreover have "uint o' + 1 < 2 ^ 64 \<and> \<not> (\<exists>n. ext_rel (ext_used ex0) o' n)"
        using Cons.prems(4) x xe by auto
      ultimately show "case x of (mem, old, new) \<Rightarrow>
          uint old + 1 < 2 ^ 64 \<and> \<not> (\<exists>n. ext_rel (ext_used ex1) old n)"
        using one xe by simp
    qed
  qed (use one rest Cons.prems(3) in auto)
  have "ext_sorted ex"
    if "ext_sorted ex0" "sorted (map (\<lambda>m. fst (snd m)) (m # ms))"
      "\<forall>a b. ext_rel (ext_used ex0) a b \<longrightarrow> (\<forall>k \<in> set (m # ms). a < fst (snd k))"
  proof -
    have "ext_sorted ex1" using one that by (auto simp: m)
    moreover have "old < fst (snd k)" if "k \<in> set ms" for k
      using \<open>sorted (map (\<lambda>m. fst (snd m)) (m # ms))\<close> nin that by (auto simp: m order.strict_iff_order)
    ultimately show ?thesis using ih one that by (auto simp: m)
  qed
  with ih one show ?case by (auto simp: m)
qed

lemma extent_sort_spec:
  assumes inv: "ext_inv ex"
    and small: "ext_sorted ex \<or> (\<forall>a b. ext_rel (ext_used ex) a b \<longrightarrow> uint a < 2 ^ 31)"
  shows "ext_key_sorted (ext_used (extent_sort ex))"
    and "set (ext_used (extent_sort ex)) = set (ext_used ex)"
    and "ext_num (extent_sort ex) = ext_num ex"
    and "length (ext_list (extent_sort ex)) = length (ext_list ex)"
proof -
  have ap: "ext_apart (ext_used ex)" using inv by (simp add: ext_inv_def)
  have le: "ext_num ex \<le> length (ext_list ex)" using inv by (simp add: ext_inv_def)
  have key: "qsort extent_cmp (ext_used ex) = sort_key old_loc (ext_used ex)" if "\<not> ext_sorted ex"
  proof (rule qsort_key, intro ballI)
    fix x y assume xy: "x \<in> set (ext_used ex)" "y \<in> set (ext_used ex)"
    have "uint (old_loc e) < 2 ^ 31" if "e \<in> set (ext_used ex)" for e
      using that small \<open>\<not> ext_sorted ex\<close> ap ent_covers_own [of e]
      unfolding ext_rel_def ext_apart_def by blast
    with xy show "extent_cmp x y \<le> 0 \<longleftrightarrow> old_loc x \<le> old_loc y" by (intro extent_cmp_small) auto
  qed
  have used: "ext_used (extent_sort ex) =
      (if ext_sorted ex then ext_used ex else sort_key old_loc (ext_used ex))"
    using key le by (auto simp: extent_sort_def)
  show "set (ext_used (extent_sort ex)) = set (ext_used ex)" by (simp add: used)
  show "ext_num (extent_sort ex) = ext_num ex" by (simp add: extent_sort_def)
  show "length (ext_list (extent_sort ex)) = length (ext_list ex)"
    using key le by (simp add: extent_sort_def)
  have "distinct (map old_loc (sort_key old_loc (ext_used ex)))"
    using ap ext_apart_sort [of old_loc "ext_used ex"] by (simp add: ext_apart_def)
  then have "ssorted (map old_loc (sort_key old_loc (ext_used ex)))"
    by (simp add: strict_sorted_iff)
  then show "ext_key_sorted (ext_used (extent_sort ex))"
    using inv ap by (simp add: used ext_key_sorted_def ext_inv_def)
qed

lemma extent_translate_spec:
  assumes "ext_inv ex" "float_rounding rnd" "ext_num ex \<le> 2 ^ 24"
    and "ext_sorted ex \<or> (\<forall>a b. ext_rel (ext_used ex) a b \<longrightarrow> uint a < 2 ^ 31)"
  shows "\<exists>r. fst (ext2fs_extent_translate rnd ex old) = Some r \<and>
     (if \<exists>n. ext_rel (ext_used ex) old n then ext_rel (ext_used ex) old r else r = 0)"
proof -
  note so = extent_sort_spec [OF assms(1,4)]
  let ?ex = "extent_sort ex"
  have rel: "ext_rel (ext_used ?ex) = ext_rel (ext_used ex)"
    by (intro ext) (simp only: ext_rel_def so(2))
  have "\<exists>r. extent_search rnd (ext_list ?ex) old 0 (int (ext_num ?ex) - 1) = Some r \<and>
     (if \<exists>n. ext_rel (ext_used ?ex) old n then ext_rel (ext_used ?ex) old r else r = 0)"
    using assms(1-3) so by (intro extent_search_spec) (auto simp: ext_inv_def)
  then show ?thesis unfolding rel by (simp add: ext2fs_extent_translate_def Let_def)
qed

lemma extent_create_inv:
  "ext2fs_create_extent_table ok1 ok2 n = Inr ex \<Longrightarrow>
     ext_inv ex \<and> ext_used ex = [] \<and> ext_num ex = 0 \<and> ext_sorted ex"
  by (auto simp: ext2fs_create_extent_table_def ext_inv_def ext_apart_def Let_def split: if_splits)

section \<open>Properties\<close>

text \<open>C13: Moves recorded in a fresh table are found again. For at most \<open>2 ^ 24\<close> moves whose recorded locations are distinct, below the last
  64-bit value, and either recorded in increasing order or all below \<open>2 ^ 31\<close>, a lookup terminates inside the table and returns the new location
  of exactly the recorded ones and 0 for every other, whatever entries were coalesced or sorted on the way. The interpolation relies on a rounding
  to \<^verbatim>\<open>float\<close> that is monotone and exact on integers of 24 bits. (Above \<open>2 ^ 24\<close> entries the probe may be rounded out of the table.)\<close>

theorem extent_table_translates:
  assumes "ext2fs_create_extent_table ok1 ok2 n = Inr ex0"
    and "extent_add_all ex0 moves = Inr ex"
    and "distinct (map (\<lambda>m. fst (snd m)) moves)" and "length moves \<le> 2 ^ 24"
    and "\<forall>(mem, old, new) \<in> set moves. uint old + 1 < 2 ^ 64"
    and "sorted (map (\<lambda>m. fst (snd m)) moves) \<or>
         (\<forall>(mem, old, new) \<in> set moves. uint old < 2 ^ 31)"
    and "float_rounding rnd"
  shows "fst (ext2fs_extent_translate rnd ex old) =
         Some (case map_of (map snd moves) old of Some new \<Rightarrow> new | None \<Rightarrow> 0)"
proof -
  note cr = extent_create_inv [OF assms(1)]
  have none: "\<not> ext_rel (ext_used ex0) a b" for a b using cr by (simp add: ext_rel_def)
  note all = extent_add_all_spec [OF conjunct1 [OF cr] assms(2,3)]
  have rel: "ext_rel (ext_used ex) a b \<longleftrightarrow> (a, b) \<in> set (map snd moves)" for a b
    using all assms(5) none by auto
  have inv: "ext_inv ex" "ext_num ex \<le> 2 ^ 24" using all assms(4,5) none cr by auto
  have small: "ext_sorted ex \<or> (\<forall>a b. ext_rel (ext_used ex) a b \<longrightarrow> uint a < 2 ^ 31)"
    using assms(6)
  proof
    assume "sorted (map (\<lambda>m. fst (snd m)) moves)"
    then show ?thesis using all assms(5) none cr by auto
  next
    assume "\<forall>(mem, old, new) \<in> set moves. uint old < 2 ^ 31"
    then show ?thesis unfolding rel by fastforce
  qed
  obtain r where r: "fst (ext2fs_extent_translate rnd ex old) = Some r"
    "if \<exists>n. ext_rel (ext_used ex) old n then ext_rel (ext_used ex) old r else r = 0"
    using extent_translate_spec [OF inv(1) assms(7) inv(2) small] by blast
  have d: "distinct (map fst (map snd moves))" using assms(3) by (simp add: comp_def)
  show ?thesis
  proof (cases "map_of (map snd moves) old")
    case None
    then have "\<not> (\<exists>n. ext_rel (ext_used ex) old n)"
      unfolding rel by (metis map_of_eq_None_iff fst_conv image_eqI)
    with r None show ?thesis by simp
  next
    case (Some v)
    then have "ext_rel (ext_used ex) old v" unfolding rel by (rule map_of_SomeD)
    then have "ext_rel (ext_used ex) old r" using r(2) by metis
    then have "map_of (map snd moves) old = Some r"
      unfolding rel by (rule map_of_is_SomeI [OF d])
    with r(1) show ?thesis by simp
  qed
qed

text \<open>A rounding to 40 binary places, for the witness.\<close>

definition rnd40 :: "rat \<Rightarrow> rat" where
  "rnd40 x = of_int \<lfloor>x * 2 ^ 40\<rfloor> / 2 ^ 40"

lemma rnd40_rounding: "float_rounding rnd40"
proof -
  have "rnd40 (of_int n) = of_int n" for n
  proof -
    have "(of_int n :: rat) * 2 ^ 40 = of_int (n * 2 ^ 40)" by simp
    then have "\<lfloor>(of_int n :: rat) * 2 ^ 40\<rfloor> = n * 2 ^ 40" by (metis floor_of_int)
    then show ?thesis by (simp add: rnd40_def)
  qed
  moreover have "mono rnd40"
    by (auto simp: mono_def rnd40_def intro!: divide_right_mono floor_mono mult_right_mono)
  ultimately show ?thesis by (simp add: float_rounding_def)
qed

definition moves_example :: "(ext2_extent_entry mem_outcome \<times> u64 \<times> u64) list" where
  "moves_example = [(None, 20, 100), (None, 21, 101), (None, 5, 7)]"

theorem extent_table_translates_witness:
  "case ext2fs_create_extent_table True True 3 of Inl e \<Rightarrow> False
   | Inr ex0 \<Rightarrow> (case extent_add_all ex0 moves_example of Inl e \<Rightarrow> False
     | Inr ex \<Rightarrow> fst (ext2fs_extent_translate rnd40 ex 21) = Some 101)"
proof -
  have s1: "isl (ext2fs_create_extent_table True True 3) = False" by code_simp
  then obtain ex0 where c: "ext2fs_create_extent_table True True 3 = Inr ex0"
    by (auto simp: isl_def split: sum.splits) (metis sum.exhaust_sel isl_def)
  have "(case ext2fs_create_extent_table True True 3 of Inl e \<Rightarrow> True
     | Inr ex0 \<Rightarrow> isl (extent_add_all ex0 moves_example)) = False"
    by code_simp
  then obtain ex where a: "extent_add_all ex0 moves_example = Inr ex"
    unfolding c by (cases "extent_add_all ex0 moves_example") auto
  have "fst (ext2fs_extent_translate rnd40 ex 21) =
     Some (case map_of (map snd moves_example) 21 of Some new \<Rightarrow> new | None \<Rightarrow> 0)"
    by (rule extent_table_translates [OF c a _ _ _ _ rnd40_rounding])
       (simp_all add: moves_example_def)
  then have "fst (ext2fs_extent_translate rnd40 ex 21) = Some 101" by (simp add: moves_example_def)
  then show ?thesis using c a by simp
qed

text \<open>Two moves recorded in decreasing order: what the table holds before and after the sort.\<close>

lemma extent_add_two:
  assumes "ext2fs_create_extent_table ok1 ok2 n = Inr ex0" "extent_add_all ex0 [(m1, a, x), (m2, b, y)] = Inr ex"
    and lt: "b < a" "uint a + 1 < 2 ^ 64"
  shows "ext_num ex = 2" "\<not> ext_sorted ex"
    "take 2 (ext_list ex) = [\<lparr>old_loc = a, new_loc = x, ent_size = 1\<rparr>, \<lparr>old_loc = b, new_loc = y, ent_size = 1\<rparr>]"
proof -
  have a1: "uint (a + 1) = uint a + 1" using lt(2) by (simp add: uint_word_ariths)
  then have b: "a + 1 \<noteq> b" "b < a + 1" using lt(1) by (auto simp: word_less_def)
  obtain sz where sz: "0 < sz" and ex0: "ex0 = \<lparr>ext_list = replicate sz zero_entry, ext_cursor = 0, ext_size = sz,
      ext_num = 0, ext_sorted = True\<rparr>"
    using assms(1) by (auto simp: ext2fs_create_extent_table_def Let_def split: if_splits)
  have g0: "extent_grow m1 ex0 = Inr ex0" using sz by (simp add: extent_grow_def ex0)
  let ?A = "\<lparr>old_loc = a, new_loc = x, ent_size = 1\<rparr>" and ?B = "\<lparr>old_loc = b, new_loc = y, ent_size = 1\<rparr>"
  define ex1 where "ex1 = extent_append ex0 a x"
  have ex1: "ext_num ex1 = 1" "ext_list ex1 ! 0 = ?A" "length (ext_list ex1) = sz" "ext_size ex1 = sz"
    using sz by (simp_all add: ex1_def extent_append_def ex0)
  have step1: "ext2fs_add_extent_entry m1 ex0 a x = Inr ex1"
    by (simp add: ext2fs_add_extent_entry_def g0 Let_def ex1_def) (simp add: ex0)
  obtain ex2 where g1: "extent_grow m2 ex1 = Inr ex2" using assms(2) step1
    by (cases "extent_grow m2 ex1") (simp_all add: ext2fs_add_extent_entry_def)
  have ex2: "ext_num ex2 = 1" "ext_list ex2 ! 0 = ?A" "2 \<le> length (ext_list ex2)"
    using g1 ex1 sz by (auto simp: extent_grow_def nth_append split: if_splits option.splits)
  have "ext2fs_add_extent_entry m2 ex1 b y = Inr (extent_append (ex2\<lparr>ext_sorted := False\<rparr>) b y)"
    using ex2 b by (simp add: ext2fs_add_extent_entry_def g1 Let_def)
  then have ex: "ex = extent_append (ex2\<lparr>ext_sorted := False\<rparr>) b y" using assms(2) step1 by simp
  show "ext_num ex = 2" "\<not> ext_sorted ex" by (simp_all add: ex extent_append_def ex2)
  show "take 2 (ext_list ex) = [?A, ?B]"
    using ex2 by (cases "ext_list ex2"; cases "tl (ext_list ex2)") (simp_all add: ex extent_append_def)
qed

text \<open>C27: The bound of 2^31 is needed. The comparison function of the sort cuts the 64-bit difference of two locations to a
  32-bit int. So whenever the lower 32 bits of the difference \<open>a - b\<close> have their top bit set, as for every difference from 2^31 up to 2^32,
  a move of \<open>a\<close> followed by a move of a lower location \<open>b\<close> leaves a table in which \<open>b\<close> is recorded but its lookup returns 0.\<close>

theorem extent_translate_loses_entry:
  assumes "ext2fs_create_extent_table ok1 ok2 n = Inr ex0" "extent_add_all ex0 [(m1, a, x), (m2, b, y)] = Inr ex"
    and "b < a" "uint a + 1 < 2 ^ 64" "2 ^ 31 \<le> uint (a - b) mod 2 ^ 32" "float_rounding rnd"
  shows "ext_rel (ext_used ex) b y \<and> fst (ext2fs_extent_translate rnd ex b) = Some 0"
proof -
  let ?A = "\<lparr>old_loc = a, new_loc = x, ent_size = 1\<rparr>" and ?B = "\<lparr>old_loc = b, new_loc = y, ent_size = 1\<rparr>"
  note two = extent_add_two[OF assms(1-4)]
  have "uint (ucast (a - b) :: u32) = uint (a - b) mod 2 ^ 32" by (simp add: unsigned_ucast_eq take_bit_eq_mod)
  moreover have "uint (a - b) mod 2 ^ 32 div 2 ^ 31 = 1"
  proof (rule int_div_pos_eq[where r = "uint (a - b) mod 2 ^ 32 - 2 ^ 31"])
    show "uint (a - b) mod 2 ^ 32 - 2 ^ 31 < 2 ^ 31"
      using pos_mod_bound[of "2 ^ 32" "uint (a - b)"] by simp
  qed (use assms(5) in simp_all)
  ultimately have neg: "sint (ucast (a - b) :: u32) < 0" by (simp add: sint_uint bit_iff_odd)
  then have q: "qsort extent_cmp (take 2 (ext_list ex)) = [?A, ?B]" by (simp add: two(3) extent_cmp_def)
  define l where "l = [?A, ?B] @ drop 2 (ext_list ex)"
  have mid: "extent_mid rnd l b 0 1 = Some 0"
    using assms(3) float_rounding_01[OF assms(6)] by (simp add: extent_mid_def extent_range_def l_def)
  have "extent_search rnd l b 0 1 = Some 0"
  proof -
    have "l ! 0 = ?A" by (simp add: l_def)
    moreover have "extent_search rnd l b 0 (- 1) = Some 0" by (subst extent_search.simps) simp
    moreover have "\<not> a \<le> b" using assms(3) by simp
    ultimately show ?thesis using assms(3) by (subst extent_search.simps) (simp add: mid Let_def)
  qed
  then have "fst (ext2fs_extent_translate rnd ex b) = Some 0"
    by (simp add: ext2fs_extent_translate_def extent_sort_def two(1,2) q l_def Let_def)
  moreover have "b < b + 1" using unat_succ_below[OF assms(3)] by (simp add: word_less_nat_alt)
  then have "ext_rel (ext_used ex) b y" by (simp add: two(1,3) ext_rel_def ent_covers_def ent_image_def)
  ultimately show ?thesis by simp
qed

theorem extent_translate_loses_entry_witness:
  "case ext2fs_create_extent_table True True 3 of Inl e \<Rightarrow> False
   | Inr ex0 \<Rightarrow> (case extent_add_all ex0 [(None, 2147483658, 50), (None, 1, 100)] of Inl e \<Rightarrow> False
     | Inr ex \<Rightarrow> ext_rel (ext_used ex) 1 100 \<and> fst (ext2fs_extent_translate rnd40 ex 1) = Some 0)"
proof -
  have "case ext2fs_create_extent_table True True 3 of Inl e \<Rightarrow> False
     | Inr ex0 \<Rightarrow> (case extent_add_all ex0 [(None, 2147483658, 50), (None, 1, 100)] of Inl e \<Rightarrow> False | Inr ex \<Rightarrow> True)"
    by code_simp
  then obtain ex0 ex where c: "ext2fs_create_extent_table True True 3 = Inr ex0"
      "extent_add_all ex0 [(None, 2147483658, 50), (None, 1, 100)] = Inr ex"
    by (auto split: sum.splits)
  have "ext_rel (ext_used ex) 1 100 \<and> fst (ext2fs_extent_translate rnd40 ex 1) = Some 0"
    by (rule extent_translate_loses_entry[OF c _ _ _ rnd40_rounding]) (simp_all add: uint_word_ariths)
  then show ?thesis using c by simp
qed

end
