(* ===== verification/Bitops.thy ===== *)
theory Bitops
  imports Ext2_Prelude
begin

text \<open>
  \<^verbatim>\<open>lib/ext2fs/bitops.c\<close>: single-bit access to a byte array, for 32-bit and 64-bit bit numbers,
  and the byte-wise scans that both bitmap implementations use: the mask loops and
  \<^verbatim>\<open>ext2fs_mem_is_zero\<close> of \<^verbatim>\<open>lib/ext2fs/gen_bitmap.c\<close>. An array of bytes is a list of 8-bit
  words; a bit number beyond it is an access outside the C object, so every fact that
  speaks of the new contents asks the bit to lie inside. The function \<open>bit_at\<close> is
  the abstract view: bit \<open>n\<close> of the array, counted from the least significant bit of the
  first byte.
\<close>

unbundle bit_operations_syntax

section \<open>The operations\<close>

definition ext2fs_set_bit :: "u32 \<Rightarrow> u8 list \<Rightarrow> int \<times> u8 list" where
  "ext2fs_set_bit nr addr =
     (let p = unat (drop_bit 3 nr);
          mask = push_bit (unat (nr AND 7)) 1
      in (uint (mask AND addr ! p), addr[p := addr ! p OR mask]))"

definition ext2fs_clear_bit :: "u32 \<Rightarrow> u8 list \<Rightarrow> int \<times> u8 list" where
  "ext2fs_clear_bit nr addr =
     (let p = unat (drop_bit 3 nr);
          mask = push_bit (unat (nr AND 7)) 1
      in (uint (mask AND addr ! p), addr[p := addr ! p AND NOT mask]))"

definition ext2fs_test_bit :: "u32 \<Rightarrow> u8 list \<Rightarrow> int" where
  "ext2fs_test_bit nr addr =
     (let p = unat (drop_bit 3 nr);
          mask = push_bit (unat (nr AND 7)) 1
      in uint (mask AND addr ! p))"

definition ext2fs_set_bit64 :: "u64 \<Rightarrow> u8 list \<Rightarrow> int \<times> u8 list" where
  "ext2fs_set_bit64 nr addr =
     (let p = unat (drop_bit 3 nr);
          mask = push_bit (unat (nr AND 7)) 1
      in (uint (mask AND addr ! p), addr[p := addr ! p OR mask]))"

definition ext2fs_clear_bit64 :: "u64 \<Rightarrow> u8 list \<Rightarrow> int \<times> u8 list" where
  "ext2fs_clear_bit64 nr addr =
     (let p = unat (drop_bit 3 nr);
          mask = push_bit (unat (nr AND 7)) 1
      in (uint (mask AND addr ! p), addr[p := addr ! p AND NOT mask]))"

definition ext2fs_test_bit64 :: "u64 \<Rightarrow> u8 list \<Rightarrow> int" where
  "ext2fs_test_bit64 nr addr =
     (let p = unat (drop_bit 3 nr);
          mask = push_bit (unat (nr AND 7)) 1
      in uint (mask AND addr ! p))"

text \<open>
  The loop \<^verbatim>\<open>for (i = n; i > 0; i--, b--) m |= 1 << b\<close> that builds the mask of a partial byte.
\<close>

fun mask_down :: "nat \<Rightarrow> nat \<Rightarrow> u32 \<Rightarrow> u32" where
  "mask_down 0 b m = m"
| "mask_down (Suc i) b m = mask_down i (b - 1) (m OR push_bit b 1)"

text \<open>\<^verbatim>\<open>ext2fs_mem_is_zero\<close>: whole chunks of 256 bytes first, then the rest.\<close>

function ext2fs_mem_is_zero :: "u8 list \<Rightarrow> nat \<Rightarrow> bool" where
  "ext2fs_mem_is_zero mem len =
     (if 256 \<le> len
      then if take 256 mem \<noteq> replicate 256 0 then False
           else ext2fs_mem_is_zero (drop 256 mem) (len - 256)
      else if len \<noteq> 0 then take len mem = replicate len 0
      else True)"
  by pat_completeness auto
termination
  by (relation "measure snd") auto

declare ext2fs_mem_is_zero.simps [simp del]

text \<open>
  The range test that \<^verbatim>\<open>ba_test_clear_bmap_extent\<close> and
  \<^verbatim>\<open>ext2fs_test_clear_generic_bitmap_range\<close> share, from the point where \<^verbatim>\<open>start\<close> has become relative
  to the bitmap; \<^verbatim>\<open>% 8\<close> of an unsigned number is \<^verbatim>\<open>& 7\<close>. The byte read through \<^verbatim>\<open>char *\<close> is promoted with its sign.
\<close>

definition test_clear_tail :: "u8 list \<Rightarrow> u64 \<Rightarrow> u32 \<Rightarrow> u32 \<Rightarrow> bool" where
  "test_clear_tail ADDR start_byte len_byte len_bit =
     (let last_bit = mask_down (unat len_bit) (unat (len_bit - 1)) 0
      in if len_bit \<noteq> 0 \<and>
            last_bit AND scast (ADDR ! unat (start_byte + ucast len_byte)) \<noteq> 0 then False
         else if len_bit \<noteq> 0 \<and> len_byte = 0 then True
         else ext2fs_mem_is_zero (drop (unat start_byte) ADDR) (unat len_byte))"

definition test_clear_range :: "u8 list \<Rightarrow> u64 \<Rightarrow> u32 \<Rightarrow> bool" where
  "test_clear_range ADDR start len =
     (let start_byte = drop_bit 3 start;
          start_bit = (ucast (start AND 7) :: u32);
          mark_count = (if len < 8 - start_bit then len else 8 - start_bit);
          mark_bit = (if len < 8 - start_bit then len + start_bit - 1 else 7);
          first_bit = mask_down (unat mark_count) (unat mark_bit) 0
      in if start_bit \<noteq> 0
         then if first_bit AND scast (ADDR ! unat start_byte) \<noteq> 0 then False
              else if len \<le> 8 - start_bit then True
              else test_clear_tail ADDR (start_byte + 1) (drop_bit 3 (len - mark_count))
                     ((len - mark_count) AND 7)
         else test_clear_tail ADDR start_byte (drop_bit 3 len) (len AND 7))"

text \<open>\<^verbatim>\<open>memcpy\<close> of \<open>n\<close> bytes to position \<open>p\<close> of a buffer.\<close>

definition memcpy_at :: "u8 list \<Rightarrow> nat \<Rightarrow> u8 list \<Rightarrow> nat \<Rightarrow> u8 list" where
  "memcpy_at dst p src n = take p dst @ take n src @ drop (p + n) dst"

section \<open>The abstract view and its laws\<close>

definition bit_at :: "u8 list \<Rightarrow> nat \<Rightarrow> bool" where
  "bit_at addr n = bit (addr ! (n div 8)) (n mod 8)"

lemma unat_and7:
  assumes "3 \<le> LENGTH('a)"
  shows "unat ((nr :: 'a::len word) AND 7) = unat nr mod 8"
proof -
  have "(7 :: 'a word) = mask 3" by (simp add: mask_eq_exp_minus_1)
  then have *: "nr AND 7 = take_bit 3 nr" by (simp only: take_bit_eq_mask)
  show ?thesis unfolding * by (subst unsigned_take_bit_eq) (simp add: take_bit_eq_mod)
qed

lemma unat_and7_32 [simp]: "unat ((nr :: u32) AND 7) = unat nr mod 8"
  by (rule unat_and7) simp

lemma unat_and7_64 [simp]: "unat ((nr :: u64) AND 7) = unat nr mod 8"
  by (rule unat_and7) simp

lemma bit_mask8: "bit (2 ^ k :: u8) j \<longleftrightarrow> j = k \<and> k < 8"
  by (auto simp: bit_exp_iff)

lemma mask_and_nonzero:
  assumes "k < 8"
  shows "uint (2 ^ k AND (b :: u8)) \<noteq> 0 \<longleftrightarrow> bit b k"
proof -
  have "(2 ^ k AND b = 0) \<longleftrightarrow> \<not> bit b k"
    using assms by (auto simp: word_bits_eq bit_and_iff bit_mask8)
  then show ?thesis by (simp add: unsigned_eq_0_iff)
qed

lemma byte_update_or:
  assumes "n < 8 * length addr"
  shows "bit_at (addr[n div 8 := addr ! (n div 8) OR 2 ^ (n mod 8)]) m
           \<longleftrightarrow> m = n \<or> bit_at addr m"
proof -
  have "n div 8 < length addr" using assms by linarith
  moreover have "m = n \<longleftrightarrow> n div 8 = m div 8 \<and> m mod 8 = n mod 8"
    by (metis div_mult_mod_eq)
  ultimately show ?thesis
    by (auto simp: bit_at_def nth_list_update bit_or_iff bit_mask8)
qed

lemma byte_update_andnot:
  assumes "n < 8 * length addr"
  shows "bit_at (addr[n div 8 := addr ! (n div 8) AND NOT (2 ^ (n mod 8))]) m
           \<longleftrightarrow> m \<noteq> n \<and> bit_at addr m"
proof -
  have "n div 8 < length addr" using assms by linarith
  moreover have "m = n \<longleftrightarrow> n div 8 = m div 8 \<and> m mod 8 = n mod 8"
    by (metis div_mult_mod_eq)
  ultimately show ?thesis
    by (auto simp: bit_at_def nth_list_update bit_and_iff bit_not_iff bit_mask8
             dest: bit_imp_le_length)
qed

lemma set_bit64_length [simp]: "length (snd (ext2fs_set_bit64 nr addr)) = length addr"
  and clear_bit64_length [simp]: "length (snd (ext2fs_clear_bit64 nr addr)) = length addr"
  and set_bit_length [simp]: "length (snd (ext2fs_set_bit nr' addr)) = length addr"
  and clear_bit_length [simp]: "length (snd (ext2fs_clear_bit nr' addr)) = length addr"
  by (simp_all add: ext2fs_set_bit64_def ext2fs_clear_bit64_def ext2fs_set_bit_def
                    ext2fs_clear_bit_def Let_def)

lemma test_bit64_iff: "ext2fs_test_bit64 nr addr \<noteq> 0 \<longleftrightarrow> bit_at addr (unat nr)"
  and set_bit64_old: "fst (ext2fs_set_bit64 nr addr) \<noteq> 0 \<longleftrightarrow> bit_at addr (unat nr)"
  and clear_bit64_old: "fst (ext2fs_clear_bit64 nr addr) \<noteq> 0 \<longleftrightarrow> bit_at addr (unat nr)"
  and test_bit_iff: "ext2fs_test_bit nr' addr \<noteq> 0 \<longleftrightarrow> bit_at addr (unat nr')"
  and set_bit_old: "fst (ext2fs_set_bit nr' addr) \<noteq> 0 \<longleftrightarrow> bit_at addr (unat nr')"
  and clear_bit_old: "fst (ext2fs_clear_bit nr' addr) \<noteq> 0 \<longleftrightarrow> bit_at addr (unat nr')"
  using mask_and_nonzero
  by (simp_all add: ext2fs_test_bit64_def ext2fs_set_bit64_def ext2fs_clear_bit64_def
        ext2fs_test_bit_def ext2fs_set_bit_def ext2fs_clear_bit_def Let_def bit_at_def)

lemma bit_at_set_bit64:
  "unat nr < 8 * length addr \<Longrightarrow>
   bit_at (snd (ext2fs_set_bit64 nr addr)) m \<longleftrightarrow> m = unat nr \<or> bit_at addr m"
  by (simp add: ext2fs_set_bit64_def Let_def byte_update_or)

lemma bit_at_clear_bit64:
  "unat nr < 8 * length addr \<Longrightarrow>
   bit_at (snd (ext2fs_clear_bit64 nr addr)) m \<longleftrightarrow> m \<noteq> unat nr \<and> bit_at addr m"
  by (simp add: ext2fs_clear_bit64_def Let_def byte_update_andnot)

lemma bit_at_set_bit:
  "unat nr < 8 * length addr \<Longrightarrow>
   bit_at (snd (ext2fs_set_bit nr addr)) m \<longleftrightarrow> m = unat nr \<or> bit_at addr m"
  by (simp add: ext2fs_set_bit_def Let_def byte_update_or)

lemma bit_at_clear_bit:
  "unat nr < 8 * length addr \<Longrightarrow>
   bit_at (snd (ext2fs_clear_bit nr addr)) m \<longleftrightarrow> m \<noteq> unat nr \<and> bit_at addr m"
  by (simp add: ext2fs_clear_bit_def Let_def byte_update_andnot)

lemma bit_at_zero [simp]: "n < 8 * k \<Longrightarrow> \<not> bit_at (replicate k 0) n"
  by (simp add: bit_at_def less_mult_imp_div_less mult.commute)

lemma byte_zero_iff: "(b :: u8) = 0 \<longleftrightarrow> (\<forall>k<8. \<not> bit b k)"
  by (auto simp: bit_eq_iff dest: bit_imp_le_length)

lemma byte_ff_iff: "(b :: u8) = -1 \<longleftrightarrow> (\<forall>k<8. bit b k)"
  by (auto simp: bit_eq_iff bit_minus_1_iff dest: bit_imp_le_length)

lemma bytes_zero_iff:
  assumes "p + n \<le> length addr"
  shows "(\<forall>i<n. addr ! (p + i) = 0) \<longleftrightarrow> (\<forall>k<8 * n. \<not> bit_at addr (8 * p + k))"
proof
  assume z: "\<forall>i<n. addr ! (p + i) = 0"
  show "\<forall>k<8 * n. \<not> bit_at addr (8 * p + k)"
  proof (intro allI impI)
    fix k assume "k < 8 * n"
    then have "k div 8 < n" by linarith
    then have "addr ! (p + k div 8) = 0" using z by blast
    then show "\<not> bit_at addr (8 * p + k)" by (simp add: bit_at_def)
  qed
next
  assume z: "\<forall>k<8 * n. \<not> bit_at addr (8 * p + k)"
  show "\<forall>i<n. addr ! (p + i) = 0"
  proof (intro allI impI)
    fix i assume i: "i < n"
    have "\<not> bit (addr ! (p + i)) k" if k: "k < 8" for k
    proof -
      have "8 * i + k < 8 * n" using i k by linarith
      then have "\<not> bit_at addr (8 * p + (8 * i + k))" using z by blast
      moreover have "(8 * p + (8 * i + k)) div 8 = p + i" "(8 * p + (8 * i + k)) mod 8 = k"
        using k by simp_all
      ultimately show ?thesis by (simp add: bit_at_def)
    qed
    then show "addr ! (p + i) = 0" by (simp add: byte_zero_iff)
  qed
qed

lemma take_eq_bits:
  assumes "n \<le> length a" "n \<le> length b"
  shows "take n a = take n b \<longleftrightarrow> (\<forall>k<8 * n. bit_at a k = bit_at b k)"
proof
  assume t: "take n a = take n b"
  show "\<forall>k<8 * n. bit_at a k = bit_at b k"
  proof (intro allI impI)
    fix k assume "k < 8 * n"
    then have "k div 8 < n" by linarith
    then have "a ! (k div 8) = b ! (k div 8)" using t by (metis nth_take)
    then show "bit_at a k = bit_at b k" by (simp add: bit_at_def)
  qed
next
  assume e: "\<forall>k<8 * n. bit_at a k = bit_at b k"
  have "a ! i = b ! i" if i: "i < n" for i
  proof -
    have "bit (a ! i) j = bit (b ! i) j" if j: "j < 8" for j
    proof -
      have "8 * i + j < 8 * n" using i j by linarith
      then have "bit_at a (8 * i + j) = bit_at b (8 * i + j)" using e by blast
      then show ?thesis using j by (simp add: bit_at_def)
    qed
    then show ?thesis by (auto simp: word_bits_eq)
  qed
  then show "take n a = take n b" using assms by (auto simp: list_eq_iff_nth_eq)
qed

section \<open>The scans\<close>

lemma all_less_shift:
  assumes "\<forall>i<c. P i" "(c :: nat) \<le> n"
  shows "(\<forall>i<n. P i) \<longleftrightarrow> (\<forall>i<n - c. P (c + i))"
proof (intro iffI allI impI)
  fix i assume P: "\<forall>i<n - c. P (c + i)" and i: "i < n"
  show "P i"
  proof (cases "i < c")
    case False
    then have "i - c < n - c" using i by linarith
    then have "P (c + (i - c))" using P by blast
    then show ?thesis using False by simp
  qed (use assms in blast)
qed simp

lemma mem_is_zero_iff:
  "len \<le> length mem \<Longrightarrow> ext2fs_mem_is_zero mem len \<longleftrightarrow> (\<forall>i<len. mem ! i = 0)"
proof (induction mem len rule: ext2fs_mem_is_zero.induct)
  case (1 mem len)
  have zs: "take n mem = replicate n 0 \<longleftrightarrow> (\<forall>i<n. mem ! i = 0)" if "n \<le> length mem" for n
    using that by (auto simp: list_eq_iff_nth_eq)
  show ?case
  proof (cases "256 \<le> len \<and> take 256 mem = replicate 256 0")
    case True
    then have IH: "ext2fs_mem_is_zero (drop 256 mem) (len - 256)
                     \<longleftrightarrow> (\<forall>i<len - 256. mem ! (256 + i) = 0)"
      using 1 by simp
    have "\<forall>i<256. mem ! i = 0" using True 1(2) zs[of 256] le_trans by blast
    then have "(\<forall>i<len. mem ! i = 0) \<longleftrightarrow> (\<forall>i<len - 256. mem ! (256 + i) = 0)"
      using True by (intro all_less_shift) blast+
    then show ?thesis using IH True by (subst ext2fs_mem_is_zero.simps) simp
  next
    case False
    then show ?thesis
      using 1(2) zs[of len] zs[of 256]
      by (subst ext2fs_mem_is_zero.simps) (auto intro: less_le_trans)
  qed
qed

lemma bit_mask_down:
  "i \<le> b + 1 \<Longrightarrow> b < 32 \<Longrightarrow>
   bit (mask_down i b m) j \<longleftrightarrow> bit m j \<or> (b + 1 - i \<le> j \<and> j \<le> b)"
proof (induction i b m rule: mask_down.induct)
  case (2 i b m)
  show ?case
  proof (cases b)
    case 0
    then have "i = 0" using 2(2) by simp
    then show ?thesis using 0 by (auto simp: bit_or_iff bit_1_iff)
  next
    case (Suc c)
    then have "bit (mask_down i c (m OR push_bit b 1)) j
                 \<longleftrightarrow> bit (m OR push_bit b 1) j \<or> (c + 1 - i \<le> j \<and> j \<le> c)"
      using 2 by simp
    moreover have "bit (m OR push_bit b 1) j \<longleftrightarrow> bit m j \<or> j = b"
      using 2(3) by (auto simp: bit_or_iff bit_exp_iff)
    moreover have "mask_down (Suc i) b m = mask_down i c (m OR push_bit b 1)"
      using Suc by simp
    ultimately show ?thesis using Suc 2(2) by (simp del: push_bit_of_1) linarith
  qed
qed auto

lemma mask_down_and_zero:
  assumes "i \<le> b + 1" "b < 8"
  shows "mask_down i b 0 AND scast (c :: u8) = 0 \<longleftrightarrow> (\<forall>j. b + 1 - i \<le> j \<and> j \<le> b \<longrightarrow> \<not> bit c j)"
proof -
  have sc: "bit (scast c :: u32) j \<longleftrightarrow> bit c j" if "j < 8" for j
    using that by (cases "j = 7") (simp_all add: bit_signed_iff min_def)
  have m: "bit (mask_down i b 0) j \<longleftrightarrow> b + 1 - i \<le> j \<and> j \<le> b" for j
    using assms by (subst bit_mask_down) auto
  have "mask_down i b 0 AND scast c = 0
          \<longleftrightarrow> (\<forall>j<32. \<not> (bit (mask_down i b 0) j \<and> bit (scast c :: u32) j))"
    by (simp add: word_bits_eq bit_and_iff)
  also have "\<dots> \<longleftrightarrow> (\<forall>j. b + 1 - i \<le> j \<and> j \<le> b \<longrightarrow> \<not> bit c j)"
  proof -
    have "j < 8 \<and> j < 32" if "b + 1 - i \<le> j \<and> j \<le> b" for j using that assms(2) by linarith
    then show ?thesis unfolding m using sc by blast
  qed
  finally show ?thesis .
qed

lemma bits_upto_split:
  "(\<forall>k<m + n. P k) \<longleftrightarrow> (\<forall>k<m. P k) \<and> (\<forall>k<(n :: nat). P (m + k))"
proof (intro iffI conjI allI impI; (elim conjE)?)
  fix k assume "\<forall>k<m. P k" "\<forall>k<n. P (m + k)" "k < m + n"
  then show "P k"
    by (cases "k < m") (auto dest!: spec[of _ "k - m"])
qed auto

lemma partial_byte_clear:
  assumes "0 < n" "lo + n \<le> 8"
  shows "mask_down n (lo + n - 1) 0 AND scast (ADDR ! p) = 0
           \<longleftrightarrow> (\<forall>k<n. \<not> bit_at ADDR (8 * p + lo + k))"
proof -
  have "mask_down n (lo + n - 1) 0 AND scast (ADDR ! p) = 0
          \<longleftrightarrow> (\<forall>j. lo \<le> j \<and> j \<le> lo + n - 1 \<longrightarrow> \<not> bit (ADDR ! p) j)"
    using assms by (subst mask_down_and_zero) auto
  also have "\<dots> \<longleftrightarrow> (\<forall>k<n. \<not> bit (ADDR ! p) (lo + k))"
  proof (intro iffI allI impI)
    fix j assume "\<forall>k<n. \<not> bit (ADDR ! p) (lo + k)" "lo \<le> j \<and> j \<le> lo + n - 1"
    then show "\<not> bit (ADDR ! p) j"
      using assms by (auto dest!: spec[of _ "j - lo"])
  qed (use assms in auto)
  also have "\<dots> \<longleftrightarrow> (\<forall>k<n. \<not> bit_at ADDR (8 * p + lo + k))"
  proof -
    have "(8 * p + lo + k) div 8 = p \<and> (8 * p + lo + k) mod 8 = lo + k" if "k < n" for k
      using that assms by (simp add: add.assoc)
    then show ?thesis by (auto simp: bit_at_def)
  qed
  finally show ?thesis .
qed

lemma test_clear_tail_iff:
  assumes "8 * unat sb + 8 * unat lby + unat lbi \<le> 8 * length ADDR"
    and "unat sb + unat lby < 2 ^ 64" "unat lbi < 8"
  shows "test_clear_tail ADDR sb lby lbi
           \<longleftrightarrow> (\<forall>k<8 * unat lby + unat lbi. \<not> bit_at ADDR (8 * unat sb + k))"
proof -
  have idx: "unat (sb + ucast lby) = unat sb + unat lby"
    using assms(2) by (subst unat_plus64) (simp_all add: unsigned_ucast_eq take_bit_nat_eq_self)
  have "unat sb + unat lby \<le> length ADDR" using assms(1) by linarith
  then have z: "ext2fs_mem_is_zero (drop (unat sb) ADDR) (unat lby)
                \<longleftrightarrow> (\<forall>k<8 * unat lby. \<not> bit_at ADDR (8 * unat sb + k))"
    by (simp add: mem_is_zero_iff bytes_zero_iff)
  show ?thesis
  proof (cases "lbi = 0")
    case True
    then show ?thesis using z by (simp add: test_clear_tail_def)
  next
    case False
    then have pos: "0 < unat lbi" by (simp add: unat_gt_0)
    have "unat (lbi - 1) = unat lbi - 1" using False by (simp add: unat_minus_one)
    then have "mask_down (unat lbi) (unat (lbi - 1)) 0 AND scast (ADDR ! (unat sb + unat lby)) = 0
               \<longleftrightarrow> (\<forall>k<unat lbi. \<not> bit_at ADDR (8 * (unat sb + unat lby) + k))"
      using partial_byte_clear[of "unat lbi" 0 ADDR "unat sb + unat lby"] pos assms(3) by simp
    then have "test_clear_tail ADDR sb lby lbi
       \<longleftrightarrow> (\<forall>k<unat lbi. \<not> bit_at ADDR (8 * unat sb + (8 * unat lby + k)))
         \<and> (lby = 0 \<or> (\<forall>k<8 * unat lby. \<not> bit_at ADDR (8 * unat sb + k)))"
      using False z by (auto simp: test_clear_tail_def idx algebra_simps)
    then show ?thesis
      unfolding bits_upto_split by (cases "lby = 0") auto
  qed
qed

lemma first_byte_top:
  fixes sb len :: u32
  assumes pos: "0 < unat sb" and sb8: "unat sb < 8"
  shows "unat (if len < 8 - sb then len + sb - 1 else 7)
           = unat sb + unat (if len < 8 - sb then len else 8 - sb) - 1"
proof -
  have room: "unat (8 - sb) = 8 - unat sb"
    using sb8 by (simp add: unat_minus_le word_le_nat_alt)
  show ?thesis
  proof (cases "len < 8 - sb")
    case True
    then have "unat len + unat sb < 8" using room by (simp add: word_less_nat_alt)
    then have "unat (len + sb) = unat len + unat sb" by (simp add: unat_word_ariths)
    moreover have "len + sb \<noteq> 0"
      using calculation pos by (metis add_is_0 less_nat_zero_code unat_0)
    ultimately show ?thesis using True by (simp add: unat_minus_one)
  next
    case False
    then show ?thesis using sb8 pos by (simp add: room)
  qed
qed

lemma test_clear_range_iff:
  assumes fits: "unat start + unat len \<le> 8 * length ADDR"
    and nowrap: "unat start + unat len < 2 ^ 64"
  shows "test_clear_range ADDR start len \<longleftrightarrow> (\<forall>k<unat len. \<not> bit_at ADDR (unat start + k))"
proof -
  define sb where "sb = (ucast (start AND 7) :: u32)"
  have sb: "unat sb = unat start mod 8"
    by (simp add: sb_def unsigned_ucast_eq take_bit_nat_eq_self)
  have sb8: "unat sb < 8" using sb by simp
  then have le8: "sb \<le> 8" by (simp add: word_le_nat_alt)
  then have room: "unat (8 - sb) = 8 - unat sb" by (simp add: unat_minus_le)
  have start: "unat start = 8 * (unat start div 8) + unat sb" using sb by simp
  show ?thesis
  proof (cases "sb = 0")
    case True
    then have "unat sb = 0" by simp
    then have "unat start = 8 * (unat start div 8)" using start by linarith
    moreover have "unat len = 8 * (unat len div 8) + unat len mod 8" by simp
    ultimately have "test_clear_tail ADDR (drop_bit 3 start) (drop_bit 3 len) (len AND 7)
        \<longleftrightarrow> (\<forall>k<unat len. \<not> bit_at ADDR (unat start + k))"
      using fits nowrap by (subst test_clear_tail_iff) simp_all
    then show ?thesis using True by (simp add: test_clear_range_def Let_def sb_def)
  next
    case False
    define mc where "mc = (if len < 8 - sb then len else 8 - sb)"
    define mb where "mb = (if len < 8 - sb then len + sb - 1 else 7)"
    have pos: "0 < unat sb" using False by (simp add: unat_gt_0)
    have mc: "unat mc = min (unat len) (8 - unat sb)"
      unfolding mc_def by (simp add: word_less_nat_alt room min_def)
    have mb: "unat mb = unat sb + unat mc - 1"
      unfolding mb_def mc_def using first_byte_top[OF pos sb8] .
    have first: "mask_down (unat mc) (unat mb) 0 AND scast (ADDR ! (unat start div 8)) = 0
        \<longleftrightarrow> (\<forall>k<unat mc. \<not> bit_at ADDR (unat start + k))"
    proof (cases "unat mc = 0")
      case False
      then show ?thesis
        using partial_byte_clear[of "unat mc" "unat sb" ADDR "unat start div 8"] mc mb start sb8
        by simp
    qed simp
    have red: "test_clear_range ADDR start len \<longleftrightarrow>
        (\<forall>k<unat mc. \<not> bit_at ADDR (unat start + k)) \<and>
        (len \<le> 8 - sb \<or> test_clear_tail ADDR (drop_bit 3 start + 1) (drop_bit 3 (len - mc))
                         ((len - mc) AND 7))"
      using False first
      by (simp add: test_clear_range_def Let_def sb_def[symmetric] mc_def[symmetric]
                    mb_def[symmetric])
    show ?thesis
    proof (cases "len \<le> 8 - sb")
      case True
      then have "unat mc = unat len" using mc room by (simp add: word_le_nat_alt)
      then show ?thesis using True red by simp
    next
      case False
      then have mc': "unat mc = 8 - unat sb" and big: "8 - unat sb < unat len"
        using mc room by (simp_all add: word_le_nat_alt)
      have "mc \<le> len" using mc' big by (simp add: word_le_nat_alt)
      then have rest: "unat (len - mc) = unat len - (8 - unat sb)"
        using mc' by (simp add: unat_minus_le)
      have up: "unat (drop_bit 3 start + 1) = unat start div 8 + 1"
        using nowrap by (subst unat_plus64) simp_all
      have next_byte: "8 * unat (drop_bit 3 start + 1) = unat start + (8 - unat sb)"
        using start sb8 up by simp
      have split: "unat (len - mc)
          = 8 * unat (drop_bit 3 (len - mc)) + unat ((len - mc) AND 7)"
        by simp
      have bits: "unat ((len - mc) AND 7) < 8" by simp
      have "test_clear_tail ADDR (drop_bit 3 start + 1) (drop_bit 3 (len - mc)) ((len - mc) AND 7)
          \<longleftrightarrow> (\<forall>k<unat (len - mc). \<not> bit_at ADDR (unat start + (8 - unat sb) + k))"
        unfolding split next_byte[symmetric]
        by (rule test_clear_tail_iff) (use bits split next_byte rest big fits nowrap in linarith)+
      then show ?thesis
        using red False rest big mc' bits_upto_split[of "8 - unat sb" "unat (len - mc)"
            "\<lambda>k. \<not> bit_at ADDR (unat start + k)"]
        by (simp add: add.assoc)
    qed
  qed
qed

end
