(* ===== verification/Bmap64.thy ===== *)
theory Bmap64
  imports Bitops
begin

text \<open>
  \<^verbatim>\<open>lib/ext2fs/bmap64.h\<close>: the 64-bit bitmap structure, the table of operations that a
  bitmap backend provides, and the contract of a backend as a locale. The generic layer
  of \<^verbatim>\<open>gen_bitmap64.c\<close> is verified once against this contract.

  The structure is split into a header, which the generic layer fills in, and the
  backend's private data. The statistics fields exist only under
  \<^verbatim>\<open>ENABLE_BMAP_STATS\<close> and are left out; \<^verbatim>\<open>fs\<close> is passed where a function reads it, and
  \<^verbatim>\<open>flags\<close> is never read.
\<close>

record bmap_hdr =
  gb_magic :: "errcode option"
  gb_start :: u64
  gb_end :: u64
  gb_real_end :: u64
  gb_cluster_bits :: nat
  gb_description :: "string option"
  gb_base_error_code :: errcode

record 'p gbitmap = bmap_hdr +
  gb_private :: 'p

abbreviation with_private :: "bmap_hdr \<Rightarrow> 'p \<Rightarrow> 'p gbitmap" where
  "with_private h p \<equiv> bmap_hdr.extend h (gbitmap.fields p)"

definition EXT2FS_IS_32_BITMAP :: "errcode option \<Rightarrow> bool" where
  "EXT2FS_IS_32_BITMAP magic \<longleftrightarrow>
     magic = Some EXT2_ET_MAGIC_GENERIC_BITMAP \<or> magic = Some EXT2_ET_MAGIC_BLOCK_BITMAP \<or>
     magic = Some EXT2_ET_MAGIC_INODE_BITMAP"

definition EXT2FS_IS_64_BITMAP :: "errcode option \<Rightarrow> bool" where
  "EXT2FS_IS_64_BITMAP magic \<longleftrightarrow>
     magic = Some EXT2_ET_MAGIC_GENERIC_BITMAP64 \<or> magic = Some EXT2_ET_MAGIC_BLOCK_BITMAP64 \<or>
     magic = Some EXT2_ET_MAGIC_INODE_BITMAP64"

text \<open>
  The operation table. \<open>'m\<close> is the outcome of the memory requests an operation makes.
  An operation that writes the bitmap returns it updated; the two search
  operations may be absent (\<^verbatim>\<open>NULL\<close>), in which case the generic layer searches itself.
  The entries \<^verbatim>\<open>free_bmap\<close> and \<^verbatim>\<open>print_stats\<close> only release memory and print.
\<close>

record ('p, 'm) bitmap_ops =
  op_new_bmap :: "'m \<Rightarrow> bmap_hdr \<Rightarrow> errcode + 'p"
  op_copy_bmap :: "'m \<Rightarrow> 'p gbitmap \<Rightarrow> bmap_hdr \<Rightarrow> errcode + 'p"
  op_resize_bmap :: "'m \<Rightarrow> 'p gbitmap \<Rightarrow> u64 \<Rightarrow> u64 \<Rightarrow> errcode option \<times> 'p gbitmap"
  op_mark_bmap :: "'p gbitmap \<Rightarrow> u64 \<Rightarrow> int \<times> 'p gbitmap"
  op_unmark_bmap :: "'p gbitmap \<Rightarrow> u64 \<Rightarrow> int \<times> 'p gbitmap"
  op_test_bmap :: "'p gbitmap \<Rightarrow> u64 \<Rightarrow> int \<times> 'p gbitmap"
  op_mark_bmap_extent :: "'p gbitmap \<Rightarrow> u64 \<Rightarrow> u32 \<Rightarrow> 'p gbitmap"
  op_unmark_bmap_extent :: "'p gbitmap \<Rightarrow> u64 \<Rightarrow> u32 \<Rightarrow> 'p gbitmap"
  op_test_clear_bmap_extent :: "'p gbitmap \<Rightarrow> u64 \<Rightarrow> u32 \<Rightarrow> bool"
  op_set_bmap_range :: "'p gbitmap \<Rightarrow> u64 \<Rightarrow> u64 \<Rightarrow> u8 list \<Rightarrow> 'p gbitmap"
  op_get_bmap_range :: "'p gbitmap \<Rightarrow> u64 \<Rightarrow> u64 \<Rightarrow> u8 list \<Rightarrow> u8 list"
  op_clear_bmap :: "'p gbitmap \<Rightarrow> 'p gbitmap"
  op_find_first_zero :: "('p gbitmap \<Rightarrow> u64 \<Rightarrow> u64 \<Rightarrow> errcode + u64) option"
  op_find_first_set :: "('p gbitmap \<Rightarrow> u64 \<Rightarrow> u64 \<Rightarrow> errcode + u64) option"

section \<open>Views\<close>

abbreviation same_hdr :: "'a bmap_hdr_scheme \<Rightarrow> 'b bmap_hdr_scheme \<Rightarrow> bool" where
  "same_hdr b b' \<equiv> bmap_hdr.truncate b = bmap_hdr.truncate b'"

text \<open>
  The header of a usable bitmap: the ends are in order, and the bitmap has fewer than \<open>2 ^ 63\<close> bits,
  which an address space that can hold its byte array ensures.
\<close>

definition hdr_ok :: "'a bmap_hdr_scheme \<Rightarrow> bool" where
  "hdr_ok b \<longleftrightarrow> gb_start b \<le> gb_end b \<and> gb_end b \<le> gb_real_end b \<and>
                unat (gb_real_end b - gb_start b) < 2 ^ 63"

definition bmap_span :: "u64 \<Rightarrow> nat \<Rightarrow> u64 set" where
  "bmap_span x n = {y. unat x \<le> unat y \<and> unat y < unat x + n}"

lemma same_hdr_iff:
  "same_hdr b b' \<longleftrightarrow>
     gb_magic b = gb_magic b' \<and> gb_start b = gb_start b' \<and> gb_end b = gb_end b' \<and>
     gb_real_end b = gb_real_end b' \<and> gb_cluster_bits b = gb_cluster_bits b' \<and>
     gb_description b = gb_description b' \<and> gb_base_error_code b = gb_base_error_code b'"
  by (simp add: bmap_hdr.truncate_def)

lemma hdr_ok_same: "same_hdr b b' \<Longrightarrow> hdr_ok b \<longleftrightarrow> hdr_ok b'"
  by (simp add: same_hdr_iff hdr_ok_def)

lemma with_private_sel [simp]:
  "gb_magic (with_private h p) = gb_magic h" "gb_start (with_private h p) = gb_start h"
  "gb_end (with_private h p) = gb_end h" "gb_real_end (with_private h p) = gb_real_end h"
  "gb_cluster_bits (with_private h p) = gb_cluster_bits h"
  "gb_description (with_private h p) = gb_description h"
  "gb_base_error_code (with_private h p) = gb_base_error_code h"
  "gb_private (with_private h p) = p"
  by (simp_all add: bmap_hdr.defs gbitmap.defs)

text \<open>
  The searches: the first position of \<open>{s..e}\<close> that satisfies \<open>P\<close>, or \<^verbatim>\<open>ENOENT\<close>.
\<close>

definition first_match :: "(u64 \<Rightarrow> bool) \<Rightarrow> u64 \<Rightarrow> u64 \<Rightarrow> errcode + u64 \<Rightarrow> bool" where
  "first_match P s e r \<longleftrightarrow>
     (case r of
        Inr x \<Rightarrow> s \<le> x \<and> x \<le> e \<and> P x \<and> (\<forall>y. s \<le> y \<and> y < x \<longrightarrow> \<not> P y)
      | Inl err \<Rightarrow> err = ENOENT \<and> (\<forall>y. s \<le> y \<and> y \<le> e \<longrightarrow> \<not> P y))"

section \<open>The contract of a backend\<close>

text \<open>
  \<open>wf\<close> is the backend's invariant and \<open>bits\<close> the set of marked bits of a bitmap. After a resize
  the bits up to the smaller of the two ends are kept and the bits between the old end and
  the new one, as far as the old array reached, are clear; what happens to padding bits is
  left to the backend.
\<close>

locale bmap_backend =
  fixes ops :: "('p, 'm) bitmap_ops"
    and wf :: "'p gbitmap \<Rightarrow> bool"
    and bits :: "'p gbitmap \<Rightarrow> u64 set"
  assumes wf_hdr: "wf b \<Longrightarrow> hdr_ok b"
    and wf_end: "wf b \<Longrightarrow> hdr_ok (b\<lparr>gb_end := e\<rparr>) \<Longrightarrow>
                 wf (b\<lparr>gb_end := e\<rparr>) \<and> bits (b\<lparr>gb_end := e\<rparr>) = bits b"
    and bits_range: "wf b \<Longrightarrow> bits b \<subseteq> {gb_start b..gb_real_end b}"
    and new_ok: "hdr_ok h \<Longrightarrow> op_new_bmap ops m h = Inr p \<Longrightarrow>
                 wf (with_private h p) \<and> bits (with_private h p) = {}"
    and copy_ok: "wf src \<Longrightarrow> hdr_ok h \<Longrightarrow> gb_start h = gb_start src \<Longrightarrow>
                  gb_real_end h = gb_real_end src \<Longrightarrow> op_copy_bmap ops m src h = Inr p \<Longrightarrow>
                  wf (with_private h p) \<and> bits (with_private h p) = bits src"
    and mark_ok: "wf b \<Longrightarrow> gb_start b \<le> x \<Longrightarrow> x \<le> gb_real_end b \<Longrightarrow>
                  op_mark_bmap ops b x = (r, b') \<Longrightarrow>
                  wf b' \<and> same_hdr b' b \<and> bits b' = insert x (bits b) \<and> (r \<noteq> 0 \<longleftrightarrow> x \<in> bits b)"
    and unmark_ok: "wf b \<Longrightarrow> gb_start b \<le> x \<Longrightarrow> x \<le> gb_real_end b \<Longrightarrow>
                    op_unmark_bmap ops b x = (r, b') \<Longrightarrow>
                    wf b' \<and> same_hdr b' b \<and> bits b' = bits b - {x} \<and> (r \<noteq> 0 \<longleftrightarrow> x \<in> bits b)"
    and test_ok: "wf b \<Longrightarrow> gb_start b \<le> x \<Longrightarrow> x \<le> gb_real_end b \<Longrightarrow>
                  op_test_bmap ops b x = (r, b') \<Longrightarrow>
                  wf b' \<and> same_hdr b' b \<and> bits b' = bits b \<and> (r \<noteq> 0 \<longleftrightarrow> x \<in> bits b)"
    and mark_extent_ok: "wf b \<Longrightarrow> gb_start b \<le> x \<Longrightarrow> unat x + unat n \<le> unat (gb_real_end b) + 1 \<Longrightarrow>
                  wf (op_mark_bmap_extent ops b x n) \<and> same_hdr (op_mark_bmap_extent ops b x n) b \<and>
                  bits (op_mark_bmap_extent ops b x n) = bits b \<union> bmap_span x (unat n)"
    and unmark_extent_ok: "wf b \<Longrightarrow> gb_start b \<le> x \<Longrightarrow> unat x + unat n \<le> unat (gb_real_end b) + 1 \<Longrightarrow>
                  wf (op_unmark_bmap_extent ops b x n) \<and> same_hdr (op_unmark_bmap_extent ops b x n) b \<and>
                  bits (op_unmark_bmap_extent ops b x n) = bits b - bmap_span x (unat n)"
    and test_clear_ok: "wf b \<Longrightarrow> gb_start b \<le> x \<Longrightarrow> unat x + unat n \<le> unat (gb_real_end b) + 1 \<Longrightarrow>
                  op_test_clear_bmap_extent ops b x n \<longleftrightarrow> bits b \<inter> bmap_span x (unat n) = {}"
    and clear_ok: "wf b \<Longrightarrow> wf (op_clear_bmap ops b) \<and> same_hdr (op_clear_bmap ops b) b \<and>
                  bits (op_clear_bmap ops b) = {}"
    and resize_ok: "wf b \<Longrightarrow> hdr_ok (b\<lparr>gb_end := ne, gb_real_end := nre\<rparr>) \<Longrightarrow>
                  op_resize_bmap ops m b ne nre = (None, b') \<Longrightarrow>
                  wf b' \<and> same_hdr b' (b\<lparr>gb_end := ne, gb_real_end := nre\<rparr>) \<and>
                  (\<forall>x. x \<le> gb_end b \<and> x \<le> ne \<longrightarrow> (x \<in> bits b' \<longleftrightarrow> x \<in> bits b)) \<and>
                  (\<forall>x. gb_end b < x \<and> x \<le> ne \<and> x \<le> gb_real_end b \<longrightarrow> x \<notin> bits b')"
    and find_first_set_ok: "op_find_first_set ops = Some f \<Longrightarrow> wf b \<Longrightarrow> gb_start b \<le> s \<Longrightarrow> s \<le> e \<Longrightarrow>
                  e \<le> gb_real_end b \<Longrightarrow> first_match (\<lambda>x. x \<in> bits b) s e (f b s e)"

text \<open>
  A backend whose search for a zero bit is exact as well. The two contracts are apart because
  \<^verbatim>\<open>rb_find_first_zero\<close> does not keep this one (it fails on a bitmap without marked bits).
\<close>

locale bmap_backend_zero = bmap_backend +
  assumes find_first_zero_ok: "op_find_first_zero ops = Some f \<Longrightarrow> wf b \<Longrightarrow> gb_start b \<le> s \<Longrightarrow> s \<le> e \<Longrightarrow>
                  e \<le> gb_real_end b \<Longrightarrow> first_match (\<lambda>x. x \<notin> bits b) s e (f b s e)"

end
