(* ===== verification/Gen_Bitmap32.thy ===== *)
theory Gen_Bitmap32
  imports Bmap64
begin

text \<open>
  \<^verbatim>\<open>lib/ext2fs/gen_bitmap.c\<close>: the old 32-bit bitmaps. The functions here act on the 32-bit structure; where the C
  function passes a 64-bit bitmap on to \<^verbatim>\<open>gen_bitmap64.c\<close>, that branch is modelled in the theory of
  the 64-bit layer. Warnings are printed only and not modelled.

  The loops of the form \<^verbatim>\<open>for (i = a; i <= e; i++)\<close> never end when \<^verbatim>\<open>e\<close> is the largest
  number of its type and no iteration leaves the loop, so they are partial; the theorems show
  that they return for every smaller \<^verbatim>\<open>e\<close>.
\<close>

section \<open>Model\<close>

record gbitmap32 =
  g32_magic :: "errcode option"
  g32_start :: u32
  g32_end :: u32
  g32_real_end :: u32
  g32_description :: "string option"
  g32_bitmap :: "u8 list"
  g32_base_error_code :: errcode

text \<open>
  The outcome of the three memory requests of \<^verbatim>\<open>ext2fs_make_generic_bitmap\<close>, and the bytes that
  happen to follow an initial map in memory.
\<close>

record g32_mem =
  m_struct :: bool
  m_descr :: bool
  m_array :: bool
  m_beyond :: "nat \<Rightarrow> u8"

definition g32_size :: "u32 \<Rightarrow> u32 \<Rightarrow> nat" where
  "g32_size start real_end = unat ((real_end - start) div 8 + 1)"

definition g32_alloc_size :: "u32 \<Rightarrow> u32 \<Rightarrow> nat" where
  "g32_alloc_size start real_end =
     unat ((word_of_nat (g32_size start real_end) + 7 :: u64) AND NOT 3)"

definition ext2fs_make_generic_bitmap ::
  "g32_mem \<Rightarrow> errcode option \<Rightarrow> u32 \<Rightarrow> u32 \<Rightarrow> u32 \<Rightarrow> string option \<Rightarrow> u8 list option \<Rightarrow> errcode + gbitmap32"
where
  "ext2fs_make_generic_bitmap m magic start end1 real_end descr init_map =
     (if \<not> m_struct m then Inl EXT2_ET_NO_MEMORY
      else if descr \<noteq> None \<and> \<not> m_descr m then Inl EXT2_ET_NO_MEMORY
      else if \<not> m_array m then Inl EXT2_ET_NO_MEMORY
      else
        let sz = g32_alloc_size start real_end
        in Inr \<lparr>g32_magic = magic, g32_start = start, g32_end = end1, g32_real_end = real_end,
                g32_description = descr,
                g32_bitmap =
                  (case init_map of
                     Some im \<Rightarrow> take sz (im @ fresh_cells (m_beyond m) sz)
                   | None \<Rightarrow> replicate sz 0),
                g32_base_error_code =
                  (if magic = Some EXT2_ET_MAGIC_INODE_BITMAP then EXT2_ET_BAD_INODE_MARK
                   else if magic = Some EXT2_ET_MAGIC_BLOCK_BITMAP then EXT2_ET_BAD_BLOCK_MARK
                   else EXT2_ET_BAD_GENERIC_MARK)\<rparr>)"

definition ext2fs_allocate_generic_bitmap ::
  "g32_mem \<Rightarrow> u32 \<Rightarrow> u32 \<Rightarrow> u32 \<Rightarrow> string option \<Rightarrow> errcode + gbitmap32" where
  "ext2fs_allocate_generic_bitmap m start end1 real_end descr =
     ext2fs_make_generic_bitmap m (Some EXT2_ET_MAGIC_GENERIC_BITMAP) start end1 real_end descr None"

definition ext2fs_copy_generic_bitmap :: "g32_mem \<Rightarrow> gbitmap32 \<Rightarrow> errcode + gbitmap32" where
  "ext2fs_copy_generic_bitmap m src =
     ext2fs_make_generic_bitmap m (g32_magic src) (g32_start src) (g32_end src) (g32_real_end src)
       (g32_description src) (Some (g32_bitmap src))"

definition g32_test_generic_bitmap :: "gbitmap32 \<Rightarrow> u32 \<Rightarrow> int" where
  "g32_test_generic_bitmap bitmap bitno =
     (if \<not> EXT2FS_IS_32_BITMAP (g32_magic bitmap) then 0
      else if bitno < g32_start bitmap \<or> bitno > g32_end bitmap then 0
      else ext2fs_test_bit (bitno - g32_start bitmap) (g32_bitmap bitmap))"

definition g32_mark_generic_bitmap :: "gbitmap32 \<Rightarrow> u32 \<Rightarrow> int \<times> gbitmap32" where
  "g32_mark_generic_bitmap bitmap bitno =
     (if \<not> EXT2FS_IS_32_BITMAP (g32_magic bitmap) then (0, bitmap)
      else if bitno < g32_start bitmap \<or> bitno > g32_end bitmap then (0, bitmap)
      else let (r, arr) = ext2fs_set_bit (bitno - g32_start bitmap) (g32_bitmap bitmap)
           in (r, bitmap\<lparr>g32_bitmap := arr\<rparr>))"

definition g32_unmark_generic_bitmap :: "gbitmap32 \<Rightarrow> u32 \<Rightarrow> int \<times> gbitmap32" where
  "g32_unmark_generic_bitmap bitmap bitno =
     (if \<not> EXT2FS_IS_32_BITMAP (g32_magic bitmap) then (0, bitmap)
      else if bitno < g32_start bitmap \<or> bitno > g32_end bitmap then (0, bitmap)
      else let (r, arr) = ext2fs_clear_bit (bitno - g32_start bitmap) (g32_bitmap bitmap)
           in (r, bitmap\<lparr>g32_bitmap := arr\<rparr>))"

definition g32_clear_generic_bitmap :: "gbitmap32 \<Rightarrow> gbitmap32" where
  "g32_clear_generic_bitmap bitmap =
     (if \<not> EXT2FS_IS_32_BITMAP (g32_magic bitmap) then bitmap
      else let sz = g32_size (g32_start bitmap) (g32_real_end bitmap)
           in bitmap\<lparr>g32_bitmap := replicate sz 0 @ drop sz (g32_bitmap bitmap)\<rparr>)"

definition ext2fs_fudge_generic_bitmap_end ::
  "gbitmap32 \<Rightarrow> errcode \<Rightarrow> errcode \<Rightarrow> u32 \<Rightarrow> errcode + u32 \<times> gbitmap32" where
  "ext2fs_fudge_generic_bitmap_end bitmap magic neq end1 =
     (if g32_magic bitmap \<noteq> Some magic then Inl magic
      else if end1 > g32_real_end bitmap then Inl neq
      else Inr (g32_end bitmap, bitmap\<lparr>g32_end := end1\<rparr>))"

function g32_clear_down :: "u32 \<Rightarrow> u32 \<Rightarrow> u32 \<Rightarrow> u8 list \<Rightarrow> u8 list" where
  "g32_clear_down start lim bitno arr =
     (if lim < bitno
      then g32_clear_down start lim (bitno - 1) (snd (ext2fs_clear_bit (bitno - start) arr))
      else arr)"
  by pat_completeness auto
termination
  by (relation "measure (\<lambda>(start, lim, bitno, arr). unat bitno)") (auto simp: unat_pred_less)

declare g32_clear_down.simps [simp del]

text \<open>\<open>realloc\<close> keeps the bytes of the old block; \<open>g\<close> are the bytes of the new part.\<close>

definition ext2fs_resize_generic_bitmap ::
  "(nat \<Rightarrow> u8) option \<Rightarrow> errcode \<Rightarrow> u32 \<Rightarrow> u32 \<Rightarrow> gbitmap32 \<Rightarrow> errcode option \<times> gbitmap32" where
  "ext2fs_resize_generic_bitmap m magic new_end new_real_end bmap =
     (if g32_magic bmap \<noteq> Some magic then (Some magic, bmap)
      else
        let bitno = (if g32_real_end bmap > new_end then new_end else g32_real_end bmap);
            arr = (if new_end > g32_end bmap
                   then g32_clear_down (g32_start bmap) (g32_end bmap) bitno (g32_bitmap bmap)
                   else g32_bitmap bmap);
            bmap1 = bmap\<lparr>g32_bitmap := arr\<rparr>;
            sz = g32_size (g32_start bmap) (g32_real_end bmap);
            new_sz = g32_size (g32_start bmap) new_real_end
        in if new_real_end = g32_real_end bmap then (None, bmap1\<lparr>g32_end := new_end\<rparr>)
           else
             case (if sz \<noteq> new_sz
                   then map_option (\<lambda>g. take new_sz arr @ fresh_cells g (new_sz - length arr)) m
                   else Some arr) of
               None \<Rightarrow> (Some EXT2_ET_NO_MEMORY, bmap1)
             | Some arr2 \<Rightarrow>
                 let arr3 = (if new_sz > sz
                             then take sz arr2 @ replicate (new_sz - sz) 0 @ drop new_sz arr2
                             else arr2)
                 in (None, bmap1\<lparr>g32_bitmap := arr3, g32_end := new_end,
                                g32_real_end := new_real_end\<rparr>))"

text \<open>The loop \<^verbatim>\<open>for (; i <= e; i++) if (P(i)) leave with i\<close>.\<close>

partial_function (option) scan_up :: "('a::len word \<Rightarrow> bool) \<Rightarrow> 'a word \<Rightarrow> 'a word \<Rightarrow> 'a word option option"
where [code]:
  "scan_up f i e =
     (if i \<le> e then if f i then Some (Some i) else scan_up f (i + 1) e else Some None)"

text \<open>Outer \<open>None\<close>: the function does not return. Inner \<open>None\<close>: it returns 0.\<close>

definition ext2fs_compare_generic_bitmap ::
  "errcode \<Rightarrow> errcode \<Rightarrow> gbitmap32 \<Rightarrow> gbitmap32 \<Rightarrow> errcode option option" where
  "ext2fs_compare_generic_bitmap magic neq bm1 bm2 =
     (if g32_magic bm1 \<noteq> Some magic \<or> g32_magic bm2 \<noteq> Some magic then Some (Some magic)
      else
        let n = unat ((g32_end bm1 - g32_start bm1) div 8)
        in if g32_start bm1 \<noteq> g32_start bm2 \<or> g32_end bm1 \<noteq> g32_end bm2 \<or>
              take n (g32_bitmap bm1) \<noteq> take n (g32_bitmap bm2)
           then Some (Some neq)
           else map_option (map_option (\<lambda>_. neq))
                  (scan_up (\<lambda>i. g32_test_generic_bitmap bm1 i \<noteq> g32_test_generic_bitmap bm2 i)
                     (g32_end bm1 - (g32_end bm1 - g32_start bm1) mod 8) (g32_end bm1)))"

function g32_padding_loop :: "u32 \<Rightarrow> u32 \<Rightarrow> u32 \<Rightarrow> u32 \<Rightarrow> u8 list \<Rightarrow> u8 list" where
  "g32_padding_loop end1 real_end i j arr =
     (if i \<le> real_end \<and> i > end1
      then g32_padding_loop end1 real_end (i + 1) (j + 1) (snd (ext2fs_set_bit j arr))
      else arr)"
  by pat_completeness auto
termination
proof (relation "measure (\<lambda>(end1, real_end, i, j, arr). if i > end1 then 2 ^ 32 - unat i else 0)")
  fix end1 real_end i j :: u32 and arr :: "u8 list"
  assume i: "i \<le> real_end \<and> i > end1"
  have "unat i < 2 ^ 32" using unsigned_less[of i] by simp
  moreover have "i + 1 > end1 \<Longrightarrow> unat (i + 1) = unat i + 1"
    by (rule unat_succ_less)
  ultimately show "((end1, real_end, i + 1, j + 1, snd (ext2fs_set_bit j arr)), end1, real_end, i, j, arr)
      \<in> measure (\<lambda>(end1, real_end, i, j, arr). if i > end1 then 2 ^ 32 - unat i else 0)"
    using i by auto
qed simp

declare g32_padding_loop.simps [simp del]

definition ext2fs_set_generic_bitmap_padding :: "gbitmap32 \<Rightarrow> gbitmap32" where
  "ext2fs_set_generic_bitmap_padding map1 =
     map1\<lparr>g32_bitmap := g32_padding_loop (g32_end map1) (g32_real_end map1) (g32_end map1 + 1)
                         (g32_end map1 + 1 - g32_start map1) (g32_bitmap map1)\<rparr>"

definition ext2fs_get_generic_bitmap_range ::
  "gbitmap32 \<Rightarrow> errcode \<Rightarrow> u32 \<Rightarrow> u32 \<Rightarrow> u8 list \<Rightarrow> errcode + u8 list" where
  "ext2fs_get_generic_bitmap_range bmap magic start num outbuf =
     (if g32_magic bmap \<noteq> Some magic then Inl magic
      else if start < g32_start bmap \<or> start + num - 1 > g32_real_end bmap
      then Inl EXT2_ET_INVALID_ARGUMENT
      else Inr (memcpy_at outbuf 0 (drop (unat (drop_bit 3 start)) (g32_bitmap bmap))
                  (unat (drop_bit 3 (num + 7)))))"

definition ext2fs_set_generic_bitmap_range ::
  "gbitmap32 \<Rightarrow> errcode \<Rightarrow> u32 \<Rightarrow> u32 \<Rightarrow> u8 list \<Rightarrow> errcode option \<times> gbitmap32" where
  "ext2fs_set_generic_bitmap_range bmap magic start num inbuf =
     (if g32_magic bmap \<noteq> Some magic then (Some magic, bmap)
      else if start < g32_start bmap \<or> start + num - 1 > g32_real_end bmap
      then (Some EXT2_ET_INVALID_ARGUMENT, bmap)
      else (None, bmap\<lparr>g32_bitmap := memcpy_at (g32_bitmap bmap) (unat (drop_bit 3 start)) inbuf
                                     (unat (drop_bit 3 (num + 7)))\<rparr>))"

definition ext2fs_test_clear_generic_bitmap_range :: "gbitmap32 \<Rightarrow> u32 \<Rightarrow> u32 \<Rightarrow> bool" where
  "ext2fs_test_clear_generic_bitmap_range bitmap start len =
     test_clear_range (g32_bitmap bitmap) (ucast (start - g32_start bitmap)) len"

definition ext2fs_find_first_zero_generic_bitmap ::
  "gbitmap32 \<Rightarrow> u32 \<Rightarrow> u32 \<Rightarrow> (errcode + u32) option" where
  "ext2fs_find_first_zero_generic_bitmap bitmap start end1 =
     (if start < g32_start bitmap \<or> end1 > g32_end bitmap \<or> start > end1 then Some (Inl EINVAL)
      else map_option (case_option (Inl ENOENT) Inr)
             (scan_up (\<lambda>i. ext2fs_test_bit (i - g32_start bitmap) (g32_bitmap bitmap) = 0)
                start end1))"

definition ext2fs_find_first_set_generic_bitmap ::
  "gbitmap32 \<Rightarrow> u32 \<Rightarrow> u32 \<Rightarrow> (errcode + u32) option" where
  "ext2fs_find_first_set_generic_bitmap bitmap start end1 =
     (if start < g32_start bitmap \<or> end1 > g32_end bitmap \<or> start > end1 then Some (Inl EINVAL)
      else map_option (case_option (Inl ENOENT) Inr)
             (scan_up (\<lambda>i. ext2fs_test_bit (i - g32_start bitmap) (g32_bitmap bitmap) \<noteq> 0)
                start end1))"

text \<open>
  The range functions of block and inode bitmaps; \<^verbatim>\<open>num\<close> is a signed \<^verbatim>\<open>int\<close>. The two test functions return
  an error code, which is not zero, where the structure has the wrong type.
\<close>

definition ext2fs_test_block_bitmap_range :: "gbitmap32 \<Rightarrow> u32 \<Rightarrow> u32 \<Rightarrow> errcode + bool" where
  "ext2fs_test_block_bitmap_range bitmap block num =
     (if g32_magic bitmap \<noteq> Some EXT2_ET_MAGIC_BLOCK_BITMAP then Inl EXT2_ET_MAGIC_BLOCK_BITMAP
      else if block < g32_start bitmap \<or> block + num - 1 > g32_real_end bitmap then Inr False
      else Inr (ext2fs_test_clear_generic_bitmap_range bitmap block num))"

definition ext2fs_test_inode_bitmap_range :: "gbitmap32 \<Rightarrow> u32 \<Rightarrow> u32 \<Rightarrow> errcode + bool" where
  "ext2fs_test_inode_bitmap_range bitmap inode num =
     (if g32_magic bitmap \<noteq> Some EXT2_ET_MAGIC_INODE_BITMAP then Inl EXT2_ET_MAGIC_INODE_BITMAP
      else if inode < g32_start bitmap \<or> inode + num - 1 > g32_real_end bitmap then Inr False
      else Inr (ext2fs_test_clear_generic_bitmap_range bitmap inode num))"

definition ext2fs_mark_block_bitmap_range :: "gbitmap32 \<Rightarrow> u32 \<Rightarrow> u32 \<Rightarrow> gbitmap32" where
  "ext2fs_mark_block_bitmap_range bitmap block num =
     (if block < g32_start bitmap \<or> block + num - 1 > g32_end bitmap then bitmap
      else bitmap\<lparr>g32_bitmap :=
             fold (\<lambda>i arr. snd (ext2fs_set_bit (block + of_nat i - g32_start bitmap) arr))
                  [0..<nat (sint num)] (g32_bitmap bitmap)\<rparr>)"

definition ext2fs_unmark_block_bitmap_range :: "gbitmap32 \<Rightarrow> u32 \<Rightarrow> u32 \<Rightarrow> gbitmap32" where
  "ext2fs_unmark_block_bitmap_range bitmap block num =
     (if block < g32_start bitmap \<or> block + num - 1 > g32_end bitmap then bitmap
      else bitmap\<lparr>g32_bitmap :=
             fold (\<lambda>i arr. snd (ext2fs_clear_bit (block + of_nat i - g32_start bitmap) arr))
                  [0..<nat (sint num)] (g32_bitmap bitmap)\<rparr>)"

section \<open>Facts\<close>

lemma sint_nonneg_eq_uint: "0 \<le> sint (w :: u32) \<Longrightarrow> sint w = uint w"
proof -
  assume "0 \<le> sint w"
  moreover have "sint w < 2 ^ 31"
    using signed_take_bit_int_less_exp[of 31 "uint w"] by (simp add: sint_uint)
  ultimately have "take_bit 32 (sint w) = sint w" by (simp add: take_bit_int_eq_self)
  then show ?thesis using uint_sint[of w] by simp
qed

lemma scan_up_exact:
  assumes "e \<noteq> -1"
  shows "i \<le> e + 1 \<Longrightarrow> \<exists>r. scan_up P i e = Some r \<and>
    (case r of Some x \<Rightarrow> i \<le> x \<and> x \<le> e \<and> P x \<and> (\<forall>y. i \<le> y \<and> y < x \<longrightarrow> \<not> P y)
             | None \<Rightarrow> \<forall>y. i \<le> y \<and> y \<le> e \<longrightarrow> \<not> P y)"
proof (induction "unat e + 1 - unat i" arbitrary: i)
  case 0
  have "unat (e + 1) = unat e + 1"
    using assms by (intro unat_succ) (metis add.commute add_eq_0_iff)
  then have "\<not> i \<le> e" using 0 by (simp add: word_le_nat_alt)
  then show ?case by (subst scan_up.simps) auto
next
  case (Suc n)
  have e1: "unat (e + 1) = unat e + 1"
    using assms by (intro unat_succ) (metis add.commute add_eq_0_iff)
  have ie: "i \<le> e" using Suc(2) by (simp add: word_le_nat_alt)
  have i1: "unat (i + 1) = unat i + 1"
    using ie e1 by (intro unat_succ_below[of i "e + 1"]) (simp add: word_le_nat_alt word_less_nat_alt)
  have step: "i \<le> y \<longleftrightarrow> y = i \<or> i + 1 \<le> y" for y
    using i1 by (auto simp: word_le_nat_alt word_unat_eq_iff)
  show ?case
  proof (cases "P i")
    case True
    then show ?thesis using ie by (subst scan_up.simps) (auto dest: leD)
  next
    case False
    have "n = unat e + 1 - unat (i + 1)" "i + 1 \<le> e + 1"
      using Suc(2) i1 e1 ie by (simp_all add: word_le_nat_alt)
    from Suc(1)[OF this] obtain r where r: "scan_up P (i + 1) e = Some r"
      "case r of Some x \<Rightarrow> i + 1 \<le> x \<and> x \<le> e \<and> P x \<and> (\<forall>y. i + 1 \<le> y \<and> y < x \<longrightarrow> \<not> P y)
               | None \<Rightarrow> \<forall>y. i + 1 \<le> y \<and> y \<le> e \<longrightarrow> \<not> P y"
      by blast
    moreover have "scan_up P i e = scan_up P (i + 1) e"
      using False ie by (subst scan_up.simps) simp
    ultimately show ?thesis using False step by (cases r) auto
  qed
qed

lemma scan_up_diverges:
  fixes i :: "'a::len word"
  assumes "\<And>x. \<not> P x"
  shows "scan_up P i (-1) = None"
proof (rule ccontr)
  assume "scan_up P i (-1) \<noteq> None"
  then obtain r where "scan_up P i (-1) = Some r" by blast
  moreover have "scan_up P' j e = Some r' \<Longrightarrow> \<not> (P' = P \<and> e = -1)"
    for P' :: "'a word \<Rightarrow> bool" and j e r'
    by (erule scan_up.raw_induct[where P = "\<lambda>P' j e r'. \<not> (P' = P \<and> e = -1)", rotated])
       (auto simp: assms split: if_splits)
  ultimately show False by blast
qed

definition g32_wf :: "gbitmap32 \<Rightarrow> bool" where
  "g32_wf b \<longleftrightarrow> EXT2FS_IS_32_BITMAP (g32_magic b) \<and> g32_start b \<le> g32_end b \<and>
     g32_end b \<le> g32_real_end b \<and> g32_size (g32_start b) (g32_real_end b) \<le> length (g32_bitmap b)"

definition g32_bits :: "gbitmap32 \<Rightarrow> u32 set" where
  "g32_bits b = {x. g32_start b \<le> x \<and> x \<le> g32_real_end b \<and>
                    bit_at (g32_bitmap b) (unat (x - g32_start b))}"

definition g32_span :: "u32 \<Rightarrow> nat \<Rightarrow> u32 set" where
  "g32_span x n = {y. unat x \<le> unat y \<and> unat y < unat x + n}"

lemma g32_size_eq: "g32_size s e = unat (e - s) div 8 + 1"
proof -
  have "unat ((e - s) div 8) = unat (e - s) div 8" by (simp add: unat_div)
  moreover have "unat (e - s) < 2 ^ 32" using unsigned_less[of "e - s"] by simp
  ultimately show ?thesis unfolding g32_size_def by (simp add: unat_word_ariths)
qed

lemma g32_in_array:
  assumes "g32_wf b" "g32_start b \<le> x" "x \<le> g32_real_end b"
  shows "unat (x - g32_start b) < 8 * length (g32_bitmap b)"
proof -
  have "unat (x - g32_start b) \<le> unat (g32_real_end b - g32_start b)"
    using assms(2,3) by (simp add: unat_minus_le word_le_nat_alt)
  moreover have "unat (g32_real_end b - g32_start b) div 8 + 1 \<le> length (g32_bitmap b)"
    using assms(1) by (simp add: g32_wf_def g32_size_eq)
  ultimately show ?thesis by linarith
qed

lemma g32_offset_eq:
  assumes "(s :: u32) \<le> x" "s \<le> y"
  shows "unat (x - s) = unat (y - s) \<longleftrightarrow> x = y"
  using assms by (metis diff_add_cancel word_unat_eq_iff)

lemma test_bit_eq_iff:
  "ext2fs_test_bit nr a = ext2fs_test_bit nr b \<longleftrightarrow> bit_at a (unat nr) = bit_at b (unat nr)"
proof -
  have one: "2 ^ k AND c = (if bit c k then 2 ^ k else 0)" if "k < 8" for k and c :: u8
    by (rule bit_word_eqI) (use that in \<open>auto simp: bit_and_iff bit_mask8\<close>)
  have "unat nr mod 8 < 8" by simp
  from one[OF this] show ?thesis
    by (simp add: ext2fs_test_bit_def Let_def bit_at_def unsigned_eq_0_iff not_le)
qed

lemma g32_wf_array:
  "g32_wf b \<Longrightarrow> length arr = length (g32_bitmap b) \<Longrightarrow> g32_wf (b\<lparr>g32_bitmap := arr\<rparr>)"
  by (simp add: g32_wf_def)

lemma g32_mark_ok:
  assumes "g32_wf b" "g32_mark_generic_bitmap b x = (r, b')"
  shows "g32_wf b' \<and> g32_bits b' = g32_bits b \<union> ({x} \<inter> {g32_start b..g32_end b}) \<and>
         (r \<noteq> 0 \<longleftrightarrow> x \<in> g32_bits b \<inter> {g32_start b..g32_end b})"
proof (cases "g32_start b \<le> x \<and> x \<le> g32_end b")
  case True
  let ?o = "x - g32_start b"
  have re: "x \<le> g32_real_end b" using True assms(1) by (auto simp: g32_wf_def)
  have ia: "unat ?o < 8 * length (g32_bitmap b)" using g32_in_array[OF assms(1)] True re by blast
  have b': "b' = b\<lparr>g32_bitmap := snd (ext2fs_set_bit ?o (g32_bitmap b))\<rparr>"
    and r: "r = fst (ext2fs_set_bit ?o (g32_bitmap b))"
    using assms True leD[of _ x] leD[of x]
    by (simp_all add: g32_mark_generic_bitmap_def g32_wf_def split: prod.splits if_splits)
  have "g32_bits b' = insert x (g32_bits b)"
    using True re by (auto simp: b' g32_bits_def bit_at_set_bit[OF ia] g32_offset_eq)
  moreover have "r \<noteq> 0 \<longleftrightarrow> x \<in> g32_bits b"
    using True re by (simp add: r set_bit_old g32_bits_def)
  ultimately show ?thesis using True b' g32_wf_array[OF assms(1)] by auto
next
  case False
  then show ?thesis using assms by (auto simp: g32_mark_generic_bitmap_def not_le split: if_splits)
qed

lemma g32_unmark_ok:
  assumes "g32_wf b" "g32_unmark_generic_bitmap b x = (r, b')"
  shows "g32_wf b' \<and> g32_bits b' = g32_bits b - ({x} \<inter> {g32_start b..g32_end b}) \<and>
         (r \<noteq> 0 \<longleftrightarrow> x \<in> g32_bits b \<inter> {g32_start b..g32_end b})"
proof (cases "g32_start b \<le> x \<and> x \<le> g32_end b")
  case True
  let ?o = "x - g32_start b"
  have re: "x \<le> g32_real_end b" using True assms(1) by (auto simp: g32_wf_def)
  have ia: "unat ?o < 8 * length (g32_bitmap b)" using g32_in_array[OF assms(1)] True re by blast
  have b': "b' = b\<lparr>g32_bitmap := snd (ext2fs_clear_bit ?o (g32_bitmap b))\<rparr>"
    and r: "r = fst (ext2fs_clear_bit ?o (g32_bitmap b))"
    using assms True leD[of _ x] leD[of x]
    by (simp_all add: g32_unmark_generic_bitmap_def g32_wf_def split: prod.splits if_splits)
  have "g32_bits b' = g32_bits b - {x}"
    using True re by (auto simp: b' g32_bits_def bit_at_clear_bit[OF ia] g32_offset_eq)
  moreover have "r \<noteq> 0 \<longleftrightarrow> x \<in> g32_bits b"
    using True re by (simp add: r clear_bit_old g32_bits_def)
  ultimately show ?thesis using True b' g32_wf_array[OF assms(1)] by auto
next
  case False
  then show ?thesis using assms by (auto simp: g32_unmark_generic_bitmap_def not_le split: if_splits)
qed

lemma g32_test_ok:
  assumes "g32_wf b"
  shows "g32_test_generic_bitmap b x \<noteq> 0 \<longleftrightarrow> x \<in> g32_bits b \<inter> {g32_start b..g32_end b}"
proof (cases "g32_start b \<le> x \<and> x \<le> g32_end b")
  case True
  then have "x \<le> g32_real_end b" using assms by (auto simp: g32_wf_def)
  then show ?thesis
    using True assms test_bit_iff[of "x - g32_start b" "g32_bitmap b"] leD[of _ x] leD[of x]
    by (simp add: g32_test_generic_bitmap_def g32_wf_def g32_bits_def)
next
  case False
  then show ?thesis by (auto simp: g32_test_generic_bitmap_def not_le)
qed

lemma g32_same_test:
  assumes "g32_wf b1" "g32_wf b2" "g32_start b1 = g32_start b2" "g32_end b1 = g32_end b2"
    and x: "g32_start b1 \<le> x" "x \<le> g32_end b1"
  shows "g32_test_generic_bitmap b1 x = g32_test_generic_bitmap b2 x \<longleftrightarrow>
         (x \<in> g32_bits b1) = (x \<in> g32_bits b2)"
proof -
  have "x \<le> g32_real_end b1" "x \<le> g32_real_end b2"
    using assms by (auto simp: g32_wf_def)
  then show ?thesis
    using assms leD[OF x(1)] leD[OF x(2)] test_bit_eq_iff[of "x - g32_start b1"]
    by (simp add: g32_test_generic_bitmap_def g32_wf_def g32_bits_def)
qed

text \<open>
  The two parts of the comparison: whole bytes below the position \<open>i\<close> where the bit loop starts.
\<close>

lemma unat_numeral_8: "unat (8 :: u32) = 8"
  by simp

lemma compare_start:
  assumes "(s :: u32) \<le> e"
  shows "unat (e - (e - s) mod 8) = unat s + 8 * unat ((e - s) div 8)"
    and "8 * unat ((e - s) div 8) \<le> unat (e - s)"
proof -
  have "unat ((e - s) div 8) = unat (e - s) div 8" by (simp add: unat_div)
  then show n: "8 * unat ((e - s) div 8) \<le> unat (e - s)" by simp
  have "unat ((e - s) mod 8) = unat (e - s) mod 8" by (simp add: unat_mod)
  then have "unat (e - (e - s) mod 8) = unat e - unat (e - s) mod 8"
    using unat_minus_le[OF assms] by (subst unat_minus_nat) (simp_all, linarith?)
  then show "unat (e - (e - s) mod 8) = unat s + 8 * unat ((e - s) div 8)"
    using assms unat_minus_le[OF assms] mod_mult_div_eq[of "unat (e - s)" 8]
    unfolding unat_div word_le_nat_alt by (simp only: unat_numeral_8) linarith
qed

lemma compare_bytes:
  assumes s: "(s :: u32) \<le> i" and i: "unat i = unat s + 8 * n"
    and len: "n \<le> length a" "n \<le> length b"
  shows "take n a = take n b \<longleftrightarrow>
         (\<forall>x. s \<le> x \<and> x < i \<longrightarrow> bit_at a (unat (x - s)) = bit_at b (unat (x - s)))"
    (is "_ \<longleftrightarrow> ?R")
proof -
  have "(\<forall>k<8 * n. bit_at a k = bit_at b k) \<longleftrightarrow> ?R"
  proof (rule iffI; intro allI impI)
    fix x assume L: "\<forall>k<8 * n. bit_at a k = bit_at b k" and x: "s \<le> x \<and> x < i"
    then have "unat s \<le> unat x" "unat x < unat s + 8 * n"
      using i by (simp_all add: word_less_nat_alt word_le_nat_alt)
    then have "unat (x - s) < 8 * n" using unat_minus_nat[of s x] by linarith
    then show "bit_at a (unat (x - s)) = bit_at b (unat (x - s))" using L by blast
  next
    fix k assume R: ?R and k: "k < 8 * n"
    have "unat i < 2 ^ 32" using unsigned_less[of i] by simp
    then have x: "unat (s + of_nat k) = unat s + k"
      using k i by (simp add: unat_word_ariths unsigned_of_nat take_bit_nat_eq_self)
    then have st: "s \<le> s + of_nat k" "s + of_nat k < i"
      using k i by (simp_all add: word_le_nat_alt word_less_nat_alt)
    have "unat (s + of_nat k - s) = k"
      using x unat_minus_le[OF st(1)] by linarith
    then show "bit_at a k = bit_at b k" using R st by metis
  qed
  then show ?thesis using take_eq_bits[OF len] by simp
qed

lemma inter_split:
  fixes s i e :: "'a::linorder"
  assumes "s \<le> i" "i \<le> e"
  shows "A \<inter> {s..e} = B \<inter> {s..e} \<longleftrightarrow>
    (\<forall>x. s \<le> x \<and> x < i \<longrightarrow> (x \<in> A) = (x \<in> B)) \<and> (\<forall>x. i \<le> x \<and> x \<le> e \<longrightarrow> (x \<in> A) = (x \<in> B))"
    (is "?L \<longleftrightarrow> ?R1 \<and> ?R2")
proof -
  have "?L \<longleftrightarrow> (\<forall>x. s \<le> x \<and> x \<le> e \<longrightarrow> (x \<in> A) = (x \<in> B))"
    unfolding set_eq_iff Int_iff atLeastAtMost_iff by blast
  moreover have "s \<le> x \<and> x \<le> e \<longleftrightarrow> s \<le> x \<and> x < i \<or> i \<le> x \<and> x \<le> e" for x
    using assms by auto
  ultimately show ?thesis by blast
qed

lemma g32_fold_set:
  "(\<And>i. i < n \<Longrightarrow> unat (f i) < 8 * length arr) \<Longrightarrow>
   length (fold (\<lambda>i a. snd (ext2fs_set_bit (f i) a)) [0..<n] arr) = length arr \<and>
   (bit_at (fold (\<lambda>i a. snd (ext2fs_set_bit (f i) a)) [0..<n] arr) k
      \<longleftrightarrow> bit_at arr k \<or> (\<exists>i<n. k = unat (f i)))"
  by (induction n) (auto simp: bit_at_set_bit less_Suc_eq)

lemma g32_fold_clear:
  "(\<And>i. i < n \<Longrightarrow> unat (f i) < 8 * length arr) \<Longrightarrow>
   length (fold (\<lambda>i a. snd (ext2fs_clear_bit (f i) a)) [0..<n] arr) = length arr \<and>
   (bit_at (fold (\<lambda>i a. snd (ext2fs_clear_bit (f i) a)) [0..<n] arr) k
      \<longleftrightarrow> bit_at arr k \<and> \<not> (\<exists>i<n. k = unat (f i)))"
  by (induction n) (auto simp: bit_at_clear_bit less_Suc_eq)

lemma g32_span_step:
  assumes "unat x + n \<le> 2 ^ 32" "i < n"
  shows "unat (x + of_nat i :: u32) = unat x + i"
  using assms by (simp add: unat_word_ariths unsigned_of_nat take_bit_nat_eq_self)

lemma g32_span_steps:
  assumes "s \<le> x" "s \<le> y" and lim: "unat x + n \<le> 2 ^ 32"
  shows "(\<exists>i<n. unat (y - s) = unat (x + of_nat i - s :: u32)) \<longleftrightarrow> y \<in> g32_span x n"
proof -
  have "unat (y - s) = unat (x + of_nat i - s) \<longleftrightarrow> unat y = unat x + i" if i: "i < n" for i
  proof -
    note x = g32_span_step[OF lim i]
    have "s \<le> x + of_nat i" using x assms(1) by (simp add: word_le_nat_alt)
    then show ?thesis using g32_offset_eq[OF assms(2)] x by (metis word_unat_eq_iff)
  qed
  then have "(\<exists>i<n. unat (y - s) = unat (x + of_nat i - s)) \<longleftrightarrow> (\<exists>i<n. unat y = unat x + i)"
    by blast
  also have "\<dots> \<longleftrightarrow> y \<in> g32_span x n"
    unfolding g32_span_def by (auto intro!: exI[of _ "unat y - unat x"])
  finally show ?thesis .
qed

text \<open>
  A range argument that stays inside the bitmap: \<open>num\<close> is positive as a signed number, and the range ends at or
  below \<open>e\<close>.
\<close>

definition g32_range_in :: "gbitmap32 \<Rightarrow> u32 \<Rightarrow> u32 \<Rightarrow> u32 \<Rightarrow> bool" where
  "g32_range_in b block num e \<longleftrightarrow>
     g32_start b \<le> block \<and> 0 < sint num \<and> unat block + unat num \<le> unat e + 1"

lemma g32_range_facts:
  assumes "g32_range_in b block num e"
  shows "\<not> block < g32_start b" "\<not> block + num - 1 > e" "nat (sint num) = unat num"
    "unat block + unat num \<le> 2 ^ 32"
proof -
  have pos: "0 < sint num" and le: "unat block + unat num \<le> unat e + 1"
    using assms by (simp_all add: g32_range_in_def)
  show "\<not> block < g32_start b" using assms by (auto simp: g32_range_in_def)
  show sg: "nat (sint num) = unat num"
    using pos by (simp add: sint_nonneg_eq_uint)
  have "unat e < 2 ^ 32" using unsigned_less[of e] by simp
  then show lim: "unat block + unat num \<le> 2 ^ 32" using le by simp
  have n0: "0 < unat num" using sg pos by simp
  have "block + num - 1 = block + of_nat (unat num - 1)"
    using n0 by (simp add: of_nat_diff)
  then have "unat (block + num - 1) = unat block + (unat num - 1)"
    using g32_span_step[OF lim, of "unat num - 1"] n0 by (simp only: diff_less zero_less_one)
  then show "\<not> block + num - 1 > e" using le n0 by (simp add: word_less_nat_alt)
qed

lemma g32_mark_range_ok:
  assumes "g32_wf b" "g32_range_in b block num (g32_end b)"
  shows "g32_wf (ext2fs_mark_block_bitmap_range b block num) \<and>
         g32_bits (ext2fs_mark_block_bitmap_range b block num) = g32_bits b \<union> g32_span block (unat num)"
proof -
  note rf = g32_range_facts[OF assms(2)]
  have sb: "g32_start b \<le> block" "unat block + unat num \<le> unat (g32_end b) + 1"
    "g32_end b \<le> g32_real_end b"
    using assms by (simp_all add: g32_range_in_def g32_wf_def)
  have in_rng: "y \<in> g32_span block (unat num) \<Longrightarrow> g32_start b \<le> y \<and> y \<le> g32_real_end b" for y
    using sb by (simp add: g32_span_def word_le_nat_alt)
  have "unat (block + of_nat i - g32_start b) < 8 * length (g32_bitmap b)" if "i < unat num" for i
    using g32_in_array[OF assms(1)] in_rng[of "block + of_nat i"] g32_span_step[OF rf(4) that] that
    by (simp add: g32_span_def)
  note fs = g32_fold_set[of "unat num" "\<lambda>i. block + of_nat i - g32_start b", OF this]
  show ?thesis
    using rf(1-3) fs g32_span_steps[OF sb(1) _ rf(4)] in_rng assms(1)
    by (auto simp: ext2fs_mark_block_bitmap_range_def g32_bits_def g32_wf_def)
qed

lemma g32_unmark_range_ok:
  assumes "g32_wf b" "g32_range_in b block num (g32_end b)"
  shows "g32_wf (ext2fs_unmark_block_bitmap_range b block num) \<and>
         g32_bits (ext2fs_unmark_block_bitmap_range b block num) = g32_bits b - g32_span block (unat num)"
proof -
  note rf = g32_range_facts[OF assms(2)]
  have sb: "g32_start b \<le> block" "unat block + unat num \<le> unat (g32_end b) + 1"
    "g32_end b \<le> g32_real_end b"
    using assms by (simp_all add: g32_range_in_def g32_wf_def)
  have in_rng: "y \<in> g32_span block (unat num) \<Longrightarrow> g32_start b \<le> y \<and> y \<le> g32_real_end b" for y
    using sb by (simp add: g32_span_def word_le_nat_alt)
  have "unat (block + of_nat i - g32_start b) < 8 * length (g32_bitmap b)" if "i < unat num" for i
    using g32_in_array[OF assms(1)] in_rng[of "block + of_nat i"] g32_span_step[OF rf(4) that] that
    by (simp add: g32_span_def)
  note fs = g32_fold_clear[of "unat num" "\<lambda>i. block + of_nat i - g32_start b", OF this]
  show ?thesis
    using rf(1-3) fs g32_span_steps[OF sb(1) _ rf(4)] in_rng assms(1)
    by (simp add: ext2fs_unmark_block_bitmap_range_def g32_bits_def g32_wf_def set_eq_iff) metis
qed

lemma g32_test_range_ok:
  assumes wf: "g32_wf b" and st: "g32_start b \<le> block"
    and le: "unat block + unat num \<le> unat (g32_real_end b) + 1"
  shows "ext2fs_test_clear_generic_bitmap_range b block num \<longleftrightarrow>
         g32_bits b \<inter> g32_span block (unat num) = {}"
proof -
  let ?s = "g32_start b" and ?arr = "g32_bitmap b"
  have off: "unat (ucast (block - ?s) :: u64) = unat block - unat ?s" "unat ?s \<le> unat block"
    using st by (simp_all add: unat_minus_le word_le_nat_alt)
  have lim: "unat block + unat num \<le> 2 ^ 32"
    using le unat_less32[of "g32_real_end b"] by simp
  have re: "unat (g32_real_end b - ?s) = unat (g32_real_end b) - unat ?s"
    using wf by (intro unat_minus_le) (auto simp: g32_wf_def)
  have "unat (g32_real_end b - ?s) div 8 + 1 \<le> length ?arr"
    using wf by (simp add: g32_wf_def g32_size_eq)
  then have fits: "unat (ucast (block - ?s) :: u64) + unat num \<le> 8 * length ?arr"
    using le off unfolding re by linarith
  have "unat (ucast (block - ?s) :: u64) + unat num < 2 ^ 64" using lim off by simp
  note tc = test_clear_range_iff[OF fits this]
  have "(\<forall>k<unat num. \<not> bit_at ?arr (unat block - unat ?s + k)) \<longleftrightarrow>
        (\<forall>y. y \<in> g32_span block (unat num) \<longrightarrow> \<not> bit_at ?arr (unat (y - ?s)))"
  proof (rule iffI; intro allI impI)
    fix y assume L: "\<forall>k<unat num. \<not> bit_at ?arr (unat block - unat ?s + k)"
      and y: "y \<in> g32_span block (unat num)"
    then have yb: "unat block \<le> unat y" "unat y < unat block + unat num"
      by (simp_all add: g32_span_def)
    then have "unat (y - ?s) = unat block - unat ?s + (unat y - unat block)" "unat y - unat block < unat num"
      using off(2) unat_minus_nat[of ?s y] by linarith+
    then show "\<not> bit_at ?arr (unat (y - ?s))" using L by simp
  next
    fix k assume R: "\<forall>y. y \<in> g32_span block (unat num) \<longrightarrow> \<not> bit_at ?arr (unat (y - ?s))"
      and k: "k < unat num"
    note x = g32_span_step[OF lim k]
    then have "block + of_nat k \<in> g32_span block (unat num)"
      "unat (block + of_nat k - ?s) = unat block - unat ?s + k"
      using k off(2) by (simp_all add: g32_span_def unat_minus_nat)
    then show "\<not> bit_at ?arr (unat block - unat ?s + k)" using R by metis
  qed
  moreover have "y \<in> g32_span block (unat num) \<Longrightarrow> ?s \<le> y \<and> y \<le> g32_real_end b" for y
    using st le by (simp add: g32_span_def word_le_nat_alt)
  ultimately show ?thesis
    using tc off(1) by (auto simp: ext2fs_test_clear_generic_bitmap_range_def g32_bits_def)
qed

section \<open>Properties\<close>

lemma g32_find_match:
  assumes "g32_wf b" "g32_start b \<le> s" "s \<le> e" "e \<le> g32_end b" "e \<noteq> -1"
    and P: "\<And>i. P i \<longleftrightarrow> (ext2fs_test_bit (i - g32_start b) (g32_bitmap b) \<noteq> 0) = v"
  obtains r where "scan_up P s e = Some r"
    and "case r of
           Some x \<Rightarrow> s \<le> x \<and> x \<le> e \<and> (x \<in> g32_bits b) = v \<and>
             (\<forall>y. s \<le> y \<and> y < x \<longrightarrow> (y \<in> g32_bits b) \<noteq> v)
         | None \<Rightarrow> \<forall>y. s \<le> y \<and> y \<le> e \<longrightarrow> (y \<in> g32_bits b) \<noteq> v"
proof -
  have "unat (e + 1) = unat e + 1"
    using assms(5) by (intro unat_succ) (metis eq_neg_iff_add_eq_0)
  then have se: "s \<le> e + 1" using assms(3) by (simp add: word_le_nat_alt)
  obtain r where r: "scan_up P s e = Some r"
    "case r of Some x \<Rightarrow> s \<le> x \<and> x \<le> e \<and> P x \<and> (\<forall>y. s \<le> y \<and> y < x \<longrightarrow> \<not> P y)
             | None \<Rightarrow> \<forall>y. s \<le> y \<and> y \<le> e \<longrightarrow> \<not> P y"
    using scan_up_exact[OF assms(5) se, of P] by blast
  have "P x \<longleftrightarrow> (x \<in> g32_bits b) = v" if "s \<le> x" "x \<le> e" for x
  proof -
    have "g32_start b \<le> x" "x \<le> g32_real_end b"
      using that assms(1-4) by (auto simp: g32_wf_def)
    then show ?thesis using P[of x] test_bit_iff by (simp add: g32_bits_def)
  qed
  with r(2) have "case r of
           Some x \<Rightarrow> s \<le> x \<and> x \<le> e \<and> (x \<in> g32_bits b) = v \<and>
             (\<forall>y. s \<le> y \<and> y < x \<longrightarrow> (y \<in> g32_bits b) \<noteq> v)
         | None \<Rightarrow> \<forall>y. s \<le> y \<and> y \<le> e \<longrightarrow> (y \<in> g32_bits b) \<noteq> v"
    by (auto split: option.splits)
  with r(1) show ?thesis by (rule that)
qed

text \<open>Two well-formed 32-bit bitmaps of the same type whose last bit is below the largest
  32-bit number: \<^verbatim>\<open>ext2fs_compare_generic_bitmap\<close> returns, and it returns 0 exactly when they have the same
  first and last bit and agree on every bit between them, and the caller's code otherwise.
  The whole bytes compared with \<^verbatim>\<open>memcmp\<close> and the bits compared one by one meet without a gap.\<close>

theorem gen32_compare_exact:
  assumes wf: "g32_wf b1" "g32_wf b2" and magic: "g32_magic b1 = Some m" "g32_magic b2 = Some m"
    and fin: "g32_end b1 \<noteq> -1"
  shows "ext2fs_compare_generic_bitmap m neq b1 b2 =
    Some (if g32_start b1 = g32_start b2 \<and> g32_end b1 = g32_end b2 \<and>
             g32_bits b1 \<inter> {g32_start b1..g32_end b1} = g32_bits b2 \<inter> {g32_start b1..g32_end b1}
          then None else Some neq)"
proof (cases "g32_start b1 = g32_start b2 \<and> g32_end b1 = g32_end b2")
  case True
  let ?s = "g32_start b1" and ?e = "g32_end b1"
  let ?n = "unat ((?e - ?s) div 8)" and ?i = "?e - (?e - ?s) mod 8"
  let ?same = "\<lambda>x. (x \<in> g32_bits b1) = (x \<in> g32_bits b2)"
  have se: "?s \<le> ?e" "?e \<le> g32_real_end b1" "?e \<le> g32_real_end b2"
    using wf True by (simp_all add: g32_wf_def)
  note i = compare_start[OF se(1)]
  have ile: "?s \<le> ?i" "?i \<le> ?e" "?i \<le> ?e + 1"
    using i unat_minus_le[OF se(1)] se(1) fin unat_succ[of ?e]
    by (auto simp: word_le_nat_alt eq_neg_iff_add_eq_0)
  have in_bits: "?same x \<longleftrightarrow> bit_at (g32_bitmap b1) (unat (x - ?s)) = bit_at (g32_bitmap b2) (unat (x - ?s))"
    if "?s \<le> x" "x \<le> ?e" for x
    using that se True by (auto simp: g32_bits_def)
  have len: "?n \<le> length (g32_bitmap b1)" "?n \<le> length (g32_bitmap b2)"
    using g32_in_array[OF wf(1), of ?e] g32_in_array[OF wf(2), of ?e] se True i(2) by auto
  have head: "take ?n (g32_bitmap b1) = take ?n (g32_bitmap b2) \<longleftrightarrow> (\<forall>x. ?s \<le> x \<and> x < ?i \<longrightarrow> ?same x)"
    using compare_bytes[OF ile(1) i(1) len] in_bits ile(2) by (meson le_less_trans less_imp_le less_le_trans)
  obtain r where r: "scan_up (\<lambda>i. g32_test_generic_bitmap b1 i \<noteq> g32_test_generic_bitmap b2 i) ?i ?e = Some r"
    and rr: "case r of Some x \<Rightarrow> ?i \<le> x \<and> x \<le> ?e \<and> g32_test_generic_bitmap b1 x \<noteq> g32_test_generic_bitmap b2 x
               \<and> (\<forall>y. ?i \<le> y \<and> y < x \<longrightarrow> \<not> g32_test_generic_bitmap b1 y \<noteq> g32_test_generic_bitmap b2 y)
             | None \<Rightarrow> \<forall>y. ?i \<le> y \<and> y \<le> ?e \<longrightarrow> \<not> g32_test_generic_bitmap b1 y \<noteq> g32_test_generic_bitmap b2 y"
    using scan_up_exact[OF fin ile(3)] by blast
  have tail: "r = None \<longleftrightarrow> (\<forall>x. ?i \<le> x \<and> x \<le> ?e \<longrightarrow> ?same x)"
    using rr g32_same_test[OF wf] True ile(1) by (cases r) (auto intro: order_trans)
  have "g32_bits b1 \<inter> {?s..?e} = g32_bits b2 \<inter> {?s..?e} \<longleftrightarrow>
          (\<forall>x. ?s \<le> x \<and> x < ?i \<longrightarrow> ?same x) \<and> (\<forall>x. ?i \<le> x \<and> x \<le> ?e \<longrightarrow> ?same x)"
    by (rule inter_split[OF ile(1,2)])
  then show ?thesis
    using True magic r head tail
    by (cases r) (auto simp: ext2fs_compare_generic_bitmap_def Let_def)
next
  case False
  then show ?thesis using magic by (auto simp: ext2fs_compare_generic_bitmap_def Let_def)
qed

definition g32_demo :: "u8 list \<Rightarrow> gbitmap32" where
  "g32_demo arr = \<lparr>g32_magic = Some EXT2_ET_MAGIC_BLOCK_BITMAP, g32_start = 1, g32_end = 20,
     g32_real_end = 24, g32_description = None, g32_bitmap = arr,
     g32_base_error_code = EXT2_ET_BAD_BLOCK_MARK\<rparr>"

theorem gen32_compare_exact_witness:
  "ext2fs_compare_generic_bitmap EXT2_ET_MAGIC_BLOCK_BITMAP EXT2_ET_NEQ_BLOCK_BITMAP
     (g32_demo [5, 0, 0xf1]) (g32_demo [5, 0, 0x01]) = Some None \<and>
   g32_bits (g32_demo [5, 0, 0xf1]) \<inter> {1..20} = g32_bits (g32_demo [5, 0, 0x01]) \<inter> {1..20}"
proof -
  let ?a = "g32_demo [5, 0, 0xf1]" and ?b = "g32_demo [5, 0, 0x01]"
  have 1: "g32_wf ?a" "g32_wf ?b" "g32_end ?a \<noteq> -1" by code_simp+
  have 2: "ext2fs_compare_generic_bitmap EXT2_ET_MAGIC_BLOCK_BITMAP EXT2_ET_NEQ_BLOCK_BITMAP ?a ?b
      = Some None" by code_simp
  have 3: "g32_magic ?a = Some EXT2_ET_MAGIC_BLOCK_BITMAP" "g32_magic ?b = Some EXT2_ET_MAGIC_BLOCK_BITMAP"
    "g32_start ?a = 1" "g32_end ?a = 20" by (simp_all add: g32_demo_def)
  show ?thesis
    using gen32_compare_exact[OF 1(1,2) 3(1,2) 1(3), of EXT2_ET_NEQ_BLOCK_BITMAP] 2 3(3,4)
    by (auto split: if_splits)
qed

text \<open>The two searches of a well-formed 32-bit bitmap, asked for a range inside it that does
  not reach the largest 32-bit number, always return, and return the first clear (or set) bit of the
  range, or \<^verbatim>\<open>ENOENT\<close> when there is none.\<close>

theorem gen32_find_first_exact:
  assumes "g32_wf b" "g32_start b \<le> s" "s \<le> e" "e \<le> g32_end b" "e \<noteq> -1"
  shows "(case ext2fs_find_first_zero_generic_bitmap b s e of
           Some (Inr x) \<Rightarrow> s \<le> x \<and> x \<le> e \<and> x \<notin> g32_bits b \<and> (\<forall>y. s \<le> y \<and> y < x \<longrightarrow> y \<in> g32_bits b)
         | Some (Inl err) \<Rightarrow> err = ENOENT \<and> (\<forall>y. s \<le> y \<and> y \<le> e \<longrightarrow> y \<in> g32_bits b)
         | None \<Rightarrow> False) \<and>
         (case ext2fs_find_first_set_generic_bitmap b s e of
           Some (Inr x) \<Rightarrow> s \<le> x \<and> x \<le> e \<and> x \<in> g32_bits b \<and> (\<forall>y. s \<le> y \<and> y < x \<longrightarrow> y \<notin> g32_bits b)
         | Some (Inl err) \<Rightarrow> err = ENOENT \<and> (\<forall>y. s \<le> y \<and> y \<le> e \<longrightarrow> y \<notin> g32_bits b)
         | None \<Rightarrow> False)"
proof (rule conjI)
  have guard: "\<not> (s < g32_start b \<or> e > g32_end b \<or> s > e)"
    using assms(2-4) by (auto simp: not_less)
  show "case ext2fs_find_first_zero_generic_bitmap b s e of
           Some (Inr x) \<Rightarrow> s \<le> x \<and> x \<le> e \<and> x \<notin> g32_bits b \<and> (\<forall>y. s \<le> y \<and> y < x \<longrightarrow> y \<in> g32_bits b)
         | Some (Inl err) \<Rightarrow> err = ENOENT \<and> (\<forall>y. s \<le> y \<and> y \<le> e \<longrightarrow> y \<in> g32_bits b)
         | None \<Rightarrow> False"
    by (rule g32_find_match[OF assms, of "\<lambda>i. ext2fs_test_bit (i - g32_start b) (g32_bitmap b) = 0" False])
       (auto simp: ext2fs_find_first_zero_generic_bitmap_def guard split: option.splits)
  show "case ext2fs_find_first_set_generic_bitmap b s e of
           Some (Inr x) \<Rightarrow> s \<le> x \<and> x \<le> e \<and> x \<in> g32_bits b \<and> (\<forall>y. s \<le> y \<and> y < x \<longrightarrow> y \<notin> g32_bits b)
         | Some (Inl err) \<Rightarrow> err = ENOENT \<and> (\<forall>y. s \<le> y \<and> y \<le> e \<longrightarrow> y \<notin> g32_bits b)
         | None \<Rightarrow> False"
    by (rule g32_find_match[OF assms, of "\<lambda>i. ext2fs_test_bit (i - g32_start b) (g32_bitmap b) \<noteq> 0" True])
       (auto simp: ext2fs_find_first_set_generic_bitmap_def guard split: option.splits)
qed

theorem gen32_find_first_exact_witness:
  "ext2fs_find_first_zero_generic_bitmap (g32_demo [5, 0, 0xf1]) 1 20 = Some (Inr 2) \<and>
   2 \<notin> g32_bits (g32_demo [5, 0, 0xf1])"
proof -
  let ?a = "g32_demo [5, 0, 0xf1]"
  have 1: "g32_wf ?a" "g32_start ?a \<le> 1" "(1 :: u32) \<le> 20" "20 \<le> g32_end ?a" "(20 :: u32) \<noteq> -1"
    by code_simp+
  have 2: "ext2fs_find_first_zero_generic_bitmap ?a 1 20 = Some (Inr 2)" by code_simp
  show ?thesis using gen32_find_first_exact[OF 1] unfolding 2 by simp
qed

text \<open>A range of blocks inside a well-formed 32-bit block bitmap: marking it adds exactly its blocks
  to the marked ones, unmarking it removes exactly these, and
  \<^verbatim>\<open>ext2fs_test_block_bitmap_range\<close> answers whether none of them is marked.\<close>

theorem gen32_block_ranges:
  assumes "g32_wf b" "g32_magic b = Some EXT2_ET_MAGIC_BLOCK_BITMAP"
    and "g32_range_in b block num (g32_end b)"
  shows "g32_bits (ext2fs_mark_block_bitmap_range b block num) = g32_bits b \<union> g32_span block (unat num) \<and>
         g32_bits (ext2fs_unmark_block_bitmap_range b block num) = g32_bits b - g32_span block (unat num) \<and>
         ext2fs_test_block_bitmap_range b block num
           = Inr (g32_bits b \<inter> g32_span block (unat num) = {})"
proof -
  have le: "unat block + unat num \<le> unat (g32_real_end b) + 1" "g32_start b \<le> block"
    using assms(1,3) by (simp_all add: g32_range_in_def g32_wf_def word_le_nat_alt)
  have "g32_range_in b block num (g32_real_end b)"
    using assms(3) le by (simp add: g32_range_in_def)
  note rf = g32_range_facts[OF this]
  have "ext2fs_test_block_bitmap_range b block num
           = Inr (g32_bits b \<inter> g32_span block (unat num) = {})"
    using assms(2) rf(1,2) g32_test_range_ok[OF assms(1) le(2,1)]
    by (simp add: ext2fs_test_block_bitmap_range_def)
  then show ?thesis
    using g32_mark_range_ok[OF assms(1,3)] g32_unmark_range_ok[OF assms(1,3)] by blast
qed

theorem gen32_block_ranges_witness:
  "ext2fs_test_block_bitmap_range (g32_demo [0, 0, 0]) 6 9 = Inr True \<and>
   ext2fs_test_block_bitmap_range (ext2fs_mark_block_bitmap_range (g32_demo [0, 0, 0]) 6 9) 14 1 = Inr False \<and>
   g32_bits (ext2fs_mark_block_bitmap_range (g32_demo [0, 0, 0]) 6 9)
     = g32_bits (g32_demo [0, 0, 0]) \<union> g32_span 6 (unat (9 :: u32))"
proof -
  let ?a = "g32_demo [0, 0, 0]"
  have 1: "g32_wf ?a" "g32_magic ?a = Some EXT2_ET_MAGIC_BLOCK_BITMAP"
    "g32_range_in ?a 6 9 (g32_end ?a)" by code_simp+
  have 2: "ext2fs_test_block_bitmap_range ?a 6 9 = Inr True"
    "ext2fs_test_block_bitmap_range (ext2fs_mark_block_bitmap_range ?a 6 9) 14 1 = Inr False"
    by code_simp+
  show ?thesis using gen32_block_ranges[OF 1] 2 by blast
qed

text \<open>
  A bitmap of all \<open>2 ^ 32\<close> bits with every bit set: the search for a clear bit wraps around and does
  not return.
\<close>

theorem gen32_find_first_zero_diverges:
  assumes "g32_start b = 0" "g32_end b = -1" "\<And>i. ext2fs_test_bit i (g32_bitmap b) \<noteq> 0"
  shows "ext2fs_find_first_zero_generic_bitmap b s (-1) = None"
proof -
  have "scan_up (\<lambda>i. ext2fs_test_bit (i - g32_start b) (g32_bitmap b) = 0) s (-1) = None"
    by (rule scan_up_diverges) (simp add: assms)
  moreover have "\<not> s < 0" "\<not> s > -1" by (simp_all add: not_less)
  ultimately show ?thesis
    using assms(1,2) by (simp add: ext2fs_find_first_zero_generic_bitmap_def)
qed

text \<open>
  After a resize the array has exactly \<open>g32_size\<close> bytes, while a copy reads the rounded-up
  \<open>g32_alloc_size\<close>: the bytes beyond the array decide the last bytes of the copy.
\<close>

theorem gen32_copy_reads_beyond_resized:
  "\<exists>b b' m1 m2 c1 c2. g32_wf b \<and>
     ext2fs_resize_generic_bitmap (Some (\<lambda>_. 0)) EXT2_ET_MAGIC_BLOCK_BITMAP 40 40 b = (None, b') \<and>
     length (g32_bitmap b') < g32_alloc_size (g32_start b') (g32_real_end b') \<and>
     ext2fs_copy_generic_bitmap m1 b' = Inr c1 \<and> ext2fs_copy_generic_bitmap m2 b' = Inr c2 \<and>
     g32_bitmap c1 \<noteq> g32_bitmap c2"
proof -
  let ?b = "g32_demo [0, 0, 0]"
  let ?b' = "snd (ext2fs_resize_generic_bitmap (Some (\<lambda>_. 0)) EXT2_ET_MAGIC_BLOCK_BITMAP 40 40 ?b)"
  let ?m = "\<lambda>x. \<lparr>m_struct = True, m_descr = True, m_array = True, m_beyond = (\<lambda>_. x)\<rparr>"
  let ?c = "\<lambda>x. case ext2fs_copy_generic_bitmap (?m x) ?b' of Inr c \<Rightarrow> c"
  have "g32_wf ?b" by code_simp
  moreover have "ext2fs_resize_generic_bitmap (Some (\<lambda>_. 0)) EXT2_ET_MAGIC_BLOCK_BITMAP 40 40 ?b = (None, ?b')"
    by code_simp
  moreover have "length (g32_bitmap ?b') < g32_alloc_size (g32_start ?b') (g32_real_end ?b')"
    by code_simp
  moreover have "ext2fs_copy_generic_bitmap (?m 0) ?b' = Inr (?c 0)"
    "ext2fs_copy_generic_bitmap (?m 1) ?b' = Inr (?c 1)" "g32_bitmap (?c 0) \<noteq> g32_bitmap (?c 1)"
    by code_simp+
  ultimately show ?thesis by blast
qed

end
