(* ===== verification/Bitarray.thy ===== *)
theory Bitarray
  imports Bmap64
begin

text \<open>
  \<^verbatim>\<open>lib/ext2fs/blkmap64_ba.c\<close>: the backend that keeps a bitmap as a flat array of bytes, and
  the proof that it fulfils the contract \<open>bmap_backend_zero\<close>. The private data is the
  array and the address it was allocated at, which the word-wise search needs for its
  alignment loop.
\<close>

section \<open>Model\<close>

record ba_private =
  ba_addr :: u64
  bitarray :: "u8 list"

text \<open>
  A memory outcome of the backend: whether the private structure is allocated, and the address
  and contents of the array, or \<open>None\<close> if that request fails.
\<close>

record ba_mem =
  mem_struct :: bool
  mem_array :: "(u64 \<times> (nat \<Rightarrow> u8)) option"

definition ba_size :: "u64 \<Rightarrow> u64 \<Rightarrow> nat" where
  "ba_size start real_end = unat ((real_end - start) div 8 + 1)"

definition ba_alloc_private_data :: "ba_mem \<Rightarrow> bmap_hdr \<Rightarrow> errcode + ba_private" where
  "ba_alloc_private_data m bitmap =
     (if \<not> mem_struct m then Inl EXT2_ET_NO_MEMORY
      else case mem_array m of
             None \<Rightarrow> Inl EXT2_ET_NO_MEMORY
           | Some (a, g) \<Rightarrow>
               Inr \<lparr>ba_addr = a,
                    bitarray = fresh_cells g (ba_size (gb_start bitmap) (gb_real_end bitmap))\<rparr>)"

definition ba_new_bmap :: "ba_mem \<Rightarrow> bmap_hdr \<Rightarrow> errcode + ba_private" where
  "ba_new_bmap m bitmap =
     (case ba_alloc_private_data m bitmap of
        Inl e \<Rightarrow> Inl e
      | Inr bp \<Rightarrow>
          let sz = ba_size (gb_start bitmap) (gb_real_end bitmap)
          in Inr (bp\<lparr>bitarray := replicate sz 0 @ drop sz (bitarray bp)\<rparr>))"

definition ba_copy_bmap :: "ba_mem \<Rightarrow> ba_private gbitmap \<Rightarrow> bmap_hdr \<Rightarrow> errcode + ba_private" where
  "ba_copy_bmap m src dest =
     (case ba_alloc_private_data m dest of
        Inl e \<Rightarrow> Inl e
      | Inr bp \<Rightarrow>
          let sz = ba_size (gb_start src) (gb_real_end src)
          in Inr (bp\<lparr>bitarray := take sz (bitarray (gb_private src)) @ drop sz (bitarray bp)\<rparr>))"

text \<open>\<^verbatim>\<open>for (; bitno > bmap->end; bitno--) ext2fs_clear_bit64(bitno - bmap->start, ...)\<close>\<close>

function ba_clear_down :: "u64 \<Rightarrow> u64 \<Rightarrow> u64 \<Rightarrow> u8 list \<Rightarrow> u8 list" where
  "ba_clear_down start lim bitno arr =
     (if lim < bitno
      then ba_clear_down start lim (bitno - 1) (snd (ext2fs_clear_bit64 (bitno - start) arr))
      else arr)"
  by pat_completeness auto
termination
  by (relation "measure (\<lambda>(start, lim, bitno, arr). unat bitno)")
     (auto simp: unat_pred_less)

declare ba_clear_down.simps [simp del]

definition ba_resize_bmap ::
  "ba_mem \<Rightarrow> ba_private gbitmap \<Rightarrow> u64 \<Rightarrow> u64 \<Rightarrow> errcode option \<times> ba_private gbitmap" where
  "ba_resize_bmap m bmap new_end new_real_end =
     (let bp = gb_private bmap;
          bitno = (if gb_real_end bmap > new_end then new_end else gb_real_end bmap);
          arr = (if new_end > gb_end bmap
                 then ba_clear_down (gb_start bmap) (gb_end bmap) bitno (bitarray bp)
                 else bitarray bp);
          bmap1 = bmap\<lparr>gb_private := bp\<lparr>bitarray := arr\<rparr>\<rparr>;
          sz = ba_size (gb_start bmap) (gb_real_end bmap);
          new_sz = ba_size (gb_start bmap) new_real_end
      in if new_real_end = gb_real_end bmap then (None, bmap1\<lparr>gb_end := new_end\<rparr>)
         else
           let r = (if sz \<noteq> new_sz
                    then map_option (\<lambda>(a, g). (a, take new_sz arr @ fresh_cells g (new_sz - sz)))
                           (mem_array m)
                    else Some (ba_addr bp, arr))
           in case r of
                None \<Rightarrow> (Some EXT2_ET_NO_MEMORY, bmap1)
              | Some (a, arr2) \<Rightarrow>
                  let arr3 = (if new_sz > sz
                              then take sz arr2 @ replicate (new_sz - sz) 0 @ drop new_sz arr2
                              else arr2)
                  in (None, bmap1\<lparr>gb_private := \<lparr>ba_addr = a, bitarray = arr3\<rparr>,
                                 gb_end := new_end, gb_real_end := new_real_end\<rparr>))"

abbreviation with_array :: "ba_private gbitmap \<Rightarrow> u8 list \<Rightarrow> ba_private gbitmap" where
  "with_array b arr \<equiv> b\<lparr>gb_private := (gb_private b)\<lparr>bitarray := arr\<rparr>\<rparr>"

definition ba_mark_bmap :: "ba_private gbitmap \<Rightarrow> u64 \<Rightarrow> int \<times> ba_private gbitmap" where
  "ba_mark_bmap bitmap arg =
     (let (r, arr) = ext2fs_set_bit64 (arg - gb_start bitmap) (bitarray (gb_private bitmap))
      in (r, with_array bitmap arr))"

definition ba_unmark_bmap :: "ba_private gbitmap \<Rightarrow> u64 \<Rightarrow> int \<times> ba_private gbitmap" where
  "ba_unmark_bmap bitmap arg =
     (let (r, arr) = ext2fs_clear_bit64 (arg - gb_start bitmap) (bitarray (gb_private bitmap))
      in (r, with_array bitmap arr))"

definition ba_test_bmap :: "ba_private gbitmap \<Rightarrow> u64 \<Rightarrow> int \<times> ba_private gbitmap" where
  "ba_test_bmap bitmap arg =
     (ext2fs_test_bit64 (arg - gb_start bitmap) (bitarray (gb_private bitmap)), bitmap)"

definition ba_mark_bmap_extent :: "ba_private gbitmap \<Rightarrow> u64 \<Rightarrow> u32 \<Rightarrow> ba_private gbitmap" where
  "ba_mark_bmap_extent bitmap arg num =
     with_array bitmap
       (fold (\<lambda>i arr. snd (ext2fs_set_bit64 (arg + of_nat i - gb_start bitmap) arr))
             [0..<unat num] (bitarray (gb_private bitmap)))"

definition ba_unmark_bmap_extent :: "ba_private gbitmap \<Rightarrow> u64 \<Rightarrow> u32 \<Rightarrow> ba_private gbitmap" where
  "ba_unmark_bmap_extent bitmap arg num =
     with_array bitmap
       (fold (\<lambda>i arr. snd (ext2fs_clear_bit64 (arg + of_nat i - gb_start bitmap) arr))
             [0..<unat num] (bitarray (gb_private bitmap)))"

definition ba_test_clear_bmap_extent :: "ba_private gbitmap \<Rightarrow> u64 \<Rightarrow> u32 \<Rightarrow> bool" where
  "ba_test_clear_bmap_extent bitmap start len =
     test_clear_range (bitarray (gb_private bitmap)) (start - gb_start bitmap) len"

text \<open>
  The two range operations take \<^verbatim>\<open>start >> 3\<close> as the
  byte offset without subtracting the first bit of the bitmap, as the code does.
\<close>

definition ba_set_bmap_range :: "ba_private gbitmap \<Rightarrow> u64 \<Rightarrow> u64 \<Rightarrow> u8 list \<Rightarrow> ba_private gbitmap" where
  "ba_set_bmap_range bitmap start num inbuf =
     with_array bitmap
       (memcpy_at (bitarray (gb_private bitmap)) (unat (drop_bit 3 start)) inbuf
          (unat (drop_bit 3 (num + 7))))"

definition ba_get_bmap_range :: "ba_private gbitmap \<Rightarrow> u64 \<Rightarrow> u64 \<Rightarrow> u8 list \<Rightarrow> u8 list" where
  "ba_get_bmap_range bitmap start num outbuf =
     memcpy_at outbuf 0 (drop (unat (drop_bit 3 start)) (bitarray (gb_private bitmap)))
       (unat (drop_bit 3 (num + 7)))"

definition ba_clear_bmap :: "ba_private gbitmap \<Rightarrow> ba_private gbitmap" where
  "ba_clear_bmap bitmap =
     (let sz = ba_size (gb_start bitmap) (gb_real_end bitmap)
      in with_array bitmap (replicate sz 0 @ drop sz (bitarray (gb_private bitmap))))"

subsection \<open>The searches\<close>

text \<open>
  \<^verbatim>\<open>ba_find_first_zero\<close> and \<^verbatim>\<open>ba_find_first_set\<close> are the same five loops for the two bit values; \<open>b\<close> is the
  value looked for, and a byte or word to skip is all ones or all zeros. The pointer \<^verbatim>\<open>pos\<close>
  is kept as an index into the array; its address is \<open>ba_addr + pos\<close>.
\<close>

definition ba_skip_byte :: "bool \<Rightarrow> u8" where
  "ba_skip_byte b = (if b then 0 else 0xff)"

definition ba_skip_word :: "bool \<Rightarrow> u64" where
  "ba_skip_word b = (if b then 0 else -1)"

text \<open>\<^verbatim>\<open>*((const __u64 *)pos)\<close>, on a little-endian machine; the two constants it is compared with read the
  same in either byte order.\<close>

definition load64 :: "u8 list \<Rightarrow> u64 \<Rightarrow> u64" where
  "load64 arr pos = word_of_int (horner_sum uint 256 (take 8 (drop (unat pos) arr)))"

text \<open>Scan bits until a byte boundary: \<open>Inl\<close> the bit found, \<open>Inr\<close> the position and count reached.\<close>

function ba_scan_head :: "bool \<Rightarrow> u8 list \<Rightarrow> u64 \<Rightarrow> u64 \<Rightarrow> u64 + u64 \<times> u64" where
  "ba_scan_head b arr bitpos count =
     (if bitpos AND 7 \<noteq> 0 \<and> count > 0
      then if (ext2fs_test_bit64 bitpos arr \<noteq> 0) = b then Inl bitpos
           else ba_scan_head b arr (bitpos + 1) (count - 1)
      else Inr (bitpos, count))"
  by pat_completeness auto
termination
  by (relation "measure (\<lambda>(b, arr, bitpos, count). unat count)") (auto simp: unat_pred_less)

text \<open>Scan bytes until the address is a multiple of 8.\<close>

function ba_scan_align ::
  "bool \<Rightarrow> u64 \<Rightarrow> u8 list \<Rightarrow> u64 \<Rightarrow> u64 \<Rightarrow> u64 \<Rightarrow> bool \<times> u64 \<times> u64 \<times> u64" where
  "ba_scan_align b addr arr pos count bitpos =
     (if count \<ge> 8 \<and> (addr + pos) AND 7 \<noteq> 0
      then if arr ! unat pos \<noteq> ba_skip_byte b then (True, pos, count, bitpos)
           else ba_scan_align b addr arr (pos + 1) (count - 8) (bitpos + 8)
      else (False, pos, count, bitpos))"
  by pat_completeness auto
termination
  by (relation "measure (\<lambda>(b, addr, arr, pos, count, bitpos). unat count)")
     (auto simp: unat_minus_le word_le_nat_alt)

text \<open>Scan 64-bit words, at most \<open>i\<close> of them.\<close>

function ba_scan_words :: "bool \<Rightarrow> u8 list \<Rightarrow> u64 \<Rightarrow> u64 \<Rightarrow> u64 \<times> u64" where
  "ba_scan_words b arr pos i =
     (if i > 0 \<and> load64 arr pos = ba_skip_word b
      then ba_scan_words b arr (pos + 8) (i - 1)
      else (pos, i))"
  by pat_completeness auto
termination
  by (relation "measure (\<lambda>(b, arr, pos, i). unat i)") (auto simp: unat_pred_less)

text \<open>Scan bytes, at most \<open>i\<close> of them.\<close>

function ba_scan_bytes :: "bool \<Rightarrow> u8 list \<Rightarrow> u64 \<Rightarrow> u64 \<Rightarrow> u64 \<times> u64" where
  "ba_scan_bytes b arr pos i =
     (if i > 0 \<and> arr ! unat pos = ba_skip_byte b
      then ba_scan_bytes b arr (pos + 1) (i - 1)
      else (pos, i))"
  by pat_completeness auto
termination
  by (relation "measure (\<lambda>(b, arr, pos, i). unat i)") (auto simp: unat_pred_less)

text \<open>Scan the remaining bits.\<close>

function ba_scan_tail :: "bool \<Rightarrow> u8 list \<Rightarrow> u64 \<Rightarrow> u64 \<Rightarrow> u64 option" where
  "ba_scan_tail b arr bitpos count =
     (if count > 0
      then if (ext2fs_test_bit64 bitpos arr \<noteq> 0) = b then Some bitpos
           else ba_scan_tail b arr (bitpos + 1) (count - 1)
      else None)"
  by pat_completeness auto
termination
  by (relation "measure (\<lambda>(b, arr, bitpos, count). unat count)") (auto simp: unat_pred_less)

declare ba_scan_head.simps [simp del] ba_scan_align.simps [simp del] ba_scan_words.simps [simp del]
  ba_scan_bytes.simps [simp del] ba_scan_tail.simps [simp del]

definition ba_find_first :: "bool \<Rightarrow> u64 \<Rightarrow> u8 list \<Rightarrow> u64 \<Rightarrow> u64 \<Rightarrow> u64 option" where
  "ba_find_first b addr arr bitpos count =
     (case ba_scan_head b arr bitpos count of
        Inl x \<Rightarrow> Some x
      | Inr (bitpos, count) \<Rightarrow>
          if count = 0 then None
          else
            let (byte_found, pos, count, bitpos) =
                  ba_scan_align b addr arr (drop_bit 3 bitpos) count bitpos
            in if byte_found then ba_scan_tail b arr bitpos count
               else
                 let max_loop_count = drop_bit 6 count;
                     (pos, i) = ba_scan_words b arr pos max_loop_count;
                     count = count - 64 * (max_loop_count - i);
                     bitpos = bitpos + 64 * (max_loop_count - i);
                     max_loop_count = drop_bit 3 count;
                     (pos, i) = ba_scan_bytes b arr pos max_loop_count;
                     count = count - 8 * (max_loop_count - i);
                     bitpos = bitpos + 8 * (max_loop_count - i)
                 in ba_scan_tail b arr bitpos count)"

definition ba_find_first_zero :: "ba_private gbitmap \<Rightarrow> u64 \<Rightarrow> u64 \<Rightarrow> errcode + u64" where
  "ba_find_first_zero bitmap start end1 =
     (case ba_find_first False (ba_addr (gb_private bitmap)) (bitarray (gb_private bitmap))
             (start - gb_start bitmap) (end1 - start + 1) of
        Some bitpos \<Rightarrow> Inr (bitpos + gb_start bitmap)
      | None \<Rightarrow> Inl ENOENT)"

definition ba_find_first_set :: "ba_private gbitmap \<Rightarrow> u64 \<Rightarrow> u64 \<Rightarrow> errcode + u64" where
  "ba_find_first_set bitmap start end1 =
     (case ba_find_first True (ba_addr (gb_private bitmap)) (bitarray (gb_private bitmap))
             (start - gb_start bitmap) (end1 - start + 1) of
        Some bitpos \<Rightarrow> Inr (bitpos + gb_start bitmap)
      | None \<Rightarrow> Inl ENOENT)"

definition ext2fs_blkmap64_bitarray :: "(ba_private, ba_mem) bitmap_ops" where
  "ext2fs_blkmap64_bitarray = \<lparr>
     op_new_bmap = ba_new_bmap, op_copy_bmap = ba_copy_bmap, op_resize_bmap = ba_resize_bmap,
     op_mark_bmap = ba_mark_bmap, op_unmark_bmap = ba_unmark_bmap, op_test_bmap = ba_test_bmap,
     op_mark_bmap_extent = ba_mark_bmap_extent, op_unmark_bmap_extent = ba_unmark_bmap_extent,
     op_test_clear_bmap_extent = ba_test_clear_bmap_extent,
     op_set_bmap_range = ba_set_bmap_range, op_get_bmap_range = ba_get_bmap_range,
     op_clear_bmap = ba_clear_bmap,
     op_find_first_zero = Some ba_find_first_zero, op_find_first_set = Some ba_find_first_set\<rparr>"

section \<open>The searches are exact\<close>

definition no_bit :: "bool \<Rightarrow> u8 list \<Rightarrow> nat \<Rightarrow> nat \<Rightarrow> bool" where
  "no_bit b arr lo hi \<longleftrightarrow> (\<forall>k. lo \<le> k \<and> k < hi \<longrightarrow> bit_at arr k \<noteq> b)"

definition first_at :: "bool \<Rightarrow> u8 list \<Rightarrow> nat \<Rightarrow> nat \<Rightarrow> u64 option \<Rightarrow> bool" where
  "first_at b arr lo hi r \<longleftrightarrow>
     (case r of
        Some x \<Rightarrow> lo \<le> unat x \<and> unat x < hi \<and> bit_at arr (unat x) = b \<and> no_bit b arr lo (unat x)
      | None \<Rightarrow> no_bit b arr lo hi)"

lemma no_bit_join:
  "no_bit b arr lo mid \<Longrightarrow> no_bit b arr mid hi \<Longrightarrow> no_bit b arr lo hi"
  unfolding no_bit_def by (meson not_le)

lemma no_bit_empty [simp]: "no_bit b arr lo lo"
  by (auto simp: no_bit_def)

lemma no_bit_Suc: "bit_at arr k \<noteq> b \<Longrightarrow> no_bit b arr k (k + 1)"
  unfolding no_bit_def by (metis Suc_eq_plus1 le_antisym less_Suc_eq_le)

lemma first_at_skip:
  assumes "first_at b arr mid hi r" "no_bit b arr lo mid" "lo \<le> mid"
  shows "first_at b arr lo hi r"
  using assms by (auto simp: first_at_def split: option.splits intro: no_bit_join)

lemma skip_byte_iff: "c = ba_skip_byte b \<longleftrightarrow> (\<forall>k<8. bit c k \<noteq> b)"
proof -
  have "(0xff :: u8) = -1" by simp
  then show ?thesis
    using byte_zero_iff[of c] byte_ff_iff[of c]
    by (cases b) (simp_all only: ba_skip_byte_def simp_thms if_True if_False)
qed

lemma no_bit_byte:
  assumes "arr ! p = ba_skip_byte b"
  shows "no_bit b arr (8 * p) (8 * p + 8)"
  unfolding no_bit_def
proof (intro allI impI)
  fix k assume k: "8 * p \<le> k \<and> k < 8 * p + 8"
  then have "k div 8 = p" by auto
  then show "bit_at arr k \<noteq> b"
    using assms unfolding skip_byte_iff bit_at_def by simp
qed

lemma digit255:
  "0 \<le> x \<Longrightarrow> x < 256 \<Longrightarrow> x + 256 * h = 256 * n - 1 \<longleftrightarrow> x = 255 \<and> h = n - (1 :: int)"
  for x h n :: int
proof
  assume x: "0 \<le> x" "x < 256" and eq: "x + 256 * h = 256 * n - 1"
  then have "0 < n - h" "n - h < 2" by linarith+
  then have "h = n - 1" by linarith
  then show "x = 255 \<and> h = n - 1" using eq by simp
qed simp

lemma horner_bytes:
  fixes bs :: "u8 list"
  shows "0 \<le> horner_sum uint 256 bs" "horner_sum uint 256 bs < 256 ^ length bs"
    "horner_sum uint 256 bs = 0 \<longleftrightarrow> (\<forall>c\<in>set bs. c = 0)"
    "horner_sum uint 256 bs = 256 ^ length bs - 1 \<longleftrightarrow> (\<forall>c\<in>set bs. c = -1)"
proof (induction bs)
  case (Cons c bs)
  let ?h = "horner_sum uint 256 bs" and ?n = "256 ^ length bs :: int"
  have c: "0 \<le> uint c" "uint c < 256" using uint_lt2p[of c] by simp_all
  have c0: "c = 0 \<longleftrightarrow> uint c = 0" and c1: "c = -1 \<longleftrightarrow> uint c = 255"
    by (simp_all add: word_uint_eq_iff uint_word_ariths)
  show "0 \<le> horner_sum uint 256 (c # bs)" using Cons c by simp
  show "horner_sum uint 256 (c # bs) < 256 ^ length (c # bs)" using Cons(2) c by simp
  show "horner_sum uint 256 (c # bs) = 0 \<longleftrightarrow> (\<forall>d\<in>set (c # bs). d = 0)"
    using Cons(1,3) c c0 by (simp add: add_nonneg_eq_0_iff)
  have "uint c + 256 * ?h = 256 * ?n - 1 \<longleftrightarrow> uint c = 255 \<and> ?h = ?n - 1"
    using c by (rule digit255)
  then show "horner_sum uint 256 (c # bs) = 256 ^ length (c # bs) - 1
               \<longleftrightarrow> (\<forall>d\<in>set (c # bs). d = -1)"
    using Cons(4) c1 by simp
qed simp_all

lemma load64_skip:
  assumes "unat pos + 8 \<le> length arr"
  shows "load64 arr pos = ba_skip_word b \<longleftrightarrow> (\<forall>j<8. arr ! (unat pos + j) = ba_skip_byte b)"
proof -
  let ?bs = "take 8 (drop (unat pos) arr)"
  have len: "length ?bs = 8" using assms by simp
  have u: "uint (load64 arr pos) = horner_sum uint 256 ?bs"
    using horner_bytes(1,2)[of ?bs] len
    by (simp add: load64_def unsigned_of_int take_bit_int_eq_self)
  have "(\<forall>c\<in>set ?bs. P c) \<longleftrightarrow> (\<forall>j<8. P (arr ! (unat pos + j)))" for P
    using assms by (auto simp: all_set_conv_all_nth)
  moreover have "load64 arr pos = 0 \<longleftrightarrow> uint (load64 arr pos) = 0"
    by (simp add: word_uint_eq_iff)
  moreover have "load64 arr pos = -1 \<longleftrightarrow> uint (load64 arr pos) = 256 ^ length ?bs - 1"
    using len by (simp add: word_uint_eq_iff uint_word_ariths)
  moreover have "(0xff :: u8) = -1" by simp
  ultimately show ?thesis
    using horner_bytes(3,4)[of ?bs] unfolding u
    by (cases b) (simp_all only: ba_skip_word_def ba_skip_byte_def if_True if_False)
qed

lemma no_bit_word:
  assumes "unat pos + 8 \<le> length arr" "load64 arr pos = ba_skip_word b"
  shows "no_bit b arr (8 * unat pos) (8 * unat pos + 64)"
  unfolding no_bit_def
proof (intro allI impI)
  fix k assume k: "8 * unat pos \<le> k \<and> k < 8 * unat pos + 64"
  then have "k div 8 - unat pos < 8" "unat pos \<le> k div 8" by linarith+
  then have "arr ! (k div 8) = ba_skip_byte b"
    using load64_skip[OF assms(1)] assms(2) le_add_diff_inverse by metis
  then show "bit_at arr k \<noteq> b"
    unfolding skip_byte_iff bit_at_def by simp
qed

lemma scan_tail_first:
  "unat bitpos + unat count < 2 ^ 64 \<Longrightarrow>
   first_at b arr (unat bitpos) (unat bitpos + unat count) (ba_scan_tail b arr bitpos count)"
proof (induction b arr bitpos count rule: ba_scan_tail.induct)
  case (1 b arr bitpos count)
  consider "count = 0" | "count > 0" "bit_at arr (unat bitpos) = b"
    | "count > 0" "bit_at arr (unat bitpos) \<noteq> b"
    by (metis word_neq_0_conv)
  then show ?case
  proof cases
    case 3
    then have c: "unat (count - 1) = unat count - 1" "unat count > 0"
      by (simp_all add: unat_minus_one unat_gt_0 word_gt_0)
    have p: "unat (bitpos + 1) = unat bitpos + 1"
      using 1(2) c by (subst unat_plus64) simp_all
    have "first_at b arr (unat bitpos + 1) (unat bitpos + unat count)
            (ba_scan_tail b arr (bitpos + 1) (count - 1))"
      using 1 3 c p by (simp add: test_bit64_iff)
    from first_at_skip[OF this no_bit_Suc[OF 3(2)]] show ?thesis
      using 3 by (subst ba_scan_tail.simps) (simp add: test_bit64_iff)
  qed (subst ba_scan_tail.simps; simp add: first_at_def test_bit64_iff unat_gt_0 word_gt_0)+
qed

lemma scan_head_ok:
  "unat bitpos + unat count < 2 ^ 64 \<Longrightarrow>
   (case ba_scan_head b arr bitpos count of
      Inl x \<Rightarrow> first_at b arr (unat bitpos) (unat bitpos + unat count) (Some x)
    | Inr (bp, c) \<Rightarrow> unat bp + unat c = unat bitpos + unat count \<and> unat bitpos \<le> unat bp \<and>
        no_bit b arr (unat bitpos) (unat bp) \<and> (c = 0 \<or> unat bp mod 8 = 0))"
proof (induction b arr bitpos count rule: ba_scan_head.induct)
  case (1 b arr bitpos count)
  have a0: "bitpos AND 7 = 0 \<longleftrightarrow> unat bitpos mod 8 = 0"
    by (metis unat_and7_64 unat_eq_zero)
  consider "\<not> (bitpos AND 7 \<noteq> 0 \<and> count > 0)"
    | "bitpos AND 7 \<noteq> 0 \<and> count > 0" "bit_at arr (unat bitpos) = b"
    | "bitpos AND 7 \<noteq> 0 \<and> count > 0" "bit_at arr (unat bitpos) \<noteq> b"
    by blast
  then show ?case
  proof cases
    case 3
    then have c: "unat (count - 1) = unat count - 1" "unat count > 0"
      by (simp_all add: unat_minus_one unat_gt_0 word_gt_0)
    have p: "unat (bitpos + 1) = unat bitpos + 1"
      using 1(2) c by (subst unat_plus64) simp_all
    have s: "ba_scan_head b arr bitpos count = ba_scan_head b arr (bitpos + 1) (count - 1)"
      using 3 by (subst ba_scan_head.simps) (simp add: test_bit64_iff)
    show ?thesis
    proof (cases "ba_scan_head b arr (bitpos + 1) (count - 1)")
      case (Inl x)
      then have "first_at b arr (unat bitpos + 1) (unat bitpos + unat count) (Some x)"
        using 1 3 c p by (simp add: test_bit64_iff)
      from first_at_skip[OF this no_bit_Suc[OF 3(2)]] show ?thesis using Inl s by simp
    next
      case (Inr q)
      obtain bp ct where q: "q = (bp, ct)" by (cases q)
      have "unat bp + unat ct = unat bitpos + unat count \<and> unat bitpos + 1 \<le> unat bp \<and>
            no_bit b arr (unat bitpos + 1) (unat bp) \<and> (ct = 0 \<or> unat bp mod 8 = 0)"
        using 1 3 c p Inr q by (simp add: test_bit64_iff)
      then show ?thesis
        using s Inr q no_bit_join[OF no_bit_Suc[OF 3(2)]] by (simp del: One_nat_def add_Suc_right)
    qed
  qed (subst ba_scan_head.simps, auto simp: first_at_def test_bit64_iff a0 unat_gt_0 word_gt_0)+
qed

lemma scan_align_ok:
  "unat bitpos + unat count < 2 ^ 64 \<Longrightarrow> unat bitpos = 8 * unat pos \<Longrightarrow>
   (case ba_scan_align b addr arr pos count bitpos of
      (bf, p, c, bp) \<Rightarrow> unat bp + unat c = unat bitpos + unat count \<and> unat bp = 8 * unat p \<and>
        unat bitpos \<le> unat bp \<and> no_bit b arr (unat bitpos) (unat bp))"
proof (induction b addr arr pos count bitpos rule: ba_scan_align.induct)
  case (1 b addr arr pos count bitpos)
  show ?case
  proof (cases "count \<ge> 8 \<and> (addr + pos) AND 7 \<noteq> 0 \<and> arr ! unat pos = ba_skip_byte b")
    case True
    then have c: "unat (count - 8) = unat count - 8" "8 \<le> unat count"
      by (simp_all add: unat_minus_le word_le_nat_alt)
    have bp: "unat (bitpos + 8) = unat bitpos + 8"
      using 1(2) c(2) by (subst unat_plus64) simp_all
    have p: "unat (pos + 1) = unat pos + 1"
      using 1(2,3) c(2) by (subst unat_plus64) simp_all
    have "no_bit b arr (unat bitpos) (unat bitpos + 8)"
      using no_bit_byte[of arr "unat pos" b] True 1(3) by simp
    moreover have "case ba_scan_align b addr arr (pos + 1) (count - 8) (bitpos + 8) of
      (bf, p, c, bp) \<Rightarrow> unat bp + unat c = unat (bitpos + 8) + unat (count - 8) \<and>
        unat bp = 8 * unat p \<and> unat (bitpos + 8) \<le> unat bp \<and>
        no_bit b arr (unat (bitpos + 8)) (unat bp)"
      using True 1(2,3) c bp p by (intro 1(1)) simp_all
    ultimately show ?thesis
      using True c bp
      by (subst ba_scan_align.simps) (auto split: prod.splits intro: no_bit_join)
  next
    case False
    then show ?thesis using 1(3) by (subst ba_scan_align.simps) auto
  qed
qed

lemma scan_words_ok:
  "unat pos + 8 * unat i \<le> length arr \<Longrightarrow> unat pos + 8 * unat i < 2 ^ 64 \<Longrightarrow>
   (case ba_scan_words b arr pos i of
      (p, j) \<Rightarrow> unat j \<le> unat i \<and> unat p = unat pos + 8 * (unat i - unat j) \<and>
                no_bit b arr (8 * unat pos) (8 * unat p))"
proof (induction b arr pos i rule: ba_scan_words.induct)
  case (1 b arr pos i)
  show ?case
  proof (cases "i > 0 \<and> load64 arr pos = ba_skip_word b")
    case True
    then have i: "unat (i - 1) = unat i - 1" "0 < unat i"
      by (simp_all add: unat_minus_one unat_gt_0 word_gt_0)
    have p: "unat (pos + 8) = unat pos + 8" using 1(3) i(2) by (subst unat_plus64) simp_all
    have "no_bit b arr (8 * unat pos) (8 * (unat pos + 8))"
      using no_bit_word[of pos arr b] True 1(2) i(2) by (simp add: algebra_simps)
    moreover have "case ba_scan_words b arr (pos + 8) (i - 1) of
      (p, j) \<Rightarrow> unat j \<le> unat (i - 1) \<and> unat p = unat (pos + 8) + 8 * (unat (i - 1) - unat j) \<and>
                no_bit b arr (8 * unat (pos + 8)) (8 * unat p)"
      using True 1(2,3) i p by (intro 1(1)) simp_all
    ultimately show ?thesis
      using True i p by (subst ba_scan_words.simps) (auto split: prod.splits intro: no_bit_join)
  next
    case False
    then show ?thesis by (subst ba_scan_words.simps) auto
  qed
qed

lemma scan_bytes_ok:
  "unat pos + unat i < 2 ^ 64 \<Longrightarrow>
   (case ba_scan_bytes b arr pos i of
      (p, j) \<Rightarrow> unat j \<le> unat i \<and> unat p + unat j = unat pos + unat i \<and>
                no_bit b arr (8 * unat pos) (8 * unat p))"
proof (induction b arr pos i rule: ba_scan_bytes.induct)
  case (1 b arr pos i)
  show ?case
  proof (cases "i > 0 \<and> arr ! unat pos = ba_skip_byte b")
    case True
    then have i: "unat (i - 1) = unat i - 1" "0 < unat i"
      by (simp_all add: unat_minus_one unat_gt_0 word_gt_0)
    have p: "unat (pos + 1) = unat pos + 1" using 1(2) i(2) by (subst unat_plus64) simp_all
    have "no_bit b arr (8 * unat pos) (8 * (unat pos + 1))"
      using no_bit_byte[of arr "unat pos" b] True by (simp add: algebra_simps)
    moreover have "case ba_scan_bytes b arr (pos + 1) (i - 1) of
      (p, j) \<Rightarrow> unat j \<le> unat (i - 1) \<and> unat p + unat j = unat (pos + 1) + unat (i - 1) \<and>
                no_bit b arr (8 * unat (pos + 1)) (8 * unat p)"
      using True 1(2) i p by (intro 1(1)) simp_all
    ultimately show ?thesis
      using True i p by (subst ba_scan_bytes.simps) (auto split: prod.splits intro: no_bit_join)
  next
    case False
    then show ?thesis by (subst ba_scan_bytes.simps) auto
  qed
qed

text \<open>The bookkeeping after a counted loop: \<open>k * (max - i)\<close> bits are behind.\<close>

lemma advance_ok:
  fixes count bitpos k mx i :: u64
  assumes "unat k * unat mx \<le> unat count" "unat i \<le> unat mx"
    and "unat bitpos + unat count < 2 ^ 64"
  shows "unat (count - k * (mx - i)) = unat count - unat k * (unat mx - unat i)"
    and "unat (bitpos + k * (mx - i)) = unat bitpos + unat k * (unat mx - unat i)"
    and "unat k * (unat mx - unat i) \<le> unat count"
proof -
  have d: "unat (mx - i) = unat mx - unat i" using assms(2) by (rule unat_minus_nat)
  show le: "unat k * (unat mx - unat i) \<le> unat count"
    using assms(1) by (meson diff_le_self le_trans mult_le_mono2)
  then have m: "unat (k * (mx - i)) = unat k * (unat mx - unat i)"
    using assms(3) d by (subst unat_mult64) simp_all
  show "unat (count - k * (mx - i)) = unat count - unat k * (unat mx - unat i)"
    using le m by (subst unat_minus_nat) simp_all
  show "unat (bitpos + k * (mx - i)) = unat bitpos + unat k * (unat mx - unat i)"
    using le m assms(3) by (subst unat_plus64) simp_all
qed

lemma scan_bytewise_first:
  assumes "unat bitpos + unat count < 2 ^ 64" "unat bitpos = 8 * unat pos"
    and "(p, i) = ba_scan_bytes b arr pos (drop_bit 3 count)"
  shows "first_at b arr (unat bitpos) (unat bitpos + unat count)
           (ba_scan_tail b arr (bitpos + 8 * (drop_bit 3 count - i))
              (count - 8 * (drop_bit 3 count - i)))"
proof -
  have "8 * (unat count div 8) \<le> unat count" by simp
  then have "unat pos + unat (drop_bit 3 count) < 2 ^ 64" using assms(1,2) by simp
  from scan_bytes_ok[OF this, of b arr] assms(3)
  have j: "unat i \<le> unat (drop_bit 3 count)"
       "unat p + unat i = unat pos + unat (drop_bit 3 count)"
       "no_bit b arr (8 * unat pos) (8 * unat p)"
    by (simp_all split: prod.splits)
  have "unat (8 :: u64) * unat (drop_bit 3 count) \<le> unat count" by simp
  note adv = advance_ok[OF this j(1) assms(1)]
  have bp: "unat (bitpos + 8 * (drop_bit 3 count - i)) = 8 * unat p"
    using adv(2) j(1,2) assms(2) by simp
  have sum: "unat (bitpos + 8 * (drop_bit 3 count - i)) + unat (count - 8 * (drop_bit 3 count - i))
               = unat bitpos + unat count"
    using adv by simp
  show ?thesis
    using scan_tail_first[of "bitpos + 8 * (drop_bit 3 count - i)"
        "count - 8 * (drop_bit 3 count - i)" b arr, unfolded sum, unfolded bp, OF assms(1)]
    by (rule first_at_skip) (use j assms(2) in simp_all)
qed

lemma scan_wordwise_first:
  assumes "unat bitpos + unat count < 2 ^ 64" "unat bitpos = 8 * unat pos"
    and "unat bitpos + unat count \<le> 8 * length arr"
    and "(p, i) = ba_scan_words b arr pos (drop_bit 6 count)"
    and "bitpos' = bitpos + 64 * (drop_bit 6 count - i)"
    and "count' = count - 64 * (drop_bit 6 count - i)"
    and "(q, j) = ba_scan_bytes b arr p (drop_bit 3 count')"
  shows "first_at b arr (unat bitpos) (unat bitpos + unat count)
           (ba_scan_tail b arr (bitpos' + 8 * (drop_bit 3 count' - j))
              (count' - 8 * (drop_bit 3 count' - j)))"
proof -
  have mx: "unat (drop_bit 6 count) = unat count div 64"
    by (simp add: unat_drop_bit)
  have le: "64 * (unat count div 64) \<le> unat count" by simp
  then have "unat pos + 8 * unat (drop_bit 6 count) \<le> length arr"
      "unat pos + 8 * unat (drop_bit 6 count) < 2 ^ 64"
    using assms(1-3) mx by linarith+
  from scan_words_ok[OF this, of b, folded assms(4), unfolded prod.case]
  have w: "unat i \<le> unat (drop_bit 6 count)"
       "unat p = unat pos + 8 * (unat (drop_bit 6 count) - unat i)"
       "no_bit b arr (8 * unat pos) (8 * unat p)"
    by blast+
  have "unat (64 :: u64) * unat (drop_bit 6 count) \<le> unat count" using mx le by simp
  note adv = advance_ok[OF this w(1) assms(1)]
  have bp: "unat bitpos' = 8 * unat p"
    using adv(2) w(2) assms(2) by (simp add: assms(5))
  have sum: "unat bitpos' + unat count' = unat bitpos + unat count"
    using adv by (simp add: assms(5,6))
  from scan_bytewise_first[OF _ bp assms(7)] sum assms(1)
  have "first_at b arr (8 * unat p) (unat bitpos + unat count)
          (ba_scan_tail b arr (bitpos' + 8 * (drop_bit 3 count' - j))
              (count' - 8 * (drop_bit 3 count' - j)))"
    unfolding bp by simp
  then show ?thesis by (rule first_at_skip) (use w assms(2) in simp_all)
qed

lemma ba_find_first_exact:
  assumes "unat bitpos + unat count < 2 ^ 64" "unat bitpos + unat count \<le> 8 * length arr"
  shows "first_at b arr (unat bitpos) (unat bitpos + unat count)
           (ba_find_first b addr arr bitpos count)"
proof (cases "ba_scan_head b arr bitpos count")
  case (Inl x)
  then show ?thesis using scan_head_ok[OF assms(1), of b arr] by (simp add: ba_find_first_def)
next
  case (Inr q)
  obtain bp c where q: "q = (bp, c)" by (cases q)
  have h: "unat bp + unat c = unat bitpos + unat count" "unat bitpos \<le> unat bp"
      "no_bit b arr (unat bitpos) (unat bp)" "c = 0 \<or> unat bp mod 8 = 0"
    using scan_head_ok[OF assms(1), of b arr] Inr q by simp_all
  show ?thesis
  proof (cases "c = 0")
    case True
    then show ?thesis using h(1,3) Inr q by (simp add: ba_find_first_def first_at_def)
  next
    case False
    then have al: "unat bp = 8 * unat (drop_bit 3 bp)"
      using h(4) mult_div_mod_eq[of 8 "unat bp"] by simp
    obtain bf p c' bp' where a: "ba_scan_align b addr arr (drop_bit 3 bp) c bp = (bf, p, c', bp')"
      by (metis prod.exhaust)
    have lt: "unat bp + unat c < 2 ^ 64" using h(1) assms(1) by simp
    have g: "unat bp' + unat c' = unat bitpos + unat count" "unat bp' = 8 * unat p"
        "unat bp \<le> unat bp'" "no_bit b arr (unat bp) (unat bp')"
      using scan_align_ok[OF lt al, of b arr addr, unfolded a prod.case h(1)] by blast+
    have lt': "unat bp' + unat c' < 2 ^ 64" using g(1) assms(1) by simp
    obtain p2 i where w: "(p2, i) = ba_scan_words b arr p (drop_bit 6 c')" by (metis prod.exhaust)
    obtain p3 j where y: "(p3, j) = ba_scan_bytes b arr p2
        (drop_bit 3 (c' - 64 * (drop_bit 6 c' - i)))" by (metis prod.exhaust)
    have "first_at b arr (unat bp') (unat bp' + unat c') (ba_find_first b addr arr bitpos count)"
    proof (cases bf)
      case True
      then show ?thesis
        using scan_tail_first[OF lt', of b arr] False Inr q a by (simp add: ba_find_first_def)
    next
      case nf: False
      have "unat bp' + unat c' \<le> 8 * length arr" using g(1) assms(2) by simp
      from scan_wordwise_first[OF lt' g(2) this w refl refl y] show ?thesis
        using nf False Inr q a w[symmetric] y[symmetric] by (simp add: ba_find_first_def Let_def)
    qed
    then show ?thesis
      using first_at_skip no_bit_join[OF h(3) g(4)] g(1,3) h(2) le_trans by metis
  qed
qed

section \<open>The backend contract\<close>

definition ba_wf :: "ba_private gbitmap \<Rightarrow> bool" where
  "ba_wf b \<longleftrightarrow> hdr_ok b \<and> length (bitarray (gb_private b)) = ba_size (gb_start b) (gb_real_end b)"

definition ba_bits :: "ba_private gbitmap \<Rightarrow> u64 set" where
  "ba_bits b = {x. gb_start b \<le> x \<and> x \<le> gb_real_end b \<and>
                   bit_at (bitarray (gb_private b)) (unat (x - gb_start b))}"

lemma ba_size_eq:
  assumes "unat (e - s) < 2 ^ 63"
  shows "ba_size s e = unat (e - s) div 8 + 1"
proof -
  have "unat ((e - s) div 8) = unat (e - s) div 8" by (simp add: unat_div)
  then show ?thesis using assms unfolding ba_size_def by (subst unat_plus64) simp_all
qed

lemma ba_in_array:
  assumes "ba_wf b" "gb_start b \<le> x" "x \<le> gb_real_end b"
  shows "unat (x - gb_start b) < 8 * length (bitarray (gb_private b))"
proof -
  have "unat (x - gb_start b) \<le> unat (gb_real_end b - gb_start b)"
    using assms(2,3) by (simp add: unat_minus_le word_le_nat_alt)
  then show ?thesis
    using assms(1) ba_size_eq[of "gb_real_end b" "gb_start b"]
    by (simp add: ba_wf_def hdr_ok_def)
qed

lemma ba_wf_with_array:
  "ba_wf b \<Longrightarrow> length arr = length (bitarray (gb_private b)) \<Longrightarrow>
   ba_wf (with_array b arr) \<and> same_hdr (with_array b arr) b"
  by (simp add: ba_wf_def hdr_ok_def same_hdr_iff)

lemma word_offset_eq:
  assumes "(s :: u64) \<le> x" "s \<le> y"
  shows "unat (x - s) = unat (y - s) \<longleftrightarrow> x = y"
  using assms by (metis diff_add_cancel word_unat_eq_iff)

lemma ba_mark_ok:
  assumes "ba_wf b" "gb_start b \<le> x" "x \<le> gb_real_end b" "ba_mark_bmap b x = (r, b')"
  shows "ba_wf b' \<and> same_hdr b' b \<and> ba_bits b' = insert x (ba_bits b) \<and> (r \<noteq> 0 \<longleftrightarrow> x \<in> ba_bits b)"
proof -
  let ?arr = "bitarray (gb_private b)"
  have in_arr: "unat (x - gb_start b) < 8 * length ?arr" using assms by (rule_tac ba_in_array)
  have b': "b' = with_array b (snd (ext2fs_set_bit64 (x - gb_start b) ?arr))"
    and r: "r = fst (ext2fs_set_bit64 (x - gb_start b) ?arr)"
    using assms(4) by (auto simp: ba_mark_bmap_def split: prod.splits)
  have "ba_bits b' = insert x (ba_bits b)"
    using assms(2,3)
    by (auto simp: b' ba_bits_def bit_at_set_bit64[OF in_arr] word_offset_eq)
  moreover have "r \<noteq> 0 \<longleftrightarrow> x \<in> ba_bits b"
    using assms(2,3) by (simp add: r set_bit64_old ba_bits_def)
  ultimately show ?thesis using ba_wf_with_array[OF assms(1)] b' by simp
qed

lemma ba_unmark_ok:
  assumes "ba_wf b" "gb_start b \<le> x" "x \<le> gb_real_end b" "ba_unmark_bmap b x = (r, b')"
  shows "ba_wf b' \<and> same_hdr b' b \<and> ba_bits b' = ba_bits b - {x} \<and> (r \<noteq> 0 \<longleftrightarrow> x \<in> ba_bits b)"
proof -
  let ?arr = "bitarray (gb_private b)"
  have in_arr: "unat (x - gb_start b) < 8 * length ?arr" using assms by (rule_tac ba_in_array)
  have b': "b' = with_array b (snd (ext2fs_clear_bit64 (x - gb_start b) ?arr))"
    and r: "r = fst (ext2fs_clear_bit64 (x - gb_start b) ?arr)"
    using assms(4) by (auto simp: ba_unmark_bmap_def split: prod.splits)
  have "ba_bits b' = ba_bits b - {x}"
    using assms(2,3)
    by (auto simp: b' ba_bits_def bit_at_clear_bit64[OF in_arr] word_offset_eq)
  moreover have "r \<noteq> 0 \<longleftrightarrow> x \<in> ba_bits b"
    using assms(2,3) by (simp add: r clear_bit64_old ba_bits_def)
  ultimately show ?thesis using ba_wf_with_array[OF assms(1)] b' by simp
qed

lemma ba_test_ok:
  assumes "ba_wf b" "gb_start b \<le> x" "x \<le> gb_real_end b" "ba_test_bmap b x = (r, b')"
  shows "ba_wf b' \<and> same_hdr b' b \<and> ba_bits b' = ba_bits b \<and> (r \<noteq> 0 \<longleftrightarrow> x \<in> ba_bits b)"
  using assms test_bit64_iff[of "x - gb_start b" "bitarray (gb_private b)"]
  by (auto simp: ba_test_bmap_def ba_bits_def)

lemma fold_set_bits:
  "(\<And>i. i < n \<Longrightarrow> unat (f i) < 8 * length arr) \<Longrightarrow>
   length (fold (\<lambda>i a. snd (ext2fs_set_bit64 (f i) a)) [0..<n] arr) = length arr \<and>
   (bit_at (fold (\<lambda>i a. snd (ext2fs_set_bit64 (f i) a)) [0..<n] arr) k
      \<longleftrightarrow> bit_at arr k \<or> (\<exists>i<n. k = unat (f i)))"
  by (induction n) (auto simp: bit_at_set_bit64 less_Suc_eq)

lemma fold_clear_bits:
  "(\<And>i. i < n \<Longrightarrow> unat (f i) < 8 * length arr) \<Longrightarrow>
   length (fold (\<lambda>i a. snd (ext2fs_clear_bit64 (f i) a)) [0..<n] arr) = length arr \<and>
   (bit_at (fold (\<lambda>i a. snd (ext2fs_clear_bit64 (f i) a)) [0..<n] arr) k
      \<longleftrightarrow> bit_at arr k \<and> \<not> (\<exists>i<n. k = unat (f i)))"
  by (induction n) (auto simp: bit_at_clear_bit64 less_Suc_eq)

text \<open>The positions that the loop over an extent visits, relative to the first bit.\<close>

lemma span_steps:
  assumes "s \<le> x" "s \<le> y" "unat x + n \<le> 2 ^ 64"
  shows "(\<exists>i<n. unat (y - s) = unat (x + of_nat i - s)) \<longleftrightarrow> y \<in> bmap_span x n"
proof -
  have x: "unat (x + of_nat i) = unat x + i" if "i < n" for i
    using that assms(3) by (subst unat_plus64) (simp_all add: unsigned_of_nat take_bit_nat_eq_self)
  have "unat (y - s) = unat (x + of_nat i - s) \<longleftrightarrow> unat y = unat x + i" if "i < n" for i
  proof -
    have "s \<le> x + of_nat i" using x[OF that] assms(1) by (simp add: word_le_nat_alt)
    then show ?thesis using word_offset_eq[OF assms(2)] x[OF that] by (metis word_unat_eq_iff)
  qed
  then have "(\<exists>i<n. unat (y - s) = unat (x + of_nat i - s)) \<longleftrightarrow> (\<exists>i<n. unat y = unat x + i)"
    by blast
  also have "\<dots> \<longleftrightarrow> y \<in> bmap_span x n"
    unfolding bmap_span_def by (auto intro!: exI[of _ "unat y - unat x"])
  finally show ?thesis .
qed

lemma extent_in_array:
  assumes "ba_wf b" "gb_start b \<le> x" "unat x + n \<le> unat (gb_real_end b) + 1" "i < n"
  shows "unat (x + of_nat i - gb_start b) < 8 * length (bitarray (gb_private b))"
proof (rule ba_in_array[OF assms(1)])
  have "unat x + i < 2 ^ 64"
    using assms(3,4) unat_less64[of "gb_real_end b"] by linarith
  then have "unat (x + of_nat i) = unat x + i"
    by (subst unat_plus64) (simp_all add: unsigned_of_nat take_bit_nat_eq_self)
  then show "gb_start b \<le> x + of_nat i" "x + of_nat i \<le> gb_real_end b"
    using assms(2-4) by (simp_all add: word_le_nat_alt)
qed

lemma ba_mark_extent_ok:
  assumes "ba_wf b" "gb_start b \<le> x" "unat x + unat n \<le> unat (gb_real_end b) + 1"
  shows "ba_wf (ba_mark_bmap_extent b x n) \<and> same_hdr (ba_mark_bmap_extent b x n) b \<and>
         ba_bits (ba_mark_bmap_extent b x n) = ba_bits b \<union> bmap_span x (unat n)"
proof -
  note ia = extent_in_array[OF assms]
  note fs = fold_set_bits[of "unat n" "\<lambda>i. x + of_nat i - gb_start b", OF ia]
  have lim: "unat x + unat n \<le> 2 ^ 64"
    using assms(3) unat_less64[of "gb_real_end b"] by linarith
  have "y \<in> bmap_span x (unat n) \<Longrightarrow> gb_start b \<le> y \<and> y \<le> gb_real_end b" for y
    using assms(2,3) by (simp add: bmap_span_def word_le_nat_alt)
  then have "ba_bits (ba_mark_bmap_extent b x n) = ba_bits b \<union> bmap_span x (unat n)"
    using span_steps[OF assms(2) _ lim] by (auto simp: ba_bits_def ba_mark_bmap_extent_def fs)
  then show ?thesis
    using ba_wf_with_array[OF assms(1)] fs by (simp add: ba_mark_bmap_extent_def)
qed

lemma ba_unmark_extent_ok:
  assumes "ba_wf b" "gb_start b \<le> x" "unat x + unat n \<le> unat (gb_real_end b) + 1"
  shows "ba_wf (ba_unmark_bmap_extent b x n) \<and> same_hdr (ba_unmark_bmap_extent b x n) b \<and>
         ba_bits (ba_unmark_bmap_extent b x n) = ba_bits b - bmap_span x (unat n)"
proof -
  note ia = extent_in_array[OF assms]
  note fs = fold_clear_bits[of "unat n" "\<lambda>i. x + of_nat i - gb_start b", OF ia]
  have lim: "unat x + unat n \<le> 2 ^ 64"
    using assms(3) unat_less64[of "gb_real_end b"] by linarith
  have "ba_bits (ba_unmark_bmap_extent b x n) = ba_bits b - bmap_span x (unat n)"
    using span_steps[OF assms(2) _ lim] by (auto simp: ba_bits_def ba_unmark_bmap_extent_def fs)
  then show ?thesis
    using ba_wf_with_array[OF assms(1)] fs by (simp add: ba_unmark_bmap_extent_def)
qed

lemma ba_test_clear_ok:
  assumes "ba_wf b" "gb_start b \<le> x" "unat x + unat n \<le> unat (gb_real_end b) + 1"
  shows "ba_test_clear_bmap_extent b x n \<longleftrightarrow> ba_bits b \<inter> bmap_span x (unat n) = {}"
proof -
  let ?arr = "bitarray (gb_private b)" and ?s = "gb_start b"
  have off: "unat (x - ?s) = unat x - unat ?s" "unat ?s \<le> unat x"
    using assms(2) by (simp_all add: unat_minus_le word_le_nat_alt)
  have lim: "unat x + unat n \<le> 2 ^ 64"
    using assms(3) unat_less64[of "gb_real_end b"] by linarith
  have sz: "length ?arr = unat (gb_real_end b - ?s) div 8 + 1" "?s \<le> gb_real_end b"
      "unat (gb_real_end b - ?s) < 2 ^ 63"
    using assms(1) ba_size_eq by (auto simp: ba_wf_def hdr_ok_def intro: order_trans)
  have re: "unat (gb_real_end b - ?s) = unat (gb_real_end b) - unat ?s"
    using sz(2) by (rule unat_minus_le)
  have fits: "unat (x - ?s) + unat n \<le> 8 * length ?arr"
    using sz(1) assms(3) off unfolding re by linarith
  have "unat (x - ?s) + unat n < 2 ^ 64"
    using sz(3) assms(3) off unfolding re by simp
  note tc = test_clear_range_iff[OF fits this]
  have st: "unat (x + of_nat k - ?s) = unat (x - ?s) + k \<and> ?s \<le> x + of_nat k
             \<and> x + of_nat k \<le> gb_real_end b \<and> x + of_nat k \<in> bmap_span x (unat n)"
    if k: "k < unat n" for k
  proof -
    have "unat (x + of_nat k) = unat x + k"
      using k lim by (subst unat_plus64) (simp_all add: unsigned_of_nat take_bit_nat_eq_self)
    then show ?thesis
      using off k assms(3) by (simp add: word_le_nat_alt bmap_span_def unat_minus_nat)
  qed
  have "(\<forall>k<unat n. \<not> bit_at ?arr (unat (x - ?s) + k)) \<longleftrightarrow> ba_bits b \<inter> bmap_span x (unat n) = {}"
  proof
    assume z: "\<forall>k<unat n. \<not> bit_at ?arr (unat (x - ?s) + k)"
    show "ba_bits b \<inter> bmap_span x (unat n) = {}"
    proof (rule ccontr)
      assume "ba_bits b \<inter> bmap_span x (unat n) \<noteq> {}"
      then obtain y where y: "y \<in> ba_bits b" "y \<in> bmap_span x (unat n)" by blast
      then obtain i where "i < unat n" "unat (y - ?s) = unat (x + of_nat i - ?s)"
        using span_steps[OF assms(2) _ lim, of y] by (auto simp: ba_bits_def)
      then show False using z y(1) st by (simp add: ba_bits_def)
    qed
  next
    assume "ba_bits b \<inter> bmap_span x (unat n) = {}"
    then show "\<forall>k<unat n. \<not> bit_at ?arr (unat (x - ?s) + k)"
      using st by (fastforce simp: ba_bits_def)
  qed
  then show ?thesis by (simp add: ba_test_clear_bmap_extent_def tc)
qed

lemma ba_clear_ok:
  assumes "ba_wf b"
  shows "ba_wf (ba_clear_bmap b) \<and> same_hdr (ba_clear_bmap b) b \<and> ba_bits (ba_clear_bmap b) = {}"
proof -
  let ?n = "ba_size (gb_start b) (gb_real_end b)"
  have c: "ba_clear_bmap b = with_array b (replicate ?n 0)"
    using assms by (simp add: ba_clear_bmap_def ba_wf_def)
  have w: "ba_wf (with_array b (replicate ?n 0)) \<and> same_hdr (with_array b (replicate ?n 0)) b"
    using assms by (intro ba_wf_with_array) (simp_all add: ba_wf_def)
  then have "ba_bits (with_array b (replicate ?n 0)) = {}"
    using ba_in_array[of "with_array b (replicate ?n 0)"] by (auto simp: ba_bits_def)
  then show ?thesis using w c by simp
qed

lemma ba_new_ok:
  assumes "hdr_ok h" "ba_new_bmap m h = Inr p"
  shows "ba_wf (with_private h p) \<and> ba_bits (with_private h p) = {}"
proof -
  let ?n = "ba_size (gb_start h) (gb_real_end h)"
  have p: "bitarray p = replicate ?n 0"
    using assms(2) by (auto simp: ba_new_bmap_def ba_alloc_private_data_def Let_def
                            split: if_splits option.splits prod.splits)
  then have w: "ba_wf (with_private h p)" using assms(1) by (simp add: ba_wf_def hdr_ok_def)
  then show ?thesis using ba_in_array[OF w] p by (auto simp: ba_bits_def)
qed

lemma ba_copy_ok:
  assumes "ba_wf src" "hdr_ok h" "gb_start h = gb_start src" "gb_real_end h = gb_real_end src"
    and "ba_copy_bmap m src h = Inr p"
  shows "ba_wf (with_private h p) \<and> ba_bits (with_private h p) = ba_bits src"
proof -
  have p: "bitarray p = bitarray (gb_private src)"
    using assms by (auto simp: ba_copy_bmap_def ba_alloc_private_data_def Let_def ba_wf_def
                         split: if_splits option.splits prod.splits)
  then show ?thesis using assms by (simp add: ba_wf_def hdr_ok_def ba_bits_def)
qed

lemma ba_find_first_match:
  assumes "ba_wf b" "gb_start b \<le> s" "s \<le> e" "e \<le> gb_real_end b"
    and r: "r = (case ba_find_first v (ba_addr (gb_private b)) (bitarray (gb_private b))
             (s - gb_start b) (e - s + 1) of
        Some bitpos \<Rightarrow> Inr (bitpos + gb_start b)
      | None \<Rightarrow> Inl ENOENT)"
  shows "first_match (\<lambda>x. (x \<in> ba_bits b) = v) s e r"
proof -
  let ?st = "gb_start b" and ?arr = "bitarray (gb_private b)"
  have off: "unat (x - ?st) = unat x - unat ?st" if "?st \<le> x" for x
    using that by (rule unat_minus_le)
  have hb: "unat (gb_real_end b) - unat ?st < 2 ^ 63" "unat (e - s) = unat e - unat s"
    using assms(1-4) off[of "gb_real_end b"]
    by (simp_all add: ba_wf_def hdr_ok_def unat_minus_le order_trans[of ?st s])
  have le: "unat ?st \<le> unat s" "unat s \<le> unat e" "unat e \<le> unat (gb_real_end b)"
    using assms(2-4) by (simp_all add: word_le_nat_alt)
  have cnt: "unat (e - s + 1) = unat e - unat s + 1"
    using hb le by (subst unat_plus64) simp_all
  have top: "unat (s - ?st) + unat (e - s + 1) = unat (e - ?st) + 1"
    using off[of s] off[of e] cnt le assms(2,3) by (simp add: word_le_nat_alt)
  have "unat (e - ?st) < 8 * length ?arr"
    using ba_in_array[OF assms(1)] assms(2-4) order_trans by blast
  then have "first_at v ?arr (unat (s - ?st)) (unat (e - ?st) + 1)
      (ba_find_first v (ba_addr (gb_private b)) ?arr (s - ?st) (e - s + 1))" (is "first_at _ _ _ _ ?f")
    using ba_find_first_exact[of "s - ?st" "e - s + 1" ?arr v "ba_addr (gb_private b)"]
      hb le off[of e] assms(2,3) unfolding top by (simp add: word_le_nat_alt)
  note fa = this[unfolded first_at_def no_bit_def]
  have out: "(y \<in> ba_bits b) = bit_at ?arr (unat (y - ?st)) \<and>
             unat (s - ?st) \<le> unat (y - ?st) \<and> unat (y - ?st) < unat (e - ?st) + 1"
    if "s \<le> y" "y \<le> e" for y
    using that assms(2-4) off[of y] off[of s] off[of e] le
    by (auto simp: ba_bits_def word_le_nat_alt)
  show ?thesis
  proof (cases ?f)
    case None
    then have "(y \<in> ba_bits b) \<noteq> v" if "s \<le> y" "y \<le> e" for y
      using out[OF that] fa by auto
    then show ?thesis using r None by (simp add: first_match_def)
  next
    case (Some p)
    let ?x = "p + ?st"
    have pp: "unat (s - ?st) \<le> unat p" "unat p \<le> unat (e - ?st)" "bit_at ?arr (unat p) = v"
      using fa Some by auto
    have x: "unat ?x = unat p + unat ?st"
      using pp(2) off[of e] le assms(2,3) unat_less64[of e]
      by (subst unat_plus64) (simp_all add: word_le_nat_alt)
    have xse: "s \<le> ?x" "?x \<le> e"
      using pp x off[of s] off[of e] le assms(2,3) by (simp_all add: word_le_nat_alt)
    have "(y \<in> ba_bits b) \<noteq> v" if y: "s \<le> y" "y < ?x" for y
    proof -
      have "unat (y - ?st) < unat p"
        using y off[of y] x le assms(2) by (simp add: word_le_nat_alt word_less_nat_alt)
      then show ?thesis
        using out[of y] y xse fa Some by auto
    qed
    moreover have "(?x \<in> ba_bits b) = v" using out[OF xse] pp(3) by simp
    ultimately show ?thesis using r Some xse by (auto simp: first_match_def)
  qed
qed

lemma clear_down_ok:
  "start \<le> lim \<Longrightarrow> start \<le> x \<Longrightarrow> unat (bitno - start) < 8 * length arr \<or> bitno \<le> lim \<Longrightarrow>
    length (ba_clear_down start lim bitno arr) = length arr \<and>
    (bit_at (ba_clear_down start lim bitno arr) (unat (x - start))
       \<longleftrightarrow> bit_at arr (unat (x - start)) \<and> \<not> (lim < x \<and> x \<le> bitno))"
proof (induction start lim bitno arr rule: ba_clear_down.induct[case_names step])
  case (step start lim bitno arr)
  show ?case
  proof (cases "lim < bitno")
    case True
    have sb: "start \<le> bitno - 1" "start \<le> bitno"
      using True step(2) by (auto simp: word_le_nat_alt word_less_nat_alt unat_pred[OF True])
    have inb: "unat (bitno - start) < 8 * length arr" using step(4) True by auto
    then have "unat (bitno - 1 - start) < 8 * length arr"
      using sb unat_pred_less[OF True] by (simp add: unat_minus_le)
    then have "length (ba_clear_down start lim bitno arr) = length arr \<and>
      (bit_at (ba_clear_down start lim bitno arr) (unat (x - start)) \<longleftrightarrow>
         bit_at (snd (ext2fs_clear_bit64 (bitno - start) arr)) (unat (x - start)) \<and>
         \<not> (lim < x \<and> x \<le> bitno - 1))"
      using step(1)[OF True step(2,3)] True
      by (subst (1 2) ba_clear_down.simps) simp
    moreover have "x \<le> bitno \<longleftrightarrow> x = bitno \<or> x \<le> bitno - 1"
      using unat_pred[OF True] True
      by (auto simp: word_le_nat_alt word_less_nat_alt word_unat_eq_iff)
    moreover have "unat (x - start) = unat (bitno - start) \<longleftrightarrow> x = bitno"
      using step(3) sb(2) by (rule word_offset_eq)
    ultimately show ?thesis using True by (auto simp: bit_at_clear_bit64[OF inb])
  next
    case False
    then show ?thesis by (subst (1 2) ba_clear_down.simps) auto
  qed
qed

lemma bit_at_take: "k < 8 * n \<Longrightarrow> bit_at (take n arr) k = bit_at arr k"
  by (simp add: bit_at_def less_mult_imp_div_less mult.commute)

lemma bit_at_append: "k < 8 * length arr \<Longrightarrow> bit_at (arr @ ys) k = bit_at arr k"
  by (simp add: bit_at_def nth_append less_mult_imp_div_less mult.commute)

text \<open>
  A resize that succeeds, in one formula: the new array is the old one, with the bits between
  the ends cleared, cut to the new size or extended by zero bytes.
\<close>

lemma ba_resize_array:
  assumes "ba_wf b" "hdr_ok (b\<lparr>gb_end := ne, gb_real_end := nre\<rparr>)"
    and "ba_resize_bmap m b ne nre = (None, b')"
  defines "arr \<equiv> if ne > gb_end b
      then ba_clear_down (gb_start b) (gb_end b) (if gb_real_end b > ne then ne else gb_real_end b)
             (bitarray (gb_private b))
      else bitarray (gb_private b)"
  defines "sz \<equiv> ba_size (gb_start b) (gb_real_end b)" and "nsz \<equiv> ba_size (gb_start b) nre"
  shows "same_hdr b' (b\<lparr>gb_end := ne, gb_real_end := nre\<rparr>) \<and> length arr = sz \<and>
         bitarray (gb_private b') = take nsz arr @ replicate (nsz - sz) 0"
proof -
  have wf: "gb_start b \<le> gb_end b" "length (bitarray (gb_private b)) = sz"
    using assms(1) by (simp_all add: ba_wf_def hdr_ok_def sz_def)
  have "length arr = sz"
  proof (cases "ne > gb_end b")
    case True
    have "unat ((if gb_real_end b > ne then ne else gb_real_end b) - gb_start b)
            < 8 * length (bitarray (gb_private b))"
      using assms(1,2) True by (intro ba_in_array) (auto simp: ba_wf_def hdr_ok_def)
    then show ?thesis
      using clear_down_ok[OF wf(1) wf(1)] wf(2) True by (simp add: arr_def)
  qed (simp add: arr_def wf)
  moreover have "nre = gb_real_end b \<Longrightarrow> nsz = sz" by (simp add: sz_def nsz_def)
  ultimately show ?thesis
    using assms(3)
    by (auto simp: ba_resize_bmap_def Let_def arr_def[symmetric] sz_def[symmetric]
                   nsz_def[symmetric] same_hdr_iff split: if_splits option.splits)
qed

lemma ba_resize_ok:
  assumes "ba_wf b" "hdr_ok (b\<lparr>gb_end := ne, gb_real_end := nre\<rparr>)"
    and "ba_resize_bmap m b ne nre = (None, b')"
  shows "ba_wf b' \<and> same_hdr b' (b\<lparr>gb_end := ne, gb_real_end := nre\<rparr>) \<and>
    (\<forall>x. x \<le> gb_end b \<and> x \<le> ne \<longrightarrow> (x \<in> ba_bits b' \<longleftrightarrow> x \<in> ba_bits b)) \<and>
    (\<forall>x. gb_end b < x \<and> x \<le> ne \<and> x \<le> gb_real_end b \<longrightarrow> x \<notin> ba_bits b')"
proof -
  let ?sz = "ba_size (gb_start b) (gb_real_end b)" and ?nsz = "ba_size (gb_start b) nre"
  let ?top = "if gb_real_end b > ne then ne else gb_real_end b"
  define arr where "arr = (if ne > gb_end b
      then ba_clear_down (gb_start b) (gb_end b) ?top (bitarray (gb_private b))
      else bitarray (gb_private b))"
  note ra = ba_resize_array[OF assms, folded arr_def]
  have h: "gb_start b \<le> gb_end b" "gb_end b \<le> gb_real_end b" "gb_start b \<le> ne" "ne \<le> nre"
      "length (bitarray (gb_private b)) = ?sz"
    using assms(1,2) by (simp_all add: ba_wf_def hdr_ok_def)
  have top: "unat (?top - gb_start b) < 8 * length (bitarray (gb_private b))"
    using assms(1) h by (intro ba_in_array) (auto simp: not_less)
  have arr: "length arr = ?sz \<and> (bit_at arr (unat (x - gb_start b)) \<longleftrightarrow>
      bit_at (bitarray (gb_private b)) (unat (x - gb_start b)) \<and>
      \<not> (gb_end b < x \<and> x \<le> ne \<and> x \<le> gb_real_end b))" if "gb_start b \<le> x" for x
    using clear_down_ok[OF h(1) that disjI1[OF top]] h
    by (auto simp: arr_def not_less)
  then have "length arr = ?sz" by blast
  then have wf': "ba_wf b'"
    using ra assms(2) hdr_ok_same by (auto simp: ba_wf_def same_hdr_iff hdr_ok_def)
  have len': "length (bitarray (gb_private b')) = ?nsz"
    using wf' ra unfolding ba_wf_def same_hdr_iff by simp
  have both: "x \<in> ba_bits b' \<longleftrightarrow> bit_at arr (unat (x - gb_start b))"
    if x: "gb_start b \<le> x" "x \<le> ne" "x \<le> gb_real_end b" for x
  proof -
    have "unat (x - gb_start b) < 8 * ?sz" using ba_in_array[OF assms(1) x(1,3)] h(5) by simp
    moreover have "unat (x - gb_start b) < 8 * ?nsz"
      using ba_in_array[OF wf', of x, unfolded len'] x h(4) ra by (simp add: same_hdr_iff)
    ultimately show ?thesis
      using ra x order_trans[OF x(2) h(4)] \<open>length arr = ?sz\<close>
      by (simp add: ba_bits_def same_hdr_iff bit_at_append bit_at_take)
  qed
  have start: "gb_start b' = gb_start b" using ra by (simp add: same_hdr_iff)
  have "x \<in> ba_bits b' \<longleftrightarrow> x \<in> ba_bits b" if "x \<le> gb_end b" "x \<le> ne" for x
    using that both[of x] arr[of x] h start by (auto simp: ba_bits_def)
  moreover have "x \<notin> ba_bits b'" if "gb_end b < x" "x \<le> ne" "x \<le> gb_real_end b" for x
    using that both[of x] arr[of x] h(1) by auto
  ultimately show ?thesis using wf' ra by blast
qed

interpretation ba: bmap_backend_zero ext2fs_blkmap64_bitarray ba_wf ba_bits
proof (unfold_locales, unfold ext2fs_blkmap64_bitarray_def bitmap_ops.simps option.inject)
  fix b e assume "ba_wf b" "hdr_ok (b\<lparr>gb_end := e\<rparr>)"
  then show "ba_wf (b\<lparr>gb_end := e\<rparr>) \<and> ba_bits (b\<lparr>gb_end := e\<rparr>) = ba_bits b"
    by (simp add: ba_wf_def ba_bits_def)
next
  fix f b s e assume "ba_find_first_set = f" "ba_wf b" "gb_start b \<le> s" "s \<le> e" "e \<le> gb_real_end b"
  then show "first_match (\<lambda>x. x \<in> ba_bits b) s e (f b s e)"
    using ba_find_first_match[of b s e _ True] ba_find_first_set_def by fastforce
next
  fix f b s e assume "ba_find_first_zero = f" "ba_wf b" "gb_start b \<le> s" "s \<le> e" "e \<le> gb_real_end b"
  then show "first_match (\<lambda>x. x \<notin> ba_bits b) s e (f b s e)"
    using ba_find_first_match[of b s e _ False] ba_find_first_zero_def by fastforce
next
  fix b assume "ba_wf b"
  then show "hdr_ok b" "ba_bits b \<subseteq> {gb_start b..gb_real_end b}"
    by (auto simp: ba_wf_def ba_bits_def)
qed (rule ba_new_ok ba_copy_ok ba_mark_ok ba_unmark_ok ba_test_ok ba_mark_extent_ok
       ba_unmark_extent_ok ba_test_clear_ok ba_clear_ok ba_resize_ok; assumption)+

section \<open>Properties\<close>

lemma bit_at_memcpy:
  assumes "p + n \<le> length dst" "n \<le> length src"
  shows "bit_at (memcpy_at dst p src n) k =
         (if 8 * p \<le> k \<and> k < 8 * (p + n) then bit_at src (k - 8 * p) else bit_at dst k)"
proof -
  have at: "memcpy_at dst p src n ! i = (if p \<le> i \<and> i < p + n then src ! (i - p) else dst ! i)" for i
    using assms by (auto simp: memcpy_at_def nth_append nth_append_length)
  have "8 * p \<le> k \<and> k < 8 * (p + n) \<longleftrightarrow> p \<le> k div 8 \<and> k div 8 < p + n" by auto
  moreover have "(k - 8 * p) div 8 = k div 8 - p \<and> (k - 8 * p) mod 8 = k mod 8" if kp: "8 * p \<le> k"
  proof -
    obtain d where "k = 8 * p + d" using le_Suc_ex[OF kp] by blast
    then show ?thesis by simp
  qed
  ultimately show ?thesis by (auto simp: bit_at_def at)
qed

lemma ba_range_facts:
  assumes "ba_wf b" "gb_start b < 8" "unat start = unat (gb_start b) + 8 * j"
    and "unat num + 7 < 2 ^ 64"
  defines "nb \<equiv> (unat num + 7) div 8"
  assumes "nb \<le> length inbuf" "j + nb \<le> length (bitarray (gb_private b))"
  shows "ba_wf (ba_set_bmap_range b start num inbuf)"
    and "gb_start b \<le> x \<Longrightarrow> x \<le> gb_real_end b \<Longrightarrow>
         x \<in> ba_bits (ba_set_bmap_range b start num inbuf) \<longleftrightarrow>
         (if unat start \<le> unat x \<and> unat x < unat start + 8 * nb
          then bit_at inbuf (unat x - unat start) else x \<in> ba_bits b)"
    and "length outbuf = nb \<Longrightarrow>
         ba_get_bmap_range (ba_set_bmap_range b start num inbuf) start num outbuf = take nb inbuf"
proof -
  let ?arr = "bitarray (gb_private b)"
  have p: "unat (drop_bit 3 start) = j"
    using assms(2,3) by (simp add: word_less_nat_alt)
  have n: "unat (drop_bit 3 (num + 7)) = nb"
    using assms(4) unat_plus64[of num 7] by (simp add: nb_def)
  have set_eq: "ba_set_bmap_range b start num inbuf = with_array b (memcpy_at ?arr j inbuf nb)"
    by (simp only: ba_set_bmap_range_def p n)
  have len: "length (memcpy_at ?arr j inbuf nb) = length ?arr"
    using assms(6,7) by (simp add: memcpy_at_def)
  show "ba_wf (ba_set_bmap_range b start num inbuf)"
    using ba_wf_with_array[OF assms(1) len] set_eq by simp
  show "x \<in> ba_bits (ba_set_bmap_range b start num inbuf) \<longleftrightarrow>
         (if unat start \<le> unat x \<and> unat x < unat start + 8 * nb
          then bit_at inbuf (unat x - unat start) else x \<in> ba_bits b)"
    if x: "gb_start b \<le> x" "x \<le> gb_real_end b"
  proof -
    have o: "unat (x - gb_start b) = unat x - unat (gb_start b)" "unat (gb_start b) \<le> unat x"
      using x(1) by (simp_all add: unat_minus_le word_le_nat_alt)
    then have "8 * j \<le> unat (x - gb_start b) \<and> unat (x - gb_start b) < 8 * (j + nb)
                 \<longleftrightarrow> unat start \<le> unat x \<and> unat x < unat start + 8 * nb"
      "unat start \<le> unat x \<Longrightarrow> unat (x - gb_start b) - 8 * j = unat x - unat start"
      using assms(3) by auto
    then show ?thesis
      using x bit_at_memcpy[OF assms(7,6)] by (auto simp: set_eq ba_bits_def)
  qed
  show "ba_get_bmap_range (ba_set_bmap_range b start num inbuf) start num outbuf = take nb inbuf"
    if "length outbuf = nb"
    using that assms(6,7) unfolding ba_get_bmap_range_def p n set_eq
    by (simp add: memcpy_at_def)
qed

text \<open>\<^verbatim>\<open>ba_set_bmap_range\<close> on a bitmap whose first bit is below 8, for a position a multiple of eight bits after the first
  one: the bits of the written bytes become those of the buffer, all others stay, and
  \<^verbatim>\<open>ba_get_bmap_range\<close> reads the same bytes back. (The byte offset is the absolute position divided by 8, so
  the condition on the first bit is needed.)\<close>

theorem ba_range_roundtrip:
  assumes "ba_wf b" "gb_start b < 8" "unat start = unat (gb_start b) + 8 * j"
    and "unat num + 7 < 2 ^ 64"
    and "(unat num + 7) div 8 \<le> length inbuf"
    and "j + (unat num + 7) div 8 \<le> length (bitarray (gb_private b))"
  shows "(let b' = ba_set_bmap_range b start num inbuf; nb = (unat num + 7) div 8 in
          ba_wf b' \<and>
          (\<forall>x. gb_start b \<le> x \<and> x \<le> gb_real_end b \<longrightarrow>
             (x \<in> ba_bits b' \<longleftrightarrow>
              (if unat start \<le> unat x \<and> unat x < unat start + 8 * nb
               then bit_at inbuf (unat x - unat start) else x \<in> ba_bits b))) \<and>
          (\<forall>outbuf. length outbuf = nb \<longrightarrow>
             ba_get_bmap_range b' start num outbuf = take nb inbuf))"
  using ba_range_facts[OF assms] unfolding Let_def by blast

definition ba_demo :: "u8 list \<Rightarrow> u64 \<Rightarrow> u64 \<Rightarrow> ba_private gbitmap" where
  "ba_demo arr e re = \<lparr>gb_magic = Some EXT2_ET_MAGIC_GENERIC_BITMAP64, gb_start = 1, gb_end = e, gb_real_end = re,
     gb_cluster_bits = 0, gb_description = None, gb_base_error_code = EXT2_ET_BAD_GENERIC_MARK,
     gb_private = \<lparr>ba_addr = 0x1000, bitarray = arr\<rparr>\<rparr>"

theorem ba_range_roundtrip_witness:
  "ba_get_bmap_range (ba_set_bmap_range (ba_demo [0, 0, 0] 20 24) 9 11 [0x21, 0x43]) 9 11 [0, 0] = [0x21, 0x43] \<and>
   14 \<in> ba_bits (ba_set_bmap_range (ba_demo [0, 0, 0] 20 24) 9 11 [0x21, 0x43])"
proof -
  let ?b = "ba_demo [0, 0, 0] 20 24"
  have 1: "ba_wf ?b" "gb_start ?b < 8" "unat (9 :: u64) = unat (gb_start ?b) + 8 * 1"
    "unat (11 :: u64) + 7 < 2 ^ 64" "(unat (11 :: u64) + 7) div 8 \<le> length [0x21 :: u8, 0x43]"
    "1 + (unat (11 :: u64) + 7) div 8 \<le> length (bitarray (gb_private ?b))"
    by (simp_all add: ba_demo_def ba_wf_def hdr_ok_def ba_size_eq)
  have "14 \<in> ba_bits (ba_set_bmap_range ?b 9 11 [0x21, 0x43]) \<longleftrightarrow> bit_at [0x21, 0x43] 5"
    using conjunct1[OF conjunct2[OF ba_range_roundtrip[OF 1, unfolded Let_def]], THEN spec[of _ 14]]
    by (simp add: ba_demo_def)
  moreover have "bit_at [0x21, 0x43] 5" by code_simp
  ultimately show ?thesis using conjunct2[OF conjunct2[OF ba_range_roundtrip[OF 1, unfolded Let_def]], THEN spec[of _ "[0, 0]"]] by simp
qed

lemma ba_resize_facts:
  assumes "ba_wf b" "hdr_ok (b\<lparr>gb_end := ne, gb_real_end := nre\<rparr>)"
    and "ba_resize_bmap m b ne nre = (None, b')"
    and "unat (gb_real_end b - gb_start b) mod 8 = 7"
  shows "ba_wf b'" "gb_end b' = ne" "gb_real_end b' = nre"
    and "x \<le> ne \<Longrightarrow> x \<in> ba_bits b' \<longleftrightarrow> x \<in> ba_bits b \<and> x \<le> gb_end b"
proof -
  note ok = ba_resize_ok[OF assms(1-3)] and ra = ba_resize_array[OF assms(1-3)]
  show "ba_wf b'" "gb_end b' = ne" "gb_real_end b' = nre" using ok by (simp_all add: same_hdr_iff)
  have b: "gb_end b \<le> gb_real_end b" "ba_bits b \<subseteq> {gb_start b..gb_real_end b}"
    using assms(1) by (auto simp: ba_wf_def hdr_ok_def ba_bits_def)
  show "x \<in> ba_bits b' \<longleftrightarrow> x \<in> ba_bits b \<and> x \<le> gb_end b" if x: "x \<le> ne"
  proof (cases "x \<le> gb_real_end b")
    case True
    then show ?thesis using ok x by (cases "x \<le> gb_end b") (auto simp: not_le)
  next
    case False
    let ?sz = "ba_size (gb_start b) (gb_real_end b)" and ?nsz = "ba_size (gb_start b) nre"
    have re: "unat (gb_real_end b - gb_start b) = unat (gb_real_end b) - unat (gb_start b)"
        "gb_start b \<le> gb_real_end b" "unat (gb_real_end b - gb_start b) < 2 ^ 63"
      using assms(1) by (auto simp: ba_wf_def hdr_ok_def unat_minus_le)
    have sz: "8 * ?sz = unat (gb_real_end b - gb_start b) + 1"
      using assms(4) ba_size_eq[OF re(3)] by presburger
    have "x \<notin> ba_bits b'"
    proof
      assume m: "x \<in> ba_bits b'"
      then have sx: "gb_start b \<le> x" and bit: "bit_at (bitarray (gb_private b')) (unat (x - gb_start b))"
        using ok by (auto simp: ba_bits_def same_hdr_iff)
      have "unat (gb_real_end b) < unat x" using False by (simp add: word_le_nat_alt)
      then have "8 * ?sz \<le> unat (x - gb_start b)"
        using sz re sx by (simp add: unat_minus_le word_le_nat_alt)
      then have i: "?sz \<le> unat (x - gb_start b) div 8" by linarith
      have "unat (x - gb_start b) < 8 * length (bitarray (gb_private b'))"
        using ba_in_array[of b' x] ok m by (auto simp: ba_bits_def same_hdr_iff)
      then have "unat (x - gb_start b) div 8 < length (bitarray (gb_private b'))" by linarith
      moreover have "length (bitarray (gb_private b')) = ?nsz"
        using ok by (simp add: ba_wf_def same_hdr_iff)
      moreover obtain arr where "length arr = ?sz"
          "bitarray (gb_private b') = take ?nsz arr @ replicate (?nsz - ?sz) 0"
        using ra by blast
      ultimately have "bitarray (gb_private b') ! (unat (x - gb_start b) div 8) = 0"
        using i by (auto simp: nth_append)
      then show False using bit by (simp add: bit_at_def)
    qed
    then show ?thesis using False b by auto
  qed
qed

text \<open>A successful \<^verbatim>\<open>ba_resize_bmap\<close> of a bitmap whose last byte is full: up to the new end exactly the bits that were
  marked up to the old end are marked, so every bit that the new bitmap gains is clear, for growing
  and shrinking ends and arrays.\<close>

theorem ba_resize_exact:
  assumes "ba_wf b" "hdr_ok (b\<lparr>gb_end := ne, gb_real_end := nre\<rparr>)"
    and "ba_resize_bmap m b ne nre = (None, b')"
    and "unat (gb_real_end b - gb_start b) mod 8 = 7"
  shows "ba_wf b' \<and> gb_end b' = ne \<and> gb_real_end b' = nre \<and>
         (\<forall>x. x \<le> ne \<longrightarrow> (x \<in> ba_bits b' \<longleftrightarrow> x \<in> ba_bits b \<and> x \<le> gb_end b))"
  using ba_resize_facts[OF assms] by blast

theorem ba_resize_exact_witness:
  "(\<exists>b'. ba_resize_bmap \<lparr>mem_struct = True, mem_array = Some (0x2000, \<lambda>_. 0xee)\<rparr>
           (ba_demo [0xff, 0xff] 12 16) 20 24 = (None, b') \<and> ba_wf b' \<and> 13 \<notin> ba_bits b')"
proof -
  let ?m = "\<lparr>mem_struct = True, mem_array = Some (0x2000, \<lambda>_. 0xee)\<rparr>" and ?b = "ba_demo [0xff, 0xff] 12 16"
  have 1: "ba_wf ?b" "hdr_ok (?b\<lparr>gb_end := 20, gb_real_end := 24\<rparr>)"
    "unat (gb_real_end ?b - gb_start ?b) mod 8 = 7" "\<not> 13 \<le> gb_end ?b"
    by (simp_all add: ba_demo_def ba_wf_def hdr_ok_def ba_size_eq)
  have "fst (ba_resize_bmap ?m ?b 20 24) = None" by code_simp
  then obtain b' where 2: "ba_resize_bmap ?m ?b 20 24 = (None, b')" by (metis prod.collapse)
  show ?thesis using ba_resize_exact[OF 1(1,2) 2 1(3)] 1(4) 2 by auto
qed

text \<open>C29: Without the condition on the last byte, bits of a larger earlier life of the bitmap come back: bit 7 is marked, the bitmap is cut
  to 3 bits and extended again, and bit 7 is still marked.\<close>

theorem ba_resize_revives_stale_bit:
  "\<exists>b b1 b2 m. ba_wf b \<and> ba_resize_bmap m b 3 3 = (None, b1) \<and> ba_resize_bmap m b1 8 8 = (None, b2) \<and>
     7 \<notin> ba_bits b1 \<and> 7 \<in> ba_bits b2"
proof -
  let ?b = "ba_demo [0x40] 8 8" and ?m = "\<lparr>mem_struct = True, mem_array = None\<rparr>"
  let ?b1 = "ba_demo [0x40] 3 3"
  have "ba_wf ?b" by (simp add: ba_demo_def ba_wf_def hdr_ok_def ba_size_eq)
  moreover have "ba_resize_bmap ?m ?b 3 3 = (None, ?b1)" by code_simp
  moreover have "ba_resize_bmap ?m ?b1 8 8 = (None, ?b)" by code_simp
  moreover have "7 \<notin> ba_bits ?b1" by (simp add: ba_bits_def ba_demo_def)
  moreover have "7 \<in> ba_bits ?b"
  proof -
    have "bit_at [0x40] 6" by code_simp
    then show ?thesis by (simp add: ba_bits_def ba_demo_def)
  qed
  ultimately show ?thesis by blast
qed

end
