(* ===== verification/Gen_Bitmap64.thy ===== *)
theory Gen_Bitmap64
  imports Gen_Bitmap32 Bitarray
begin

text \<open>
  \<^verbatim>\<open>lib/ext2fs/gen_bitmap64.c\<close>: the generic layer of the bitmaps. Every function takes the operation
  table of the backend, where the C structure points to it. A bitmap pointer
  is \<open>None\<close> for \<^verbatim>\<open>NULL\<close>, and otherwise an old 32-bit structure, which is passed on to \<^verbatim>\<open>gen_bitmap.c\<close>, or
  a 64-bit one; the code tells the two apart by the magic number. Block numbers
  are converted to cluster numbers by \<^verbatim>\<open>cluster_bits\<close>.

  The theorems on 64-bit bitmaps are proved in the context of the backend contract and hold for
  every backend that fulfils it; the interpretation of the bit array makes them theorems on
  \<^verbatim>\<open>blkmap64_ba.c\<close>. Warnings and statistics are not modelled.
\<close>

section \<open>Model\<close>

datatype 'p any_bitmap = Bitmap32 gbitmap32 | Bitmap64 "'p gbitmap"

type_synonym 'p bitmap_ptr = "'p any_bitmap option"

datatype bmap_type = BMAP64_BITARRAY | BMAP64_RBTREE

text \<open>
  The choice of the backend; \<^verbatim>\<open>EXT2FS_BMAP64_BITARRAY\<close> is 1, \<^verbatim>\<open>RBTREE\<close> is 2 and \<^verbatim>\<open>AUTODIR\<close> is 3. The number of
  directories is counted by \<^verbatim>\<open>ext2fs_get_num_dirs\<close>, which may fail.
\<close>

definition choose_bmap_ops :: "int \<Rightarrow> errcode + u32 \<Rightarrow> u32 \<Rightarrow> errcode + bmap_type" where
  "choose_bmap_ops type num_dirs s_inodes_count =
     (let type = (if type = 0 then 1 else type)
      in if type = 1 then Inr BMAP64_BITARRAY
         else if type = 2 then Inr BMAP64_RBTREE
         else if type = 3 then
           (case num_dirs of
              Inl _ \<Rightarrow> Inr BMAP64_BITARRAY
            | Inr n \<Rightarrow> if n > s_inodes_count div 320 then Inr BMAP64_BITARRAY
                       else Inr BMAP64_RBTREE)
         else Inl EINVAL)"

text \<open>The memory requests of the generic layer (structure and description) and of the backend.\<close>

record 'm gb_mem =
  gm_struct :: bool
  gm_descr :: bool
  gm_backend :: 'm

definition ext2fs_alloc_generic_bmap ::
  "('p, 'm) bitmap_ops \<Rightarrow> 'm gb_mem \<Rightarrow> nat \<Rightarrow> errcode \<Rightarrow> u64 \<Rightarrow> u64 \<Rightarrow> u64 \<Rightarrow> string option \<Rightarrow>
   errcode + 'p gbitmap" where
  "ext2fs_alloc_generic_bmap ops m cluster_ratio_bits magic start end1 real_end descr =
     (if \<not> gm_struct m then Inl EXT2_ET_NO_MEMORY
      else if descr \<noteq> None \<and> \<not> gm_descr m then Inl EXT2_ET_NO_MEMORY
      else
        let h = \<lparr>gb_magic = Some magic, gb_start = start, gb_end = end1, gb_real_end = real_end,
                 gb_cluster_bits = (if magic = EXT2_ET_MAGIC_BLOCK_BITMAP64 then cluster_ratio_bits else 0),
                 gb_description = descr,
                 gb_base_error_code =
                   (if magic = EXT2_ET_MAGIC_INODE_BITMAP64 then EXT2_ET_BAD_INODE_MARK
                    else if magic = EXT2_ET_MAGIC_BLOCK_BITMAP64 then EXT2_ET_BAD_BLOCK_MARK
                    else EXT2_ET_BAD_GENERIC_MARK)\<rparr>
        in case op_new_bmap ops (gm_backend m) h of
             Inl e \<Rightarrow> Inl e
           | Inr p \<Rightarrow> Inr (with_private h p))"

definition ext2fs_copy_generic_bmap ::
  "('p, 'm) bitmap_ops \<Rightarrow> 'm gb_mem \<Rightarrow> g32_mem \<Rightarrow> 'p bitmap_ptr \<Rightarrow> errcode + 'p any_bitmap" where
  "ext2fs_copy_generic_bmap ops m m32 src =
     (case src of
        None \<Rightarrow> Inl EINVAL
      | Some (Bitmap32 b) \<Rightarrow>
          if EXT2FS_IS_32_BITMAP (g32_magic b)
          then (case ext2fs_copy_generic_bitmap m32 b of Inl e \<Rightarrow> Inl e | Inr c \<Rightarrow> Inr (Bitmap32 c))
          else Inl EINVAL
      | Some (Bitmap64 b) \<Rightarrow>
          if \<not> EXT2FS_IS_64_BITMAP (gb_magic b) then Inl EINVAL
          else if \<not> gm_struct m then Inl EXT2_ET_NO_MEMORY
          else if gb_description b \<noteq> None \<and> \<not> gm_descr m then Inl EXT2_ET_NO_MEMORY
          else
            let h = (bmap_hdr.truncate b)\<lparr>gb_description :=
                       map_option (\<lambda>d. ''copy of '' @ d) (gb_description b)\<rparr>
            in case op_copy_bmap ops (gm_backend m) b h of
                 Inl e \<Rightarrow> Inl e
               | Inr p \<Rightarrow> Inr (Bitmap64 (with_private h p)))"

text \<open>The 64-bit ends are passed to the 32-bit function as they are, that is, truncated.\<close>

definition ext2fs_resize_generic_bmap ::
  "('p, 'm) bitmap_ops \<Rightarrow> 'm \<Rightarrow> (nat \<Rightarrow> u8) option \<Rightarrow> 'p bitmap_ptr \<Rightarrow> u64 \<Rightarrow> u64 \<Rightarrow>
   errcode option \<times> 'p bitmap_ptr" where
  "ext2fs_resize_generic_bmap ops m m32 bmap new_end new_real_end =
     (case bmap of
        None \<Rightarrow> (Some EINVAL, None)
      | Some (Bitmap32 b) \<Rightarrow>
          (case g32_magic b of
             Some magic \<Rightarrow>
               if EXT2FS_IS_32_BITMAP (Some magic)
               then let (r, b') = ext2fs_resize_generic_bitmap m32 magic (ucast new_end)
                                    (ucast new_real_end) b
                    in (r, Some (Bitmap32 b'))
               else (Some EINVAL, bmap)
           | None \<Rightarrow> (Some EINVAL, bmap))
      | Some (Bitmap64 b) \<Rightarrow>
          if \<not> EXT2FS_IS_64_BITMAP (gb_magic b) then (Some EINVAL, bmap)
          else let (r, b') = op_resize_bmap ops m b new_end new_real_end in (r, Some (Bitmap64 b')))"

text \<open>\<^verbatim>\<open>Inr\<close> carries the old end, which the function stores through \<^verbatim>\<open>oend\<close>.\<close>

definition ext2fs_fudge_generic_bmap_end ::
  "'p bitmap_ptr \<Rightarrow> errcode \<Rightarrow> u64 \<Rightarrow> errcode + u64 \<times> 'p any_bitmap" where
  "ext2fs_fudge_generic_bmap_end bitmap neq end1 =
     (case bitmap of
        None \<Rightarrow> Inl EINVAL
      | Some (Bitmap32 b) \<Rightarrow>
          (case g32_magic b of
             Some magic \<Rightarrow>
               if EXT2FS_IS_32_BITMAP (Some magic)
               then (case ext2fs_fudge_generic_bitmap_end b magic neq (ucast end1) of
                       Inl e \<Rightarrow> Inl e
                     | Inr (oend, b') \<Rightarrow> Inr (ucast oend, Bitmap32 b'))
               else Inl EINVAL
           | None \<Rightarrow> Inl EINVAL)
      | Some (Bitmap64 b) \<Rightarrow>
          if \<not> EXT2FS_IS_64_BITMAP (gb_magic b) then Inl EINVAL
          else if end1 > gb_real_end b then Inl neq
          else Inr (gb_end b, Bitmap64 (b\<lparr>gb_end := end1\<rparr>)))"

text \<open>A wrong argument makes the two accessors return the number of \<^verbatim>\<open>EINVAL\<close>, 22.\<close>

definition ext2fs_get_generic_bmap_start :: "'p bitmap_ptr \<Rightarrow> u64" where
  "ext2fs_get_generic_bmap_start bitmap =
     (case bitmap of
        Some (Bitmap32 b) \<Rightarrow> if EXT2FS_IS_32_BITMAP (g32_magic b) then ucast (g32_start b) else 22
      | Some (Bitmap64 b) \<Rightarrow> if EXT2FS_IS_64_BITMAP (gb_magic b) then gb_start b else 22
      | None \<Rightarrow> 22)"

definition ext2fs_get_generic_bmap_end :: "'p bitmap_ptr \<Rightarrow> u64" where
  "ext2fs_get_generic_bmap_end bitmap =
     (case bitmap of
        Some (Bitmap32 b) \<Rightarrow> if EXT2FS_IS_32_BITMAP (g32_magic b) then ucast (g32_end b) else 22
      | Some (Bitmap64 b) \<Rightarrow> if EXT2FS_IS_64_BITMAP (gb_magic b) then gb_end b else 22
      | None \<Rightarrow> 22)"

definition ext2fs_clear_generic_bmap :: "('p, 'm) bitmap_ops \<Rightarrow> 'p any_bitmap \<Rightarrow> 'p any_bitmap" where
  "ext2fs_clear_generic_bmap ops bitmap =
     (case bitmap of
        Bitmap32 b \<Rightarrow> Bitmap32 (g32_clear_generic_bitmap b)
      | Bitmap64 b \<Rightarrow> Bitmap64 (op_clear_bmap ops b))"

definition too_wide :: "u64 \<Rightarrow> bool" where
  "too_wide arg \<longleftrightarrow> arg AND NOT 0xffffffff \<noteq> 0"

definition ext2fs_mark_generic_bmap ::
  "('p, 'm) bitmap_ops \<Rightarrow> 'p bitmap_ptr \<Rightarrow> u64 \<Rightarrow> int \<times> 'p bitmap_ptr" where
  "ext2fs_mark_generic_bmap ops bitmap arg =
     (case bitmap of
        None \<Rightarrow> (0, None)
      | Some (Bitmap32 b) \<Rightarrow>
          if \<not> EXT2FS_IS_32_BITMAP (g32_magic b) \<or> too_wide arg then (0, bitmap)
          else let (r, b') = g32_mark_generic_bitmap b (ucast arg) in (r, Some (Bitmap32 b'))
      | Some (Bitmap64 b) \<Rightarrow>
          if \<not> EXT2FS_IS_64_BITMAP (gb_magic b) then (0, bitmap)
          else
            let arg = drop_bit (gb_cluster_bits b) arg
            in if arg < gb_start b \<or> arg > gb_end b then (0, bitmap)
               else let (r, b') = op_mark_bmap ops b arg in (r, Some (Bitmap64 b')))"

definition ext2fs_unmark_generic_bmap ::
  "('p, 'm) bitmap_ops \<Rightarrow> 'p bitmap_ptr \<Rightarrow> u64 \<Rightarrow> int \<times> 'p bitmap_ptr" where
  "ext2fs_unmark_generic_bmap ops bitmap arg =
     (case bitmap of
        None \<Rightarrow> (0, None)
      | Some (Bitmap32 b) \<Rightarrow>
          if \<not> EXT2FS_IS_32_BITMAP (g32_magic b) \<or> too_wide arg then (0, bitmap)
          else let (r, b') = g32_unmark_generic_bitmap b (ucast arg) in (r, Some (Bitmap32 b'))
      | Some (Bitmap64 b) \<Rightarrow>
          if \<not> EXT2FS_IS_64_BITMAP (gb_magic b) then (0, bitmap)
          else
            let arg = drop_bit (gb_cluster_bits b) arg
            in if arg < gb_start b \<or> arg > gb_end b then (0, bitmap)
               else let (r, b') = op_unmark_bmap ops b arg in (r, Some (Bitmap64 b')))"

definition ext2fs_test_generic_bmap ::
  "('p, 'm) bitmap_ops \<Rightarrow> 'p bitmap_ptr \<Rightarrow> u64 \<Rightarrow> int \<times> 'p bitmap_ptr" where
  "ext2fs_test_generic_bmap ops bitmap arg =
     (case bitmap of
        None \<Rightarrow> (0, None)
      | Some (Bitmap32 b) \<Rightarrow>
          if \<not> EXT2FS_IS_32_BITMAP (g32_magic b) \<or> too_wide arg then (0, bitmap)
          else (g32_test_generic_bitmap b (ucast arg), bitmap)
      | Some (Bitmap64 b) \<Rightarrow>
          if \<not> EXT2FS_IS_64_BITMAP (gb_magic b) then (0, bitmap)
          else
            let arg = drop_bit (gb_cluster_bits b) arg
            in if arg < gb_start b \<or> arg > gb_end b then (0, bitmap)
               else let (r, b') = op_test_bmap ops b arg in (r, Some (Bitmap64 b')))"

definition ext2fs_set_generic_bmap_range ::
  "('p, 'm) bitmap_ops \<Rightarrow> 'p bitmap_ptr \<Rightarrow> u64 \<Rightarrow> u32 \<Rightarrow> u8 list \<Rightarrow> errcode option \<times> 'p bitmap_ptr" where
  "ext2fs_set_generic_bmap_range ops bmap start num inbuf =
     (case bmap of
        None \<Rightarrow> (Some EINVAL, None)
      | Some (Bitmap32 b) \<Rightarrow>
          (case g32_magic b of
             Some magic \<Rightarrow>
               if \<not> EXT2FS_IS_32_BITMAP (Some magic) \<or> too_wide (start + ucast num - 1)
               then (Some EINVAL, bmap)
               else let (r, b') = ext2fs_set_generic_bitmap_range b magic (ucast start) num inbuf
                    in (r, Some (Bitmap32 b'))
           | None \<Rightarrow> (Some EINVAL, bmap))
      | Some (Bitmap64 b) \<Rightarrow>
          if \<not> EXT2FS_IS_64_BITMAP (gb_magic b) then (Some EINVAL, bmap)
          else (None, Some (Bitmap64 (op_set_bmap_range ops b start (ucast num) inbuf))))"

definition ext2fs_get_generic_bmap_range ::
  "('p, 'm) bitmap_ops \<Rightarrow> 'p bitmap_ptr \<Rightarrow> u64 \<Rightarrow> u32 \<Rightarrow> u8 list \<Rightarrow> errcode + u8 list" where
  "ext2fs_get_generic_bmap_range ops bmap start num outbuf =
     (case bmap of
        None \<Rightarrow> Inl EINVAL
      | Some (Bitmap32 b) \<Rightarrow>
          (case g32_magic b of
             Some magic \<Rightarrow>
               if \<not> EXT2FS_IS_32_BITMAP (Some magic) \<or> too_wide (start + ucast num - 1)
               then Inl EINVAL
               else ext2fs_get_generic_bitmap_range b magic (ucast start) num outbuf
           | None \<Rightarrow> Inl EINVAL)
      | Some (Bitmap64 b) \<Rightarrow>
          if \<not> EXT2FS_IS_64_BITMAP (gb_magic b) then Inl EINVAL
          else Inr (op_get_bmap_range ops b start (ucast num) outbuf))"

text \<open>The comparison loop on two 64-bit bitmaps; it passes on the bitmaps, which a test may update.\<close>

partial_function (option) compare_loop ::
  "('p, 'm) bitmap_ops \<Rightarrow> ('q, 'n) bitmap_ops \<Rightarrow> 'p bitmap_ptr \<Rightarrow> 'q bitmap_ptr \<Rightarrow> u64 \<Rightarrow> u64 \<Rightarrow>
   (bool \<times> 'p bitmap_ptr \<times> 'q bitmap_ptr) option" where [code]:
  "compare_loop ops1 ops2 bm1 bm2 i e =
     (if i \<le> e
      then let (r1, bm1') = ext2fs_test_generic_bmap ops1 bm1 i;
               (r2, bm2') = ext2fs_test_generic_bmap ops2 bm2 i
           in if r1 \<noteq> r2 then Some (False, bm1', bm2')
              else compare_loop ops1 ops2 bm1' bm2' (i + 1) e
      else Some (True, bm1, bm2))"

definition ext2fs_compare_generic_bmap ::
  "('p, 'm) bitmap_ops \<Rightarrow> ('q, 'n) bitmap_ops \<Rightarrow> errcode \<Rightarrow> 'p bitmap_ptr \<Rightarrow> 'q bitmap_ptr \<Rightarrow>
   (errcode option \<times> 'p bitmap_ptr \<times> 'q bitmap_ptr) option" where
  "ext2fs_compare_generic_bmap ops1 ops2 neq bm1 bm2 =
     (case (bm1, bm2) of
        (Some (Bitmap32 b1), Some (Bitmap32 b2)) \<Rightarrow>
          if g32_magic b1 \<noteq> g32_magic b2 then Some (Some EINVAL, bm1, bm2)
          else (case g32_magic b1 of
                  Some magic \<Rightarrow>
                    if EXT2FS_IS_32_BITMAP (Some magic)
                    then map_option (\<lambda>r. (r, bm1, bm2)) (ext2fs_compare_generic_bitmap magic neq b1 b2)
                    else Some (Some EINVAL, bm1, bm2)
                | None \<Rightarrow> Some (Some EINVAL, bm1, bm2))
      | (Some (Bitmap64 b1), Some (Bitmap64 b2)) \<Rightarrow>
          if gb_magic b1 \<noteq> gb_magic b2 then Some (Some EINVAL, bm1, bm2)
          else if \<not> EXT2FS_IS_64_BITMAP (gb_magic b1) then Some (Some EINVAL, bm1, bm2)
          else if gb_start b1 \<noteq> gb_start b2 \<or> gb_end b1 \<noteq> gb_end b2 then Some (Some neq, bm1, bm2)
          else map_option (\<lambda>(eq, bm1', bm2'). (if eq then None else Some neq, bm1', bm2'))
                 (compare_loop ops1 ops2 bm1 bm2
                    (gb_end b1 - (gb_end b1 - gb_start b1) mod 8) (gb_end b1))
      | _ \<Rightarrow> Some (Some EINVAL, bm1, bm2))"

text \<open>The number of padding bits is passed as an \<^verbatim>\<open>unsigned int\<close>.\<close>

definition ext2fs_set_generic_bmap_padding :: "('p, 'm) bitmap_ops \<Rightarrow> 'p any_bitmap \<Rightarrow> 'p any_bitmap" where
  "ext2fs_set_generic_bmap_padding ops bmap =
     (case bmap of
        Bitmap32 b \<Rightarrow> Bitmap32 (ext2fs_set_generic_bitmap_padding b)
      | Bitmap64 b \<Rightarrow>
          Bitmap64 (op_mark_bmap_extent ops b (gb_end b + 1) (ucast (gb_real_end b - gb_end b))))"

text \<open>Block range to cluster range: first cluster and number of clusters.\<close>

definition cluster_range :: "nat \<Rightarrow> u64 \<Rightarrow> u32 \<Rightarrow> u64 \<times> u32" where
  "cluster_range cluster_bits block num =
     (let end1 = block + ucast num;
          block' = drop_bit cluster_bits block;
          end2 = end1 + (push_bit cluster_bits 1 - 1);
          end3 = drop_bit cluster_bits end2
      in (block', ucast (end3 - block')))"

definition ext2fs_test_block_bitmap_range2 ::
  "('p, 'm) bitmap_ops \<Rightarrow> 'p bitmap_ptr \<Rightarrow> u64 \<Rightarrow> u32 \<Rightarrow> (errcode + bool) \<times> 'p bitmap_ptr" where
  "ext2fs_test_block_bitmap_range2 ops bmap block num =
     (case bmap of
        None \<Rightarrow> (Inl EINVAL, bmap)
      | Some bm \<Rightarrow>
          if num = 1 then
            let (r, bmap') = ext2fs_test_generic_bmap ops bmap block in (Inr (r = 0), bmap')
          else
            case bm of
              Bitmap32 b \<Rightarrow>
                if \<not> EXT2FS_IS_32_BITMAP (g32_magic b) \<or> too_wide (block + ucast num - 1)
                then (Inl EINVAL, bmap)
                else (ext2fs_test_block_bitmap_range b (ucast block) num, bmap)
            | Bitmap64 b \<Rightarrow>
                if \<not> EXT2FS_IS_64_BITMAP (gb_magic b) then (Inl EINVAL, bmap)
                else
                  let (block, num) = cluster_range (gb_cluster_bits b) block num
                  in if block < gb_start b \<or> block + ucast num - 1 > gb_end b then (Inl EINVAL, bmap)
                     else (Inr (op_test_clear_bmap_extent ops b block num), bmap))"

definition ext2fs_mark_block_bitmap_range2 ::
  "('p, 'm) bitmap_ops \<Rightarrow> 'p bitmap_ptr \<Rightarrow> u64 \<Rightarrow> u32 \<Rightarrow> 'p bitmap_ptr" where
  "ext2fs_mark_block_bitmap_range2 ops bmap block num =
     (case bmap of
        None \<Rightarrow> None
      | Some (Bitmap32 b) \<Rightarrow>
          if \<not> EXT2FS_IS_32_BITMAP (g32_magic b) \<or> too_wide (block + ucast num - 1) then bmap
          else Some (Bitmap32 (ext2fs_mark_block_bitmap_range b (ucast block) num))
      | Some (Bitmap64 b) \<Rightarrow>
          if \<not> EXT2FS_IS_64_BITMAP (gb_magic b) then bmap
          else
            let (block, num) = cluster_range (gb_cluster_bits b) block num
            in if block < gb_start b \<or> block + ucast num - 1 > gb_end b then bmap
               else Some (Bitmap64 (op_mark_bmap_extent ops b block num)))"

definition ext2fs_unmark_block_bitmap_range2 ::
  "('p, 'm) bitmap_ops \<Rightarrow> 'p bitmap_ptr \<Rightarrow> u64 \<Rightarrow> u32 \<Rightarrow> 'p bitmap_ptr" where
  "ext2fs_unmark_block_bitmap_range2 ops bmap block num =
     (case bmap of
        None \<Rightarrow> None
      | Some (Bitmap32 b) \<Rightarrow>
          if \<not> EXT2FS_IS_32_BITMAP (g32_magic b) \<or> too_wide (block + ucast num - 1) then bmap
          else Some (Bitmap32 (ext2fs_unmark_block_bitmap_range b (ucast block) num))
      | Some (Bitmap64 b) \<Rightarrow>
          if \<not> EXT2FS_IS_64_BITMAP (gb_magic b) then bmap
          else
            let (block, num) = cluster_range (gb_cluster_bits b) block num
            in if block < gb_start b \<or> block + ucast num - 1 > gb_end b then bmap
               else Some (Bitmap64 (op_unmark_bmap_extent ops b block num)))"

text \<open>
  The two searches. Without a search operation the backend's test is applied bit by bit; the
  outer \<open>None\<close> is a loop that does not return.
\<close>

definition find_found :: "nat \<Rightarrow> u64 \<Rightarrow> errcode + u64 \<Rightarrow> errcode + u64" where
  "find_found cluster_bits start r =
     (case r of
        Inl e \<Rightarrow> Inl e
      | Inr cout \<Rightarrow> let cout = push_bit cluster_bits cout in Inr (if cout \<ge> start then cout else start))"

definition ext2fs_find_first_zero_generic_bmap ::
  "('p, 'm) bitmap_ops \<Rightarrow> 'p bitmap_ptr \<Rightarrow> u64 \<Rightarrow> u64 \<Rightarrow> (errcode + u64) option" where
  "ext2fs_find_first_zero_generic_bmap ops bitmap start end1 =
     (case bitmap of
        None \<Rightarrow> Some (Inl EINVAL)
      | Some (Bitmap32 b) \<Rightarrow>
          if \<not> EXT2FS_IS_32_BITMAP (g32_magic b) \<or> too_wide start \<or> too_wide end1 then Some (Inl EINVAL)
          else map_option (map_sum id ucast)
                 (ext2fs_find_first_zero_generic_bitmap b (ucast start) (ucast end1))
      | Some (Bitmap64 b) \<Rightarrow>
          if \<not> EXT2FS_IS_64_BITMAP (gb_magic b) then Some (Inl EINVAL)
          else
            let cstart = drop_bit (gb_cluster_bits b) start;
                cend = drop_bit (gb_cluster_bits b) end1
            in if cstart < gb_start b \<or> cend > gb_end b \<or> start > end1 then Some (Inl EINVAL)
               else map_option (find_found (gb_cluster_bits b) start)
                      (case op_find_first_zero ops of
                         Some f \<Rightarrow> Some (f b cstart cend)
                       | None \<Rightarrow> map_option (case_option (Inl ENOENT) Inr)
                                   (scan_up (\<lambda>c. fst (op_test_bmap ops b c) = 0) cstart cend)))"

definition ext2fs_find_first_set_generic_bmap ::
  "('p, 'm) bitmap_ops \<Rightarrow> 'p bitmap_ptr \<Rightarrow> u64 \<Rightarrow> u64 \<Rightarrow> (errcode + u64) option" where
  "ext2fs_find_first_set_generic_bmap ops bitmap start end1 =
     (case bitmap of
        None \<Rightarrow> Some (Inl EINVAL)
      | Some (Bitmap32 b) \<Rightarrow>
          if \<not> EXT2FS_IS_32_BITMAP (g32_magic b) \<or> too_wide start \<or> too_wide end1 then Some (Inl EINVAL)
          else map_option (map_sum id ucast)
                 (ext2fs_find_first_set_generic_bitmap b (ucast start) (ucast end1))
      | Some (Bitmap64 b) \<Rightarrow>
          if \<not> EXT2FS_IS_64_BITMAP (gb_magic b) then Some (Inl EINVAL)
          else
            let cstart = drop_bit (gb_cluster_bits b) start;
                cend = drop_bit (gb_cluster_bits b) end1
            in if cstart < gb_start b \<or> cend > gb_end b \<or> start > end1 then Some (Inl EINVAL)
               else map_option (find_found (gb_cluster_bits b) start)
                      (case op_find_first_set ops of
                         Some f \<Rightarrow> Some (f b cstart cend)
                       | None \<Rightarrow> map_option (case_option (Inl ENOENT) Inr)
                                   (scan_up (\<lambda>c. fst (op_test_bmap ops b c) \<noteq> 0) cstart cend)))"

text \<open>The old interface, which forwards a 64-bit bitmap to the functions above.\<close>

definition ext2fs_test_generic_bitmap ::
  "('p, 'm) bitmap_ops \<Rightarrow> 'p any_bitmap \<Rightarrow> u32 \<Rightarrow> int \<times> 'p any_bitmap" where
  "ext2fs_test_generic_bitmap ops bitmap bitno =
     (case bitmap of
        Bitmap32 b \<Rightarrow> (g32_test_generic_bitmap b bitno, bitmap)
      | Bitmap64 b \<Rightarrow> let (r, bm) = ext2fs_test_generic_bmap ops (Some bitmap) (ucast bitno) in (r, the bm))"

definition ext2fs_mark_generic_bitmap ::
  "('p, 'm) bitmap_ops \<Rightarrow> 'p any_bitmap \<Rightarrow> u32 \<Rightarrow> int \<times> 'p any_bitmap" where
  "ext2fs_mark_generic_bitmap ops bitmap bitno =
     (case bitmap of
        Bitmap32 b \<Rightarrow> let (r, b') = g32_mark_generic_bitmap b bitno in (r, Bitmap32 b')
      | Bitmap64 b \<Rightarrow> let (r, bm) = ext2fs_mark_generic_bmap ops (Some bitmap) (ucast bitno) in (r, the bm))"

definition ext2fs_unmark_generic_bitmap ::
  "('p, 'm) bitmap_ops \<Rightarrow> 'p any_bitmap \<Rightarrow> u32 \<Rightarrow> int \<times> 'p any_bitmap" where
  "ext2fs_unmark_generic_bitmap ops bitmap bitno =
     (case bitmap of
        Bitmap32 b \<Rightarrow> let (r, b') = g32_unmark_generic_bitmap b bitno in (r, Bitmap32 b')
      | Bitmap64 b \<Rightarrow> let (r, bm) = ext2fs_unmark_generic_bmap ops (Some bitmap) (ucast bitno) in (r, the bm))"

definition ext2fs_get_generic_bitmap_start :: "'p any_bitmap \<Rightarrow> u32" where
  "ext2fs_get_generic_bitmap_start bitmap =
     (case bitmap of
        Bitmap32 b \<Rightarrow> if EXT2FS_IS_32_BITMAP (g32_magic b) then g32_start b else 0
      | Bitmap64 b \<Rightarrow> if EXT2FS_IS_64_BITMAP (gb_magic b)
                      then ucast (ext2fs_get_generic_bmap_start (Some bitmap)) else 0)"

definition ext2fs_get_generic_bitmap_end :: "'p any_bitmap \<Rightarrow> u32" where
  "ext2fs_get_generic_bitmap_end bitmap =
     (case bitmap of
        Bitmap32 b \<Rightarrow> if EXT2FS_IS_32_BITMAP (g32_magic b) then g32_end b else 0
      | Bitmap64 b \<Rightarrow> if EXT2FS_IS_64_BITMAP (gb_magic b)
                      then ucast (ext2fs_get_generic_bmap_end (Some bitmap)) else 0)"

definition ext2fs_clear_generic_bitmap :: "('p, 'm) bitmap_ops \<Rightarrow> 'p any_bitmap \<Rightarrow> 'p any_bitmap" where
  "ext2fs_clear_generic_bitmap ops bitmap =
     (case bitmap of
        Bitmap32 b \<Rightarrow> Bitmap32 (g32_clear_generic_bitmap b)
      | Bitmap64 b \<Rightarrow> if EXT2FS_IS_64_BITMAP (gb_magic b) then ext2fs_clear_generic_bmap ops bitmap
                      else bitmap)"

section \<open>Histories of a bitmap\<close>

text \<open>
  The operations that change the marked blocks, as commands, and what they mean: a bitmap is the set of its
  marked clusters between its first and last one. A range is applied as a whole or, if one of its clusters is
  outside the bitmap, not at all.
\<close>

datatype bmap_cmd = Mark u64 | Unmark u64 | Test u64 | MarkRange u64 u32 | UnmarkRange u64 u32 | Clear

fun run_cmd :: "('p, 'm) bitmap_ops \<Rightarrow> bmap_cmd \<Rightarrow> 'p bitmap_ptr \<Rightarrow> 'p bitmap_ptr" where
  "run_cmd ops (Mark x) bm = snd (ext2fs_mark_generic_bmap ops bm x)"
| "run_cmd ops (Unmark x) bm = snd (ext2fs_unmark_generic_bmap ops bm x)"
| "run_cmd ops (Test x) bm = snd (ext2fs_test_generic_bmap ops bm x)"
| "run_cmd ops (MarkRange x n) bm = ext2fs_mark_block_bitmap_range2 ops bm x n"
| "run_cmd ops (UnmarkRange x n) bm = ext2fs_unmark_block_bitmap_range2 ops bm x n"
| "run_cmd ops Clear bm = map_option (ext2fs_clear_generic_bmap ops) bm"

fun cmd_ok :: "nat \<Rightarrow> bmap_cmd \<Rightarrow> bool" where
  "cmd_ok cb (MarkRange x n) \<longleftrightarrow> n \<noteq> 0 \<and> unat x + unat n + 2 ^ cb \<le> 2 ^ 64"
| "cmd_ok cb (UnmarkRange x n) \<longleftrightarrow> n \<noteq> 0 \<and> unat x + unat n + 2 ^ cb \<le> 2 ^ 64"
| "cmd_ok cb _ \<longleftrightarrow> True"

definition cluster_set :: "nat \<Rightarrow> u64 \<Rightarrow> u32 \<Rightarrow> u64 set" where
  "cluster_set cb x n = {drop_bit cb x..drop_bit cb (x + ucast n - 1)}"

fun spec_cmd :: "nat \<Rightarrow> u64 \<Rightarrow> u64 \<Rightarrow> bmap_cmd \<Rightarrow> u64 set \<Rightarrow> u64 set" where
  "spec_cmd cb s e (Mark x) S = S \<union> ({drop_bit cb x} \<inter> {s..e})"
| "spec_cmd cb s e (Unmark x) S = S - {drop_bit cb x}"
| "spec_cmd cb s e (Test x) S = S"
| "spec_cmd cb s e (MarkRange x n) S =
     (if cluster_set cb x n \<subseteq> {s..e} then S \<union> cluster_set cb x n else S)"
| "spec_cmd cb s e (UnmarkRange x n) S =
     (if cluster_set cb x n \<subseteq> {s..e} then S - cluster_set cb x n else S)"
| "spec_cmd cb s e Clear S = {}"

lemma cluster_range_facts:
  assumes "cluster_range cb x n = (c, k)" "n \<noteq> 0" "unat x + unat n + 2 ^ cb \<le> 2 ^ 64" "cb < 64"
  shows "c = drop_bit cb x" "unat k \<noteq> 0" "unat c + unat k < 2 ^ 64"
    "unat (drop_bit cb (x + ucast n - 1)) + 1 = unat c + unat k"
    "c + ucast k - 1 = drop_bit cb (x + ucast n - 1)"
proof -
  let ?e = "x + ucast n :: u64" and ?r = "push_bit cb 1 - 1 :: u64"
  define B :: nat where "B = 2 ^ cb"
  have B: "1 \<le> B" by (simp add: B_def)
  have fits: "unat x + unat n + B \<le> 2 ^ 64" using assms(3) by (simp add: B_def)
  have n0: "0 < unat n" using assms(2) by (simp add: unat_gt_0)
  have e: "unat ?e = unat x + unat n" using fits B by (subst unat_plus64) simp_all
  have p: "unat (push_bit cb 1 :: u64) = B"
    using unat_exp64[OF assms(4)] by (simp add: B_def)
  have "1 \<le> (push_bit cb 1 :: u64)" using p B by (simp add: word_le_nat_alt del: push_bit_of_1)
  then have r: "unat ?r = B - 1" using p by (simp add: unat_minus_le del: push_bit_of_1)
  have er: "unat (?e + ?r) = unat x + unat n + (B - 1)"
    using unat_plus64[of ?e ?r] fits B e r by linarith
  have top: "unat (?e - 1) = unat x + unat n - 1"
    using e n0 by (subst unat_minus_nat) simp_all
  define q where "q = (unat x + unat n - 1) div B"
  have up: "unat x + unat n + (B - 1) = unat x + unat n - 1 + B" using n0 B by simp
  have "unat (drop_bit cb (?e + ?r)) = (unat x + unat n - 1 + B) div B"
    unfolding unat_drop_bit er up B_def[symmetric] ..
  then have q1: "unat (drop_bit cb (?e + ?r)) = q + 1"
    using B div_add_self2[of B "unat x + unat n - 1"] by (simp add: q_def)
  have q0: "unat (drop_bit cb (?e - 1)) = q" by (simp add: unat_drop_bit top q_def B_def)
  show c: "c = drop_bit cb x" using assms(1) by (simp add: cluster_range_def Let_def)
  have cx: "unat c = unat x div B" by (simp add: c unat_drop_bit B_def)
  then have cq: "unat c \<le> q" unfolding q_def by (simp, intro div_le_mono) (use n0 in simp)
  have "q \<le> (unat x + (unat n - 1) * B) div B"
    unfolding q_def using n0 B by (intro div_le_mono) (cases B, simp_all)
  then have qn: "q + 1 - unat c \<le> unat n" using n0 B cx by simp
  have k: "k = ucast (drop_bit cb (?e + ?r) - c)"
    using assms(1) c by (simp add: cluster_range_def Let_def)
  have d: "unat (drop_bit cb (?e + ?r) - c) = q + 1 - unat c"
    using q1 cq by (subst unat_minus_nat) simp_all
  then have uk: "unat k = q + 1 - unat c"
    using qn unat_less32[of n] unfolding k by (simp add: unsigned_ucast_eq take_bit_nat_eq_self)
  then show "unat k \<noteq> 0" using cq by simp
  show sum: "unat (drop_bit cb (x + ucast n - 1)) + 1 = unat c + unat k" using uk cq q0 by simp
  have "q + 1 < 2 ^ 64"
  proof -
    have "q \<le> unat x + unat n - 1" by (simp add: q_def)
    then show ?thesis using fits B n0 by linarith
  qed
  then show lt: "unat c + unat k < 2 ^ 64" using uk cq by simp
  have "unat (c + ucast k) = q + 1" using lt uk cq by (subst unat_plus64) simp_all
  then have "unat (c + ucast k - 1) = q" by (subst unat_minus_nat) simp_all
  then show "c + ucast k - 1 = drop_bit cb (x + ucast n - 1)" using q0 by (simp add: word_unat_eq_iff)
qed

lemma cluster_range_set:
  assumes "cluster_range cb x n = (c, k)" "n \<noteq> 0" "unat x + unat n + 2 ^ cb \<le> 2 ^ 64" "cb < 64"
  shows "bmap_span c (unat k) = cluster_set cb x n"
    and "cluster_set cb x n \<subseteq> {s..e} \<longleftrightarrow> \<not> (c < s \<or> c + ucast k - 1 > e)"
proof -
  note f = cluster_range_facts[OF assms]
  show "bmap_span c (unat k) = cluster_set cb x n"
    using f by (auto simp: bmap_span_def cluster_set_def word_le_nat_alt f(1)[symmetric])
  have "drop_bit cb x \<le> drop_bit cb (x + ucast n - 1)"
    using f(1,2,4) by (simp add: word_le_nat_alt)
  then show "cluster_set cb x n \<subseteq> {s..e} \<longleftrightarrow> \<not> (c < s \<or> c + ucast k - 1 > e)"
    using f(5) by (auto simp: cluster_set_def f(1)[symmetric] not_less)
qed

lemma shifted_less:
  fixes y :: u64
  assumes "cb < 64" "drop_bit cb y = c" "y' \<le> y"
  shows "drop_bit cb y' \<le> c"
  unfolding assms(2)[symmetric] word_le_nat_alt unat_drop_bit
  using assms(3) by (intro div_le_mono) (simp add: word_le_nat_alt)

lemma found_block:
  assumes cb: "cb < 64" and se: "s \<le> e"
    and m: "first_match (\<lambda>c. Q c) (drop_bit cb s) (drop_bit cb e) r"
  shows "first_match (\<lambda>x. Q (drop_bit cb x)) s e (find_found cb s r)"
proof (cases r)
  case (Inl err)
  then have "\<not> Q (drop_bit cb y)" if "s \<le> y" "y \<le> e" for y
    using m that shifted_less[OF cb refl that(1)] shifted_less[OF cb refl that(2)]
    by (auto simp: first_match_def)
  then show ?thesis using Inl m by (simp add: first_match_def find_found_def)
next
  case (Inr c)
  define B :: nat where "B = 2 ^ cb"
  have B: "0 < B" by (simp add: B_def)
  have c: "drop_bit cb s \<le> c" "c \<le> drop_bit cb e" "Q c"
    and before: "\<And>y. drop_bit cb s \<le> y \<Longrightarrow> y < c \<Longrightarrow> \<not> Q y"
    using m Inr by (auto simp: first_match_def)
  have ce: "unat c \<le> unat e div B" "unat s div B \<le> unat c"
    using c(1,2) by (simp_all add: word_le_nat_alt unat_drop_bit B_def)
  have "unat c * B \<le> unat e div B * B" using ce(1) by (rule mult_le_mono1)
  also have "\<dots> \<le> unat e" by simp
  finally have le: "unat c * B \<le> unat e" .
  have "push_bit cb c = c * 2 ^ cb" by (rule push_bit_eq_mult)
  moreover have "unat (2 ^ cb :: u64) = B" using unat_exp64[OF cb] by (simp add: B_def)
  ultimately have pb: "unat (push_bit cb c) = unat c * B"
    using le unat_less64[of e] unat_mult64[of c "2 ^ cb"] by simp
  let ?x = "if push_bit cb c \<ge> s then push_bit cb c else s"
  have ux: "unat ?x = max (unat c * B) (unat s)"
    using pb by (auto simp: word_le_nat_alt max_def)
  have s_lt: "unat s < (unat s div B + 1) * B"
    using B by (metis Suc_eq_plus1 dividend_less_div_times mult.commute mult_Suc_right add.commute)
  have dx: "drop_bit cb ?x = c"
  proof -
    have "unat ?x div B = unat c"
    proof (cases "unat s \<le> unat c * B")
      case True
      then show ?thesis using ux B by (simp add: max_def)
    next
      case False
      then have "unat c \<le> unat s div B" using B by (metis div_le_mono nat_le_linear nonzero_mult_div_cancel_right not_gr0)
      then show ?thesis using False ce(2) ux by (simp add: max_def)
    qed
    then show ?thesis by (simp add: word_unat_eq_iff unat_drop_bit B_def)
  qed
  have "s \<le> ?x" "?x \<le> e" using ux le se by (auto simp: word_le_nat_alt)
  moreover have "\<not> Q (drop_bit cb y)" if y: "s \<le> y" "y < ?x" for y
  proof (rule before)
    show "drop_bit cb s \<le> drop_bit cb y" by (rule shifted_less[OF cb refl y(1)])
    have "unat y < unat c * B"
      using y ux by (auto simp: word_le_nat_alt word_less_nat_alt)
    then have "unat y div B < unat c" using B by (simp add: div_less_iff_less_mult)
    then show "drop_bit cb y < c" by (simp add: word_less_nat_alt unat_drop_bit B_def)
  qed
  ultimately show ?thesis
    using Inr c(3) dx by (auto simp: first_match_def find_found_def Let_def)
qed

context bmap_backend
begin

abbreviation clusters :: "'p gbitmap \<Rightarrow> u64 set" where
  "clusters b \<equiv> bits b \<inter> {gb_start b..gb_end b}"

abbreviation good :: "'p gbitmap \<Rightarrow> bool" where
  "good b \<equiv> wf b \<and> EXT2FS_IS_64_BITMAP (gb_magic b) \<and> gb_cluster_bits b < 64"

lemma good_same: "good b \<Longrightarrow> wf b' \<Longrightarrow> same_hdr b' b \<Longrightarrow> good b'"
  by (simp add: same_hdr_iff)

lemma end_le_real: "good b \<Longrightarrow> x \<le> gb_end b \<Longrightarrow> x \<le> gb_real_end b"
  using wf_hdr[of b] by (auto simp: hdr_ok_def)

lemma mark_generic:
  assumes "good b" "ext2fs_mark_generic_bmap ops (Some (Bitmap64 b)) x = (r, bm)"
  defines "c \<equiv> drop_bit (gb_cluster_bits b) x"
  obtains b' where "bm = Some (Bitmap64 b')" "good b'" "same_hdr b' b"
    "clusters b' = clusters b \<union> ({c} \<inter> {gb_start b..gb_end b})" "r \<noteq> 0 \<longleftrightarrow> c \<in> clusters b"
proof (cases "gb_start b \<le> c \<and> c \<le> gb_end b")
  case True
  obtain r' b' where m: "op_mark_bmap ops b c = (r', b')" by (cases "op_mark_bmap ops b c")
  have re: "c \<le> gb_real_end b" using end_le_real[OF assms(1)] True by blast
  have ok: "wf b' \<and> same_hdr b' b \<and> bits b' = insert c (bits b) \<and> (r' \<noteq> 0 \<longleftrightarrow> c \<in> bits b)"
    using mark_ok[OF _ _ re m] assms(1) True by (simp add:)
  have "r = r' \<and> bm = Some (Bitmap64 b')"
    using assms(1,2) True m leD[of _ c] leD[of c]
    by (simp add: ext2fs_mark_generic_bmap_def c_def[symmetric] split: if_splits)
  then show ?thesis
    using that[of b'] ok good_same[OF assms(1)] True by (auto simp: same_hdr_iff)
next
  case False
  then have "r = 0 \<and> bm = Some (Bitmap64 b)"
    using assms(1,2) by (auto simp: ext2fs_mark_generic_bmap_def c_def[symmetric] not_le)
  then show ?thesis using that[of b] assms(1) False by auto
qed

lemma unmark_generic:
  assumes "good b" "ext2fs_unmark_generic_bmap ops (Some (Bitmap64 b)) x = (r, bm)"
  defines "c \<equiv> drop_bit (gb_cluster_bits b) x"
  obtains b' where "bm = Some (Bitmap64 b')" "good b'" "same_hdr b' b"
    "clusters b' = clusters b - {c}" "r \<noteq> 0 \<longleftrightarrow> c \<in> clusters b"
proof (cases "gb_start b \<le> c \<and> c \<le> gb_end b")
  case True
  obtain r' b' where m: "op_unmark_bmap ops b c = (r', b')" by (cases "op_unmark_bmap ops b c")
  have re: "c \<le> gb_real_end b" using end_le_real[OF assms(1)] True by blast
  have ok: "wf b' \<and> same_hdr b' b \<and> bits b' = bits b - {c} \<and> (r' \<noteq> 0 \<longleftrightarrow> c \<in> bits b)"
    using unmark_ok[OF _ _ re m] assms(1) True by (simp add:)
  have "r = r' \<and> bm = Some (Bitmap64 b')"
    using assms(1,2) True m leD[of _ c] leD[of c]
    by (simp add: ext2fs_unmark_generic_bmap_def c_def[symmetric] split: if_splits)
  then show ?thesis
    using that[of b'] ok good_same[OF assms(1)] True by (auto simp: same_hdr_iff)
next
  case False
  then have "r = 0 \<and> bm = Some (Bitmap64 b)"
    using assms(1,2) by (auto simp: ext2fs_unmark_generic_bmap_def c_def[symmetric] not_le)
  then show ?thesis using that[of b] assms(1) False by auto
qed

lemma test_generic:
  assumes "good b" "ext2fs_test_generic_bmap ops (Some (Bitmap64 b)) x = (r, bm)"
  defines "c \<equiv> drop_bit (gb_cluster_bits b) x"
  obtains b' where "bm = Some (Bitmap64 b')" "good b'" "same_hdr b' b"
    "clusters b' = clusters b" "r \<noteq> 0 \<longleftrightarrow> c \<in> clusters b"
proof (cases "gb_start b \<le> c \<and> c \<le> gb_end b")
  case True
  obtain r' b' where m: "op_test_bmap ops b c = (r', b')" by (cases "op_test_bmap ops b c")
  have re: "c \<le> gb_real_end b" using end_le_real[OF assms(1)] True by blast
  have ok: "wf b' \<and> same_hdr b' b \<and> bits b' = bits b \<and> (r' \<noteq> 0 \<longleftrightarrow> c \<in> bits b)"
    using test_ok[OF _ _ re m] assms(1) True by (simp add:)
  have "r = r' \<and> bm = Some (Bitmap64 b')"
    using assms(1,2) True m leD[of _ c] leD[of c]
    by (simp add: ext2fs_test_generic_bmap_def c_def[symmetric] split: if_splits)
  then show ?thesis
    using that[of b'] ok good_same[OF assms(1)] True by (auto simp: same_hdr_iff)
next
  case False
  then have "r = 0 \<and> bm = Some (Bitmap64 b)"
    using assms(1,2) by (auto simp: ext2fs_test_generic_bmap_def c_def[symmetric] not_le)
  then show ?thesis using that[of b] assms(1) False by auto
qed

lemma mark_range_generic:
  assumes "good b" "cmd_ok (gb_cluster_bits b) (MarkRange x n)"
  obtains b' where "ext2fs_mark_block_bitmap_range2 ops (Some (Bitmap64 b)) x n = Some (Bitmap64 b')"
    "good b'" "same_hdr b' b"
    "clusters b' = spec_cmd (gb_cluster_bits b) (gb_start b) (gb_end b) (MarkRange x n) (clusters b)"
proof -
  obtain c k where ck: "cluster_range (gb_cluster_bits b) x n = (c, k)" by (cases "cluster_range (gb_cluster_bits b) x n")
  have pre: "n \<noteq> 0" "unat x + unat n + 2 ^ gb_cluster_bits b \<le> 2 ^ 64" "gb_cluster_bits b < 64"
    using assms by simp_all
  note f = cluster_range_facts[OF ck pre] and cs = cluster_range_set[OF ck pre]
  show ?thesis
  proof (cases "cluster_set (gb_cluster_bits b) x n \<subseteq> {gb_start b..gb_end b}")
    case True
    then have g: "\<not> (c < gb_start b \<or> c + ucast k - 1 > gb_end b)" using cs(2) by blast
    have "unat (gb_end b) \<le> unat (gb_real_end b)"
      using end_le_real[OF assms(1) order_refl] by (simp add: word_le_nat_alt)
    then have "gb_start b \<le> c" "unat c + unat k \<le> unat (gb_real_end b) + 1"
      using g f(4,5) by (auto simp: not_less word_le_nat_alt)
    then have ok: "wf (op_mark_bmap_extent ops b c k) \<and> same_hdr (op_mark_bmap_extent ops b c k) b \<and>
        bits (op_mark_bmap_extent ops b c k) = bits b \<union> cluster_set (gb_cluster_bits b) x n"
      using mark_extent_ok[of b c k] assms(1) cs(1) by simp
    show ?thesis
    proof (rule that)
      show "ext2fs_mark_block_bitmap_range2 ops (Some (Bitmap64 b)) x n
              = Some (Bitmap64 (op_mark_bmap_extent ops b c k))"
        using assms(1) ck g by (simp add: ext2fs_mark_block_bitmap_range2_def)
      show "good (op_mark_bmap_extent ops b c k)" "same_hdr (op_mark_bmap_extent ops b c k) b"
        using good_same[OF assms(1)] ok by blast+
      show "clusters (op_mark_bmap_extent ops b c k)
        = spec_cmd (gb_cluster_bits b) (gb_start b) (gb_end b) (MarkRange x n) (clusters b)"
        using ok True by (auto simp: same_hdr_iff)
    qed
  next
    case False
    then show ?thesis
      using assms(1) ck cs(2) by (intro that[of b]) (auto simp: ext2fs_mark_block_bitmap_range2_def)
  qed
qed

lemma unmark_range_generic:
  assumes "good b" "cmd_ok (gb_cluster_bits b) (UnmarkRange x n)"
  obtains b' where "ext2fs_unmark_block_bitmap_range2 ops (Some (Bitmap64 b)) x n = Some (Bitmap64 b')"
    "good b'" "same_hdr b' b"
    "clusters b' = spec_cmd (gb_cluster_bits b) (gb_start b) (gb_end b) (UnmarkRange x n) (clusters b)"
proof -
  obtain c k where ck: "cluster_range (gb_cluster_bits b) x n = (c, k)" by (cases "cluster_range (gb_cluster_bits b) x n")
  have pre: "n \<noteq> 0" "unat x + unat n + 2 ^ gb_cluster_bits b \<le> 2 ^ 64" "gb_cluster_bits b < 64"
    using assms by simp_all
  note f = cluster_range_facts[OF ck pre] and cs = cluster_range_set[OF ck pre]
  show ?thesis
  proof (cases "cluster_set (gb_cluster_bits b) x n \<subseteq> {gb_start b..gb_end b}")
    case True
    then have g: "\<not> (c < gb_start b \<or> c + ucast k - 1 > gb_end b)" using cs(2) by blast
    have "unat (gb_end b) \<le> unat (gb_real_end b)"
      using end_le_real[OF assms(1) order_refl] by (simp add: word_le_nat_alt)
    then have "gb_start b \<le> c" "unat c + unat k \<le> unat (gb_real_end b) + 1"
      using g f(4,5) by (auto simp: not_less word_le_nat_alt)
    then have ok: "wf (op_unmark_bmap_extent ops b c k) \<and> same_hdr (op_unmark_bmap_extent ops b c k) b \<and>
        bits (op_unmark_bmap_extent ops b c k) = bits b - cluster_set (gb_cluster_bits b) x n"
      using unmark_extent_ok[of b c k] assms(1) cs(1) by simp
    show ?thesis
    proof (rule that)
      show "ext2fs_unmark_block_bitmap_range2 ops (Some (Bitmap64 b)) x n
              = Some (Bitmap64 (op_unmark_bmap_extent ops b c k))"
        using assms(1) ck g by (simp add: ext2fs_unmark_block_bitmap_range2_def)
      show "good (op_unmark_bmap_extent ops b c k)" "same_hdr (op_unmark_bmap_extent ops b c k) b"
        using good_same[OF assms(1)] ok by blast+
      show "clusters (op_unmark_bmap_extent ops b c k)
        = spec_cmd (gb_cluster_bits b) (gb_start b) (gb_end b) (UnmarkRange x n) (clusters b)"
        using ok True by (auto simp: same_hdr_iff)
    qed
  next
    case False
    then show ?thesis
      using assms(1) ck cs(2) by (intro that[of b]) (auto simp: ext2fs_unmark_block_bitmap_range2_def)
  qed
qed

lemma run_cmd_spec:
  assumes "good b" "cmd_ok (gb_cluster_bits b) cmd"
  obtains b' where "run_cmd ops cmd (Some (Bitmap64 b)) = Some (Bitmap64 b')" "good b'" "same_hdr b' b"
    "clusters b' = spec_cmd (gb_cluster_bits b) (gb_start b) (gb_end b) cmd (clusters b)"
proof (cases cmd)
  case (Mark x)
  obtain r bm where m: "ext2fs_mark_generic_bmap ops (Some (Bitmap64 b)) x = (r, bm)"
    by (cases "ext2fs_mark_generic_bmap ops (Some (Bitmap64 b)) x")
  show ?thesis by (rule mark_generic[OF assms(1) m]) (use Mark m that in simp)
next
  case (Unmark x)
  obtain r bm where m: "ext2fs_unmark_generic_bmap ops (Some (Bitmap64 b)) x = (r, bm)"
    by (cases "ext2fs_unmark_generic_bmap ops (Some (Bitmap64 b)) x")
  show ?thesis by (rule unmark_generic[OF assms(1) m]) (use Unmark m that in simp)
next
  case (Test x)
  obtain r bm where m: "ext2fs_test_generic_bmap ops (Some (Bitmap64 b)) x = (r, bm)"
    by (cases "ext2fs_test_generic_bmap ops (Some (Bitmap64 b)) x")
  show ?thesis by (rule test_generic[OF assms(1) m]) (use Test m that in simp)
next
  case (MarkRange x n)
  show ?thesis
    by (rule mark_range_generic[OF assms(1), of x n]) (use MarkRange assms that in simp_all)
next
  case (UnmarkRange x n)
  show ?thesis
    by (rule unmark_range_generic[OF assms(1), of x n]) (use UnmarkRange assms that in simp_all)
next
  case Clear
  have "wf (op_clear_bmap ops b) \<and> same_hdr (op_clear_bmap ops b) b \<and> bits (op_clear_bmap ops b) = {}"
    using clear_ok assms(1) by blast
  then show ?thesis
    using that[of "op_clear_bmap ops b"] Clear good_same[OF assms(1)]
    by (auto simp: ext2fs_clear_generic_bmap_def)
qed

lemma run_history:
  assumes "good b" "\<forall>cmd\<in>set cmds. cmd_ok (gb_cluster_bits b) cmd"
  obtains b' where "fold (run_cmd ops) cmds (Some (Bitmap64 b)) = Some (Bitmap64 b')" "good b'" "same_hdr b' b"
    "clusters b' = fold (spec_cmd (gb_cluster_bits b) (gb_start b) (gb_end b)) cmds (clusters b)"
  using assms
proof (induction cmds arbitrary: b thesis)
  case Nil
  then show ?case by simp
next
  case (Cons cmd cmds)
  have ok: "cmd_ok (gb_cluster_bits b) cmd" using Cons.prems(3) by simp
  obtain b1 where b1: "run_cmd ops cmd (Some (Bitmap64 b)) = Some (Bitmap64 b1)" "good b1" "same_hdr b1 b"
    "clusters b1 = spec_cmd (gb_cluster_bits b) (gb_start b) (gb_end b) cmd (clusters b)"
    by (rule run_cmd_spec[OF Cons.prems(2) ok])
  have hdr: "gb_cluster_bits b1 = gb_cluster_bits b" "gb_start b1 = gb_start b" "gb_end b1 = gb_end b"
    using b1(3) by (simp_all add: same_hdr_iff)
  obtain b' where b': "fold (run_cmd ops) cmds (Some (Bitmap64 b1)) = Some (Bitmap64 b')" "good b'" "same_hdr b' b1"
    "clusters b' = fold (spec_cmd (gb_cluster_bits b) (gb_start b) (gb_end b)) cmds (clusters b1)"
    using Cons.IH[of b1] b1(2) Cons.prems(3) unfolding hdr by auto
  show ?case
  proof (rule Cons.prems(1))
    show "fold (run_cmd ops) (cmd # cmds) (Some (Bitmap64 b)) = Some (Bitmap64 b')" using b1(1) b'(1) by simp
    show "good b'" by (rule b'(2))
    show "same_hdr b' b" using b'(3) b1(3) by simp
    show "clusters b' = fold (spec_cmd (gb_cluster_bits b) (gb_start b) (gb_end b)) (cmd # cmds) (clusters b)"
      using b'(4) b1(4) by simp
  qed
qed

lemma alloc_good:
  assumes "ext2fs_alloc_generic_bmap ops m cb magic s e re descr = Inr b"
    and "EXT2FS_IS_64_BITMAP (Some magic)" "s \<le> e" "e \<le> re" "unat (re - s) < 2 ^ 63" "cb < 64"
  shows "good b \<and> clusters b = {} \<and> gb_start b = s \<and> gb_end b = e \<and>
         gb_cluster_bits b = (if magic = EXT2_ET_MAGIC_BLOCK_BITMAP64 then cb else 0)"
  using assms new_ok
  by (auto simp: ext2fs_alloc_generic_bmap_def Let_def hdr_ok_def split: if_splits sum.splits)

text \<open>A fresh bitmap, any sequence of operations, and a test: the answer is that of the set.\<close>

lemma history_test:
  assumes "ext2fs_alloc_generic_bmap ops m cb magic s e re descr = Inr b"
    and "EXT2FS_IS_64_BITMAP (Some magic)" "s \<le> e" "e \<le> re" "unat (re - s) < 2 ^ 63" "cb < 64"
    and "\<forall>cmd\<in>set cmds. cmd_ok (gb_cluster_bits b) cmd"
  shows "fst (ext2fs_test_generic_bmap ops (fold (run_cmd ops) cmds (Some (Bitmap64 b))) x) \<noteq> 0 \<longleftrightarrow>
         drop_bit (gb_cluster_bits b) x \<in> fold (spec_cmd (gb_cluster_bits b) s e) cmds {}"
proof -
  note g = alloc_good[OF assms(1-6)]
  obtain b' where b': "fold (run_cmd ops) cmds (Some (Bitmap64 b)) = Some (Bitmap64 b')" "good b'" "same_hdr b' b"
    "clusters b' = fold (spec_cmd (gb_cluster_bits b) (gb_start b) (gb_end b)) cmds (clusters b)"
    by (rule run_history[OF _ assms(7)]) (use g in blast)+
  obtain r bm where t: "ext2fs_test_generic_bmap ops (Some (Bitmap64 b')) x = (r, bm)"
    by (cases "ext2fs_test_generic_bmap ops (Some (Bitmap64 b')) x")
  have "r \<noteq> 0 \<longleftrightarrow> drop_bit (gb_cluster_bits b') x \<in> clusters b'"
    by (rule test_generic[OF b'(2) t]) blast
  moreover have "clusters b' = fold (spec_cmd (gb_cluster_bits b) s e) cmds {}"
  proof -
    have z: "clusters b = {}" "gb_start b = s" "gb_end b = e" using g by blast+
    show ?thesis unfolding b'(4) unfolding z(1) unfolding z(2,3) ..
  qed
  moreover have "gb_cluster_bits b' = gb_cluster_bits b" using b'(3) by (simp add: same_hdr_iff)
  ultimately show ?thesis unfolding b'(1) t by simp
qed

lemma find_first_set_generic:
  assumes "good b" "op_find_first_set ops = Some f" "s \<le> e"
    and "gb_start b \<le> drop_bit (gb_cluster_bits b) s" "drop_bit (gb_cluster_bits b) e \<le> gb_end b"
  obtains r where "ext2fs_find_first_set_generic_bmap ops (Some (Bitmap64 b)) s e = Some r"
    "first_match (\<lambda>x. drop_bit (gb_cluster_bits b) x \<in> bits b) s e r"
proof -
  let ?cb = "gb_cluster_bits b"
  have "drop_bit ?cb s \<le> drop_bit ?cb e"
    using shifted_less[of ?cb e _ s] assms(1,3) by blast
  then have "first_match (\<lambda>x. x \<in> bits b) (drop_bit ?cb s) (drop_bit ?cb e) (f b (drop_bit ?cb s) (drop_bit ?cb e))"
    using find_first_set_ok[OF assms(2)] assms(1,4,5) end_le_real by blast
  then have "first_match (\<lambda>x. drop_bit ?cb x \<in> bits b) s e (find_found ?cb s (f b (drop_bit ?cb s) (drop_bit ?cb e)))"
    using assms(1,3) by (intro found_block) auto
  then show ?thesis
    using assms by (intro that) (auto simp: ext2fs_find_first_set_generic_bmap_def Let_def not_less)
qed

end

context bmap_backend_zero
begin

lemma find_first_zero_generic:
  assumes "good b" "op_find_first_zero ops = Some f" "s \<le> e"
    and "gb_start b \<le> drop_bit (gb_cluster_bits b) s" "drop_bit (gb_cluster_bits b) e \<le> gb_end b"
  obtains r where "ext2fs_find_first_zero_generic_bmap ops (Some (Bitmap64 b)) s e = Some r"
    "first_match (\<lambda>x. drop_bit (gb_cluster_bits b) x \<notin> bits b) s e r"
proof -
  let ?cb = "gb_cluster_bits b"
  have "drop_bit ?cb s \<le> drop_bit ?cb e"
    using shifted_less[of ?cb e _ s] assms(1,3) by blast
  then have "first_match (\<lambda>x. x \<notin> bits b) (drop_bit ?cb s) (drop_bit ?cb e) (f b (drop_bit ?cb s) (drop_bit ?cb e))"
    using find_first_zero_ok[OF assms(2)] assms(1,4,5) end_le_real by blast
  then have "first_match (\<lambda>x. drop_bit ?cb x \<notin> bits b) s e (find_found ?cb s (f b (drop_bit ?cb s) (drop_bit ?cb e)))"
    using assms(1,3) by (intro found_block) auto
  then show ?thesis
    using assms by (intro that) (auto simp: ext2fs_find_first_zero_generic_bmap_def Let_def not_less)
qed

end

context bmap_backend
begin

lemma test_range_generic:
  assumes "good b" "cmd_ok (gb_cluster_bits b) (MarkRange x n)"
    and "cluster_set (gb_cluster_bits b) x n \<subseteq> {gb_start b..gb_end b}"
  shows "fst (ext2fs_test_block_bitmap_range2 ops (Some (Bitmap64 b)) x n)
           = Inr (bits b \<inter> cluster_set (gb_cluster_bits b) x n = {})"
proof -
  let ?cb = "gb_cluster_bits b"
  have pre: "n \<noteq> 0" "unat x + unat n + 2 ^ ?cb \<le> 2 ^ 64" "?cb < 64" using assms by simp_all
  show ?thesis
  proof (cases "n = 1")
    case True
    have "drop_bit ?cb x \<in> {gb_start b..gb_end b}" and one: "cluster_set ?cb x n = {drop_bit ?cb x}"
      using assms(3) True by (auto simp: cluster_set_def)
    moreover obtain r bm where t: "ext2fs_test_generic_bmap ops (Some (Bitmap64 b)) x = (r, bm)"
      by (cases "ext2fs_test_generic_bmap ops (Some (Bitmap64 b)) x")
    moreover have "r \<noteq> 0 \<longleftrightarrow> drop_bit ?cb x \<in> clusters b"
      by (rule test_generic[OF assms(1) t]) blast
    ultimately show ?thesis using True by (auto simp: ext2fs_test_block_bitmap_range2_def)
  next
    case False
    obtain c k where ck: "cluster_range ?cb x n = (c, k)" by (cases "cluster_range ?cb x n")
    note f = cluster_range_facts[OF ck pre] and cs = cluster_range_set[OF ck pre]
    have g: "\<not> (c < gb_start b \<or> c + ucast k - 1 > gb_end b)" using cs(2) assms(3) by blast
    have "unat (gb_end b) \<le> unat (gb_real_end b)"
      using end_le_real[OF assms(1) order_refl] by (simp add: word_le_nat_alt)
    then have "gb_start b \<le> c" "unat c + unat k \<le> unat (gb_real_end b) + 1"
      using g f(4,5) by (auto simp: not_less word_le_nat_alt)
    then have "op_test_clear_bmap_extent ops b c k \<longleftrightarrow> bits b \<inter> cluster_set ?cb x n = {}"
      using test_clear_ok[of b c k] assms(1) cs(1) by simp
    then show ?thesis using False assms(1) ck g by (simp add: ext2fs_test_block_bitmap_range2_def)
  qed
qed

end

section \<open>Properties of bitmaps on the bit array\<close>

text \<open>C1: A bitmap allocated on the bit-array backend and then changed by a sequence of mark, unmark, test and clear operations, on any
  numbers, and of range operations, on ranges of at least one block that end a cluster or more below \<open>2 ^ 64\<close> (\<open>cmd_ok\<close>), behaves as the
  set of its marked clusters: \<^verbatim>\<open>ext2fs_test_generic_bmap\<close> answers not zero for a block exactly when the cluster of the block is in
  the set that the operations give, whatever the cluster size; numbers outside the bitmap never count as marked, and a range that does
  not fit changes nothing. (The two conditions on ranges are needed: the code rounds an empty range that begins inside a cluster up to that
  cluster, and a range whose end wraps around passes its bounds test.)\<close>

theorem bitmap_history_refines_set:
  assumes "ext2fs_alloc_generic_bmap ext2fs_blkmap64_bitarray m cb magic s e re descr = Inr b"
    and "EXT2FS_IS_64_BITMAP (Some magic)" "s \<le> e" "e \<le> re" "unat (re - s) < 2 ^ 63" "cb < 64"
    and "\<forall>cmd\<in>set cmds. cmd_ok (gb_cluster_bits b) cmd"
  shows "fst (ext2fs_test_generic_bmap ext2fs_blkmap64_bitarray
                (fold (run_cmd ext2fs_blkmap64_bitarray) cmds (Some (Bitmap64 b))) x) \<noteq> 0 \<longleftrightarrow>
         drop_bit (gb_cluster_bits b) x \<in> fold (spec_cmd (gb_cluster_bits b) s e) cmds {}"
  using assms by (rule ba.history_test)

definition demo_mem :: "ba_mem gb_mem" where
  "demo_mem = \<lparr>gm_struct = True, gm_descr = True,
     gm_backend = \<lparr>mem_struct = True, mem_array = Some (3, \<lambda>_. 0xa5)\<rparr>\<rparr>"

definition demo_bitmap :: "ba_private gbitmap" where
  "demo_bitmap =
     (case ext2fs_alloc_generic_bmap ext2fs_blkmap64_bitarray demo_mem 2 EXT2_ET_MAGIC_BLOCK_BITMAP64
             0 30 31 (Some ''demo'') of
        Inr b \<Rightarrow> b)"

lemma demo_fields:
  "gb_start demo_bitmap = 0" "gb_end demo_bitmap = 30" "gb_real_end demo_bitmap = 31"
  "gb_cluster_bits demo_bitmap = 2" "gb_magic demo_bitmap = Some EXT2_ET_MAGIC_BLOCK_BITMAP64"
  "bitarray (gb_private demo_bitmap) = [0, 0, 0, 0]"
  by code_simp+

lemma demo_wf: "ba_wf demo_bitmap" "EXT2FS_IS_64_BITMAP (gb_magic demo_bitmap)"
  by (simp_all add: ba_wf_def hdr_ok_def ba_size_eq demo_fields EXT2FS_IS_64_BITMAP_def)

theorem bitmap_history_refines_set_witness:
  "fst (ext2fs_test_generic_bmap ext2fs_blkmap64_bitarray
          (fold (run_cmd ext2fs_blkmap64_bitarray) [MarkRange 6 20, Unmark 13] (Some (Bitmap64 demo_bitmap)))
          9) \<noteq> 0 \<and>
   drop_bit (gb_cluster_bits demo_bitmap) 9 \<in>
     fold (spec_cmd (gb_cluster_bits demo_bitmap) 0 30) [MarkRange 6 20, Unmark 13] {}"
proof -
  let ?cmds = "[MarkRange 6 20, Unmark 13]"
  have 1: "ext2fs_alloc_generic_bmap ext2fs_blkmap64_bitarray demo_mem 2 EXT2_ET_MAGIC_BLOCK_BITMAP64
             0 30 31 (Some ''demo'') = Inr demo_bitmap"
    by code_simp
  have 2: "EXT2FS_IS_64_BITMAP (Some EXT2_ET_MAGIC_BLOCK_BITMAP64)" "(0 :: u64) \<le> 30" "(30 :: u64) \<le> 31"
      "unat (31 - 0 :: u64) < 2 ^ 63" "(2 :: nat) < 64"
      "\<forall>cmd\<in>set ?cmds. cmd_ok (gb_cluster_bits demo_bitmap) cmd"
    by (simp_all add: EXT2FS_IS_64_BITMAP_def demo_fields)
  have 3: "fst (ext2fs_test_generic_bmap ext2fs_blkmap64_bitarray
          (fold (run_cmd ext2fs_blkmap64_bitarray) ?cmds (Some (Bitmap64 demo_bitmap))) 9) \<noteq> 0"
    by code_simp
  show ?thesis using bitmap_history_refines_set[OF 1 2, of 9] 3 by blast
qed

text \<open>C22: The block searches of the generic layer on the bit array: for a range of blocks whose clusters lie in the
  bitmap they return the first block of the range whose cluster is clear (set), or \<^verbatim>\<open>ENOENT\<close> if
  there is none. This covers the search by bits, bytes and aligned 64-bit words of the
  backend, for every address the array may have, and the conversion to clusters and back.\<close>

theorem bitmap_find_first_block:
  assumes "ba_wf b" "EXT2FS_IS_64_BITMAP (gb_magic b)" "gb_cluster_bits b < 64" "s \<le> e"
    and "gb_start b \<le> drop_bit (gb_cluster_bits b) s" "drop_bit (gb_cluster_bits b) e \<le> gb_end b"
  shows "(\<exists>r. ext2fs_find_first_zero_generic_bmap ext2fs_blkmap64_bitarray (Some (Bitmap64 b)) s e = Some r \<and>
             first_match (\<lambda>x. drop_bit (gb_cluster_bits b) x \<notin> ba_bits b) s e r) \<and>
         (\<exists>r. ext2fs_find_first_set_generic_bmap ext2fs_blkmap64_bitarray (Some (Bitmap64 b)) s e = Some r \<and>
             first_match (\<lambda>x. drop_bit (gb_cluster_bits b) x \<in> ba_bits b) s e r)"
proof (rule conjI)
  have ops: "op_find_first_zero ext2fs_blkmap64_bitarray = Some ba_find_first_zero"
    "op_find_first_set ext2fs_blkmap64_bitarray = Some ba_find_first_set"
    by (simp_all add: ext2fs_blkmap64_bitarray_def)
  have good: "ba_wf b \<and> EXT2FS_IS_64_BITMAP (gb_magic b) \<and> gb_cluster_bits b < 64" using assms by blast
  show "\<exists>r. ext2fs_find_first_zero_generic_bmap ext2fs_blkmap64_bitarray (Some (Bitmap64 b)) s e = Some r \<and>
             first_match (\<lambda>x. drop_bit (gb_cluster_bits b) x \<notin> ba_bits b) s e r"
    by (rule ba.find_first_zero_generic[OF good ops(1) assms(4-6)]) blast
  show "\<exists>r. ext2fs_find_first_set_generic_bmap ext2fs_blkmap64_bitarray (Some (Bitmap64 b)) s e = Some r \<and>
             first_match (\<lambda>x. drop_bit (gb_cluster_bits b) x \<in> ba_bits b) s e r"
    by (rule ba.find_first_set_generic[OF good ops(2) assms(4-6)]) blast
qed

definition demo_marked :: "ba_private gbitmap" where
  "demo_marked = demo_bitmap\<lparr>gb_private := \<lparr>ba_addr = 3, bitarray = [0xff, 0xff, 0xff, 0x17]\<rparr>\<rparr>"

lemma demo_marked_wf: "ba_wf demo_marked" "EXT2FS_IS_64_BITMAP (gb_magic demo_marked)"
    "gb_start demo_marked = 0" "gb_end demo_marked = 30" "gb_cluster_bits demo_marked = 2"
  using demo_wf by (simp_all add: demo_marked_def ba_wf_def hdr_ok_def ba_size_eq demo_fields)

theorem bitmap_find_first_block_witness:
  "ext2fs_find_first_zero_generic_bmap ext2fs_blkmap64_bitarray (Some (Bitmap64 demo_marked)) 5 120
     = Some (Inr 108) \<and>
   drop_bit (gb_cluster_bits demo_marked) 108 \<notin> ba_bits demo_marked"
proof -
  have 1: "ba_wf demo_marked" "EXT2FS_IS_64_BITMAP (gb_magic demo_marked)" "gb_cluster_bits demo_marked < 64"
    "(5 :: u64) \<le> 120" "gb_start demo_marked \<le> drop_bit (gb_cluster_bits demo_marked) 5"
    "drop_bit (gb_cluster_bits demo_marked) 120 \<le> gb_end demo_marked"
    using demo_marked_wf by (simp_all add: drop_bit_eq_div)
  have 2: "ext2fs_find_first_zero_generic_bmap ext2fs_blkmap64_bitarray (Some (Bitmap64 demo_marked)) 5 120
     = Some (Inr 108)"
    by code_simp
  show ?thesis using bitmap_find_first_block[OF 1] unfolding 2 by (simp add: first_match_def)
qed

text \<open>\<^verbatim>\<open>ext2fs_test_block_bitmap_range2\<close> on the bit array: for a range of at least one block whose clusters
  lie in the bitmap, the answer is whether no cluster of the range is marked. This is the masked
  comparison of the partial first and last bytes and the 256-byte-wise comparison between them.\<close>

theorem bitmap_test_range_exact:
  assumes "ba_wf b" "EXT2FS_IS_64_BITMAP (gb_magic b)" "gb_cluster_bits b < 64"
    and "num \<noteq> 0" "unat block + unat num + 2 ^ gb_cluster_bits b \<le> 2 ^ 64"
    and "cluster_set (gb_cluster_bits b) block num \<subseteq> {gb_start b..gb_end b}"
  shows "fst (ext2fs_test_block_bitmap_range2 ext2fs_blkmap64_bitarray (Some (Bitmap64 b)) block num)
           = Inr (ba_bits b \<inter> cluster_set (gb_cluster_bits b) block num = {})"
  using assms by (intro ba.test_range_generic) simp_all

theorem bitmap_test_range_exact_witness:
  "fst (ext2fs_test_block_bitmap_range2 ext2fs_blkmap64_bitarray (Some (Bitmap64 demo_marked)) 108 4)
     = Inr True \<and>
   ba_bits demo_marked \<inter> cluster_set (gb_cluster_bits demo_marked) 108 4 = {}"
proof -
  have 1: "ba_wf demo_marked" "EXT2FS_IS_64_BITMAP (gb_magic demo_marked)" "gb_cluster_bits demo_marked < 64"
    "(4 :: u32) \<noteq> 0" "unat (108 :: u64) + unat (4 :: u32) + 2 ^ gb_cluster_bits demo_marked \<le> 2 ^ 64"
    using demo_marked_wf by simp_all
  have "cluster_set (gb_cluster_bits demo_marked) 108 4 = {27..27}"
  proof -
    have "drop_bit (gb_cluster_bits demo_marked) (108 :: u64) = 27"
      "drop_bit (gb_cluster_bits demo_marked) (108 + ucast (4 :: u32) - 1 :: u64) = 27" by code_simp+
    then show ?thesis by (simp add: cluster_set_def)
  qed
  moreover have "gb_start demo_marked \<le> 27" "27 \<le> gb_end demo_marked" by code_simp+
  ultimately have 2: "cluster_set (gb_cluster_bits demo_marked) 108 4 \<subseteq> {gb_start demo_marked..gb_end demo_marked}"
    by simp
  have "fst (ext2fs_test_block_bitmap_range2 ext2fs_blkmap64_bitarray (Some (Bitmap64 demo_marked)) 108 4) = Inr True"
    by code_simp
  then show ?thesis using bitmap_test_range_exact[OF 1 2] by simp
qed

lemma test_bit64_same:
  "ext2fs_test_bit64 nr a = ext2fs_test_bit64 nr b \<longleftrightarrow> (bit_at a (unat nr) \<longleftrightarrow> bit_at b (unat nr))"
proof -
  let ?m = "push_bit (unat (nr AND 7)) 1 :: u8" and ?p = "unat (drop_bit 3 nr)"
  have "?m AND x = (if bit x (unat (nr AND 7)) then ?m else 0)" for x :: u8
    by (rule bit_word_eqI) (auto simp: bit_and_iff bit_exp_iff)
  then have "?m AND a ! ?p = ?m AND b ! ?p \<longleftrightarrow> (?m AND a ! ?p = 0 \<longleftrightarrow> ?m AND b ! ?p = 0)"
    by metis
  then show ?thesis
    using test_bit64_iff[of nr a] test_bit64_iff[of nr b] by (auto simp: ext2fs_test_bit64_def Let_def uint_0_iff word_uint_eq_iff[symmetric])
qed

lemma compare_loop_bitarray:
  assumes "ba_wf b1" "ba_wf b2" "EXT2FS_IS_64_BITMAP (gb_magic b1)" "EXT2FS_IS_64_BITMAP (gb_magic b2)"
    and "gb_start b1 = gb_start b2" "gb_end b1 = gb_end b2" "gb_cluster_bits b1 = 0" "gb_cluster_bits b2 = 0"
    and "gb_end b1 \<noteq> - 1"
  shows "gb_start b1 \<le> i \<Longrightarrow> map_option fst (compare_loop ext2fs_blkmap64_bitarray ext2fs_blkmap64_bitarray
      (Some (Bitmap64 b1)) (Some (Bitmap64 b2)) i (gb_end b1)) =
    Some (\<forall>x. i \<le> x \<and> x \<le> gb_end b1 \<longrightarrow> (x \<in> ba_bits b1 \<longleftrightarrow> x \<in> ba_bits b2))"
proof (induction "unat (gb_end b1 + 1) - unat i" arbitrary: i rule: less_induct)
  case less
  let ?e = "gb_end b1"
  show ?case
  proof (cases "i \<le> ?e")
    case False
    then show ?thesis by (subst compare_loop.simps) auto
  next
    case True
    have re: "?e \<le> gb_real_end b1" "?e \<le> gb_real_end b2" using assms(1,2,6) by (simp_all add: ba_wf_def hdr_ok_def)
    have e1: "unat (?e + 1) = unat ?e + 1" using assms(9) by (intro unat_succ) (simp add: eq_neg_iff_add_eq_0)
    have i1: "unat (i + 1) = unat i + 1"
      using True assms(9) by (intro unat_succ) (metis eq_neg_iff_add_eq_0 word_order.extremum_unique)
    have t: "ext2fs_test_generic_bmap ext2fs_blkmap64_bitarray (Some (Bitmap64 b)) i =
        (ext2fs_test_bit64 (i - gb_start b) (bitarray (gb_private b)), Some (Bitmap64 b))"
      if "b = b1 \<or> b = b2" for b
      using that assms less.prems True
      by (auto simp: ext2fs_test_generic_bmap_def ext2fs_blkmap64_bitarray_def ba_test_bmap_def not_less)
    have same: "ext2fs_test_bit64 (i - gb_start b1) (bitarray (gb_private b1)) = ext2fs_test_bit64 (i - gb_start b2) (bitarray (gb_private b2))
        \<longleftrightarrow> (i \<in> ba_bits b1 \<longleftrightarrow> i \<in> ba_bits b2)"
      using less.prems True re assms(5,6) order_trans[of i ?e] by (auto simp: ba_bits_def test_bit64_same)
    have ih: "map_option fst (compare_loop ext2fs_blkmap64_bitarray ext2fs_blkmap64_bitarray
        (Some (Bitmap64 b1)) (Some (Bitmap64 b2)) (i + 1) ?e) =
      Some (\<forall>x. i + 1 \<le> x \<and> x \<le> ?e \<longrightarrow> (x \<in> ba_bits b1 \<longleftrightarrow> x \<in> ba_bits b2))"
      using less.hyps[of "i + 1"] less.prems True i1 e1 by (simp add: word_le_nat_alt)
    have "(\<forall>x. i \<le> x \<and> x \<le> ?e \<longrightarrow> P x) \<longleftrightarrow> P i \<and> (\<forall>x. i + 1 \<le> x \<and> x \<le> ?e \<longrightarrow> P x)" for P
    proof -
      have "i \<le> x \<longleftrightarrow> x = i \<or> i + 1 \<le> x" for x using i1 by (auto simp: word_le_nat_alt word_unat_eq_iff)
      then show ?thesis using True by auto
    qed
    then show ?thesis using True ih same by (subst compare_loop.simps) (simp add: t)
  qed
qed



end
