(* ===== verification/Ext2_Fs.thy ===== *)
theory Ext2_Fs
  imports Bitops
begin

text \<open>
  The data of \<^verbatim>\<open>lib/ext2fs/ext2_fs.h\<close> and \<^verbatim>\<open>lib/ext2fs/ext2fs.h\<close> that the components share: the superblock, the inode
  and the file system handle, with the fields the modelled functions use, and the array of group
  descriptors as bytes. A descriptor is read and written at the offset of its field in
  \<^verbatim>\<open>struct ext4_group_desc\<close>, in the byte order of a little-endian host, so that descriptors of the
  two sizes and accesses beyond the small one are the code's own.
\<close>

section \<open>Structures\<close>

record ext2_super_block =
  s_inodes_count :: u32
  s_blocks_count :: u32
  s_r_blocks_count :: u32
  s_free_blocks_count :: u32
  s_free_inodes_count :: u32
  s_first_data_block :: u32
  s_log_block_size :: u32
  s_log_cluster_size :: u32
  s_blocks_per_group :: u32
  s_clusters_per_group :: u32
  s_inodes_per_group :: u32
  s_rev_level :: u32
  s_first_ino :: u32
  s_inode_size :: u16
  s_feature_compat :: u32
  s_feature_incompat :: u32
  s_feature_ro_compat :: u32
  s_reserved_gdt_blocks :: u16
  s_desc_size :: u16
  s_first_meta_bg :: u32
  s_blocks_count_hi :: u32
  s_r_blocks_count_hi :: u32
  s_free_blocks_hi :: u32
  s_backup_bgs :: "u32 \<times> u32"
  s_uuid :: "u8 list"
  s_creator_os :: u32
  s_checksum_type :: u8

record ext2_inode =
  i_mode :: u16
  i_size :: u32
  i_size_high :: u32
  i_blocks :: u32
  l_i_blocks_hi :: u16
  i_file_acl :: u32
  l_i_file_acl_high :: u16

record ext2_filsys =
  fs_magic :: "errcode option"
  fs_super :: ext2_super_block
  fs_group_desc_count :: u32
  fs_desc_blocks :: u64
  fs_blocksize :: u32
  fs_cluster_ratio_bits :: nat
  fs_inode_blocks_per_group :: u32
  fs_group_desc :: "u8 list"
  fs_default_bitmap_type :: int
  fs_flag_64bits :: bool
  fs_super_dirty :: bool
  fs_csum_seed :: u32
  fs_flag_rw :: bool
  fs_flag_ignore_csum_errors :: bool

section \<open>Constants and macros\<close>

definition EXT4_FEATURE_COMPAT_SPARSE_SUPER2 :: u32 where "EXT4_FEATURE_COMPAT_SPARSE_SUPER2 = 0x0200"
definition EXT2_FEATURE_RO_COMPAT_SPARSE_SUPER :: u32 where "EXT2_FEATURE_RO_COMPAT_SPARSE_SUPER = 0x0001"
definition EXT2_FEATURE_RO_COMPAT_LARGE_FILE :: u32 where "EXT2_FEATURE_RO_COMPAT_LARGE_FILE = 0x0002"
definition EXT4_FEATURE_RO_COMPAT_HUGE_FILE :: u32 where "EXT4_FEATURE_RO_COMPAT_HUGE_FILE = 0x0008"
definition EXT2_FEATURE_INCOMPAT_META_BG :: u32 where "EXT2_FEATURE_INCOMPAT_META_BG = 0x0010"
definition EXT4_FEATURE_INCOMPAT_64BIT :: u32 where "EXT4_FEATURE_INCOMPAT_64BIT = 0x0080"

lemmas feature_defs = EXT4_FEATURE_COMPAT_SPARSE_SUPER2_def EXT2_FEATURE_RO_COMPAT_SPARSE_SUPER_def
  EXT2_FEATURE_RO_COMPAT_LARGE_FILE_def EXT4_FEATURE_RO_COMPAT_HUGE_FILE_def
  EXT2_FEATURE_INCOMPAT_META_BG_def EXT4_FEATURE_INCOMPAT_64BIT_def

definition has_64bit :: "ext2_super_block \<Rightarrow> bool" where
  "has_64bit super \<longleftrightarrow> s_feature_incompat super AND EXT4_FEATURE_INCOMPAT_64BIT \<noteq> 0"

definition EXT2_DESC_SIZE :: "ext2_super_block \<Rightarrow> u32" where
  "EXT2_DESC_SIZE s = (if has_64bit s then ucast (s_desc_size s) else 32)"

definition EXT2_GROUPS_TO_BLOCKS :: "ext2_super_block \<Rightarrow> u32 \<Rightarrow> u64" where
  "EXT2_GROUPS_TO_BLOCKS s g = ucast (s_blocks_per_group s) * ucast g"

definition EXT2_BLOCK_SIZE :: "ext2_super_block \<Rightarrow> u32" where
  "EXT2_BLOCK_SIZE s = push_bit (unat (s_log_block_size s)) 1024"

definition EXT2_DESC_PER_BLOCK :: "ext2_super_block \<Rightarrow> u32" where
  "EXT2_DESC_PER_BLOCK s = EXT2_BLOCK_SIZE s div EXT2_DESC_SIZE s"

definition LINUX_S_ISREG :: "u16 \<Rightarrow> bool" where
  "LINUX_S_ISREG m \<longleftrightarrow> m AND 0xf000 = 0x8000"

section \<open>Fields in memory\<close>

definition ld16 :: "u8 list \<Rightarrow> nat \<Rightarrow> u16" where
  "ld16 bs p = ucast (bs ! p) OR push_bit 8 (ucast (bs ! (p + 1)))"

definition st16 :: "u8 list \<Rightarrow> nat \<Rightarrow> u16 \<Rightarrow> u8 list" where
  "st16 bs p v = bs[p := ucast v, p + 1 := ucast (drop_bit 8 v)]"

definition ld32 :: "u8 list \<Rightarrow> nat \<Rightarrow> u32" where
  "ld32 bs p = ucast (ld16 bs p) OR push_bit 16 (ucast (ld16 bs (p + 2)))"

definition st32 :: "u8 list \<Rightarrow> nat \<Rightarrow> u32 \<Rightarrow> u8 list" where
  "st32 bs p v = st16 (st16 bs p (ucast v)) (p + 2) (ucast (drop_bit 16 v))"

lemma length_st16 [simp]: "length (st16 bs p v) = length bs"
  by (simp add: st16_def)

lemma length_st32 [simp]: "length (st32 bs p v) = length bs"
  by (simp add: st32_def)

lemma ucast_join:
  fixes v :: "'b::len word"
  assumes "LENGTH('b) = n + LENGTH('a::len)" "LENGTH('a) = n"
  shows "(ucast (ucast v :: 'a word) OR push_bit n (ucast (ucast (drop_bit n v) :: 'a word)) :: 'b word) = v"
  by (rule bit_word_eqI) (use assms in \<open>auto simp: bit_or_iff bit_push_bit_iff bit_unsigned_iff bit_drop_bit_eq
        not_less\<close>)

lemma ld16_st16: "p + 1 < length bs \<Longrightarrow> ld16 (st16 bs p v) p = v"
  using ucast_join[of 8 v, where ?'a = 8] by (simp add: ld16_def st16_def)

lemma ld16_st16_other: "p + 2 \<le> q \<or> q + 2 \<le> p \<Longrightarrow> ld16 (st16 bs p v) q = ld16 bs q"
  by (auto simp: ld16_def st16_def nth_list_update)

lemma ld32_st32: "p + 3 < length bs \<Longrightarrow> ld32 (st32 bs p v) p = v"
  using ucast_join[of 16 v, where ?'a = 16]
  by (simp add: ld32_def st32_def ld16_st16 ld16_st16_other)

lemma ld32_st32_other: "p + 4 \<le> q \<or> q + 4 \<le> p \<Longrightarrow> ld32 (st32 bs p v) q = ld32 bs q"
  by (auto simp: ld32_def st32_def ld16_st16_other)

lemma ld16_st32_other: "p + 4 \<le> q \<or> q + 2 \<le> p \<Longrightarrow> ld16 (st32 bs p v) q = ld16 bs q"
  by (auto simp: st32_def ld16_st16_other)

lemma ld32_st16_other: "p + 2 \<le> q \<or> q + 4 \<le> p \<Longrightarrow> ld32 (st16 bs p v) q = ld32 bs q"
  by (auto simp: ld32_def ld16_st16_other)

lemmas field_simps_mem = ld16_st16 ld16_st16_other ld32_st32 ld32_st32_other ld16_st32_other ld32_st16_other

end
