(* ===== verification/Blknum.thy ===== *)
theory Blknum
  imports Ext2_Fs
begin

text \<open>
  \<^verbatim>\<open>lib/ext2fs/blknum.c\<close>: the arithmetic of block groups, and the access functions for the numbers that ext4 stores in
  two halves: the block counts of the superblock, the fields of the group descriptors, the
  blocks and ACL block of an inode.
\<close>

section \<open>Counts of the superblock\<close>

definition join32 :: "bool \<Rightarrow> u32 \<Rightarrow> u32 \<Rightarrow> u64" where
  "join32 wide lo hi = ucast lo OR (if wide then push_bit 32 (ucast hi) else 0)"

definition ext2fs_blocks_count :: "ext2_super_block \<Rightarrow> u64" where
  "ext2fs_blocks_count super = join32 (has_64bit super) (s_blocks_count super) (s_blocks_count_hi super)"

definition ext2fs_blocks_count_set :: "ext2_super_block \<Rightarrow> u64 \<Rightarrow> ext2_super_block" where
  "ext2fs_blocks_count_set super blk =
     (let super = super\<lparr>s_blocks_count := ucast blk\<rparr>
      in if has_64bit super then super\<lparr>s_blocks_count_hi := ucast (drop_bit 32 blk)\<rparr> else super)"

definition ext2fs_blocks_count_add :: "ext2_super_block \<Rightarrow> u64 \<Rightarrow> ext2_super_block" where
  "ext2fs_blocks_count_add super blk = ext2fs_blocks_count_set super (ext2fs_blocks_count super + blk)"

definition ext2fs_r_blocks_count :: "ext2_super_block \<Rightarrow> u64" where
  "ext2fs_r_blocks_count super = join32 (has_64bit super) (s_r_blocks_count super) (s_r_blocks_count_hi super)"

definition ext2fs_r_blocks_count_set :: "ext2_super_block \<Rightarrow> u64 \<Rightarrow> ext2_super_block" where
  "ext2fs_r_blocks_count_set super blk =
     (let super = super\<lparr>s_r_blocks_count := ucast blk\<rparr>
      in if has_64bit super then super\<lparr>s_r_blocks_count_hi := ucast (drop_bit 32 blk)\<rparr> else super)"

definition ext2fs_r_blocks_count_add :: "ext2_super_block \<Rightarrow> u64 \<Rightarrow> ext2_super_block" where
  "ext2fs_r_blocks_count_add super blk = ext2fs_r_blocks_count_set super (ext2fs_r_blocks_count super + blk)"

definition ext2fs_free_blocks_count :: "ext2_super_block \<Rightarrow> u64" where
  "ext2fs_free_blocks_count super = join32 (has_64bit super) (s_free_blocks_count super) (s_free_blocks_hi super)"

definition ext2fs_free_blocks_count_set :: "ext2_super_block \<Rightarrow> u64 \<Rightarrow> ext2_super_block" where
  "ext2fs_free_blocks_count_set super blk =
     (let super = super\<lparr>s_free_blocks_count := ucast blk\<rparr>
      in if has_64bit super then super\<lparr>s_free_blocks_hi := ucast (drop_bit 32 blk)\<rparr> else super)"

definition ext2fs_free_blocks_count_add :: "ext2_super_block \<Rightarrow> u64 \<Rightarrow> ext2_super_block" where
  "ext2fs_free_blocks_count_add super blk =
     ext2fs_free_blocks_count_set super (ext2fs_free_blocks_count super + blk)"

section \<open>Groups\<close>

definition ext2fs_group_of_blk2 :: "ext2_filsys \<Rightarrow> u64 \<Rightarrow> u32" where
  "ext2fs_group_of_blk2 fs blk =
     ucast ((blk - ucast (s_first_data_block (fs_super fs))) div ucast (s_blocks_per_group (fs_super fs)))"

definition ext2fs_group_first_block2 :: "ext2_filsys \<Rightarrow> u32 \<Rightarrow> u64" where
  "ext2fs_group_first_block2 fs grp =
     ucast (s_first_data_block (fs_super fs)) + EXT2_GROUPS_TO_BLOCKS (fs_super fs) grp"

definition ext2fs_group_last_block2 :: "ext2_filsys \<Rightarrow> u32 \<Rightarrow> u64" where
  "ext2fs_group_last_block2 fs grp =
     (if grp = fs_group_desc_count fs - 1 then ext2fs_blocks_count (fs_super fs) - 1
      else ext2fs_group_first_block2 fs grp + ucast (s_blocks_per_group (fs_super fs) - 1))"

definition ext2fs_group_blocks_count :: "ext2_filsys \<Rightarrow> u32 \<Rightarrow> u32" where
  "ext2fs_group_blocks_count fs grp =
     (if grp = fs_group_desc_count fs - 1 then
        let num_blocks = ucast ((ext2fs_blocks_count (fs_super fs) - ucast (s_first_data_block (fs_super fs)))
                                mod ucast (s_blocks_per_group (fs_super fs)))
        in if num_blocks = 0 then s_blocks_per_group (fs_super fs) else num_blocks
      else s_blocks_per_group (fs_super fs))"

section \<open>Inode fields\<close>

definition ext2fs_inode_i_blocks :: "ext2_filsys \<Rightarrow> ext2_inode \<Rightarrow> u64" where
  "ext2fs_inode_i_blocks fs inode =
     ucast (i_blocks inode) OR
     (if s_feature_ro_compat (fs_super fs) AND EXT4_FEATURE_RO_COMPAT_HUGE_FILE \<noteq> 0
      then push_bit 32 (ucast (l_i_blocks_hi inode)) else 0)"

definition ext2fs_inode_data_blocks2 :: "ext2_filsys \<Rightarrow> ext2_inode \<Rightarrow> u64" where
  "ext2fs_inode_data_blocks2 fs inode =
     (ucast (i_blocks inode) OR
      (if s_feature_ro_compat (fs_super fs) AND EXT4_FEATURE_RO_COMPAT_HUGE_FILE \<noteq> 0
       then push_bit 32 (ucast (l_i_blocks_hi inode)) else 0))
     - (if i_file_acl inode \<noteq> 0 then ucast (drop_bit 9 (fs_blocksize fs)) else 0)"

text \<open>The file system pointer may be \<^verbatim>\<open>NULL\<close>; the upper half of the ACL block has 16 bits.\<close>

definition ext2fs_file_acl_block :: "ext2_filsys option \<Rightarrow> ext2_inode \<Rightarrow> u64" where
  "ext2fs_file_acl_block fs inode =
     (case fs of
        Some f \<Rightarrow> if has_64bit (fs_super f)
                  then ucast (i_file_acl inode) OR push_bit 32 (ucast (l_i_file_acl_high inode))
                  else ucast (i_file_acl inode)
      | None \<Rightarrow> ucast (i_file_acl inode))"

definition ext2fs_file_acl_block_set :: "ext2_filsys option \<Rightarrow> ext2_inode \<Rightarrow> u64 \<Rightarrow> ext2_inode" where
  "ext2fs_file_acl_block_set fs inode blk =
     (let inode = inode\<lparr>i_file_acl := ucast blk\<rparr>
      in case fs of
           Some f \<Rightarrow> if has_64bit (fs_super f)
                     then inode\<lparr>l_i_file_acl_high := ucast (drop_bit 32 blk)\<rparr> else inode
         | None \<Rightarrow> inode)"

definition ext2fs_update_dynamic_rev :: "ext2_filsys \<Rightarrow> ext2_filsys" where
  "ext2fs_update_dynamic_rev fs =
     (if s_rev_level (fs_super fs) > 0 then fs
      else fs\<lparr>fs_super := (fs_super fs)\<lparr>s_rev_level := 1, s_first_ino := 11, s_inode_size := 128\<rparr>\<rparr>)"

definition ext2fs_inode_size_set ::
  "ext2_filsys \<Rightarrow> ext2_inode \<Rightarrow> u64 \<Rightarrow> errcode + ext2_filsys \<times> ext2_inode" where
  "ext2fs_inode_size_set fs inode sz =
     (if \<not> LINUX_S_ISREG (i_mode inode) \<and> drop_bit 32 sz \<noteq> 0 then Inl EXT2_ET_FILE_TOO_BIG
      else
        let fs = (if LINUX_S_ISREG (i_mode inode) \<and> sz \<ge> 0x80000000 \<and>
                     (s_feature_ro_compat (fs_super fs) AND EXT2_FEATURE_RO_COMPAT_LARGE_FILE = 0 \<or>
                      s_rev_level (fs_super fs) = 0)
                  then (ext2fs_update_dynamic_rev
                          (fs\<lparr>fs_super := (fs_super fs)\<lparr>s_feature_ro_compat :=
                             s_feature_ro_compat (fs_super fs) OR EXT2_FEATURE_RO_COMPAT_LARGE_FILE\<rparr>\<rparr>))
                       \<lparr>fs_super_dirty := True\<rparr>
                  else fs)
        in Inr (fs, inode\<lparr>i_size := ucast (sz AND 0xffffffff), i_size_high := ucast (drop_bit 32 sz)\<rparr>))"

section \<open>Group descriptors\<close>

text \<open>
  \<^verbatim>\<open>ext2fs_group_desc\<close> gives the position of a descriptor; the product is computed in 32 bits.
\<close>

definition ext2fs_group_desc :: "ext2_filsys \<Rightarrow> u32 \<Rightarrow> nat" where
  "ext2fs_group_desc fs grp = unat (grp * EXT2_DESC_SIZE (fs_super fs))"

abbreviation with_desc :: "ext2_filsys \<Rightarrow> u8 list \<Rightarrow> ext2_filsys" where
  "with_desc fs bs \<equiv> fs\<lparr>fs_group_desc := bs\<rparr>"

definition gd_loc :: "ext2_filsys \<Rightarrow> u32 \<Rightarrow> nat \<Rightarrow> nat \<Rightarrow> u64" where
  "gd_loc fs grp lo hi =
     (let gdp = ext2fs_group_desc fs grp
      in ucast (ld32 (fs_group_desc fs) (gdp + lo)) OR
         (if has_64bit (fs_super fs) then push_bit 32 (ucast (ld32 (fs_group_desc fs) (gdp + hi))) else 0))"

definition gd_loc_set :: "ext2_filsys \<Rightarrow> u32 \<Rightarrow> nat \<Rightarrow> nat \<Rightarrow> u64 \<Rightarrow> ext2_filsys" where
  "gd_loc_set fs grp lo hi blk =
     (let gdp = ext2fs_group_desc fs grp;
          bs = st32 (fs_group_desc fs) (gdp + lo) (ucast blk)
      in if has_64bit (fs_super fs) then with_desc fs (st32 bs (gdp + hi) (ucast (drop_bit 32 blk)))
         else with_desc fs bs)"

definition gd_count :: "ext2_filsys \<Rightarrow> u32 \<Rightarrow> nat \<Rightarrow> nat \<Rightarrow> u32" where
  "gd_count fs grp lo hi =
     (let gdp = ext2fs_group_desc fs grp
      in ucast (ld16 (fs_group_desc fs) (gdp + lo)) OR
         (if has_64bit (fs_super fs) then push_bit 16 (ucast (ld16 (fs_group_desc fs) (gdp + hi))) else 0))"

definition gd_count_set :: "ext2_filsys \<Rightarrow> u32 \<Rightarrow> nat \<Rightarrow> nat \<Rightarrow> u32 \<Rightarrow> ext2_filsys" where
  "gd_count_set fs grp lo hi n =
     (let gdp = ext2fs_group_desc fs grp;
          bs = st16 (fs_group_desc fs) (gdp + lo) (ucast n)
      in if has_64bit (fs_super fs) then with_desc fs (st16 bs (gdp + hi) (ucast (drop_bit 16 n)))
         else with_desc fs bs)"

definition ext2fs_block_bitmap_loc :: "ext2_filsys \<Rightarrow> u32 \<Rightarrow> u64" where
  "ext2fs_block_bitmap_loc fs grp = gd_loc fs grp 0 32"

definition ext2fs_block_bitmap_loc_set :: "ext2_filsys \<Rightarrow> u32 \<Rightarrow> u64 \<Rightarrow> ext2_filsys" where
  "ext2fs_block_bitmap_loc_set fs grp blk = gd_loc_set fs grp 0 32 blk"

definition ext2fs_inode_bitmap_loc :: "ext2_filsys \<Rightarrow> u32 \<Rightarrow> u64" where
  "ext2fs_inode_bitmap_loc fs grp = gd_loc fs grp 4 36"

definition ext2fs_inode_bitmap_loc_set :: "ext2_filsys \<Rightarrow> u32 \<Rightarrow> u64 \<Rightarrow> ext2_filsys" where
  "ext2fs_inode_bitmap_loc_set fs grp blk = gd_loc_set fs grp 4 36 blk"

definition ext2fs_inode_table_loc :: "ext2_filsys \<Rightarrow> u32 \<Rightarrow> u64" where
  "ext2fs_inode_table_loc fs grp = gd_loc fs grp 8 40"

definition ext2fs_inode_table_loc_set :: "ext2_filsys \<Rightarrow> u32 \<Rightarrow> u64 \<Rightarrow> ext2_filsys" where
  "ext2fs_inode_table_loc_set fs grp blk = gd_loc_set fs grp 8 40 blk"

definition ext2fs_bg_free_blocks_count :: "ext2_filsys \<Rightarrow> u32 \<Rightarrow> u32" where
  "ext2fs_bg_free_blocks_count fs grp = gd_count fs grp 12 44"

definition ext2fs_bg_free_blocks_count_set :: "ext2_filsys \<Rightarrow> u32 \<Rightarrow> u32 \<Rightarrow> ext2_filsys" where
  "ext2fs_bg_free_blocks_count_set fs grp n = gd_count_set fs grp 12 44 n"

definition ext2fs_bg_free_inodes_count :: "ext2_filsys \<Rightarrow> u32 \<Rightarrow> u32" where
  "ext2fs_bg_free_inodes_count fs grp = gd_count fs grp 14 46"

definition ext2fs_bg_free_inodes_count_set :: "ext2_filsys \<Rightarrow> u32 \<Rightarrow> u32 \<Rightarrow> ext2_filsys" where
  "ext2fs_bg_free_inodes_count_set fs grp n = gd_count_set fs grp 14 46 n"

definition ext2fs_bg_used_dirs_count :: "ext2_filsys \<Rightarrow> u32 \<Rightarrow> u32" where
  "ext2fs_bg_used_dirs_count fs grp = gd_count fs grp 16 48"

definition ext2fs_bg_used_dirs_count_set :: "ext2_filsys \<Rightarrow> u32 \<Rightarrow> u32 \<Rightarrow> ext2_filsys" where
  "ext2fs_bg_used_dirs_count_set fs grp n = gd_count_set fs grp 16 48 n"

definition ext2fs_bg_itable_unused :: "ext2_filsys \<Rightarrow> u32 \<Rightarrow> u32" where
  "ext2fs_bg_itable_unused fs grp = gd_count fs grp 28 50"

definition ext2fs_bg_itable_unused_set :: "ext2_filsys \<Rightarrow> u32 \<Rightarrow> u32 \<Rightarrow> ext2_filsys" where
  "ext2fs_bg_itable_unused_set fs grp n = gd_count_set fs grp 28 50 n"

text \<open>The upper halves of the bitmap checksums are read when the descriptor size field covers them.\<close>

definition ext2fs_block_bitmap_checksum :: "ext2_filsys \<Rightarrow> u32 \<Rightarrow> u32" where
  "ext2fs_block_bitmap_checksum fs grp =
     (let gdp = ext2fs_group_desc fs grp; csum = ucast (ld16 (fs_group_desc fs) (gdp + 24))
      in if s_desc_size (fs_super fs) \<ge> 58
         then csum OR push_bit 16 (ucast (ld16 (fs_group_desc fs) (gdp + 56))) else csum)"

definition ext2fs_inode_bitmap_checksum :: "ext2_filsys \<Rightarrow> u32 \<Rightarrow> u32" where
  "ext2fs_inode_bitmap_checksum fs grp =
     (let gdp = ext2fs_group_desc fs grp; csum = ucast (ld16 (fs_group_desc fs) (gdp + 26))
      in if s_desc_size (fs_super fs) \<ge> 60
         then csum OR push_bit 16 (ucast (ld16 (fs_group_desc fs) (gdp + 58))) else csum)"

definition ext2fs_bg_flags :: "ext2_filsys \<Rightarrow> u32 \<Rightarrow> u16" where
  "ext2fs_bg_flags fs grp = ld16 (fs_group_desc fs) (ext2fs_group_desc fs grp + 18)"

definition ext2fs_bg_flags_zap :: "ext2_filsys \<Rightarrow> u32 \<Rightarrow> ext2_filsys" where
  "ext2fs_bg_flags_zap fs grp =
     with_desc fs (st16 (fs_group_desc fs) (ext2fs_group_desc fs grp + 18) 0)"

definition ext2fs_bg_flags_test :: "ext2_filsys \<Rightarrow> u32 \<Rightarrow> u16 \<Rightarrow> int" where
  "ext2fs_bg_flags_test fs grp bg_flag = uint (ext2fs_bg_flags fs grp AND bg_flag)"

definition ext2fs_bg_flags_set :: "ext2_filsys \<Rightarrow> u32 \<Rightarrow> u16 \<Rightarrow> ext2_filsys" where
  "ext2fs_bg_flags_set fs grp bg_flags =
     with_desc fs (st16 (fs_group_desc fs) (ext2fs_group_desc fs grp + 18)
                     (ext2fs_bg_flags fs grp OR bg_flags))"

definition ext2fs_bg_flags_clear :: "ext2_filsys \<Rightarrow> u32 \<Rightarrow> u16 \<Rightarrow> ext2_filsys" where
  "ext2fs_bg_flags_clear fs grp bg_flags =
     with_desc fs (st16 (fs_group_desc fs) (ext2fs_group_desc fs grp + 18)
                     (ext2fs_bg_flags fs grp AND NOT bg_flags))"

definition ext2fs_bg_checksum :: "ext2_filsys \<Rightarrow> u32 \<Rightarrow> u16" where
  "ext2fs_bg_checksum fs grp = ld16 (fs_group_desc fs) (ext2fs_group_desc fs grp + 30)"

definition ext2fs_bg_checksum_set :: "ext2_filsys \<Rightarrow> u32 \<Rightarrow> u16 \<Rightarrow> ext2_filsys" where
  "ext2fs_bg_checksum_set fs grp checksum =
     with_desc fs (st16 (fs_group_desc fs) (ext2fs_group_desc fs grp + 30) checksum)"

section \<open>Facts\<close>

lemma join32_split:
  "join32 True (ucast blk) (ucast (drop_bit 32 blk)) = blk"
  using ucast_join[of 32 blk, where ?'a = 32] by (simp add: join32_def)

lemma unat_join32_narrow: "join32 False lo hi = ucast lo"
  by (simp add: join32_def)

text \<open>
  A file system whose group count agrees with its size: every group but the last is full, the last one
  holds at least one block.
\<close>

definition geometry_ok :: "ext2_filsys \<Rightarrow> bool" where
  "geometry_ok fs \<longleftrightarrow>
     (let sb = fs_super fs;
          n = unat (ext2fs_blocks_count sb) - unat (s_first_data_block sb);
          b = unat (s_blocks_per_group sb)
      in 0 < b \<and> 0 < n \<and> unat (fs_group_desc_count fs) = (n + b - 1) div b)"

lemma geometry_facts:
  assumes "geometry_ok fs"
  obtains f b k n where
    "f = unat (s_first_data_block (fs_super fs))" "b = unat (s_blocks_per_group (fs_super fs))"
    "k = unat (fs_group_desc_count fs)" "unat (ext2fs_blocks_count (fs_super fs)) = f + n"
    "0 < b" "0 < n" "0 < k" "(k - 1) * b < n" "n \<le> k * b"
    "\<And>g. g \<le> fs_group_desc_count fs \<Longrightarrow> unat (ext2fs_group_first_block2 fs g) = f + unat g * b"
proof -
  define f where "f = unat (s_first_data_block (fs_super fs))"
  define b where "b = unat (s_blocks_per_group (fs_super fs))"
  define k where "k = unat (fs_group_desc_count fs)"
  define n where "n = unat (ext2fs_blocks_count (fs_super fs)) - f"
  have g: "0 < b" "0 < n" "k = (n + b - 1) div b"
    using assms by (simp_all add: geometry_ok_def Let_def f_def b_def k_def n_def)
  have "n + b - 1 = b * k + (n + b - 1) mod b" using g(3) by simp
  moreover have "(n + b - 1) mod b < b" using g(1) by simp
  ultimately have kb: "n \<le> k * b" "k * b < n + b" by (simp_all add: mult.commute)
  then have k: "0 < k" using g(2) by (cases k) simp_all
  have "(k - 1) * b + b = k * b" using k by (cases k) simp_all
  then have k1: "(k - 1) * b < n" using kb(2) by linarith
  have first: "unat (ext2fs_group_first_block2 fs g) = f + unat g * b" for g
  proof -
    have lb: "unat g \<le> 2 ^ 32 - 1" "b \<le> 2 ^ 32 - 1" "f \<le> 2 ^ 32 - 1"
      using unat_less32[of g] unat_less32[of "s_blocks_per_group (fs_super fs)"]
        unat_less32[of "s_first_data_block (fs_super fs)"] by (simp_all add: b_def f_def)
    have "unat g * b \<le> (2 ^ 32 - 1) * (2 ^ 32 - 1)" using lb(1,2) by (rule mult_le_mono)
    then have "f + unat g * b < 2 ^ 64" using lb(3) by simp
    then show ?thesis
      unfolding ext2fs_group_first_block2_def EXT2_GROUPS_TO_BLOCKS_def
      by (subst unat_plus64; subst unat_mult64) (simp_all add: f_def b_def mult.commute)
  qed
  show ?thesis
    by (rule that[of f b k n]) (use f_def b_def k_def n_def g kb k k1 first in simp_all)
qed

lemma in_group_iff: "(b :: nat) > 0 \<Longrightarrow> g * b \<le> d \<and> d < g * b + b \<longleftrightarrow> g = d div b"
  by (metis add.commute div_mult_self1_is_m div_nat_eqI dividend_less_div_times mult.commute mult_Suc
      times_div_less_eq_dividend)

lemma last_block_nat:
  assumes "geometry_ok fs" "g < fs_group_desc_count fs"
  defines "f \<equiv> unat (s_first_data_block (fs_super fs))" and "b \<equiv> unat (s_blocks_per_group (fs_super fs))"
    and "m \<equiv> unat (ext2fs_blocks_count (fs_super fs))"
  shows "unat (ext2fs_group_last_block2 fs g) + 1 =
           (if g = fs_group_desc_count fs - 1 then m else f + unat g * b + b)"
    and "g \<noteq> fs_group_desc_count fs - 1 \<Longrightarrow> f + unat g * b + b \<le> m"
    and "g = fs_group_desc_count fs - 1 \<Longrightarrow> f + unat g * b < m \<and> m \<le> f + unat g * b + b"
proof -
  obtain f' b' k n where g: "f' = f" "b' = b" "k = unat (fs_group_desc_count fs)" "m = f' + n"
    "0 < b'" "0 < n" "0 < k" "(k - 1) * b' < n" "n \<le> k * b'"
    "\<And>g. g \<le> fs_group_desc_count fs \<Longrightarrow> unat (ext2fs_group_first_block2 fs g) = f' + unat g * b'"
    using geometry_facts[OF assms(1)] unfolding f_def b_def m_def by metis
  have gk: "unat g < k" using assms(2) g(3) by (simp add: word_less_nat_alt)
  have k1: "unat (fs_group_desc_count fs - 1) = k - 1"
    using g(3,7) by (subst unat_minus_nat) simp_all
  have last: "g = fs_group_desc_count fs - 1 \<longleftrightarrow> unat g = k - 1"
    using k1 by (simp add: word_unat_eq_iff)
  have kb: "k * b' = (k - 1) * b' + b'" using g(7) by (cases k) simp_all
  show full: "g \<noteq> fs_group_desc_count fs - 1 \<Longrightarrow> f + unat g * b + b \<le> m"
  proof -
    assume "g \<noteq> fs_group_desc_count fs - 1"
    then have "unat g + 1 \<le> k - 1" using last gk by linarith
    then have "(unat g + 1) * b' \<le> (k - 1) * b'" by (rule mult_le_mono1)
    then show ?thesis using g(1,2,4,8) by simp
  qed
  show "g = fs_group_desc_count fs - 1 \<Longrightarrow> f + unat g * b < m \<and> m \<le> f + unat g * b + b"
    using last g(1,2,4,8,9) kb by simp
  show "unat (ext2fs_group_last_block2 fs g) + 1 =
           (if g = fs_group_desc_count fs - 1 then m else f + unat g * b + b)"
  proof (cases "g = fs_group_desc_count fs - 1")
    case True
    then show ?thesis
      using g(4,6) by (simp add: ext2fs_group_last_block2_def m_def unat_minus_nat)
  next
    case False
    have b1: "unat (s_blocks_per_group (fs_super fs) - 1) = b - 1"
      using g(2,5) by (subst unat_minus_nat) (simp_all add: b_def)
    have "unat (ext2fs_group_first_block2 fs g) = f + unat g * b"
      using g(1,2,10) assms(2) by (simp add: less_imp_le)
    then have "unat (ext2fs_group_last_block2 fs g) = f + unat g * b + (b - 1)"
      using False full[OF False] b1 unat_less64[of "ext2fs_blocks_count (fs_super fs)"]
      by (simp add: ext2fs_group_last_block2_def m_def unat_plus64)
    then show ?thesis using False g(2,5) by simp
  qed
qed

text \<open>C11: In a file system with a consistent geometry every block from the first data block to the last block lies in exactly one
  group: \<^verbatim>\<open>ext2fs_group_of_blk2\<close> names an existing group, the block is between that group's first and last block, and
  between no other group's.\<close>

theorem group_of_blk_partition:
  assumes "geometry_ok fs" "ucast (s_first_data_block (fs_super fs)) \<le> blk"
    and "blk < ext2fs_blocks_count (fs_super fs)"
  shows "ext2fs_group_of_blk2 fs blk < fs_group_desc_count fs \<and>
         (\<forall>g < fs_group_desc_count fs.
            ext2fs_group_first_block2 fs g \<le> blk \<and> blk \<le> ext2fs_group_last_block2 fs g
              \<longleftrightarrow> g = ext2fs_group_of_blk2 fs blk)"
proof -
  obtain f b k n where g: "f = unat (s_first_data_block (fs_super fs))" "b = unat (s_blocks_per_group (fs_super fs))"
    "k = unat (fs_group_desc_count fs)" "unat (ext2fs_blocks_count (fs_super fs)) = f + n"
    "0 < b" "0 < n" "0 < k" "(k - 1) * b < n" "n \<le> k * b"
    "\<And>g. g \<le> fs_group_desc_count fs \<Longrightarrow> unat (ext2fs_group_first_block2 fs g) = f + unat g * b"
    using geometry_facts[OF assms(1)] by metis
  define d where "d = unat blk - f"
  have blk: "unat blk = f + d" "d < n"
    using assms(2,3) g(1,4) by (simp_all add: d_def word_le_nat_alt word_less_nat_alt)
  have dk: "d div b < k" using blk(2) g(5,9) by (simp add: div_less_iff_less_mult)
  have "unat (blk - ucast (s_first_data_block (fs_super fs))) = d"
    using assms(2) g(1) by (simp add: unat_minus_le d_def)
  then have "unat ((blk - ucast (s_first_data_block (fs_super fs))) div ucast (s_blocks_per_group (fs_super fs)))
      = d div b"
    using g(2) by (simp add: unat_div)
  then have q: "unat (ext2fs_group_of_blk2 fs blk) = d div b"
    using dk g(3) unat_less32[of "fs_group_desc_count fs"]
    by (simp add: ext2fs_group_of_blk2_def unsigned_ucast_eq take_bit_nat_eq_self)
  have "ext2fs_group_first_block2 fs h \<le> blk \<and> blk \<le> ext2fs_group_last_block2 fs h
          \<longleftrightarrow> h = ext2fs_group_of_blk2 fs blk" if h: "h < fs_group_desc_count fs" for h
  proof -
    note lb = last_block_nat[OF assms(1) h]
    have fb: "unat (ext2fs_group_first_block2 fs h) = f + unat h * b" using g(10) h by simp
    have "blk \<le> ext2fs_group_last_block2 fs h \<longleftrightarrow> d < unat h * b + b"
      using lb blk g(1,2,4) by (auto simp: word_le_nat_alt split: if_splits)
    then have "ext2fs_group_first_block2 fs h \<le> blk \<and> blk \<le> ext2fs_group_last_block2 fs h
        \<longleftrightarrow> unat h * b \<le> d \<and> d < unat h * b + b"
      using fb blk(1) by (simp add: word_le_nat_alt)
    also have "\<dots> \<longleftrightarrow> h = ext2fs_group_of_blk2 fs blk"
      using in_group_iff[OF g(5)] q by (simp add: word_unat_eq_iff)
    finally show ?thesis .
  qed
  moreover have "ext2fs_group_of_blk2 fs blk < fs_group_desc_count fs"
    using q dk g(3) by (simp add: word_less_nat_alt)
  ultimately show ?thesis by blast
qed

definition demo_super :: "bool \<Rightarrow> ext2_super_block" where
  "demo_super wide = \<lparr>s_inodes_count = 64, s_blocks_count = 100, s_r_blocks_count = 5, s_free_blocks_count = 50,
     s_free_inodes_count = 20, s_first_data_block = 1, s_log_block_size = 0, s_log_cluster_size = 0,
     s_blocks_per_group = 32, s_clusters_per_group = 32, s_inodes_per_group = 16, s_rev_level = 1, s_first_ino = 11,
     s_inode_size = 128, s_feature_compat = 0, s_feature_incompat = (if wide then 0x80 else 0),
     s_feature_ro_compat = 1, s_reserved_gdt_blocks = 0, s_desc_size = (if wide then 64 else 0),
     s_first_meta_bg = 0, s_blocks_count_hi = 0, s_r_blocks_count_hi = 0, s_free_blocks_hi = 0,
     s_backup_bgs = (0, 0), s_uuid = replicate 16 0, s_creator_os = 0, s_checksum_type = 1\<rparr>"

definition demo_fs :: "bool \<Rightarrow> ext2_filsys" where
  "demo_fs wide = \<lparr>fs_magic = Some EXT2_ET_MAGIC_EXT2FS_FILSYS, fs_super = demo_super wide,
     fs_group_desc_count = 4, fs_desc_blocks = 1, fs_blocksize = 1024, fs_cluster_ratio_bits = 0,
     fs_inode_blocks_per_group = 2, fs_group_desc = replicate (if wide then 256 else 128) 0,
     fs_default_bitmap_type = 1, fs_flag_64bits = True, fs_super_dirty = False,
     fs_csum_seed = 0, fs_flag_rw = True, fs_flag_ignore_csum_errors = False\<rparr>"

theorem group_of_blk_partition_witness:
  "ext2fs_group_of_blk2 (demo_fs True) 97 = 3 \<and>
   ext2fs_group_first_block2 (demo_fs True) 3 \<le> 97 \<and> 97 \<le> ext2fs_group_last_block2 (demo_fs True) 3"
proof -
  have 1: "geometry_ok (demo_fs True)" "ucast (s_first_data_block (fs_super (demo_fs True))) \<le> (97 :: u64)"
    "97 < ext2fs_blocks_count (fs_super (demo_fs True))" by code_simp+
  have 2: "ext2fs_group_of_blk2 (demo_fs True) 97 = 3" "(3 :: u32) < fs_group_desc_count (demo_fs True)"
    by code_simp+
  show ?thesis
    using conjunct2[OF group_of_blk_partition[OF 1], rule_format, OF 2(2)] 2(1) by simp
qed

text \<open>In a file system with a consistent geometry, \<^verbatim>\<open>ext2fs_group_blocks_count\<close> of every group is the number of blocks from
  the group's first to its last block, the shorter last group included.\<close>

theorem group_blocks_count_exact:
  assumes "geometry_ok fs" "g < fs_group_desc_count fs"
  shows "unat (ext2fs_group_first_block2 fs g) + unat (ext2fs_group_blocks_count fs g)
           = unat (ext2fs_group_last_block2 fs g) + 1"
proof -
  obtain f b k n where geo: "f = unat (s_first_data_block (fs_super fs))" "b = unat (s_blocks_per_group (fs_super fs))"
    "k = unat (fs_group_desc_count fs)" "unat (ext2fs_blocks_count (fs_super fs)) = f + n"
    "0 < b" "0 < n" "0 < k" "(k - 1) * b < n" "n \<le> k * b"
    "\<And>g. g \<le> fs_group_desc_count fs \<Longrightarrow> unat (ext2fs_group_first_block2 fs g) = f + unat g * b"
    using geometry_facts[OF assms(1)] by metis
  note lb = last_block_nat[OF assms]
  have fb: "unat (ext2fs_group_first_block2 fs g) = f + unat g * b" using geo(10) assms(2) by simp
  show ?thesis
  proof (cases "g = fs_group_desc_count fs - 1")
    case False
    then show ?thesis using lb(1) fb geo(1,2) by (simp add: ext2fs_group_blocks_count_def)
  next
    case True
    let ?m = "(ext2fs_blocks_count (fs_super fs) - ucast (s_first_data_block (fs_super fs)))
                mod ucast (s_blocks_per_group (fs_super fs))"
    have m: "unat ?m = n mod b"
      using geo(1,2,4) by (simp add: unat_mod unat_minus_nat)
    have b32: "b < 2 ^ 32" using geo(2) unat_less32 by simp
    have "n mod b < 2 ^ 32" using geo(5) b32 by (meson less_trans mod_less_divisor)
    then have c: "unat (ucast ?m :: u32) = n mod b"
      by (simp add: unsigned_ucast_eq m take_bit_nat_eq_self)
    have ng: "unat g * b < n" "n \<le> unat g * b + b" using lb(3)[OF True] geo(1,2,4) by simp_all
    define r where "r = n - unat g * b"
    have r: "n = unat g * b + r" "0 < r" "r \<le> b" using ng by (simp_all add: r_def)
    then have "n mod b = (if r = b then 0 else r)" by simp
    moreover have "ucast ?m = (0 :: u32) \<longleftrightarrow> n mod b = 0" using c by (metis unat_eq_zero)
    ultimately have "unat (ext2fs_group_blocks_count fs g) = r"
      using True c r(2) geo(2) by (auto simp: ext2fs_group_blocks_count_def Let_def split: if_splits)
    then show ?thesis using lb(1) True fb geo(4) r(1) by simp
  qed
qed

theorem group_blocks_count_exact_witness:
  "ext2fs_group_blocks_count (demo_fs True) 3 = 3 \<and>
   unat (ext2fs_group_first_block2 (demo_fs True) 3) + 3 = unat (ext2fs_group_last_block2 (demo_fs True) 3) + 1"
proof -
  have 1: "geometry_ok (demo_fs True)" "(3 :: u32) < fs_group_desc_count (demo_fs True)"
    "ext2fs_group_blocks_count (demo_fs True) 3 = 3" by code_simp+
  show ?thesis using group_blocks_count_exact[OF 1(1,2)] 1(3) by simp
qed

text \<open>The three block counts of the superblock are stored without loss when the 64-bit feature is set, modulo \<open>2 ^ 32\<close>
  otherwise; storing one leaves the other two alone; the addition functions add modulo the same width.\<close>

theorem super_counts_roundtrip:
  fixes super :: ext2_super_block and x :: u64
  defines "w \<equiv> (if has_64bit super then 64 else 32)"
  shows "ext2fs_blocks_count (ext2fs_blocks_count_set super x) = take_bit w x \<and>
         ext2fs_r_blocks_count (ext2fs_blocks_count_set super x) = ext2fs_r_blocks_count super \<and>
         ext2fs_free_blocks_count (ext2fs_blocks_count_set super x) = ext2fs_free_blocks_count super \<and>
         ext2fs_r_blocks_count (ext2fs_r_blocks_count_set super x) = take_bit w x \<and>
         ext2fs_free_blocks_count (ext2fs_free_blocks_count_set super x) = take_bit w x \<and>
         ext2fs_blocks_count (ext2fs_blocks_count_add super x) = take_bit w (ext2fs_blocks_count super + x) \<and>
         ext2fs_r_blocks_count (ext2fs_r_blocks_count_add super x) = take_bit w (ext2fs_r_blocks_count super + x) \<and>
         ext2fs_free_blocks_count (ext2fs_free_blocks_count_add super x)
           = take_bit w (ext2fs_free_blocks_count super + x)"
proof -
  have rt: "join32 wide (ucast y) (if wide then ucast (drop_bit 32 y) else h) = take_bit (if wide then 64 else 32) y"
    for wide y h
  proof (cases wide)
    case True
    then show ?thesis using join32_split[of y] by (simp add: take_bit_word_eq_self)
  next
    case False
    have "ucast (ucast y :: u32) = take_bit 32 y"
      by (rule bit_word_eqI) (simp add: bit_unsigned_iff bit_take_bit_iff)
    then show ?thesis using False by (simp add: unat_join32_narrow)
  qed
  show ?thesis
    using rt[of True] rt[of False]
    by (simp add: w_def has_64bit_def Let_def ext2fs_blocks_count_def ext2fs_blocks_count_set_def
        ext2fs_r_blocks_count_def ext2fs_r_blocks_count_set_def ext2fs_free_blocks_count_def
        ext2fs_free_blocks_count_set_def ext2fs_blocks_count_add_def ext2fs_r_blocks_count_add_def
        ext2fs_free_blocks_count_add_def)
qed

section \<open>The descriptor fields are independent\<close>

text \<open>
  The fields of a group descriptor with an access function and a set function; flags are set by \<^verbatim>\<open>ext2fs_bg_flags_zap\<close> and
  \<^verbatim>\<open>ext2fs_bg_flags_set\<close>.
\<close>

datatype gd_field = BlockBitmap | InodeBitmap | InodeTable | FreeBlocks | FreeInodes | UsedDirs | ItableUnused
  | Flags | Checksum

fun gd_get :: "ext2_filsys \<Rightarrow> u32 \<Rightarrow> gd_field \<Rightarrow> u64" where
  "gd_get fs g BlockBitmap = ext2fs_block_bitmap_loc fs g"
| "gd_get fs g InodeBitmap = ext2fs_inode_bitmap_loc fs g"
| "gd_get fs g InodeTable = ext2fs_inode_table_loc fs g"
| "gd_get fs g FreeBlocks = ucast (ext2fs_bg_free_blocks_count fs g)"
| "gd_get fs g FreeInodes = ucast (ext2fs_bg_free_inodes_count fs g)"
| "gd_get fs g UsedDirs = ucast (ext2fs_bg_used_dirs_count fs g)"
| "gd_get fs g ItableUnused = ucast (ext2fs_bg_itable_unused fs g)"
| "gd_get fs g Flags = ucast (ext2fs_bg_flags fs g)"
| "gd_get fs g Checksum = ucast (ext2fs_bg_checksum fs g)"

fun gd_put :: "ext2_filsys \<Rightarrow> u32 \<Rightarrow> gd_field \<Rightarrow> u64 \<Rightarrow> ext2_filsys" where
  "gd_put fs g BlockBitmap v = ext2fs_block_bitmap_loc_set fs g v"
| "gd_put fs g InodeBitmap v = ext2fs_inode_bitmap_loc_set fs g v"
| "gd_put fs g InodeTable v = ext2fs_inode_table_loc_set fs g v"
| "gd_put fs g FreeBlocks v = ext2fs_bg_free_blocks_count_set fs g (ucast v)"
| "gd_put fs g FreeInodes v = ext2fs_bg_free_inodes_count_set fs g (ucast v)"
| "gd_put fs g UsedDirs v = ext2fs_bg_used_dirs_count_set fs g (ucast v)"
| "gd_put fs g ItableUnused v = ext2fs_bg_itable_unused_set fs g (ucast v)"
| "gd_put fs g Flags v = ext2fs_bg_flags_set (ext2fs_bg_flags_zap fs g) g (ucast v)"
| "gd_put fs g Checksum v = ext2fs_bg_checksum_set fs g (ucast v)"

fun gd_width :: "bool \<Rightarrow> gd_field \<Rightarrow> nat" where
  "gd_width wide Flags = 16"
| "gd_width wide Checksum = 16"
| "gd_width wide BlockBitmap = (if wide then 64 else 32)"
| "gd_width wide InodeBitmap = (if wide then 64 else 32)"
| "gd_width wide InodeTable = (if wide then 64 else 32)"
| "gd_width wide _ = (if wide then 32 else 16)"

text \<open>The array holds all descriptors, and the position of each is computed without overflow.\<close>

definition descs_ok :: "ext2_filsys \<Rightarrow> bool" where
  "descs_ok fs \<longleftrightarrow>
     (let d = unat (EXT2_DESC_SIZE (fs_super fs)); k = unat (fs_group_desc_count fs)
      in (if has_64bit (fs_super fs) then 64 else 32) \<le> d \<and> k * d < 2 ^ 32 \<and> k * d \<le> length (fs_group_desc fs))"

lemma desc_pos:
  assumes "descs_ok fs" "g < fs_group_desc_count fs"
  shows "ext2fs_group_desc fs g = unat g * unat (EXT2_DESC_SIZE (fs_super fs))"
    and "ext2fs_group_desc fs g + (if has_64bit (fs_super fs) then 64 else 32) \<le> length (fs_group_desc fs)"
proof -
  let ?d = "unat (EXT2_DESC_SIZE (fs_super fs))" and ?k = "unat (fs_group_desc_count fs)"
  have d: "(if has_64bit (fs_super fs) then 64 else 32) \<le> ?d" "?k * ?d < 2 ^ 32" "?k * ?d \<le> length (fs_group_desc fs)"
    using assms(1) by (simp_all add: descs_ok_def Let_def)
  have "(unat g + 1) * ?d \<le> ?k * ?d"
    using assms(2) by (intro mult_le_mono1) (simp add: word_less_nat_alt)
  then have le: "unat g * ?d + ?d \<le> ?k * ?d" by simp
  then have "unat g * ?d < 2 ^ 32" using d(2) by linarith
  then show pos: "ext2fs_group_desc fs g = unat g * ?d"
    by (simp add: ext2fs_group_desc_def unat_word_ariths)
  show "ext2fs_group_desc fs g + (if has_64bit (fs_super fs) then 64 else 32) \<le> length (fs_group_desc fs)"
    unfolding pos using le d(1,3) by linarith
qed

lemma desc_apart:
  assumes "descs_ok fs" "g < fs_group_desc_count fs" "h < fs_group_desc_count fs" "g \<noteq> h"
  shows "ext2fs_group_desc fs g + (if has_64bit (fs_super fs) then 64 else 32) \<le> ext2fs_group_desc fs h \<or>
         ext2fs_group_desc fs h + (if has_64bit (fs_super fs) then 64 else 32) \<le> ext2fs_group_desc fs g"
proof -
  let ?d = "unat (EXT2_DESC_SIZE (fs_super fs))"
  have d: "(if has_64bit (fs_super fs) then 64 else 32) \<le> ?d" using assms(1) by (simp add: descs_ok_def Let_def)
  have "unat g < unat h \<or> unat h < unat g" using assms(4) by (metis linorder_neqE_nat word_unat_eq_iff)
  then have "(unat g + 1) * ?d \<le> unat h * ?d \<or> (unat h + 1) * ?d \<le> unat g * ?d"
    using mult_le_mono1[of "unat g + 1" "unat h" ?d] mult_le_mono1[of "unat h + 1" "unat g" ?d]
    by (elim disjE) simp_all
  then have "unat g * ?d + ?d \<le> unat h * ?d \<or> unat h * ?d + ?d \<le> unat g * ?d"
    by (simp add: add.commute)
  then show ?thesis
    using d unfolding desc_pos(1)[OF assms(1,2)] desc_pos(1)[OF assms(1,3)] by linarith
qed

lemmas gd_access_defs = gd_loc_def gd_loc_set_def gd_count_def gd_count_set_def Let_def
  ext2fs_block_bitmap_loc_def ext2fs_inode_bitmap_loc_def ext2fs_inode_table_loc_def
  ext2fs_block_bitmap_loc_set_def ext2fs_inode_bitmap_loc_set_def ext2fs_inode_table_loc_set_def
  ext2fs_bg_free_blocks_count_def ext2fs_bg_free_inodes_count_def ext2fs_bg_used_dirs_count_def
  ext2fs_bg_itable_unused_def ext2fs_bg_free_blocks_count_set_def ext2fs_bg_free_inodes_count_set_def
  ext2fs_bg_used_dirs_count_set_def ext2fs_bg_itable_unused_set_def ext2fs_bg_flags_def ext2fs_bg_flags_set_def
  ext2fs_bg_flags_zap_def ext2fs_bg_checksum_def ext2fs_bg_checksum_set_def

lemma group_desc_with_desc [simp]: "ext2fs_group_desc (with_desc fs bs) g = ext2fs_group_desc fs g"
  by (simp add: ext2fs_group_desc_def)

text \<open>Other groups: every write of a field of \<open>g\<close> stays inside the descriptor of \<open>g\<close>.\<close>

lemma gd_put_other_group:
  assumes "descs_ok fs" "g < fs_group_desc_count fs" "h < fs_group_desc_count fs" "g \<noteq> h"
  shows "gd_get (gd_put fs g f v) h f' = gd_get fs h f'"
proof -
  let ?p = "ext2fs_group_desc fs g" and ?q = "ext2fs_group_desc fs h"
  show ?thesis
  proof (cases "has_64bit (fs_super fs)")
    case True
    then have "?p + 64 \<le> ?q \<or> ?q + 64 \<le> ?p" using desc_apart[OF assms] by simp
    then show ?thesis
      by (elim disjE; cases f; cases f') (simp_all add: gd_access_defs True field_simps_mem)
  next
    case False
    then have "?p + 32 \<le> ?q \<or> ?q + 32 \<le> ?p" using desc_apart[OF assms] by simp
    then show ?thesis
      by (elim disjE; cases f; cases f') (simp_all add: gd_access_defs False field_simps_mem)
  qed
qed

lemma gd_put_other_field:
  assumes "f \<noteq> f'"
  shows "gd_get (gd_put fs g f v) g f' = gd_get fs g f'"
  using assms
  by (cases "has_64bit (fs_super fs)"; cases f; cases f') (simp_all add: gd_access_defs field_simps_mem)

lemma gd_put_same:
  assumes "descs_ok fs" "g < fs_group_desc_count fs" "v = take_bit (gd_width (has_64bit (fs_super fs)) f) v"
  shows "gd_get (gd_put fs g f v) g f = v"
proof -
  let ?p = "ext2fs_group_desc fs g"
  have j64: "ucast (ucast v :: u32) OR push_bit 32 (ucast (ucast (drop_bit 32 v) :: u32)) = v"
    using ucast_join[of 32 v, where ?'a = 32] by simp
  have j32: "ucast (ucast x :: u16) OR push_bit 16 (ucast (ucast (drop_bit 16 x) :: u16)) = x" for x :: u32
    using ucast_join[of 16 x, where ?'a = 16] by simp
  have n32: "ucast (ucast v :: u32) = take_bit 32 v" and n16: "ucast (ucast v :: u16) = take_bit 16 v"
    and n16': "ucast (ucast (ucast v :: u32) :: u16) = (ucast v :: u16)"
    and n16'': "ucast (ucast (ucast v :: u16) :: u32) = (take_bit 16 v :: u64)"
    and n16x: "ucast (ucast (ucast (ucast v :: u32) :: u16) :: u32) = (take_bit 16 v :: u64)"
    by (rule bit_word_eqI; auto simp: bit_unsigned_iff bit_take_bit_iff)+
  have pos: "?p + (if has_64bit (fs_super fs) then 64 else 32) \<le> length (fs_group_desc fs)"
    by (rule desc_pos(2)[OF assms(1,2)])
  show ?thesis
    using pos assms(3)
    by (cases "has_64bit (fs_super fs)"; cases f)
       (simp_all add: gd_access_defs field_simps_mem j64[unfolded n32] j32 n32 n16 n16' n16'' n16x)
qed

text \<open>C12: The access functions of the group descriptors treat the descriptor array as independent variables, one for every group
  and field: after a field of a group is set, it reads back as the value (if the value fits the width the
  field has with or without the 64-bit feature), and every other field, of this group and of all
  others, reads as before.\<close>

theorem group_desc_fields_independent:
  assumes "descs_ok fs" "g < fs_group_desc_count fs" "h < fs_group_desc_count fs"
    and "v = take_bit (gd_width (has_64bit (fs_super fs)) f) v"
  shows "gd_get (gd_put fs g f v) h f' = (if h = g \<and> f' = f then v else gd_get fs h f')"
  using gd_put_same[OF assms(1,2,4)] gd_put_other_field[of f f'] gd_put_other_group[OF assms(1-3)]
  by (cases "h = g"; cases "f' = f") simp_all

theorem group_desc_fields_independent_witness:
  "gd_get (gd_put (demo_fs True) 2 InodeTable 0x123456789abc) 2 InodeTable = 0x123456789abc \<and>
   gd_get (gd_put (demo_fs True) 2 InodeTable 0x123456789abc) 2 FreeBlocks = gd_get (demo_fs True) 2 FreeBlocks"
proof -
  have 1: "descs_ok (demo_fs True)"
    by (simp add: descs_ok_def Let_def demo_fs_def demo_super_def EXT2_DESC_SIZE_def has_64bit_def feature_defs)
  have 2: "(2 :: u32) < fs_group_desc_count (demo_fs True)"
    "(0x123456789abc :: u64) = take_bit (gd_width (has_64bit (fs_super (demo_fs True))) InodeTable) 0x123456789abc"
    by code_simp+
  show ?thesis
    using group_desc_fields_independent[OF 1 2(1) 2(1) 2(2), of InodeTable]
      group_desc_fields_independent[OF 1 2(1) 2(1) 2(2), of FreeBlocks] by simp
qed

text \<open>\<^verbatim>\<open>ext2fs_inode_size_set\<close> fails exactly for a size of 4 GB or more of something that is not a regular file. Otherwise the
  two size fields hold the size, and a regular file of 2 GB or more leaves the file system with the
  \<^verbatim>\<open>large_file\<close> feature and a dynamic revision.\<close>

theorem inode_size_set_correct:
  "case ext2fs_inode_size_set fs inode sz of
     Inl e \<Rightarrow> e = EXT2_ET_FILE_TOO_BIG \<and> \<not> LINUX_S_ISREG (i_mode inode) \<and> sz \<ge> 2 ^ 32
   | Inr (fs', inode') \<Rightarrow>
       (LINUX_S_ISREG (i_mode inode) \<or> sz < 2 ^ 32) \<and>
       join32 True (i_size inode') (i_size_high inode') = sz \<and>
       (LINUX_S_ISREG (i_mode inode) \<and> sz \<ge> 2 ^ 31 \<longrightarrow>
          s_feature_ro_compat (fs_super fs') AND EXT2_FEATURE_RO_COMPAT_LARGE_FILE \<noteq> 0 \<and>
          s_rev_level (fs_super fs') \<noteq> 0)"
proof -
  have hi: "drop_bit 32 sz \<noteq> 0 \<longleftrightarrow> sz \<ge> 2 ^ 32"
  proof -
    have "drop_bit 32 sz \<noteq> 0 \<longleftrightarrow> unat sz div 2 ^ 32 \<noteq> 0"
      by (metis unat_drop_bit unat_eq_zero)
    also have "\<dots> \<longleftrightarrow> 2 ^ 32 \<le> unat sz" by (simp add: div_eq_0_iff not_less)
    finally show ?thesis by (simp add: word_le_nat_alt)
  qed
  have lo: "ucast (sz AND 0xffffffff) = (ucast sz :: u32)"
  proof -
    have "(0xffffffff :: u64) = mask 32" by (simp add: mask_eq_exp_minus_1)
    then have "sz AND 0xffffffff = take_bit 32 sz" by (simp only: take_bit_eq_mask)
    moreover have "ucast (take_bit 32 sz) = (ucast sz :: u32)"
      by (rule bit_word_eqI) (simp add: bit_unsigned_iff bit_take_bit_iff)
    ultimately show ?thesis by simp
  qed
  have lf: "x OR 2 AND 2 \<noteq> (0 :: u32)" for x
  proof -
    have "bit (x OR 2 AND 2) 1 \<longleftrightarrow> bit (2 :: u32) 1" by (simp add: bit_and_iff bit_or_iff)
    moreover have "bit (2 :: u32) 1" by simp
    ultimately show ?thesis by (metis bit_0_eq bot_apply bot_bool_def)
  qed
  show ?thesis
    using join32_split[of sz] hi lf
    by (auto simp: ext2fs_inode_size_set_def Let_def lo not_le ext2fs_update_dynamic_rev_def feature_defs)
qed

theorem inode_size_set_correct_witness:
  "case ext2fs_inode_size_set (demo_fs False)
        \<lparr>i_mode = 0x8000, i_size = 0, i_size_high = 0, i_blocks = 0, l_i_blocks_hi = 0, i_file_acl = 0, l_i_file_acl_high = 0\<rparr>
        0x180000000 of
     Inl e \<Rightarrow> False
   | Inr (fs', inode') \<Rightarrow>
       i_size_high inode' = 1 \<and> s_feature_ro_compat (fs_super fs') AND EXT2_FEATURE_RO_COMPAT_LARGE_FILE \<noteq> 0"
proof -
  let ?i = "\<lparr>i_mode = 0x8000, i_size = 0, i_size_high = 0, i_blocks = 0, l_i_blocks_hi = 0, i_file_acl = 0,
    l_i_file_acl_high = 0\<rparr> :: ext2_inode"
  have r: "LINUX_S_ISREG (i_mode ?i)" by code_simp
  obtain fs' inode' where e: "ext2fs_inode_size_set (demo_fs False) ?i 0x180000000 = Inr (fs', inode')"
    using r by (auto simp: ext2fs_inode_size_set_def Let_def)
  have "s_feature_ro_compat (fs_super fs') AND EXT2_FEATURE_RO_COMPAT_LARGE_FILE \<noteq> 0"
    using inode_size_set_correct[where fs = "demo_fs False" and inode = ?i and sz = "0x180000000"] r by (simp add: e)
  moreover have "i_size_high inode' = 1" using e by (auto simp: ext2fs_inode_size_set_def Let_def split: if_splits)
  ultimately show ?thesis by (simp add: e)
qed

end
