(* ===== verification/Bitmaps.thy ===== *)
theory Bitmaps
  imports Gen_Bitmap64 Blknum
begin

text \<open>
  \<^verbatim>\<open>lib/ext2fs/bitmaps.c\<close>: the block and inode bitmaps of a file system, allocated from its geometry, and the wrappers
  that pass their calls to the generic layer; and the conversion of a per-block bitmap to clusters
  of \<^verbatim>\<open>gen_bitmap64.c\<close>. \<open>ops\<close> is the backend that the file system's default type selects. A call to a
  function of the 32-bit layer on a 64-bit bitmap fails on its magic number, which is
  never that of a 32-bit bitmap.
\<close>

section \<open>Allocation\<close>

definition EXT2FS_B2C :: "ext2_filsys \<Rightarrow> u64 \<Rightarrow> u64" where
  "EXT2FS_B2C fs blk = drop_bit (fs_cluster_ratio_bits fs) blk"

definition alloc_fs_bitmap ::
  "('p, 'm) bitmap_ops \<Rightarrow> 'm gb_mem \<Rightarrow> g32_mem \<Rightarrow> ext2_filsys \<Rightarrow> errcode \<Rightarrow> errcode \<Rightarrow> u64 \<Rightarrow> u64 \<Rightarrow> u64 \<Rightarrow> string option \<Rightarrow>
   errcode + 'p any_bitmap" where
  "alloc_fs_bitmap ops m m32 fs magic64 magic32 start end1 real_end descr =
     (if fs_flag_64bits fs then
        (case ext2fs_alloc_generic_bmap ops m (fs_cluster_ratio_bits fs) magic64 start end1 real_end descr of
           Inl e \<Rightarrow> Inl e | Inr b \<Rightarrow> Inr (Bitmap64 b))
      else if end1 > 0xffffffff \<or> real_end > 0xffffffff then Inl EXT2_ET_CANT_USE_LEGACY_BITMAPS
      else (case ext2fs_make_generic_bitmap m32 (Some magic32) (ucast start) (ucast end1) (ucast real_end) descr None of
              Inl e \<Rightarrow> Inl e | Inr b \<Rightarrow> Inr (Bitmap32 b)))"

definition ext2fs_allocate_inode_bitmap ::
  "('p, 'm) bitmap_ops \<Rightarrow> 'm gb_mem \<Rightarrow> g32_mem \<Rightarrow> ext2_filsys \<Rightarrow> string option \<Rightarrow> errcode + 'p any_bitmap" where
  "ext2fs_allocate_inode_bitmap ops m m32 fs descr =
     (if fs_magic fs \<noteq> Some EXT2_ET_MAGIC_EXT2FS_FILSYS then Inl EXT2_ET_MAGIC_EXT2FS_FILSYS
      else alloc_fs_bitmap ops m m32 fs EXT2_ET_MAGIC_INODE_BITMAP64 EXT2_ET_MAGIC_INODE_BITMAP
             1 (ucast (s_inodes_count (fs_super fs)))
             (ucast (s_inodes_per_group (fs_super fs) * fs_group_desc_count fs)) descr)"

definition ext2fs_allocate_block_bitmap ::
  "('p, 'm) bitmap_ops \<Rightarrow> 'm gb_mem \<Rightarrow> g32_mem \<Rightarrow> ext2_filsys \<Rightarrow> string option \<Rightarrow> errcode + 'p any_bitmap" where
  "ext2fs_allocate_block_bitmap ops m m32 fs descr =
     (if fs_magic fs \<noteq> Some EXT2_ET_MAGIC_EXT2FS_FILSYS then Inl EXT2_ET_MAGIC_EXT2FS_FILSYS
      else
        let start = EXT2FS_B2C fs (ucast (s_first_data_block (fs_super fs)));
            end1 = EXT2FS_B2C fs (ext2fs_blocks_count (fs_super fs) - 1);
            real_end = ucast (s_clusters_per_group (fs_super fs)) * ucast (fs_group_desc_count fs) - 1 + start
        in alloc_fs_bitmap ops m m32 fs EXT2_ET_MAGIC_BLOCK_BITMAP64 EXT2_ET_MAGIC_BLOCK_BITMAP
             start end1 real_end descr)"

definition ext2fs_allocate_subcluster_bitmap ::
  "('p, 'm) bitmap_ops \<Rightarrow> 'm gb_mem \<Rightarrow> g32_mem \<Rightarrow> ext2_filsys \<Rightarrow> string option \<Rightarrow> errcode + 'p any_bitmap" where
  "ext2fs_allocate_subcluster_bitmap ops m m32 fs descr =
     (if fs_magic fs \<noteq> Some EXT2_ET_MAGIC_EXT2FS_FILSYS then Inl EXT2_ET_MAGIC_EXT2FS_FILSYS
      else if fs_cluster_ratio_bits fs = 0 then ext2fs_allocate_block_bitmap ops m m32 fs descr
      else if \<not> fs_flag_64bits fs then Inl EXT2_ET_CANT_USE_LEGACY_BITMAPS
      else
        let start = ucast (s_first_data_block (fs_super fs));
            end1 = ext2fs_blocks_count (fs_super fs) - 1;
            real_end = ucast (s_blocks_per_group (fs_super fs)) * ucast (fs_group_desc_count fs) - 1 + start
        in case ext2fs_alloc_generic_bmap ops m (fs_cluster_ratio_bits fs) EXT2_ET_MAGIC_BLOCK_BITMAP64
                  start end1 real_end descr of
             Inl e \<Rightarrow> Inl e
           | Inr b \<Rightarrow> Inr (Bitmap64 (b\<lparr>gb_cluster_bits := 0\<rparr>)))"

section \<open>Wrappers\<close>

definition ext2fs_copy_bitmap ::
  "('p, 'm) bitmap_ops \<Rightarrow> 'm gb_mem \<Rightarrow> g32_mem \<Rightarrow> 'p bitmap_ptr \<Rightarrow> errcode + 'p any_bitmap" where
  "ext2fs_copy_bitmap ops m m32 src = ext2fs_copy_generic_bmap ops m m32 src"

definition ext2fs_set_bitmap_padding :: "('p, 'm) bitmap_ops \<Rightarrow> 'p any_bitmap \<Rightarrow> 'p any_bitmap" where
  "ext2fs_set_bitmap_padding ops bm = ext2fs_set_generic_bmap_padding ops bm"

definition ext2fs_get_bitmap_granularity :: "'p any_bitmap \<Rightarrow> nat" where
  "ext2fs_get_bitmap_granularity bitmap =
     (case bitmap of
        Bitmap32 b \<Rightarrow> 0
      | Bitmap64 b \<Rightarrow> if EXT2FS_IS_64_BITMAP (gb_magic b) then gb_cluster_bits b else 0)"

definition ext2fs_fudge_inode_bitmap_end :: "'p bitmap_ptr \<Rightarrow> u32 \<Rightarrow> errcode + u32 \<times> 'p any_bitmap" where
  "ext2fs_fudge_inode_bitmap_end bitmap end1 =
     (case ext2fs_fudge_generic_bmap_end bitmap EXT2_ET_FUDGE_INODE_BITMAP_END (ucast end1) of
        Inl e \<Rightarrow> Inl e
      | Inr (oend, b) \<Rightarrow> Inr (ucast oend, b))"

definition ext2fs_fudge_block_bitmap_end :: "'p any_bitmap \<Rightarrow> u32 \<Rightarrow> errcode + u32 \<times> 'p any_bitmap" where
  "ext2fs_fudge_block_bitmap_end bitmap end1 =
     (case bitmap of
        Bitmap64 b \<Rightarrow> Inl EXT2_ET_MAGIC_BLOCK_BITMAP
      | Bitmap32 b \<Rightarrow>
          (case ext2fs_fudge_generic_bitmap_end b EXT2_ET_MAGIC_BLOCK_BITMAP EXT2_ET_FUDGE_BLOCK_BITMAP_END end1 of
             Inl e \<Rightarrow> Inl e | Inr (oend, b) \<Rightarrow> Inr (oend, Bitmap32 b)))"

definition ext2fs_fudge_block_bitmap_end2 :: "'p bitmap_ptr \<Rightarrow> u64 \<Rightarrow> errcode + u64 \<times> 'p any_bitmap" where
  "ext2fs_fudge_block_bitmap_end2 bitmap end1 =
     ext2fs_fudge_generic_bmap_end bitmap EXT2_ET_FUDGE_BLOCK_BITMAP_END end1"

definition ext2fs_clear_inode_bitmap :: "('p, 'm) bitmap_ops \<Rightarrow> 'p any_bitmap \<Rightarrow> 'p any_bitmap" where
  "ext2fs_clear_inode_bitmap ops bitmap = ext2fs_clear_generic_bmap ops bitmap"

definition ext2fs_clear_block_bitmap :: "('p, 'm) bitmap_ops \<Rightarrow> 'p any_bitmap \<Rightarrow> 'p any_bitmap" where
  "ext2fs_clear_block_bitmap ops bitmap = ext2fs_clear_generic_bmap ops bitmap"

definition resize_legacy ::
  "(nat \<Rightarrow> u8) option \<Rightarrow> errcode \<Rightarrow> u32 \<Rightarrow> u32 \<Rightarrow> 'p any_bitmap \<Rightarrow> errcode option \<times> 'p any_bitmap" where
  "resize_legacy m32 magic new_end new_real_end bitmap =
     (case bitmap of
        Bitmap64 b \<Rightarrow> (Some magic, bitmap)
      | Bitmap32 b \<Rightarrow> (case ext2fs_resize_generic_bitmap m32 magic new_end new_real_end b of (r, b) \<Rightarrow> (r, Bitmap32 b)))"

definition ext2fs_resize_inode_bitmap ::
  "(nat \<Rightarrow> u8) option \<Rightarrow> u32 \<Rightarrow> u32 \<Rightarrow> 'p any_bitmap \<Rightarrow> errcode option \<times> 'p any_bitmap" where
  "ext2fs_resize_inode_bitmap m32 new_end new_real_end bitmap =
     resize_legacy m32 EXT2_ET_MAGIC_INODE_BITMAP new_end new_real_end bitmap"

definition ext2fs_resize_inode_bitmap2 ::
  "('p, 'm) bitmap_ops \<Rightarrow> 'm \<Rightarrow> (nat \<Rightarrow> u8) option \<Rightarrow> u64 \<Rightarrow> u64 \<Rightarrow> 'p bitmap_ptr \<Rightarrow> errcode option \<times> 'p bitmap_ptr" where
  "ext2fs_resize_inode_bitmap2 ops m m32 new_end new_real_end bmap =
     ext2fs_resize_generic_bmap ops m m32 bmap new_end new_real_end"

definition ext2fs_resize_block_bitmap ::
  "(nat \<Rightarrow> u8) option \<Rightarrow> u32 \<Rightarrow> u32 \<Rightarrow> 'p any_bitmap \<Rightarrow> errcode option \<times> 'p any_bitmap" where
  "ext2fs_resize_block_bitmap m32 new_end new_real_end bitmap =
     resize_legacy m32 EXT2_ET_MAGIC_BLOCK_BITMAP new_end new_real_end bitmap"

definition ext2fs_resize_block_bitmap2 ::
  "('p, 'm) bitmap_ops \<Rightarrow> 'm \<Rightarrow> (nat \<Rightarrow> u8) option \<Rightarrow> u64 \<Rightarrow> u64 \<Rightarrow> 'p bitmap_ptr \<Rightarrow> errcode option \<times> 'p bitmap_ptr" where
  "ext2fs_resize_block_bitmap2 ops m m32 new_end new_real_end bmap =
     ext2fs_resize_generic_bmap ops m m32 bmap new_end new_real_end"

definition ext2fs_compare_block_bitmap ::
  "('p, 'm) bitmap_ops \<Rightarrow> ('q, 'n) bitmap_ops \<Rightarrow> 'p bitmap_ptr \<Rightarrow> 'q bitmap_ptr \<Rightarrow>
   (errcode option \<times> 'p bitmap_ptr \<times> 'q bitmap_ptr) option" where
  "ext2fs_compare_block_bitmap ops1 ops2 bm1 bm2 = ext2fs_compare_generic_bmap ops1 ops2 EXT2_ET_NEQ_BLOCK_BITMAP bm1 bm2"

definition ext2fs_compare_inode_bitmap ::
  "('p, 'm) bitmap_ops \<Rightarrow> ('q, 'n) bitmap_ops \<Rightarrow> 'p bitmap_ptr \<Rightarrow> 'q bitmap_ptr \<Rightarrow>
   (errcode option \<times> 'p bitmap_ptr \<times> 'q bitmap_ptr) option" where
  "ext2fs_compare_inode_bitmap ops1 ops2 bm1 bm2 = ext2fs_compare_generic_bmap ops1 ops2 EXT2_ET_NEQ_INODE_BITMAP bm1 bm2"

definition set_range_legacy ::
  "errcode \<Rightarrow> 'p any_bitmap \<Rightarrow> u32 \<Rightarrow> u32 \<Rightarrow> u8 list \<Rightarrow> errcode option \<times> 'p any_bitmap" where
  "set_range_legacy magic bitmap start num inbuf =
     (case bitmap of
        Bitmap64 b \<Rightarrow> (Some magic, bitmap)
      | Bitmap32 b \<Rightarrow> (case ext2fs_set_generic_bitmap_range b magic start num inbuf of (r, b) \<Rightarrow> (r, Bitmap32 b)))"

definition get_range_legacy :: "errcode \<Rightarrow> 'p any_bitmap \<Rightarrow> u32 \<Rightarrow> u32 \<Rightarrow> u8 list \<Rightarrow> errcode + u8 list" where
  "get_range_legacy magic bitmap start num outbuf =
     (case bitmap of
        Bitmap64 b \<Rightarrow> Inl magic
      | Bitmap32 b \<Rightarrow> ext2fs_get_generic_bitmap_range b magic start num outbuf)"

definition ext2fs_set_inode_bitmap_range ::
  "'p any_bitmap \<Rightarrow> u32 \<Rightarrow> u32 \<Rightarrow> u8 list \<Rightarrow> errcode option \<times> 'p any_bitmap" where
  "ext2fs_set_inode_bitmap_range = set_range_legacy EXT2_ET_MAGIC_INODE_BITMAP"

definition ext2fs_set_inode_bitmap_range2 ::
  "('p, 'm) bitmap_ops \<Rightarrow> 'p bitmap_ptr \<Rightarrow> u64 \<Rightarrow> u32 \<Rightarrow> u8 list \<Rightarrow> errcode option \<times> 'p bitmap_ptr" where
  "ext2fs_set_inode_bitmap_range2 = ext2fs_set_generic_bmap_range"

definition ext2fs_get_inode_bitmap_range :: "'p any_bitmap \<Rightarrow> u32 \<Rightarrow> u32 \<Rightarrow> u8 list \<Rightarrow> errcode + u8 list" where
  "ext2fs_get_inode_bitmap_range = get_range_legacy EXT2_ET_MAGIC_INODE_BITMAP"

definition ext2fs_get_inode_bitmap_range2 ::
  "('p, 'm) bitmap_ops \<Rightarrow> 'p bitmap_ptr \<Rightarrow> u64 \<Rightarrow> u32 \<Rightarrow> u8 list \<Rightarrow> errcode + u8 list" where
  "ext2fs_get_inode_bitmap_range2 = ext2fs_get_generic_bmap_range"

definition ext2fs_set_block_bitmap_range ::
  "'p any_bitmap \<Rightarrow> u32 \<Rightarrow> u32 \<Rightarrow> u8 list \<Rightarrow> errcode option \<times> 'p any_bitmap" where
  "ext2fs_set_block_bitmap_range = set_range_legacy EXT2_ET_MAGIC_BLOCK_BITMAP"

definition ext2fs_set_block_bitmap_range2 ::
  "('p, 'm) bitmap_ops \<Rightarrow> 'p bitmap_ptr \<Rightarrow> u64 \<Rightarrow> u32 \<Rightarrow> u8 list \<Rightarrow> errcode option \<times> 'p bitmap_ptr" where
  "ext2fs_set_block_bitmap_range2 = ext2fs_set_generic_bmap_range"

definition ext2fs_get_block_bitmap_range :: "'p any_bitmap \<Rightarrow> u32 \<Rightarrow> u32 \<Rightarrow> u8 list \<Rightarrow> errcode + u8 list" where
  "ext2fs_get_block_bitmap_range = get_range_legacy EXT2_ET_MAGIC_BLOCK_BITMAP"

definition ext2fs_get_block_bitmap_range2 ::
  "('p, 'm) bitmap_ops \<Rightarrow> 'p bitmap_ptr \<Rightarrow> u64 \<Rightarrow> u32 \<Rightarrow> u8 list \<Rightarrow> errcode + u8 list" where
  "ext2fs_get_block_bitmap_range2 = ext2fs_get_generic_bmap_range"

section \<open>From blocks to clusters\<close>

text \<open>
  The loop of \<^verbatim>\<open>ext2fs_convert_subcluster_bitmap\<close>, on the per-block bitmap and the cluster bitmap. It may run for ever when the
  index wraps, so it is partial; \<open>None\<close> stands for no return.
\<close>

partial_function (option) convert_loop ::
  "('p, 'm) bitmap_ops \<Rightarrow> int \<Rightarrow> u64 \<Rightarrow> u64 \<Rightarrow> int \<Rightarrow> 'p bitmap_ptr \<Rightarrow> 'p bitmap_ptr \<Rightarrow> ('p bitmap_ptr \<times> 'p bitmap_ptr) option" where
  "convert_loop ops ratio real_end i n bm cm =
     (if i < real_end then
        (case ext2fs_test_generic_bmap ops bm i of
           (r, bm) \<Rightarrow>
             if r \<noteq> 0 then
               (case ext2fs_mark_generic_bmap ops cm i of
                  (_, cm) \<Rightarrow> convert_loop ops ratio real_end (i + word_of_int (ratio - n)) 0 bm cm)
             else convert_loop ops ratio real_end (i + 1) (if n + 1 \<ge> ratio then 0 else n + 1) bm cm)
      else Some (bm, cm))"

declare convert_loop.simps [code]

definition set_end :: "u64 \<Rightarrow> 'p gbitmap \<Rightarrow> 'p gbitmap" where
  "set_end e b = b\<lparr>gb_end := e\<rparr>"

text \<open>For two 64-bit bitmaps, which is how the library uses it; the freed bitmap is dropped.\<close>

definition ext2fs_convert_subcluster_bitmap ::
  "('p, 'm) bitmap_ops \<Rightarrow> 'm gb_mem \<Rightarrow> g32_mem \<Rightarrow> ext2_filsys \<Rightarrow> 'p gbitmap \<Rightarrow> (errcode option \<times> 'p any_bitmap) option" where
  "ext2fs_convert_subcluster_bitmap ops m m32 fs bmap =
     (if fs_cluster_ratio_bits fs = ext2fs_get_bitmap_granularity (Bitmap64 bmap) then Some (None, Bitmap64 bmap)
      else case ext2fs_allocate_block_bitmap ops m m32 fs (Some ''converted cluster bitmap'') of
             Inr (Bitmap64 cmap) \<Rightarrow>
               (let c_end = gb_end cmap
                in case convert_loop ops (2 ^ fs_cluster_ratio_bits fs) (gb_real_end bmap) (gb_start bmap) 0
                          (Some (Bitmap64 (set_end (gb_real_end bmap) bmap)))
                          (Some (Bitmap64 (set_end (gb_real_end cmap) cmap))) of
                     Some (_, Some (Bitmap64 cmap)) \<Rightarrow> Some (None, Bitmap64 (set_end c_end cmap))
                   | _ \<Rightarrow> None)
           | Inr (Bitmap32 b) \<Rightarrow> None
           | Inl e \<Rightarrow> Some (Some e, Bitmap64 bmap))"

lemma next_cluster_aligned: "(m + ((2 :: nat) ^ k - m mod 2 ^ k)) mod 2 ^ k = 0" "m mod 2 ^ k < (2 :: nat) ^ k"
proof -
  show lt: "m mod 2 ^ k < (2 :: nat) ^ k" by simp
  have "m + (2 ^ k - m mod 2 ^ k) = (m div 2 ^ k + 1) * 2 ^ k"
    using lt div_mult_mod_eq[of m "2 ^ k"] by simp
  then show "(m + (2 ^ k - m mod 2 ^ k)) mod 2 ^ k = 0" by simp
qed

lemma mod_step: "(if int (m mod 2 ^ k) + 1 \<ge> 2 ^ k then 0 else int (m mod 2 ^ k) + 1) = int ((m + 1) mod 2 ^ k)"
proof -
  have "int (m mod 2 ^ k) + 1 = int (Suc (m mod 2 ^ k))" "(2 :: int) ^ k = int (2 ^ k)" by simp_all
  then have "int (m mod 2 ^ k) + 1 \<ge> 2 ^ k \<longleftrightarrow> Suc (m mod 2 ^ k) \<ge> 2 ^ k" by (simp only: of_nat_le_iff)
  moreover have "Suc (m mod 2 ^ k) \<ge> 2 ^ k \<longleftrightarrow> Suc (m mod 2 ^ k) = 2 ^ k"
    using next_cluster_aligned(2)[of m k] by linarith
  ultimately show ?thesis by (simp add: mod_Suc)
qed

lemma next_cluster:
  fixes i re :: u64
  assumes "unat i < unat re" "unat re + 2 ^ cb \<le> 2 ^ 64" "n = int (unat i mod 2 ^ cb)"
  shows "unat (i + word_of_int (2 ^ cb - n)) = unat i + (2 ^ cb - unat i mod 2 ^ cb)"
proof -
  define d where "d = 2 ^ cb - unat i mod 2 ^ cb"
  have "2 ^ cb - n = int d" using next_cluster_aligned(2)[of "unat i" cb] assms(3) by (simp add: d_def of_nat_diff)
  then have w: "(word_of_int (2 ^ cb - n) :: u64) = word_of_nat d" by simp
  have "d \<le> 2 ^ cb" by (simp add: d_def)
  then have lt: "unat i + d < 2 ^ 64" using assms(1,2) by linarith
  then have "unat (word_of_nat d :: u64) = d" by (simp add: unat_of_nat)
  then show ?thesis unfolding w d_def[symmetric] using lt by (simp add: unat_plus64)
qed

lemma cluster_image:
  fixes i j :: u64
  assumes "i \<in> S" "i < re" "unat j = unat i + (2 ^ cb - unat i mod 2 ^ cb)"
  shows "drop_bit cb ` {x \<in> S. j \<le> x \<and> x < re} \<union> {drop_bit cb i} = drop_bit cb ` {x \<in> S. i \<le> x \<and> x < re}"
proof -
  have same: "drop_bit cb x = drop_bit cb i" if "i \<le> x" "\<not> j \<le> x" for x
  proof -
    have "unat i \<le> unat x" "unat x < unat i + (2 ^ cb - unat i mod 2 ^ cb)"
      using that assms(3) by (simp_all add: word_le_nat_alt)
    moreover have "unat i + (2 ^ cb - unat i mod 2 ^ cb) = (unat i div 2 ^ cb + 1) * 2 ^ cb"
      using next_cluster_aligned(2)[of "unat i" cb] div_mult_mod_eq[of "unat i" "2 ^ cb"] by simp
    ultimately have "unat x div 2 ^ cb = unat i div 2 ^ cb"
      by (metis Suc_eq_plus1 div_le_mono le_antisym less_Suc_eq_le less_mult_imp_div_less)
    then show ?thesis by (simp add: word_unat_eq_iff unat_drop_bit)
  qed
  have "i \<le> j" unfolding word_le_nat_alt using assms(3) by linarith
  then show ?thesis using same assms(1,2) by (force intro: order_trans)
qed

context bmap_backend
begin

text \<open>
  The loop marks the cluster of every marked block from \<open>i\<close> on, except that of the last block when it is the
  only one. \<open>n\<close> is the position of \<open>i\<close> in its cluster.
\<close>

lemma convert_loop_spec:
  assumes "good b" "gb_cluster_bits b = 0" "re \<le> gb_end b" "gb_start b \<le> i" "good c" "gb_cluster_bits c = cb"
    "unat re + 2 ^ cb \<le> 2 ^ 64" "n = int (unat i mod 2 ^ cb)"
  shows "\<exists>b' c'. convert_loop ops (2 ^ cb) re i n (Some (Bitmap64 b)) (Some (Bitmap64 c))
        = Some (Some (Bitmap64 b'), Some (Bitmap64 c')) \<and> good c' \<and> same_hdr c' c \<and>
      clusters c' = clusters c \<union> (drop_bit cb ` {x \<in> clusters b. i \<le> x \<and> x < re} \<inter> {gb_start c..gb_end c})"
  using assms
proof (induction "unat re - unat i" arbitrary: b c i n rule: less_induct)
  case less
  define R where "R = (2 :: nat) ^ cb"
  show ?case
  proof (cases "i < re")
    case False
    then have "{x \<in> clusters b. i \<le> x \<and> x < re} = {}" by auto
    then show ?thesis using False less.prems by (subst convert_loop.simps) auto
  next
    case True
    then have ire: "unat i < unat re" by (simp add: word_less_nat_alt)
    obtain r bm where t: "ext2fs_test_generic_bmap ops (Some (Bitmap64 b)) i = (r, bm)" by fastforce
    obtain b1 where b1: "bm = Some (Bitmap64 b1)" "good b1" "same_hdr b1 b" "clusters b1 = clusters b"
      "r \<noteq> 0 \<longleftrightarrow> i \<in> clusters b"
      using test_generic[OF less.prems(1) t] less.prems(2) by auto
    have hdr1: "gb_cluster_bits b1 = 0" "re \<le> gb_end b1" "gb_start b1 = gb_start b"
      using b1(3) less.prems(2,3) by (simp_all add: same_hdr_iff)
    show ?thesis
    proof (cases "r = 0")
      case r0: True
      have u: "unat (i + 1) = unat i + 1" by (rule unat_succ_below[OF True])
      have n1: "(if n + 1 \<ge> 2 ^ cb then 0 else n + 1) = int (unat (i + 1) mod 2 ^ cb)"
        unfolding u less.prems(8) by (rule mod_step)
      have le: "i + 1 \<le> x \<longleftrightarrow> i < x" for x using u by (auto simp: word_le_nat_alt word_less_nat_alt)
      have "gb_start b1 \<le> i + 1" using less.prems(4) hdr1(3) u by (simp add: word_le_nat_alt)
      moreover have "unat re - unat (i + 1) < unat re - unat i" using ire u by simp
      ultimately obtain b' c' where ih: "convert_loop ops (2 ^ cb) re (i + 1) (int (unat (i + 1) mod 2 ^ cb))
            (Some (Bitmap64 b1)) (Some (Bitmap64 c)) = Some (Some (Bitmap64 b'), Some (Bitmap64 c'))"
          "good c'" "same_hdr c' c"
          "clusters c' = clusters c \<union> (drop_bit cb ` {x \<in> clusters b1. i + 1 \<le> x \<and> x < re} \<inter> {gb_start c..gb_end c})"
        using less.hyps[OF _ b1(2) hdr1(1,2) _ less.prems(5-7) refl, of "i + 1"] by blast
      have "{x \<in> clusters b1. i + 1 \<le> x \<and> x < re} = {x \<in> clusters b. i \<le> x \<and> x < re}"
        unfolding le b1(4) using r0 b1(5) by (auto simp: order_le_less)
      then show ?thesis using ih n1 r0 True t b1(1) by (subst convert_loop.simps) (auto simp del: of_nat_mod)
    next
      case hit: False
      obtain r2 cm where mk: "ext2fs_mark_generic_bmap ops (Some (Bitmap64 c)) i = (r2, cm)" by fastforce
      obtain c1 where c1: "cm = Some (Bitmap64 c1)" "good c1" "same_hdr c1 c"
        "clusters c1 = clusters c \<union> ({drop_bit cb i} \<inter> {gb_start c..gb_end c})"
        using mark_generic[OF less.prems(5) mk] less.prems(6) by auto
      have cb1: "gb_cluster_bits c1 = cb" using c1(3) less.prems(6) by (simp add: same_hdr_iff)
      define j where "j = i + word_of_int (2 ^ cb - n)"
      have j: "unat j = unat i + (2 ^ cb - unat i mod 2 ^ cb)"
        unfolding j_def by (rule next_cluster[OF ire less.prems(7,8)])
      have "gb_start b1 \<le> j" using less.prems(4) j unfolding hdr1(3) word_le_nat_alt by linarith
      moreover have "unat j mod 2 ^ cb = 0" unfolding j by (rule next_cluster_aligned(1))
      moreover have "unat i < unat j" unfolding j using next_cluster_aligned(2)[of "unat i" cb] by linarith
      ultimately obtain b' c' where ih: "convert_loop ops (2 ^ cb) re j 0
            (Some (Bitmap64 b1)) (Some (Bitmap64 c1)) = Some (Some (Bitmap64 b'), Some (Bitmap64 c'))"
          "good c'" "same_hdr c' c1"
          "clusters c' = clusters c1 \<union> (drop_bit cb ` {x \<in> clusters b1. j \<le> x \<and> x < re} \<inter> {gb_start c1..gb_end c1})"
        using less.hyps[OF _ b1(2) hdr1(1,2) _ c1(2) cb1 less.prems(7), of j 0] ire by force
      have "drop_bit cb ` {x \<in> clusters b1. j \<le> x \<and> x < re} \<union> {drop_bit cb i}
          = drop_bit cb ` {x \<in> clusters b. i \<le> x \<and> x < re}"
        unfolding b1(4) by (rule cluster_image) (use b1(5) hit True j in auto)
      then have "clusters c' = clusters c \<union> (drop_bit cb ` {x \<in> clusters b. i \<le> x \<and> x < re} \<inter> {gb_start c..gb_end c})"
        using ih(4) c1(3,4) by (auto simp: same_hdr_iff)
      moreover have "same_hdr c' c" using ih(3) c1(3) by simp
      moreover have "convert_loop ops (2 ^ cb) re i n (Some (Bitmap64 b)) (Some (Bitmap64 c)) =
          convert_loop ops (2 ^ cb) re j 0 (Some (Bitmap64 b1)) (Some (Bitmap64 c1))"
        using hit True t b1(1) mk c1(1) by (subst convert_loop.simps) (simp add: j_def)
      ultimately show ?thesis using ih(1,2) by auto
    qed
  qed
qed

end

section \<open>The bitmap of a file system\<close>

text \<open>A consistent geometry with clusters; without bigalloc \<open>fs_cluster_ratio_bits\<close> is 0 and clusters are blocks.\<close>

definition cluster_geometry_ok :: "ext2_filsys \<Rightarrow> bool" where
  "cluster_geometry_ok fs \<longleftrightarrow>
     (let sb = fs_super fs; R = 2 ^ fs_cluster_ratio_bits fs
      in geometry_ok fs \<and> fs_magic fs = Some EXT2_ET_MAGIC_EXT2FS_FILSYS \<and> fs_flag_64bits fs \<and>
         fs_cluster_ratio_bits fs < 31 \<and> unat (s_blocks_per_group sb) = unat (s_clusters_per_group sb) * R \<and>
         unat (s_first_data_block sb) mod R = 0 \<and>
         unat (s_clusters_per_group sb) * unat (fs_group_desc_count fs) < 2 ^ 62)"

lemma cluster_bounds:
  fixes s c k n R :: nat
  assumes "0 < R" "0 < n" "n \<le> k * (c * R)"
  shows "(s * R + n - 1) div R \<le> c * k - 1 + s" "0 < c * k"
proof -
  show pos: "0 < c * k" using assms by (cases "c * k = 0") auto
  have "s * R + n - 1 < (s + c * k) * R"
    using assms by (simp add: algebra_simps)
  then have "(s * R + n - 1) div R < s + c * k" using assms(1) by (simp add: div_less_iff_less_mult)
  then show "(s * R + n - 1) div R \<le> c * k - 1 + s" using pos by simp
qed

context bmap_backend
begin

lemma alloc_block_good:
  assumes "cluster_geometry_ok fs" "ext2fs_allocate_block_bitmap ops m m32 fs descr = Inr bm"
  obtains b where "bm = Bitmap64 b" "good b" "clusters b = {}"
    "gb_cluster_bits b = fs_cluster_ratio_bits fs" "gb_end b \<le> gb_real_end b"
    "gb_start b = drop_bit (fs_cluster_ratio_bits fs) (ucast (s_first_data_block (fs_super fs)))"
    "gb_end b = drop_bit (fs_cluster_ratio_bits fs) (ext2fs_blocks_count (fs_super fs) - 1)"
proof -
  let ?cb = "fs_cluster_ratio_bits fs" and ?sb = "fs_super fs"
  have g: "geometry_ok fs" "fs_magic fs = Some EXT2_ET_MAGIC_EXT2FS_FILSYS" "fs_flag_64bits fs" "?cb < 31"
    "unat (s_blocks_per_group ?sb) = unat (s_clusters_per_group ?sb) * 2 ^ ?cb" "unat (s_first_data_block ?sb) mod 2 ^ ?cb = 0"
    "unat (s_clusters_per_group ?sb) * unat (fs_group_desc_count fs) < 2 ^ 62"
    using assms(1) by (simp_all add: cluster_geometry_ok_def Let_def)
  obtain f b k n where geo: "f = unat (s_first_data_block ?sb)" "b = unat (s_blocks_per_group ?sb)"
    "k = unat (fs_group_desc_count fs)" "unat (ext2fs_blocks_count ?sb) = f + n" "0 < b" "0 < n" "n \<le> k * b"
    using geometry_facts[OF g(1)] by metis
  define c where "c = unat (s_clusters_per_group ?sb)"
  define start :: u64 where "start = drop_bit ?cb (ucast (s_first_data_block ?sb))"
  define en where "en = drop_bit ?cb (ext2fs_blocks_count ?sb - 1)"
  define re :: u64 where "re = ucast (s_clusters_per_group ?sb) * ucast (fs_group_desc_count fs) - 1 + start"
  have ust: "unat start = f div 2 ^ ?cb" by (simp add: start_def unat_drop_bit geo(1))
  have fm: "f = unat start * 2 ^ ?cb" using g(6) geo(1) ust by (simp add: dvd_div_mult_self mod_0_imp_dvd)
  have b: "b = c * 2 ^ ?cb" using g(5) geo(2) c_def by simp
  have cn: "(unat start * 2 ^ ?cb + n - 1) div 2 ^ ?cb \<le> c * k - 1 + unat start" "0 < c * k"
    by (rule cluster_bounds; use geo(6,7) b in simp)+
  have "ext2fs_blocks_count ?sb \<noteq> 0" using geo(4,6) by auto
  then have "unat (ext2fs_blocks_count ?sb - 1) = f + n - 1"
    using geo(4) unat_minus_nat[of 1 "ext2fs_blocks_count ?sb"] geo(6) by simp
  then have uen: "unat en = (f + n - 1) div 2 ^ ?cb" by (simp add: en_def unat_drop_bit)
  have st32: "unat start < 2 ^ 32" using fm unat_less32[of "s_first_data_block ?sb"] geo(1) ust
    by (metis div_le_dividend le_less_trans)
  have ck: "c * k < 2 ^ 62" using g(7) c_def geo(3) by simp
  have um: "unat (ucast (s_clusters_per_group ?sb) * ucast (fs_group_desc_count fs) :: u64) = c * k"
    using ck by (simp add: unat_mult64 c_def geo(3))
  then have um1: "unat (ucast (s_clusters_per_group ?sb) * ucast (fs_group_desc_count fs) - 1 :: u64) = c * k - 1"
    using cn(2) unat_minus_nat[of 1 "ucast (s_clusters_per_group ?sb) * ucast (fs_group_desc_count fs) :: u64"] by simp
  have ure: "unat re = c * k - 1 + unat start"
    unfolding re_def by (subst unat_plus64) (use um1 ck st32 in simp_all)
  have ser: "start \<le> en" "en \<le> re" "unat (re - start) < 2 ^ 63"
  proof -
    show "start \<le> en" using ust uen geo(6) by (simp add: word_le_nat_alt div_le_mono)
    show "en \<le> re" using cn(1) fm uen ure by (simp add: word_le_nat_alt)
    show "unat (re - start) < 2 ^ 63" using unat_minus_nat[of start re] ure ck by simp
  qed
  obtain gb where gb: "ext2fs_alloc_generic_bmap ops m ?cb EXT2_ET_MAGIC_BLOCK_BITMAP64 start en re descr = Inr gb"
    "bm = Bitmap64 gb"
    using assms(2) g(2,3)
    by (auto simp: ext2fs_allocate_block_bitmap_def alloc_fs_bitmap_def EXT2FS_B2C_def Let_def
        start_def en_def re_def split: sum.splits)
  have cb64: "?cb < 64" using g(4) by simp
  have ag: "good gb \<and> clusters gb = {} \<and> gb_start gb = start \<and> gb_end gb = en \<and> gb_cluster_bits gb = ?cb"
    by (rule alloc_good[OF gb(1) _ ser cb64, unfolded if_P[OF refl]]) (simp add: EXT2FS_IS_64_BITMAP_def)
  show thesis
    by (rule that[OF gb(2)]) (use ag wf_hdr[of gb] in \<open>auto simp: hdr_ok_def start_def en_def\<close>)
qed

lemma alloc_block_mark_test:
  assumes "cluster_geometry_ok fs" "ext2fs_allocate_block_bitmap ops m m32 fs descr = Inr bm"
    and "ucast (s_first_data_block (fs_super fs)) \<le> blk" "blk < ext2fs_blocks_count (fs_super fs)"
  shows "fst (ext2fs_test_generic_bmap ops (Some bm) x) = 0 \<and>
    (fst (ext2fs_test_generic_bmap ops (snd (ext2fs_mark_generic_bmap ops (Some bm) blk)) x) \<noteq> 0 \<longleftrightarrow>
      drop_bit (fs_cluster_ratio_bits fs) x = drop_bit (fs_cluster_ratio_bits fs) blk)"
proof -
  let ?cb = "fs_cluster_ratio_bits fs"
  obtain b where b: "bm = Bitmap64 b" "good b" "clusters b = {}" "gb_cluster_bits b = ?cb"
    "gb_start b = drop_bit ?cb (ucast (s_first_data_block (fs_super fs)))"
    "gb_end b = drop_bit ?cb (ext2fs_blocks_count (fs_super fs) - 1)"
    using alloc_block_good[OF assms(1,2)] by metis
  have "blk \<le> ext2fs_blocks_count (fs_super fs) - 1" using assms(4) unat_pred[OF assms(4)]
    by (simp add: word_le_nat_alt word_less_nat_alt)
  then have c: "drop_bit ?cb blk \<in> {gb_start b..gb_end b}"
    using assms(3) unfolding b(5,6) by (simp add: word_le_nat_alt unat_drop_bit div_le_mono)
  obtain r bm1 where t: "ext2fs_test_generic_bmap ops (Some (Bitmap64 b)) x = (r, bm1)" by fastforce
  have "r = 0" by (rule test_generic[OF b(2) t]) (use b(3) in auto)
  moreover obtain r2 bm2 where mk: "ext2fs_mark_generic_bmap ops (Some (Bitmap64 b)) blk = (r2, bm2)" by fastforce
  obtain b2 where b2: "bm2 = Some (Bitmap64 b2)" "good b2" "same_hdr b2 b" "clusters b2 = {drop_bit ?cb blk}"
    by (rule mark_generic[OF b(2) mk]) (use b(3,4) c in auto)
  obtain r3 bm3 where t3: "ext2fs_test_generic_bmap ops (Some (Bitmap64 b2)) x = (r3, bm3)" by fastforce
  have "r3 \<noteq> 0 \<longleftrightarrow> drop_bit ?cb x = drop_bit ?cb blk"
    by (rule test_generic[OF b2(2) t3]) (use b2(3,4) b(4) in \<open>auto simp: same_hdr_iff\<close>)
  ultimately show ?thesis by (simp add: b(1) t mk b2(1) t3)
qed

lemma convert_subcluster_spec:
  assumes "cluster_geometry_ok fs" "fs_cluster_ratio_bits fs \<noteq> 0"
    and "good bmap" "gb_cluster_bits bmap = 0" "unat (gb_real_end bmap) + 2 ^ fs_cluster_ratio_bits fs \<le> 2 ^ 64"
    and "unat (gb_start bmap) mod 2 ^ fs_cluster_ratio_bits fs = 0"
    and "ext2fs_allocate_block_bitmap ops m m32 fs (Some ''converted cluster bitmap'') = Inr bm"
  shows "\<exists>c. ext2fs_convert_subcluster_bitmap ops m m32 fs bmap = Some (None, Bitmap64 c) \<and> wf c \<and>
    (\<forall>x. gb_start c \<le> x \<and> x \<le> gb_end c \<longrightarrow>
       (x \<in> bits c \<longleftrightarrow> x \<in> drop_bit (fs_cluster_ratio_bits fs) ` {y \<in> bits bmap. y < gb_real_end bmap}))"
proof -
  let ?cb = "fs_cluster_ratio_bits fs"
  obtain c where c: "bm = Bitmap64 c" "good c" "clusters c = {}" "gb_cluster_bits c = ?cb" "gb_end c \<le> gb_real_end c"
    using alloc_block_good[OF assms(1,7)] by metis
  let ?b = "set_end (gb_real_end bmap) bmap" and ?c = "set_end (gb_real_end c) c"
  have hb: "hdr_ok ?b" "hdr_ok ?c" using wf_hdr[of bmap] wf_hdr[of c] assms(3) c(2)
    by (auto simp: hdr_ok_def set_end_def intro: order_trans)
  have b: "good ?b" "bits ?b = bits bmap" "gb_cluster_bits ?b = 0" "gb_end ?b = gb_real_end bmap" "gb_start ?b = gb_start bmap"
    using wf_end[of bmap "gb_real_end bmap"] hb(1) assms(3,4) by (auto simp: set_end_def)
  have c1: "good ?c" "bits ?c = bits c" "gb_cluster_bits ?c = ?cb" "gb_end ?c = gb_real_end c" "gb_start ?c = gb_start c"
    "gb_real_end ?c = gb_real_end c"
    using wf_end[of c "gb_real_end c"] hb(2) c(2,4) by (auto simp: set_end_def)
  obtain b' c' where l: "convert_loop ops (2 ^ ?cb) (gb_real_end bmap) (gb_start bmap) 0 (Some (Bitmap64 ?b)) (Some (Bitmap64 ?c))
        = Some (Some (Bitmap64 b'), Some (Bitmap64 c'))" "good c'" "same_hdr c' ?c"
      "clusters c' = clusters ?c \<union>
         (drop_bit ?cb ` {x \<in> clusters ?b. gb_start bmap \<le> x \<and> x < gb_real_end bmap} \<inter> {gb_start ?c..gb_end ?c})"
    using convert_loop_spec[OF b(1,3) _ _ c1(1,3) assms(5), of "gb_start bmap" 0] b(4,5) assms(6) by auto
  have e: "hdr_ok (set_end (gb_end c) c')"
    using wf_hdr[of c'] wf_hdr[of c] l(2,3) c(2) by (auto simp: hdr_ok_def set_end_def same_hdr_iff)
  have fin: "wf (set_end (gb_end c) c')" "bits (set_end (gb_end c) c') = bits c'"
    using wf_end[of c' "gb_end c"] l(2) e by (auto simp: set_end_def)
  have hd: "gb_start c' = gb_start c" "gb_end c' = gb_real_end c" using l(3) c1 by (auto simp: same_hdr_iff)
  have run: "ext2fs_convert_subcluster_bitmap ops m m32 fs bmap = Some (None, Bitmap64 (set_end (gb_end c) c'))"
    using assms(2-4,7) c(1) l(1)
    by (simp add: ext2fs_convert_subcluster_bitmap_def ext2fs_get_bitmap_granularity_def Let_def)
  have rng: "{x \<in> clusters ?b. gb_start bmap \<le> x \<and> x < gb_real_end bmap} = {y \<in> bits bmap. y < gb_real_end bmap}"
    using b bits_range[of bmap] assms(3) by auto
  have mem: "x \<in> bits c' \<longleftrightarrow> x \<in> drop_bit ?cb ` {y \<in> bits bmap. y < gb_real_end bmap}"
    if x: "gb_start c \<le> x" "x \<le> gb_end c" for x
  proof -
    have xr: "x \<in> {gb_start c..gb_real_end c}" using x c(5) by auto
    have "x \<in> clusters c' \<longleftrightarrow> x \<in> clusters ?c \<or> x \<in> drop_bit ?cb ` {y \<in> bits bmap. y < gb_real_end bmap}"
      unfolding l(4) rng using xr c1(4,5) by auto
    moreover have "x \<in> clusters c' \<longleftrightarrow> x \<in> bits c'" using xr hd by simp
    moreover have "x \<notin> bits c" using c(3) x by auto
    ultimately show ?thesis using c1(2) by auto
  qed
  show ?thesis
    using run fin mem hd by (intro exI[of _ "set_end (gb_end c) c'"]) (simp add: set_end_def)
qed

end

text \<open>For a file system with a consistent geometry (clusters included), the block bitmap that is
  allocated starts empty and covers every block: marking any block of the data range makes the test answer yes for exactly the
  blocks of its cluster.\<close>

theorem block_bitmap_covers_blocks:
  assumes "cluster_geometry_ok fs"
    and "ext2fs_allocate_block_bitmap ext2fs_blkmap64_bitarray m m32 fs descr = Inr bm"
    and "ucast (s_first_data_block (fs_super fs)) \<le> blk" "blk < ext2fs_blocks_count (fs_super fs)"
  shows "fst (ext2fs_test_generic_bmap ext2fs_blkmap64_bitarray (Some bm) x) = 0 \<and>
    (fst (ext2fs_test_generic_bmap ext2fs_blkmap64_bitarray
            (snd (ext2fs_mark_generic_bmap ext2fs_blkmap64_bitarray (Some bm) blk)) x) \<noteq> 0 \<longleftrightarrow>
      drop_bit (fs_cluster_ratio_bits fs) x = drop_bit (fs_cluster_ratio_bits fs) blk)"
  using assms by (rule ba.alloc_block_mark_test)

definition cluster_fs :: ext2_filsys where
  "cluster_fs = (demo_fs True)\<lparr>fs_group_desc_count := 1, fs_cluster_ratio_bits := 2,
     fs_super := (demo_super True)\<lparr>s_first_data_block := 0, s_blocks_count := 32, s_blocks_per_group := 32,
       s_clusters_per_group := 8\<rparr>\<rparr>"

definition legacy_mem :: g32_mem where
  "legacy_mem = \<lparr>m_struct = True, m_descr = True, m_array = True, m_beyond = (\<lambda>_. 0)\<rparr>"

definition cluster_bm :: "ba_private any_bitmap" where
  "cluster_bm = (case ext2fs_allocate_block_bitmap ext2fs_blkmap64_bitarray demo_mem legacy_mem cluster_fs None of
     Inr b \<Rightarrow> b | Inl e \<Rightarrow> Bitmap64 demo_bitmap)"

lemma cluster_fs_ok: "cluster_geometry_ok cluster_fs"
proof -
  have "geometry_ok cluster_fs" by code_simp
  moreover have "fs_magic cluster_fs = Some EXT2_ET_MAGIC_EXT2FS_FILSYS" "fs_flag_64bits cluster_fs"
    "fs_cluster_ratio_bits cluster_fs = 2" "s_blocks_per_group (fs_super cluster_fs) = 32"
    "s_clusters_per_group (fs_super cluster_fs) = 8" "s_first_data_block (fs_super cluster_fs) = 0"
    "fs_group_desc_count cluster_fs = 1"
    by code_simp+
  ultimately show ?thesis by (simp add: cluster_geometry_ok_def)
qed

theorem block_bitmap_covers_blocks_witness:
  "fst (ext2fs_test_generic_bmap ext2fs_blkmap64_bitarray
     (snd (ext2fs_mark_generic_bmap ext2fs_blkmap64_bitarray (Some cluster_bm) 9)) 11) \<noteq> 0"
proof -
  have "ext2fs_allocate_block_bitmap ext2fs_blkmap64_bitarray demo_mem legacy_mem cluster_fs None = Inr cluster_bm"
    by code_simp
  moreover have "ucast (s_first_data_block (fs_super cluster_fs)) \<le> (9 :: u64)"
    "9 < ext2fs_blocks_count (fs_super cluster_fs)"
    "drop_bit (fs_cluster_ratio_bits cluster_fs) (11 :: u64) = drop_bit (fs_cluster_ratio_bits cluster_fs) 9"
    by code_simp+
  ultimately show ?thesis using block_bitmap_covers_blocks[OF cluster_fs_ok] by blast
qed

text \<open>C33: The conversion of a per-block bitmap to clusters returns, and marks a cluster exactly when one of its blocks below \<open>real_end\<close> is
  marked. The last block, \<open>real_end\<close>, is not looked at: when it is the only marked block of its cluster, the cluster comes out unmarked.\<close>

theorem convert_subcluster_marks_clusters:
  assumes "cluster_geometry_ok fs" "fs_cluster_ratio_bits fs \<noteq> 0"
    and "ba_wf bmap \<and> EXT2FS_IS_64_BITMAP (gb_magic bmap) \<and> gb_cluster_bits bmap < 64" "gb_cluster_bits bmap = 0"
    and "unat (gb_real_end bmap) + 2 ^ fs_cluster_ratio_bits fs \<le> 2 ^ 64"
    and "unat (gb_start bmap) mod 2 ^ fs_cluster_ratio_bits fs = 0"
    and "ext2fs_allocate_block_bitmap ext2fs_blkmap64_bitarray m m32 fs (Some ''converted cluster bitmap'') = Inr bm"
  shows "\<exists>c. ext2fs_convert_subcluster_bitmap ext2fs_blkmap64_bitarray m m32 fs bmap = Some (None, Bitmap64 c) \<and> ba_wf c \<and>
    (\<forall>x. gb_start c \<le> x \<and> x \<le> gb_end c \<longrightarrow>
       (x \<in> ba_bits c \<longleftrightarrow> x \<in> drop_bit (fs_cluster_ratio_bits fs) ` {y \<in> ba_bits bmap. y < gb_real_end bmap}))"
  using assms by (rule ba.convert_subcluster_spec)

definition block_bm :: "ba_private gbitmap" where
  "block_bm = (case ext2fs_allocate_subcluster_bitmap ext2fs_blkmap64_bitarray demo_mem legacy_mem cluster_fs None of
     Inr (Bitmap64 b) \<Rightarrow> b | _ \<Rightarrow> demo_bitmap)"

lemma block_bm_fields:
  "gb_magic block_bm = Some EXT2_ET_MAGIC_BLOCK_BITMAP64" "gb_start block_bm = 0" "gb_end block_bm = 31"
  "gb_real_end block_bm = 31" "gb_cluster_bits block_bm = 0" "bitarray (gb_private block_bm) = [0, 0, 0, 0]"
  by code_simp+

lemma block_bm_ok: "ba_wf block_bm" "EXT2FS_IS_64_BITMAP (gb_magic block_bm)"
  "gb_start block_bm = 0" "gb_real_end block_bm = 31" "gb_cluster_bits block_bm = 0"
  by (simp_all add: ba_wf_def hdr_ok_def ba_size_def EXT2FS_IS_64_BITMAP_def block_bm_fields)

theorem convert_subcluster_marks_clusters_witness:
  "\<exists>c. ext2fs_convert_subcluster_bitmap ext2fs_blkmap64_bitarray demo_mem legacy_mem cluster_fs block_bm = Some (None, Bitmap64 c) \<and>
     ba_wf c"
proof -
  have r: "fs_cluster_ratio_bits cluster_fs = 2" by code_simp
  have "\<exists>bm. ext2fs_allocate_block_bitmap ext2fs_blkmap64_bitarray demo_mem legacy_mem cluster_fs
      (Some ''converted cluster bitmap'') = Inr bm"
  proof (cases "ext2fs_allocate_block_bitmap ext2fs_blkmap64_bitarray demo_mem legacy_mem cluster_fs
      (Some ''converted cluster bitmap'')")
    case (Inl e)
    moreover have "\<not> isl (ext2fs_allocate_block_bitmap ext2fs_blkmap64_bitarray demo_mem legacy_mem cluster_fs
      (Some ''converted cluster bitmap''))" by code_simp
    ultimately show ?thesis by simp
  qed blast
  then obtain bm where bm: "ext2fs_allocate_block_bitmap ext2fs_blkmap64_bitarray demo_mem legacy_mem cluster_fs
      (Some ''converted cluster bitmap'') = Inr bm" ..
  have "\<exists>c. ext2fs_convert_subcluster_bitmap ext2fs_blkmap64_bitarray demo_mem legacy_mem cluster_fs block_bm
      = Some (None, Bitmap64 c) \<and> ba_wf c \<and>
    (\<forall>x. gb_start c \<le> x \<and> x \<le> gb_end c \<longrightarrow>
       (x \<in> ba_bits c \<longleftrightarrow> x \<in> drop_bit (fs_cluster_ratio_bits cluster_fs) ` {y \<in> ba_bits block_bm. y < gb_real_end block_bm}))"
    by (rule convert_subcluster_marks_clusters[OF cluster_fs_ok _ _ block_bm_ok(5) _ _ bm])
      (simp_all add: block_bm_ok(1-4) r block_bm_ok(5))
  then show ?thesis by blast
qed

end
