(* ===== verification/Dirhash.thy ===== *)
theory Dirhash
  imports Ext2_Prelude
begin

text \<open>
  \<^verbatim>\<open>lib/ext2fs/dirhash.c\<close>: the hash functions of the directory index. A name is its list of bytes; \<open>len\<close> is the length the
  caller passes, at most the number of bytes. Signed and unsigned versions differ in the
  promotion of a byte.
\<close>

unbundle bit_operations_syntax

section \<open>Model\<close>

type_synonym hash_buf = "u32 \<times> u32 \<times> u32 \<times> u32"

definition tea_delta :: u32 where "tea_delta = 0x9E3779B9"

text \<open>\<open>n\<close> iterations of the loop on \<open>(sum, b0, b1)\<close>.\<close>

fun tea_rounds :: "u32 \<Rightarrow> u32 \<Rightarrow> u32 \<Rightarrow> u32 \<Rightarrow> nat \<Rightarrow> u32 \<Rightarrow> u32 \<Rightarrow> u32 \<Rightarrow> u32 \<times> u32" where
  "tea_rounds a b c d 0 sm b0 b1 = (b0, b1)"
| "tea_rounds a b c d (Suc n) sm b0 b1 =
     (let sm = sm + tea_delta;
          b0 = b0 + ((push_bit 4 b1 + a) XOR (b1 + sm) XOR (drop_bit 5 b1 + b));
          b1 = b1 + ((push_bit 4 b0 + c) XOR (b0 + sm) XOR (drop_bit 5 b0 + d))
      in tea_rounds a b c d n sm b0 b1)"

definition TEA_transform :: "hash_buf \<Rightarrow> u32 list \<Rightarrow> hash_buf" where
  "TEA_transform buf inp =
     (case buf of (h0, h1, h2, h3) \<Rightarrow>
        let (b0, b1) = tea_rounds (inp ! 0) (inp ! 1) (inp ! 2) (inp ! 3) 16 0 h0 h1
        in (h0 + b0, h1 + b1, h2, h3))"

definition md4_F :: "u32 \<Rightarrow> u32 \<Rightarrow> u32 \<Rightarrow> u32" where
  "md4_F x y z = z XOR (x AND (y XOR z))"

definition md4_G :: "u32 \<Rightarrow> u32 \<Rightarrow> u32 \<Rightarrow> u32" where
  "md4_G x y z = (x AND y) + ((x XOR y) AND z)"

definition md4_H :: "u32 \<Rightarrow> u32 \<Rightarrow> u32 \<Rightarrow> u32" where
  "md4_H x y z = x XOR y XOR z"

text \<open>The new value of \<open>a\<close>.\<close>

definition md4_round :: "(u32 \<Rightarrow> u32 \<Rightarrow> u32 \<Rightarrow> u32) \<Rightarrow> u32 \<Rightarrow> u32 \<Rightarrow> u32 \<Rightarrow> u32 \<Rightarrow> u32 \<Rightarrow> nat \<Rightarrow> u32" where
  "md4_round f a b c d x s = (let a = a + (f b c d + x) in push_bit s a OR drop_bit (32 - s) a)"

definition md4_K2 :: u32 where "md4_K2 = 0x5A827999"
definition md4_K3 :: u32 where "md4_K3 = 0x6ED9EBA1"

definition halfMD4Transform :: "hash_buf \<Rightarrow> u32 list \<Rightarrow> hash_buf" where
  "halfMD4Transform buf inp =
     (case buf of (h0, h1, h2, h3) \<Rightarrow>
        let a = h0; b = h1; c = h2; d = h3;
            a = md4_round md4_F a b c d (inp ! 0) 3;
            d = md4_round md4_F d a b c (inp ! 1) 7;
            c = md4_round md4_F c d a b (inp ! 2) 11;
            b = md4_round md4_F b c d a (inp ! 3) 19;
            a = md4_round md4_F a b c d (inp ! 4) 3;
            d = md4_round md4_F d a b c (inp ! 5) 7;
            c = md4_round md4_F c d a b (inp ! 6) 11;
            b = md4_round md4_F b c d a (inp ! 7) 19;
            a = md4_round md4_G a b c d (inp ! 1 + md4_K2) 3;
            d = md4_round md4_G d a b c (inp ! 3 + md4_K2) 5;
            c = md4_round md4_G c d a b (inp ! 5 + md4_K2) 9;
            b = md4_round md4_G b c d a (inp ! 7 + md4_K2) 13;
            a = md4_round md4_G a b c d (inp ! 0 + md4_K2) 3;
            d = md4_round md4_G d a b c (inp ! 2 + md4_K2) 5;
            c = md4_round md4_G c d a b (inp ! 4 + md4_K2) 9;
            b = md4_round md4_G b c d a (inp ! 6 + md4_K2) 13;
            a = md4_round md4_H a b c d (inp ! 3 + md4_K3) 3;
            d = md4_round md4_H d a b c (inp ! 7 + md4_K3) 9;
            c = md4_round md4_H c d a b (inp ! 2 + md4_K3) 11;
            b = md4_round md4_H b c d a (inp ! 6 + md4_K3) 15;
            a = md4_round md4_H a b c d (inp ! 1 + md4_K3) 3;
            d = md4_round md4_H d a b c (inp ! 5 + md4_K3) 9;
            c = md4_round md4_H c d a b (inp ! 0 + md4_K3) 11;
            b = md4_round md4_H b c d a (inp ! 4 + md4_K3) 15
        in (h0 + a, h1 + b, h2 + c, h3 + d))"

definition hash_char :: "bool \<Rightarrow> u8 \<Rightarrow> u32" where
  "hash_char unsigned_flag ch = (if unsigned_flag then ucast ch else scast ch)"

fun dx_hack_loop :: "bool \<Rightarrow> u8 list \<Rightarrow> u32 \<Rightarrow> u32 \<Rightarrow> u32" where
  "dx_hack_loop uns [] hash0 hash1 = hash0"
| "dx_hack_loop uns (ch # name) hash0 hash1 =
     (let hash = hash1 + (hash0 XOR (hash_char uns ch * 7152373));
          hash = (if hash AND 0x80000000 \<noteq> 0 then hash - 0x7fffffff else hash)
      in dx_hack_loop uns name hash hash0)"

definition dx_hack_hash :: "u8 list \<Rightarrow> nat \<Rightarrow> bool \<Rightarrow> u32" where
  "dx_hack_hash name len uns = push_bit 1 (dx_hack_loop uns (take len name) 0x12a3fe2d 0x37abe8f9)"

text \<open>
  The loop of \<^verbatim>\<open>str2hashbuf\<close> from index \<open>i\<close> on, over the bytes that are left; the result is the words written, the value under
  construction and the number of words still to write.
\<close>

fun hashbuf_loop :: "bool \<Rightarrow> u32 \<Rightarrow> u8 list \<Rightarrow> nat \<Rightarrow> u32 \<Rightarrow> int \<Rightarrow> u32 list \<times> u32 \<times> int" where
  "hashbuf_loop uns pad [] i val num = ([], val, num)"
| "hashbuf_loop uns pad (ch # msg) i val num =
     (let val = (if i mod 4 = 0 then pad else val);
          val = hash_char uns ch + push_bit 8 val
      in if i mod 4 = 3
         then (let (out, val', num') = hashbuf_loop uns pad msg (i + 1) pad (num - 1) in (val # out, val', num'))
         else hashbuf_loop uns pad msg (i + 1) val num)"

definition str2hashbuf :: "u8 list \<Rightarrow> nat \<Rightarrow> nat \<Rightarrow> bool \<Rightarrow> u32 list" where
  "str2hashbuf msg len num uns =
     (let pad = of_nat len OR push_bit 8 (of_nat len);
          pad = pad OR push_bit 16 pad;
          len' = (if len > num * 4 then num * 4 else len);
          (out, val, num') = hashbuf_loop uns pad (take len' msg) 0 pad (int num);
          out = (if num' - 1 \<ge> 0 then out @ [val] else out)
      in out @ replicate (nat (num' - 1)) pad)"

text \<open>The loop \<^verbatim>\<open>while (len > 0)\<close> over blocks of \<open>4 * num\<close> bytes.\<close>

function hash_blocks ::
  "(hash_buf \<Rightarrow> u32 list \<Rightarrow> hash_buf) \<Rightarrow> nat \<Rightarrow> bool \<Rightarrow> u8 list \<Rightarrow> nat \<Rightarrow> hash_buf \<Rightarrow> hash_buf" where
  "hash_blocks transform num uns p len buf =
     (if len > 0 \<and> num > 0
      then hash_blocks transform num uns (drop (4 * num) p) (len - 4 * num)
             (transform buf (str2hashbuf p len num uns))
      else buf)"
  by pat_completeness auto
termination
  by (relation "measure (\<lambda>(transform, num, uns, p, len, buf). len)") auto

declare hash_blocks.simps [simp del]

definition default_seed :: hash_buf where
  "default_seed = (0x67452301, 0xefcdab89, 0x98badcfe, 0x10325476)"

text \<open>
  The result is the return value (\<open>None\<close> for 0), the value stored at \<^verbatim>\<open>*ret_hash\<close> and the value stored at
  \<^verbatim>\<open>*ret_minor_hash\<close> when that pointer is given (\<open>None\<close>: nothing is stored). The versions are 0 to 5
  (legacy, half MD4, TEA, and the same unsigned).
\<close>

definition ext2fs_dirhash ::
  "int \<Rightarrow> u8 list \<Rightarrow> nat \<Rightarrow> hash_buf option \<Rightarrow> errcode option \<times> u32 \<times> u32 option" where
  "ext2fs_dirhash version name len seed =
     (let buf = (case seed of
                   Some s \<Rightarrow> if s = (0, 0, 0, 0) then default_seed else s
                 | None \<Rightarrow> default_seed);
          uns = (version = 3 \<or> version = 4 \<or> version = 5);
          finish = (\<lambda>hash minor. (None, hash AND NOT 1, Some minor))
      in if version = 3 \<or> version = 0 then finish (dx_hack_hash name len uns) 0
         else if version = 4 \<or> version = 1 then
           (case hash_blocks halfMD4Transform 8 uns name len buf of (h0, h1, h2, h3) \<Rightarrow> finish h1 h2)
         else if version = 5 \<or> version = 2 then
           (case hash_blocks TEA_transform 4 uns name len buf of (h0, h1, h2, h3) \<Rightarrow> finish h0 h1)
         else (Some EXT2_ET_DIRHASH_UNSUPP, 0, None))"

section \<open>The round functions\<close>

lemma md4_G_or: "md4_G x y z = (x AND y) OR ((x XOR y) AND z)"
proof -
  have "(x AND y) AND ((x XOR y) AND z) = 0"
    by (rule bit_word_eqI) (auto simp: bit_and_iff bit_xor_iff)
  then show ?thesis by (simp add: md4_G_def disjunctive_add_eq_or)
qed

text \<open>The three round functions are those the comment names: selection, majority (although it is
  computed with an addition) and parity, for all words.\<close>

theorem md4_selection_majority_parity:
  "md4_F x y z = (x AND y) OR (NOT x AND z) \<and>
   md4_G x y z = (x AND y) OR (x AND z) OR (y AND z) \<and>
   md4_H x y z = (x AND NOT (y XOR z)) OR (NOT x AND (y XOR z))"
proof (intro conjI)
  show "md4_F x y z = (x AND y) OR (NOT x AND z)"
    by (rule bit_word_eqI) (auto simp: md4_F_def bit_simps)
  show "md4_G x y z = (x AND y) OR (x AND z) OR (y AND z)"
    unfolding md4_G_or by (rule bit_word_eqI) (auto simp: bit_simps)
  show "md4_H x y z = (x AND NOT (y XOR z)) OR (NOT x AND (y XOR z))"
    by (rule bit_word_eqI) (auto simp: md4_H_def bit_simps)
qed

text \<open>The rounds of TEA, run backwards from the last value of the key sum.\<close>

fun tea_unrounds :: "u32 \<Rightarrow> u32 \<Rightarrow> u32 \<Rightarrow> u32 \<Rightarrow> nat \<Rightarrow> u32 \<Rightarrow> u32 \<Rightarrow> u32 \<Rightarrow> u32 \<times> u32" where
  "tea_unrounds a b c d 0 sm b0 b1 = (b0, b1)"
| "tea_unrounds a b c d (Suc n) sm b0 b1 =
     (let (b0, b1) = tea_unrounds a b c d n (sm + tea_delta) b0 b1;
          sm = sm + tea_delta;
          b1 = b1 - ((push_bit 4 b0 + c) XOR (b0 + sm) XOR (drop_bit 5 b0 + d));
          b0 = b0 - ((push_bit 4 b1 + a) XOR (b1 + sm) XOR (drop_bit 5 b1 + b))
      in (b0, b1))"

lemma tea_unrounds_rounds:
  "tea_rounds a b c d n sm b0 b1 = (x0, x1) \<Longrightarrow> tea_unrounds a b c d n sm x0 x1 = (b0, b1)"
proof (induction n arbitrary: sm b0 b1)
  case (Suc n)
  define sm' where "sm' = sm + tea_delta"
  define c0 where "c0 = b0 + ((push_bit 4 b1 + a) XOR (b1 + sm') XOR (drop_bit 5 b1 + b))"
  define c1 where "c1 = b1 + ((push_bit 4 c0 + c) XOR (c0 + sm') XOR (drop_bit 5 c0 + d))"
  have "tea_rounds a b c d n sm' c0 c1 = (x0, x1)"
    using Suc.prems unfolding tea_rounds.simps Let_def sm'_def[symmetric] c0_def[symmetric] c1_def[symmetric] .
  then have ih: "tea_unrounds a b c d n sm' x0 x1 = (c0, c1)" by (rule Suc.IH)
  have "c1 - ((push_bit 4 c0 + c) XOR (c0 + sm') XOR (drop_bit 5 c0 + d)) = b1"
    unfolding c1_def by simp
  moreover have "c0 - ((push_bit 4 b1 + a) XOR (b1 + sm') XOR (drop_bit 5 b1 + b)) = b0"
    unfolding c0_def by simp
  ultimately show ?case using ih by (simp add: Let_def flip: sm'_def)
qed simp

text \<open>The TEA step is the Davies-Meyer construction the comment names: what is added to the first
  two words is an invertible function of them, keyed by the first four input words; the other two
  words of the state are left alone.\<close>

theorem TEA_transform_davies_meyer:
  "case TEA_transform (h0, h1, h2, h3) inp of
     (r0, r1, r2, r3) \<Rightarrow>
       tea_unrounds (inp ! 0) (inp ! 1) (inp ! 2) (inp ! 3) 16 0 (r0 - h0) (r1 - h1) = (h0, h1) \<and>
       r2 = h2 \<and> r3 = h3"
proof -
  obtain b0 b1 where "tea_rounds (inp ! 0) (inp ! 1) (inp ! 2) (inp ! 3) 16 0 h0 h1 = (b0, b1)"
    by fastforce
  then show ?thesis using tea_unrounds_rounds by (simp add: TEA_transform_def)
qed

section \<open>Packing the name into words\<close>

text \<open>Reference: a word is its chunk of at most four characters shifted in over the padding.\<close>

definition pack_word :: "bool \<Rightarrow> u32 \<Rightarrow> u8 list \<Rightarrow> u32" where
  "pack_word uns pad chunk = foldl (\<lambda>v ch. hash_char uns ch + push_bit 8 v) pad chunk"

definition hash_pad :: "nat \<Rightarrow> u32" where
  "hash_pad len = of_nat len OR push_bit 8 (of_nat len) OR push_bit 16 (of_nat len) OR push_bit 24 (of_nat len)"

lemma hash_pad_code:
  "(of_nat len OR push_bit 8 (of_nat len)) OR push_bit 16 (of_nat len OR push_bit 8 (of_nat len)) = hash_pad len"
  by (simp add: hash_pad_def push_bit_or push_bit_push_bit or.assoc)

lemma list_4_cases:
  obtains "length xs < 4" | c0 c1 c2 c3 ys where "xs = c0 # c1 # c2 # c3 # ys"
  by (cases xs; cases "tl xs"; cases "tl (tl xs)"; cases "tl (tl (tl xs))") auto

lemma drop_4_Cons [simp]: "drop (4 + n) (c0 # c1 # c2 # c3 # ys) = drop n ys"
  by (simp add: numeral_eq_Suc)

lemma map_upt_Suc_shift: "map f [0..<Suc n] = f 0 # map (\<lambda>k. f (Suc k)) [0..<n]"
  by (simp add: upt_conv_Cons map_Suc_upt[symmetric] del: upt_Suc)

lemma hashbuf_loop_spec:
  "i mod 4 = 0 \<Longrightarrow>
   hashbuf_loop uns pad msg i pad num =
     (map (\<lambda>k. pack_word uns pad (take 4 (drop (4 * k) msg))) [0..<length msg div 4],
      pack_word uns pad (drop (4 * (length msg div 4)) msg), num - int (length msg div 4))"
proof (induction "length msg" arbitrary: msg i num rule: less_induct)
  case less
  have m: "Suc i mod 4 = 1" "Suc (Suc i) mod 4 = 2" "Suc (Suc (Suc i)) mod 4 = 3"
    "Suc (Suc (Suc (Suc i))) mod 4 = 0"
    using less.prems by presburger+
  show ?case
  proof (cases msg rule: list_4_cases)
    case 1
    then consider "msg = []" | x where "msg = [x]" | x y where "msg = [x, y]" | x y z where "msg = [x, y, z]"
      by (cases msg; cases "tl msg"; cases "tl (tl msg)"; cases "tl (tl (tl msg))") auto
    then show ?thesis using less.prems m by cases (simp_all add: pack_word_def Let_def)
  next
    case (2 c0 c1 c2 c3 ys)
    have "hashbuf_loop uns pad ys (Suc (Suc (Suc (Suc i)))) pad (num - 1) =
      (map (\<lambda>k. pack_word uns pad (take 4 (drop (4 * k) ys))) [0..<length ys div 4],
       pack_word uns pad (drop (4 * (length ys div 4)) ys), num - 1 - int (length ys div 4))"
      by (rule less.hyps) (use 2 m in auto)
    then have "hashbuf_loop uns pad msg i pad num =
      (pack_word uns pad [c0, c1, c2, c3]
         # map (\<lambda>k. pack_word uns pad (take 4 (drop (4 * k) ys))) [0..<length ys div 4],
       pack_word uns pad (drop (4 * (length ys div 4)) ys), num - 1 - int (length ys div 4))"
      using less.prems m unfolding 2 by (simp add: Let_def pack_word_def)
    moreover have "length msg div 4 = Suc (length ys div 4)" using 2 by simp
    ultimately show ?thesis using 2 by (simp add: map_upt_Suc_shift del: upt_Suc)
  qed
qed

lemma str2hashbuf_loop:
  "str2hashbuf msg len num uns =
     (case hashbuf_loop uns (hash_pad len) (take (min len (num * 4)) msg) 0 (hash_pad len) (int num) of
        (out, val, n) \<Rightarrow> (if n - 1 \<ge> 0 then out @ [val] else out) @ replicate (nat (n - 1)) (hash_pad len))"
proof -
  have "(if len > num * 4 then num * 4 else len) = min len (num * 4)" by simp
  then show ?thesis unfolding str2hashbuf_def Let_def hash_pad_code by simp
qed

lemma str2hashbuf_spec:
  assumes "len \<le> length msg"
  shows "str2hashbuf msg len num uns =
    map (\<lambda>k. pack_word uns (hash_pad len) (take 4 (drop (4 * k) (take len msg)))) [0..<num]"
proof -
  define m where "m = take (min len (num * 4)) msg"
  define n where "n = length m div 4"
  define w where "w = (\<lambda>k. pack_word uns (hash_pad len) (take 4 (drop (4 * k) m)))"
  have m: "length m = min len (num * 4)" using assms by (simp add: m_def)
  have n: "n \<le> num" unfolding n_def m by simp
  have tl: "pack_word uns (hash_pad len) (drop (4 * n) m) = w n" unfolding w_def n_def by simp
  have pad: "w k = hash_pad len" if "k > n" for k
    using that by (simp add: pack_word_def w_def n_def)
  have code: "str2hashbuf msg len num uns =
      (if n < num then map w [0..<n] @ [w n] else map w [0..<n]) @ replicate (num - Suc n) (hash_pad len)"
    using n hashbuf_loop_spec[of 0 uns "hash_pad len" m "int num", folded n_def w_def] tl
    by (auto simp: str2hashbuf_loop simp flip: m_def intro!: arg_cong2[where f = replicate])
  have "str2hashbuf msg len num uns = map w [0..<num]"
  proof (cases "n = num")
    case False
    then have "[0..<num] = [0..<n] @ n # [Suc n..<num]"
      using n upt_add_eq_append[of 0 n "num - n"] upt_conv_Cons[of n num] by simp
    moreover have "map w [Suc n..<num] = replicate (num - Suc n) (hash_pad len)"
      by (rule replicate_eqI) (auto simp: pad)
    ultimately show ?thesis using False n unfolding code by simp
  qed (simp add: code)
  moreover have "w k = pack_word uns (hash_pad len) (take 4 (drop (4 * k) (take len msg)))" if "k < num" for k
    using that by (simp add: w_def m_def drop_take take_take min_def)
  ultimately show ?thesis by simp
qed

text \<open>The buffer that a block of the name is packed into has exactly \<open>num\<close> words, and word \<open>k\<close> is the
  characters \<open>4 k\<close> to \<open>4 k + 3\<close> shifted in over the padding made of the length: a partial last word keeps padding in
  front, the words behind it are padding, and nothing beyond \<open>len\<close> or \<open>4 * num\<close> characters is read.\<close>

theorem str2hashbuf_packs:
  assumes "len \<le> length msg"
  shows "str2hashbuf msg len num uns =
    map (\<lambda>k. pack_word uns (hash_pad len) (take 4 (drop (4 * k) (take len msg)))) [0..<num]"
  using assms by (rule str2hashbuf_spec)

theorem str2hashbuf_packs_witness:
  "str2hashbuf [1, 2, 3, 4, 5] 5 4 True =
    map (\<lambda>k. pack_word True (hash_pad 5) (take 4 (drop (4 * k) [1, 2, 3, 4, 5]))) [0..<4] \<and>
   str2hashbuf [1, 2, 3, 4, 5] 5 4 True = [0x01020304, 0x05050505, 0x05050505, 0x05050505]"
proof
  show "str2hashbuf [1, 2, 3, 4, 5] 5 4 True =
    map (\<lambda>k. pack_word True (hash_pad 5) (take 4 (drop (4 * k) [1, 2, 3, 4, 5]))) [0..<4]"
    using str2hashbuf_packs[of 5 "[1, 2, 3, 4, 5]" 4 True] by simp
  show "str2hashbuf [1, 2, 3, 4, 5] 5 4 True = [0x01020304, 0x05050505, 0x05050505, 0x05050505]"
    by code_simp
qed

section \<open>The hash of a name\<close>

lemma hash_char_ascii: "\<not> bit ch 7 \<Longrightarrow> hash_char uns ch = hash_char True ch"
proof (rule bit_word_eqI)
  fix n assume "\<not> bit ch 7" "n < LENGTH(32)"
  moreover have "\<not> bit ch n" if "8 \<le> n" using that bit_imp_le_length[of ch n] by auto
  ultimately show "bit (hash_char uns ch) n \<longleftrightarrow> bit (hash_char True ch) n"
    by (cases "n = 7"; cases "8 \<le> n") (auto simp: hash_char_def bit_unsigned_iff bit_signed_iff min_def)
qed

lemma pack_word_ascii: "\<forall>ch\<in>set chunk. \<not> bit ch 7 \<Longrightarrow> pack_word uns pad chunk = pack_word True pad chunk"
  unfolding pack_word_def by (induction chunk arbitrary: pad) (simp_all add: hash_char_ascii[of _ uns])

lemma dx_hack_loop_ascii: "\<forall>ch\<in>set name. \<not> bit ch 7 \<Longrightarrow> dx_hack_loop uns name h0 h1 = dx_hack_loop True name h0 h1"
  by (induction name arbitrary: h0 h1) (simp_all add: hash_char_ascii[of _ uns] Let_def)

lemma str2hashbuf_ascii:
  assumes "len \<le> length msg" "\<forall>ch\<in>set (take len msg). \<not> bit ch 7"
  shows "str2hashbuf msg len num uns = str2hashbuf msg len num True"
proof -
  have "pack_word uns pad (take 4 (drop (4 * k) (take len msg))) = pack_word True pad (take 4 (drop (4 * k) (take len msg)))"
    for k pad
    using assms(2) by (intro pack_word_ascii) (meson in_set_dropD in_set_takeD)
  then show ?thesis unfolding str2hashbuf_spec[OF assms(1)] by simp
qed

lemma take_drop_sub: "take (len - k) (drop k xs) = drop k (take len xs)"
  by (simp add: drop_take)

lemma hash_blocks_ascii:
  "len \<le> length p \<Longrightarrow> \<forall>ch\<in>set (take len p). \<not> bit ch 7 \<Longrightarrow>
   hash_blocks transform num uns p len buf = hash_blocks transform num True p len buf"
proof (induction transform num uns p len buf rule: hash_blocks.induct)
  case (1 transform num uns p len buf)
  have "\<forall>ch\<in>set (take (len - 4 * num) (drop (4 * num) p)). \<not> bit ch 7"
    unfolding take_drop_sub using 1(3) by (meson in_set_dropD)
  then have "hash_blocks transform num uns (drop (4 * num) p) (len - 4 * num) buf' =
      hash_blocks transform num True (drop (4 * num) p) (len - 4 * num) buf'"
    if "len > 0 \<and> num > 0" "buf' = transform buf (str2hashbuf p len num uns)" for buf'
    using 1(1)[OF that(1)] 1(2) that(2) by simp
  then show ?case
    using str2hashbuf_ascii[OF 1(2,3), of num uns]
    by (subst (1 2) hash_blocks.simps) simp
qed

lemma hash_blocks_take:
  "len \<le> length p \<Longrightarrow> hash_blocks transform num uns (take len p) len buf = hash_blocks transform num uns p len buf"
proof (induction transform num uns p len buf rule: hash_blocks.induct)
  case (1 transform num uns p len buf)
  have "str2hashbuf (take len p) len num uns = str2hashbuf p len num uns"
    using 1(2) by (simp add: str2hashbuf_spec)
  then show ?case using 1
    by (subst (1 2) hash_blocks.simps) (simp add: take_drop_sub[symmetric])
qed

text \<open>C31: The hash depends on the first \<open>len\<close> characters only: what follows the name in its directory
  block is not read, for every hash version and seed.\<close>

theorem dirhash_reads_name_only:
  assumes "len \<le> length name"
  shows "ext2fs_dirhash version name len seed = ext2fs_dirhash version (take len name) len seed"
  using assms by (simp add: ext2fs_dirhash_def dx_hack_hash_def hash_blocks_take Let_def)

theorem dirhash_reads_name_only_witness:
  "ext2fs_dirhash 0 [97, 98, 99] 2 None = ext2fs_dirhash 0 [97, 98] 2 None \<and>
   ext2fs_dirhash 0 [97, 98] 2 None \<noteq> ext2fs_dirhash 0 [97, 98, 99] 3 None"
proof
  show "ext2fs_dirhash 0 [97, 98, 99] 2 None = ext2fs_dirhash 0 [97, 98] 2 None"
    using dirhash_reads_name_only[of 2 "[97, 98, 99]" 0 None] by simp
  show "ext2fs_dirhash 0 [97, 98] 2 None \<noteq> ext2fs_dirhash 0 [97, 98, 99] 3 None"
    by code_simp
qed

text \<open>C30: The signed and the unsigned version of each hash agree on names of 7-bit characters, and only the
  version numbers 0 to 5 are supported: any other is reported and leaves a zero hash. The lowest bit of a hash is
  never set, the legacy hashes have no minor hash, and an all-zero seed counts as no seed.\<close>

theorem dirhash_versions:
  "(len \<le> length name \<and> (\<forall>ch\<in>set (take len name). \<not> bit ch 7) \<and> v \<in> {0, 1, 2} \<longrightarrow>
      ext2fs_dirhash (v + 3) name len seed = ext2fs_dirhash v name len seed) \<and>
   (case ext2fs_dirhash version name len seed of (rv, h, minor) \<Rightarrow>
      rv = (if version \<in> {0..5} then None else Some EXT2_ET_DIRHASH_UNSUPP) \<and>
      (rv \<noteq> None \<longrightarrow> h = 0 \<and> minor = None) \<and> \<not> bit h 0 \<and>
      (version = 0 \<or> version = 3 \<longrightarrow> minor = Some 0)) \<and>
   ext2fs_dirhash version name len (Some (0, 0, 0, 0)) = ext2fs_dirhash version name len None"
proof (intro conjI impI)
  assume a: "len \<le> length name \<and> (\<forall>ch\<in>set (take len name). \<not> bit ch 7) \<and> v \<in> {0, 1, 2}"
  then have eq: "hash_blocks t n False name len buf = hash_blocks t n True name len buf"
    "dx_hack_hash name len False = dx_hack_hash name len True" for t n buf
    by (auto simp: dx_hack_hash_def dx_hack_loop_ascii[of _ False] intro: hash_blocks_ascii)
  from a consider "v = 0" | "v = 1" | "v = 2" by auto
  then show "ext2fs_dirhash (v + 3) name len seed = ext2fs_dirhash v name len seed"
    by cases (simp_all add: ext2fs_dirhash_def eq)
next
  show "case ext2fs_dirhash version name len seed of (rv, h, minor) \<Rightarrow>
      rv = (if version \<in> {0..5} then None else Some EXT2_ET_DIRHASH_UNSUPP) \<and>
      (rv \<noteq> None \<longrightarrow> h = 0 \<and> minor = None) \<and> \<not> bit h 0 \<and>
      (version = 0 \<or> version = 3 \<longrightarrow> minor = Some 0)"
    by (auto simp: ext2fs_dirhash_def Let_def bit_and_iff bit_not_iff split: prod.splits)
qed (simp add: ext2fs_dirhash_def)

theorem dirhash_versions_witness:
  "ext2fs_dirhash 4 [97, 98] 2 None = ext2fs_dirhash 1 [97, 98] 2 None \<and>
   fst (ext2fs_dirhash 9 [97, 98] 2 None) = Some EXT2_ET_DIRHASH_UNSUPP"
  using dirhash_versions[of 2 "[97, 98]" 1 None 9] by (auto split: prod.splits)

end
