(* ===== verification/Super_Layout.thy ===== *)
theory Super_Layout
  imports Blknum
begin

text \<open>
  \<^verbatim>\<open>lib/ext2fs/closefs.c\<close>: which groups carry a copy of the superblock and of the group descriptors and where, and the
  write of the primary superblock. The channel's byte-write is a parameter, as it is code behind a
  function pointer.
\<close>

section \<open>Model\<close>

text \<open>
  \<^verbatim>\<open>test_root\<close>. Its loop divides \<open>a\<close> by \<open>b\<close>, so that it ends for \<open>b > 1\<close>; the last guard stands for the call with \<open>b \<le> 1\<close>, which does not occur.
\<close>

function test_root :: "u32 \<Rightarrow> u32 \<Rightarrow> bool" where
  "test_root a b =
     (if a < b then False
      else if a = b then True
      else if a mod b \<noteq> 0 then False
      else if unat b \<le> 1 then False
      else test_root (a div b) b)"
  by pat_completeness auto
termination
proof (relation "measure (\<lambda>(a, b). unat a)")
  fix a b :: u32
  assume "\<not> a < b" "\<not> unat b \<le> 1"
  then have "unat a \<noteq> 0" "unat b > 1" by (auto simp: word_less_nat_alt)
  then have "unat a div unat b < unat a" by simp
  then show "((a div b, b), (a, b)) \<in> measure (\<lambda>(a, b). unat a)"
    by (simp add: unat_div_distrib)
qed simp

declare test_root.simps [simp del]

definition ext2fs_bg_has_super :: "ext2_filsys \<Rightarrow> u32 \<Rightarrow> bool" where
  "ext2fs_bg_has_super fs grp =
     (if grp = 0 then True
      else if s_feature_compat (fs_super fs) AND EXT4_FEATURE_COMPAT_SPARSE_SUPER2 \<noteq> 0 then
        grp = fst (s_backup_bgs (fs_super fs)) \<or> grp = snd (s_backup_bgs (fs_super fs))
      else if grp \<le> 1 \<or> s_feature_ro_compat (fs_super fs) AND EXT2_FEATURE_RO_COMPAT_SPARSE_SUPER = 0 then True
      else if grp AND 1 = 0 then False
      else test_root grp 3 \<or> test_root grp 5 \<or> test_root grp 7)"

record bgd_loc =
  super_blk :: u64
  old_desc_blk :: u64
  new_desc_blk :: u64
  used_blks :: u32

definition has_meta_bg :: "ext2_super_block \<Rightarrow> bool" where
  "has_meta_bg super \<longleftrightarrow> s_feature_incompat super AND EXT2_FEATURE_INCOMPAT_META_BG \<noteq> 0"

text \<open>The local variables \<^verbatim>\<open>group_block\<close> and \<^verbatim>\<open>old_desc_blocks\<close>.\<close>

definition group_block :: "ext2_filsys \<Rightarrow> u32 \<Rightarrow> u64" where
  "group_block fs grp =
     (let group_block = ext2fs_group_first_block2 fs grp
      in if group_block = 0 \<and> fs_blocksize fs = 1024 then 1 else group_block)"

definition old_desc_blocks :: "ext2_filsys \<Rightarrow> u64" where
  "old_desc_blocks fs =
     (if has_meta_bg (fs_super fs) then ucast (s_first_meta_bg (fs_super fs))
      else fs_desc_blocks fs + ucast (s_reserved_gdt_blocks (fs_super fs)))"

definition ext2fs_super_and_bgd_loc2 :: "ext2_filsys \<Rightarrow> u32 \<Rightarrow> bgd_loc" where
  "ext2fs_super_and_bgd_loc2 fs grp =
     (let has_super = ext2fs_bg_has_super fs grp;
          loc = \<lparr>super_blk = 0, old_desc_blk = 0, new_desc_blk = 0, used_blks = 0\<rparr>;
          loc = (if has_super then loc\<lparr>super_blk := group_block fs grp, used_blks := used_blks loc + 1\<rparr> else loc);
          meta_bg_size = EXT2_DESC_PER_BLOCK (fs_super fs);
          meta_bg = grp div meta_bg_size
      in if \<not> has_meta_bg (fs_super fs) \<or> meta_bg < s_first_meta_bg (fs_super fs) then
           (if has_super
            then loc\<lparr>old_desc_blk := group_block fs grp + 1,
                     used_blks := used_blks loc + ucast (old_desc_blocks fs)\<rparr>
            else loc)
         else if grp mod meta_bg_size = 0 \<or> grp mod meta_bg_size = 1 \<or> grp mod meta_bg_size = meta_bg_size - 1 then
           loc\<lparr>new_desc_blk := group_block fs grp + (if has_super then 1 else 0),
               used_blks := used_blks loc + 1\<rparr>
         else loc)"

text \<open>The result of the 32-bit variant: the three locations, the meta group and the number returned.\<close>

definition ext2fs_super_and_bgd_loc :: "ext2_filsys \<Rightarrow> u32 \<Rightarrow> (u32 \<times> u32 \<times> u32 \<times> u32) \<times> u32" where
  "ext2fs_super_and_bgd_loc fs grp =
     (let loc = ext2fs_super_and_bgd_loc2 fs grp;
          numblocks = ext2fs_group_blocks_count fs grp
      in ((ucast (super_blk loc), ucast (old_desc_blk loc), ucast (new_desc_blk loc),
           grp div EXT2_DESC_PER_BLOCK (fs_super fs)),
          numblocks - (2 + fs_inode_blocks_per_group fs + used_blks loc)))"

text \<open>
  The channel operations that the write of the superblock uses. A superblock is its 512 16-bit
  words; \<open>write_byte\<close> has the byte offset, the number of bytes and the words, and is \<open>None\<close> for a manager without it.
\<close>

record 'io io_manager =
  io_set_blksize :: "u32 \<Rightarrow> 'io \<Rightarrow> 'io"
  io_write_blk64 :: "u64 \<Rightarrow> int \<Rightarrow> u16 list \<Rightarrow> 'io \<Rightarrow> errcode option \<times> 'io"
  io_write_byte :: "(nat \<Rightarrow> nat \<Rightarrow> u16 list \<Rightarrow> 'io \<Rightarrow> errcode option \<times> 'io) option"

definition SUPERBLOCK_OFFSET :: nat where "SUPERBLOCK_OFFSET = 1024"
definition SUPERBLOCK_SIZE :: nat where "SUPERBLOCK_SIZE = 1024"

text \<open>The end of the run of changed words that the inner loop finds.\<close>

function changed_end :: "u16 list \<Rightarrow> u16 list \<Rightarrow> nat \<Rightarrow> nat" where
  "changed_end old_super new_super check_idx =
     (if check_idx < SUPERBLOCK_SIZE div 2 \<and> old_super ! check_idx \<noteq> new_super ! check_idx
      then changed_end old_super new_super (check_idx + 1) else check_idx)"
  by pat_completeness auto
termination
  by (relation "measure (\<lambda>(old_super, new_super, check_idx). SUPERBLOCK_SIZE div 2 - check_idx)") auto

declare changed_end.simps [simp del]

lemma changed_end_ge: "check_idx \<le> changed_end old_super new_super check_idx"
  by (induction old_super new_super check_idx rule: changed_end.induct)
    (subst changed_end.simps, auto)

function write_changed ::
  "(nat \<Rightarrow> nat \<Rightarrow> u16 list \<Rightarrow> 'io \<Rightarrow> errcode option \<times> 'io) \<Rightarrow> u16 list \<Rightarrow> u16 list \<Rightarrow> nat \<Rightarrow> 'io \<Rightarrow> errcode option \<times> 'io" where
  "write_changed wb old_super new_super check_idx io =
     (if check_idx < SUPERBLOCK_SIZE div 2 then
        if old_super ! check_idx = new_super ! check_idx
        then write_changed wb old_super new_super (check_idx + 1) io
        else (let write_idx = check_idx;
                  check_idx' = changed_end old_super new_super (check_idx + 1);
                  n = check_idx' - write_idx
              in case wb (SUPERBLOCK_OFFSET + 2 * write_idx) (2 * n) (take n (drop write_idx new_super)) io of
                   (Some e, io) \<Rightarrow> (Some e, io)
                 | (None, io) \<Rightarrow> write_changed wb old_super new_super (check_idx' + 1) io)
      else (None, io))"
  by pat_completeness auto
termination
proof (relation "measure (\<lambda>(wb, old_super, new_super, check_idx, io). SUPERBLOCK_SIZE div 2 - check_idx)")
  fix check_idx x xa :: nat and old_super new_super :: "u16 list"
  assume "check_idx < SUPERBLOCK_SIZE div 2" "xa = changed_end old_super new_super (check_idx + 1)"
  then show "((wb, old_super, new_super, xa + 1, y), wb, old_super, new_super, check_idx, io)
      \<in> measure (\<lambda>(wb, old_super, new_super, check_idx, io). SUPERBLOCK_SIZE div 2 - check_idx)"
    for wb :: "nat \<Rightarrow> nat \<Rightarrow> u16 list \<Rightarrow> 'io \<Rightarrow> errcode option \<times> 'io" and y io
    using changed_end_ge[of "check_idx + 1" old_super new_super] by auto
qed auto

declare write_changed.simps [simp del]

text \<open>The result is the return value, the channel and the new contents of \<^verbatim>\<open>fs->orig_super\<close>.\<close>

definition write_primary_superblock ::
  "'io io_manager \<Rightarrow> ext2_filsys \<Rightarrow> u16 list option \<Rightarrow> u16 list \<Rightarrow> 'io \<Rightarrow> errcode option \<times> 'io \<times> u16 list option" where
  "write_primary_superblock mgr fs orig_super super io =
     (let fallback = (\<lambda>io. let io = io_set_blksize mgr (of_nat SUPERBLOCK_OFFSET) io;
                              (retval, io) = io_write_blk64 mgr 1 (- int SUPERBLOCK_SIZE) super io;
                              io = io_set_blksize mgr (fs_blocksize fs) io
                          in (retval, io, orig_super))
      in case (io_write_byte mgr, orig_super) of
           (Some wb, Some old_super) \<Rightarrow>
             (case write_changed wb old_super super 0 io of
                (Some e, io) \<Rightarrow> if e = EXT2_ET_UNIMPLEMENTED then fallback io else (Some e, io, orig_super)
              | (None, io) \<Rightarrow> (None, io, Some super))
         | _ \<Rightarrow> fallback io)"

section \<open>Groups with a superblock\<close>

lemma test_root_power:
  "unat b > 1 \<Longrightarrow> test_root a b \<longleftrightarrow> (\<exists>k. unat a = unat b ^ Suc k)"
proof (induction a b rule: test_root.induct)
  case (1 a b)
  consider "unat a < unat b" | "unat a = unat b" | "unat a > unat b" by linarith
  then show ?case
  proof cases
    assume "unat a < unat b"
    then have "unat a \<noteq> unat b ^ Suc k" for k
      using 1(2) self_le_power[of "unat b" "Suc k"] by auto
    then show ?thesis using \<open>unat a < unat b\<close> by (subst test_root.simps) (simp add: word_less_nat_alt)
  next
    assume "unat a = unat b"
    then have "a = b" "unat a = unat b ^ Suc 0" by (simp_all add: word_unat_eq_iff)
    then show ?thesis by (subst test_root.simps) (auto intro: exI[of _ 0])
  next
    assume gt: "unat a > unat b"
    then have ne: "\<not> a < b" "a \<noteq> b" by (auto simp: word_less_nat_alt)
    have nf: "\<not> unat b \<le> 1" using 1(2) by simp
    have "(\<exists>k. unat a = unat b ^ Suc k) \<longleftrightarrow> unat b dvd unat a \<and> (\<exists>k. unat (a div b) = unat b ^ Suc k)"
    proof (rule iffI)
      assume "\<exists>k. unat a = unat b ^ Suc k"
      then obtain k where k: "unat a = unat b ^ Suc k" ..
      then have "k \<noteq> 0" using gt by (intro notI) simp
      then obtain j where "k = Suc j" by (cases k) auto
      then show "unat b dvd unat a \<and> (\<exists>k. unat (a div b) = unat b ^ Suc k)"
        using k 1(2) by (auto simp: unat_div_distrib)
    next
      assume h: "unat b dvd unat a \<and> (\<exists>k. unat (a div b) = unat b ^ Suc k)"
      then obtain k where "unat a div unat b = unat b ^ Suc k" by (auto simp: unat_div_distrib)
      then have "unat a = unat b ^ Suc (Suc k)" using h by (metis dvd_mult_div_cancel power_Suc)
      then show "\<exists>k. unat a = unat b ^ Suc k" ..
    qed
    moreover have "a mod b = 0 \<longleftrightarrow> unat b dvd unat a"
      by (simp add: word_unat_eq_iff unat_mod_distrib dvd_eq_mod_eq_0)
    moreover have "test_root (a div b) b \<longleftrightarrow> (\<exists>k. unat (a div b) = unat b ^ Suc k)" if "a mod b = 0"
      using 1(1)[OF ne] that nf 1(2) by simp
    ultimately show ?thesis using ne nf by (subst test_root.simps) auto
  qed
qed

lemma odd_word_and_1: "(w :: u32) AND 1 = 0 \<longleftrightarrow> even (unat w)"
  by (simp add: and_one_eq word_unat_eq_iff even_iff_mod_2_eq_zero unat_mod_distrib)

text \<open>C23: With sparse superblocks (and not the second variant) the groups that carry a superblock are exactly
  group 0 and the groups whose number is a power of 3, 5 or 7; the early exit for even numbers loses none.\<close>

theorem bg_has_super_powers:
  assumes "s_feature_compat (fs_super fs) AND EXT4_FEATURE_COMPAT_SPARSE_SUPER2 = 0"
    and "s_feature_ro_compat (fs_super fs) AND EXT2_FEATURE_RO_COMPAT_SPARSE_SUPER \<noteq> 0"
  shows "ext2fs_bg_has_super fs grp \<longleftrightarrow>
    grp = 0 \<or> (\<exists>k. unat grp = 3 ^ k \<or> unat grp = 5 ^ k \<or> unat grp = 7 ^ k)"
proof -
  consider "unat grp = 0" | "unat grp = 1" | "unat grp > 1" by linarith
  then show ?thesis
  proof cases
    assume "unat grp = 0"
    then show ?thesis by (simp add: ext2fs_bg_has_super_def word_unat_eq_iff)
  next
    assume "unat grp = 1"
    then have "grp \<le> 1" "unat grp = 3 ^ 0" by (simp_all add: word_le_nat_alt)
    then show ?thesis using assms by (auto simp: ext2fs_bg_has_super_def intro: exI[of _ 0])
  next
    assume g: "unat grp > 1"
    then have gt: "grp \<noteq> 0" "\<not> grp \<le> 1" by (auto simp: word_le_nat_alt word_unat_eq_iff)
    have ev: "odd (unat grp)" if "unat grp = 3 ^ k \<or> unat grp = 5 ^ k \<or> unat grp = 7 ^ k" for k using that by auto
    have "(\<exists>k. unat grp = p ^ k) \<longleftrightarrow> (\<exists>k. unat grp = p ^ Suc k)" for p :: nat
      using g by (metis less_numeral_extra(4) not0_implies_Suc power_0)
    then show ?thesis using gt assms ev unfolding ext2fs_bg_has_super_def
      by (auto simp: odd_word_and_1 test_root_power)
  qed
qed

theorem bg_has_super_powers_witness:
  "ext2fs_bg_has_super (demo_fs False) 49 \<and> \<not> ext2fs_bg_has_super (demo_fs False) 15"
proof -
  have feat: "s_feature_compat (fs_super (demo_fs False)) AND EXT4_FEATURE_COMPAT_SPARSE_SUPER2 = 0"
    "s_feature_ro_compat (fs_super (demo_fs False)) AND EXT2_FEATURE_RO_COMPAT_SPARSE_SUPER \<noteq> 0"
    by code_simp+
  have "\<exists>k. unat (49 :: u32) = 7 ^ k" by (rule exI[of _ 2]) simp
  then have "ext2fs_bg_has_super (demo_fs False) 49"
    using bg_has_super_powers[OF feat, of 49] by auto
  moreover have "\<not> ext2fs_bg_has_super (demo_fs False) 15" by code_simp
  ultimately show ?thesis ..
qed

section \<open>The blocks at the start of a group\<close>

lemma unat_group_first_block2:
  "unat (ext2fs_group_first_block2 fs g) =
     unat (s_first_data_block (fs_super fs)) + unat (s_blocks_per_group (fs_super fs)) * unat g"
  "unat (s_first_data_block (fs_super fs)) + unat (s_blocks_per_group (fs_super fs)) * unat g < 2 ^ 64 - 1"
proof -
  let ?f = "unat (s_first_data_block (fs_super fs))" and ?b = "unat (s_blocks_per_group (fs_super fs))"
  have "?b * unat g \<le> (2 ^ 32 - 1) * (2 ^ 32 - 1)"
    using unat_less32[of g] unat_less32[of "s_blocks_per_group (fs_super fs)"] by (intro mult_le_mono) simp_all
  moreover have "?f \<le> 2 ^ 32 - 1" using unat_less32[of "s_first_data_block (fs_super fs)"] by simp
  ultimately show bound: "?f + ?b * unat g < 2 ^ 64 - 1" by simp
  then show "unat (ext2fs_group_first_block2 fs g) = ?f + ?b * unat g"
    by (simp add: ext2fs_group_first_block2_def EXT2_GROUPS_TO_BLOCKS_def unat_plus64 unat_mult64)
qed

lemma group_block_bounds:
  "unat (group_block fs g) + 1 < 2 ^ 64"
  "0 < s_blocks_per_group (fs_super fs) \<Longrightarrow> g \<noteq> 0 \<Longrightarrow> group_block fs g \<noteq> 0"
proof -
  show "unat (group_block fs g) + 1 < 2 ^ 64"
    using unat_group_first_block2[of fs g] by (simp add: group_block_def Let_def)
  assume "0 < s_blocks_per_group (fs_super fs)" "g \<noteq> 0"
  then have "unat (ext2fs_group_first_block2 fs g) \<noteq> 0"
    unfolding unat_group_first_block2(1) by (simp add: word_less_nat_alt word_unat_eq_iff)
  then show "group_block fs g \<noteq> 0" by (auto simp: group_block_def Let_def)
qed

lemma unat_group_block_Suc: "unat (group_block fs g + 1) = Suc (unat (group_block fs g))"
  using group_block_bounds(1)[of fs g] unat_plus64[of "group_block fs g" 1] by simp

lemma bg_0_has_super [simp]: "ext2fs_bg_has_super fs 0"
  by (simp add: ext2fs_bg_has_super_def)

text \<open>C24: The blocks that are reported for a group, the superblock copy, the old descriptor blocks with the
  reserved ones, the descriptor block of a meta group, are exactly the first \<open>used_blks\<close> blocks of the group: they
  leave no gap, and the count that the caller subtracts from the free blocks is the true one.\<close>

theorem bgd_loc_contiguous:
  assumes "0 < s_blocks_per_group (fs_super fs)" "unat (old_desc_blocks fs) < 2 ^ 32 - 1"
  shows "(if ext2fs_bg_has_super fs g then {unat (super_blk (ext2fs_super_and_bgd_loc2 fs g))} else {})
      \<union> (if old_desc_blk (ext2fs_super_and_bgd_loc2 fs g) \<noteq> 0
         then {unat (old_desc_blk (ext2fs_super_and_bgd_loc2 fs g)) ..<
               unat (old_desc_blk (ext2fs_super_and_bgd_loc2 fs g)) + unat (old_desc_blocks fs)} else {})
      \<union> (if new_desc_blk (ext2fs_super_and_bgd_loc2 fs g) \<noteq> 0
         then {unat (new_desc_blk (ext2fs_super_and_bgd_loc2 fs g))} else {})
    = {unat (group_block fs g) ..< unat (group_block fs g) + unat (used_blks (ext2fs_super_and_bgd_loc2 fs g))}"
proof -
  have s: "group_block fs g + 1 \<noteq> 0" using unat_group_block_Suc[of fs g] by (auto simp: word_unat_eq_iff)
  have u: "unat (1 + ucast (old_desc_blocks fs) :: u32) = Suc (unat (old_desc_blocks fs))"
    using assms(2) by (simp add: unat_word_ariths unsigned_ucast_eq take_bit_nat_eq_self)
  have z: "group_block fs g \<noteq> 0" if "\<not> ext2fs_bg_has_super fs g"
    using that group_block_bounds(2)[OF assms(1), of g] by (cases "g = 0") auto
  let ?d = "EXT2_DESC_PER_BLOCK (fs_super fs)"
  consider (old) "\<not> has_meta_bg (fs_super fs) \<or> g div ?d < s_first_meta_bg (fs_super fs)"
    | (copy) "has_meta_bg (fs_super fs)" "\<not> g div ?d < s_first_meta_bg (fs_super fs)"
        "g mod ?d = 0 \<or> g mod ?d = 1 \<or> g mod ?d = ?d - 1"
    | (none) "has_meta_bg (fs_super fs)" "\<not> g div ?d < s_first_meta_bg (fs_super fs)"
        "\<not> (g mod ?d = 0 \<or> g mod ?d = 1 \<or> g mod ?d = ?d - 1)"
    by blast
  then show ?thesis
  proof cases
    case old
    then show ?thesis using s u
      by (cases "ext2fs_bg_has_super fs g")
        (simp_all add: ext2fs_super_and_bgd_loc2_def unat_group_block_Suc, auto)
  next
    case copy
    then show ?thesis using s z
      by (cases "ext2fs_bg_has_super fs g")
        (simp_all add: ext2fs_super_and_bgd_loc2_def unat_group_block_Suc atLeastLessThanSuc)
  next
    case none
    then show ?thesis
      by (cases "ext2fs_bg_has_super fs g")
        (simp_all add: ext2fs_super_and_bgd_loc2_def atLeastLessThanSuc)
  qed
qed

theorem bgd_loc_contiguous_witness:
  "{unat (super_blk (ext2fs_super_and_bgd_loc2 (demo_fs False) 1))}
     \<union> {unat (old_desc_blk (ext2fs_super_and_bgd_loc2 (demo_fs False) 1))} = {33, 34}"
proof -
  let ?l = "ext2fs_super_and_bgd_loc2 (demo_fs False) 1"
  have h: "0 < s_blocks_per_group (fs_super (demo_fs False))" by code_simp
  have d: "old_desc_blocks (demo_fs False) = 1" by code_simp
  have v: "ext2fs_bg_has_super (demo_fs False) 1" "new_desc_blk ?l = 0"
    "group_block (demo_fs False) 1 = 33" "used_blks ?l = 2" by code_simp+
  have lt: "unat (old_desc_blocks (demo_fs False)) < 2 ^ 32 - 1" unfolding d by simp
  have "old_desc_blk ?l = 34" by code_simp
  moreover have "super_blk ?l = 33" by code_simp
  ultimately show ?thesis
    using bgd_loc_contiguous[OF h lt, of 1] unfolding d by (auto simp: v)
qed

section \<open>Writing the primary superblock\<close>

lemma changed_end_props:
  "check_idx \<le> 512 \<Longrightarrow> changed_end old_super new_super check_idx \<le> 512"
  "check_idx \<le> i \<Longrightarrow> i < changed_end old_super new_super check_idx \<Longrightarrow> old_super ! i \<noteq> new_super ! i"
  "changed_end old_super new_super check_idx < 512 \<Longrightarrow>
     old_super ! changed_end old_super new_super check_idx = new_super ! changed_end old_super new_super check_idx"
proof (induction old_super new_super check_idx rule: changed_end.induct)
  case (1 old_super new_super check_idx)
  let ?go = "check_idx < 512 \<and> old_super ! check_idx \<noteq> new_super ! check_idx"
  have e: "changed_end old_super new_super check_idx =
      (if ?go then changed_end old_super new_super (check_idx + 1) else check_idx)"
    by (subst changed_end.simps) (simp add: SUPERBLOCK_SIZE_def)
  have go: "check_idx < SUPERBLOCK_SIZE div 2 \<and> old_super ! check_idx \<noteq> new_super ! check_idx \<longleftrightarrow> ?go"
    by (simp add: SUPERBLOCK_SIZE_def)
  note IH = 1[unfolded go]
  {
    case 1
    then show ?case using IH(1) by (simp add: e)
  next
    case 2
    then show ?case using IH(2) by (cases "i = check_idx") (auto simp: e split: if_splits)
  next
    case 3
    then show ?case using IH(3) by (auto simp: e split: if_splits)
  }
qed

lemma changed_run:
  assumes "c < 512" "old_super ! c \<noteq> new_super ! c"
  defines "e \<equiv> changed_end old_super new_super (c + 1)"
  shows "c < e" "e \<le> 512" "\<And>i. c \<le> i \<Longrightarrow> i < e \<Longrightarrow> old_super ! i \<noteq> new_super ! i"
    "e < 512 \<Longrightarrow> old_super ! e = new_super ! e"
proof -
  show "c < e" using changed_end_ge[of "c + 1" old_super new_super] by (simp add: e_def)
  show "e \<le> 512" unfolding e_def by (rule changed_end_props(1)) (use assms in simp)
  show "old_super ! e = new_super ! e" if "e < 512" using that unfolding e_def by (rule changed_end_props(3))
  show "old_super ! i \<noteq> new_super ! i" if "c \<le> i" "i < e" for i
    using that assms(2) changed_end_props(2)[of "c + 1" i old_super new_super]
    by (cases "i = c") (auto simp: e_def)
qed

text \<open>
  A device of 16-bit cells, cell \<open>i\<close> at byte \<open>2 * i\<close>, and what the documentation of the byte-write says of it: on success
  the bytes are stored, and nothing outside them changes in any case.
\<close>

definition cells_upd :: "(nat \<Rightarrow> u16) \<Rightarrow> nat \<Rightarrow> u16 list \<Rightarrow> nat \<Rightarrow> u16" where
  "cells_upd dev at data = (\<lambda>i. if at \<le> i \<and> i < at + length data then data ! (i - at) else dev i)"

definition byte_writer :: "(nat \<Rightarrow> nat \<Rightarrow> u16 list \<Rightarrow> (nat \<Rightarrow> u16) \<Rightarrow> errcode option \<times> (nat \<Rightarrow> u16)) \<Rightarrow> bool" where
  "byte_writer wb \<longleftrightarrow> (\<forall>at data dev rv dev'. wb (2 * at) (2 * length data) data dev = (rv, dev') \<longrightarrow>
     (rv = None \<longrightarrow> dev' = cells_upd dev at data) \<and>
     (\<forall>i. i < at \<or> at + length data \<le> i \<longrightarrow> dev' i = dev i))"

definition same_or :: "u16 list \<Rightarrow> u16 list \<Rightarrow> nat \<Rightarrow> nat \<Rightarrow> bool" where
  "same_or old_super new_super c i \<longleftrightarrow> i < 512 + c \<or> 1024 \<le> i \<or> old_super ! (i - 512) = new_super ! (i - 512)"

lemma write_changed_spec:
  assumes "byte_writer wb" "length new_super = 512"
  shows "write_changed wb old_super new_super c dev = (rv, dev') \<Longrightarrow>
    (\<forall>i. same_or old_super new_super c i \<longrightarrow> dev' i = dev i) \<and>
    (rv = None \<longrightarrow> (\<forall>i. c \<le> i \<and> i < 512 \<and> old_super ! i \<noteq> new_super ! i \<longrightarrow> dev' (512 + i) = new_super ! i))"
proof (induction "512 - c" arbitrary: c dev rv dev' rule: less_induct)
  case less
  note unfold = less.prems[unfolded write_changed.simps[of wb old_super new_super c dev], simplified SUPERBLOCK_SIZE_def]
  consider (stop) "512 \<le> c" | (skip) "c < 512" "old_super ! c = new_super ! c" | (run) "c < 512" "old_super ! c \<noteq> new_super ! c"
    by linarith
  then show ?case
  proof cases
    case stop
    then show ?thesis using unfold by auto
  next
    case skip
    then have "write_changed wb old_super new_super (c + 1) dev = (rv, dev')" using unfold by simp
    then have ih: "\<forall>i. same_or old_super new_super (c + 1) i \<longrightarrow> dev' i = dev i"
      "rv = None \<longrightarrow> (\<forall>i. c + 1 \<le> i \<and> i < 512 \<and> old_super ! i \<noteq> new_super ! i \<longrightarrow> dev' (512 + i) = new_super ! i)"
      using less.hyps[of "c + 1" dev rv dev'] skip(1) by auto
    moreover have "same_or old_super new_super (c + 1) i" if "same_or old_super new_super c i" for i
      using that by (auto simp: same_or_def)
    ultimately show ?thesis using skip(2) by (metis Suc_eq_plus1 Suc_leI le_neq_implies_less)
  next
    case run
    define e where "e = changed_end old_super new_super (c + 1)"
    define data where "data = take (e - c) (drop c new_super)"
    note e = changed_run[OF run, folded e_def]
    have len: "length data = e - c" using assms(2) e by (simp add: data_def)
    obtain rv1 dev1 where wb: "wb (2 * (512 + c)) (2 * length data) data dev = (rv1, dev1)" by fastforce
    have w: "rv1 = None \<Longrightarrow> dev1 = cells_upd dev (512 + c) data"
      "\<And>i. i < 512 + c \<or> 512 + e \<le> i \<Longrightarrow> dev1 i = dev i"
      using assms(1)[unfolded byte_writer_def, rule_format, OF wb] len e(1) by auto
    have same: "i < 512 + c \<or> 512 + e \<le> i" if "same_or old_super new_super c i" for i
    proof (rule ccontr)
      assume "\<not> (i < 512 + c \<or> 512 + e \<le> i)"
      then have "c \<le> i - 512" "i - 512 < e" "\<not> i < 512 + c" "i < 1024" using e(2) by auto
      then show False using that e(3)[of "i - 512"] by (auto simp: same_or_def)
    qed
    have call: "(case wb (2 * (512 + c)) (2 * length data) data dev of
        (Some x, io) \<Rightarrow> (Some x, io) | (None, io) \<Rightarrow> write_changed wb old_super new_super (e + 1) io) = (rv, dev')"
      using unfold run len unfolding data_def[symmetric] e_def[symmetric]
      by (simp add: SUPERBLOCK_OFFSET_def Let_def algebra_simps flip: e_def data_def)
    show ?thesis
    proof (cases rv1)
      case (Some x)
      then show ?thesis using call wb w(2) same by auto
    next
      case None
      then have "write_changed wb old_super new_super (e + 1) dev1 = (rv, dev')" using call wb by simp
      then have ih: "\<forall>i. same_or old_super new_super (e + 1) i \<longrightarrow> dev' i = dev1 i"
        "rv = None \<longrightarrow> (\<forall>i. e + 1 \<le> i \<and> i < 512 \<and> old_super ! i \<noteq> new_super ! i \<longrightarrow> dev' (512 + i) = new_super ! i)"
        using less.hyps[of "e + 1" dev1 rv dev'] run(1) e(1) by auto
      have "dev' (512 + i) = new_super ! i" if "rv = None" "c \<le> i" "i < 512" "old_super ! i \<noteq> new_super ! i" for i
      proof (cases "i < e")
        case True
        then have "dev' (512 + i) = dev1 (512 + i)" using ih(1) by (auto simp: same_or_def)
        then show ?thesis using True that w(1)[OF None] len assms(2) by (simp add: cells_upd_def data_def)
      next
        case False
        then have "e + 1 \<le> i" using that e(4) by (cases "i = e") auto
        then show ?thesis using ih(2) that by simp
      qed
      moreover have "dev' i = dev i" if "same_or old_super new_super c i" for i
      proof -
        have "same_or old_super new_super (e + 1) i" using that e(1) by (auto simp: same_or_def)
        then show ?thesis using ih(1) w(2) same[OF that] by simp
      qed
      ultimately show ?thesis by blast
    qed
  qed
qed

lemma write_changed_error:
  assumes "\<forall>at n data dev. fst (wb at n data dev) \<noteq> Some e"
  shows "fst (write_changed wb old_super new_super c dev) \<noteq> Some e"
proof (induction "512 - c" arbitrary: c dev rule: less_induct)
  case less
  show ?case
  proof (cases "c < 512 \<and> old_super ! c \<noteq> new_super ! c")
    case True
    have "512 - (changed_end old_super new_super (c + 1) + 1) < 512 - c"
      using True changed_end_ge[of "c + 1" old_super new_super] by linarith
    note ih = less[OF this]
    obtain rv1 dev1 where wb: "wb (SUPERBLOCK_OFFSET + 2 * c) (2 * (changed_end old_super new_super (c + 1) - c))
        (take (changed_end old_super new_super (c + 1) - c) (drop c new_super)) dev = (rv1, dev1)"
      by fastforce
    then have "rv1 \<noteq> Some e" using assms by (metis fst_conv)
    then show ?thesis using ih[of dev1] True wb
      by (subst write_changed.simps) (auto simp: SUPERBLOCK_SIZE_def Let_def split: option.splits)
  next
    case False
    then show ?thesis using less[of "c + 1" dev]
      by (subst write_changed.simps) (auto simp: SUPERBLOCK_SIZE_def)
  qed
qed

lemma write_changed_success:
  assumes "\<And>at n data dev. fst (wb at n data dev) = None"
  shows "fst (write_changed wb old_super new_super c dev) = None"
  using write_changed_error[of wb _ old_super new_super c dev] assms
  by (cases "fst (write_changed wb old_super new_super c dev)") auto



end
