(* ===== verification/Count_Map.thy ===== *)
theory Count_Map
  imports Ext2_Prelude
begin

text \<open>
  What the two reference counters of the system share: \<^verbatim>\<open>e2fsck/ea_refcount.c\<close> counts the uses of attribute blocks,
  \<^verbatim>\<open>lib/ext2fs/icount.c\<close> the links of inodes. Both keep a sorted array of entries that is searched by bisection. The facts
  about such an array are proved here for any entry type, and the locale \<open>count_map\<close> states what a client
  of a counter relies on: it is a map from keys to counts.
\<close>

section \<open>Bisection\<close>

text \<open>
  The loop \<^verbatim>\<open>while (low <= high)\<close> of both files on the entries \<open>l\<close>: \<open>Inl mid\<close> when the key is found at \<open>mid\<close>, else \<open>Inr low\<close>. An array
  of \<open>2 ^ 30\<close> entries does not fit the tools' memory, so that the \<^verbatim>\<open>int\<close> sum does not overflow.
\<close>

function search_el :: "('e \<Rightarrow> 'k::linorder) \<Rightarrow> 'e list \<Rightarrow> 'k \<Rightarrow> int \<Rightarrow> int \<Rightarrow> nat + int" where
  "search_el key l k low high =
     (if low \<le> high then
        let mid = (low + high) div 2 in
        if k = key (l ! nat mid) then Inl (nat mid)
        else if k < key (l ! nat mid) then search_el key l k low (mid - 1)
        else search_el key l k (mid + 1) high
      else Inr low)"
  by pat_completeness auto
termination
  by (relation "measure (\<lambda>(key, l, k, low, high). nat (high - low + 1))") auto

declare search_el.simps [simp del]

definition keys_sorted :: "('e \<Rightarrow> 'k::linorder) \<Rightarrow> 'e list \<Rightarrow> nat \<Rightarrow> bool" where
  "keys_sorted key l n \<longleftrightarrow> n \<le> length l \<and> ssorted (map key (take n l))"

lemma keys_sorted_less:
  "keys_sorted key l n \<Longrightarrow> i < j \<Longrightarrow> j < n \<Longrightarrow> key (l ! i) < key (l ! j)"
  unfolding keys_sorted_def using ssorted_nth_less[of "map key (take n l)" i j] by simp

lemma keys_sorted_le:
  "keys_sorted key l n \<Longrightarrow> i \<le> j \<Longrightarrow> j < n \<Longrightarrow> key (l ! i) \<le> key (l ! j)"
  using keys_sorted_less[of key l n i j] by (cases "i = j") auto

lemma search_el_loop:
  assumes "keys_sorted key l n" "0 \<le> low" "high < int n" "low \<le> high + 1"
    "\<And>i. int i < low \<Longrightarrow> key (l ! i) < k" "\<And>i. high < int i \<Longrightarrow> i < n \<Longrightarrow> k < key (l ! i)"
  shows "case search_el key l k low high of
      Inl i \<Rightarrow> i < n \<and> key (l ! i) = k
    | Inr p \<Rightarrow> 0 \<le> p \<and> p \<le> int n \<and> (\<forall>i<nat p. key (l ! i) < k) \<and> (\<forall>i<n. nat p \<le> i \<longrightarrow> k < key (l ! i))"
  using assms
proof (induction key l k low high rule: search_el.induct)
  case (1 key l k low high)
  show ?case
  proof (cases "low \<le> high")
    case False
    then have "high = low - 1" using "1.prems"(4) by simp
    moreover have "k < key (l ! i)" if "i < n" "nat low \<le> i" for i
      using "1.prems"(6)[of i] that calculation "1.prems"(2) by simp
    ultimately show ?thesis
      using False "1.prems" by (subst search_el.simps) auto
  next
    case True
    define mid where "mid = (low + high) div 2"
    have mid: "low \<le> mid" "mid \<le> high" "0 \<le> mid" "nat mid < n"
      using True "1.prems"(2,3) unfolding mid_def by auto
    consider "k = key (l ! nat mid)" | "k < key (l ! nat mid)" | "key (l ! nat mid) < k" by fastforce
    then show ?thesis
    proof cases
      assume "k = key (l ! nat mid)"
      then show ?thesis using True mid by (subst search_el.simps) (simp add: Let_def flip: mid_def)
    next
      assume lt: "k < key (l ! nat mid)"
      have "k < key (l ! i)" if "mid - 1 < int i" "i < n" for i
        using less_le_trans[OF lt keys_sorted_le[OF "1.prems"(1), of "nat mid" i]] that by simp
      then show ?thesis
        using "1.IH"(1)[OF True mid_def] lt mid "1.prems" True
        by (subst search_el.simps) (simp add: Let_def flip: mid_def)
    next
      assume gt: "key (l ! nat mid) < k"
      have "key (l ! i) < k" if "int i < mid + 1" for i
        using le_less_trans[OF keys_sorted_le[OF "1.prems"(1) _ mid(4), of i] gt] that mid(3) by simp
      moreover have "\<not> k < key (l ! nat mid)" "k \<noteq> key (l ! nat mid)" using gt by auto
      ultimately show ?thesis
        using "1.IH"(2)[OF True mid_def] mid "1.prems" True
        by (subst search_el.simps) (simp add: Let_def flip: mid_def)
    qed
  qed
qed

lemma search_el_spec:
  assumes "keys_sorted key l n"
  shows "case search_el key l k 0 (int n - 1) of
      Inl i \<Rightarrow> i < n \<and> key (l ! i) = k
    | Inr p \<Rightarrow> 0 \<le> p \<and> p \<le> int n \<and> (\<forall>i<nat p. key (l ! i) < k) \<and> (\<forall>i<n. nat p \<le> i \<longrightarrow> k < key (l ! i))"
  by (rule search_el_loop[OF assms]) auto

section \<open>The counts of an array\<close>

definition count_of :: "('e \<Rightarrow> 'k) \<Rightarrow> ('e \<Rightarrow> u32) \<Rightarrow> 'e list \<Rightarrow> 'k \<Rightarrow> u32" where
  "count_of key cnt xs k = (case find (\<lambda>e. key e = k) xs of None \<Rightarrow> 0 | Some e \<Rightarrow> cnt e)"

lemma count_of_absent: "k \<notin> key ` set xs \<Longrightarrow> count_of key cnt xs k = 0"
  by (auto simp: count_of_def find_Some_iff split: option.splits)

lemma count_of_mem:
  assumes "distinct (map key xs)" "e \<in> set xs"
  shows "count_of key cnt xs (key e) = cnt e"
proof -
  obtain e' where "find (\<lambda>x. key x = key e) xs = Some e'"
    using assms(2) by (cases "find (\<lambda>x. key x = key e) xs") (auto simp: find_None_iff)
  moreover from this have "e' \<in> set xs" "key e' = key e" by (auto simp: find_Some_iff)
  ultimately show ?thesis
    using assms inj_onD[of key "set xs" e' e] by (simp add: count_of_def distinct_map)
qed

text \<open>Two arrays with distinct keys that agree on their entries with a count have the same counts.\<close>

lemma count_of_cong:
  assumes "distinct (map key xs)" "distinct (map key ys)"
    "\<And>e. cnt e \<noteq> 0 \<Longrightarrow> e \<in> set xs \<longleftrightarrow> e \<in> set ys"
  shows "count_of key cnt xs = count_of key cnt ys"
proof
  have half: "count_of key cnt xs k = count_of key cnt ys k"
    if "distinct (map key xs)" "distinct (map key ys)" "e \<in> set xs" "key e = k" "cnt e \<noteq> 0"
      "\<And>e. cnt e \<noteq> 0 \<Longrightarrow> e \<in> set xs \<longleftrightarrow> e \<in> set ys" for xs ys e k
    using that count_of_mem[of key xs e cnt] count_of_mem[of key ys e cnt] by auto
  have zero: "count_of key cnt xs k = 0"
    if "distinct (map key xs)" "\<nexists>e. e \<in> set xs \<and> key e = k \<and> cnt e \<noteq> 0" for xs k
    using that count_of_mem[of key xs _ cnt] count_of_absent[of k key xs cnt] by (cases "k \<in> key ` set xs") auto
  fix k
  show "count_of key cnt xs k = count_of key cnt ys k"
  proof (cases "\<exists>e. e \<in> set xs \<and> key e = k \<and> cnt e \<noteq> 0")
    case True
    then show ?thesis using half[OF assms(1,2)] assms(3) by blast
  next
    case False
    then have "\<nexists>e. e \<in> set ys \<and> key e = k \<and> cnt e \<noteq> 0" using assms(3) by blast
    then show ?thesis using zero[OF assms(1) False] zero[OF assms(2)] by simp
  qed
qed

lemma keys_sorted_distinct: "keys_sorted key l n \<Longrightarrow> distinct (map key (take n l))"
  by (simp add: keys_sorted_def strict_sorted_iff)

text \<open>A found entry, an entry that is rewritten, an entry that is inserted, zero entries dropped.\<close>

lemma count_of_nth:
  "keys_sorted key l n \<Longrightarrow> i < n \<Longrightarrow> count_of key cnt (take n l) (key (l ! i)) = cnt (l ! i)"
  using count_of_mem[OF keys_sorted_distinct, of key l n "l ! i" cnt]
  by (auto simp: keys_sorted_def)

lemma above_last_key:
  assumes "keys_sorted key l n" "n = 0 \<or> key (l ! (n - 1)) < k"
  shows "\<forall>e \<in> set (take n l). key e < k"
proof
  fix e assume "e \<in> set (take n l)"
  then obtain i where "i < n" "e = l ! i" by (auto simp: in_set_conv_nth)
  moreover from this have "key (l ! i) \<le> key (l ! (n - 1))" by (intro keys_sorted_le[OF assms(1)]) auto
  ultimately show "key e < k" using assms(2) by auto
qed

lemma count_of_between:
  fixes key :: "'e \<Rightarrow> 'k::linorder"
  assumes "\<forall>i<p. key (l ! i) < k" "\<forall>i<n. p \<le> i \<longrightarrow> k < key (l ! i)"
  shows "count_of key cnt (take n l) k = 0"
proof (rule count_of_absent)
  have "key (l ! i) \<noteq> k" if "i < n" for i
    using assms that by (metis less_irrefl not_less)
  then show "k \<notin> key ` set (take n l)" by (fastforce simp: in_set_conv_nth)
qed

lemma count_of_update:
  assumes "keys_sorted key l n" "i < n" "key e = key (l ! i)"
  shows "keys_sorted key (l[i := e]) n"
    "count_of key cnt (take n (l[i := e])) = (count_of key cnt (take n l))(key e := cnt e)"
proof -
  have n: "n \<le> length l" using assms(1) by (simp add: keys_sorted_def)
  have m: "map key (take n (l[i := e])) = map key (take n l)"
    using assms(2,3) n by (subst take_update_swap) (simp add: map_update_same)
  then show s: "keys_sorted key (l[i := e]) n" using assms(1) by (simp add: keys_sorted_def)
  show "count_of key cnt (take n (l[i := e])) = (count_of key cnt (take n l))(key e := cnt e)"
  proof
    fix k
    consider "k = key e" | j where "j < n" "k = key (l ! j)" "k \<noteq> key e" | "k \<notin> key ` set (take n l)"
      using n by (fastforce simp: in_set_conv_nth)
    then show "count_of key cnt (take n (l[i := e])) k = ((count_of key cnt (take n l))(key e := cnt e)) k"
    proof cases
      case 1
      then show ?thesis using count_of_nth[OF s assms(2), of cnt] assms(2) n by simp
    next
      case 2
      then have "j \<noteq> i" using assms(3) by auto
      then show ?thesis using 2 count_of_nth[OF s 2(1), of cnt] count_of_nth[OF assms(1) 2(1), of cnt] by simp
    next
      case 3
      moreover have "key ` set (take n (l[i := e])) = key ` set (take n l)" using m by (metis set_map)
      moreover have "k \<noteq> key e" using 3 assms(2,3) n nth_take_mem[of i n l] by auto
      ultimately show ?thesis by (simp add: count_of_absent)
    qed
  qed
qed

lemma count_of_insert:
  assumes "keys_sorted key l n" "n < length l" "p \<le> n" "cnt e = 0"
    "\<forall>i<p. key (l ! i) < key e" "\<forall>i<n. p \<le> i \<longrightarrow> key e < key (l ! i)"
  shows "keys_sorted key ((shift_up l p n)[p := e]) (Suc n)"
    "count_of key cnt (take (Suc n) ((shift_up l p n)[p := e])) = count_of key cnt (take n l)"
proof -
  let ?xs = "take n l"
  have t: "take (Suc n) ((shift_up l p n)[p := e]) = take p ?xs @ e # drop p ?xs"
    using take_insert_cell[OF assms(2,3), of e] assms(3) by (simp add: min_def)
  have m: "map key (take p ?xs @ e # drop p ?xs) = take p (map key ?xs) @ key e # drop p (map key ?xs)"
    by (simp add: take_map drop_map)
  have "ssorted (take p (map key ?xs) @ key e # drop p (map key ?xs))"
    using assms by (intro ssorted_insert_middle)
      (auto simp: keys_sorted_def take_map drop_map in_set_conv_nth)
  then show s: "keys_sorted key ((shift_up l p n)[p := e]) (Suc n)"
    using t m assms(2) by (simp add: keys_sorted_def)
  have "set (take (Suc n) ((shift_up l p n)[p := e])) = insert e (set ?xs)"
    unfolding t by (rule set_insert_middle)
  then show "count_of key cnt (take (Suc n) ((shift_up l p n)[p := e])) = count_of key cnt ?xs"
    using keys_sorted_distinct[OF s] keys_sorted_distinct[OF assms(1)] assms(4)
    by (intro count_of_cong) auto
qed

lemma count_of_filter:
  assumes "distinct (map key xs)"
  shows "count_of key cnt (filter (\<lambda>e. cnt e \<noteq> 0) xs) = count_of key cnt xs"
  using assms by (intro count_of_cong) (auto simp: distinct_map_filter)

section \<open>The contract of a counter\<close>

datatype 'k count_cmd = Fetch 'k | Increment 'k | Decrement 'k | Store 'k u32

text \<open>What a command returns and does on the map of counts.\<close>

fun spec_count :: "'k count_cmd \<Rightarrow> ('k \<Rightarrow> u32) \<Rightarrow> (errcode + u32) \<times> ('k \<Rightarrow> u32)" where
  "spec_count (Fetch k) M = (Inr (M k), M)"
| "spec_count (Increment k) M = (Inr (M k + 1), M(k := M k + 1))"
| "spec_count (Decrement k) M =
     (if M k = 0 then (Inl EXT2_ET_INVALID_ARGUMENT, M) else (Inr (M k - 1), M(k := M k - 1)))"
| "spec_count (Store k c) M = (Inr 0, M(k := c))"

text \<open>
  A run of commands, each with the outcome of the memory request it may make, and what its results have
  to do with the map: a command that runs out of memory changes nothing, any other acts as specified.
  \<open>xl\<close> is the translation of a count for the caller.
\<close>

fun run_counts ::
  "('m \<Rightarrow> 'k count_cmd \<Rightarrow> 's \<Rightarrow> (errcode + u32) \<times> 's) \<Rightarrow> ('m \<times> 'k count_cmd) list \<Rightarrow> 's \<Rightarrow> (errcode + u32) list \<times> 's" where
  "run_counts exec [] s = ([], s)"
| "run_counts exec ((m, c) # cs) s =
     (let (r, s1) = exec m c s; (rs, s2) = run_counts exec cs s1 in (r # rs, s2))"

definition count_step_ok ::
  "(u32 \<Rightarrow> u32) \<Rightarrow> 'k count_cmd \<Rightarrow> errcode + u32 \<Rightarrow> ('k \<Rightarrow> u32) \<Rightarrow> ('k \<Rightarrow> u32) \<Rightarrow> bool" where
  "count_step_ok xl c r M M' \<longleftrightarrow>
     (if r = Inl EXT2_ET_NO_MEMORY then M' = M
      else r = map_sum id xl (fst (spec_count c M)) \<and> M' = snd (spec_count c M))"

fun counts_agree ::
  "(u32 \<Rightarrow> u32) \<Rightarrow> ('m \<times> 'k count_cmd) list \<Rightarrow> (errcode + u32) list \<Rightarrow> ('k \<Rightarrow> u32) \<Rightarrow> ('k \<Rightarrow> u32) \<Rightarrow> bool" where
  "counts_agree xl [] [] M M' \<longleftrightarrow> M' = M"
| "counts_agree xl ((m, c) # cs) (r # rs) M M' \<longleftrightarrow>
     (\<exists>M1. count_step_ok xl c r M M1 \<and> counts_agree xl cs rs M1 M')"
| "counts_agree xl _ _ M M' \<longleftrightarrow> False"

locale count_map =
  fixes exec :: "'m \<Rightarrow> 'k count_cmd \<Rightarrow> 's \<Rightarrow> (errcode + u32) \<times> 's"
    and ok :: "'s \<Rightarrow> bool"
    and counts :: "'s \<Rightarrow> 'k \<Rightarrow> u32"
    and cmd_ok :: "'s \<Rightarrow> 'k count_cmd \<Rightarrow> bool"
    and xl :: "u32 \<Rightarrow> u32"
  assumes exec_ok: "ok s \<Longrightarrow> cmd_ok s c \<Longrightarrow> exec m c s = (r, s') \<Longrightarrow>
      ok s' \<and> cmd_ok s' = cmd_ok s \<and> count_step_ok xl c r (counts s) (counts s')"
begin

lemma run_agree:
  "ok s \<Longrightarrow> \<forall>(m, c) \<in> set cs. cmd_ok s c \<Longrightarrow> run_counts exec cs s = (rs, s') \<Longrightarrow>
     ok s' \<and> cmd_ok s' = cmd_ok s \<and> counts_agree xl cs rs (counts s) (counts s')"
proof (induction cs arbitrary: s rs s')
  case (Cons mc cs)
  obtain m c where mc: "mc = (m, c)" by fastforce
  obtain r s1 where 1: "exec m c s = (r, s1)" by fastforce
  obtain rs1 s2 where 2: "run_counts exec cs s1 = (rs1, s2)" by fastforce
  have e: "ok s1 \<and> cmd_ok s1 = cmd_ok s \<and> count_step_ok xl c r (counts s) (counts s1)"
    using exec_ok[OF Cons.prems(1) _ 1] Cons.prems(2) mc by auto
  moreover have "ok s2 \<and> cmd_ok s2 = cmd_ok s1 \<and> counts_agree xl cs rs1 (counts s1) (counts s2)"
    using Cons.IH[OF _ _ 2] e Cons.prems(2) by auto
  ultimately show ?case using Cons.prems(3) by (auto simp: mc 1 2)
qed simp

lemma fetch_after_run:
  assumes "ok s" "\<forall>(m, c) \<in> set cs. cmd_ok s c" "run_counts exec cs s = (rs, s')" "cmd_ok s (Fetch k)"
    "exec m (Fetch k) s' = (r, s'')" "r \<noteq> Inl EXT2_ET_NO_MEMORY"
  shows "r = Inr (xl (counts s' k)) \<and> counts s'' = counts s'"
proof -
  have s': "ok s'" "cmd_ok s' (Fetch k)" using run_agree[OF assms(1-3)] assms(4) by auto
  show ?thesis using exec_ok[OF s' assms(5)] assms(6) by (simp add: count_step_ok_def)
qed

end

end
