(* ===== verification/Ea_Refcount.thy ===== *)
theory Ea_Refcount
  imports Count_Map
begin

text \<open>
  \<^verbatim>\<open>e2fsck/ea_refcount.c\<close>: the reference counts of extended attribute blocks, a sorted array that grows, forgets entries whose
  count is zero when it is full, and remembers in \<open>cursor\<close> where the next sequential lookup should hit. A
  pointer to the structure is \<open>None\<close> for NULL; a pointer to an entry is its index. The counts are \<^verbatim>\<open>int\<close> in the code
  and words of that width here.
\<close>

section \<open>Model\<close>

record ea_refcount_el =
  ea_blk :: u64
  ea_count :: u32

record ea_refcount =
  rc_count :: nat
  rc_size :: nat
  rc_cursor :: nat
  rc_list :: "ea_refcount_el list"

definition ea_refcount_create :: "bool \<Rightarrow> bool \<Rightarrow> nat \<Rightarrow> errcode + ea_refcount" where
  "ea_refcount_create ok_struct ok_list sz =
     (if \<not> ok_struct then Inl EXT2_ET_NO_MEMORY
      else let sz = (if sz = 0 then 500 else sz)
       in if \<not> ok_list then Inl EXT2_ET_NO_MEMORY
          else Inr \<lparr>rc_count = 0, rc_size = sz, rc_cursor = 0,
                    rc_list = replicate sz \<lparr>ea_blk = 0, ea_count = 0\<rparr>\<rparr>)"

function collapse_loop :: "nat \<Rightarrow> ea_refcount_el list \<Rightarrow> nat \<Rightarrow> nat \<Rightarrow> ea_refcount_el list \<times> nat" where
  "collapse_loop count l i j =
     (if i < count then
        if ea_count (l ! i) \<noteq> 0
        then collapse_loop count (if i \<noteq> j then l[j := l ! i] else l) (i + 1) (j + 1)
        else collapse_loop count l (i + 1) j
      else (l, j))"
  by pat_completeness auto
termination
  by (relation "measure (\<lambda>(count, l, i, j). count - i)") auto

declare collapse_loop.simps [simp del]

definition refcount_collapse :: "ea_refcount \<Rightarrow> ea_refcount" where
  "refcount_collapse rc =
     (let (l, j) = collapse_loop (rc_count rc) (rc_list rc) 0 0 in rc\<lparr>rc_list := l, rc_count := j\<rparr>)"

text \<open>\<open>mem\<close> is the outcome of the reallocation; the result is the entry's index, \<open>None\<close> for NULL.\<close>

definition insert_refcount_el ::
  "ea_refcount_el mem_outcome \<Rightarrow> ea_refcount \<Rightarrow> u64 \<Rightarrow> int \<Rightarrow> nat option \<times> ea_refcount" where
  "insert_refcount_el mem rc blk pos =
     (let grown = (if rc_count rc \<ge> rc_size rc then
                     (case mem of
                        None \<Rightarrow> None
                      | Some g \<Rightarrow> Some (rc\<lparr>rc_list := rc_list rc @ fresh_cells g 100, rc_size := rc_size rc + 100\<rparr>))
                   else Some rc)
      in case grown of
           None \<Rightarrow> (None, rc)
         | Some rc \<Rightarrow>
             let num = int (rc_count rc) - pos
             in if num < 0 then (None, rc)
                else let l = (if num \<noteq> 0 then shift_up (rc_list rc) (nat pos) (rc_count rc) else rc_list rc)
                     in (Some (nat pos),
                         rc\<lparr>rc_count := rc_count rc + 1,
                            rc_list := l[nat pos := \<lparr>ea_blk = blk, ea_count = 0\<rparr>]\<rparr>))"

function get_refcount_el ::
  "ea_refcount_el mem_outcome \<Rightarrow> ea_refcount \<Rightarrow> u64 \<Rightarrow> bool \<Rightarrow> nat option \<times> ea_refcount" where
  "get_refcount_el mem rc blk create =
     (if create \<and> (rc_count rc = 0 \<or> blk > ea_blk (rc_list rc ! (rc_count rc - 1))) then
        let rc = (if rc_count rc \<ge> rc_size rc then refcount_collapse rc else rc)
        in insert_refcount_el mem rc blk (int (rc_count rc))
      else if rc_count rc = 0 then (None, rc)
      else
        let rc = (if rc_cursor rc \<ge> rc_count rc then rc\<lparr>rc_cursor := 0\<rparr> else rc)
        in if blk = ea_blk (rc_list rc ! rc_cursor rc)
           then (Some (rc_cursor rc), rc\<lparr>rc_cursor := rc_cursor rc + 1\<rparr>)
           else case search_el ea_blk (rc_list rc) blk 0 (int (rc_count rc) - 1) of
                  Inl mid \<Rightarrow> (Some mid, rc\<lparr>rc_cursor := mid + 1\<rparr>)
                | Inr low \<Rightarrow>
                    if create then
                      (if rc_count rc \<ge> rc_size rc then
                         let rc = refcount_collapse rc
                         in if rc_count rc < rc_size rc then get_refcount_el mem rc blk create
                            else insert_refcount_el mem rc blk low
                       else insert_refcount_el mem rc blk low)
                    else (None, rc))"
  by pat_completeness auto
termination
proof (relation "measure (\<lambda>(mem, rc, blk, create). if rc_count rc \<ge> rc_size rc then 1 else 0)")
qed (auto split: if_splits)

declare get_refcount_el.simps [simp del]

text \<open>The entry points. The result of a command that returns a count is that count.\<close>

definition get_el_ptr ::
  "ea_refcount_el mem_outcome \<Rightarrow> ea_refcount option \<Rightarrow> u64 \<Rightarrow> bool \<Rightarrow> (nat \<times> ea_refcount) option \<times> ea_refcount option" where
  "get_el_ptr mem ptr blk create =
     (case ptr of
        None \<Rightarrow> (None, None)
      | Some rc \<Rightarrow>
          (case get_refcount_el mem rc blk create of
             (None, rc') \<Rightarrow> (None, Some rc')
           | (Some i, rc') \<Rightarrow> (Some (i, rc'), Some rc')))"

definition set_el :: "ea_refcount \<Rightarrow> nat \<Rightarrow> u32 \<Rightarrow> ea_refcount" where
  "set_el rc i c = rc\<lparr>rc_list := (rc_list rc)[i := (rc_list rc ! i)\<lparr>ea_count := c\<rparr>]\<rparr>"

definition ea_refcount_fetch :: "ea_refcount option \<Rightarrow> u64 \<Rightarrow> u32 \<times> ea_refcount option" where
  "ea_refcount_fetch ptr blk =
     (case get_el_ptr None ptr blk False of
        (None, ptr) \<Rightarrow> (0, ptr)
      | (Some (i, rc), ptr) \<Rightarrow> (ea_count (rc_list rc ! i), ptr))"

definition ea_refcount_increment ::
  "ea_refcount_el mem_outcome \<Rightarrow> ea_refcount option \<Rightarrow> u64 \<Rightarrow> (errcode + u32) \<times> ea_refcount option" where
  "ea_refcount_increment mem ptr blk =
     (case get_el_ptr mem ptr blk True of
        (None, ptr) \<Rightarrow> (Inl EXT2_ET_NO_MEMORY, ptr)
      | (Some (i, rc), ptr) \<Rightarrow>
          let c = ea_count (rc_list rc ! i) + 1 in (Inr c, Some (set_el rc i c)))"

definition ea_refcount_decrement :: "ea_refcount option \<Rightarrow> u64 \<Rightarrow> (errcode + u32) \<times> ea_refcount option" where
  "ea_refcount_decrement ptr blk =
     (case get_el_ptr None ptr blk False of
        (None, ptr) \<Rightarrow> (Inl EXT2_ET_INVALID_ARGUMENT, ptr)
      | (Some (i, rc), ptr) \<Rightarrow>
          if ea_count (rc_list rc ! i) = 0 then (Inl EXT2_ET_INVALID_ARGUMENT, ptr)
          else let c = ea_count (rc_list rc ! i) - 1 in (Inr c, Some (set_el rc i c)))"

definition ea_refcount_store ::
  "ea_refcount_el mem_outcome \<Rightarrow> ea_refcount option \<Rightarrow> u64 \<Rightarrow> u32 \<Rightarrow> errcode option \<times> ea_refcount option" where
  "ea_refcount_store mem ptr blk count =
     (case get_el_ptr mem ptr blk (count \<noteq> 0) of
        (None, ptr) \<Rightarrow> (if count \<noteq> 0 then Some EXT2_ET_NO_MEMORY else None, ptr)
      | (Some (i, rc), ptr) \<Rightarrow> (None, Some (set_el rc i count)))"

definition ext2fs_get_refcount_size :: "ea_refcount option \<Rightarrow> nat" where
  "ext2fs_get_refcount_size ptr = (case ptr of None \<Rightarrow> 0 | Some rc \<Rightarrow> rc_size rc)"

definition ea_refcount_intr_begin :: "ea_refcount \<Rightarrow> ea_refcount" where
  "ea_refcount_intr_begin rc = rc\<lparr>rc_cursor := 0\<rparr>"

text \<open>\<open>None\<close> for the block number 0 at the end; otherwise the block and its count.\<close>

function ea_refcount_intr_next :: "ea_refcount \<Rightarrow> (u64 \<times> u32) option \<times> ea_refcount" where
  "ea_refcount_intr_next rc =
     (if rc_cursor rc \<ge> rc_count rc then (None, rc)
      else let el = rc_list rc ! rc_cursor rc; rc' = rc\<lparr>rc_cursor := rc_cursor rc + 1\<rparr>
           in if ea_count el \<noteq> 0 then (Some (ea_blk el, ea_count el), rc')
              else ea_refcount_intr_next rc')"
  by pat_completeness auto
termination
  by (relation "measure (\<lambda>rc. rc_count rc - rc_cursor rc)") auto

declare ea_refcount_intr_next.simps [simp del]

section \<open>Invariant and counts\<close>

definition rc_inv :: "ea_refcount \<Rightarrow> bool" where
  "rc_inv rc \<longleftrightarrow> length (rc_list rc) = rc_size rc \<and> keys_sorted ea_blk (rc_list rc) (rc_count rc)"

definition rc_counts :: "ea_refcount \<Rightarrow> u64 \<Rightarrow> u32" where
  "rc_counts rc = count_of ea_blk ea_count (take (rc_count rc) (rc_list rc))"

lemma rc_inv_count: "rc_inv rc \<Longrightarrow> rc_count rc \<le> rc_size rc"
  by (simp add: rc_inv_def keys_sorted_def)

lemma rc_cursor_irrelevant [simp]:
  "rc_inv (rc\<lparr>rc_cursor := c\<rparr>) = rc_inv rc" "rc_counts (rc\<lparr>rc_cursor := c\<rparr>) = rc_counts rc"
  by (simp_all add: rc_inv_def rc_counts_def)

lemma collapse_loop_filter:
  assumes "j \<le> i" "i \<le> count" "count \<le> length l" "collapse_loop count l i j = (l', j')"
  shows "length l' = length l \<and> j' \<le> count \<and>
    take j' l' = take j l @ filter (\<lambda>e. ea_count e \<noteq> 0) (drop i (take count l))"
  using assms
proof (induction count l i j rule: collapse_loop.induct)
  case (1 count l i j)
  show ?case
  proof (cases "i < count")
    case False
    then show ?thesis using "1.prems" by (subst (asm) collapse_loop.simps) auto
  next
    case True
    then have d: "drop i (take count l) = l ! i # drop (Suc i) (take count l)"
      using "1.prems"(3) by (simp add: Cons_nth_drop_Suc[symmetric])
    show ?thesis
    proof (cases "ea_count (l ! i) = 0")
      case zero: True
      then have "collapse_loop count l (i + 1) j = (l', j')"
        using "1.prems"(4) True by (subst (asm) collapse_loop.simps) simp
      then show ?thesis using "1.IH"(2)[OF True] zero True "1.prems" d by simp
    next
      case False
      define m where "m = (if i \<noteq> j then l[j := l ! i] else l)"
      have "collapse_loop count m (i + 1) (j + 1) = (l', j')"
        using "1.prems"(4) True False by (subst (asm) collapse_loop.simps) (simp add: m_def)
      moreover have "length m = length l" "take (j + 1) m = take j l @ [l ! i]"
        "drop (i + 1) (take count m) = drop (i + 1) (take count l)"
        using "1.prems" True by (auto simp: m_def take_Suc_conv_app_nth drop_update_cancel take_update_swap list_update_beyond)
      ultimately show ?thesis
        using "1.IH"(1)[OF True False] "1.prems" True False d by (simp flip: m_def)
    qed
  qed
qed

lemma refcount_collapse_spec:
  assumes "rc_inv rc"
  shows "rc_inv (refcount_collapse rc) \<and> rc_counts (refcount_collapse rc) = rc_counts rc \<and>
    rc_size (refcount_collapse rc) = rc_size rc \<and>
    take (rc_count (refcount_collapse rc)) (rc_list (refcount_collapse rc))
      = filter (\<lambda>e. ea_count e \<noteq> 0) (take (rc_count rc) (rc_list rc))"
proof -
  obtain l j where c: "collapse_loop (rc_count rc) (rc_list rc) 0 0 = (l, j)" by fastforce
  have n: "rc_count rc \<le> length (rc_list rc)" using assms by (simp add: rc_inv_def keys_sorted_def)
  have f: "length l = length (rc_list rc)" "j \<le> rc_count rc"
    "take j l = filter (\<lambda>e. ea_count e \<noteq> 0) (take (rc_count rc) (rc_list rc))"
    using collapse_loop_filter[OF _ _ n c] by simp_all
  have "ssorted (map ea_blk (take j l))"
    using assms unfolding f(3) by (auto simp: rc_inv_def keys_sorted_def sorted_wrt_map intro: sorted_wrt_filter)
  moreover have "count_of ea_blk ea_count (take j l) = rc_counts rc"
    unfolding f(3) rc_counts_def using assms
    by (intro count_of_filter keys_sorted_distinct) (simp add: rc_inv_def)
  ultimately show ?thesis using assms f n
    by (auto simp: refcount_collapse_def c rc_inv_def keys_sorted_def rc_counts_def)
qed

text \<open>What a returned entry is good for.\<close>

definition el_result :: "ea_refcount \<Rightarrow> u64 \<Rightarrow> bool \<Rightarrow> nat option \<times> ea_refcount \<Rightarrow> bool" where
  "el_result rc blk create res \<longleftrightarrow>
     (case res of (r, rc') \<Rightarrow>
        rc_inv rc' \<and> rc_counts rc' = rc_counts rc \<and>
        (case r of Some i \<Rightarrow> i < rc_count rc' \<and> ea_blk (rc_list rc' ! i) = blk
         | None \<Rightarrow> create \<or> rc_counts rc blk = 0))"

lemma insert_refcount_el_spec:
  assumes "rc_inv rc" "0 \<le> pos" "pos \<le> int (rc_count rc)"
    "\<forall>i<nat pos. ea_blk (rc_list rc ! i) < blk" "\<forall>i<rc_count rc. nat pos \<le> i \<longrightarrow> blk < ea_blk (rc_list rc ! i)"
  shows "el_result rc blk True (insert_refcount_el mem rc blk pos)"
proof -
  let ?el = "\<lparr>ea_blk = blk, ea_count = 0\<rparr>"
  have body: "el_result rc blk True (Some (nat pos), rc1\<lparr>rc_count := rc_count rc1 + 1,
      rc_list := (shift_up (rc_list rc1) (nat pos) (rc_count rc1))[nat pos := ?el]\<rparr>)"
    if rc1: "rc_count rc1 = rc_count rc" "length (rc_list rc1) = rc_size rc1" "rc_count rc < rc_size rc1"
      "take (rc_count rc) (rc_list rc1) = take (rc_count rc) (rc_list rc)" for rc1
  proof -
    have nth: "rc_list rc1 ! i = rc_list rc ! i" if "i < rc_count rc" for i
      using rc1(4) that by (metis nth_take)
    have ks: "keys_sorted ea_blk (rc_list rc1) (rc_count rc)"
      using assms(1) rc1 by (auto simp: rc_inv_def keys_sorted_def)
    have p: "nat pos \<le> rc_count rc" using assms(2,3) by simp
    have lt: "\<forall>i<nat pos. ea_blk (rc_list rc1 ! i) < ea_blk ?el"
      "\<forall>i<rc_count rc. nat pos \<le> i \<longrightarrow> ea_blk ?el < ea_blk (rc_list rc1 ! i)"
      using assms(4,5) nth p by simp_all
    have len: "rc_count rc < length (rc_list rc1)" using rc1(2,3) by simp
    note ins = count_of_insert[OF ks len p _ lt, of ea_count]
    show ?thesis using ins rc1 p len
      by (simp add: el_result_def rc_inv_def rc_counts_def)
  qed
  have sh: "shift_up l p n = l" if "p = n" for l :: "ea_refcount_el list" and p n
    using that by (subst shift_up.simps) simp
  show ?thesis
  proof (cases "rc_count rc \<ge> rc_size rc")
    case False
    then show ?thesis using body[of rc] assms(1-3)
      by (auto simp: insert_refcount_el_def Let_def sh rc_inv_def)
  next
    case True
    show ?thesis
    proof (cases mem)
      case None
      then show ?thesis using True assms(1) by (simp add: insert_refcount_el_def el_result_def)
    next
      case (Some g)
      let ?rc = "rc\<lparr>rc_list := rc_list rc @ fresh_cells g 100, rc_size := rc_size rc + 100\<rparr>"
      have "el_result rc blk True (Some (nat pos), ?rc\<lparr>rc_count := rc_count ?rc + 1,
          rc_list := (shift_up (rc_list ?rc) (nat pos) (rc_count ?rc))[nat pos := ?el]\<rparr>)"
        by (rule body) (use assms(1) rc_inv_count[OF assms(1)] in \<open>auto simp: rc_inv_def\<close>)
      then show ?thesis using True Some assms(2,3)
        by (auto simp: insert_refcount_el_def Let_def sh)
    qed
  qed
qed

lemma el_result_trans: "rc_counts rc1 = rc_counts rc \<Longrightarrow> el_result rc1 blk create res \<Longrightarrow> el_result rc blk create res"
  by (cases res) (auto simp: el_result_def split: option.splits)

text \<open>A collapse that makes no room has dropped nothing.\<close>

lemma refcount_collapse_full:
  assumes "rc_inv rc" "rc_size rc \<le> rc_count (refcount_collapse rc)"
  shows "take (rc_count (refcount_collapse rc)) (rc_list (refcount_collapse rc)) = take (rc_count rc) (rc_list rc)"
    "rc_count (refcount_collapse rc) = rc_count rc"
proof -
  let ?c = "refcount_collapse rc" and ?xs = "take (rc_count rc) (rc_list rc)"
  note c = refcount_collapse_spec[OF assms(1)]
  have "rc_count ?c \<le> length (rc_list ?c)" using c by (simp add: rc_inv_def keys_sorted_def)
  then have l: "length (filter (\<lambda>e. ea_count e \<noteq> 0) ?xs) = rc_count ?c" using c by (metis length_take min.absorb2)
  have "length ?xs = rc_count rc" using assms(1) by (simp add: rc_inv_def keys_sorted_def)
  moreover have "length (filter (\<lambda>e. ea_count e \<noteq> 0) ?xs) \<le> length ?xs" by (rule length_filter_le)
  ultimately have "length (filter (\<lambda>e. ea_count e \<noteq> 0) ?xs) = length ?xs" "rc_count ?c = rc_count rc"
    using l assms(2) rc_inv_count[OF assms(1)] by simp_all
  then show "take (rc_count ?c) (rc_list ?c) = ?xs" "rc_count ?c = rc_count rc"
    using c by (metis filter_True length_filter_less less_irrefl)+
qed

lemma insert_after_full_collapse:
  assumes "rc_inv rc" "rc_size rc \<le> rc_count (refcount_collapse rc)" "0 \<le> low" "low \<le> int (rc_count rc)"
    "\<forall>i<nat low. ea_blk (rc_list rc ! i) < blk" "\<forall>i<rc_count rc. nat low \<le> i \<longrightarrow> blk < ea_blk (rc_list rc ! i)"
  shows "el_result rc blk True (insert_refcount_el mem (refcount_collapse rc) blk low)"
proof -
  let ?c = "refcount_collapse rc"
  note fc = refcount_collapse_full[OF assms(1,2)] and c = refcount_collapse_spec[OF assms(1)]
  have nth: "rc_list ?c ! i = rc_list rc ! i" if "i < rc_count rc" for i
    using fc that by (metis nth_take)
  have "el_result ?c blk True (insert_refcount_el mem ?c blk low)"
    by (rule insert_refcount_el_spec) (use c assms(3-) fc(2) nth in auto)
  then show ?thesis using el_result_trans[of ?c rc] c by simp
qed

lemma append_position:
  assumes "rc_inv rc" "\<forall>e \<in> set (take (rc_count rc) (rc_list rc)). ea_blk e < blk"
  shows "el_result rc blk True (insert_refcount_el mem rc blk (int (rc_count rc)))"
  using assms by (intro insert_refcount_el_spec) (auto simp: rc_inv_def keys_sorted_def)

lemma get_refcount_el_spec:
  "rc_inv rc \<Longrightarrow> el_result rc blk create (get_refcount_el mem rc blk create)"
proof (induction mem rc blk create rule: get_refcount_el.induct)
  case (1 mem rc blk create)
  have ks: "keys_sorted ea_blk (rc_list rc) (rc_count rc)" using "1.prems" by (simp add: rc_inv_def)
  define rc1 where "rc1 = (if rc_cursor rc \<ge> rc_count rc then rc\<lparr>rc_cursor := 0\<rparr> else rc)"
  have rc1: "rc_inv rc1" "rc_counts rc1 = rc_counts rc" "rc_list rc1 = rc_list rc" "rc_count rc1 = rc_count rc"
    "rc_size rc1 = rc_size rc" "rc_count rc \<noteq> 0 \<Longrightarrow> rc_cursor rc1 < rc_count rc"
    using "1.prems" by (auto simp: rc1_def)
  consider (append) "create" "rc_count rc = 0 \<or> blk > ea_blk (rc_list rc ! (rc_count rc - 1))"
    | (empty) "\<not> create" "rc_count rc = 0"
    | (hit) "rc_count rc \<noteq> 0" "\<not> (create \<and> blk > ea_blk (rc_list rc ! (rc_count rc - 1)))"
        "blk = ea_blk (rc_list rc ! rc_cursor rc1)"
    | (search) "rc_count rc \<noteq> 0" "\<not> (create \<and> blk > ea_blk (rc_list rc ! (rc_count rc - 1)))"
        "blk \<noteq> ea_blk (rc_list rc ! rc_cursor rc1)"
    by blast
  then show ?case
  proof cases
    case append
    have lt: "\<forall>e \<in> set (take (rc_count rc) (rc_list rc)). ea_blk e < blk"
      by (rule above_last_key[OF ks append(2)])
    have "el_result rc blk True (insert_refcount_el mem rc' blk (int (rc_count rc')))"
      if "rc' = (if rc_count rc \<ge> rc_size rc then refcount_collapse rc else rc)" for rc'
    proof (rule el_result_trans[OF _ append_position])
      show "rc_counts rc' = rc_counts rc" "rc_inv rc'"
        using that refcount_collapse_spec[OF "1.prems"] "1.prems" by auto
      show "\<forall>e \<in> set (take (rc_count rc') (rc_list rc')). ea_blk e < blk"
        using that refcount_collapse_spec[OF "1.prems"] lt by (auto split: if_splits)
    qed
    then show ?thesis using append by (subst get_refcount_el.simps) (simp add: Let_def)
  next
    case empty
    then show ?thesis using "1.prems"
      by (subst get_refcount_el.simps) (simp add: el_result_def rc_counts_def count_of_def)
  next
    case hit
    then have "get_refcount_el mem rc blk create = (Some (rc_cursor rc1), rc1\<lparr>rc_cursor := rc_cursor rc1 + 1\<rparr>)"
      using rc1(3,4) by (subst get_refcount_el.simps) (auto simp: Let_def simp flip: rc1_def)
    then show ?thesis using rc1 hit by (simp add: el_result_def)
  next
    case search
    let ?s = "search_el ea_blk (rc_list rc) blk 0 (int (rc_count rc) - 1)"
    have eq: "get_refcount_el mem rc blk create =
       (case ?s of
          Inl mid \<Rightarrow> (Some mid, rc1\<lparr>rc_cursor := mid + 1\<rparr>)
        | Inr low \<Rightarrow>
            if create then
              (if rc_count rc1 \<ge> rc_size rc1 then
                 let rc = refcount_collapse rc1
                 in if rc_count rc < rc_size rc then get_refcount_el mem rc blk create
                    else insert_refcount_el mem rc blk low
               else insert_refcount_el mem rc1 blk low)
            else (None, rc1))"
      using search rc1(3,4) by (subst get_refcount_el.simps) (auto simp: Let_def simp flip: rc1_def)
    note sp = search_el_spec[OF ks, of blk]
    show ?thesis
    proof (cases ?s)
      case (Inl mid)
      then show ?thesis using sp rc1 by (simp add: eq el_result_def)
    next
      case (Inr low)
      have low: "0 \<le> low" "low \<le> int (rc_count rc)" "\<forall>i<nat low. ea_blk (rc_list rc ! i) < blk"
        "\<forall>i<rc_count rc. nat low \<le> i \<longrightarrow> blk < ea_blk (rc_list rc ! i)"
        using sp Inr by simp_all
      show ?thesis
      proof (cases create)
        case False
        have "rc_counts rc blk = 0" unfolding rc_counts_def by (rule count_of_between[OF low(3,4)])
        then show ?thesis unfolding eq using False Inr rc1 by (simp add: el_result_def)
      next
        case create: True
        note c1 = refcount_collapse_spec[OF rc1(1)]
        consider (room) "\<not> rc_size rc \<le> rc_count rc"
          | (retry) "rc_size rc \<le> rc_count rc" "rc_count (refcount_collapse rc1) < rc_size (refcount_collapse rc1)"
          | (full) "rc_size rc \<le> rc_count rc" "\<not> rc_count (refcount_collapse rc1) < rc_size (refcount_collapse rc1)"
          by blast
        then show ?thesis
        proof cases
          case room
          then show ?thesis unfolding eq
            using el_result_trans[OF rc1(2) insert_refcount_el_spec[OF rc1(1) low(1)]] low rc1 Inr create by simp
        next
          case retry
          have "el_result (refcount_collapse rc1) blk create (get_refcount_el mem (refcount_collapse rc1) blk create)"
            by (rule "1.IH"[OF _ _ rc1_def _ _ create _ refl retry(2)])
              (use search rc1 Inr create retry c1 in auto)
          then have "el_result rc blk create (get_refcount_el mem (refcount_collapse rc1) blk create)"
            using el_result_trans[of "refcount_collapse rc1" rc] c1 rc1(2) by simp
          then show ?thesis unfolding eq using rc1 Inr create retry by (simp add: Let_def)
        next
          case full
          have "el_result rc1 blk True (insert_refcount_el mem (refcount_collapse rc1) blk low)"
            by (rule insert_after_full_collapse) (use full rc1 c1 low in simp_all)
          then have "el_result rc blk create (insert_refcount_el mem (refcount_collapse rc1) blk low)"
            using el_result_trans[OF rc1(2)] create by simp
          then show ?thesis unfolding eq using rc1 Inr create full by (simp add: Let_def)
        qed
      qed
    qed
  qed
qed

lemma set_el_spec:
  assumes "rc_inv rc" "i < rc_count rc"
  shows "rc_inv (set_el rc i c)" "rc_counts (set_el rc i c) = (rc_counts rc)(ea_blk (rc_list rc ! i) := c)"
proof -
  let ?e = "(rc_list rc ! i)\<lparr>ea_count := c\<rparr>"
  have ks: "keys_sorted ea_blk (rc_list rc) (rc_count rc)" using assms(1) by (simp add: rc_inv_def)
  note u = count_of_update[OF ks assms(2), of ?e]
  show "rc_inv (set_el rc i c)" "rc_counts (set_el rc i c) = (rc_counts rc)(ea_blk (rc_list rc ! i) := c)"
    using u(1) u(2)[of ea_count] assms(1) by (simp_all add: rc_inv_def rc_counts_def set_el_def)
qed

lemma rc_counts_el: "rc_inv rc \<Longrightarrow> i < rc_count rc \<Longrightarrow> rc_counts rc (ea_blk (rc_list rc ! i)) = ea_count (rc_list rc ! i)"
  unfolding rc_counts_def by (rule count_of_nth) (simp add: rc_inv_def)

section \<open>The counter as a map\<close>

definition ptr_inv :: "ea_refcount option \<Rightarrow> bool" where
  "ptr_inv ptr \<longleftrightarrow> (case ptr of None \<Rightarrow> True | Some rc \<Rightarrow> rc_inv rc)"

definition ptr_counts :: "ea_refcount option \<Rightarrow> u64 \<Rightarrow> u32" where
  "ptr_counts ptr = (case ptr of None \<Rightarrow> \<lambda>_. 0 | Some rc \<Rightarrow> rc_counts rc)"

fun ea_exec :: "ea_refcount_el mem_outcome \<Rightarrow> u64 count_cmd \<Rightarrow> ea_refcount option \<Rightarrow> (errcode + u32) \<times> ea_refcount option" where
  "ea_exec mem (Fetch b) ptr = (case ea_refcount_fetch ptr b of (c, ptr') \<Rightarrow> (Inr c, ptr'))"
| "ea_exec mem (Increment b) ptr = ea_refcount_increment mem ptr b"
| "ea_exec mem (Decrement b) ptr = ea_refcount_decrement ptr b"
| "ea_exec mem (Store b c) ptr =
     (case ea_refcount_store mem ptr b c of
        (None, ptr') \<Rightarrow> (Inr 0, ptr') | (Some e, ptr') \<Rightarrow> (Inl e, ptr'))"

lemma get_el_ptr_cases:
  assumes "ptr_inv ptr" "get_el_ptr mem ptr blk create = (r, ptr')"
  obtains (null) "r = None" "ptr_inv ptr'" "ptr_counts ptr' = ptr_counts ptr" "create \<or> ptr_counts ptr blk = 0"
  | (el) i rc where "r = Some (i, rc)" "ptr' = Some rc" "rc_inv rc" "rc_counts rc = ptr_counts ptr"
      "i < rc_count rc" "ea_blk (rc_list rc ! i) = blk" "ea_count (rc_list rc ! i) = ptr_counts ptr blk"
proof (cases ptr)
  case None
  then show thesis using null assms by (simp add: get_el_ptr_def ptr_inv_def ptr_counts_def)
next
  case (Some rc0)
  obtain j rc where g: "get_refcount_el mem rc0 blk create = (j, rc)" by fastforce
  have res: "el_result rc0 blk create (j, rc)"
    using get_refcount_el_spec[of rc0 blk create mem] assms(1) Some g by (simp add: ptr_inv_def)
  show thesis
  proof (cases j)
    case None
    then show thesis using null res assms Some g by (auto simp: get_el_ptr_def el_result_def ptr_inv_def ptr_counts_def)
  next
    case (Some i)
    then have f: "rc_inv rc" "rc_counts rc = rc_counts rc0" "i < rc_count rc" "ea_blk (rc_list rc ! i) = blk"
      using res by (simp_all add: el_result_def)
    then show thesis
      using el[of i rc] rc_counts_el[OF f(1,3)] assms Some \<open>ptr = Some rc0\<close> g
      by (simp add: get_el_ptr_def ptr_counts_def)
  qed
qed

lemma ptr_set_el:
  assumes "rc_inv rc" "i < rc_count rc" "ea_blk (rc_list rc ! i) = blk"
  shows "ptr_inv (Some (set_el rc i c))" "ptr_counts (Some (set_el rc i c)) = (rc_counts rc)(blk := c)"
  using set_el_spec[OF assms(1,2)] assms(3) by (simp_all add: ptr_inv_def ptr_counts_def)

lemma ea_exec_ok:
  assumes "ptr_inv ptr" "ea_exec mem cmd ptr = (r, ptr')"
  shows "ptr_inv ptr' \<and> count_step_ok id cmd r (ptr_counts ptr) (ptr_counts ptr')"
proof (cases cmd)
  case (Fetch b)
  obtain g p where g: "get_el_ptr None ptr b False = (g, p)" by fastforce
  show ?thesis using assms(1) g
  proof (cases rule: get_el_ptr_cases)
    case null
    then show ?thesis using assms(2) g Fetch by (auto simp: ea_refcount_fetch_def count_step_ok_def)
  next
    case (el i rc)
    then show ?thesis using assms(2) g Fetch
      by (auto simp: ea_refcount_fetch_def count_step_ok_def ptr_inv_def ptr_counts_def)
  qed
next
  case (Increment b)
  obtain g p where g: "get_el_ptr mem ptr b True = (g, p)" by fastforce
  show ?thesis using assms(1) g
  proof (cases rule: get_el_ptr_cases)
    case null
    then show ?thesis using assms(2) g Increment by (auto simp: ea_refcount_increment_def count_step_ok_def)
  next
    case (el i rc)
    then show ?thesis using assms(2) g Increment ptr_set_el[OF el(3,5,6)]
      by (auto simp: ea_refcount_increment_def count_step_ok_def Let_def)
  qed
next
  case (Decrement b)
  obtain g p where g: "get_el_ptr None ptr b False = (g, p)" by fastforce
  show ?thesis using assms(1) g
  proof (cases rule: get_el_ptr_cases)
    case null
    then show ?thesis using assms(2) g Decrement by (auto simp: ea_refcount_decrement_def count_step_ok_def)
  next
    case (el i rc)
    then show ?thesis using assms(2) g Decrement ptr_set_el[OF el(3,5,6)]
      by (auto simp: ea_refcount_decrement_def count_step_ok_def Let_def ptr_inv_def[of "Some rc"]
          ptr_counts_def[of "Some rc"] split: if_splits)
  qed
next
  case (Store b c)
  obtain g p where g: "get_el_ptr mem ptr b (c \<noteq> 0) = (g, p)" by fastforce
  show ?thesis using assms(1) g
  proof (cases rule: get_el_ptr_cases)
    case null
    then show ?thesis using assms(2) g Store
      by (auto simp: ea_refcount_store_def count_step_ok_def split: if_splits)
  next
    case (el i rc)
    then show ?thesis using assms(2) g Store ptr_set_el[OF el(3,5,6)]
      by (auto simp: ea_refcount_store_def count_step_ok_def)
  qed
qed

interpretation ea: count_map ea_exec ptr_inv ptr_counts "\<lambda>_ _. True" id
  by unfold_locales (use ea_exec_ok in auto)

lemma ea_create_fresh:
  "ea_refcount_create a b sz = Inr rc \<Longrightarrow> ptr_inv (Some rc) \<and> ptr_counts (Some rc) = (\<lambda>_. 0)"
  by (auto simp: ea_refcount_create_def ptr_inv_def rc_inv_def keys_sorted_def ptr_counts_def rc_counts_def
      count_of_def Let_def split: if_splits)

text \<open>C32: A fresh attribute reference counter behaves as a map from blocks to counts that starts at zero, over every
  sequence of fetches, increments, decrements and stores and every outcome of the memory requests: each result
  is the one the map gives (a decrement of a zero count is refused), a request that runs out of memory
  changes no count, and the counts at the end are those of the map. Growing, forgetting zero entries and the cursor are
  not visible.\<close>

theorem ea_refcount_history:
  assumes "ea_refcount_create a b sz = Inr rc" "run_counts ea_exec cs (Some rc) = (rs, ptr)"
  shows "counts_agree id cs rs (\<lambda>_. 0) (ptr_counts ptr)"
  using ea.run_agree[OF _ _ assms(2)] ea_create_fresh[OF assms(1)] by auto

definition ea_demo :: ea_refcount where
  "ea_demo = \<lparr>rc_count = 0, rc_size = 1, rc_cursor = 0, rc_list = [\<lparr>ea_blk = 0, ea_count = 0\<rparr>]\<rparr>"

definition ea_demo_cmds :: "(ea_refcount_el mem_outcome \<times> u64 count_cmd) list" where
  "ea_demo_cmds = [(None, Increment 7), (None, Increment 3), (Some (\<lambda>_. \<lparr>ea_blk = 9, ea_count = 9\<rparr>), Increment 3),
     (None, Increment 7), (None, Decrement 3), (None, Decrement 3), (None, Fetch 7)]"

theorem ea_refcount_history_witness:
  "counts_agree id ea_demo_cmds
     [Inr 1, Inl EXT2_ET_NO_MEMORY, Inr 1, Inr 2, Inr 0, Inl EXT2_ET_INVALID_ARGUMENT, Inr 2] (\<lambda>_. 0)
     (ptr_counts (snd (run_counts ea_exec ea_demo_cmds (Some ea_demo))))"
proof -
  have "ea_refcount_create True True 1 = Inr ea_demo" by code_simp
  moreover have "fst (run_counts ea_exec ea_demo_cmds (Some ea_demo)) =
      [Inr 1, Inl EXT2_ET_NO_MEMORY, Inr 1, Inr 2, Inr 0, Inl EXT2_ET_INVALID_ARGUMENT, Inr 2]"
    by code_simp
  ultimately show ?thesis
    using ea_refcount_history[of True True 1 ea_demo ea_demo_cmds, OF _ surjective_pairing] by simp
qed

section \<open>Iteration\<close>

text \<open>The loop of a caller that steps the iterator until it returns 0.\<close>

lemma intr_next_cursor:
  "ea_refcount_intr_next rc = (Some x, rc') \<Longrightarrow>
     rc_count rc' = rc_count rc \<and> rc_cursor rc < rc_cursor rc' \<and> rc_cursor rc' \<le> rc_count rc"
proof (induction rc rule: ea_refcount_intr_next.induct)
  case (1 rc)
  show ?case
  proof (cases "rc_cursor rc < rc_count rc \<and> ea_count (rc_list rc ! rc_cursor rc) = 0")
    case True
    then have "ea_refcount_intr_next (rc\<lparr>rc_cursor := rc_cursor rc + 1\<rparr>) = (Some x, rc')"
      using "1.prems" by (subst (asm) ea_refcount_intr_next.simps) (simp add: Let_def)
    then show ?thesis using "1.IH"[OF _ refl refl] True by simp
  next
    case False
    then show ?thesis using "1.prems"
      by (subst (asm) ea_refcount_intr_next.simps) (auto simp: Let_def split: if_splits)
  qed
qed

function rc_drain :: "ea_refcount \<Rightarrow> (u64 \<times> u32) list" where
  "rc_drain rc = (case ea_refcount_intr_next rc of (None, rc') \<Rightarrow> [] | (Some x, rc') \<Rightarrow> x # rc_drain rc')"
  by pat_completeness auto
termination
  by (relation "measure (\<lambda>rc. rc_count rc - rc_cursor rc)") (auto dest!: intr_next_cursor[OF sym])

declare rc_drain.simps [simp del]

lemma rc_drain_filter:
  "rc_inv rc \<Longrightarrow> rc_drain rc =
     map (\<lambda>e. (ea_blk e, ea_count e)) (filter (\<lambda>e. ea_count e \<noteq> 0) (drop (rc_cursor rc) (take (rc_count rc) (rc_list rc))))"
proof (induction "rc_count rc - rc_cursor rc" arbitrary: rc rule: less_induct)
  case less
  let ?rc = "rc\<lparr>rc_cursor := rc_cursor rc + 1\<rparr>"
  show ?case
  proof (cases "rc_cursor rc < rc_count rc")
    case False
    then show ?thesis by (subst rc_drain.simps, subst ea_refcount_intr_next.simps) simp
  next
    case True
    have len: "rc_count rc \<le> length (rc_list rc)" using less.prems by (simp add: rc_inv_def keys_sorted_def)
    have d: "drop (rc_cursor rc) (take (rc_count rc) (rc_list rc)) =
        rc_list rc ! rc_cursor rc # drop (Suc (rc_cursor rc)) (take (rc_count rc) (rc_list rc))"
      using True len by (simp add: Cons_nth_drop_Suc[symmetric])
    have ih: "rc_drain ?rc = map (\<lambda>e. (ea_blk e, ea_count e))
        (filter (\<lambda>e. ea_count e \<noteq> 0) (drop (Suc (rc_cursor rc)) (take (rc_count rc) (rc_list rc))))"
      using less.hyps[of ?rc] True less.prems by simp
    show ?thesis
    proof (cases "ea_count (rc_list rc ! rc_cursor rc) = 0")
      case zero: True
      then have "rc_drain rc = rc_drain ?rc" using True
        by (subst (1 2) rc_drain.simps, subst ea_refcount_intr_next.simps) (simp add: Let_def)
      then show ?thesis using ih d zero by simp
    next
      case False
      then have "rc_drain rc = (ea_blk (rc_list rc ! rc_cursor rc), ea_count (rc_list rc ! rc_cursor rc)) # rc_drain ?rc"
        using True by (subst rc_drain.simps, subst ea_refcount_intr_next.simps) (simp add: Let_def)
      then show ?thesis using ih d False by simp
    qed
  qed
qed

text \<open>The iterator of a well-formed counter, started anew and stepped until it reports the end, yields every
  block with a count other than zero once, with its count, in increasing order; it ends.\<close>

theorem ea_refcount_iterates:
  assumes "rc_inv rc"
  shows "ssorted (map fst (rc_drain (ea_refcount_intr_begin rc))) \<and>
    set (rc_drain (ea_refcount_intr_begin rc)) = {(b, c). c \<noteq> 0 \<and> rc_counts rc b = c}"
proof -
  let ?xs = "take (rc_count rc) (rc_list rc)"
  have ks: "keys_sorted ea_blk (rc_list rc) (rc_count rc)" using assms by (simp add: rc_inv_def)
  have drain: "rc_drain (ea_refcount_intr_begin rc) =
      map (\<lambda>e. (ea_blk e, ea_count e)) (filter (\<lambda>e. ea_count e \<noteq> 0) ?xs)"
    using rc_drain_filter[of "ea_refcount_intr_begin rc"] assms by (simp add: ea_refcount_intr_begin_def)
  have "ssorted (map ea_blk (filter (\<lambda>e. ea_count e \<noteq> 0) ?xs))"
    using ks by (auto simp: keys_sorted_def sorted_wrt_map intro: sorted_wrt_filter)
  moreover have "(b, c) \<in> set (rc_drain (ea_refcount_intr_begin rc)) \<longleftrightarrow> c \<noteq> 0 \<and> rc_counts rc b = c" for b c
  proof -
    have mem: "rc_counts rc (ea_blk e) = ea_count e" if "e \<in> set ?xs" for e
      using count_of_mem[OF keys_sorted_distinct[OF ks] that] by (simp add: rc_counts_def)
    have "\<exists>e\<in>set ?xs. ea_blk e = b" if "rc_counts rc b \<noteq> 0"
      using that count_of_absent[of b ea_blk ?xs ea_count] by (auto simp: rc_counts_def)
    then show ?thesis unfolding drain using mem by force
  qed
  ultimately show ?thesis unfolding drain by (auto simp: comp_def)
qed

theorem ea_refcount_iterates_witness:
  "rc_drain (ea_refcount_intr_begin \<lparr>rc_count = 3, rc_size = 3, rc_cursor = 2,
      rc_list = [\<lparr>ea_blk = 3, ea_count = 1\<rparr>, \<lparr>ea_blk = 5, ea_count = 0\<rparr>, \<lparr>ea_blk = 9, ea_count = 4\<rparr>]\<rparr>) = [(3, 1), (9, 4)] \<and>
   set [(3, 1), (9, 4)] = {(b, c). c \<noteq> 0 \<and> rc_counts \<lparr>rc_count = 3, rc_size = 3, rc_cursor = 2,
      rc_list = [\<lparr>ea_blk = 3, ea_count = 1\<rparr>, \<lparr>ea_blk = 5, ea_count = 0\<rparr>, \<lparr>ea_blk = 9, ea_count = 4\<rparr>]\<rparr> b = c}"
proof -
  let ?rc = "\<lparr>rc_count = 3, rc_size = 3, rc_cursor = 2,
      rc_list = [\<lparr>ea_blk = 3, ea_count = 1\<rparr>, \<lparr>ea_blk = 5, ea_count = 0\<rparr>, \<lparr>ea_blk = 9, ea_count = 4\<rparr>]\<rparr>"
  have inv: "rc_inv ?rc" by code_simp
  have d: "rc_drain (ea_refcount_intr_begin ?rc) = [(3, 1), (9, 4)]" by code_simp
  show ?thesis by (rule conjI, rule d, rule conjunct2[OF ea_refcount_iterates[OF inv, unfolded d]])
qed

end
