(* ===== verification/Icount.thy ===== *)
theory Icount
  imports Bitmaps Count_Map
begin

text \<open>
  \<^verbatim>\<open>lib/ext2fs/icount.c\<close>: the link counts of inodes. Inodes with one link are in the bitmap \<open>single\<close>; the other counts are in a
  sorted list, and the optional bitmap \<open>multiple\<close> says which inodes have an entry there that counts. A NULL
  bitmap is \<open>None\<close>. The variant on a database file (\<^verbatim>\<open>tdb\<close>) is not modelled. The estimate of the new size of a
  full list is a floating point quotient; it is the parameter \<open>est\<close> of the count, the number of inodes and the last
  inode, and any function will do.
\<close>

section \<open>Model\<close>

record icount_el =
  el_ino :: u32
  el_count :: u32

record 'p icount =
  ic_magic :: "errcode option"
  ic_single :: "'p bitmap_ptr"
  ic_multiple :: "'p bitmap_ptr"
  ic_count :: nat
  ic_size :: nat
  ic_num_inodes :: u32
  ic_cursor :: nat
  ic_list :: "icount_el list"
  ic_last_lookup :: "nat option"

type_synonym size_estimate = "nat \<Rightarrow> u32 \<Rightarrow> u32 \<Rightarrow> nat"

definition icount_16_xlate :: "u32 \<Rightarrow> u32" where
  "icount_16_xlate x = (if x > 65500 then 65500 else x)"

text \<open>The memory requests: the structure, the two bitmaps, the list.\<close>

record 'm icount_mem =
  im_struct :: bool
  im_single :: "'m gb_mem"
  im_multiple :: "'m gb_mem"
  im_bitmap32 :: g32_mem
  im_list :: bool

definition alloc_icount ::
  "('p, 'm) bitmap_ops \<Rightarrow> 'm icount_mem \<Rightarrow> ext2_filsys \<Rightarrow> bool \<Rightarrow> errcode + 'p icount" where
  "alloc_icount ops m fs opt_increment =
     (if \<not> im_struct m then Inl EXT2_ET_NO_MEMORY
      else case ext2fs_allocate_inode_bitmap ops (im_single m) (im_bitmap32 m) fs (Some ''icount'') of
             Inl e \<Rightarrow> Inl e
           | Inr single \<Rightarrow>
               let ic = \<lparr>ic_magic = Some EXT2_ET_MAGIC_ICOUNT, ic_single = Some single, ic_multiple = None, ic_count = 0,
                         ic_size = 0, ic_num_inodes = s_inodes_count (fs_super fs), ic_cursor = 0, ic_list = [],
                         ic_last_lookup = None\<rparr>
               in if opt_increment then
                    (case ext2fs_allocate_inode_bitmap ops (im_multiple m) (im_bitmap32 m) fs (Some ''icount_inc'') of
                       Inl e \<Rightarrow> Inl e
                     | Inr multiple \<Rightarrow> Inr (ic\<lparr>ic_multiple := Some multiple\<rparr>))
                  else Inr ic)"

text \<open>\<open>num_dirs\<close> is the result of \<^verbatim>\<open>ext2fs_get_num_dirs\<close>.\<close>

definition ext2fs_create_icount2 ::
  "('p, 'm) bitmap_ops \<Rightarrow> 'm icount_mem \<Rightarrow> ext2_filsys \<Rightarrow> errcode + nat \<Rightarrow> bool \<Rightarrow> nat \<Rightarrow> 'p icount option \<Rightarrow> errcode + 'p icount" where
  "ext2fs_create_icount2 ops m fs num_dirs opt_increment sz hint =
     (if (case hint of Some h \<Rightarrow> ic_magic h \<noteq> Some EXT2_ET_MAGIC_ICOUNT | None \<Rightarrow> False) then Inl EXT2_ET_MAGIC_ICOUNT
      else
        let sz = (case hint of Some h \<Rightarrow> if ic_size h > sz then ic_size h else sz | None \<Rightarrow> sz)
        in case alloc_icount ops m fs opt_increment of
             Inl e \<Rightarrow> Inl e
           | Inr ic \<Rightarrow>
               case (if sz \<noteq> 0 then Inr sz
                     else case num_dirs of
                            Inl e \<Rightarrow> Inl e
                          | Inr n \<Rightarrow> Inr (n + unat (s_inodes_count (fs_super fs) div 50))) of
                 Inl e \<Rightarrow> Inl e
               | Inr sz \<Rightarrow>
                   if \<not> im_list m then Inl EXT2_ET_NO_MEMORY
                   else
                     let l = replicate sz \<lparr>el_ino = 0, el_count = 0\<rparr>
                     in case hint of
                          None \<Rightarrow> Inr (ic\<lparr>ic_size := sz, ic_list := l\<rparr>)
                        | Some h \<Rightarrow>
                            Inr (ic\<lparr>ic_size := sz, ic_count := ic_count h,
                                    ic_list := map (\<lambda>i. if i < ic_count h then \<lparr>el_ino = el_ino (ic_list h ! i), el_count = 0\<rparr>
                                                         else l ! i) [0..<sz]\<rparr>))"

definition ext2fs_create_icount ::
  "('p, 'm) bitmap_ops \<Rightarrow> 'm icount_mem \<Rightarrow> ext2_filsys \<Rightarrow> errcode + nat \<Rightarrow> bool \<Rightarrow> nat \<Rightarrow> errcode + 'p icount" where
  "ext2fs_create_icount ops m fs num_dirs opt_increment sz = ext2fs_create_icount2 ops m fs num_dirs opt_increment sz None"

text \<open>The insertion after the check of the last lookup, then the whole function.\<close>

definition insert_fresh ::
  "size_estimate \<Rightarrow> icount_el mem_outcome \<Rightarrow> 'p icount \<Rightarrow> u32 \<Rightarrow> int \<Rightarrow> nat option \<times> 'p icount" where
  "insert_fresh est mem ic ino pos =
     (let new_size = (if ic_count ic \<noteq> 0
                      then est (ic_count ic) (ic_num_inodes ic) (el_ino (ic_list ic ! (ic_count ic - 1))) else 0);
          new_size = (if new_size < ic_size ic + 100 then ic_size ic + 100 else new_size);
          grown = (if ic_count ic \<ge> ic_size ic then
                     (case mem of
                        None \<Rightarrow> None
                      | Some g \<Rightarrow> Some (ic\<lparr>ic_list := ic_list ic @ fresh_cells g (new_size - ic_size ic),
                                            ic_size := new_size\<rparr>))
                   else Some ic)
      in case grown of
           None \<Rightarrow> (None, ic)
         | Some ic \<Rightarrow>
             let num = int (ic_count ic) - pos
             in if num < 0 then (None, ic)
                else let l = (if num \<noteq> 0 then shift_up (ic_list ic) (nat pos) (ic_count ic) else ic_list ic)
                     in (Some (nat pos),
                         ic\<lparr>ic_count := ic_count ic + 1,
                            ic_list := l[nat pos := \<lparr>el_ino = ino, el_count = 0\<rparr>],
                            ic_last_lookup := Some (nat pos)\<rparr>))"

definition insert_icount_el ::
  "size_estimate \<Rightarrow> icount_el mem_outcome \<Rightarrow> 'p icount \<Rightarrow> u32 \<Rightarrow> int \<Rightarrow> nat option \<times> 'p icount" where
  "insert_icount_el est mem ic ino pos =
     (case ic_last_lookup ic of
        Some i \<Rightarrow> if el_ino (ic_list ic ! i) = ino then (Some i, ic) else insert_fresh est mem ic ino pos
      | None \<Rightarrow> insert_fresh est mem ic ino pos)"

definition get_icount_el ::
  "size_estimate \<Rightarrow> icount_el mem_outcome \<Rightarrow> 'p icount \<Rightarrow> u32 \<Rightarrow> bool \<Rightarrow> nat option \<times> 'p icount" where
  "get_icount_el est mem ic ino create =
     (if create \<and> (ic_count ic = 0 \<or> ino > el_ino (ic_list ic ! (ic_count ic - 1)))
      then insert_icount_el est mem ic ino (int (ic_count ic))
      else if ic_count ic = 0 then (None, ic)
      else
        let ic = (if ic_cursor ic \<ge> ic_count ic then ic\<lparr>ic_cursor := 0\<rparr> else ic)
        in if ino = el_ino (ic_list ic ! ic_cursor ic)
           then (Some (ic_cursor ic), ic\<lparr>ic_cursor := ic_cursor ic + 1\<rparr>)
           else case search_el el_ino (ic_list ic) ino 0 (int (ic_count ic) - 1) of
                  Inl mid \<Rightarrow> (Some mid, ic\<lparr>ic_cursor := mid + 1\<rparr>)
                | Inr low \<Rightarrow> if create then insert_icount_el est mem ic ino low else (None, ic))"

definition set_inode_count ::
  "size_estimate \<Rightarrow> icount_el mem_outcome \<Rightarrow> 'p icount \<Rightarrow> u32 \<Rightarrow> u32 \<Rightarrow> errcode option \<times> 'p icount" where
  "set_inode_count est mem ic ino count =
     (case get_icount_el est mem ic ino True of
        (None, ic) \<Rightarrow> (Some EXT2_ET_NO_MEMORY, ic)
      | (Some i, ic) \<Rightarrow> (None, ic\<lparr>ic_list := (ic_list ic)[i := (ic_list ic ! i)\<lparr>el_count := count\<rparr>]\<rparr>))"

text \<open>The return value, the count and the structure, in which the cursor may have moved.\<close>

definition get_inode_count :: "'p icount \<Rightarrow> u32 \<Rightarrow> errcode option \<times> u32 \<times> 'p icount" where
  "get_inode_count ic ino =
     (case get_icount_el (\<lambda>_ _ _. 0) None ic ino False of
        (None, ic) \<Rightarrow> (Some ENOENT, 0, ic)
      | (Some i, ic) \<Rightarrow> (None, el_count (ic_list ic ! i), ic))"

definition ext2fs_icount_validate :: "'p icount \<Rightarrow> errcode option" where
  "ext2fs_icount_validate ic =
     (if ic_magic ic \<noteq> Some EXT2_ET_MAGIC_ICOUNT then Some EXT2_ET_MAGIC_ICOUNT
      else if ic_count ic > ic_size ic then Some EXT2_ET_INVALID_ARGUMENT
      else if \<exists>i\<in>{1..<ic_count ic}. el_ino (ic_list ic ! (i - 1)) \<ge> el_ino (ic_list ic ! i)
           then Some EXT2_ET_INVALID_ARGUMENT else None)"

text \<open>Tests and updates of the two bitmaps; a bitmap that is tested is returned as the test leaves it.\<close>

definition test_single :: "('p, 'm) bitmap_ops \<Rightarrow> 'p icount \<Rightarrow> u32 \<Rightarrow> bool \<times> 'p icount" where
  "test_single ops ic ino =
     (case ext2fs_test_generic_bmap ops (ic_single ic) (ucast ino) of (r, b) \<Rightarrow> (r \<noteq> 0, ic\<lparr>ic_single := b\<rparr>))"

text \<open>\<^verbatim>\<open>icount->multiple && !ext2fs_test_inode_bitmap2(icount->multiple, ino)\<close>.\<close>

definition not_multiple :: "('p, 'm) bitmap_ops \<Rightarrow> 'p icount \<Rightarrow> u32 \<Rightarrow> bool \<times> 'p icount" where
  "not_multiple ops ic ino =
     (if ic_multiple ic = None then (False, ic)
      else case ext2fs_test_generic_bmap ops (ic_multiple ic) (ucast ino) of (r, b) \<Rightarrow> (r = 0, ic\<lparr>ic_multiple := b\<rparr>))"

definition mark_single :: "('p, 'm) bitmap_ops \<Rightarrow> 'p icount \<Rightarrow> u32 \<Rightarrow> 'p icount" where
  "mark_single ops ic ino = ic\<lparr>ic_single := snd (ext2fs_mark_generic_bmap ops (ic_single ic) (ucast ino))\<rparr>"

definition unmark_single :: "('p, 'm) bitmap_ops \<Rightarrow> 'p icount \<Rightarrow> u32 \<Rightarrow> 'p icount" where
  "unmark_single ops ic ino = ic\<lparr>ic_single := snd (ext2fs_unmark_generic_bmap ops (ic_single ic) (ucast ino))\<rparr>"

text \<open>\<^verbatim>\<open>if (icount->multiple) ext2fs_mark_inode_bitmap2(icount->multiple, ino)\<close>, and the same for unmarking.\<close>

definition mark_multiple :: "('p, 'm) bitmap_ops \<Rightarrow> 'p icount \<Rightarrow> u32 \<Rightarrow> 'p icount" where
  "mark_multiple ops ic ino =
     (if ic_multiple ic = None then ic
      else ic\<lparr>ic_multiple := snd (ext2fs_mark_generic_bmap ops (ic_multiple ic) (ucast ino))\<rparr>)"

definition unmark_multiple :: "('p, 'm) bitmap_ops \<Rightarrow> 'p icount \<Rightarrow> u32 \<Rightarrow> 'p icount" where
  "unmark_multiple ops ic ino =
     (if ic_multiple ic = None then ic
      else ic\<lparr>ic_multiple := snd (ext2fs_unmark_generic_bmap ops (ic_multiple ic) (ucast ino))\<rparr>)"

definition bad_ino :: "'p icount \<Rightarrow> u32 \<Rightarrow> bool" where
  "bad_ino ic ino \<longleftrightarrow> ino = 0 \<or> ino > ic_num_inodes ic"

definition ext2fs_icount_fetch ::
  "('p, 'm) bitmap_ops \<Rightarrow> 'p icount \<Rightarrow> u32 \<Rightarrow> (errcode + u32) \<times> 'p icount" where
  "ext2fs_icount_fetch ops ic ino =
     (if ic_magic ic \<noteq> Some EXT2_ET_MAGIC_ICOUNT then (Inl EXT2_ET_MAGIC_ICOUNT, ic)
      else if bad_ino ic ino then (Inl EXT2_ET_INVALID_ARGUMENT, ic)
      else
        let (s, ic) = test_single ops ic ino
        in if s then (Inr 1, ic)
           else
             let (skip, ic) = not_multiple ops ic ino
             in if skip then (Inr 0, ic)
                else let (_, val, ic) = get_inode_count ic ino in (Inr (icount_16_xlate val), ic))"

definition ext2fs_icount_increment ::
  "('p, 'm) bitmap_ops \<Rightarrow> size_estimate \<Rightarrow> icount_el mem_outcome \<Rightarrow> 'p icount \<Rightarrow> u32 \<Rightarrow> (errcode + u32) \<times> 'p icount" where
  "ext2fs_icount_increment ops est mem ic ino =
     (if ic_magic ic \<noteq> Some EXT2_ET_MAGIC_ICOUNT then (Inl EXT2_ET_MAGIC_ICOUNT, ic)
      else if bad_ino ic ino then (Inl EXT2_ET_INVALID_ARGUMENT, ic)
      else
        let (s, ic) = test_single ops ic ino
        in if s then
             (case set_inode_count est mem ic ino 2 of
                (Some _, ic) \<Rightarrow> (Inl EXT2_ET_NO_MEMORY, ic)
              | (None, ic) \<Rightarrow> (Inr (icount_16_xlate 2), mark_multiple ops (unmark_single ops ic ino) ino))
           else
             let (zero, ic) = not_multiple ops ic ino
             in if zero then (Inr 1, mark_single ops ic ino)
                else let (_, curr_value, ic) = get_inode_count ic ino; curr_value = curr_value + 1
                     in case set_inode_count est mem ic ino curr_value of
                          (Some _, ic) \<Rightarrow> (Inl EXT2_ET_NO_MEMORY, ic)
                        | (None, ic) \<Rightarrow> (Inr (icount_16_xlate curr_value), mark_multiple ops ic ino))"

definition ext2fs_icount_decrement ::
  "('p, 'm) bitmap_ops \<Rightarrow> size_estimate \<Rightarrow> icount_el mem_outcome \<Rightarrow> 'p icount \<Rightarrow> u32 \<Rightarrow> (errcode + u32) \<times> 'p icount" where
  "ext2fs_icount_decrement ops est mem ic ino =
     (if bad_ino ic ino then (Inl EXT2_ET_INVALID_ARGUMENT, ic)
      else if ic_magic ic \<noteq> Some EXT2_ET_MAGIC_ICOUNT then (Inl EXT2_ET_MAGIC_ICOUNT, ic)
      else
        let (s, ic) = test_single ops ic ino
        in if s then
             (let ic = unmark_single ops ic ino
              in (Inr 0, if ic_multiple ic \<noteq> None then unmark_multiple ops ic ino
                         else snd (set_inode_count est mem ic ino 0)))
           else
             let (absent, ic) = not_multiple ops ic ino
             in if absent then (Inl EXT2_ET_INVALID_ARGUMENT, ic)
                else
                  let (_, curr_value, ic) = get_inode_count ic ino
                  in if curr_value = 0 then (Inl EXT2_ET_INVALID_ARGUMENT, ic)
                     else let curr_value = curr_value - 1
                          in case set_inode_count est mem ic ino curr_value of
                               (Some _, ic) \<Rightarrow> (Inl EXT2_ET_NO_MEMORY, ic)
                             | (None, ic) \<Rightarrow>
                                 let ic = (if curr_value = 1 then mark_single ops ic ino else ic);
                                     ic = (if curr_value = 0 then unmark_multiple ops ic ino else ic)
                                 in (Inr (icount_16_xlate curr_value), ic))"

definition ext2fs_icount_store ::
  "('p, 'm) bitmap_ops \<Rightarrow> size_estimate \<Rightarrow> icount_el mem_outcome \<Rightarrow> 'p icount \<Rightarrow> u32 \<Rightarrow> u16 \<Rightarrow> errcode option \<times> 'p icount" where
  "ext2fs_icount_store ops est mem ic ino count =
     (if bad_ino ic ino then (Some EXT2_ET_INVALID_ARGUMENT, ic)
      else if ic_magic ic \<noteq> Some EXT2_ET_MAGIC_ICOUNT then (Some EXT2_ET_MAGIC_ICOUNT, ic)
      else if count = 1 then (None, unmark_multiple ops (mark_single ops ic ino) ino)
      else if count = 0 then
        (let ic = unmark_single ops ic ino
         in (None, if ic_multiple ic \<noteq> None then unmark_multiple ops ic ino
                   else snd (set_inode_count est mem ic ino 0)))
      else case set_inode_count est mem ic ino (ucast count) of
             (Some _, ic) \<Rightarrow> (Some EXT2_ET_NO_MEMORY, ic)
           | (None, ic) \<Rightarrow> (None, mark_multiple ops (unmark_single ops ic ino) ino))"

definition ext2fs_get_icount_size :: "'p icount option \<Rightarrow> nat" where
  "ext2fs_get_icount_size ptr =
     (case ptr of
        None \<Rightarrow> 0
      | Some ic \<Rightarrow> if ic_magic ic \<noteq> Some EXT2_ET_MAGIC_ICOUNT then 0 else ic_size ic)"

section \<open>The sorted list\<close>

definition ic_wf :: "'p icount \<Rightarrow> bool" where
  "ic_wf ic \<longleftrightarrow> length (ic_list ic) = ic_size ic \<and> keys_sorted el_ino (ic_list ic) (ic_count ic) \<and>
     (case ic_last_lookup ic of None \<Rightarrow> True | Some i \<Rightarrow> i < ic_count ic)"

definition list_counts :: "'p icount \<Rightarrow> u32 \<Rightarrow> u32" where
  "list_counts ic = count_of el_ino el_count (take (ic_count ic) (ic_list ic))"

definition same_frame :: "'p icount \<Rightarrow> 'p icount \<Rightarrow> bool" where
  "same_frame ic' ic \<longleftrightarrow> ic_magic ic' = ic_magic ic \<and> ic_single ic' = ic_single ic \<and> ic_multiple ic' = ic_multiple ic \<and>
     ic_num_inodes ic' = ic_num_inodes ic"

lemma ic_cursor_irrelevant [simp]:
  "ic_wf (ic\<lparr>ic_cursor := c\<rparr>) = ic_wf ic" "list_counts (ic\<lparr>ic_cursor := c\<rparr>) = list_counts ic"
  "same_frame (ic\<lparr>ic_cursor := c\<rparr>) ic0 = same_frame ic ic0"
  by (simp_all add: ic_wf_def list_counts_def same_frame_def split: option.split)

definition ic_result :: "'p icount \<Rightarrow> u32 \<Rightarrow> nat option \<times> 'p icount \<Rightarrow> bool" where
  "ic_result ic ino res \<longleftrightarrow>
     (case res of (r, ic') \<Rightarrow>
        ic_wf ic' \<and> list_counts ic' = list_counts ic \<and> same_frame ic' ic \<and>
        (case r of Some i \<Rightarrow> i < ic_count ic' \<and> el_ino (ic_list ic' ! i) = ino
         | None \<Rightarrow> list_counts ic ino = 0))"

lemma insert_fresh_spec:
  assumes "ic_wf ic" "0 \<le> pos" "pos \<le> int (ic_count ic)"
    "\<forall>i<nat pos. el_ino (ic_list ic ! i) < ino" "\<forall>i<ic_count ic. nat pos \<le> i \<longrightarrow> ino < el_ino (ic_list ic ! i)"
  shows "ic_result ic ino (insert_fresh est mem ic ino pos)"
proof -
  let ?el = "\<lparr>el_ino = ino, el_count = 0\<rparr>"
  have body: "ic_result ic ino (Some (nat pos), ic1\<lparr>ic_count := ic_count ic1 + 1,
      ic_list := (shift_up (ic_list ic1) (nat pos) (ic_count ic1))[nat pos := ?el], ic_last_lookup := Some (nat pos)\<rparr>)"
    if ic1: "ic_count ic1 = ic_count ic" "length (ic_list ic1) = ic_size ic1" "ic_count ic < ic_size ic1"
      "take (ic_count ic) (ic_list ic1) = take (ic_count ic) (ic_list ic)" "same_frame ic1 ic" for ic1
  proof -
    have nth: "ic_list ic1 ! i = ic_list ic ! i" if "i < ic_count ic" for i
      using ic1(4) that by (metis nth_take)
    have ks: "keys_sorted el_ino (ic_list ic1) (ic_count ic)"
      using assms(1) ic1 by (auto simp: ic_wf_def keys_sorted_def)
    have p: "nat pos \<le> ic_count ic" using assms(2,3) by simp
    have lt: "\<forall>i<nat pos. el_ino (ic_list ic1 ! i) < el_ino ?el"
      "\<forall>i<ic_count ic. nat pos \<le> i \<longrightarrow> el_ino ?el < el_ino (ic_list ic1 ! i)"
      using assms(4,5) nth p by simp_all
    have len: "ic_count ic < length (ic_list ic1)" using ic1(2,3) by simp
    note ins = count_of_insert[OF ks len p _ lt, of el_count]
    show ?thesis using ins ic1 p len
      by (simp add: ic_result_def ic_wf_def list_counts_def same_frame_def)
  qed
  have sh: "shift_up l p n = l" if "p = n" for l :: "icount_el list" and p n
    using that by (subst shift_up.simps) simp
  have le: "ic_count ic \<le> ic_size ic" "length (ic_list ic) = ic_size ic"
    using assms(1) by (simp_all add: ic_wf_def keys_sorted_def)
  show ?thesis
  proof (cases "ic_count ic \<ge> ic_size ic")
    case False
    then show ?thesis using body[of ic] assms(1-3) le
      by (auto simp: insert_fresh_def Let_def sh same_frame_def)
  next
    case True
    show ?thesis
    proof (cases mem)
      case None
      then show ?thesis using True assms(1) count_of_between[OF assms(4,5), of el_count]
        by (simp add: insert_fresh_def ic_result_def same_frame_def list_counts_def)
    next
      case (Some g)
      define n where "n = (let n = (if ic_count ic \<noteq> 0
          then est (ic_count ic) (ic_num_inodes ic) (el_ino (ic_list ic ! (ic_count ic - 1))) else 0)
        in if n < ic_size ic + 100 then ic_size ic + 100 else n)"
      have n: "ic_size ic < n" by (simp add: n_def Let_def)
      let ?ic = "ic\<lparr>ic_list := ic_list ic @ fresh_cells g (n - ic_size ic), ic_size := n\<rparr>"
      have "ic_result ic ino (Some (nat pos), ?ic\<lparr>ic_count := ic_count ?ic + 1,
          ic_list := (shift_up (ic_list ?ic) (nat pos) (ic_count ?ic))[nat pos := ?el], ic_last_lookup := Some (nat pos)\<rparr>)"
        by (rule body) (use n le in \<open>auto simp: same_frame_def\<close>)
      moreover have "insert_fresh est mem ic ino pos = (Some (nat pos), ?ic\<lparr>ic_count := ic_count ?ic + 1,
          ic_list := (shift_up (ic_list ?ic) (nat pos) (ic_count ?ic))[nat pos := ?el], ic_last_lookup := Some (nat pos)\<rparr>)"
        using True Some assms(2,3) unfolding insert_fresh_def Let_def n_def[unfolded Let_def, symmetric] by (auto simp: sh)
      ultimately show ?thesis by simp
    qed
  qed
qed

lemma insert_icount_el_spec:
  assumes "ic_wf ic" "0 \<le> pos" "pos \<le> int (ic_count ic)"
    "\<forall>i<nat pos. el_ino (ic_list ic ! i) < ino" "\<forall>i<ic_count ic. nat pos \<le> i \<longrightarrow> ino < el_ino (ic_list ic ! i)"
  shows "ic_result ic ino (insert_icount_el est mem ic ino pos)"
proof -
  have "el_ino (ic_list ic ! i) \<noteq> ino" if "ic_last_lookup ic = Some i" for i
  proof -
    have "i < ic_count ic" using assms(1) that by (simp add: ic_wf_def)
    then show ?thesis using assms(4,5) by (metis less_irrefl not_less)
  qed
  then show ?thesis using insert_fresh_spec[OF assms]
    by (auto simp: insert_icount_el_def split: option.splits)
qed

lemma get_icount_el_spec:
  assumes "ic_wf ic"
  shows "ic_result ic ino (get_icount_el est mem ic ino create)"
proof -
  have ks: "keys_sorted el_ino (ic_list ic) (ic_count ic)" using assms by (simp add: ic_wf_def)
  define ic1 where "ic1 = (if ic_cursor ic \<ge> ic_count ic then ic\<lparr>ic_cursor := 0\<rparr> else ic)"
  have ic1: "ic_wf ic1" "list_counts ic1 = list_counts ic" "same_frame ic1 ic" "ic_list ic1 = ic_list ic"
    "ic_count ic1 = ic_count ic" "ic_count ic \<noteq> 0 \<Longrightarrow> ic_cursor ic1 < ic_count ic"
    using assms by (auto simp: ic1_def same_frame_def)
  have tr: "ic_result ic ino res" if "ic_result ic1 ino res" for res
    using that ic1(2,3) by (cases res) (auto simp: ic_result_def same_frame_def split: option.splits)
  show ?thesis
  proof (cases "create \<and> (ic_count ic = 0 \<or> ino > el_ino (ic_list ic ! (ic_count ic - 1)))")
    case True
    then have "\<forall>e \<in> set (take (ic_count ic) (ic_list ic)). el_ino e < ino"
      using above_last_key[OF ks] by blast
    then have "ic_result ic ino (insert_icount_el est mem ic ino (int (ic_count ic)))"
      using assms ks by (intro insert_icount_el_spec) (auto simp: keys_sorted_def)
    then show ?thesis using True by (simp add: get_icount_el_def)
  next
    case nc: False
    show ?thesis
    proof (cases "ic_count ic = 0 \<or> ino = el_ino (ic_list ic ! ic_cursor ic1)")
      case True
      then show ?thesis using nc assms ic1
        by (auto simp: get_icount_el_def ic_result_def same_frame_def list_counts_def count_of_def Let_def
            simp flip: ic1_def)
    next
      case False
      let ?s = "search_el el_ino (ic_list ic) ino 0 (int (ic_count ic) - 1)"
      have eq: "get_icount_el est mem ic ino create =
          (case ?s of Inl mid \<Rightarrow> (Some mid, ic1\<lparr>ic_cursor := mid + 1\<rparr>)
           | Inr low \<Rightarrow> if create then insert_icount_el est mem ic1 ino low else (None, ic1))"
        unfolding get_icount_el_def Let_def ic1_def[symmetric] using False nc ic1(4,5) by auto
      note sp = search_el_spec[OF ks, of ino]
      show ?thesis
      proof (cases ?s)
        case (Inl mid)
        then show ?thesis unfolding eq using sp ic1 by (simp add: ic_result_def)
      next
        case (Inr low)
        then have low: "0 \<le> low" "low \<le> int (ic_count ic)" "\<forall>i<nat low. el_ino (ic_list ic ! i) < ino"
          "\<forall>i<ic_count ic. nat low \<le> i \<longrightarrow> ino < el_ino (ic_list ic ! i)"
          using sp by simp_all
        have "list_counts ic ino = 0" unfolding list_counts_def by (rule count_of_between[OF low(3,4)])
        then show ?thesis unfolding eq
          using tr insert_icount_el_spec[OF ic1(1) low(1), of ino est mem] low ic1 Inr
          by (cases create) (simp_all add: ic_result_def)
      qed
    qed
  qed
qed

section \<open>The view of a counter\<close>

text \<open>
  What the state amounts to: the inodes in \<open>single\<close>, those in \<open>multiple\<close> if it exists, and the counts of the list;
  and the count of an inode in such a view.
\<close>

type_synonym icount_view = "u32 set \<times> u32 set option \<times> (u32 \<Rightarrow> u32)"

definition bm_inodes :: "('p gbitmap \<Rightarrow> u64 set) \<Rightarrow> 'p bitmap_ptr \<Rightarrow> u32 set" where
  "bm_inodes bits p =
     (case p of Some (Bitmap64 b) \<Rightarrow> {i. ucast i \<in> bits b \<inter> {gb_start b..gb_end b}} | _ \<Rightarrow> {})"

definition bm_ok :: "('p gbitmap \<Rightarrow> bool) \<Rightarrow> u32 \<Rightarrow> 'p bitmap_ptr \<Rightarrow> bool" where
  "bm_ok bw num p \<longleftrightarrow>
     (case p of
        Some (Bitmap64 b) \<Rightarrow> bw b \<and> EXT2FS_IS_64_BITMAP (gb_magic b) \<and> gb_cluster_bits b = 0 \<and>
                             gb_start b = 1 \<and> gb_end b = ucast num
      | _ \<Rightarrow> False)"

definition ic_ok :: "('p gbitmap \<Rightarrow> bool) \<Rightarrow> 'p icount \<Rightarrow> bool" where
  "ic_ok bw ic \<longleftrightarrow> ic_magic ic = Some EXT2_ET_MAGIC_ICOUNT \<and> ic_wf ic \<and> bm_ok bw (ic_num_inodes ic) (ic_single ic) \<and>
     (ic_multiple ic = None \<or> bm_ok bw (ic_num_inodes ic) (ic_multiple ic))"

definition ic_view :: "('p gbitmap \<Rightarrow> u64 set) \<Rightarrow> 'p icount \<Rightarrow> icount_view" where
  "ic_view bits ic =
     (bm_inodes bits (ic_single ic),
      if ic_multiple ic = None then None else Some (bm_inodes bits (ic_multiple ic)), list_counts ic)"

fun view_count :: "icount_view \<Rightarrow> u32 \<Rightarrow> u32" where
  "view_count (S, M, L) i =
     (if i \<in> S then 1 else case M of None \<Rightarrow> L i | Some T \<Rightarrow> if i \<in> T then L i else 0)"

lemma ucast_inj32: "(ucast (a :: u32) :: u64) = ucast b \<longleftrightarrow> a = b"
  by (metis unat_ucast_32_64 word_unat_eq_iff)

lemma get_inode_count_spec:
  assumes "ic_ok bw ic" "get_inode_count ic ino = (e, c, ic')"
  shows "ic_ok bw ic' \<and> ic_view bits ic' = ic_view bits ic \<and> ic_num_inodes ic' = ic_num_inodes ic \<and> c = list_counts ic ino"
proof -
  obtain r ic1 where g: "get_icount_el (\<lambda>_ _ _. 0) None ic ino False = (r, ic1)" by fastforce
  have res: "ic_result ic ino (r, ic1)"
    using get_icount_el_spec[of ic ino "\<lambda>_ _ _. 0" None False] assms(1) g by (simp add: ic_ok_def)
  then have "c = list_counts ic ino" "ic' = ic1"
    using assms(2) g count_of_nth[of el_ino "ic_list ic1" "ic_count ic1" _ el_count]
    by (auto simp: get_inode_count_def ic_result_def list_counts_def ic_wf_def split: option.splits)
  then show ?thesis using res assms(1) by (simp add: ic_result_def ic_ok_def ic_view_def same_frame_def)
qed

lemma set_inode_count_spec:
  assumes "ic_ok bw ic" "set_inode_count est mem ic ino c = (e, ic')"
  shows "ic_ok bw ic' \<and> ic_num_inodes ic' = ic_num_inodes ic \<and>
    ic_view bits ic' = (case ic_view bits ic of (S, M, L) \<Rightarrow> (S, M, if e = None then L(ino := c) else L)) \<and>
    (e \<noteq> None \<longrightarrow> list_counts ic ino = 0)"
proof -
  obtain r ic1 where g: "get_icount_el est mem ic ino True = (r, ic1)" by fastforce
  have res: "ic_result ic ino (r, ic1)"
    using get_icount_el_spec[of ic ino est mem True] assms(1) g by (simp add: ic_ok_def)
  show ?thesis
  proof (cases r)
    case None
    then show ?thesis using res assms g
      by (auto simp: set_inode_count_def ic_result_def ic_ok_def ic_view_def same_frame_def)
  next
    case (Some i)
    let ?e = "(ic_list ic1 ! i)\<lparr>el_count := c\<rparr>"
    have i: "ic_wf ic1" "list_counts ic1 = list_counts ic" "same_frame ic1 ic" "i < ic_count ic1"
      "el_ino (ic_list ic1 ! i) = ino"
      using res Some by (simp_all add: ic_result_def)
    have ks: "keys_sorted el_ino (ic_list ic1) (ic_count ic1)" using i(1) by (simp add: ic_wf_def)
    note u = count_of_update[OF ks i(4), of ?e]
    have ic': "e = None" "ic' = ic1\<lparr>ic_list := (ic_list ic1)[i := ?e]\<rparr>"
      using assms(2) g Some by (auto simp: set_inode_count_def)
    have "list_counts ic' = (list_counts ic)(ino := c)" "ic_wf ic'"
      using u(1) u(2)[of el_count] i ic'(2) by (simp_all add: list_counts_def ic_wf_def split: option.splits)
    then show ?thesis using i(3) ic' assms(1)
      by (auto simp: ic_ok_def ic_view_def same_frame_def)
  qed
qed

text \<open>The geometry the inode bitmaps rely on: as many inodes as the groups hold, in 32 bits.\<close>

definition inode_geometry_ok :: "ext2_filsys \<Rightarrow> bool" where
  "inode_geometry_ok fs \<longleftrightarrow> fs_magic fs = Some EXT2_ET_MAGIC_EXT2FS_FILSYS \<and> fs_flag_64bits fs \<and>
     1 \<le> s_inodes_count (fs_super fs) \<and>
     s_inodes_count (fs_super fs) \<le> s_inodes_per_group (fs_super fs) * fs_group_desc_count fs \<and> fs_cluster_ratio_bits fs < 64"

lemma count_of_zeros: "\<forall>e \<in> set xs. cnt e = 0 \<Longrightarrow> count_of key cnt xs = (\<lambda>_. 0)"
  by (auto simp: count_of_def find_Some_iff fun_eq_iff split: option.splits)

text \<open>The list of a new counter has the inodes of the hint, without a count.\<close>

lemma create_list:
  assumes "ext2fs_create_icount2 ops m fs nd opt sz hint = Inr ic" "alloc_icount ops m fs opt = Inr ic0"
    and "case hint of None \<Rightarrow> True | Some h \<Rightarrow> ic_wf h"
  shows "ic_magic ic = ic_magic ic0 \<and> ic_single ic = ic_single ic0 \<and> ic_multiple ic = ic_multiple ic0 \<and>
    ic_num_inodes ic = ic_num_inodes ic0 \<and> ic_last_lookup ic = ic_last_lookup ic0 \<and> length (ic_list ic) = ic_size ic \<and>
    keys_sorted el_ino (ic_list ic) (ic_count ic) \<and> (\<forall>e \<in> set (take (ic_count ic) (ic_list ic)). el_count e = 0)"
proof (cases hint)
  case None
  have "ic_count ic0 = 0" using assms(2) by (auto simp: alloc_icount_def Let_def split: if_splits sum.splits)
  then show ?thesis using assms(1,2) None
    by (auto simp: ext2fs_create_icount2_def Let_def keys_sorted_def split: if_splits sum.splits)
next
  case (Some h)
  let ?l = "\<lambda>sz. map (\<lambda>i. if i < ic_count h then \<lparr>el_ino = el_ino (ic_list h ! i), el_count = 0\<rparr>
      else replicate sz \<lparr>el_ino = 0, el_count = 0\<rparr> ! i) [0..<sz]"
  have h: "keys_sorted el_ino (ic_list h) (ic_count h)" "length (ic_list h) = ic_size h"
    using assms(3) Some by (simp_all add: ic_wf_def)
  have c: "ic_count h \<le> ic_size h" using h by (simp add: keys_sorted_def)
  obtain sz1 where ic: "ic = ic0\<lparr>ic_size := sz1, ic_count := ic_count h, ic_list := ?l sz1\<rparr>" "ic_count h \<le> sz1"
    using assms(1,2) Some c by (auto simp: ext2fs_create_icount2_def Let_def split: if_splits sum.splits)
  have "map el_ino (take (ic_count h) (?l sz1)) = map el_ino (take (ic_count h) (ic_list h))"
    using ic(2) c h(2) by (intro nth_equalityI) auto
  then have "keys_sorted el_ino (?l sz1) (ic_count h)" using h(1) ic(2) by (simp add: keys_sorted_def)
  moreover have "\<forall>e \<in> set (take (ic_count h) (?l sz1)). el_count e = 0"
    using ic(2) by (auto simp: take_map)
  ultimately show ?thesis using ic(1) by simp
qed

context bmap_backend
begin

lemma inode_test:
  assumes "bm_ok wf num p" "ext2fs_test_generic_bmap ops p (ucast ino) = (r, p')"
  shows "bm_ok wf num p' \<and> bm_inodes bits p' = bm_inodes bits p \<and> (r \<noteq> 0 \<longleftrightarrow> ino \<in> bm_inodes bits p)"
proof -
  obtain b where b: "p = Some (Bitmap64 b)" "good b" "gb_cluster_bits b = 0" "gb_start b = 1" "gb_end b = ucast num"
    using assms(1) by (auto simp: bm_ok_def split: option.splits any_bitmap.splits)
  show ?thesis
    by (rule test_generic[OF b(2), of "ucast ino" r p'])
      (use assms(2) b in \<open>auto simp: bm_ok_def bm_inodes_def same_hdr_iff\<close>)
qed

lemma inode_mark:
  assumes "bm_ok wf num p" "ino \<noteq> 0" "ino \<le> num"
  shows "bm_ok wf num (snd (ext2fs_mark_generic_bmap ops p (ucast ino))) \<and>
    bm_inodes bits (snd (ext2fs_mark_generic_bmap ops p (ucast ino))) = insert ino (bm_inodes bits p)"
proof -
  obtain b where b: "p = Some (Bitmap64 b)" "good b" "gb_cluster_bits b = 0" "gb_start b = 1" "gb_end b = ucast num"
    using assms(1) by (auto simp: bm_ok_def split: option.splits any_bitmap.splits)
  have rng: "(1 :: u64) \<le> ucast ino" "(ucast ino :: u64) \<le> ucast num"
    using assms(2,3) by (simp_all add: word_le_nat_alt word_unat_eq_iff)
  obtain r p' where m: "ext2fs_mark_generic_bmap ops p (ucast ino) = (r, p')" by fastforce
  show ?thesis
  proof (rule mark_generic[OF b(2), of "ucast ino" r p'])
    show "ext2fs_mark_generic_bmap ops (Some (Bitmap64 b)) (ucast ino) = (r, p')" using m b(1) by simp
    fix b' assume b': "p' = Some (Bitmap64 b')" "good b'" "same_hdr b' b"
      "clusters b' = clusters b \<union> ({drop_bit (gb_cluster_bits b) (ucast ino)} \<inter> {gb_start b..gb_end b})"
    have "clusters b' = insert (ucast ino) (clusters b)" unfolding b'(4) using rng b(3-5) by simp
    then show ?thesis using b' b m
      by (auto simp: bm_ok_def bm_inodes_def same_hdr_iff ucast_inj32)
  qed
qed

lemma inode_unmark:
  assumes "bm_ok wf num p"
  shows "bm_ok wf num (snd (ext2fs_unmark_generic_bmap ops p (ucast ino))) \<and>
    bm_inodes bits (snd (ext2fs_unmark_generic_bmap ops p (ucast ino))) = bm_inodes bits p - {ino}"
proof -
  obtain b where b: "p = Some (Bitmap64 b)" "good b" "gb_cluster_bits b = 0" "gb_start b = 1" "gb_end b = ucast num"
    using assms(1) by (auto simp: bm_ok_def split: option.splits any_bitmap.splits)
  obtain r p' where m: "ext2fs_unmark_generic_bmap ops p (ucast ino) = (r, p')" by fastforce
  show ?thesis
  proof (rule unmark_generic[OF b(2), of "ucast ino" r p'])
    show "ext2fs_unmark_generic_bmap ops (Some (Bitmap64 b)) (ucast ino) = (r, p')" using m b(1) by simp
    fix b' assume b': "p' = Some (Bitmap64 b')" "good b'" "same_hdr b' b"
      "clusters b' = clusters b - {drop_bit (gb_cluster_bits b) (ucast ino)}"
    have "clusters b' = clusters b - {ucast ino}" unfolding b'(4) using b(3) by simp
    then show ?thesis using b' b m
      by (auto simp: bm_ok_def bm_inodes_def same_hdr_iff ucast_inj32)
  qed
qed

lemma ic_frames [simp]:
  "ic_wf (ic\<lparr>ic_single := x\<rparr>) = ic_wf ic" "ic_wf (ic\<lparr>ic_multiple := x\<rparr>) = ic_wf ic"
  "list_counts (ic\<lparr>ic_single := x\<rparr>) = list_counts ic" "list_counts (ic\<lparr>ic_multiple := x\<rparr>) = list_counts ic"
  by (simp_all add: ic_wf_def list_counts_def split: option.split)

lemma bm_ok_None [simp]: "\<not> bm_ok wf num None"
  by (simp add: bm_ok_def)

lemma ic_ok_single: "ic_ok wf ic \<Longrightarrow> bm_ok wf (ic_num_inodes ic) b \<Longrightarrow> ic_ok wf (ic\<lparr>ic_single := b\<rparr>)"
  and ic_ok_multiple: "ic_ok wf ic \<Longrightarrow> bm_ok wf (ic_num_inodes ic) b \<Longrightarrow> ic_ok wf (ic\<lparr>ic_multiple := b\<rparr>)"
  by (simp_all add: ic_ok_def)

lemma ic_view_single: "ic_view bits ic = (S, M, L) \<Longrightarrow> ic_view bits (ic\<lparr>ic_single := b\<rparr>) = (bm_inodes bits b, M, L)"
  and ic_view_multiple: "ic_view bits ic = (S, M, L) \<Longrightarrow> bm_ok wf num b \<Longrightarrow>
    ic_view bits (ic\<lparr>ic_multiple := b\<rparr>) = (S, Some (bm_inodes bits b), L)"
  by (auto simp: ic_view_def; cases b; simp)+

lemmas ic_update_simps = ic_ok_single ic_ok_multiple ic_view_single ic_view_multiple

lemma ic_parts:
  assumes "ic_ok wf ic" "ic_view bits ic = (S, M, L)"
  shows "bm_ok wf (ic_num_inodes ic) (ic_single ic)" "S = bm_inodes bits (ic_single ic)"
    "M = None \<longleftrightarrow> ic_multiple ic = None"
    "M = Some T \<Longrightarrow> bm_ok wf (ic_num_inodes ic) (ic_multiple ic) \<and> T = bm_inodes bits (ic_multiple ic)"
  using assms by (auto simp: ic_ok_def ic_view_def split: if_splits)

lemma test_single_ok:
  assumes "ic_ok wf ic" "ic_view bits ic = (S, M, L)" "test_single ops ic ino = (s, ic')"
  shows "ic_ok wf ic' \<and> ic_view bits ic' = (S, M, L) \<and> ic_num_inodes ic' = ic_num_inodes ic \<and> (s \<longleftrightarrow> ino \<in> S)"
proof -
  obtain r b where t: "ext2fs_test_generic_bmap ops (ic_single ic) (ucast ino) = (r, b)" by fastforce
  have e: "s = (r \<noteq> 0)" "ic' = ic\<lparr>ic_single := b\<rparr>" using assms(3) t by (auto simp: test_single_def)
  note p = ic_parts[OF assms(1,2)]
  show ?thesis using inode_test[OF p(1) t] assms(1,2) unfolding e p(2)
    by (simp add: ic_update_simps)
qed

lemma not_multiple_ok:
  assumes "ic_ok wf ic" "ic_view bits ic = (S, M, L)" "not_multiple ops ic ino = (s, ic')"
  shows "ic_ok wf ic' \<and> ic_view bits ic' = (S, M, L) \<and> ic_num_inodes ic' = ic_num_inodes ic \<and>
    (s \<longleftrightarrow> (case M of None \<Rightarrow> False | Some T \<Rightarrow> ino \<notin> T))"
proof (cases M)
  case None
  then show ?thesis using assms ic_parts(3)[OF assms(1,2)] by (simp add: not_multiple_def)
next
  case (Some T)
  obtain r b where t: "ext2fs_test_generic_bmap ops (ic_multiple ic) (ucast ino) = (r, b)" by fastforce
  have p: "bm_ok wf (ic_num_inodes ic) (ic_multiple ic)" "T = bm_inodes bits (ic_multiple ic)" "ic_multiple ic \<noteq> None"
    using ic_parts(3,4)[OF assms(1,2)] Some by auto
  have e: "s = (r = 0)" "ic' = ic\<lparr>ic_multiple := b\<rparr>" using assms(3) t p(3) by (auto simp: not_multiple_def)
  show ?thesis using inode_test[OF p(1) t] assms(1,2) ic_view_multiple[OF assms(2)]
    unfolding e Some p(2) by (auto simp: ic_ok_multiple)
qed

text \<open>The four updates of the bitmaps, on the view.\<close>

lemma view_updates:
  assumes "ic_ok wf ic" "ic_view bits ic = (S, M, L)" "\<not> bad_ino ic ino"
  shows "ic_ok wf (mark_single ops ic ino) \<and> ic_view bits (mark_single ops ic ino) = (insert ino S, M, L) \<and>
      ic_num_inodes (mark_single ops ic ino) = ic_num_inodes ic"
    "ic_ok wf (unmark_single ops ic ino) \<and> ic_view bits (unmark_single ops ic ino) = (S - {ino}, M, L) \<and>
      ic_num_inodes (unmark_single ops ic ino) = ic_num_inodes ic"
    "ic_ok wf (mark_multiple ops ic ino) \<and> ic_view bits (mark_multiple ops ic ino) = (S, map_option (insert ino) M, L) \<and>
      ic_num_inodes (mark_multiple ops ic ino) = ic_num_inodes ic"
    "ic_ok wf (unmark_multiple ops ic ino) \<and> ic_view bits (unmark_multiple ops ic ino) = (S, map_option (\<lambda>T. T - {ino}) M, L) \<and>
      ic_num_inodes (unmark_multiple ops ic ino) = ic_num_inodes ic"
proof -
  have b: "ino \<noteq> 0" "ino \<le> ic_num_inodes ic" using assms(3) by (auto simp: bad_ino_def)
  note p = ic_parts[OF assms(1,2)]
  show "ic_ok wf (mark_single ops ic ino) \<and> ic_view bits (mark_single ops ic ino) = (insert ino S, M, L) \<and>
      ic_num_inodes (mark_single ops ic ino) = ic_num_inodes ic"
    using inode_mark[OF p(1) b] assms(1,2) unfolding mark_single_def p(2) by (simp add: ic_update_simps)
  show "ic_ok wf (unmark_single ops ic ino) \<and> ic_view bits (unmark_single ops ic ino) = (S - {ino}, M, L) \<and>
      ic_num_inodes (unmark_single ops ic ino) = ic_num_inodes ic"
    using inode_unmark[OF p(1)] assms(1,2) unfolding unmark_single_def p(2) by (simp add: ic_update_simps)
  show "ic_ok wf (mark_multiple ops ic ino) \<and> ic_view bits (mark_multiple ops ic ino) = (S, map_option (insert ino) M, L) \<and>
      ic_num_inodes (mark_multiple ops ic ino) = ic_num_inodes ic"
  proof (cases M)
    case (Some T)
    then show ?thesis
      using p(3) p(4)[OF Some] inode_mark[OF conjunct1[OF p(4)[OF Some]] b] assms(1) ic_view_multiple[OF assms(2)]
      by (auto simp: mark_multiple_def ic_ok_multiple)
  qed (use p(3) assms in \<open>simp add: mark_multiple_def\<close>)
  show "ic_ok wf (unmark_multiple ops ic ino) \<and> ic_view bits (unmark_multiple ops ic ino) = (S, map_option (\<lambda>T. T - {ino}) M, L) \<and>
      ic_num_inodes (unmark_multiple ops ic ino) = ic_num_inodes ic"
  proof (cases M)
    case (Some T)
    then show ?thesis
      using p(3) p(4)[OF Some] inode_unmark[OF conjunct1[OF p(4)[OF Some]], of ino] assms(1) ic_view_multiple[OF assms(2)]
      by (auto simp: unmark_multiple_def ic_ok_multiple)
  qed (use p(3) assms in \<open>simp add: unmark_multiple_def\<close>)
qed

lemma fetch_ok:
  assumes "ic_ok wf ic" "\<not> bad_ino ic ino" "ext2fs_icount_fetch ops ic ino = (r, ic')"
  shows "ic_ok wf ic' \<and> ic_num_inodes ic' = ic_num_inodes ic \<and>
    count_step_ok icount_16_xlate (Fetch ino) r (view_count (ic_view bits ic)) (view_count (ic_view bits ic'))"
proof -
  obtain S M L where v: "ic_view bits ic = (S, M, L)" by (metis prod_cases3)
  obtain s ic1 where 1: "test_single ops ic ino = (s, ic1)" by fastforce
  obtain z ic2 where 2: "not_multiple ops ic1 ino = (z, ic2)" by fastforce
  obtain e c ic3 where 3: "get_inode_count ic2 ino = (e, c, ic3)" by (metis prod_cases3)
  note t = test_single_ok[OF assms(1) v 1]
  note n = not_multiple_ok[OF _ _ 2, of S M L]
  note g = get_inode_count_spec[OF _ 3, where bw = wf and bits = bits]
  have m: "ic_magic ic = Some EXT2_ET_MAGIC_ICOUNT" using assms(1) by (simp add: ic_ok_def)
  have L: "list_counts ic2 ino = L ino" if "ic_view bits ic2 = (S, M, L)" using that by (simp add: ic_view_def)
  show ?thesis
    using assms(2,3) m t n g L v
    by (auto simp: ext2fs_icount_fetch_def 1 2 3 count_step_ok_def icount_16_xlate_def split: if_splits option.splits)
qed

lemma set_count_view:
  assumes "ic_ok wf ic" "ic_view bits ic = (S, M, L)" "set_inode_count est mem ic ino c = (e, ic')"
  shows "ic_ok wf ic'" "ic_num_inodes ic' = ic_num_inodes ic"
    "ic_view bits ic' = (S, M, if e = None then L(ino := c) else L)" "e \<noteq> None \<Longrightarrow> L ino = 0"
  using set_inode_count_spec[OF assms(1,3), where bits = bits] assms(2) by (auto simp: ic_view_def)

lemma get_count_view:
  assumes "ic_ok wf ic" "ic_view bits ic = (S, M, L)" "get_inode_count ic ino = (e, c, ic')"
  shows "ic_ok wf ic'" "ic_num_inodes ic' = ic_num_inodes ic" "ic_view bits ic' = (S, M, L)" "c = L ino"
  using get_inode_count_spec[OF assms(1,3), where bits = bits] assms(2) by (auto simp: ic_view_def)

lemma bad_ino_cong: "ic_num_inodes ic' = ic_num_inodes ic \<Longrightarrow> bad_ino ic' ino = bad_ino ic ino"
  by (simp add: bad_ino_def)

lemma increment_ok:
  assumes "ic_ok wf ic" "\<not> bad_ino ic ino" "ext2fs_icount_increment ops est mem ic ino = (r, ic')"
  shows "ic_ok wf ic' \<and> ic_num_inodes ic' = ic_num_inodes ic \<and>
    count_step_ok icount_16_xlate (Increment ino) r (view_count (ic_view bits ic)) (view_count (ic_view bits ic'))"
proof -
  obtain S M L where v: "ic_view bits ic = (S, M, L)" by (metis prod_cases3)
  obtain s ic1 where 1: "test_single ops ic ino = (s, ic1)" by fastforce
  note t = test_single_ok[OF assms(1) v 1]
  have m: "ic_magic ic = Some EXT2_ET_MAGIC_ICOUNT" using assms(1) by (simp add: ic_ok_def)
  show ?thesis
  proof (cases s)
    case True
    obtain e ic2 where 2: "set_inode_count est mem ic1 ino 2 = (e, ic2)" by fastforce
    note sc = set_count_view[OF _ _ 2, of S M L]
    note u = view_updates(2)[of ic2 S M _ ino] and w = view_updates(3)[of "unmark_single ops ic2 ino" "S - {ino}" M _ ino]
    show ?thesis
      using assms(2,3) m t sc u[of "L(ino := 2)"] w[of "L(ino := 2)"] True v
      by (cases e; cases M) (auto simp: ext2fs_icount_increment_def 1 2 count_step_ok_def icount_16_xlate_def bad_ino_def)
  next
    case False
    obtain z ic2 where 2: "not_multiple ops ic1 ino = (z, ic2)" by fastforce
    note n = not_multiple_ok[OF _ _ 2, of S M L]
    show ?thesis
    proof (cases z)
      case True
      show ?thesis
        using assms(2,3) m t n view_updates(1)[of ic2 S M L ino] True \<open>\<not> s\<close> v
        by (cases M) (auto simp: ext2fs_icount_increment_def 1 2 count_step_ok_def icount_16_xlate_def bad_ino_def)
    next
      case z: False
      obtain e c ic3 where 3: "get_inode_count ic2 ino = (e, c, ic3)" by (metis prod_cases3)
      obtain e4 ic4 where 4: "set_inode_count est mem ic3 ino (c + 1) = (e4, ic4)" by fastforce
      note g = get_count_view[OF _ _ 3, of S M L] and sc = set_count_view[OF _ _ 4, of S M L]
      note w = view_updates(3)[of ic4 S M "L(ino := c + 1)" ino]
      have res: "(r, ic') = (case e4 of Some _ \<Rightarrow> (Inl EXT2_ET_NO_MEMORY, ic4)
          | None \<Rightarrow> (Inr (icount_16_xlate (c + 1)), mark_multiple ops ic4 ino))"
        using assms(2,3) m z \<open>\<not> s\<close> by (auto simp: ext2fs_icount_increment_def 1 2 3 4 Let_def split: option.splits)
      have c: "c = L ino" "ic_ok wf ic4" "ic_view bits ic4 = (S, M, if e4 = None then L(ino := c + 1) else L)"
        "ic_num_inodes ic4 = ic_num_inodes ic" "ino \<notin> S" "case M of None \<Rightarrow> True | Some T \<Rightarrow> ino \<in> T"
        using t n g sc z \<open>\<not> s\<close> by (auto split: option.splits)
      show ?thesis using res c w assms(2) v
        by (cases e4; cases M) (auto simp: count_step_ok_def icount_16_xlate_def bad_ino_def)
    qed
  qed
qed

lemma decrement_ok:
  assumes "ic_ok wf ic" "\<not> bad_ino ic ino" "ext2fs_icount_decrement ops est mem ic ino = (r, ic')"
  shows "ic_ok wf ic' \<and> ic_num_inodes ic' = ic_num_inodes ic \<and>
    count_step_ok icount_16_xlate (Decrement ino) r (view_count (ic_view bits ic)) (view_count (ic_view bits ic'))"
proof -
  obtain S M L where v: "ic_view bits ic = (S, M, L)" by (metis prod_cases3)
  obtain s ic1 where 1: "test_single ops ic ino = (s, ic1)" by fastforce
  note t = test_single_ok[OF assms(1) v 1]
  have m: "ic_magic ic = Some EXT2_ET_MAGIC_ICOUNT" using assms(1) by (simp add: ic_ok_def)
  show ?thesis
  proof (cases s)
    case True
    let ?ic = "unmark_single ops ic1 ino"
    have u: "ic_ok wf ?ic" "ic_view bits ?ic = (S - {ino}, M, L)" "ic_num_inodes ?ic = ic_num_inodes ic"
      using view_updates(2)[of ic1 S M L ino] t assms(2) by (auto simp: bad_ino_def)
    obtain e ic2 where 2: "set_inode_count est mem ?ic ino 0 = (e, ic2)" by fastforce
    have ic': "r = Inr 0" "ic' = (if ic_multiple ?ic \<noteq> None then unmark_multiple ops ?ic ino else ic2)"
      using assms(2,3) m True by (auto simp: ext2fs_icount_decrement_def 1 2 Let_def)
    have M: "M = None \<longleftrightarrow> ic_multiple ?ic = None" by (rule ic_parts(3)[OF u(1,2)])
    show ?thesis
      using set_count_view[OF u(1,2) 2] view_updates(4)[OF u(1,2), of ino] u(3) assms(2) t True v M
      unfolding ic' by (cases M) (auto simp: count_step_ok_def icount_16_xlate_def bad_ino_def)
  next
    case False
    obtain z ic2 where 2: "not_multiple ops ic1 ino = (z, ic2)" by fastforce
    obtain e c ic3 where 3: "get_inode_count ic2 ino = (e, c, ic3)" by (metis prod_cases3)
    obtain e4 ic4 where 4: "set_inode_count est mem ic3 ino (c - 1) = (e4, ic4)" by fastforce
    note n = not_multiple_ok[OF _ _ 2, of S M L] and g = get_count_view[OF _ _ 3, of S M L]
      and sc = set_count_view[OF _ _ 4, of S M L]
    note w = view_updates(1)[of ic4 S M "L(ino := c - 1)" ino] and x = view_updates(4)[of ic4 S M "L(ino := c - 1)" ino]
    show ?thesis
    proof (cases "z \<or> c = 0 \<or> e4 \<noteq> None")
      case True
      then show ?thesis
        using assms(2,3) m t n g sc \<open>\<not> s\<close> v
        by (cases M) (auto simp: ext2fs_icount_decrement_def 1 2 3 4 Let_def count_step_ok_def icount_16_xlate_def bad_ino_def split: if_splits option.splits)
    next
      case ok: False
      define ic5 where "ic5 = (if c - 1 = 1 then mark_single ops ic4 ino else ic4)"
      have res: "r = Inr (icount_16_xlate (c - 1))" "ic' = (if c - 1 = 0 then unmark_multiple ops ic5 ino else ic5)"
        using assms(2,3) m ok \<open>\<not> s\<close>
        by (auto simp: ext2fs_icount_decrement_def 1 2 3 4 ic5_def Let_def)
      have c: "c = L ino" "ic_ok wf ic4" "ic_view bits ic4 = (S, M, L(ino := c - 1))" "ic_num_inodes ic4 = ic_num_inodes ic"
        "ino \<notin> S" "case M of None \<Rightarrow> True | Some T \<Rightarrow> ino \<in> T"
        using t n g sc ok \<open>\<not> s\<close> by (auto split: option.splits)
      show ?thesis unfolding res ic5_def
        using c w x ok assms(2) v
        by (cases M) (auto simp: count_step_ok_def icount_16_xlate_def bad_ino_def)
    qed
  qed
qed

lemma store_ok:
  assumes "ic_ok wf ic" "\<not> bad_ino ic ino" "ext2fs_icount_store ops est mem ic ino c = (r, ic')"
  shows "ic_ok wf ic' \<and> ic_num_inodes ic' = ic_num_inodes ic \<and>
    count_step_ok icount_16_xlate (Store ino (ucast c)) (case r of Some e \<Rightarrow> Inl e | None \<Rightarrow> Inr 0)
      (view_count (ic_view bits ic)) (view_count (ic_view bits ic'))"
proof -
  obtain S M L where v: "ic_view bits ic = (S, M, L)" by (metis prod_cases3)
  have m: "ic_magic ic = Some EXT2_ET_MAGIC_ICOUNT" using assms(1) by (simp add: ic_ok_def)
  have ms: "ic_ok wf (mark_single ops ic ino)" "ic_view bits (mark_single ops ic ino) = (insert ino S, M, L)"
    "ic_num_inodes (mark_single ops ic ino) = ic_num_inodes ic"
    using view_updates(1)[OF assms(1) v assms(2)] by auto
  consider "c = 1" | "c = 0" | "c \<noteq> 1" "c \<noteq> 0" by blast
  then show ?thesis
  proof cases
    case 1
    then show ?thesis
      using view_updates(4)[OF ms(1,2), of ino] ms(3) assms(2,3) m v
      by (cases M) (auto simp: ext2fs_icount_store_def count_step_ok_def icount_16_xlate_def bad_ino_def)
  next
    case 2
    let ?ic = "unmark_single ops ic ino"
    have u: "ic_ok wf ?ic" "ic_view bits ?ic = (S - {ino}, M, L)" "ic_num_inodes ?ic = ic_num_inodes ic"
      using view_updates(2)[OF assms(1) v assms(2)] by auto
    obtain e ic2 where s: "set_inode_count est mem ?ic ino 0 = (e, ic2)" by fastforce
    have ic': "r = None" "ic' = (if ic_multiple ?ic \<noteq> None then unmark_multiple ops ?ic ino else ic2)"
      using assms(2,3) m 2 s by (auto simp: ext2fs_icount_store_def Let_def)
    have M: "M = None \<longleftrightarrow> ic_multiple ?ic = None" by (rule ic_parts(3)[OF u(1,2)])
    show ?thesis
      using set_count_view[OF u(1,2) s] view_updates(4)[OF u(1,2), of ino] u(3) assms(2) v M 2
      unfolding ic' by (cases M) (auto simp: count_step_ok_def icount_16_xlate_def bad_ino_def)
  next
    case 3
    obtain e ic2 where s: "set_inode_count est mem ic ino (ucast c) = (e, ic2)" by fastforce
    note sc = set_count_view[OF assms(1) v s]
    note u = view_updates(2)[of ic2 S M "L(ino := ucast c)" ino]
      and w = view_updates(3)[of "unmark_single ops ic2 ino" "S - {ino}" M "L(ino := ucast c)" ino]
    show ?thesis
      using assms(2,3) m sc u w v 3
      by (cases e; cases M) (auto simp: ext2fs_icount_store_def s count_step_ok_def icount_16_xlate_def bad_ino_def)
  qed
qed

lemma fresh_inode_bitmap:
  assumes "inode_geometry_ok fs" "ext2fs_allocate_inode_bitmap ops m m32 fs descr = Inr bm"
  shows "bm_ok wf (s_inodes_count (fs_super fs)) (Some bm) \<and> bm_inodes bits (Some bm) = {}"
proof -
  let ?n = "s_inodes_count (fs_super fs)" and ?re = "s_inodes_per_group (fs_super fs) * fs_group_desc_count fs"
  have g: "fs_magic fs = Some EXT2_ET_MAGIC_EXT2FS_FILSYS" "fs_flag_64bits fs" "1 \<le> ?n" "?n \<le> ?re" "fs_cluster_ratio_bits fs < 64"
    using assms(1) by (auto simp: inode_geometry_ok_def)
  have r: "(1 :: u64) \<le> ucast ?n" "(ucast ?n :: u64) \<le> ucast ?re"
    using g(3,4) by (simp_all add: word_le_nat_alt)
  have "unat (ucast ?re - 1 :: u64) < 2 ^ 63"
    using unat_minus_nat[of 1 "ucast ?re :: u64"] r unat_less32[of ?re] by (simp add: word_le_nat_alt)
  note a = alloc_good[OF _ _ r this g(5)]
  obtain b where b: "bm = Bitmap64 b"
    "ext2fs_alloc_generic_bmap ops m (fs_cluster_ratio_bits fs) EXT2_ET_MAGIC_INODE_BITMAP64 1 (ucast ?n) (ucast ?re) descr = Inr b"
    using assms(2) g(1,2) by (auto simp: ext2fs_allocate_inode_bitmap_def alloc_fs_bitmap_def split: sum.splits)
  have f: "good b" "clusters b = {}" "gb_start b = 1" "gb_end b = ucast ?n" "gb_cluster_bits b = 0"
    using a[OF b(2)] by (auto simp: EXT2FS_IS_64_BITMAP_def)
  then show ?thesis by (auto simp: b(1) bm_ok_def bm_inodes_def)
qed

text \<open>A new counter, with or without the bitmap \<open>multiple\<close> and whatever the hint, counts nothing.\<close>

lemma create_icount2_fresh:
  assumes "inode_geometry_ok fs" "ext2fs_create_icount2 ops m fs nd opt sz hint = Inr ic"
    and "case hint of None \<Rightarrow> True | Some h \<Rightarrow> ic_wf h"
  shows "ic_ok wf ic \<and> view_count (ic_view bits ic) = (\<lambda>_. 0) \<and> ic_num_inodes ic = s_inodes_count (fs_super fs)"
proof -
  obtain ic0 where 0: "alloc_icount ops m fs opt = Inr ic0"
    using assms(2) by (auto simp: ext2fs_create_icount2_def Let_def split: if_splits sum.splits)
  note ic = create_list[OF assms(2) 0 assms(3)]
  have "ic_magic ic0 = Some EXT2_ET_MAGIC_ICOUNT \<and> bm_ok wf (ic_num_inodes ic0) (ic_single ic0) \<and> bm_inodes bits (ic_single ic0) = {} \<and>
      (ic_multiple ic0 = None \<or> bm_ok wf (ic_num_inodes ic0) (ic_multiple ic0) \<and> bm_inodes bits (ic_multiple ic0) = {}) \<and>
      ic_num_inodes ic0 = s_inodes_count (fs_super fs) \<and> ic_last_lookup ic0 = None"
    using 0 fresh_inode_bitmap[OF assms(1)]
    by (auto simp: alloc_icount_def Let_def split: if_splits sum.splits)
  moreover have "list_counts ic = (\<lambda>_. 0)"
    using ic unfolding list_counts_def by (intro count_of_zeros) blast
  ultimately show ?thesis using ic
    by (auto simp: ic_ok_def ic_wf_def ic_view_def fun_eq_iff)
qed

end

section \<open>A counter as a map\<close>

text \<open>A command with the outcome of the memory request it may make and the estimate of the size.\<close>

fun ic_exec ::
  "size_estimate \<times> icount_el mem_outcome \<Rightarrow> u32 count_cmd \<Rightarrow> ba_private icount \<Rightarrow> (errcode + u32) \<times> ba_private icount" where
  "ic_exec (est, mem) (Fetch ino) ic = ext2fs_icount_fetch ext2fs_blkmap64_bitarray ic ino"
| "ic_exec (est, mem) (Increment ino) ic = ext2fs_icount_increment ext2fs_blkmap64_bitarray est mem ic ino"
| "ic_exec (est, mem) (Decrement ino) ic = ext2fs_icount_decrement ext2fs_blkmap64_bitarray est mem ic ino"
| "ic_exec (est, mem) (Store ino c) ic =
     (case ext2fs_icount_store ext2fs_blkmap64_bitarray est mem ic ino (ucast c) of
        (r, ic') \<Rightarrow> (case r of Some e \<Rightarrow> Inl e | None \<Rightarrow> Inr 0, ic'))"

text \<open>The commands a caller may give: an inode of the file system, a count of 16 bits.\<close>

fun ino_cmd_ok :: "u32 \<Rightarrow> u32 count_cmd \<Rightarrow> bool" where
  "ino_cmd_ok n (Fetch ino) \<longleftrightarrow> ino \<noteq> 0 \<and> ino \<le> n"
| "ino_cmd_ok n (Increment ino) \<longleftrightarrow> ino \<noteq> 0 \<and> ino \<le> n"
| "ino_cmd_ok n (Decrement ino) \<longleftrightarrow> ino \<noteq> 0 \<and> ino \<le> n"
| "ino_cmd_ok n (Store ino c) \<longleftrightarrow> ino \<noteq> 0 \<and> ino \<le> n \<and> c < 0x10000"

definition ic_counts :: "ba_private icount \<Rightarrow> u32 \<Rightarrow> u32" where
  "ic_counts ic = view_count (ic_view ba_bits ic)"

lemma ucast_16_32: "(c :: u32) < 0x10000 \<Longrightarrow> ucast (ucast c :: u16) = c"
  by (simp add: word_unat_eq_iff word_less_nat_alt unsigned_ucast_eq unsigned_take_bit_eq take_bit_nat_eq_self)

lemma ic_exec_ok:
  assumes "ic_ok ba_wf ic" "ino_cmd_ok (ic_num_inodes ic) c" "ic_exec m c ic = (r, ic')"
  shows "ic_ok ba_wf ic' \<and> ic_num_inodes ic' = ic_num_inodes ic \<and>
    count_step_ok icount_16_xlate c r (ic_counts ic) (ic_counts ic')"
proof -
  obtain est mem where m: "m = (est, mem)" by fastforce
  show ?thesis
  proof (cases c)
    case (Fetch ino)
    then show ?thesis using ba.fetch_ok[OF assms(1), of ino] assms(2,3) m by (simp add: bad_ino_def ic_counts_def not_less)
  next
    case (Increment ino)
    then show ?thesis using ba.increment_ok[OF assms(1), of ino] assms(2,3) m by (simp add: bad_ino_def ic_counts_def not_less)
  next
    case (Decrement ino)
    then show ?thesis using ba.decrement_ok[OF assms(1), of ino] assms(2,3) m by (simp add: bad_ino_def ic_counts_def not_less)
  next
    case (Store ino n)
    then show ?thesis using ba.store_ok[OF assms(1), of ino est mem "ucast n"] assms(2,3) m ucast_16_32[of n]
      by (auto simp: bad_ino_def ic_counts_def not_less split: prod.splits)
  qed
qed

interpretation icnt: count_map ic_exec "ic_ok ba_wf" ic_counts "\<lambda>ic. ino_cmd_ok (ic_num_inodes ic)" icount_16_xlate
proof unfold_locales
  fix ic c m r ic'
  assume "ic_ok ba_wf ic" "ino_cmd_ok (ic_num_inodes ic) c" "ic_exec m c ic = (r, ic')"
  from ic_exec_ok[OF this]
  show "ic_ok ba_wf ic' \<and> ino_cmd_ok (ic_num_inodes ic') = ino_cmd_ok (ic_num_inodes ic) \<and>
      count_step_ok icount_16_xlate c r (ic_counts ic) (ic_counts ic')" by metis
qed

text \<open>C7: A new inode counter, with or without the bitmap \<open>multiple\<close> and whatever list it takes as a hint, behaves as a map from
  inodes to counts that starts at zero, over every sequence of fetches, increments, decrements and stores of inodes of
  the file system and every outcome of the memory requests: each result is the count of the map, cut off at 65500, a decrement
  of a zero count is refused, and a request that runs out of memory changes no count.\<close>

theorem icount_history:
  assumes "inode_geometry_ok fs" "case hint of None \<Rightarrow> True | Some h \<Rightarrow> ic_wf h"
    and "ext2fs_create_icount2 ext2fs_blkmap64_bitarray m fs nd opt sz hint = Inr ic"
    and "\<forall>(mo, c) \<in> set cs. ino_cmd_ok (s_inodes_count (fs_super fs)) c" "run_counts ic_exec cs ic = (rs, ic')"
  shows "counts_agree icount_16_xlate cs rs (\<lambda>_. 0) (ic_counts ic')"
  using icnt.run_agree[OF _ _ assms(5)] ba.create_icount2_fresh[OF assms(1,3,2)] assms(4)
  by (auto simp: ic_counts_def)

definition icount_demo_mem :: "ba_mem icount_mem" where
  "icount_demo_mem = \<lparr>im_struct = True, im_single = demo_mem, im_multiple = demo_mem, im_bitmap32 = legacy_mem, im_list = True\<rparr>"

text \<open>A counter of 64 inodes with the bitmap \<open>multiple\<close>, and a run in which a request for memory fails.\<close>

definition icount_demo :: "ba_private icount" where
  "icount_demo = (case ext2fs_create_icount2 ext2fs_blkmap64_bitarray icount_demo_mem (demo_fs True) (Inr 3) True 1 None of
     Inr ic \<Rightarrow> ic)"

definition icount_demo_cmds :: "((size_estimate \<times> icount_el mem_outcome) \<times> u32 count_cmd) list" where
  "icount_demo_cmds = map (Pair (\<lambda>_ _ _. 0, None))
     [Increment 5, Increment 5, Decrement 7, Store 9 40000, Store 5 1, Decrement 5, Decrement 5, Fetch 9]"

definition icount_demo_results :: "(errcode + u32) list" where
  "icount_demo_results = [Inr 1, Inr 2, Inl EXT2_ET_INVALID_ARGUMENT, Inl EXT2_ET_NO_MEMORY, Inr 0, Inr 0,
     Inl EXT2_ET_INVALID_ARGUMENT, Inr 0]"

lemma icount_demo_facts:
  "inode_geometry_ok (demo_fs True)"
  "ext2fs_create_icount2 ext2fs_blkmap64_bitarray icount_demo_mem (demo_fs True) (Inr 3) True 1 None = Inr icount_demo"
  "\<forall>(mo, c) \<in> set icount_demo_cmds. ino_cmd_ok (s_inodes_count (fs_super (demo_fs True))) c"
  "fst (run_counts ic_exec icount_demo_cmds icount_demo) = icount_demo_results"
proof -
  show "inode_geometry_ok (demo_fs True)" by code_simp
  show "ext2fs_create_icount2 ext2fs_blkmap64_bitarray icount_demo_mem (demo_fs True) (Inr 3) True 1 None = Inr icount_demo"
    by code_simp
  show "\<forall>(mo, c) \<in> set icount_demo_cmds. ino_cmd_ok (s_inodes_count (fs_super (demo_fs True))) c"
    by (simp add: icount_demo_cmds_def demo_fs_def demo_super_def)
  show "fst (run_counts ic_exec icount_demo_cmds icount_demo) = icount_demo_results" by code_simp
qed

theorem icount_history_witness:
  "counts_agree icount_16_xlate icount_demo_cmds icount_demo_results (\<lambda>_. 0)
     (ic_counts (snd (run_counts ic_exec icount_demo_cmds icount_demo)))"
proof -
  have "counts_agree icount_16_xlate icount_demo_cmds (fst (run_counts ic_exec icount_demo_cmds icount_demo)) (\<lambda>_. 0)
     (ic_counts (snd (run_counts ic_exec icount_demo_cmds icount_demo)))"
    by (rule icount_history[OF icount_demo_facts(1) _ icount_demo_facts(2,3) surjective_pairing]) simp
  then show ?thesis by (simp add: icount_demo_facts(4))
qed

lemma validate_ok: "ic_ok bw ic \<Longrightarrow> ext2fs_icount_validate ic = None"
  using keys_sorted_less[of el_ino "ic_list ic" "ic_count ic" "i - 1" i for i]
  by (auto simp: ic_ok_def ic_wf_def keys_sorted_def ext2fs_icount_validate_def not_le)

text \<open>C34: After every sequence of operations on a new inode counter, running out of memory included, the counter passes the check of
  \<^verbatim>\<open>ext2fs_icount_validate\<close>: the list fits its array and its inodes are strictly increasing.\<close>

theorem icount_stays_valid:
  assumes "inode_geometry_ok fs" "case hint of None \<Rightarrow> True | Some h \<Rightarrow> ic_wf h"
    and "ext2fs_create_icount2 ext2fs_blkmap64_bitarray m fs nd opt sz hint = Inr ic"
    and "\<forall>(mo, c) \<in> set cs. ino_cmd_ok (s_inodes_count (fs_super fs)) c"
  shows "ext2fs_icount_validate (snd (run_counts ic_exec cs ic)) = None"
  using icnt.run_agree[OF _ _ surjective_pairing, of ic cs] ba.create_icount2_fresh[OF assms(1,3,2)] assms(4)
  by (auto intro!: validate_ok[of ba_wf])

theorem icount_stays_valid_witness:
  "ext2fs_icount_validate (snd (run_counts ic_exec icount_demo_cmds icount_demo)) = None"
  by (rule icount_stays_valid[OF icount_demo_facts(1) _ icount_demo_facts(2,3)]) simp

end
