(* ===== verification/Revoke.thy ===== *)
theory Revoke
  imports Ext2_Prelude
begin

text \<open>
  \<^verbatim>\<open>e2fsck/revoke.c\<close> as it is compiled outside the kernel: the hash table of revoke records that journal recovery fills and
  asks, with the journal structure of \<^verbatim>\<open>lib/ext2fs/jfs_compat.h\<close> and the comparison of transaction numbers of
  \<^verbatim>\<open>kernel-jbd.h\<close>. The locale \<open>revoke_map\<close> states what recovery relies on.
\<close>

unbundle bit_operations_syntax

section \<open>Structures\<close>

record revoke_record =
  rr_sequence :: u32
  rr_blocknr :: u64

record revoke_table =
  hash_size :: u32
  hash_shift :: int
  hash_table :: "revoke_record list list"

text \<open>A pointer to a table; the code can keep one to a table it has freed.\<close>

datatype table_ptr = Null | Table revoke_table | Freed

text \<open>The fields of the journal superblock, in the byte order of the host.\<close>

record journal_superblock =
  s_sequence :: u32
  s_start :: u32
  sj_feature_compat :: u32
  sj_feature_incompat :: u32

text \<open>\<open>j_revoke\<close> points to one of the two tables: \<open>Some True\<close> to \<open>j_revoke_table[1]\<close>, \<open>Some False\<close> to \<open>j_revoke_table[0]\<close>.\<close>

record journal =
  j_superblock :: journal_superblock
  j_format_version :: int
  j_tail :: u64
  j_first :: u64
  j_last :: u64
  j_blocksize :: nat
  j_maxlen :: u32
  j_transaction_sequence :: u32
  j_revoke :: "bool option"
  j_revoke_table0 :: table_ptr
  j_revoke_table1 :: table_ptr
  j_failed_commit :: u32
  j_csum_seed :: u32

text \<open>What stops the program: a failed \<^verbatim>\<open>J_ASSERT\<close>, an access through a null pointer, a second \<^verbatim>\<open>free\<close>.\<close>

datatype fault = Assertion_failure | Null_pointer | Double_free

section \<open>Transaction numbers\<close>

definition tid_gt :: "u32 \<Rightarrow> u32 \<Rightarrow> bool" where
  "tid_gt x y \<longleftrightarrow> sint (x - y) > 0"

definition tid_geq :: "u32 \<Rightarrow> u32 \<Rightarrow> bool" where
  "tid_geq x y \<longleftrightarrow> sint (x - y) \<ge> 0"

section \<open>The table\<close>

text \<open>
  The hash function. The callers create tables of 1024 lists, so that \<^verbatim>\<open>hash_shift\<close> is 10 and \<^verbatim>\<open>hash_shift - 12\<close>
  is negative: C leaves such a shift undefined. \<open>shl\<close> stands for the shift of the machine; nothing is assumed of it.
\<close>

type_synonym shift_left = "u32 \<Rightarrow> int \<Rightarrow> u32"

definition revoke_hash :: "shift_left \<Rightarrow> revoke_table \<Rightarrow> u64 \<Rightarrow> nat" where
  "revoke_hash shl table block =
     (let hash = (ucast block :: u32) XOR ucast (drop_bit 1 (drop_bit 31 block))
      in unat ((shl hash (hash_shift table - 6) XOR signed_drop_bit 13 hash XOR shl hash (hash_shift table - 12))
               AND (hash_size table - 1)))"

definition current_table :: "journal \<Rightarrow> table_ptr" where
  "current_table j =
     (case j_revoke j of
        None \<Rightarrow> Null
      | Some True \<Rightarrow> j_revoke_table1 j
      | Some False \<Rightarrow> j_revoke_table0 j)"

definition set_table :: "journal \<Rightarrow> revoke_table \<Rightarrow> journal" where
  "set_table j t =
     (case j_revoke j of
        None \<Rightarrow> j
      | Some True \<Rightarrow> j\<lparr>j_revoke_table1 := Table t\<rparr>
      | Some False \<Rightarrow> j\<lparr>j_revoke_table0 := Table t\<rparr>)"

definition bucket :: "shift_left \<Rightarrow> revoke_table \<Rightarrow> u64 \<Rightarrow> revoke_record list" where
  "bucket shl t blocknr = hash_table t ! revoke_hash shl t blocknr"

text \<open>
  A failed request for the record is repeated until it succeeds (\<^verbatim>\<open>journal_oom_retry\<close> is 1), so the insertion
  returns 0 when it returns.
\<close>

definition insert_revoke_hash :: "shift_left \<Rightarrow> revoke_table \<Rightarrow> u64 \<Rightarrow> u32 \<Rightarrow> revoke_table" where
  "insert_revoke_hash shl t blocknr seq =
     t\<lparr>hash_table := (hash_table t)[revoke_hash shl t blocknr :=
         \<lparr>rr_sequence = seq, rr_blocknr = blocknr\<rparr> # bucket shl t blocknr]\<rparr>"

text \<open>The position of the record in its list.\<close>

fun find_in_list :: "revoke_record list \<Rightarrow> u64 \<Rightarrow> nat option" where
  "find_in_list [] blocknr = None"
| "find_in_list (r # rs) blocknr =
     (if rr_blocknr r = blocknr then Some 0 else map_option Suc (find_in_list rs blocknr))"

definition find_revoke_record :: "shift_left \<Rightarrow> revoke_table \<Rightarrow> u64 \<Rightarrow> nat option" where
  "find_revoke_record shl t blocknr = find_in_list (bucket shl t blocknr) blocknr"

function revoke_shift :: "nat \<Rightarrow> int" where
  "revoke_shift tmp = (if tmp div 2 \<noteq> 0 then revoke_shift (tmp div 2) + 1 else 0)"
  by pat_completeness auto
termination by (relation "measure id") auto

declare revoke_shift.simps [simp del]

text \<open>\<open>m\<close> and \<open>m_array\<close>: whether the memory for the table and for its array of lists is there.\<close>

definition journal_init_revoke_table :: "bool \<Rightarrow> bool \<Rightarrow> u32 \<Rightarrow> table_ptr" where
  "journal_init_revoke_table m m_array sz =
     (if m \<and> m_array
      then Table \<lparr>hash_size = sz, hash_shift = revoke_shift (unat sz), hash_table = replicate (unat sz) []\<rparr>
      else Null)"

definition journal_destroy_revoke_table :: "table_ptr \<Rightarrow> fault + table_ptr" where
  "journal_destroy_revoke_table p =
     (case p of
        Null \<Rightarrow> Inl Null_pointer
      | Freed \<Rightarrow> Inl Double_free
      | Table t \<Rightarrow> if \<forall>l \<in> set (hash_table t). l = [] then Inr Freed else Inl Assertion_failure)"

definition is_power_of_2 :: "u32 \<Rightarrow> bool" where
  "is_power_of_2 x \<longleftrightarrow> x \<noteq> 0 \<and> x AND (x - 1) = 0"

text \<open>The outcome of the memory requests for the two tables, in order. The result is the return value and the journal.\<close>

definition journal_init_revoke ::
  "(bool \<times> bool) \<times> (bool \<times> bool) \<Rightarrow> journal \<Rightarrow> u32 \<Rightarrow> fault + (errcode option \<times> journal)" where
  "journal_init_revoke m j sz =
     (if j_revoke_table0 j \<noteq> Null \<or> \<not> is_power_of_2 sz then Inl Assertion_failure
      else
        let t0 = journal_init_revoke_table (fst (fst m)) (snd (fst m)) sz; j = j\<lparr>j_revoke_table0 := t0\<rparr>
        in if t0 = Null then Inr (Some ENOMEM, j)
           else
             let t1 = journal_init_revoke_table (fst (snd m)) (snd (snd m)) sz; j = j\<lparr>j_revoke_table1 := t1\<rparr>
             in if t1 = Null then
                  (case journal_destroy_revoke_table t0 of
                     Inl f \<Rightarrow> Inl f
                   | Inr p \<Rightarrow> Inr (Some ENOMEM, j\<lparr>j_revoke_table0 := p\<rparr>))
                else Inr (None, j\<lparr>j_revoke := Some True\<rparr>))"

definition journal_destroy_revoke :: "journal \<Rightarrow> fault + journal" where
  "journal_destroy_revoke j =
     (let j = j\<lparr>j_revoke := None\<rparr>
      in case (if j_revoke_table0 j \<noteq> Null then journal_destroy_revoke_table (j_revoke_table0 j) else Inr Null) of
           Inl f \<Rightarrow> Inl f
         | Inr p0 \<Rightarrow>
             (case (if j_revoke_table1 j \<noteq> Null then journal_destroy_revoke_table (j_revoke_table1 j) else Inr Null) of
                Inl f \<Rightarrow> Inl f
              | Inr p1 \<Rightarrow> Inr (j\<lparr>j_revoke_table0 := p0, j_revoke_table1 := p1\<rparr>)))"

section \<open>Revoke support for recovery\<close>

text \<open>Each of these follows \<^verbatim>\<open>journal->j_revoke\<close>; without a table there the program stops, which leaves the journal as it is.\<close>

definition journal_set_revoke :: "shift_left \<Rightarrow> journal \<Rightarrow> u64 \<Rightarrow> u32 \<Rightarrow> journal" where
  "journal_set_revoke shl j blocknr sequence =
     (case current_table j of
        Table t \<Rightarrow>
          (case find_revoke_record shl t blocknr of
             Some i \<Rightarrow>
               let rs = bucket shl t blocknr
               in if tid_gt sequence (rr_sequence (rs ! i))
                  then set_table j (t\<lparr>hash_table := (hash_table t)[revoke_hash shl t blocknr :=
                         rs[i := (rs ! i)\<lparr>rr_sequence := sequence\<rparr>]]\<rparr>)
                  else j
           | None \<Rightarrow> set_table j (insert_revoke_hash shl t blocknr sequence))
      | _ \<Rightarrow> j)"

definition journal_test_revoke :: "shift_left \<Rightarrow> journal \<Rightarrow> u64 \<Rightarrow> u32 \<Rightarrow> bool" where
  "journal_test_revoke shl j blocknr sequence =
     (case current_table j of
        Table t \<Rightarrow>
          (case find_revoke_record shl t blocknr of
             None \<Rightarrow> False
           | Some i \<Rightarrow> \<not> tid_gt sequence (rr_sequence (bucket shl t blocknr ! i)))
      | _ \<Rightarrow> False)"

definition journal_clear_revoke :: "journal \<Rightarrow> journal" where
  "journal_clear_revoke j =
     (case current_table j of
        Table t \<Rightarrow> set_table j (t\<lparr>hash_table := map (\<lambda>_. []) (hash_table t)\<rparr>)
      | _ \<Rightarrow> j)"

section \<open>Comparison of transaction numbers\<close>

lemma sint_diff_offset:
  fixes s :: u32
  assumes "i < 2 ^ 31" "k < 2 ^ 31"
  shows "sint ((s + of_nat i) - (s + of_nat k)) = int i - int k"
proof -
  have "(s + of_nat i) - (s + of_nat k) = word_of_int (int i - int k)"
    by (simp add: of_nat_diff_if)
  moreover have "signed_take_bit 31 (int i - int k) = int i - int k"
    using assms by (intro signed_take_bit_int_eq_self) auto
  ultimately show ?thesis by (simp only: sint_word_of_int32)
qed

text \<open>Within a window of \<open>2 ^ 31\<close> numbers the order is that of the offsets, also across the wrap of the counter.\<close>

lemma tid_window:
  fixes s :: u32
  assumes "i < 2 ^ 31" "k < 2 ^ 31"
  shows "tid_gt (s + of_nat i) (s + of_nat k) \<longleftrightarrow> i > k" "tid_geq (s + of_nat i) (s + of_nat k) \<longleftrightarrow> i \<ge> k"
  using sint_diff_offset[OF assms, of s] by (simp_all add: tid_gt_def tid_geq_def)

section \<open>What recovery relies on\<close>

text \<open>A table of revocations: for each block the last transaction that revoked it, in the order of transaction numbers.\<close>

locale revoke_map =
  fixes set_rv :: "'j \<Rightarrow> u64 \<Rightarrow> u32 \<Rightarrow> 'j"
    and test_rv :: "'j \<Rightarrow> u64 \<Rightarrow> u32 \<Rightarrow> bool"
    and clear_rv :: "'j \<Rightarrow> 'j"
    and ok :: "'j \<Rightarrow> bool"
    and revoked_at :: "'j \<Rightarrow> u64 \<Rightarrow> u32 option"
  assumes set_ok: "ok j \<Longrightarrow> ok (set_rv j b s)"
    and set_at: "ok j \<Longrightarrow> revoked_at (set_rv j b s) =
        (revoked_at j)(b \<mapsto> (case revoked_at j b of None \<Rightarrow> s | Some r \<Rightarrow> if tid_gt s r then s else r))"
    and test_at: "ok j \<Longrightarrow> test_rv j b s \<longleftrightarrow> (case revoked_at j b of None \<Rightarrow> False | Some r \<Rightarrow> \<not> tid_gt s r)"
    and clear_at: "ok j \<Longrightarrow> ok (clear_rv j) \<and> revoked_at (clear_rv j) = (\<lambda>_. None)"
begin

text \<open>The revocations of the log, as pairs of a block and the number of a transaction from the start of the log.\<close>

definition set_all :: "u32 \<Rightarrow> (u64 \<times> nat) list \<Rightarrow> 'j \<Rightarrow> 'j" where
  "set_all s evs j = fold (\<lambda>(b, i) j. set_rv j b (s + of_nat i)) evs j"

lemma set_all_at:
  assumes "ok j" "revoked_at j = (\<lambda>_. None)" "\<forall>(b, i) \<in> set evs. i < 2 ^ 31"
  shows "ok (set_all s evs j) \<and>
    (\<forall>b. case revoked_at (set_all s evs j) b of
            None \<Rightarrow> \<forall>i. (b, i) \<notin> set evs
          | Some r \<Rightarrow> \<exists>m<2 ^ 31. r = s + of_nat m \<and> (b, m) \<in> set evs \<and> (\<forall>i. (b, i) \<in> set evs \<longrightarrow> i \<le> m))"
  using assms(3)
proof (induction evs rule: rev_induct)
  case Nil
  then show ?case using assms(1,2) by (simp add: set_all_def)
next
  case (snoc e evs)
  obtain b i where e: "e = (b, i)" by fastforce
  have i: "i < 2 ^ 31" using snoc.prems e by simp
  define j1 where "j1 = set_all s evs j"
  have j': "set_all s (evs @ [e]) j = set_rv j1 b (s + of_nat i)" by (simp add: set_all_def j1_def e)
  have ih: "ok j1" "\<And>b. case revoked_at j1 b of
            None \<Rightarrow> \<forall>i. (b, i) \<notin> set evs
          | Some r \<Rightarrow> \<exists>m<2 ^ 31. r = s + of_nat m \<and> (b, m) \<in> set evs \<and> (\<forall>i. (b, i) \<in> set evs \<longrightarrow> i \<le> m)"
    using snoc.IH snoc.prems unfolding j1_def by simp_all
  have "case revoked_at (set_rv j1 b (s + of_nat i)) c of
            None \<Rightarrow> \<forall>k. (c, k) \<notin> set (evs @ [e])
          | Some r \<Rightarrow> \<exists>m<2 ^ 31. r = s + of_nat m \<and> (c, m) \<in> set (evs @ [e]) \<and> (\<forall>k. (c, k) \<in> set (evs @ [e]) \<longrightarrow> k \<le> m)" for c
  proof (cases "c = b")
    case False
    then show ?thesis using ih(2)[of c] by (auto simp: set_at[OF ih(1)] e split: option.splits)
  next
    case True
    show ?thesis
    proof (cases "revoked_at j1 b")
      case None
      then show ?thesis using ih(2)[of b] True i by (auto simp: set_at[OF ih(1)] e)
    next
      case (Some r)
      then obtain m where m: "m < 2 ^ 31" "r = s + of_nat m" "(b, m) \<in> set evs" "\<forall>k. (b, k) \<in> set evs \<longrightarrow> k \<le> m"
        using ih(2)[of b] by auto
      have new: "revoked_at (set_rv j1 b (s + of_nat i)) b = Some (s + of_nat (if i > m then i else m))"
        using Some m(2) tid_window(1)[OF i m(1), of s] by (simp add: set_at[OF ih(1)])
      show ?thesis unfolding True new option.case
        by (rule exI[of _ "if i > m then i else m"]) (use m i e in auto)
    qed
  qed
  then show ?case unfolding j' using set_ok[OF ih(1)] by blast
qed

lemma test_after_sets:
  assumes "ok j" "revoked_at j = (\<lambda>_. None)" "\<forall>(b, i) \<in> set evs. i < 2 ^ 31" "i < 2 ^ 31"
  shows "test_rv (set_all s evs j) b (s + of_nat i) \<longleftrightarrow> (\<exists>m. (b, m) \<in> set evs \<and> i \<le> m)"
proof -
  note a = set_all_at[OF assms(1-3), of s]
  have t: "test_rv (set_all s evs j) b (s + of_nat i) \<longleftrightarrow>
      (case revoked_at (set_all s evs j) b of None \<Rightarrow> False | Some r \<Rightarrow> \<not> tid_gt (s + of_nat i) r)"
    using a test_at by blast
  show ?thesis
  proof (cases "revoked_at (set_all s evs j) b")
    case None
    then have "\<forall>m. (b, m) \<notin> set evs" using conjunct2[OF a, THEN spec[of _ b]] by simp
    then show ?thesis using t None by auto
  next
    case (Some r)
    then obtain m where m: "m < 2 ^ 31" "r = s + of_nat m" "(b, m) \<in> set evs" "\<forall>k. (b, k) \<in> set evs \<longrightarrow> k \<le> m"
      using conjunct2[OF a, THEN spec[of _ b]] by auto
    have "test_rv (set_all s evs j) b (s + of_nat i) \<longleftrightarrow> i \<le> m"
      using t Some m(2) tid_window(1)[OF assms(4) m(1), of s] by auto
    then show ?thesis using m(3,4) by (meson le_trans)
  qed
qed

end

section \<open>The hash table keeps the contract\<close>

definition table_ok :: "revoke_table \<Rightarrow> bool" where
  "table_ok t \<longleftrightarrow> hash_size t \<noteq> 0 \<and> length (hash_table t) = unat (hash_size t)"

definition revoke_ok :: "journal \<Rightarrow> bool" where
  "revoke_ok j \<longleftrightarrow> (case current_table j of Table t \<Rightarrow> table_ok t | _ \<Rightarrow> False)"

definition list_revoked :: "revoke_record list \<Rightarrow> u64 \<Rightarrow> u32 option" where
  "list_revoked rs b = map_option rr_sequence (find (\<lambda>r. rr_blocknr r = b) rs)"

definition revoked_in :: "shift_left \<Rightarrow> journal \<Rightarrow> u64 \<Rightarrow> u32 option" where
  "revoked_in shl j b = (case current_table j of Table t \<Rightarrow> list_revoked (bucket shl t b) b | _ \<Rightarrow> None)"

lemma find_in_list_None: "find_in_list rs b = None \<Longrightarrow> list_revoked rs b = None"
  by (induction rs) (auto simp: list_revoked_def split: if_splits)

lemma find_in_list_Some:
  "find_in_list rs b = Some i \<Longrightarrow> i < length rs \<and> rr_blocknr (rs ! i) = b \<and> list_revoked rs b = Some (rr_sequence (rs ! i))"
  by (induction rs arbitrary: i) (auto simp: list_revoked_def split: if_splits)

lemma list_revoked_update:
  "find_in_list rs b = Some i \<Longrightarrow>
     list_revoked (rs[i := (rs ! i)\<lparr>rr_sequence := s\<rparr>]) = (list_revoked rs)(b \<mapsto> s)"
proof (induction rs arbitrary: i)
  case (Cons r rs)
  show ?case
  proof (cases "rr_blocknr r = b")
    case True
    then show ?thesis using Cons.prems by (auto simp: list_revoked_def fun_eq_iff)
  next
    case False
    then obtain k where k: "find_in_list rs b = Some k" "i = Suc k" using Cons.prems by auto
    show ?thesis using Cons.IH[OF k(1)] False k(2) by (auto simp: list_revoked_def fun_eq_iff)
  qed
qed simp

lemma list_revoked_Cons:
  "list_revoked (\<lparr>rr_sequence = s, rr_blocknr = b\<rparr> # rs) = (list_revoked rs)(b \<mapsto> s)"
  by (auto simp: list_revoked_def fun_eq_iff)

lemma revoke_hash_less: "table_ok t \<Longrightarrow> revoke_hash shl t b < length (hash_table t)"
proof -
  assume t: "table_ok t"
  have "unat (x AND (hash_size t - 1)) \<le> unat (hash_size t - 1)" for x
    by (metis word_and_le1 word_le_nat_alt)
  moreover have "unat (hash_size t - 1) < unat (hash_size t)"
    using t by (simp add: table_ok_def unat_minus_one unat_gt_0)
  ultimately have "unat (x AND (hash_size t - 1)) < unat (hash_size t)" for x by (meson le_less_trans)
  then show ?thesis using t by (simp add: revoke_hash_def table_ok_def Let_def)
qed

text \<open>Replacing a list changes the hash of no block, and only the revocations of the blocks of that list.\<close>

lemma hash_table_update [simp]: "revoke_hash shl (t\<lparr>hash_table := l\<rparr>) b = revoke_hash shl t b"
  by (simp add: revoke_hash_def)

lemma current_set_table: "current_table j \<noteq> Null \<Longrightarrow> current_table (set_table j t) = Table t"
  by (auto simp: current_table_def set_table_def split: option.splits bool.splits)

lemma set_table_rest [simp]:
  "j_superblock (set_table j t) = j_superblock j" "j_format_version (set_table j t) = j_format_version j"
  "j_first (set_table j t) = j_first j" "j_last (set_table j t) = j_last j" "j_blocksize (set_table j t) = j_blocksize j"
  "j_maxlen (set_table j t) = j_maxlen j" "j_csum_seed (set_table j t) = j_csum_seed j"
  "j_failed_commit (set_table j t) = j_failed_commit j" "j_tail (set_table j t) = j_tail j"
  "j_transaction_sequence (set_table j t) = j_transaction_sequence j"
  by (auto simp: set_table_def split: option.splits bool.splits)

lemma bucket_update:
  assumes "table_ok t" "current_table j = Table t"
    "list_revoked l = (list_revoked (bucket shl t b))(b \<mapsto> s)"
    "j' = set_table j (t\<lparr>hash_table := (hash_table t)[revoke_hash shl t b := l]\<rparr>)"
  shows "revoke_ok j' \<and> revoked_in shl j' = (revoked_in shl j)(b \<mapsto> s)"
proof -
  have c: "current_table j' = Table (t\<lparr>hash_table := (hash_table t)[revoke_hash shl t b := l]\<rparr>)"
    unfolding assms(4) using assms(2) by (intro current_set_table) simp
  have "revoked_in shl j' c = ((revoked_in shl j)(b \<mapsto> s)) c" for c
    using assms(2,3) revoke_hash_less[OF assms(1), of shl b]
    by (cases "revoke_hash shl t c = revoke_hash shl t b")
      (auto simp: revoked_in_def \<open>current_table j' = _\<close> bucket_def)
  then show ?thesis using c assms(1) by (auto simp: revoke_ok_def table_ok_def)
qed

interpretation rv: revoke_map "journal_set_revoke shl" "journal_test_revoke shl" journal_clear_revoke revoke_ok "revoked_in shl"
  for shl
proof unfold_locales
  fix j b s
  assume "revoke_ok j"
  then obtain t where t: "current_table j = Table t" "table_ok t"
    by (auto simp: revoke_ok_def split: table_ptr.splits)
  have at: "revoked_in shl j b = list_revoked (bucket shl t b) b" by (simp add: revoked_in_def t)
  have set: "revoke_ok (journal_set_revoke shl j b s) \<and> revoked_in shl (journal_set_revoke shl j b s) =
      (revoked_in shl j)(b \<mapsto> (case revoked_in shl j b of None \<Rightarrow> s | Some r \<Rightarrow> if tid_gt s r then s else r))"
  proof (cases "find_revoke_record shl t b")
    case None
    then show ?thesis
      using bucket_update[OF t(2,1) list_revoked_Cons refl] find_in_list_None[of "bucket shl t b" b] at
      by (simp add: journal_set_revoke_def t(1) find_revoke_record_def insert_revoke_hash_def)
  next
    case (Some i)
    let ?r = "rr_sequence (bucket shl t b ! i)"
    have i: "find_in_list (bucket shl t b) b = Some i" using Some by (simp add: find_revoke_record_def)
    note f = find_in_list_Some[OF i]
    show ?thesis
    proof (cases "tid_gt s ?r")
      case True
      then show ?thesis
        using bucket_update[OF t(2,1) list_revoked_update[OF i] refl] f at Some
        by (simp add: journal_set_revoke_def t(1) Let_def)
    next
      case False
      then show ?thesis using Some f at \<open>revoke_ok j\<close>
        by (simp add: journal_set_revoke_def t(1) map_upd_triv Let_def)
    qed
  qed
  then show "revoke_ok (journal_set_revoke shl j b s)"
    and "revoked_in shl (journal_set_revoke shl j b s) =
      (revoked_in shl j)(b \<mapsto> (case revoked_in shl j b of None \<Rightarrow> s | Some r \<Rightarrow> if tid_gt s r then s else r))"
    by blast+
  show "journal_test_revoke shl j b s \<longleftrightarrow> (case revoked_in shl j b of None \<Rightarrow> False | Some r \<Rightarrow> \<not> tid_gt s r)"
    using find_in_list_None[of "bucket shl t b" b] find_in_list_Some[of "bucket shl t b" b]
    by (auto simp: journal_test_revoke_def t(1) at find_revoke_record_def split: option.splits)
  have "current_table (journal_clear_revoke j) = Table (t\<lparr>hash_table := map (\<lambda>_. []) (hash_table t)\<rparr>)"
    unfolding journal_clear_revoke_def t(1) table_ptr.case by (rule current_set_table) (simp add: t(1))
  then show "revoke_ok (journal_clear_revoke j) \<and> revoked_in shl (journal_clear_revoke j) = (\<lambda>_. None)"
    using t(2) revoke_hash_less[OF t(2)]
    by (auto simp: revoke_ok_def table_ok_def revoked_in_def bucket_def list_revoked_def fun_eq_iff)
qed

section \<open>Setting up and taking down\<close>

text \<open>C36: When there is memory for the first table but not for the second, \<^verbatim>\<open>journal_init_revoke\<close> frees the first one and leaves its pointer, so that
  \<^verbatim>\<open>journal_destroy_revoke\<close>, which the caller runs on that error, frees it again.\<close>

theorem init_revoke_failure_double_free:
  assumes "j_revoke_table0 j = Null" "is_power_of_2 sz" "\<not> (m \<and> m_array)"
  shows "\<exists>j'. journal_init_revoke ((True, True), (m, m_array)) j sz = Inr (Some ENOMEM, j') \<and>
    journal_destroy_revoke j' = Inl Double_free"
  using assms
  by (auto simp: journal_init_revoke_def journal_init_revoke_table_def journal_destroy_revoke_def
      journal_destroy_revoke_table_def Let_def)

theorem init_revoke_failure_double_free_witness:
  "\<exists>j'. journal_init_revoke ((True, True), (False, True)) \<lparr>j_superblock = \<lparr>s_sequence = 1, s_start = 1, sj_feature_compat = 0,
      sj_feature_incompat = 1\<rparr>, j_format_version = 2, j_tail = 0, j_first = 1, j_last = 12, j_blocksize = 1024, j_maxlen = 12,
      j_transaction_sequence = 0, j_revoke = None, j_revoke_table0 = Null, j_revoke_table1 = Null, j_failed_commit = 0,
      j_csum_seed = 0\<rparr> 1024 = Inr (Some ENOMEM, j') \<and> journal_destroy_revoke j' = Inl Double_free"
proof -
  have "is_power_of_2 1024" by code_simp
  then show ?thesis by (intro init_revoke_failure_double_free) simp_all
qed

end
