(* ===== verification/Recovery.thy ===== *)
theory Recovery
  imports Revoke
begin

text \<open>
  \<^verbatim>\<open>e2fsck/recovery.c\<close> as it is compiled outside the kernel: the three passes over the log of a journal. Blocks are lists of
  bytes, read in the big-endian layout of \<^verbatim>\<open>kernel-jbd.h\<close>. The state of a pass has the journal, the counters and the contents of the
  file system's device. What recovery finds outside is the record \<open>jenv\<close>: the mapping of log offsets to blocks
  (\<^verbatim>\<open>journal_bmap\<close>), reads of the journal's device (which may be the file system's own device, so that a read sees what replay has written), the
  memory for a buffer, failing writes, the result of the final flush, and the two checksums, whose tables the build generates.
\<close>

unbundle bit_operations_syntax

section \<open>Bytes\<close>

definition be16 :: "u8 list \<Rightarrow> nat \<Rightarrow> u16" where
  "be16 bs p = push_bit 8 (ucast (bs ! p)) OR ucast (bs ! (p + 1))"

definition be32 :: "u8 list \<Rightarrow> nat \<Rightarrow> u32" where
  "be32 bs p = push_bit 16 (ucast (be16 bs p)) OR ucast (be16 bs (p + 2))"

definition be64 :: "u8 list \<Rightarrow> nat \<Rightarrow> u64" where
  "be64 bs p = push_bit 32 (ucast (be32 bs p)) OR ucast (be32 bs (p + 4))"

definition put_be32 :: "u8 list \<Rightarrow> nat \<Rightarrow> u32 \<Rightarrow> u8 list" where
  "put_be32 bs p v = bs[p := ucast (drop_bit 24 v), p + 1 := ucast (drop_bit 16 v), p + 2 := ucast (drop_bit 8 v), p + 3 := ucast v]"

definition be32_bytes :: "u32 \<Rightarrow> u8 list" where
  "be32_bytes v = [ucast (drop_bit 24 v), ucast (drop_bit 16 v), ucast (drop_bit 8 v), ucast v]"

section \<open>Features and layout\<close>

definition JFS_MAGIC_NUMBER :: u32 where "JFS_MAGIC_NUMBER = 0xc03b3998"

definition JFS_HAS_COMPAT_FEATURE :: "journal \<Rightarrow> u32 \<Rightarrow> bool" where
  "JFS_HAS_COMPAT_FEATURE j msk \<longleftrightarrow> j_format_version j \<ge> 2 \<and> sj_feature_compat (j_superblock j) AND msk \<noteq> 0"

definition JFS_HAS_INCOMPAT_FEATURE :: "journal \<Rightarrow> u32 \<Rightarrow> bool" where
  "JFS_HAS_INCOMPAT_FEATURE j msk \<longleftrightarrow> j_format_version j \<ge> 2 \<and> sj_feature_incompat (j_superblock j) AND msk \<noteq> 0"

abbreviation compat_checksum :: "journal \<Rightarrow> bool" where "compat_checksum j \<equiv> JFS_HAS_COMPAT_FEATURE j 1"
abbreviation incompat_64bit :: "journal \<Rightarrow> bool" where "incompat_64bit j \<equiv> JFS_HAS_INCOMPAT_FEATURE j 2"
abbreviation incompat_async_commit :: "journal \<Rightarrow> bool" where "incompat_async_commit j \<equiv> JFS_HAS_INCOMPAT_FEATURE j 4"
abbreviation incompat_csum_v2 :: "journal \<Rightarrow> bool" where "incompat_csum_v2 j \<equiv> JFS_HAS_INCOMPAT_FEATURE j 8"
abbreviation incompat_csum_v3 :: "journal \<Rightarrow> bool" where "incompat_csum_v3 j \<equiv> JFS_HAS_INCOMPAT_FEATURE j 16"

definition journal_tag_bytes :: "journal \<Rightarrow> nat" where
  "journal_tag_bytes j =
     (if incompat_csum_v3 j then 16
      else let sz = 12 + (if incompat_csum_v2 j then 2 else 0) in if incompat_64bit j then sz else sz - 4)"

definition journal_has_csum_v2or3 :: "journal \<Rightarrow> bool" where
  "journal_has_csum_v2or3 j \<longleftrightarrow> incompat_csum_v2 j \<or> incompat_csum_v3 j"

definition csum_tail :: "journal \<Rightarrow> nat" where
  "csum_tail j = (if journal_has_csum_v2or3 j then 4 else 0)"

section \<open>The outside\<close>

type_synonym fs_contents = "u64 \<Rightarrow> u8 list"

record jenv =
  je_bmap :: "u32 \<Rightarrow> errcode + u64"
  je_read :: "fs_contents \<Rightarrow> u64 \<Rightarrow> u8 list option"
  je_getblk :: "u64 \<Rightarrow> bool"
  je_write :: "u64 \<Rightarrow> bool"
  je_flush :: "errcode option"
  je_crc32c :: "u32 \<Rightarrow> u8 list \<Rightarrow> u32"
  je_crc32_be :: "u32 \<Rightarrow> u8 list \<Rightarrow> u32"
  je_shl :: shift_left

definition jread :: "jenv \<Rightarrow> journal \<Rightarrow> fs_contents \<Rightarrow> u32 \<Rightarrow> errcode + u8 list" where
  "jread env j fs offset =
     (if offset \<ge> j_maxlen j then Inl EIO
      else case je_bmap env offset of
             Inl e \<Rightarrow> Inl e
           | Inr blocknr \<Rightarrow>
               if \<not> je_getblk env blocknr then Inl ENOMEM
               else case je_read env fs blocknr of None \<Rightarrow> Inl EIO | Some b \<Rightarrow> Inr b)"

text \<open>The checksums: the field is zeroed for the calculation.\<close>

definition jbd2_descr_block_csum_verify :: "jenv \<Rightarrow> journal \<Rightarrow> u8 list \<Rightarrow> bool" where
  "jbd2_descr_block_csum_verify env j buf \<longleftrightarrow>
     (\<not> journal_has_csum_v2or3 j \<or>
      be32 buf (j_blocksize j - 4) = je_crc32c env (j_csum_seed j) (put_be32 buf (j_blocksize j - 4) 0))"

definition jbd2_commit_block_csum_verify :: "jenv \<Rightarrow> journal \<Rightarrow> u8 list \<Rightarrow> bool" where
  "jbd2_commit_block_csum_verify env j buf \<longleftrightarrow>
     (\<not> journal_has_csum_v2or3 j \<or> be32 buf 16 = je_crc32c env (j_csum_seed j) (put_be32 buf 16 0))"

text \<open>The tag at offset \<open>p\<close> of the descriptor \<open>d\<close>.\<close>

definition jbd2_block_tag_csum_verify :: "jenv \<Rightarrow> journal \<Rightarrow> u8 list \<Rightarrow> nat \<Rightarrow> u8 list \<Rightarrow> u32 \<Rightarrow> bool" where
  "jbd2_block_tag_csum_verify env j d p buf sequence \<longleftrightarrow>
     (\<not> journal_has_csum_v2or3 j \<or>
      (let csum32 = je_crc32c env (je_crc32c env (j_csum_seed j) (be32_bytes sequence)) buf
       in if incompat_csum_v3 j then be32 d (p + 12) = csum32 else be16 d (p + 4) = ucast csum32))"

definition jbd2_revoke_block_csum_verify :: "jenv \<Rightarrow> journal \<Rightarrow> u8 list \<Rightarrow> bool" where
  "jbd2_revoke_block_csum_verify env j buf \<longleftrightarrow>
     (\<not> journal_has_csum_v2or3 j \<or>
      be32 buf (j_blocksize j - 4) = je_crc32c env (j_csum_seed j) (put_be32 buf (j_blocksize j - 4) 0))"

section \<open>Tags\<close>

definition tag_flags :: "u8 list \<Rightarrow> nat \<Rightarrow> u16" where
  "tag_flags d p = be16 d (p + 6)"

definition tag_next :: "nat \<Rightarrow> u8 list \<Rightarrow> nat \<Rightarrow> nat" where
  "tag_next tag_bytes d p = p + tag_bytes + (if tag_flags d p AND 2 = 0 then 16 else 0)"

definition read_tag_block :: "journal \<Rightarrow> u8 list \<Rightarrow> nat \<Rightarrow> u64" where
  "read_tag_block j d p =
     ucast (be32 d p) OR (if incompat_64bit j then push_bit 32 (ucast (be32 d (p + 8))) else 0)"

function count_tags_loop :: "nat \<Rightarrow> nat \<Rightarrow> u8 list \<Rightarrow> nat \<Rightarrow> nat \<Rightarrow> nat" where
  "count_tags_loop tag_bytes sz d p nr =
     (if p + tag_bytes \<le> sz \<and> tag_bytes \<noteq> 0 then
        if tag_flags d p AND 8 \<noteq> 0 then nr + 1
        else count_tags_loop tag_bytes sz d (tag_next tag_bytes d p) (nr + 1)
      else nr)"
  by pat_completeness auto
termination
  by (relation "measure (\<lambda>(tag_bytes, sz, d, p, nr). sz - p)") (auto simp: tag_next_def)

declare count_tags_loop.simps [simp del]

definition count_tags :: "journal \<Rightarrow> u8 list \<Rightarrow> nat" where
  "count_tags j d = count_tags_loop (journal_tag_bytes j) (j_blocksize j - csum_tail j) d 12 0"

definition wrap :: "journal \<Rightarrow> u64 \<Rightarrow> u64" where
  "wrap j var = (if var \<ge> j_last j then var - (j_last j - j_first j) else var)"

section \<open>A pass over the log\<close>

record recovery_info =
  start_transaction :: u32
  end_transaction :: u32
  nr_replays :: nat
  nr_revokes :: nat
  nr_revoke_hits :: nat

datatype passtype = PASS_SCAN | PASS_REVOKE | PASS_REPLAY

text \<open>The local variables of \<^verbatim>\<open>do_one_pass\<close> that live across the iterations, the journal, the counters and the device.\<close>

record pass_state =
  ps_next_commit_ID :: u32
  ps_next_log_block :: u64
  ps_success :: "errcode option"
  ps_crc32_sum :: u32
  ps_block_error :: bool
  ps_journal :: journal
  ps_info :: recovery_info
  ps_fs :: fs_contents

text \<open>Reading the blocks of a descriptor for the checksum of the transaction; \<open>False\<close> when a read fails.\<close>

fun calc_chksums_loop :: "jenv \<Rightarrow> nat \<Rightarrow> pass_state \<Rightarrow> bool \<times> pass_state" where
  "calc_chksums_loop env 0 s = (True, s)"
| "calc_chksums_loop env (Suc n) s =
     (let io_block = ps_next_log_block s;
          s = s\<lparr>ps_next_log_block := wrap (ps_journal s) (io_block + 1)\<rparr>
      in case jread env (ps_journal s) (ps_fs s) (ucast io_block) of
           Inl e \<Rightarrow> (False, s)
         | Inr obh \<Rightarrow> calc_chksums_loop env n (s\<lparr>ps_crc32_sum := je_crc32_be env (ps_crc32_sum s) obh\<rparr>))"

definition calc_chksums :: "jenv \<Rightarrow> u8 list \<Rightarrow> pass_state \<Rightarrow> bool \<times> pass_state" where
  "calc_chksums env bh s =
     calc_chksums_loop env (count_tags (ps_journal s) bh) (s\<lparr>ps_crc32_sum := je_crc32_be env (ps_crc32_sum s) bh\<rparr>)"

text \<open>A write through a buffer; an error of the device is reported on the terminal only.\<close>

definition write_block :: "jenv \<Rightarrow> u64 \<Rightarrow> u8 list \<Rightarrow> fs_contents \<Rightarrow> fs_contents" where
  "write_block env blocknr b fs = (if je_write env blocknr then fs(blocknr := b) else fs)"

definition restored :: "u16 \<Rightarrow> u8 list \<Rightarrow> u8 list" where
  "restored flags b = (if flags AND 1 \<noteq> 0 then put_be32 b 0 JFS_MAGIC_NUMBER else b)"

text \<open>One tag of a descriptor in the replay pass. \<open>Inl\<close>: no memory for the buffer.\<close>

definition replay_tag :: "jenv \<Rightarrow> u8 list \<Rightarrow> nat \<Rightarrow> pass_state \<Rightarrow> errcode \<times> pass_state + pass_state" where
  "replay_tag env d p s =
     (let j = ps_journal s; io_block = ps_next_log_block s;
          s = s\<lparr>ps_next_log_block := wrap j (io_block + 1)\<rparr>
      in case jread env j (ps_fs s) (ucast io_block) of
           Inl e \<Rightarrow> Inr (s\<lparr>ps_success := Some e\<rparr>)
         | Inr obh \<Rightarrow>
             let blocknr = read_tag_block j d p; info = ps_info s
             in if journal_test_revoke (je_shl env) j blocknr (ps_next_commit_ID s)
                then Inr (s\<lparr>ps_info := info\<lparr>nr_revoke_hits := nr_revoke_hits info + 1\<rparr>\<rparr>)
                else if \<not> jbd2_block_tag_csum_verify env j d p obh (be32 d 8)
                then Inr (s\<lparr>ps_success := Some EIO, ps_block_error := True\<rparr>)
                else if \<not> je_getblk env blocknr then Inl (ENOMEM, s)
                else Inr (s\<lparr>ps_fs := write_block env blocknr (restored (tag_flags d p) obh) (ps_fs s),
                            ps_info := info\<lparr>nr_replays := nr_replays info + 1\<rparr>\<rparr>))"

function replay_tags :: "jenv \<Rightarrow> nat \<Rightarrow> nat \<Rightarrow> u8 list \<Rightarrow> nat \<Rightarrow> pass_state \<Rightarrow> errcode \<times> pass_state + pass_state" where
  "replay_tags env tag_bytes sz d p s =
     (if p + tag_bytes \<le> sz \<and> tag_bytes \<noteq> 0 then
        case replay_tag env d p s of
          Inl e \<Rightarrow> Inl e
        | Inr s \<Rightarrow>
            if tag_flags d p AND 8 \<noteq> 0 then Inr s
            else replay_tags env tag_bytes sz d (tag_next tag_bytes d p) s
      else Inr s)"
  by pat_completeness auto
termination
  by (relation "measure (\<lambda>(env, tag_bytes, sz, d, p, s). sz - p)") (auto simp: tag_next_def)

declare replay_tags.simps [simp del]

text \<open>The records of a revoke block, from \<open>offset\<close> on.\<close>

function scan_records :: "jenv \<Rightarrow> nat \<Rightarrow> nat \<Rightarrow> u8 list \<Rightarrow> nat \<Rightarrow> u32 \<Rightarrow> pass_state \<Rightarrow> pass_state" where
  "scan_records env record_len mx bh offset sequence s =
     (if offset + record_len \<le> mx \<and> record_len \<noteq> 0 then
        let blocknr = (if record_len = 4 then ucast (be32 bh offset) else be64 bh offset); info = ps_info s
        in scan_records env record_len mx bh (offset + record_len) sequence
             (s\<lparr>ps_journal := journal_set_revoke (je_shl env) (ps_journal s) blocknr sequence,
                ps_info := info\<lparr>nr_revokes := nr_revokes info + 1\<rparr>\<rparr>)
      else s)"
  by pat_completeness auto
termination
  by (relation "measure (\<lambda>(env, record_len, mx, bh, offset, sequence, s). mx - offset)") auto

declare scan_records.simps [simp del]

definition scan_revoke_records :: "jenv \<Rightarrow> u8 list \<Rightarrow> u32 \<Rightarrow> pass_state \<Rightarrow> errcode option \<times> pass_state" where
  "scan_revoke_records env bh sequence s =
     (let j = ps_journal s; rcount = be32 bh 12
      in if \<not> jbd2_revoke_block_csum_verify env j bh then (Some EINVAL, s)
         else if unat rcount > j_blocksize j - csum_tail j then (Some EINVAL, s)
         else (None, scan_records env (if incompat_64bit j then 8 else 4) (unat rcount) bh 16 sequence s))"

text \<open>How an iteration of the loop ends. A \<^verbatim>\<open>break\<close> inside the \<^verbatim>\<open>switch\<close> leaves the \<^verbatim>\<open>switch\<close> only, and the loop goes on.\<close>

datatype iteration = Go_on pass_state | Finished pass_state | Failed errcode pass_state

definition descriptor_block :: "jenv \<Rightarrow> passtype \<Rightarrow> u8 list \<Rightarrow> pass_state \<Rightarrow> iteration" where
  "descriptor_block env pass bh s =
     (let j = ps_journal s
      in if journal_has_csum_v2or3 j \<and> \<not> jbd2_descr_block_csum_verify env j bh then Failed EIO s
         else if pass \<noteq> PASS_REPLAY then
           if pass = PASS_SCAN \<and> compat_checksum j \<and> end_transaction (ps_info s) = 0
           then Go_on (snd (calc_chksums env bh s))
           else Go_on (s\<lparr>ps_next_log_block := wrap j (ps_next_log_block s + of_nat (count_tags j bh))\<rparr>)
         else case replay_tags env (journal_tag_bytes j) (j_blocksize j - csum_tail j) bh 12 s of
                Inl (e, s) \<Rightarrow> Failed e s
              | Inr s \<Rightarrow> Go_on s)"

text \<open>The checksum of the transaction in a commit block, in the scan pass; \<open>False\<close> when the block is not counted.\<close>

definition commit_checksum :: "u8 list \<Rightarrow> pass_state \<Rightarrow> bool \<times> pass_state" where
  "commit_checksum bh s =
     (let j = ps_journal s; info = ps_info s; found_chksum = be32 bh 16; chksum_type = bh ! 12; chksum_size = bh ! 13
      in if end_transaction info \<noteq> 0 then (False, s\<lparr>ps_journal := j\<lparr>j_failed_commit := end_transaction info\<rparr>\<rparr>)
         else
           let seen = (ps_crc32_sum s = found_chksum \<and> chksum_type = 1 \<and> chksum_size = 4);
               absent = (chksum_type = 0 \<and> chksum_size = 0 \<and> found_chksum = 0)
           in if \<not> seen \<and> \<not> absent then
                let s = s\<lparr>ps_info := info\<lparr>end_transaction := ps_next_commit_ID s\<rparr>\<rparr>
                in if \<not> incompat_async_commit j
                   then (False, s\<lparr>ps_journal := j\<lparr>j_failed_commit := ps_next_commit_ID s\<rparr>\<rparr>)
                   else (True, s\<lparr>ps_crc32_sum := 0xffffffff\<rparr>)
              else (True, s\<lparr>ps_crc32_sum := 0xffffffff\<rparr>))"

definition commit_block :: "jenv \<Rightarrow> passtype \<Rightarrow> u8 list \<Rightarrow> pass_state \<Rightarrow> iteration" where
  "commit_block env pass bh s =
     (let (counted, s) = (if pass = PASS_SCAN \<and> compat_checksum (ps_journal s) then commit_checksum bh s else (True, s))
      in if \<not> counted then Go_on s
         else
           let j = ps_journal s;
               bad = (pass = PASS_SCAN \<and> \<not> jbd2_commit_block_csum_verify env j bh);
               s = (if bad then s\<lparr>ps_info := (ps_info s)\<lparr>end_transaction := ps_next_commit_ID s\<rparr>\<rparr> else s)
           in if bad \<and> \<not> incompat_async_commit j
              then Go_on (s\<lparr>ps_journal := j\<lparr>j_failed_commit := ps_next_commit_ID s\<rparr>\<rparr>)
              else Go_on (s\<lparr>ps_next_commit_ID := ps_next_commit_ID s + 1\<rparr>))"

definition revoke_block :: "jenv \<Rightarrow> passtype \<Rightarrow> u8 list \<Rightarrow> pass_state \<Rightarrow> iteration" where
  "revoke_block env pass bh s =
     (if pass \<noteq> PASS_REVOKE then Go_on s
      else case scan_revoke_records env bh (ps_next_commit_ID s) s of
             (Some e, s) \<Rightarrow> Failed e s
           | (None, s) \<Rightarrow> Go_on s)"

definition pass_iteration :: "jenv \<Rightarrow> passtype \<Rightarrow> pass_state \<Rightarrow> iteration" where
  "pass_iteration env pass s =
     (if pass \<noteq> PASS_SCAN \<and> tid_geq (ps_next_commit_ID s) (end_transaction (ps_info s)) then Finished s
      else case jread env (ps_journal s) (ps_fs s) (ucast (ps_next_log_block s)) of
             Inl e \<Rightarrow> Failed e s
           | Inr bh \<Rightarrow>
               let s = s\<lparr>ps_next_log_block := wrap (ps_journal s) (ps_next_log_block s + 1)\<rparr>;
                   blocktype = be32 bh 4; sequence = be32 bh 8
               in if be32 bh 0 \<noteq> JFS_MAGIC_NUMBER then Finished s
                  else if sequence \<noteq> ps_next_commit_ID s then Finished s
                  else if blocktype = 1 then descriptor_block env pass bh s
                  else if blocktype = 2 then commit_block env pass bh s
                  else if blocktype = 5 then revoke_block env pass bh s
                  else Finished s)"

text \<open>The end of a pass: the return value and the state.\<close>

definition pass_done :: "passtype \<Rightarrow> pass_state \<Rightarrow> errcode option \<times> pass_state" where
  "pass_done pass s =
     (let info = ps_info s;
          info' = (if pass = PASS_SCAN \<and> end_transaction info = 0
                   then info\<lparr>end_transaction := ps_next_commit_ID s\<rparr> else info);
          success = (if pass \<noteq> PASS_SCAN \<and> end_transaction info \<noteq> ps_next_commit_ID s \<and> ps_success s = None
                     then Some EIO else ps_success s);
          success = (if ps_block_error s \<and> success = None then Some EIO else success)
      in (success, s\<lparr>ps_info := info'\<rparr>))"

text \<open>The loop \<^verbatim>\<open>while (1)\<close>. On some logs it does not end.\<close>

partial_function (option) pass_loop :: "jenv \<Rightarrow> passtype \<Rightarrow> pass_state \<Rightarrow> (errcode option \<times> pass_state) option" where
  "pass_loop env pass s =
     (case pass_iteration env pass s of
        Go_on s' \<Rightarrow> pass_loop env pass s'
      | Finished s' \<Rightarrow> Some (pass_done pass s')
      | Failed e s' \<Rightarrow> Some (Some e, s'))"

declare pass_loop.simps [code]

definition do_one_pass ::
  "jenv \<Rightarrow> passtype \<Rightarrow> journal \<Rightarrow> recovery_info \<Rightarrow> fs_contents \<Rightarrow>
   (errcode option \<times> journal \<times> recovery_info \<times> fs_contents) option" where
  "do_one_pass env pass j info fs =
     (let first = s_sequence (j_superblock j);
          info = (if pass = PASS_SCAN then info\<lparr>start_transaction := first\<rparr> else info)
      in map_option (\<lambda>(err, s). (err, ps_journal s, ps_info s, ps_fs s))
           (pass_loop env pass
              \<lparr>ps_next_commit_ID = first, ps_next_log_block = ucast (s_start (j_superblock j)), ps_success = None,
               ps_crc32_sum = 0xffffffff, ps_block_error = False, ps_journal = j, ps_info = info, ps_fs = fs\<rparr>))"

section \<open>Recovery\<close>

definition no_info :: recovery_info where
  "no_info = \<lparr>start_transaction = 0, end_transaction = 0, nr_replays = 0, nr_revokes = 0, nr_revoke_hits = 0\<rparr>"

definition journal_recover ::
  "jenv \<Rightarrow> journal \<Rightarrow> fs_contents \<Rightarrow> (errcode option \<times> journal \<times> recovery_info \<times> fs_contents) option" where
  "journal_recover env j fs =
     (if s_start (j_superblock j) = 0
      then Some (None, j\<lparr>j_transaction_sequence := s_sequence (j_superblock j) + 1\<rparr>, no_info, fs)
      else
        let next_pass = (\<lambda>pass r. case r of
                           (None, j, info, fs) \<Rightarrow> do_one_pass env pass j info fs
                         | (Some e, j, info, fs) \<Rightarrow> Some r)
        in map_option
             (\<lambda>(err, j, info, fs).
                let info = info\<lparr>end_transaction := end_transaction info + 1\<rparr>
                in (if err = None then je_flush env else err,
                    journal_clear_revoke (j\<lparr>j_transaction_sequence := end_transaction info\<rparr>), info, fs))
             (Option.bind (Option.bind (do_one_pass env PASS_SCAN j no_info fs) (next_pass PASS_REVOKE)) (next_pass PASS_REPLAY)))"

definition journal_skip_recovery ::
  "jenv \<Rightarrow> journal \<Rightarrow> fs_contents \<Rightarrow> (errcode option \<times> journal \<times> fs_contents) option" where
  "journal_skip_recovery env j fs =
     map_option
       (\<lambda>(err, j, info, fs).
          (err, j\<lparr>j_transaction_sequence :=
                   (if err = None then end_transaction info + 1 else j_transaction_sequence j + 1), j_tail := 0\<rparr>, fs))
       (do_one_pass env PASS_SCAN j no_info fs)"

end
