(* ===== verification/Replay.thy ===== *)
theory Replay
  imports Recovery
begin

text \<open>
  What recovery does to a well-formed log: a sequence of committed transactions, each made of descriptor blocks with
  their data and of revoke blocks, that ends at a block that does not continue it. The three passes end, and the device
  receives exactly the blocks of the transactions, in their order, that no transaction from their own on revokes.
\<close>

section \<open>What the log says\<close>

text \<open>The offsets of the tags of a descriptor, and the block numbers of a revoke block.\<close>

function tag_offsets :: "nat \<Rightarrow> nat \<Rightarrow> u8 list \<Rightarrow> nat \<Rightarrow> nat list" where
  "tag_offsets tag_bytes sz d p =
     (if p + tag_bytes \<le> sz \<and> tag_bytes \<noteq> 0 then
        p # (if tag_flags d p AND 8 \<noteq> 0 then [] else tag_offsets tag_bytes sz d (tag_next tag_bytes d p))
      else [])"
  by pat_completeness auto
termination
  by (relation "measure (\<lambda>(tag_bytes, sz, d, p). sz - p)") (auto simp: tag_next_def)

declare tag_offsets.simps [simp del]

definition tags :: "journal \<Rightarrow> u8 list \<Rightarrow> nat list" where
  "tags j d = tag_offsets (journal_tag_bytes j) (j_blocksize j - csum_tail j) d 12"

definition record_at :: "nat \<Rightarrow> u8 list \<Rightarrow> nat \<Rightarrow> u64" where
  "record_at len b p = (if len = 4 then ucast (be32 b p) else be64 b p)"

definition record_len :: "journal \<Rightarrow> nat" where
  "record_len j = (if incompat_64bit j then 8 else 4)"

definition records_from :: "nat \<Rightarrow> nat \<Rightarrow> u8 list \<Rightarrow> nat \<Rightarrow> u64 list" where
  "records_from len mx b off = map (\<lambda>i. record_at len b (off + i * len)) [0..<(mx - off) div len]"

definition revoked_blocks :: "journal \<Rightarrow> u8 list \<Rightarrow> u64 list" where
  "revoked_blocks j b = records_from (record_len j) (unat (be32 b 12)) b 16"

datatype log_item = Data "u8 list" "u8 list list" | Revocations "u8 list"

type_synonym transaction = "log_item list \<times> u8 list"

fun item_blocks :: "log_item \<Rightarrow> u8 list list" where
  "item_blocks (Data d bs) = d # bs"
| "item_blocks (Revocations b) = [b]"

fun item_writes :: "journal \<Rightarrow> log_item \<Rightarrow> (u64 \<times> u8 list) list" where
  "item_writes j (Data d bs) = map2 (\<lambda>p b. (read_tag_block j d p, restored (tag_flags d p) b)) (tags j d) bs"
| "item_writes j (Revocations b) = []"

fun item_revokes :: "journal \<Rightarrow> log_item \<Rightarrow> u64 list" where
  "item_revokes j (Data d bs) = []"
| "item_revokes j (Revocations b) = revoked_blocks j b"

definition txn_blocks :: "transaction \<Rightarrow> u8 list list" where
  "txn_blocks t = concat (map item_blocks (fst t)) @ [snd t]"

definition txn_writes :: "journal \<Rightarrow> transaction \<Rightarrow> (u64 \<times> u8 list) list" where
  "txn_writes j t = concat (map (item_writes j) (fst t))"

definition txn_revokes :: "journal \<Rightarrow> transaction \<Rightarrow> u64 list" where
  "txn_revokes j t = concat (map (item_revokes j) (fst t))"

text \<open>A log whose headers, sequence numbers and checksums are in order.\<close>

definition header_is :: "u8 list \<Rightarrow> u32 \<Rightarrow> u32 \<Rightarrow> bool" where
  "header_is b ty seq \<longleftrightarrow> be32 b 0 = JFS_MAGIC_NUMBER \<and> be32 b 4 = ty \<and> be32 b 8 = seq"

fun item_ok :: "jenv \<Rightarrow> journal \<Rightarrow> u32 \<Rightarrow> log_item \<Rightarrow> bool" where
  "item_ok env j seq (Data d bs) \<longleftrightarrow>
     header_is d 1 seq \<and> jbd2_descr_block_csum_verify env j d \<and> length bs = length (tags j d) \<and>
     list_all2 (\<lambda>p b. jbd2_block_tag_csum_verify env j d p b seq) (tags j d) bs"
| "item_ok env j seq (Revocations b) \<longleftrightarrow>
     header_is b 5 seq \<and> jbd2_revoke_block_csum_verify env j b \<and> unat (be32 b 12) \<le> j_blocksize j - csum_tail j"

definition txn_ok :: "jenv \<Rightarrow> journal \<Rightarrow> u32 \<Rightarrow> transaction \<Rightarrow> bool" where
  "txn_ok env j seq t \<longleftrightarrow>
     (\<forall>item \<in> set (fst t). item_ok env j seq item) \<and> header_is (snd t) 2 seq \<and> jbd2_commit_block_csum_verify env j (snd t)"

fun txns_ok :: "jenv \<Rightarrow> journal \<Rightarrow> u32 \<Rightarrow> transaction list \<Rightarrow> bool" where
  "txns_ok env j seq [] \<longleftrightarrow> True"
| "txns_ok env j seq (t # ts) \<longleftrightarrow> txn_ok env j seq t \<and> txns_ok env j (seq + 1) ts"

definition log_end :: "u32 \<Rightarrow> u8 list \<Rightarrow> bool" where
  "log_end seq e \<longleftrightarrow> be32 e 0 \<noteq> JFS_MAGIC_NUMBER \<or> be32 e 8 \<noteq> seq"

text \<open>The ring of log blocks: the next position, and the blocks found from a position on.\<close>

definition advance :: "journal \<Rightarrow> nat \<Rightarrow> u64 \<Rightarrow> u64" where
  "advance j n p = ((\<lambda>q. wrap j (q + 1)) ^^ n) p"

definition in_ring :: "journal \<Rightarrow> u64 \<Rightarrow> bool" where
  "in_ring j p \<longleftrightarrow> j_first j \<le> p \<and> p < j_last j"

fun log_reads :: "(u64 \<Rightarrow> errcode + u8 list) \<Rightarrow> journal \<Rightarrow> u64 \<Rightarrow> u8 list list \<Rightarrow> bool" where
  "log_reads rd j p [] \<longleftrightarrow> True"
| "log_reads rd j p (b # bs) \<longleftrightarrow> rd p = Inr b \<and> log_reads rd j (wrap j (p + 1)) bs"

definition agree_outside :: "u64 set \<Rightarrow> fs_contents \<Rightarrow> fs_contents \<Rightarrow> bool" where
  "agree_outside T fs fs' \<longleftrightarrow> (\<forall>b. b \<notin> T \<longrightarrow> fs' b = fs b)"

text \<open>The log is on the device at \<open>p\<close>, and stays there whatever is written to the blocks of \<open>T\<close>.\<close>

definition log_there :: "jenv \<Rightarrow> journal \<Rightarrow> u64 set \<Rightarrow> fs_contents \<Rightarrow> u64 \<Rightarrow> u8 list list \<Rightarrow> bool" where
  "log_there env j T fs p bs \<longleftrightarrow>
     (\<forall>fs'. agree_outside T fs fs' \<longrightarrow> log_reads (\<lambda>q. jread env j fs' (ucast q)) j p bs)"

text \<open>What recovery has to do: the writes in order, except the revoked ones.\<close>

definition revocations :: "journal \<Rightarrow> nat \<Rightarrow> transaction list \<Rightarrow> (u64 \<times> nat) list" where
  "revocations j k ts = concat (map (\<lambda>(i, t). map (\<lambda>b. (b, i)) (txn_revokes j t)) (zip [k..<k + length ts] ts))"

definition revoked :: "journal \<Rightarrow> transaction list \<Rightarrow> nat \<Rightarrow> u64 \<Rightarrow> bool" where
  "revoked j ts i b \<longleftrightarrow> (\<exists>m<length ts. i \<le> m \<and> b \<in> set (txn_revokes j (ts ! m)))"

definition apply_writes ::
  "jenv \<Rightarrow> (u64 \<Rightarrow> bool) \<Rightarrow> (u64 \<times> u8 list) list \<Rightarrow> fs_contents \<Rightarrow> fs_contents" where
  "apply_writes env skip ws fs = fold (\<lambda>(b, c) fs. if skip b then fs else write_block env b c fs) ws fs"

fun apply_txns ::
  "jenv \<Rightarrow> journal \<Rightarrow> (nat \<Rightarrow> u64 \<Rightarrow> bool) \<Rightarrow> nat \<Rightarrow> transaction list \<Rightarrow> fs_contents \<Rightarrow> fs_contents" where
  "apply_txns env j skip k [] fs = fs"
| "apply_txns env j skip k (t # ts) fs =
     apply_txns env j skip (k + 1) ts (apply_writes env (skip k) (txn_writes j t) fs)"

section \<open>Tags and records\<close>

lemma count_tags_loop_length: "count_tags_loop tb sz d p nr = nr + length (tag_offsets tb sz d p)"
proof (induction tb sz d p nr rule: count_tags_loop.induct)
  case (1 tb sz d p nr)
  then show ?case by (subst count_tags_loop.simps, subst tag_offsets.simps) simp
qed

lemma count_tags_length: "count_tags j d = length (tags j d)"
  by (simp add: count_tags_def tags_def count_tags_loop_length)

fun replay_list :: "jenv \<Rightarrow> u8 list \<Rightarrow> nat list \<Rightarrow> pass_state \<Rightarrow> errcode \<times> pass_state + pass_state" where
  "replay_list env d [] s = Inr s"
| "replay_list env d (p # ps) s = (case replay_tag env d p s of Inl e \<Rightarrow> Inl e | Inr s \<Rightarrow> replay_list env d ps s)"

lemma replay_tags_list: "replay_tags env tb sz d p s = replay_list env d (tag_offsets tb sz d p) s"
proof (induction env tb sz d p s rule: replay_tags.induct)
  case (1 env tb sz d p s)
  then show ?case by (subst replay_tags.simps, subst tag_offsets.simps) (auto split: sum.splits)
qed

lemma records_from_step:
  assumes "off + len \<le> mx" "len \<noteq> 0"
  shows "records_from len mx b off = record_at len b off # records_from len mx b (off + len)"
proof -
  have "mx - off = (mx - (off + len)) + len" using assms(1) by simp
  then have n: "(mx - off) div len = Suc ((mx - (off + len)) div len)"
    using assms(2) by (metis Suc_eq_plus1 div_add_self2)
  have "[0..<Suc m] = 0 # map Suc [0..<m]" for m by (simp add: upt_conv_Cons map_Suc_upt del: upt_Suc)
  then show ?thesis by (simp add: records_from_def n comp_def add.assoc del: upt_Suc)
qed

text \<open>The records of a revoke block enter the table one by one.\<close>

lemma scan_records_fold:
  "\<exists>info. scan_records env len mx b off seq s =
     s\<lparr>ps_journal := fold (\<lambda>blk j. journal_set_revoke (je_shl env) j blk seq) (records_from len mx b off) (ps_journal s),
       ps_info := info\<rparr> \<and> end_transaction info = end_transaction (ps_info s)"
proof (induction env len mx b off seq s rule: scan_records.induct)
  case (1 env len mx b off seq s)
  show ?case
  proof (cases "off + len \<le> mx \<and> len \<noteq> 0")
    case True
    have st: "scan_records env len mx b off seq s = scan_records env len mx b (off + len) seq
        (s\<lparr>ps_journal := journal_set_revoke (je_shl env) (ps_journal s) (record_at len b off) seq,
           ps_info := (ps_info s)\<lparr>nr_revokes := nr_revokes (ps_info s) + 1\<rparr>\<rparr>)"
      using True by (subst scan_records.simps) (simp add: Let_def record_at_def)
    show ?thesis using "1.IH"[OF True refl refl] True
      unfolding st by (simp add: records_from_step record_at_def)
  next
    case False
    then have "(mx - off) div len = 0" by (cases "len = 0") (auto simp: not_le div_eq_0_iff)
    then have "records_from len mx b off = []" by (simp add: records_from_def)
    then show ?thesis using False by (subst scan_records.simps) (auto intro!: exI[of _ "ps_info s"])
  qed
qed

section \<open>The ring\<close>

lemma advance_simps [simp]: "advance j 0 p = p" "advance j (Suc n) p = advance j n (wrap j (p + 1))"
  by (simp_all add: advance_def funpow_Suc_right del: funpow.simps)

lemma advance_add: "advance j (m + n) p = advance j n (advance j m p)"
  by (simp add: advance_def add.commute[of m n] funpow_add)

lemma advance_Suc_right: "advance j (Suc n) p = wrap j (advance j n p + 1)"
  by (simp add: advance_def)

text \<open>Positions as numbers.\<close>

lemma unat_wrap_succ:
  assumes "in_ring j p"
  shows "unat (wrap j (p + 1)) = (if unat p + 1 < unat (j_last j) then unat p + 1 else unat (j_first j))"
proof -
  have p: "unat (j_first j) \<le> unat p" "unat p < unat (j_last j)"
    using assms by (auto simp: in_ring_def word_le_nat_alt word_less_nat_alt)
  have s: "unat (p + 1) = unat p + 1" using assms by (intro unat_succ_below[of p "j_last j"]) (simp add: in_ring_def)
  show ?thesis
  proof (cases "unat p + 1 < unat (j_last j)")
    case True
    then show ?thesis using s by (simp add: wrap_def word_le_nat_alt)
  next
    case False
    then have "p + 1 = j_last j" using s p by (intro word_unat_eq_iff[THEN iffD2]) simp
    then show ?thesis using False by (simp add: wrap_def)
  qed
qed

lemma wrap_succ_ring: "in_ring j p \<Longrightarrow> in_ring j (wrap j (p + 1))"
  using unat_wrap_succ[of j p] by (auto simp: in_ring_def word_le_nat_alt word_less_nat_alt split: if_splits)

lemma advance_ring: "in_ring j p \<Longrightarrow> in_ring j (advance j n p)"
  by (induction n arbitrary: p) (auto simp: wrap_succ_ring)

lemma unat_advance:
  assumes "in_ring j p" "n \<le> unat (j_last j) - unat (j_first j)"
  shows "unat (advance j n p) = (if unat p + n < unat (j_last j) then unat p + n
      else unat p + n - (unat (j_last j) - unat (j_first j)))"
  using assms(2)
proof (induction n)
  case 0
  then show ?case using assms(1) by (simp add: in_ring_def word_less_nat_alt)
next
  case (Suc n)
  have p: "unat (j_first j) \<le> unat p" "unat p < unat (j_last j)"
    using assms(1) by (auto simp: in_ring_def word_le_nat_alt word_less_nat_alt)
  show ?case
    unfolding advance_Suc_right unat_wrap_succ[OF advance_ring[OF assms(1)]]
    using Suc p by (auto split: if_splits)
qed

text \<open>One addition with one wrap is as many single steps, as long as the ring is not passed.\<close>

lemma wrap_add:
  assumes "in_ring j p" "unat (j_last j) < 2 ^ 63" "n \<le> unat (j_last j) - unat (j_first j)"
  shows "wrap j (p + of_nat n) = advance j n p"
proof -
  have p: "unat (j_first j) \<le> unat p" "unat p < unat (j_last j)"
    using assms(1) by (auto simp: in_ring_def word_le_nat_alt word_less_nat_alt)
  have n: "unat (of_nat n :: u64) = n" using assms(2,3) by (simp add: unsigned_of_nat take_bit_nat_eq_self)
  have s: "unat (p + of_nat n) = unat p + n" using p assms(2,3) n by (subst unat_plus64) auto
  have d: "unat (j_last j - j_first j) = unat (j_last j) - unat (j_first j)" using p by (intro unat_minus_nat) simp
  have "unat (wrap j (p + of_nat n)) = unat (advance j n p)"
  proof (cases "unat p + n < unat (j_last j)")
    case True
    then show ?thesis using s unat_advance[OF assms(1,3)] by (simp add: wrap_def word_le_nat_alt)
  next
    case False
    then have "unat (p + of_nat n - (j_last j - j_first j)) = unat p + n - (unat (j_last j) - unat (j_first j))"
      using s d by (subst unat_minus_nat) auto
    then show ?thesis using False s unat_advance[OF assms(1,3)] by (simp add: wrap_def word_le_nat_alt)
  qed
  then show ?thesis by (simp add: word_unat_eq_iff)
qed

lemma log_reads_append:
  "log_reads rd j p (xs @ ys) \<longleftrightarrow> log_reads rd j p xs \<and> log_reads rd j (advance j (length xs) p) ys"
  by (induction xs arbitrary: p) auto

section \<open>The journal's layout\<close>

text \<open>Recovery changes the revoke table and a few results in the journal, never its layout.\<close>

definition same_layout :: "journal \<Rightarrow> journal \<Rightarrow> bool" where
  "same_layout j' j \<longleftrightarrow> j_superblock j' = j_superblock j \<and> j_format_version j' = j_format_version j \<and> j_first j' = j_first j \<and>
     j_last j' = j_last j \<and> j_blocksize j' = j_blocksize j \<and> j_maxlen j' = j_maxlen j \<and> j_csum_seed j' = j_csum_seed j"

lemma same_layout_refl [simp]: "same_layout j j"
  by (simp add: same_layout_def)

lemma layout_cong:
  assumes "same_layout j' j"
  shows "JFS_HAS_COMPAT_FEATURE j' = JFS_HAS_COMPAT_FEATURE j" "JFS_HAS_INCOMPAT_FEATURE j' = JFS_HAS_INCOMPAT_FEATURE j"
    "journal_tag_bytes j' = journal_tag_bytes j" "journal_has_csum_v2or3 j' = journal_has_csum_v2or3 j"
    "csum_tail j' = csum_tail j" "jread env j' = jread env j" "wrap j' = wrap j" "advance j' = advance j"
    "read_tag_block j' = read_tag_block j" "tags j' = tags j" "count_tags j' = count_tags j"
    "j_blocksize j' = j_blocksize j" "record_len j' = record_len j" "j_superblock j' = j_superblock j"
    "jbd2_descr_block_csum_verify env j' = jbd2_descr_block_csum_verify env j"
    "jbd2_commit_block_csum_verify env j' = jbd2_commit_block_csum_verify env j"
    "jbd2_block_tag_csum_verify env j' = jbd2_block_tag_csum_verify env j"
    "jbd2_revoke_block_csum_verify env j' = jbd2_revoke_block_csum_verify env j"
proof -
  note d = assms[unfolded same_layout_def]
  show c: "JFS_HAS_COMPAT_FEATURE j' = JFS_HAS_COMPAT_FEATURE j" and i: "JFS_HAS_INCOMPAT_FEATURE j' = JFS_HAS_INCOMPAT_FEATURE j"
    using d by (auto simp: JFS_HAS_COMPAT_FEATURE_def JFS_HAS_INCOMPAT_FEATURE_def fun_eq_iff)
  show t: "journal_tag_bytes j' = journal_tag_bytes j" by (simp add: journal_tag_bytes_def i)
  show v: "journal_has_csum_v2or3 j' = journal_has_csum_v2or3 j" by (simp add: journal_has_csum_v2or3_def i)
  show tl: "csum_tail j' = csum_tail j" by (simp add: csum_tail_def v)
  show w: "wrap j' = wrap j" using d by (auto simp: wrap_def fun_eq_iff)
  show "jread env j' = jread env j" using d by (auto simp: jread_def fun_eq_iff)
  show "advance j' = advance j" by (simp add: advance_def w fun_eq_iff)
  show "tags j' = tags j" "count_tags j' = count_tags j" using d t tl by (auto simp: tags_def count_tags_def fun_eq_iff)
  show "read_tag_block j' = read_tag_block j" "record_len j' = record_len j"
    by (auto simp: read_tag_block_def record_len_def i fun_eq_iff)
  show "j_blocksize j' = j_blocksize j" "j_superblock j' = j_superblock j" using d by simp_all
  show "jbd2_descr_block_csum_verify env j' = jbd2_descr_block_csum_verify env j"
    "jbd2_commit_block_csum_verify env j' = jbd2_commit_block_csum_verify env j"
    "jbd2_block_tag_csum_verify env j' = jbd2_block_tag_csum_verify env j"
    "jbd2_revoke_block_csum_verify env j' = jbd2_revoke_block_csum_verify env j"
    using d by (auto simp: jbd2_descr_block_csum_verify_def jbd2_commit_block_csum_verify_def jbd2_block_tag_csum_verify_def
        jbd2_revoke_block_csum_verify_def v i fun_eq_iff)
qed

lemma set_revoke_layout: "same_layout j' j \<Longrightarrow> same_layout (journal_set_revoke shl j' b s) j"
  by (auto simp: journal_set_revoke_def same_layout_def Let_def split: table_ptr.splits option.splits)

lemma set_revokes_layout: "same_layout j' j \<Longrightarrow> same_layout (fold (\<lambda>b j. journal_set_revoke shl j b s) bs j') j"
  by (induction bs arbitrary: j') (auto simp: set_revoke_layout)

section \<open>Steps of a pass\<close>

inductive pass_steps :: "jenv \<Rightarrow> passtype \<Rightarrow> pass_state \<Rightarrow> pass_state \<Rightarrow> bool" for env pass where
  stay: "pass_steps env pass s s"
| go: "pass_iteration env pass s = Go_on s1 \<Longrightarrow> pass_steps env pass s1 s2 \<Longrightarrow> pass_steps env pass s s2"

lemma pass_steps_loop: "pass_steps env pass s s' \<Longrightarrow> pass_loop env pass s = pass_loop env pass s'"
  by (induction rule: pass_steps.induct) (auto simp: pass_loop.simps)

lemma pass_steps_trans: "pass_steps env pass s s1 \<Longrightarrow> pass_steps env pass s1 s2 \<Longrightarrow> pass_steps env pass s s2"
  by (induction rule: pass_steps.induct) (auto intro: pass_steps.intros)

text \<open>A pass at transaction \<open>k\<close> and position \<open>p\<close> of the log of \<open>j\<close>, with nothing wrong so far.\<close>

definition pass_at :: "journal \<Rightarrow> nat \<Rightarrow> u64 \<Rightarrow> u32 \<Rightarrow> journal \<Rightarrow> fs_contents \<Rightarrow> pass_state \<Rightarrow> bool" where
  "pass_at j k p en j' fs s \<longleftrightarrow>
     ps_next_commit_ID s = s_sequence (j_superblock j) + of_nat k \<and> ps_next_log_block s = p \<and> ps_success s = None \<and>
     \<not> ps_block_error s \<and> end_transaction (ps_info s) = en \<and> ps_journal s = j' \<and> ps_fs s = fs \<and> same_layout j' j"

text \<open>What a pass does with the journal and the device at an item of transaction \<open>k\<close>.\<close>

definition journal_after :: "jenv \<Rightarrow> passtype \<Rightarrow> u32 \<Rightarrow> u64 list \<Rightarrow> journal \<Rightarrow> journal" where
  "journal_after env pass seq rs j' =
     (if pass = PASS_REVOKE then fold (\<lambda>b j. journal_set_revoke (je_shl env) j b seq) rs j' else j')"

definition fs_after :: "jenv \<Rightarrow> passtype \<Rightarrow> (u64 \<Rightarrow> bool) \<Rightarrow> (u64 \<times> u8 list) list \<Rightarrow> fs_contents \<Rightarrow> fs_contents" where
  "fs_after env pass skip ws fs = (if pass = PASS_REPLAY then apply_writes env skip ws fs else fs)"

lemma log_there_Cons:
  "log_there env j T fs0 p (b # bs) \<longleftrightarrow>
     (\<forall>fs. agree_outside T fs0 fs \<longrightarrow> jread env j fs (ucast p) = Inr b) \<and> log_there env j T fs0 (wrap j (p + 1)) bs"
  by (auto simp: log_there_def)

lemma log_there_append:
  "log_there env j T fs0 p (xs @ ys) \<longleftrightarrow>
     log_there env j T fs0 p xs \<and> log_there env j T fs0 (advance j (length xs) p) ys"
  by (auto simp: log_there_def log_reads_append)

lemma agree_write: "agree_outside T fs0 fs \<Longrightarrow> b \<in> T \<Longrightarrow> agree_outside T fs0 (write_block env b c fs)"
  by (auto simp: agree_outside_def write_block_def)

lemma agree_writes:
  "agree_outside T fs0 fs \<Longrightarrow> fst ` set ws \<subseteq> T \<Longrightarrow> agree_outside T fs0 (apply_writes env skip ws fs)"
  by (induction ws arbitrary: fs) (auto simp: apply_writes_def agree_write)

lemma replay_tag_ok:
  assumes "pass_at j k p en j' fs s" "jread env j fs (ucast p) = Inr b"
    "jbd2_block_tag_csum_verify env j d q b (be32 d 8)" "je_getblk env (read_tag_block j d q)"
    "journal_test_revoke (je_shl env) j' (read_tag_block j d q) (s_sequence (j_superblock j) + of_nat k) = skip (read_tag_block j d q)"
  shows "\<exists>s'. replay_tag env d q s = Inr s' \<and>
    pass_at j k (wrap j (p + 1)) en j' (if skip (read_tag_block j d q) then fs
      else write_block env (read_tag_block j d q) (restored (tag_flags d q) b) fs) s'"
proof -
  note a = assms(1)[unfolded pass_at_def]
  have l: "same_layout j' j" using a by simp
  show ?thesis using a assms(2-5)
    by (auto simp: replay_tag_def Let_def layout_cong[OF l] pass_at_def)
qed

lemma replay_list_ok:
  assumes "pass_at j k p en j' fs s" "list_all2 (\<lambda>q b. jbd2_block_tag_csum_verify env j d q b (be32 d 8)) ps bs"
    "log_there env j T fs0 p bs" "agree_outside T fs0 fs" "read_tag_block j d ` set ps \<subseteq> T" "\<forall>b \<in> T. je_getblk env b"
    "\<And>b. journal_test_revoke (je_shl env) j' b (s_sequence (j_superblock j) + of_nat k) = skip b"
  shows "\<exists>s'. replay_list env d ps s = Inr s' \<and> pass_at j k (advance j (length ps) p) en j'
    (apply_writes env skip (map2 (\<lambda>q b. (read_tag_block j d q, restored (tag_flags d q) b)) ps bs) fs) s'"
  using assms(1-5)
proof (induction ps arbitrary: s p fs bs)
  case Nil
  then show ?case by (simp add: apply_writes_def)
next
  case (Cons q ps)
  obtain b bs' where bs: "bs = b # bs'" using Cons.prems(2) by (cases bs) auto
  let ?blk = "read_tag_block j d q"
  let ?fs = "if skip ?blk then fs else write_block env ?blk (restored (tag_flags d q) b) fs"
  have rd: "jread env j fs (ucast p) = Inr b" "log_there env j T fs0 (wrap j (p + 1)) bs'"
    using Cons.prems(3,4) unfolding bs log_there_Cons by auto
  obtain s1 where s1: "replay_tag env d q s = Inr s1" "pass_at j k (wrap j (p + 1)) en j' ?fs s1"
    using replay_tag_ok[OF Cons.prems(1) rd(1), of d q skip] Cons.prems(2,5) assms(6,7) bs by auto
  have "agree_outside T fs0 ?fs" using Cons.prems(4,5) by (auto intro: agree_write)
  then obtain s2 where "replay_list env d ps s1 = Inr s2" "pass_at j k (advance j (length ps) (wrap j (p + 1))) en j'
      (apply_writes env skip (map2 (\<lambda>q b. (read_tag_block j d q, restored (tag_flags d q) b)) ps bs') ?fs) s2"
    using Cons.IH[OF s1(2) _ rd(2)] Cons.prems(2,5) bs by auto
  then show ?case using s1(1) by (simp add: bs apply_writes_def)
qed

text \<open>The position and the rest of the state once the block at \<open>p\<close> is read.\<close>

lemma pass_at_read:
  "pass_at j k p en j' fs s \<Longrightarrow> pass_at j k q en j' fs (s\<lparr>ps_next_log_block := q\<rparr>)"
  by (simp add: pass_at_def)

text \<open>The conditions under which a pass meets transaction \<open>k\<close> of \<open>n\<close>.\<close>

definition pass_reaches :: "passtype \<Rightarrow> journal \<Rightarrow> nat \<Rightarrow> nat \<Rightarrow> u32 \<Rightarrow> bool" where
  "pass_reaches pass j k n en \<longleftrightarrow> k < n \<and> n < 2 ^ 31 \<and> (pass \<noteq> PASS_SCAN \<longrightarrow> en = s_sequence (j_superblock j) + of_nat n)"

lemma pass_reads_block:
  assumes "pass_at j k p en j' fs s" "pass_reaches pass j k n en" "jread env j fs (ucast p) = Inr b"
    "header_is b ty (s_sequence (j_superblock j) + of_nat k)"
  shows "pass_iteration env pass s =
    (let s = s\<lparr>ps_next_log_block := wrap j (p + 1)\<rparr>
     in if ty = 1 then descriptor_block env pass b s else if ty = 2 then commit_block env pass b s
        else if ty = 5 then revoke_block env pass b s else Finished s)"
proof -
  note a = assms(1)[unfolded pass_at_def]
  have l: "same_layout j' j" using a by simp
  have "\<not> (pass \<noteq> PASS_SCAN \<and> tid_geq (s_sequence (j_superblock j) + of_nat k) en)"
    using assms(2) tid_window(2)[of k n "s_sequence (j_superblock j)"] by (auto simp: pass_reaches_def)
  then show ?thesis using a assms(3,4)
    by (auto simp: pass_iteration_def header_is_def Let_def layout_cong[OF l])
qed

text \<open>What holds of the journal and the outside through all passes.\<close>

definition setting_ok :: "jenv \<Rightarrow> journal \<Rightarrow> u64 set \<Rightarrow> bool" where
  "setting_ok env j T \<longleftrightarrow> \<not> compat_checksum j \<and> unat (j_last j) < 2 ^ 63 \<and> (\<forall>b \<in> T. je_getblk env b)"

lemma item_step:
  assumes at: "pass_at j k p en j' fs s" and reach: "pass_reaches pass j k n en" and set: "setting_ok env j T" "in_ring j p"
    and item: "item_ok env j (s_sequence (j_superblock j) + of_nat k) item" "fst ` set (item_writes j item) \<subseteq> T"
      "length (item_blocks item) \<le> unat (j_last j) - unat (j_first j)"
    and log: "log_there env j T fs0 p (item_blocks item)" "agree_outside T fs0 fs"
    and skip: "\<And>b. pass = PASS_REPLAY \<Longrightarrow>
      journal_test_revoke (je_shl env) j' b (s_sequence (j_superblock j) + of_nat k) = skip b"
  shows "\<exists>s'. pass_iteration env pass s = Go_on s' \<and> pass_at j k (advance j (length (item_blocks item)) p) en
    (journal_after env pass (s_sequence (j_superblock j) + of_nat k) (item_revokes j item) j')
    (fs_after env pass skip (item_writes j item) fs) s'"
proof -
  let ?seq = "s_sequence (j_superblock j) + of_nat k" and ?s = "s\<lparr>ps_next_log_block := wrap j (p + 1)\<rparr>"
  note a = at[unfolded pass_at_def]
  have l: "same_layout j' j" and j': "ps_journal s = j'" using a by simp_all
  have at1: "pass_at j k (wrap j (p + 1)) en j' fs ?s" by (rule pass_at_read[OF at])
  show ?thesis
  proof (cases item)
    case (Revocations b)
    have rd: "jread env j fs (ucast p) = Inr b" "header_is b 5 ?seq"
      using log item(1) by (auto simp: Revocations log_there_Cons)
    have it: "pass_iteration env pass s = revoke_block env pass b ?s"
      by (simp add: pass_reads_block[OF at reach rd] Let_def)
    obtain info where sc: "scan_records env (record_len j) (unat (be32 b 12)) b 16 ?seq ?s =
        ?s\<lparr>ps_journal := fold (\<lambda>blk j. journal_set_revoke (je_shl env) j blk ?seq) (revoked_blocks j b) j', ps_info := info\<rparr>"
      "end_transaction info = en"
      using scan_records_fold[of env "record_len j" "unat (be32 b 12)" b 16 ?seq ?s] a by (auto simp: revoked_blocks_def)
    show ?thesis
    proof (cases "pass = PASS_REVOKE")
      case True
      then have "pass_iteration env pass s = Go_on (scan_records env (record_len j) (unat (be32 b 12)) b 16 ?seq ?s)"
        using item(1) a unfolding it
        by (simp add: revoke_block_def scan_revoke_records_def Revocations Let_def layout_cong[OF l] record_len_def)
      then show ?thesis using a sc True set_revokes_layout[OF l]
        by (simp add: Revocations pass_at_def journal_after_def fs_after_def)
    next
      case False
      then show ?thesis using at1 unfolding it
        by (simp add: revoke_block_def Revocations journal_after_def fs_after_def apply_writes_def)
    qed
  next
    case (Data d bs)
    have rd: "jread env j fs (ucast p) = Inr d" "header_is d 1 ?seq" and there: "log_there env j T fs0 (wrap j (p + 1)) bs"
      using log item(1) by (auto simp: Data log_there_Cons)
    have len: "length bs = length (tags j d)" and v: "jbd2_descr_block_csum_verify env j d"
      and tv: "list_all2 (\<lambda>q b. jbd2_block_tag_csum_verify env j d q b ?seq) (tags j d) bs" and d8: "be32 d 8 = ?seq"
      using item(1) by (auto simp: Data header_is_def)
    have it: "pass_iteration env pass s = descriptor_block env pass d ?s"
      by (simp add: pass_reads_block[OF at reach rd] Let_def)
    show ?thesis
    proof (cases "pass = PASS_REPLAY")
      case False
      have "wrap j (wrap j (p + 1) + of_nat (length bs)) = advance j (length bs) (wrap j (p + 1))"
        using set item(3) by (intro wrap_add wrap_succ_ring) (auto simp: setting_ok_def Data)
      then have "pass_iteration env pass s = Go_on (?s\<lparr>ps_next_log_block := advance j (length (item_blocks item)) p\<rparr>)"
        unfolding it using False v set(1) len
        by (simp add: descriptor_block_def Let_def layout_cong[OF l] j' setting_ok_def count_tags_length Data)
      then show ?thesis using pass_at_read[OF at1] False
        by (simp add: Data journal_after_def fs_after_def)
    next
      case True
      have T: "read_tag_block j d ` set (tags j d) \<subseteq> T"
        using item(2) len by (fastforce simp: Data set_zip in_set_conv_nth image_iff)
      obtain s2 where "replay_list env d (tags j d) ?s = Inr s2" "pass_at j k (advance j (length (tags j d)) (wrap j (p + 1))) en j'
          (apply_writes env skip (item_writes j item) fs) s2"
        using replay_list_ok[OF at1 tv[folded d8] there log(2) T _ skip[OF True]] set(1) by (auto simp: setting_ok_def Data)
      then show ?thesis unfolding it using True v len
        by (simp add: descriptor_block_def Let_def layout_cong[OF l] j' replay_tags_list flip: tags_def)
          (simp add: Data journal_after_def fs_after_def)
    qed
  qed
qed

lemma journal_after_append:
  "journal_after env pass seq (xs @ ys) j' = journal_after env pass seq ys (journal_after env pass seq xs j')"
  by (simp add: journal_after_def)

lemma fs_after_append: "fs_after env pass skip (xs @ ys) fs = fs_after env pass skip ys (fs_after env pass skip xs fs)"
  by (simp add: fs_after_def apply_writes_def)

lemma fs_after_agree:
  "agree_outside T fs0 fs \<Longrightarrow> fst ` set ws \<subseteq> T \<Longrightarrow> agree_outside T fs0 (fs_after env pass skip ws fs)"
  by (simp add: fs_after_def agree_writes)

lemma items_steps:
  assumes "pass_at j k p en j' fs s" "pass_reaches pass j k n en" "setting_ok env j T" "in_ring j p"
    and "\<forall>item \<in> set items. item_ok env j (s_sequence (j_superblock j) + of_nat k) item"
      "fst ` set (concat (map (item_writes j) items)) \<subseteq> T"
      "length (concat (map item_blocks items)) \<le> unat (j_last j) - unat (j_first j)"
    and "log_there env j T fs0 p (concat (map item_blocks items))" "agree_outside T fs0 fs"
    and "\<And>b. pass = PASS_REPLAY \<Longrightarrow>
      journal_test_revoke (je_shl env) j' b (s_sequence (j_superblock j) + of_nat k) = skip b"
  shows "\<exists>s'. pass_steps env pass s s' \<and> pass_at j k (advance j (length (concat (map item_blocks items))) p) en
    (journal_after env pass (s_sequence (j_superblock j) + of_nat k) (concat (map (item_revokes j) items)) j')
    (fs_after env pass skip (concat (map (item_writes j) items)) fs) s'"
  using assms
proof (induction items arbitrary: p j' fs s)
  case Nil
  then show ?case by (auto intro!: pass_steps.stay exI[of _ s] simp: journal_after_def fs_after_def apply_writes_def)
next
  case (Cons item items)
  let ?seq = "s_sequence (j_superblock j) + of_nat k" and ?p = "advance j (length (item_blocks item)) p"
  let ?j = "journal_after env pass ?seq (item_revokes j item) j'" and ?fs = "fs_after env pass skip (item_writes j item) fs"
  have T: "fst ` set (item_writes j item) \<subseteq> T" "fst ` set (concat (map (item_writes j) items)) \<subseteq> T"
    using Cons.prems(6) by auto
  have there: "log_there env j T fs0 p (item_blocks item)" "log_there env j T fs0 ?p (concat (map item_blocks items))"
    using Cons.prems(8) by (simp_all add: log_there_append)
  have "length (item_blocks item) \<le> unat (j_last j) - unat (j_first j)" using Cons.prems(7) by simp
  then obtain s1 where s1: "pass_iteration env pass s = Go_on s1" "pass_at j k ?p en ?j ?fs s1"
    using item_step[OF Cons.prems(1-4) _ T(1) _ there(1) Cons.prems(9,10)] Cons.prems(5) by auto
  have "\<exists>s'. pass_steps env pass s1 s' \<and> pass_at j k (advance j (length (concat (map item_blocks items))) ?p) en
    (journal_after env pass ?seq (concat (map (item_revokes j) items)) ?j)
    (fs_after env pass skip (concat (map (item_writes j) items)) ?fs) s'"
    using Cons.prems(2,3,5,7,10) T(2) there(2) s1(2)
    by (intro Cons.IH advance_ring[OF Cons.prems(4)] fs_after_agree[OF Cons.prems(9) T(1)]) (auto simp: journal_after_def)
  then show ?case using pass_steps.go[OF s1(1)]
    by (auto simp: advance_add journal_after_append fs_after_append)
qed

lemma commit_step:
  assumes at: "pass_at j k p en j' fs s" and reach: "pass_reaches pass j k n en" and set: "setting_ok env j T"
    and c: "header_is c 2 (s_sequence (j_superblock j) + of_nat k)" "jbd2_commit_block_csum_verify env j c"
      "jread env j fs (ucast p) = Inr c"
  shows "\<exists>s'. pass_iteration env pass s = Go_on s' \<and> pass_at j (Suc k) (wrap j (p + 1)) en j' fs s'"
proof -
  note a = at[unfolded pass_at_def]
  have l: "same_layout j' j" using a by simp
  show ?thesis
    using pass_reads_block[OF at reach c(3,1)] a c(2) set
    by (simp add: Let_def commit_block_def layout_cong[OF l] setting_ok_def pass_at_def algebra_simps)
qed

lemma txn_steps:
  assumes "pass_at j k p en j' fs s" "pass_reaches pass j k n en" "setting_ok env j T" "in_ring j p"
    and "txn_ok env j (s_sequence (j_superblock j) + of_nat k) t" "fst ` set (txn_writes j t) \<subseteq> T"
      "length (txn_blocks t) \<le> unat (j_last j) - unat (j_first j)"
    and "log_there env j T fs0 p (txn_blocks t)" "agree_outside T fs0 fs"
    and "\<And>b. pass = PASS_REPLAY \<Longrightarrow>
      journal_test_revoke (je_shl env) j' b (s_sequence (j_superblock j) + of_nat k) = skip b"
  shows "\<exists>s'. pass_steps env pass s s' \<and> pass_at j (Suc k) (advance j (length (txn_blocks t)) p) en
    (journal_after env pass (s_sequence (j_superblock j) + of_nat k) (txn_revokes j t) j')
    (fs_after env pass skip (txn_writes j t) fs) s'"
proof -
  let ?bs = "concat (map item_blocks (fst t))" and ?seq = "s_sequence (j_superblock j) + of_nat k"
  let ?fs = "fs_after env pass skip (txn_writes j t) fs"
  have there: "log_there env j T fs0 p ?bs" "log_there env j T fs0 (advance j (length ?bs) p) [snd t]"
    using assms(8) by (simp_all add: txn_blocks_def log_there_append)
  have len: "length ?bs \<le> unat (j_last j) - unat (j_first j)" using assms(7) by (simp add: txn_blocks_def)
  have ok: "\<forall>item \<in> set (fst t). item_ok env j ?seq item" "header_is (snd t) 2 ?seq" "jbd2_commit_block_csum_verify env j (snd t)"
    using assms(5) by (simp_all add: txn_ok_def)
  obtain s1 where s1: "pass_steps env pass s s1" "pass_at j k (advance j (length ?bs) p) en
      (journal_after env pass ?seq (txn_revokes j t) j') ?fs s1"
    using items_steps[OF assms(1-4) ok(1) _ len there(1) assms(9,10)] assms(6) by (auto simp: txn_revokes_def txn_writes_def)
  have "jread env j ?fs (ucast (advance j (length ?bs) p)) = Inr (snd t)"
    using there(2) fs_after_agree[OF assms(9,6)] by (auto simp: log_there_Cons)
  then obtain s2 where "pass_iteration env pass s1 = Go_on s2"
    "pass_at j (Suc k) (wrap j (advance j (length ?bs) p + 1)) en (journal_after env pass ?seq (txn_revokes j t) j') ?fs s2"
    using commit_step[OF s1(2) assms(2,3) ok(2,3)] by blast
  then show ?thesis using s1(1) pass_steps_trans[OF s1(1) pass_steps.go[OF _ pass_steps.stay]]
    by (auto simp: txn_blocks_def advance_Suc_right simp del: advance_simps(2))
qed

lemma revocations_Cons: "revocations j k (t # ts) = map (\<lambda>b. (b, k)) (txn_revokes j t) @ revocations j (Suc k) ts"
  by (simp add: revocations_def upt_conv_Cons del: upt_Suc)

lemma set_all_txn:
  "rv.set_all shl seq (map (\<lambda>b. (b, k)) rs @ evs) j =
     rv.set_all shl seq evs (fold (\<lambda>b j. journal_set_revoke shl j b (seq + of_nat k)) rs j)"
  by (simp add: rv.set_all_def fold_map comp_def)

text \<open>A pass goes through all transactions of the log.\<close>

lemma log_steps:
  assumes "pass_at j k p en j' fs s" "k + length ts = n" "n < 2 ^ 31"
      "pass \<noteq> PASS_SCAN \<Longrightarrow> en = s_sequence (j_superblock j) + of_nat n"
    and "setting_ok env j T" "in_ring j p" "txns_ok env j (s_sequence (j_superblock j) + of_nat k) ts"
      "fst ` set (concat (map (txn_writes j) ts)) \<subseteq> T"
      "length (concat (map txn_blocks ts)) \<le> unat (j_last j) - unat (j_first j)"
    and "log_there env j T fs0 p (concat (map txn_blocks ts))" "agree_outside T fs0 fs"
    and "\<And>i b. pass = PASS_REPLAY \<Longrightarrow> i < n \<Longrightarrow>
      journal_test_revoke (je_shl env) j' b (s_sequence (j_superblock j) + of_nat i) = skip i b"
  shows "\<exists>s'. pass_steps env pass s s' \<and> pass_at j n (advance j (length (concat (map txn_blocks ts))) p) en
    (if pass = PASS_REVOKE then rv.set_all (je_shl env) (s_sequence (j_superblock j)) (revocations j k ts) j' else j')
    (if pass = PASS_REPLAY then apply_txns env j skip k ts fs else fs) s'"
  using assms
proof (induction ts arbitrary: k p j' fs s)
  case Nil
  then show ?case by (auto intro!: pass_steps.stay exI[of _ s] simp: revocations_def rv.set_all_def)
next
  case (Cons t ts)
  let ?seq = "s_sequence (j_superblock j)" and ?p = "advance j (length (txn_blocks t)) p"
  let ?j = "journal_after env pass (?seq + of_nat k) (txn_revokes j t) j'"
  let ?fs = "fs_after env pass (skip k) (txn_writes j t) fs"
  have reach: "pass_reaches pass j k n en" using Cons.prems(2-4) by (auto simp: pass_reaches_def)
  have ok: "txn_ok env j (?seq + of_nat k) t" "txns_ok env j (?seq + of_nat (Suc k)) ts"
    using Cons.prems(7) by (simp_all add: algebra_simps)
  have T: "fst ` set (txn_writes j t) \<subseteq> T" "fst ` set (concat (map (txn_writes j) ts)) \<subseteq> T"
    using Cons.prems(8) by auto
  have there: "log_there env j T fs0 p (txn_blocks t)" "log_there env j T fs0 ?p (concat (map txn_blocks ts))"
    using Cons.prems(10) by (simp_all add: log_there_append)
  have len: "length (txn_blocks t) \<le> unat (j_last j) - unat (j_first j)"
    "length (concat (map txn_blocks ts)) \<le> unat (j_last j) - unat (j_first j)" using Cons.prems(9) by simp_all
  have k: "k < n" "Suc k + length ts = n" using Cons.prems(2) by simp_all
  obtain s1 where s1: "pass_steps env pass s s1" "pass_at j (Suc k) ?p en ?j ?fs s1"
    using txn_steps[OF Cons.prems(1) reach Cons.prems(5,6) ok(1) T(1) len(1) there(1) Cons.prems(11) Cons.prems(12)[OF _ k(1)]]
    by blast
  have rp: "journal_test_revoke (je_shl env) ?j b (?seq + of_nat i) = skip i b" if "pass = PASS_REPLAY" "i < n" for i b
    using Cons.prems(12)[OF that] that(1) by (simp add: journal_after_def)
  obtain s2 where "pass_steps env pass s1 s2" "pass_at j n (advance j (length (concat (map txn_blocks ts))) ?p) en
      (if pass = PASS_REVOKE then rv.set_all (je_shl env) ?seq (revocations j (Suc k) ts) ?j else ?j)
      (if pass = PASS_REPLAY then apply_txns env j skip (Suc k) ts ?fs else ?fs) s2"
    using Cons.IH[OF s1(2) k(2) Cons.prems(3,4,5) advance_ring[OF Cons.prems(6)] ok(2) T(2) len(2) there(2)
        fs_after_agree[OF Cons.prems(11) T(1)] rp] by blast
  then show ?case using pass_steps_trans[OF s1(1), of s2]
    by (intro exI[of _ s2]) (auto simp: advance_add revocations_Cons set_all_txn journal_after_def fs_after_def)
qed

section \<open>The passes\<close>

lemma scan_ends:
  assumes "pass_at j n p 0 j' fs s" "jread env j fs (ucast p) = Inr e" "log_end (s_sequence (j_superblock j) + of_nat n) e"
  shows "\<exists>s'. pass_loop env PASS_SCAN s = Some (None, s') \<and> ps_journal s' = j' \<and> ps_fs s' = fs \<and>
    end_transaction (ps_info s') = s_sequence (j_superblock j) + of_nat n"
proof -
  note a = assms(1)[unfolded pass_at_def]
  have l: "same_layout j' j" using a by simp
  have "pass_iteration env PASS_SCAN s = Finished (s\<lparr>ps_next_log_block := wrap j (p + 1)\<rparr>)"
    using a assms(2,3) by (auto simp: pass_iteration_def log_end_def Let_def layout_cong[OF l])
  then show ?thesis using a by (subst pass_loop.simps) (simp add: pass_done_def Let_def)
qed

lemma later_pass_ends:
  assumes "pass_at j n p en j' fs s" "en = s_sequence (j_superblock j) + of_nat n" "pass \<noteq> PASS_SCAN" "n < 2 ^ 31"
  shows "\<exists>s'. pass_loop env pass s = Some (None, s') \<and> ps_journal s' = j' \<and> ps_fs s' = fs \<and> end_transaction (ps_info s') = en"
proof -
  note a = assms(1)[unfolded pass_at_def]
  have "tid_geq en en" unfolding assms(2) by (subst tid_window(2)) (use assms(4) in auto)
  then have "pass_iteration env pass s = Finished s" using a assms(2,3) by (simp add: pass_iteration_def)
  then show ?thesis using a assms(2,3) by (subst pass_loop.simps) (simp add: pass_done_def Let_def)
qed

text \<open>A journal with a log of transactions \<open>ts\<close> that ends at \<open>e\<close>.\<close>

definition log_targets :: "journal \<Rightarrow> transaction list \<Rightarrow> u64 set" where
  "log_targets j ts = fst ` set (concat (map (txn_writes j) ts))"

definition log_blocks :: "transaction list \<Rightarrow> u8 list list" where
  "log_blocks ts = concat (map txn_blocks ts)"

definition log_ok :: "jenv \<Rightarrow> journal \<Rightarrow> fs_contents \<Rightarrow> transaction list \<Rightarrow> u8 list \<Rightarrow> bool" where
  "log_ok env j fs ts e \<longleftrightarrow>
     s_start (j_superblock j) \<noteq> 0 \<and> in_ring j (ucast (s_start (j_superblock j))) \<and> setting_ok env j (log_targets j ts) \<and>
     length ts < 2 ^ 31 \<and> length (log_blocks ts) \<le> unat (j_last j) - unat (j_first j) \<and>
     txns_ok env j (s_sequence (j_superblock j)) ts \<and> log_end (s_sequence (j_superblock j) + of_nat (length ts)) e \<and>
     log_there env j (log_targets j ts) fs (ucast (s_start (j_superblock j))) (log_blocks ts @ [e])"

text \<open>The state at the start of a pass.\<close>

lemma pass_start:
  assumes "same_layout j' j"
  shows "pass_at j 0 (ucast (s_start (j_superblock j))) (end_transaction info) j' fs
    \<lparr>ps_next_commit_ID = s_sequence (j_superblock j'), ps_next_log_block = ucast (s_start (j_superblock j')), ps_success = None,
     ps_crc32_sum = crc, ps_block_error = False, ps_journal = j', ps_info = info, ps_fs = fs\<rparr>"
  using assms by (simp add: pass_at_def same_layout_def)

lemma log_steps0:
  assumes "log_ok env j fs ts e" "pass_at j 0 (ucast (s_start (j_superblock j))) en j' fs s"
    "pass \<noteq> PASS_SCAN \<Longrightarrow> en = s_sequence (j_superblock j) + of_nat (length ts)"
    "\<And>i b. pass = PASS_REPLAY \<Longrightarrow> i < length ts \<Longrightarrow>
      journal_test_revoke (je_shl env) j' b (s_sequence (j_superblock j) + of_nat i) = skip i b"
  shows "\<exists>s'. pass_loop env pass s = pass_loop env pass s' \<and>
    pass_at j (length ts) (advance j (length (log_blocks ts)) (ucast (s_start (j_superblock j)))) en
    (if pass = PASS_REVOKE then rv.set_all (je_shl env) (s_sequence (j_superblock j)) (revocations j 0 ts) j' else j')
    (if pass = PASS_REPLAY then apply_txns env j skip 0 ts fs else fs) s'"
proof -
  let ?p = "ucast (s_start (j_superblock j)) :: u64"
  have l: "length ts < 2 ^ 31" "setting_ok env j (log_targets j ts)" "in_ring j ?p"
    "txns_ok env j (s_sequence (j_superblock j) + of_nat 0) ts"
    "length (concat (map txn_blocks ts)) \<le> unat (j_last j) - unat (j_first j)"
    "log_there env j (log_targets j ts) fs ?p (concat (map txn_blocks ts))"
    using assms(1) by (simp_all add: log_ok_def log_blocks_def log_there_append)
  have "agree_outside (log_targets j ts) fs fs" by (simp add: agree_outside_def)
  then obtain s' where "pass_steps env pass s s'" "pass_at j (length ts) (advance j (length (log_blocks ts)) ?p) en
    (if pass = PASS_REVOKE then rv.set_all (je_shl env) (s_sequence (j_superblock j)) (revocations j 0 ts) j' else j')
    (if pass = PASS_REPLAY then apply_txns env j skip 0 ts fs else fs) s'"
    using log_steps[OF assms(2) add_0 l(1) assms(3) l(2,3,4) _ l(5,6) _ assms(4)]
    by (auto simp: log_targets_def log_blocks_def)
  then show ?thesis using pass_steps_loop by blast
qed

lemma pass_scan:
  assumes "log_ok env j fs ts e" "end_transaction info = 0"
  shows "\<exists>info'. do_one_pass env PASS_SCAN j info fs = Some (None, j, info', fs) \<and>
    end_transaction info' = s_sequence (j_superblock j) + of_nat (length ts)"
proof -
  let ?info = "info\<lparr>start_transaction := s_sequence (j_superblock j)\<rparr>"
  let ?s = "\<lparr>ps_next_commit_ID = s_sequence (j_superblock j), ps_next_log_block = ucast (s_start (j_superblock j)),
     ps_success = None, ps_crc32_sum = 0xffffffff, ps_block_error = False, ps_journal = j, ps_info = ?info, ps_fs = fs\<rparr>"
  have at: "pass_at j 0 (ucast (s_start (j_superblock j))) 0 j fs ?s"
    using pass_start[OF same_layout_refl, of j ?info fs "0xffffffff"] assms(2) by simp
  obtain s' where s': "pass_loop env PASS_SCAN ?s = pass_loop env PASS_SCAN s'"
    "pass_at j (length ts) (advance j (length (log_blocks ts)) (ucast (s_start (j_superblock j)))) 0 j fs s'"
    using log_steps0[OF assms(1) at, of PASS_SCAN] by auto
  have "jread env j fs (ucast (advance j (length (log_blocks ts)) (ucast (s_start (j_superblock j))))) = Inr e"
    "log_end (s_sequence (j_superblock j) + of_nat (length ts)) e"
    using assms(1) by (auto simp: log_ok_def log_there_append log_there_Cons agree_outside_def)
  from scan_ends[OF s'(2) this] show ?thesis
    using s'(1) by (auto simp: do_one_pass_def Let_def)
qed

lemma pass_later:
  assumes "log_ok env j fs ts e" "end_transaction info = s_sequence (j_superblock j) + of_nat (length ts)"
    "pass \<noteq> PASS_SCAN" "same_layout j' j"
    "\<And>i b. pass = PASS_REPLAY \<Longrightarrow> i < length ts \<Longrightarrow>
      journal_test_revoke (je_shl env) j' b (s_sequence (j_superblock j) + of_nat i) = skip i b"
  shows "\<exists>info'. do_one_pass env pass j' info fs = Some (None,
      if pass = PASS_REVOKE then rv.set_all (je_shl env) (s_sequence (j_superblock j)) (revocations j 0 ts) j' else j', info',
      if pass = PASS_REPLAY then apply_txns env j skip 0 ts fs else fs) \<and>
    end_transaction info' = s_sequence (j_superblock j) + of_nat (length ts)"
proof -
  let ?s = "\<lparr>ps_next_commit_ID = s_sequence (j_superblock j'), ps_next_log_block = ucast (s_start (j_superblock j')),
     ps_success = None, ps_crc32_sum = 0xffffffff, ps_block_error = False, ps_journal = j', ps_info = info, ps_fs = fs\<rparr>"
  note at = pass_start[OF assms(4), of info fs "0xffffffff"]
  obtain s' where s': "pass_loop env pass ?s = pass_loop env pass s'"
    "pass_at j (length ts) (advance j (length (log_blocks ts)) (ucast (s_start (j_superblock j)))) (end_transaction info)
      (if pass = PASS_REVOKE then rv.set_all (je_shl env) (s_sequence (j_superblock j)) (revocations j 0 ts) j' else j')
      (if pass = PASS_REPLAY then apply_txns env j skip 0 ts fs else fs) s'"
    using log_steps0[OF assms(1) at assms(2,5)] by auto
  have "length ts < 2 ^ 31" using assms(1) by (simp add: log_ok_def)
  from later_pass_ends[OF s'(2) assms(2,3) this, of env] show ?thesis
    using s'(1) assms(2,3) by (auto simp: do_one_pass_def Let_def)
qed

section \<open>Recovery\<close>

lemma revocations_mem: "(b, m) \<in> set (revocations j 0 ts) \<longleftrightarrow> m < length ts \<and> b \<in> set (txn_revokes j (ts ! m))"
proof -
  have "zip [0..<length ts] ts = map (\<lambda>i. (i, ts ! i)) [0..<length ts]" by (intro nth_equalityI) auto
  then have "revocations j 0 ts = concat (map (\<lambda>i. map (\<lambda>b. (b, i)) (txn_revokes j (ts ! i))) [0..<length ts])"
    by (simp add: revocations_def comp_def)
  then show ?thesis by auto
qed

lemma set_all_layout: "same_layout j' j \<Longrightarrow> same_layout (rv.set_all shl seq evs j') j"
  by (induction evs arbitrary: j') (auto simp: rv.set_all_def set_revoke_layout)

lemma init_revoke_fresh:
  assumes "journal_init_revoke m j0 sz = Inr (None, j)"
  shows "revoke_ok j \<and> revoked_in shl j = (\<lambda>_. None) \<and> same_layout j j0"
proof -
  have "sz \<noteq> 0" using assms by (auto simp: journal_init_revoke_def is_power_of_2_def split: if_splits)
  then have t: "table_ok \<lparr>hash_size = sz, hash_shift = revoke_shift (unat sz), hash_table = replicate (unat sz) []\<rparr>"
    by (simp add: table_ok_def)
  have j: "current_table j = Table \<lparr>hash_size = sz, hash_shift = revoke_shift (unat sz), hash_table = replicate (unat sz) []\<rparr>"
    and l: "same_layout j j0"
    using assms
    by (auto simp: journal_init_revoke_def journal_init_revoke_table_def Let_def current_table_def same_layout_def
        split: if_splits sum.splits)
  have "revoked_in shl j b = None" for b
    using revoke_hash_less[OF t, of shl b] by (simp add: revoked_in_def j bucket_def list_revoked_def)
  then show ?thesis using j t l by (auto simp: revoke_ok_def)
qed

text \<open>C2: Recovery of a journal with a well-formed log, with a table from \<^verbatim>\<open>journal_init_revoke\<close>, ends without an error of its own, and the
  device then holds the blocks of the committed transactions, written in the order of the log, without those that their own or a
  later transaction revokes. The next transaction number is the one after the end of the log.\<close>

theorem recovery_replays_log:
  assumes "journal_init_revoke m j0 sz = Inr (None, j)" "log_ok env j fs ts e"
  shows "\<exists>j' info. journal_recover env j fs = Some (je_flush env, j', info, apply_txns env j (revoked j ts) 0 ts fs) \<and>
    j_transaction_sequence j' = s_sequence (j_superblock j) + of_nat (length ts) + 1 \<and> revoked_in shl j' = (\<lambda>_. None)"
proof -
  let ?seq = "s_sequence (j_superblock j)" and ?n = "length ts"
  have r: "revoke_ok j" "revoked_in (je_shl env) j = (\<lambda>_. None)" using init_revoke_fresh[OF assms(1)] by auto
  have n: "?n < 2 ^ 31" using assms(2) by (simp add: log_ok_def)
  obtain i1 where 1: "do_one_pass env PASS_SCAN j no_info fs = Some (None, j, i1, fs)" "end_transaction i1 = ?seq + of_nat ?n"
    using pass_scan[OF assms(2), of no_info] by (auto simp: no_info_def)
  define j2 where "j2 = rv.set_all (je_shl env) ?seq (revocations j 0 ts) j"
  obtain i2 where 2: "do_one_pass env PASS_REVOKE j i1 fs = Some (None, j2, i2, fs)" "end_transaction i2 = ?seq + of_nat ?n"
    using pass_later[OF assms(2) 1(2) _ same_layout_refl, of PASS_REVOKE] by (auto simp: j2_def)
  have evs: "\<forall>(b, i) \<in> set (revocations j 0 ts). i < 2 ^ 31" using n by (auto simp: revocations_mem)
  have test: "journal_test_revoke (je_shl env) j2 b (?seq + of_nat i) = revoked j ts i b" if "i < ?n" for i b
    using rv.test_after_sets[OF r evs, of i ?seq b] that n unfolding j2_def revoked_def by (auto simp: revocations_mem)
  have lay: "same_layout j2 j" unfolding j2_def by (rule set_all_layout) simp
  obtain i3 where 3: "do_one_pass env PASS_REPLAY j2 i2 fs = Some (None, j2, i3, apply_txns env j (revoked j ts) 0 ts fs)"
    "end_transaction i3 = ?seq + of_nat ?n"
    using pass_later[OF assms(2) 2(2) _ lay, of PASS_REPLAY "revoked j ts"] test by auto
  let ?j3 = "journal_clear_revoke (j2\<lparr>j_transaction_sequence := ?seq + of_nat ?n + 1\<rparr>)"
  have "revoke_ok j2" unfolding j2_def using rv.set_all_at[OF r evs] by blast
  moreover have "current_table (j2\<lparr>j_transaction_sequence := x\<rparr>) = current_table j2" for x
    by (simp add: current_table_def split: option.split bool.split)
  ultimately have ok3: "revoke_ok (j2\<lparr>j_transaction_sequence := ?seq + of_nat ?n + 1\<rparr>)"
    by (simp add: revoke_ok_def)
  have "j_transaction_sequence ?j3 = ?seq + of_nat ?n + 1" by (auto simp: journal_clear_revoke_def split: table_ptr.splits)
  moreover have "revoked_in shl ?j3 = (\<lambda>_. None)" using rv.clear_at[OF ok3] by simp
  moreover have "s_start (j_superblock j) \<noteq> 0" using assms(2) by (simp add: log_ok_def)
  ultimately show ?thesis
    using 1(1) 2(1) 3 by (simp add: journal_recover_def Let_def)
qed

text \<open>
  A journal on a device of its own, of 11 log blocks of 40 bytes. The log starts at block 9, wraps, and its transaction numbers wrap too:
  transaction \<open>2 ^ 32 - 1\<close> writes blocks 100 and 101, transaction 0 revokes 101 and writes an escaped block to 102.
\<close>

definition pad40 :: "u8 list \<Rightarrow> u8 list" where
  "pad40 bs = bs @ replicate (40 - length bs) 0"

definition demo_header :: "u32 \<Rightarrow> u32 \<Rightarrow> u8 list" where
  "demo_header ty seq = be32_bytes JFS_MAGIC_NUMBER @ be32_bytes ty @ be32_bytes seq"

definition demo_tag :: "u32 \<Rightarrow> u8 \<Rightarrow> u8 list" where
  "demo_tag blk flags = be32_bytes blk @ [0, 0, 0, flags]"

definition demo_txns :: "transaction list" where
  "demo_txns =
     [([Data (pad40 (demo_header 1 0xffffffff @ demo_tag 100 2 @ demo_tag 101 10)) [replicate 40 7, replicate 40 8]],
       pad40 (demo_header 2 0xffffffff)),
      ([Revocations (pad40 (demo_header 5 0 @ be32_bytes 20 @ be32_bytes 101)),
        Data (pad40 (demo_header 1 0 @ demo_tag 102 11)) [replicate 40 9]],
       pad40 (demo_header 2 0))]"

definition demo_end :: "u8 list" where
  "demo_end = replicate 40 0"

definition demo_device :: "u8 list list" where
  "demo_device =
     (let l = log_blocks demo_txns @ [demo_end]; body = take 11 (l @ replicate 11 demo_end)
      in demo_end # drop 3 body @ take 3 body)"

definition demo_jenv :: jenv where
  "demo_jenv = \<lparr>je_bmap = (\<lambda>o1. Inr (ucast o1)),
     je_read = (\<lambda>_ b. if unat b < length demo_device then Some (demo_device ! unat b) else None),
     je_getblk = (\<lambda>_. True), je_write = (\<lambda>_. True), je_flush = None, je_crc32c = (\<lambda>c _. c), je_crc32_be = (\<lambda>c _. c),
     je_shl = (\<lambda>w n. push_bit (nat (n mod 32)) w)\<rparr>"

definition demo_journal0 :: journal where
  "demo_journal0 = \<lparr>j_superblock = \<lparr>s_sequence = 0xffffffff, s_start = 9, sj_feature_compat = 0, sj_feature_incompat = 1\<rparr>,
     j_format_version = 2, j_tail = 0, j_first = 1, j_last = 12, j_blocksize = 40, j_maxlen = 12, j_transaction_sequence = 0,
     j_revoke = None, j_revoke_table0 = Null, j_revoke_table1 = Null, j_failed_commit = 0, j_csum_seed = 0\<rparr>"

definition demo_journal :: journal where
  "demo_journal = (case journal_init_revoke ((True, True), (True, True)) demo_journal0 16 of Inr (_, j) \<Rightarrow> j)"

lemma log_there_fixed:
  assumes "\<And>fs'. jread env j fs' = jread env j fs" "log_reads (\<lambda>q. jread env j fs (ucast q)) j p bs"
  shows "log_there env j T fs p bs"
  unfolding log_there_def by (subst assms(1)) (simp add: assms(2))

lemma demo_log_ok: "log_ok demo_jenv demo_journal (\<lambda>_. []) demo_txns demo_end"
proof -
  have f: "s_start (j_superblock demo_journal) = 9" "s_sequence (j_superblock demo_journal) = 0xffffffff" "j_last demo_journal = 12"
    "j_first demo_journal = 1" "length demo_txns = 2" "length (log_blocks demo_txns) = 8"
    "in_ring demo_journal 9" "\<not> compat_checksum demo_journal"
    "txns_ok demo_jenv demo_journal 0xffffffff demo_txns" "log_end (0xffffffff + 2) demo_end"
    "log_reads (\<lambda>q. jread demo_jenv demo_journal (\<lambda>_. []) (ucast q)) demo_journal 9 (log_blocks demo_txns @ [demo_end])"
    by code_simp+
  have "jread demo_jenv demo_journal fs' = jread demo_jenv demo_journal (\<lambda>_. [])" for fs'
    by (simp add: jread_def demo_jenv_def fun_eq_iff)
  then have "log_there demo_jenv demo_journal (log_targets demo_journal demo_txns) (\<lambda>_. []) 9 (log_blocks demo_txns @ [demo_end])"
    by (rule log_there_fixed) (rule f(11))
  then show ?thesis using f by (simp add: log_ok_def setting_ok_def demo_jenv_def)
qed

theorem recovery_replays_log_witness:
  "\<exists>j' info fs'. journal_recover demo_jenv demo_journal (\<lambda>_. []) = Some (None, j', info, fs') \<and>
     j_transaction_sequence j' = 2 \<and>
     map fs' [100, 101, 102] = [replicate 40 7, [], be32_bytes JFS_MAGIC_NUMBER @ replicate 36 9]"
proof -
  have 1: "journal_init_revoke ((True, True), (True, True)) demo_journal0 16 = Inr (None, demo_journal)" by code_simp
  have 2: "map (apply_txns demo_jenv demo_journal (revoked demo_journal demo_txns) 0 demo_txns (\<lambda>_. [])) [100, 101, 102] =
      [replicate 40 7, [], be32_bytes JFS_MAGIC_NUMBER @ replicate 36 9]"
    and 3: "s_sequence (j_superblock demo_journal) + of_nat (length demo_txns) + 1 = 2" and 4: "je_flush demo_jenv = None"
    by code_simp+
  obtain j' info where "journal_recover demo_jenv demo_journal (\<lambda>_. []) = Some (None, j', info,
      apply_txns demo_jenv demo_journal (revoked demo_journal demo_txns) 0 demo_txns (\<lambda>_. []))" "j_transaction_sequence j' = 2"
    using recovery_replays_log[OF 1 demo_log_ok, of "je_shl demo_jenv"] unfolding 3 4 by blast
  then show ?thesis using 2 by (intro exI conjI)
qed

section \<open>Any log\<close>

text \<open>
  A block of data the journal vouches for: with the device in state \<open>fs1\<close> the log has a descriptor with a good checksum
  whose tag \<open>p\<close> names block \<open>b\<close>, and with the device in state \<open>fs2\<close> it has a data block with the checksum of that
  tag; \<open>c\<close> is that data, unescaped. \<open>log_writes\<close> says of a sequence of writes to the device \<open>fs\<close> that each is such a block,
  read when exactly the writes before it were done, under a descriptor read when some of them were.
\<close>

definition logged :: "jenv \<Rightarrow> journal \<Rightarrow> fs_contents \<Rightarrow> fs_contents \<Rightarrow> u64 \<Rightarrow> u8 list \<Rightarrow> bool" where
  "logged env j fs1 fs2 b c \<longleftrightarrow>
     (\<exists>q1 q2 d p obh. jread env j fs1 q1 = Inr d \<and> be32 d 0 = JFS_MAGIC_NUMBER \<and> be32 d 4 = 1 \<and>
        jbd2_descr_block_csum_verify env j d \<and> p \<in> set (tags j d) \<and> read_tag_block j d p = b \<and>
        jread env j fs2 q2 = Inr obh \<and> jbd2_block_tag_csum_verify env j d p obh (be32 d 8) \<and> c = restored (tag_flags d p) obh)"

definition device_after :: "jenv \<Rightarrow> (u64 \<times> u8 list) list \<Rightarrow> fs_contents \<Rightarrow> fs_contents" where
  "device_after env ws fs = fold (\<lambda>(b, c). write_block env b c) ws fs"

definition log_writes :: "jenv \<Rightarrow> journal \<Rightarrow> fs_contents \<Rightarrow> (u64 \<times> u8 list) list \<Rightarrow> bool" where
  "log_writes env j fs ws \<longleftrightarrow>
     (\<forall>n<length ws. \<exists>m\<le>n. logged env j (device_after env (take m ws) fs) (device_after env (take n ws) fs)
        (fst (ws ! n)) (snd (ws ! n)))"

lemma device_after_append: "device_after env (ws @ vs) fs = device_after env vs (device_after env ws fs)"
  by (simp add: device_after_def)

lemma device_after_Nil [simp]: "device_after env [] fs = fs"
  by (simp add: device_after_def)

lemma device_after_snoc: "device_after env (ws @ [(b, c)]) fs = write_block env b c (device_after env ws fs)"
  by (simp add: device_after_def)

lemma log_writes_Nil [simp]: "log_writes env j fs []"
  by (simp add: log_writes_def)

lemma log_writes_append:
  assumes "log_writes env j fs ws" "log_writes env j (device_after env ws fs) vs"
  shows "log_writes env j fs (ws @ vs)"
  unfolding log_writes_def
proof (intro allI impI)
  fix n assume n: "n < length (ws @ vs)"
  show "\<exists>m\<le>n. logged env j (device_after env (take m (ws @ vs)) fs) (device_after env (take n (ws @ vs)) fs)
    (fst ((ws @ vs) ! n)) (snd ((ws @ vs) ! n))"
  proof (cases "n < length ws")
    case True
    then obtain m where "m \<le> n" "logged env j (device_after env (take m ws) fs) (device_after env (take n ws) fs)
        (fst (ws ! n)) (snd (ws ! n))"
      using assms(1) by (auto simp: log_writes_def)
    with True show ?thesis by (intro exI[of _ m]) (simp add: nth_append)
  next
    case False
    let ?n = "n - length ws"
    have "?n < length vs" using False n by simp
    then obtain m where "m \<le> ?n" "logged env j (device_after env (take m vs) (device_after env ws fs))
        (device_after env (take ?n vs) (device_after env ws fs)) (fst (vs ! ?n)) (snd (vs ! ?n))"
      using assms(2) unfolding log_writes_def by blast
    with False show ?thesis
      by (intro exI[of _ "length ws + m"]) (auto simp: nth_append device_after_append)
  qed
qed

lemma log_writes_snoc:
  assumes "log_writes env j fs ws" "logged env j fs (device_after env ws fs) b c"
  shows "log_writes env j fs (ws @ [(b, c)])"
  unfolding log_writes_def
proof (intro allI impI)
  fix n assume n: "n < length (ws @ [(b, c)])"
  show "\<exists>m\<le>n. logged env j (device_after env (take m (ws @ [(b, c)])) fs) (device_after env (take n (ws @ [(b, c)])) fs)
    (fst ((ws @ [(b, c)]) ! n)) (snd ((ws @ [(b, c)]) ! n))"
  proof (cases "n < length ws")
    case True
    then obtain m where "m \<le> n" "logged env j (device_after env (take m ws) fs) (device_after env (take n ws) fs)
        (fst (ws ! n)) (snd (ws ! n))"
      using assms(1) by (auto simp: log_writes_def)
    with True show ?thesis by (intro exI[of _ m]) (simp add: nth_append)
  next
    case False
    with n assms(2) have "n = length ws" by simp
    with assms(2) show ?thesis by (intro exI[of _ 0]) simp
  qed
qed

definition only_logged :: "jenv \<Rightarrow> journal \<Rightarrow> pass_state \<Rightarrow> pass_state \<Rightarrow> bool" where
  "only_logged env j s s' \<longleftrightarrow> same_layout (ps_journal s') j \<and>
     (\<exists>ws. log_writes env j (ps_fs s) ws \<and> ps_fs s' = device_after env ws (ps_fs s))"

lemma only_logged_quiet: "same_layout (ps_journal s') j \<Longrightarrow> ps_fs s' = ps_fs s \<Longrightarrow> only_logged env j s s'"
  unfolding only_logged_def by (intro conjI exI[of _ "[]"]) simp_all

lemma only_logged_refl: "same_layout (ps_journal s) j \<Longrightarrow> only_logged env j s s"
  by (rule only_logged_quiet) simp_all

lemma only_logged_trans: "only_logged env j s s1 \<Longrightarrow> only_logged env j s1 s2 \<Longrightarrow> only_logged env j s s2"
  unfolding only_logged_def by (metis log_writes_append device_after_append)

text \<open>The tags of one descriptor, which was read when the device was \<open>fs\<close>; the writes done since are \<open>ws\<close>.\<close>

definition since :: "jenv \<Rightarrow> journal \<Rightarrow> fs_contents \<Rightarrow> pass_state \<Rightarrow> bool" where
  "since env j fs s \<longleftrightarrow> same_layout (ps_journal s) j \<and> (\<exists>ws. log_writes env j fs ws \<and> ps_fs s = device_after env ws fs)"

lemma replay_list_logged:
  assumes "jread env j fs q1 = Inr d" "be32 d 0 = JFS_MAGIC_NUMBER" "be32 d 4 = 1"
    "jbd2_descr_block_csum_verify env j d"
  shows "since env j fs s \<Longrightarrow> set ps \<subseteq> set (tags j d) \<Longrightarrow>
    case replay_list env d ps s of Inl (e, s') \<Rightarrow> since env j fs s' | Inr s' \<Rightarrow> since env j fs s'"
proof (induction ps arbitrary: s)
  case Nil
  then show ?case by simp
next
  case (Cons p ps)
  obtain ws where ws: "same_layout (ps_journal s) j" "log_writes env j fs ws" "ps_fs s = device_after env ws fs"
    using Cons.prems(1) by (auto simp: since_def)
  note l = layout_cong[OF ws(1)]
  have quiet: "since env j fs s'" if "ps_journal s' = ps_journal s" "ps_fs s' = ps_fs s" for s'
    using that ws by (auto simp: since_def)
  have one: "case replay_tag env d p s of Inl (e, s') \<Rightarrow> since env j fs s' | Inr s' \<Rightarrow> since env j fs s'"
  proof (cases "jread env j (ps_fs s) (ucast (ps_next_log_block s))")
    case (Inl e)
    then show ?thesis by (auto simp: replay_tag_def l intro: quiet)
  next
    case (Inr obh)
    let ?w = "(read_tag_block j d p, restored (tag_flags d p) obh)"
    have "since env j fs s'"
      if "jbd2_block_tag_csum_verify env j d p obh (be32 d 8)" "ps_journal s' = ps_journal s"
        "ps_fs s' = write_block env (fst ?w) (snd ?w) (ps_fs s)" for s'
    proof -
      have "logged env j fs (device_after env ws fs) (fst ?w) (snd ?w)"
        unfolding logged_def using assms Cons.prems(2) Inr ws(3) that(1)
        by (intro exI[of _ q1] exI[of _ "ucast (ps_next_log_block s)"] exI[of _ d] exI[of _ p] exI[of _ obh]) simp
      from log_writes_snoc[OF ws(2) this] show ?thesis
        unfolding since_def using that(2,3) ws(1,3) by (auto simp: device_after_snoc intro!: exI[of _ "ws @ [?w]"])
    qed
    then show ?thesis using Inr
      by (auto simp: replay_tag_def l Let_def intro: quiet)
  qed
  then show ?case using Cons.IH Cons.prems(2)
    by (cases "replay_tag env d p s") (auto split: sum.splits)
qed

fun iteration_state :: "iteration \<Rightarrow> pass_state" where
  "iteration_state (Go_on s) = s"
| "iteration_state (Finished s) = s"
| "iteration_state (Failed e s) = s"

lemma calc_chksums_quiet:
  "ps_fs (snd (calc_chksums_loop env n s)) = ps_fs s \<and> ps_journal (snd (calc_chksums_loop env n s)) = ps_journal s"
  by (induction n arbitrary: s) (simp_all add: Let_def split: sum.split)

lemma iteration_logged:
  assumes "same_layout (ps_journal s) j"
  shows "only_logged env j s (iteration_state (pass_iteration env pass s))"
proof -
  note l = layout_cong[OF assms]
  have quiet: "only_logged env j s (s\<lparr>ps_next_log_block := q\<rparr>)" for q using assms by (intro only_logged_quiet) simp_all
  show ?thesis
  proof (cases "jread env j (ps_fs s) (ucast (ps_next_log_block s))")
    case (Inl e)
    then show ?thesis using assms by (simp add: pass_iteration_def l only_logged_refl)
  next
    case (Inr d)
    let ?s = "s\<lparr>ps_next_log_block := wrap j (ps_next_log_block s + 1)\<rparr>"
    have s: "same_layout (ps_journal ?s) j" using assms by simp
    have "only_logged env j ?s (iteration_state (commit_block env pass d ?s))"
      using s by (intro only_logged_quiet) (auto simp: commit_block_def commit_checksum_def Let_def same_layout_def)
    moreover have "only_logged env j ?s (iteration_state (revoke_block env pass d ?s))"
    proof (cases "pass = PASS_REVOKE")
      case True
      obtain info where "scan_records env (record_len j) (unat (be32 d 12)) d 16 (ps_next_commit_ID s) ?s =
          ?s\<lparr>ps_journal := fold (\<lambda>blk j. journal_set_revoke (je_shl env) j blk (ps_next_commit_ID s))
               (revoked_blocks j d) (ps_journal s), ps_info := info\<rparr>"
        using scan_records_fold[of env "record_len j" "unat (be32 d 12)" d 16 "ps_next_commit_ID s" ?s]
        by (auto simp: revoked_blocks_def)
      then show ?thesis using True s set_revokes_layout[OF assms]
        by (auto simp: revoke_block_def scan_revoke_records_def Let_def l simp flip: record_len_def intro!: only_logged_quiet)
    qed (use s in \<open>simp add: revoke_block_def only_logged_refl\<close>)
    moreover have "only_logged env j ?s (iteration_state (descriptor_block env pass d ?s))"
      if "be32 d 0 = JFS_MAGIC_NUMBER" "be32 d 4 = 1"
    proof (cases "journal_has_csum_v2or3 j \<and> \<not> jbd2_descr_block_csum_verify env j d \<or> pass \<noteq> PASS_REPLAY")
      case True
      then show ?thesis using s calc_chksums_quiet[of env]
        by (auto simp: descriptor_block_def calc_chksums_def Let_def l intro!: only_logged_quiet)
    next
      case False
      then have "jbd2_descr_block_csum_verify env j d" by (auto simp: jbd2_descr_block_csum_verify_def)
      moreover have "since env j (ps_fs s) ?s" unfolding since_def using s by (intro conjI exI[of _ "[]"]) simp_all
      ultimately have "case replay_list env d (tags j d) ?s of Inl (e, s') \<Rightarrow> since env j (ps_fs s) s' | Inr s' \<Rightarrow> since env j (ps_fs s) s'"
        using replay_list_logged[OF Inr that] by blast
      then show ?thesis using False
        by (auto simp: descriptor_block_def Let_def l replay_tags_list since_def only_logged_def split: sum.splits simp flip: tags_def)
    qed
    ultimately show ?thesis using Inr assms only_logged_trans[OF quiet] quiet
      by (auto simp: pass_iteration_def l Let_def only_logged_refl)
  qed
qed

lemma pass_loop_logged:
  assumes "pass_loop env pass s = Some r" "same_layout (ps_journal s) j"
  shows "only_logged env j s (snd r)"
proof -
  have "same_layout (ps_journal s) j \<longrightarrow> only_logged env j s (snd r)"
  proof (rule pass_loop.raw_induct[OF _ assms(1), where P = "\<lambda>env pass s r. same_layout (ps_journal s) j \<longrightarrow> only_logged env j s (snd r)"])
    fix loop env pass s r
    assume IH: "\<And>env pass s r. loop env pass s = Some r \<Longrightarrow> same_layout (ps_journal s) j \<longrightarrow> only_logged env j s (snd r)"
      and st: "(case pass_iteration env pass s of Go_on s' \<Rightarrow> loop env pass s' | Finished s' \<Rightarrow> Some (pass_done pass s')
        | Failed e s' \<Rightarrow> Some (Some e, s')) = Some r"
    show "same_layout (ps_journal s) j \<longrightarrow> only_logged env j s (snd r)"
    proof
      assume s: "same_layout (ps_journal s) j"
      note it = iteration_logged[OF s, of env pass]
      show "only_logged env j s (snd r)"
      proof (cases "pass_iteration env pass s")
        case (Go_on s1)
        then have s1: "only_logged env j s s1" using it by simp
        then have "only_logged env j s1 (snd r)" using IH[of env pass s1 r] st Go_on by (simp add: only_logged_def)
        then show ?thesis by (rule only_logged_trans[OF s1])
      next
        case (Finished s1)
        then have "r = pass_done pass s1" "only_logged env j s s1" using st it by simp_all
        then show ?thesis by (simp add: pass_done_def Let_def only_logged_def)
      qed (use st it in auto)
    qed
  qed
  then show ?thesis using assms(2) by simp
qed

definition logged_since :: "jenv \<Rightarrow> journal \<Rightarrow> fs_contents \<Rightarrow> journal \<Rightarrow> fs_contents \<Rightarrow> bool" where
  "logged_since env j fs j' fs' \<longleftrightarrow> same_layout j' j \<and> (\<exists>ws. log_writes env j fs ws \<and> fs' = device_after env ws fs)"

lemma one_pass_logged:
  assumes "do_one_pass env pass j1 info fs1 = Some (err, j', info', fs')" "logged_since env j fs j1 fs1"
  shows "logged_since env j fs j' fs'"
proof -
  obtain s r where sr: "pass_loop env pass s = Some r" "ps_journal s = j1" "ps_fs s = fs1"
    "j' = ps_journal (snd r)" "fs' = ps_fs (snd r)"
    using assms(1) by (fastforce simp: do_one_pass_def Let_def)
  obtain ws where ws: "same_layout j1 j" "log_writes env j fs ws" "fs1 = device_after env ws fs"
    using assms(2) by (auto simp: logged_since_def)
  obtain vs where "same_layout j' j" "log_writes env j fs1 vs" "fs' = device_after env vs fs1"
    using pass_loop_logged[of env pass s r j] sr ws(1) by (auto simp: only_logged_def)
  moreover from this have "log_writes env j fs (ws @ vs)" using log_writes_append[OF ws(2)] ws(3) by simp
  ultimately show ?thesis unfolding logged_since_def using ws(3)
    by (intro conjI exI[of _ "ws @ vs"]) (simp_all add: device_after_append)
qed

lemma next_pass_logged:
  assumes "(case r of (None, j1, info, fs1) \<Rightarrow> do_one_pass env pass j1 info fs1 | (Some e, j1, info, fs1) \<Rightarrow> Some r) = Some (err, j', info', fs')"
    "r = (e0, j0, i0, fs0)" "logged_since env j fs j0 fs0"
  shows "logged_since env j fs j' fs'"
  using assms one_pass_logged[of env pass j0 i0 fs0 err j' info' fs' j fs]
  by (cases e0) simp_all



lemma scan_forever:
  assumes "pass_loop env pass s = Some r" "pass = PASS_SCAN" "same_layout (ps_journal s) j" "in_ring j (ps_next_log_block s)"
    and "\<And>q fs. in_ring j q \<Longrightarrow> \<exists>b. jread env j fs (ucast q) = Inr b \<and> header_is b 5 (ps_next_commit_ID s)"
  shows False
proof -
  let ?stuck = "\<lambda>env pass s. pass = PASS_SCAN \<and> same_layout (ps_journal s) j \<and> in_ring j (ps_next_log_block s) \<and>
    (\<forall>q fs. in_ring j q \<longrightarrow> (\<exists>b. jread env j fs (ucast q) = Inr b \<and> header_is b 5 (ps_next_commit_ID s)))"
  have "\<not> ?stuck env pass s"
  proof (rule pass_loop.raw_induct[OF _ assms(1), where P = "\<lambda>env pass s r. \<not> ?stuck env pass s"])
    fix loop env pass s r
    assume IH: "\<And>env pass s r. loop env pass s = Some r \<Longrightarrow> \<not> ?stuck env pass s"
      and st: "(case pass_iteration env pass s of Go_on s' \<Rightarrow> loop env pass s' | Finished s' \<Rightarrow> Some (pass_done pass s')
        | Failed e s' \<Rightarrow> Some (Some e, s')) = Some r"
    show "\<not> ?stuck env pass s"
    proof
      assume a: "?stuck env pass s"
      let ?s = "s\<lparr>ps_next_log_block := wrap j (ps_next_log_block s + 1)\<rparr>"
      note l = layout_cong[OF conjunct1[OF conjunct2[OF a]]]
      obtain b where "jread env j (ps_fs s) (ucast (ps_next_log_block s)) = Inr b" "header_is b 5 (ps_next_commit_ID s)"
        using a by blast
      then have "pass_iteration env pass s = Go_on ?s"
        using a by (simp add: pass_iteration_def l Let_def header_is_def revoke_block_def)
      then have "\<not> ?stuck env pass ?s" using IH[of env pass ?s r] st by simp
      moreover have "?stuck env pass ?s" using a wrap_succ_ring[of j "ps_next_log_block s"] by simp
      ultimately show False by blast
    qed
  qed
  then show False using assms(2-5) by blast
qed

text \<open>C35: A journal whose log blocks all are revoke blocks of the first transaction keeps recovery in its first pass forever: nothing
  limits the scan to one round of the log.\<close>

theorem recovery_may_not_end:
  assumes "s_start (j_superblock j) \<noteq> 0" "in_ring j (ucast (s_start (j_superblock j)))"
    and "\<And>q fs. in_ring j q \<Longrightarrow> \<exists>b. jread env j fs (ucast q) = Inr b \<and> header_is b 5 (s_sequence (j_superblock j))"
  shows "journal_recover env j fs = None"
proof -
  let ?s = "\<lparr>ps_next_commit_ID = s_sequence (j_superblock j), ps_next_log_block = ucast (s_start (j_superblock j)), ps_success = None,
     ps_crc32_sum = 0xffffffff, ps_block_error = False, ps_journal = j,
     ps_info = no_info\<lparr>start_transaction := s_sequence (j_superblock j)\<rparr>, ps_fs = fs\<rparr>"
  have "pass_loop env PASS_SCAN ?s = None"
    using scan_forever[of env PASS_SCAN ?s _ j] assms(2,3) by (cases "pass_loop env PASS_SCAN ?s") auto
  then show ?thesis using assms(1) by (simp add: journal_recover_def do_one_pass_def Let_def)
qed

definition loop_jenv :: jenv where
  "loop_jenv = demo_jenv\<lparr>je_read := (\<lambda>_ _. Some (pad40 (demo_header 5 0xffffffff)))\<rparr>"

theorem recovery_may_not_end_witness: "journal_recover loop_jenv demo_journal (\<lambda>_. []) = None"
proof (rule recovery_may_not_end)
  have f: "s_start (j_superblock demo_journal) = 9" "s_sequence (j_superblock demo_journal) = 0xffffffff"
    "j_maxlen demo_journal = 12" "j_last demo_journal = 12" "header_is (pad40 (demo_header 5 0xffffffff)) 5 0xffffffff"
    "in_ring demo_journal 9"
    by code_simp+
  show "s_start (j_superblock demo_journal) \<noteq> 0" "in_ring demo_journal (ucast (s_start (j_superblock demo_journal)))"
    using f by simp_all
  fix q :: u64 and fs
  assume "in_ring demo_journal q"
  then have "unat q < 12" using f(4) by (simp add: in_ring_def word_less_nat_alt)
  then have "(ucast q :: u32) < 12" by (simp add: word_less_nat_alt unsigned_ucast_eq unsigned_take_bit_eq take_bit_nat_eq_self)
  then have "jread loop_jenv demo_journal fs (ucast q) = Inr (pad40 (demo_header 5 0xffffffff))"
    using f(3) by (simp add: jread_def loop_jenv_def demo_jenv_def not_le)
  then show "\<exists>b. jread loop_jenv demo_journal fs (ucast q) = Inr b \<and> header_is b 5 (s_sequence (j_superblock demo_journal))"
    using f(2,5) by simp
qed

end
