(* ===== verification/Alloc.thy ===== *)
theory Alloc
  imports Bitmaps
begin

text \<open>
  \<^verbatim>\<open>lib/ext2fs/alloc.c\<close> and \<^verbatim>\<open>lib/ext2fs/alloc_stats.c\<close>: finding free blocks, ranges and inodes in the bitmaps of a file system, and keeping the counts
  of free blocks and inodes in the group descriptors and the superblock. The search functions work on the bitmaps
  of \<open>Gen_Bitmap64\<close>, the counts on the descriptor fields of \<open>Blknum\<close>.

  Parameters: \<open>gd_csum\<close> calculates the checksum of a group descriptor (\<^verbatim>\<open>ext2fs_group_desc_csum\<close>); \<open>gab\<close> is the client's \<^verbatim>\<open>get_alloc_block\<close>
  handler, if one is set; the result of writing zeroes to a block and of reading the bitmap from the device are given.
  The handlers that only observe (\<^verbatim>\<open>block_alloc_stats\<close>) do not change the file system and are left out.
\<close>

unbundle bit_operations_syntax

section \<open>State\<close>

record 'p alloc_fs =
  af_fs :: ext2_filsys
  af_block_map :: "'p bitmap_ptr"
  af_inode_map :: "'p bitmap_ptr"
  af_bb_dirty :: bool
  af_ib_dirty :: bool

type_synonym gd_csum = "ext2_filsys \<Rightarrow> u32 \<Rightarrow> u16"

definition EXT2_BG_INODE_UNINIT :: u16 where "EXT2_BG_INODE_UNINIT = 1"
definition EXT2_BG_BLOCK_UNINIT :: u16 where "EXT2_BG_BLOCK_UNINIT = 2"

definition ext2fs_has_group_desc_csum :: "ext2_filsys \<Rightarrow> bool" where
  "ext2fs_has_group_desc_csum fs \<longleftrightarrow> s_feature_ro_compat (fs_super fs) AND 0x0410 \<noteq> 0"

definition ext2fs_group_desc_csum_set :: "gd_csum \<Rightarrow> ext2_filsys \<Rightarrow> u32 \<Rightarrow> ext2_filsys" where
  "ext2fs_group_desc_csum_set csum fs grp =
     (if \<not> ext2fs_has_group_desc_csum fs then fs else ext2fs_bg_checksum_set fs grp (csum fs grp))"

definition ext2fs_mark_super_dirty :: "ext2_filsys \<Rightarrow> ext2_filsys" where
  "ext2fs_mark_super_dirty fs = fs\<lparr>fs_super_dirty := True\<rparr>"

definition ext2fs_group_of_ino :: "ext2_filsys \<Rightarrow> u32 \<Rightarrow> u32" where
  "ext2fs_group_of_ino fs ino = (ino - 1) div s_inodes_per_group (fs_super fs)"

definition EXT2_FIRST_INODE :: "ext2_super_block \<Rightarrow> u32" where
  "EXT2_FIRST_INODE s = (if s_rev_level s = 0 then 11 else s_first_ino s)"

definition EXT2FS_CLUSTER_RATIO :: "ext2_filsys \<Rightarrow> u64" where
  "EXT2FS_CLUSTER_RATIO fs = push_bit (fs_cluster_ratio_bits fs) 1"

section \<open>Allocation statistics\<close>

definition ext2fs_inode_alloc_stats2 ::
  "('p, 'm) bitmap_ops \<Rightarrow> gd_csum \<Rightarrow> 'p alloc_fs \<Rightarrow> u32 \<Rightarrow> int \<Rightarrow> bool \<Rightarrow> 'p alloc_fs" where
  "ext2fs_inode_alloc_stats2 ops csum af ino inuse isdir =
     (let fs = af_fs af; grp = ext2fs_group_of_ino fs ino
      in if ino > s_inodes_count (fs_super fs) then af
         else
           let imap = (if inuse > 0 then snd (ext2fs_mark_generic_bmap ops (af_inode_map af) (ucast ino))
                       else snd (ext2fs_unmark_generic_bmap ops (af_inode_map af) (ucast ino)));
               fs = ext2fs_bg_free_inodes_count_set fs grp (ext2fs_bg_free_inodes_count fs grp - word_of_int inuse);
               fs = (if isdir then ext2fs_bg_used_dirs_count_set fs grp (ext2fs_bg_used_dirs_count fs grp + word_of_int inuse)
                     else fs);
               fs = ext2fs_bg_flags_clear fs grp EXT2_BG_INODE_UNINIT;
               ipg = s_inodes_per_group (fs_super fs);
               fs = (if ext2fs_has_group_desc_csum fs then
                       let first_unused_inode = ipg - ext2fs_bg_itable_unused fs grp + grp * ipg + 1;
                           fs = (if ino \<ge> first_unused_inode
                                 then ext2fs_bg_itable_unused_set fs grp (grp * ipg + ipg - ino) else fs)
                       in ext2fs_group_desc_csum_set csum fs grp
                     else fs);
               sb = fs_super fs;
               fs = fs\<lparr>fs_super := sb\<lparr>s_free_inodes_count := s_free_inodes_count sb - word_of_int inuse\<rparr>\<rparr>
           in af\<lparr>af_fs := ext2fs_mark_super_dirty fs, af_inode_map := imap, af_ib_dirty := True\<rparr>)"

definition ext2fs_inode_alloc_stats ::
  "('p, 'm) bitmap_ops \<Rightarrow> gd_csum \<Rightarrow> 'p alloc_fs \<Rightarrow> u32 \<Rightarrow> int \<Rightarrow> 'p alloc_fs" where
  "ext2fs_inode_alloc_stats ops csum af ino inuse = ext2fs_inode_alloc_stats2 ops csum af ino inuse False"

definition ext2fs_block_alloc_stats2 ::
  "('p, 'm) bitmap_ops \<Rightarrow> gd_csum \<Rightarrow> 'p alloc_fs \<Rightarrow> u64 \<Rightarrow> int \<Rightarrow> 'p alloc_fs" where
  "ext2fs_block_alloc_stats2 ops csum af blk inuse =
     (let fs = af_fs af; grp = ext2fs_group_of_blk2 fs blk
      in if blk \<ge> ext2fs_blocks_count (fs_super fs) then af
         else
           let bmap = (if inuse > 0 then snd (ext2fs_mark_generic_bmap ops (af_block_map af) blk)
                       else snd (ext2fs_unmark_generic_bmap ops (af_block_map af) blk));
               fs = ext2fs_bg_free_blocks_count_set fs grp (ext2fs_bg_free_blocks_count fs grp - word_of_int inuse);
               fs = ext2fs_bg_flags_clear fs grp EXT2_BG_BLOCK_UNINIT;
               fs = ext2fs_group_desc_csum_set csum fs grp;
               fs = fs\<lparr>fs_super := ext2fs_free_blocks_count_add (fs_super fs) (word_of_int (- inuse) * EXT2FS_CLUSTER_RATIO fs)\<rparr>
           in af\<lparr>af_fs := ext2fs_mark_super_dirty fs, af_block_map := bmap, af_bb_dirty := True\<rparr>)"

definition ext2fs_block_alloc_stats ::
  "('p, 'm) bitmap_ops \<Rightarrow> gd_csum \<Rightarrow> 'p alloc_fs \<Rightarrow> u32 \<Rightarrow> int \<Rightarrow> 'p alloc_fs" where
  "ext2fs_block_alloc_stats ops csum af blk inuse = ext2fs_block_alloc_stats2 ops csum af (ucast blk) inuse"

text \<open>
  The loop over the groups of a range; \<open>num\<close> counts down in 32 bits. The division by the cluster ratio is one of 64-bit
  unsigned numbers, also for \<open>inuse = - 1\<close>.
\<close>

partial_function (option) stats_range_loop :: "gd_csum \<Rightarrow> ext2_filsys \<Rightarrow> u64 \<Rightarrow> u32 \<Rightarrow> int \<Rightarrow> (ext2_filsys \<times> u64 \<times> u32) option" where
  "stats_range_loop csum fs blk num inuse =
     (if num = 0 then Some (fs, blk, num)
      else
        let grp = ext2fs_group_of_blk2 fs blk; last_blk = ext2fs_group_last_block2 fs grp;
            n = (if blk + ucast num > last_blk then last_blk - blk + 1 else ucast num);
            fs = ext2fs_bg_free_blocks_count_set fs grp
                   (ext2fs_bg_free_blocks_count fs grp - ucast ((word_of_int inuse * n) div EXT2FS_CLUSTER_RATIO fs));
            fs = ext2fs_bg_flags_clear fs grp EXT2_BG_BLOCK_UNINIT;
            fs = ext2fs_group_desc_csum_set csum fs grp;
            fs = fs\<lparr>fs_super := ext2fs_free_blocks_count_add (fs_super fs) (word_of_int (- inuse) * n)\<rparr>
        in stats_range_loop csum fs (blk + n) (num - ucast n) inuse)"

declare stats_range_loop.simps [code]

text \<open>
  The file system, and the block and count that the \<^verbatim>\<open>block_alloc_stats_range\<close> handler of the client is called with (\<open>None\<close>: it is not called).
\<close>

definition ext2fs_block_alloc_stats_range ::
  "('p, 'm) bitmap_ops \<Rightarrow> gd_csum \<Rightarrow> 'p alloc_fs \<Rightarrow> u64 \<Rightarrow> u32 \<Rightarrow> int \<Rightarrow> ('p alloc_fs \<times> (u64 \<times> u32 \<times> int) option) option" where
  "ext2fs_block_alloc_stats_range ops csum af blk num inuse =
     (if blk + ucast num > ext2fs_blocks_count (fs_super (af_fs af)) then Some (af, None)
      else if inuse = 0 then Some (af, None)
      else
        let bmap = (if inuse > 0 then ext2fs_mark_block_bitmap_range2 ops (af_block_map af) blk num
                    else ext2fs_unmark_block_bitmap_range2 ops (af_block_map af) blk num);
            inuse = (if inuse > 0 then 1 else - 1)
        in map_option
             (\<lambda>(fs, blk, num).
                (af\<lparr>af_fs := ext2fs_mark_super_dirty fs, af_block_map := bmap, af_bb_dirty := True\<rparr>, Some (blk, num, inuse)))
             (stats_range_loop csum (af_fs af) blk num inuse))"

section \<open>Searching\<close>

definition clear_block_uninit :: "gd_csum \<Rightarrow> 'p alloc_fs \<Rightarrow> u32 \<Rightarrow> 'p alloc_fs" where
  "clear_block_uninit csum af grp =
     (let fs = af_fs af
      in if \<not> ext2fs_has_group_desc_csum fs \<or> ext2fs_bg_flags_test fs grp EXT2_BG_BLOCK_UNINIT = 0 then af
         else af\<lparr>af_fs := ext2fs_mark_super_dirty
                   (ext2fs_group_desc_csum_set csum (ext2fs_bg_flags_clear fs grp EXT2_BG_BLOCK_UNINIT) grp),
                 af_bb_dirty := True\<rparr>)"

text \<open>\<open>n\<close> inodes from \<open>ino\<close> on are unmarked.\<close>

fun unmark_inodes :: "('p, 'm) bitmap_ops \<Rightarrow> 'p bitmap_ptr \<Rightarrow> u32 \<Rightarrow> nat \<Rightarrow> 'p bitmap_ptr" where
  "unmark_inodes ops mp ino 0 = mp"
| "unmark_inodes ops mp ino (Suc n) = unmark_inodes ops (snd (ext2fs_unmark_generic_bmap ops mp (ucast ino))) (ino + 1) n"

text \<open>The map is the file system's own one or one of the caller.\<close>

definition check_inode_uninit ::
  "('p, 'm) bitmap_ops \<Rightarrow> gd_csum \<Rightarrow> 'p alloc_fs \<Rightarrow> 'p bitmap_ptr \<Rightarrow> u32 \<Rightarrow> 'p alloc_fs \<times> 'p bitmap_ptr" where
  "check_inode_uninit ops csum af mp grp =
     (let fs = af_fs af; ipg = s_inodes_per_group (fs_super fs)
      in if \<not> ext2fs_has_group_desc_csum fs \<or> ext2fs_bg_flags_test fs grp EXT2_BG_INODE_UNINIT = 0 then (af, mp)
         else
           (af\<lparr>af_fs := ext2fs_mark_super_dirty
                (ext2fs_group_desc_csum_set csum
                   (ext2fs_bg_flags_clear (ext2fs_bg_flags_clear fs grp EXT2_BG_INODE_UNINIT) grp EXT2_BG_BLOCK_UNINIT) grp),
               af_ib_dirty := True\<rparr>,
            unmark_inodes ops mp (grp * ipg + 1) (unat ipg)))"

text \<open>The loop of \<^verbatim>\<open>ext2fs_new_inode\<close>; the search gives the inode number in 32 bits.\<close>

partial_function (option) new_inode_loop ::
  "('p, 'm) bitmap_ops \<Rightarrow> gd_csum \<Rightarrow> u32 \<Rightarrow> 'p alloc_fs \<Rightarrow> 'p bitmap_ptr \<Rightarrow> u32 \<Rightarrow> ((errcode + u32) \<times> 'p alloc_fs \<times> 'p bitmap_ptr) option" where
  "new_inode_loop ops csum start_inode af mp i =
     (let sb = fs_super (af_fs af); ipg = s_inodes_per_group sb;
          ino_in_group = (i - 1) mod ipg; grp = (i - 1) div ipg;
          (af, mp) = check_inode_uninit ops csum af mp grp;
          upto = i + (ipg - ino_in_group);
          upto = (if i < start_inode \<and> upto \<ge> start_inode then start_inode - 1 else upto);
          upto = (if upto > s_inodes_count sb then s_inodes_count sb else upto)
      in case ext2fs_find_first_zero_generic_bmap ops mp (ucast i) (ucast upto) of
           None \<Rightarrow> None
         | Some (Inr first_zero) \<Rightarrow> Some (Inr (ucast first_zero), af, mp)
         | Some (Inl e) \<Rightarrow>
             if e \<noteq> ENOENT then Some (Inl EXT2_ET_INODE_ALLOC_FAIL, af, mp)
             else
               let i = (if upto + 1 > s_inodes_count sb then EXT2_FIRST_INODE sb else upto + 1)
               in if i \<noteq> start_inode then new_inode_loop ops csum start_inode af mp i
                  else Some (Inr i, af, mp))"

declare new_inode_loop.simps [code]

definition ext2fs_new_inode ::
  "('p, 'm) bitmap_ops \<Rightarrow> gd_csum \<Rightarrow> 'p alloc_fs \<Rightarrow> u32 \<Rightarrow> 'p bitmap_ptr \<Rightarrow> ((errcode + u32) \<times> 'p alloc_fs \<times> 'p bitmap_ptr) option" where
  "ext2fs_new_inode ops csum af dir mp =
     (let fs = af_fs af; sb = fs_super fs; ipg = s_inodes_per_group sb;
          own = (mp = None); mp = (if own then af_inode_map af else mp);
          back = (\<lambda>(r, af, mp). (r, if own then af\<lparr>af_inode_map := mp\<rparr> else af, mp))
      in if fs_magic fs \<noteq> Some EXT2_ET_MAGIC_EXT2FS_FILSYS then Some (Inl EXT2_ET_MAGIC_EXT2FS_FILSYS, af, mp)
         else if mp = None then Some (Inl EXT2_ET_NO_INODE_BITMAP, af, mp)
         else
           let start_inode = (if dir > 0 then ((dir - 1) div ipg) * ipg + 1 else 0);
               start_inode = (if start_inode < EXT2_FIRST_INODE sb then EXT2_FIRST_INODE sb else start_inode)
           in if start_inode > s_inodes_count sb then Some (Inl EXT2_ET_INODE_ALLOC_FAIL, af, mp)
              else case new_inode_loop ops csum start_inode af mp start_inode of
                     None \<Rightarrow> None
                   | Some (Inl e, af, mp) \<Rightarrow> Some (back (Inl e, af, mp))
                   | Some (Inr i, af, mp) \<Rightarrow>
                       let (r, mp) = ext2fs_test_generic_bmap ops mp (ucast i)
                       in Some (back (if r \<noteq> 0 then Inl EXT2_ET_INODE_ALLOC_FAIL else Inr i, af, mp)))"

type_synonym 'p alloc_handler = "('p alloc_fs \<Rightarrow> u64 \<Rightarrow> (errcode + u64) \<times> 'p alloc_fs) option"

text \<open>What follows the label \<^verbatim>\<open>allocated\<close>.\<close>

definition new_block_found :: "gd_csum \<Rightarrow> 'p alloc_fs \<Rightarrow> errcode + u64 \<Rightarrow> (errcode + u64) \<times> 'p alloc_fs" where
  "new_block_found csum af r =
     (case r of
        Inl e \<Rightarrow> (Inl (if e = ENOENT then EXT2_ET_BLOCK_ALLOC_FAIL else e), af)
      | Inr b \<Rightarrow> (Inr b, clear_block_uninit csum af (ext2fs_group_of_blk2 (af_fs af) b)))"

definition ext2fs_new_block2 ::
  "('p, 'm) bitmap_ops \<Rightarrow> gd_csum \<Rightarrow> 'p alloc_handler \<Rightarrow> 'p alloc_fs \<Rightarrow> u64 \<Rightarrow> 'p bitmap_ptr \<Rightarrow> ((errcode + u64) \<times> 'p alloc_fs) option" where
  "ext2fs_new_block2 ops csum gab af goal mp =
     (let fs = af_fs af; sb = fs_super fs; first = ucast (s_first_data_block sb); own = (mp = None);
          mp = (if own then af_block_map af else mp)
      in if fs_magic fs \<noteq> Some EXT2_ET_MAGIC_EXT2FS_FILSYS then Some (Inl EXT2_ET_MAGIC_EXT2FS_FILSYS, af)
         else case (if own then gab else None) of
                Some f \<Rightarrow> (case f af goal of (r, af) \<Rightarrow> Some (new_block_found csum af r))
              | None \<Rightarrow>
                  if mp = None then Some (Inl EXT2_ET_NO_BLOCK_BITMAP, af)
                  else
                    let goal = (if goal = 0 \<or> goal \<ge> ext2fs_blocks_count sb then first else goal);
                        goal = goal AND NOT (EXT2FS_CLUSTER_RATIO fs - 1)
                    in Option.bind (ext2fs_find_first_zero_generic_bmap ops mp goal (ext2fs_blocks_count sb - 1))
                         (\<lambda>r. map_option (new_block_found csum af)
                            (if r = Inl ENOENT \<and> goal \<noteq> first
                             then ext2fs_find_first_zero_generic_bmap ops mp first (goal - 1) else Some r)))"

definition ext2fs_new_block ::
  "('p, 'm) bitmap_ops \<Rightarrow> gd_csum \<Rightarrow> 'p alloc_handler \<Rightarrow> 'p alloc_fs \<Rightarrow> u32 \<Rightarrow> 'p bitmap_ptr \<Rightarrow> ((errcode + u32) \<times> 'p alloc_fs) option" where
  "ext2fs_new_block ops csum gab af goal mp =
     map_option (\<lambda>(r, af). (map_sum id ucast r, af)) (ext2fs_new_block2 ops csum gab af (ucast goal) mp)"

text \<open>
  \<open>zero\<close>: the result of writing zeroes to the block, \<open>rd\<close>: that of \<^verbatim>\<open>ext2fs_read_block_bitmap\<close>.
\<close>

definition ext2fs_alloc_block2 ::
  "('p, 'm) bitmap_ops \<Rightarrow> gd_csum \<Rightarrow> 'p alloc_handler \<Rightarrow> (u64 \<Rightarrow> errcode option) \<Rightarrow> ('p alloc_fs \<Rightarrow> errcode option \<times> 'p alloc_fs) \<Rightarrow>
   'p alloc_fs \<Rightarrow> u64 \<Rightarrow> ((errcode + u64) \<times> 'p alloc_fs) option" where
  "ext2fs_alloc_block2 ops csum gab zero rd af goal =
     (let found = (case gab of
                     Some f \<Rightarrow> Some (f af goal)
                   | None \<Rightarrow>
                       (case (if af_block_map af = None then rd af else (None, af)) of
                          (Some e, af) \<Rightarrow> Some (Inl e, af)
                        | (None, af) \<Rightarrow> ext2fs_new_block2 ops csum gab af goal None))
      in map_option
           (\<lambda>(r, af). case r of
                Inl e \<Rightarrow> (Inl e, af)
              | Inr block \<Rightarrow>
                  (case zero block of
                     Some e \<Rightarrow> (Inl e, af)
                   | None \<Rightarrow> (Inr block, ext2fs_block_alloc_stats2 ops csum af block 1)))
           found)"

definition ext2fs_alloc_block ::
  "('p, 'm) bitmap_ops \<Rightarrow> gd_csum \<Rightarrow> 'p alloc_handler \<Rightarrow> (u64 \<Rightarrow> errcode option) \<Rightarrow> ('p alloc_fs \<Rightarrow> errcode option \<times> 'p alloc_fs) \<Rightarrow>
   'p alloc_fs \<Rightarrow> u32 \<Rightarrow> ((errcode + u32) \<times> 'p alloc_fs) option" where
  "ext2fs_alloc_block ops csum gab zero rd af goal =
     map_option (\<lambda>(r, af). (map_sum id ucast r, af)) (ext2fs_alloc_block2 ops csum gab zero rd af (ucast goal))"

text \<open>The search for \<open>num\<close> free blocks; an error code of the range test counts as an answer yes.\<close>

partial_function (option) get_free_loop ::
  "('p, 'm) bitmap_ops \<Rightarrow> ext2_super_block \<Rightarrow> u64 \<Rightarrow> u64 \<Rightarrow> u32 \<Rightarrow> u64 \<Rightarrow> 'p bitmap_ptr \<Rightarrow> u64 \<Rightarrow> ((errcode + u64) \<times> 'p bitmap_ptr) option" where
  "get_free_loop ops sb start finish num c_ratio mp b =
     (let over = (b + ucast num - 1 \<ge> ext2fs_blocks_count sb)
      in if over \<and> finish > start then Some (Inl EXT2_ET_BLOCK_ALLOC_FAIL, mp)
         else
           let b = (if over then ucast (s_first_data_block sb) else b);
               (r, mp) = ext2fs_test_block_bitmap_range2 ops mp b num
           in if (case r of Inl e \<Rightarrow> True | Inr free \<Rightarrow> free) then Some (Inr b, mp)
              else
                let b = b + c_ratio
                in if b \<noteq> finish then get_free_loop ops sb start finish num c_ratio mp b
                   else Some (Inl EXT2_ET_BLOCK_ALLOC_FAIL, mp))"

declare get_free_loop.simps [code]

definition ext2fs_get_free_blocks2 ::
  "('p, 'm) bitmap_ops \<Rightarrow> 'p alloc_fs \<Rightarrow> u64 \<Rightarrow> u64 \<Rightarrow> u32 \<Rightarrow> 'p bitmap_ptr \<Rightarrow> ((errcode + u64) \<times> 'p bitmap_ptr) option" where
  "ext2fs_get_free_blocks2 ops af start finish num mp =
     (let fs = af_fs af; sb = fs_super fs; mp = (if mp = None then af_block_map af else mp)
      in if fs_magic fs \<noteq> Some EXT2_ET_MAGIC_EXT2FS_FILSYS then Some (Inl EXT2_ET_MAGIC_EXT2FS_FILSYS, mp)
         else case mp of
                None \<Rightarrow> Some (Inl EXT2_ET_NO_BLOCK_BITMAP, mp)
              | Some bm \<Rightarrow>
                  let b = (if start = 0 then ucast (s_first_data_block sb) else start);
                      finish = (if finish = 0 then start else finish);
                      num = (if num = 0 then 1 else num);
                      c_ratio = push_bit (ext2fs_get_bitmap_granularity bm) 1
                  in get_free_loop ops sb start (finish AND NOT (c_ratio - 1)) num c_ratio mp (b AND NOT (c_ratio - 1)))"

definition ext2fs_get_free_blocks ::
  "('p, 'm) bitmap_ops \<Rightarrow> 'p alloc_fs \<Rightarrow> u32 \<Rightarrow> u32 \<Rightarrow> u32 \<Rightarrow> 'p bitmap_ptr \<Rightarrow> ((errcode + u32) \<times> 'p bitmap_ptr) option" where
  "ext2fs_get_free_blocks ops af start finish num mp =
     map_option (\<lambda>(r, mp). (map_sum id ucast r, mp)) (ext2fs_get_free_blocks2 ops af (ucast start) (ucast finish) num mp)"

section \<open>Ranges\<close>

text \<open>The uninitialised flag is cleared at every \<open>s_blocks_per_group\<close> blocks of the range.\<close>

partial_function (option) clear_uninit_loop :: "gd_csum \<Rightarrow> 'p alloc_fs \<Rightarrow> u64 \<Rightarrow> u64 \<Rightarrow> 'p alloc_fs option" where
  "clear_uninit_loop csum af b end1 =
     (if b < end1 then
        clear_uninit_loop csum (clear_block_uninit csum af (ext2fs_group_of_blk2 (af_fs af) b))
          (b + ucast (s_blocks_per_group (fs_super (af_fs af)))) end1
      else Some af)"

declare clear_uninit_loop.simps [code]

text \<open>
  One round of the loop of \<^verbatim>\<open>ext2fs_new_range\<close>; the flags \<open>FIXED_GOAL\<close> and \<open>MIN_LENGTH\<close> are booleans. The round ends the search, with an error
  or with the first block and the length, or gives the next \<open>start\<close> and \<open>looped\<close>.
\<close>

definition new_range_round ::
  "('p, 'm) bitmap_ops \<Rightarrow> bool \<Rightarrow> bool \<Rightarrow> ext2_super_block \<Rightarrow> u64 \<Rightarrow> u64 \<Rightarrow> 'p bitmap_ptr \<Rightarrow> u64 \<Rightarrow> bool \<Rightarrow>
   ((errcode + u64 \<times> u64) + u64 \<times> bool) option" where
  "new_range_round ops fixed_goal min_length sb goal len mp start looped =
     (let first = ucast (s_first_data_block sb); max_blocks = ext2fs_blocks_count sb
      in Option.bind (ext2fs_find_first_zero_generic_bmap ops mp start (max_blocks - 1))
           (\<lambda>r. case r of
                Inl e \<Rightarrow>
                  Some (if e \<noteq> ENOENT then Inl (Inl e)
                        else if fixed_goal \<or> start = first then Inl (Inl EXT2_ET_BLOCK_ALLOC_FAIL)
                        else Inr (first, looped))
              | Inr start \<Rightarrow>
                  if fixed_goal \<and> start \<noteq> goal then Some (Inl (Inl EXT2_ET_BLOCK_ALLOC_FAIL))
                  else
                    let b = (if start + len - 1 < max_blocks - 1 then start + len - 1 else max_blocks - 1)
                    in map_option
                         (\<lambda>r. case (case r of Inr e \<Rightarrow> Inr e | Inl e \<Rightarrow> if e = ENOENT then Inr (b + 1) else Inl e) of
                              Inl e \<Rightarrow> Inl (Inl e)
                            | Inr end1 \<Rightarrow>
                                if \<not> min_length \<or> end1 - start \<ge> len then Inl (Inr (start, end1 - start))
                                else if fixed_goal then Inl (Inl EXT2_ET_BLOCK_ALLOC_FAIL)
                                else if end1 \<ge> max_blocks then
                                  (if looped then Inl (Inl EXT2_ET_BLOCK_ALLOC_FAIL) else Inr (first, True))
                                else Inr (end1, looped))
                         (ext2fs_find_first_set_generic_bmap ops mp start b)))"

partial_function (option) new_range_loop ::
  "('p, 'm) bitmap_ops \<Rightarrow> gd_csum \<Rightarrow> bool \<Rightarrow> bool \<Rightarrow> u64 \<Rightarrow> u64 \<Rightarrow> 'p bitmap_ptr \<Rightarrow> 'p alloc_fs \<Rightarrow> u64 \<Rightarrow> bool \<Rightarrow>
   ((errcode + u64 \<times> u64) \<times> 'p alloc_fs) option" where
  "new_range_loop ops csum fixed_goal min_length goal len mp af start looped =
     (if looped \<and> \<not> start \<le> goal then Some (Inl EXT2_ET_BLOCK_ALLOC_FAIL, af)
      else case new_range_round ops fixed_goal min_length (fs_super (af_fs af)) goal len mp start looped of
             None \<Rightarrow> None
           | Some (Inl (Inl e)) \<Rightarrow> Some (Inl e, af)
           | Some (Inl (Inr (pblk, plen))) \<Rightarrow>
               map_option (\<lambda>af. (Inr (pblk, plen), af)) (clear_uninit_loop csum af pblk (pblk + plen))
           | Some (Inr (start, looped)) \<Rightarrow> new_range_loop ops csum fixed_goal min_length goal len mp af start looped)"

declare new_range_loop.simps [code]

text \<open>\<open>flags\<close> is the flag word; \<open>nrf\<close> is the client's \<^verbatim>\<open>new_range\<close> handler, if one is set.\<close>

type_synonym 'p range_handler = "('p alloc_fs \<Rightarrow> u32 \<Rightarrow> u64 \<Rightarrow> u64 \<Rightarrow> (errcode + u64 \<times> u64) \<times> 'p alloc_fs) option"

definition ext2fs_new_range ::
  "('p, 'm) bitmap_ops \<Rightarrow> gd_csum \<Rightarrow> 'p range_handler \<Rightarrow> 'p alloc_fs \<Rightarrow> u32 \<Rightarrow> u64 \<Rightarrow> u64 \<Rightarrow> 'p bitmap_ptr \<Rightarrow>
   ((errcode + u64 \<times> u64) \<times> 'p alloc_fs) option" where
  "ext2fs_new_range ops csum nrf af flags goal len mp =
     (let fs = af_fs af; sb = fs_super fs; own = (mp = None); mp = (if own then af_block_map af else mp)
      in if fs_magic fs \<noteq> Some EXT2_ET_MAGIC_EXT2FS_FILSYS then Some (Inl EXT2_ET_MAGIC_EXT2FS_FILSYS, af)
         else if len = 0 \<or> flags AND NOT 3 \<noteq> 0 then Some (Inl EXT2_ET_INVALID_ARGUMENT, af)
         else case (if own then nrf else None) of
                Some f \<Rightarrow>
                  (case f af flags goal len of
                     (Inl e, af) \<Rightarrow> Some (Inl e, af)
                   | (Inr (pblk, plen), af) \<Rightarrow>
                       map_option (\<lambda>af. (Inr (pblk, plen), af)) (clear_uninit_loop csum af pblk (pblk + plen)))
              | None \<Rightarrow>
                  if mp = None then Some (Inl EXT2_ET_NO_BLOCK_BITMAP, af)
                  else
                    let goal = (if goal = 0 \<or> goal \<ge> ext2fs_blocks_count sb then ucast (s_first_data_block sb) else goal)
                    in new_range_loop ops csum (flags AND 1 \<noteq> 0) (flags AND 2 \<noteq> 0) goal len mp af goal False)"

definition ext2fs_alloc_range ::
  "('p, 'm) bitmap_ops \<Rightarrow> gd_csum \<Rightarrow> 'p range_handler \<Rightarrow> (u64 \<Rightarrow> u32 \<Rightarrow> errcode option) \<Rightarrow> 'p alloc_fs \<Rightarrow> u32 \<Rightarrow> u64 \<Rightarrow> u32 \<Rightarrow>
   ((errcode + u64) \<times> 'p alloc_fs) option" where
  "ext2fs_alloc_range ops csum nrf zero af flags goal len =
     (if fs_magic (af_fs af) \<noteq> Some EXT2_ET_MAGIC_EXT2FS_FILSYS then Some (Inl EXT2_ET_MAGIC_EXT2FS_FILSYS, af)
      else if len = 0 \<or> flags AND NOT 3 \<noteq> 0 then Some (Inl EXT2_ET_INVALID_ARGUMENT, af)
      else
        let newr_flags = 2 OR (if flags AND 1 \<noteq> 0 then 1 else 0)
        in Option.bind (ext2fs_new_range ops csum nrf af newr_flags goal (ucast len) None)
             (\<lambda>(r, af). case r of
                  Inl e \<Rightarrow> Some (Inl e, af)
                | Inr (blk, plen) \<Rightarrow>
                    if plen < ucast len then Some (Inl EXT2_ET_BLOCK_ALLOC_FAIL, af)
                    else case (if flags AND 2 \<noteq> 0 then zero blk len else None) of
                           Some e \<Rightarrow> Some (Inl e, af)
                         | None \<Rightarrow> map_option (\<lambda>(af, _). (Inr blk, af)) (ext2fs_block_alloc_stats_range ops csum af blk len 1)))"

end
