(* ===== verification/Alloc_Stats.thy ===== *)
theory Alloc_Stats
  imports Alloc
begin

text \<open>
  The counts of free blocks and inodes agree with the bitmaps, and the allocation functions keep them so.
\<close>

section \<open>What does not change\<close>

text \<open>Two file systems that agree in everything but the counts, the descriptors and the dirty flag.\<close>

definition same_geo :: "ext2_filsys \<Rightarrow> ext2_filsys \<Rightarrow> bool" where
  "same_geo fs' fs \<longleftrightarrow>
     s_blocks_count (fs_super fs') = s_blocks_count (fs_super fs) \<and>
     s_blocks_count_hi (fs_super fs') = s_blocks_count_hi (fs_super fs) \<and>
     s_first_data_block (fs_super fs') = s_first_data_block (fs_super fs) \<and>
     s_blocks_per_group (fs_super fs') = s_blocks_per_group (fs_super fs) \<and>
     s_clusters_per_group (fs_super fs') = s_clusters_per_group (fs_super fs) \<and>
     s_inodes_per_group (fs_super fs') = s_inodes_per_group (fs_super fs) \<and>
     s_inodes_count (fs_super fs') = s_inodes_count (fs_super fs) \<and>
     s_rev_level (fs_super fs') = s_rev_level (fs_super fs) \<and>
     s_first_ino (fs_super fs') = s_first_ino (fs_super fs) \<and>
     s_feature_incompat (fs_super fs') = s_feature_incompat (fs_super fs) \<and>
     s_feature_ro_compat (fs_super fs') = s_feature_ro_compat (fs_super fs) \<and>
     s_desc_size (fs_super fs') = s_desc_size (fs_super fs) \<and>
     fs_magic fs' = fs_magic fs \<and> fs_group_desc_count fs' = fs_group_desc_count fs \<and>
     fs_cluster_ratio_bits fs' = fs_cluster_ratio_bits fs \<and> fs_flag_64bits fs' = fs_flag_64bits fs \<and>
     length (fs_group_desc fs') = length (fs_group_desc fs)"

lemma same_geo_refl [simp]: "same_geo fs fs"
  by (simp add: same_geo_def)

lemma same_geo_trans [trans]: "same_geo fs'' fs' \<Longrightarrow> same_geo fs' fs \<Longrightarrow> same_geo fs'' fs"
  by (simp add: same_geo_def)


lemma geoD:
  assumes "same_geo fs' fs"
  shows "s_blocks_count (fs_super fs') = s_blocks_count (fs_super fs)"
    "s_blocks_count_hi (fs_super fs') = s_blocks_count_hi (fs_super fs)"
    "s_first_data_block (fs_super fs') = s_first_data_block (fs_super fs)"
    "s_blocks_per_group (fs_super fs') = s_blocks_per_group (fs_super fs)"
    "s_clusters_per_group (fs_super fs') = s_clusters_per_group (fs_super fs)"
    "s_inodes_per_group (fs_super fs') = s_inodes_per_group (fs_super fs)"
    "s_inodes_count (fs_super fs') = s_inodes_count (fs_super fs)"
    "s_rev_level (fs_super fs') = s_rev_level (fs_super fs)"
    "s_first_ino (fs_super fs') = s_first_ino (fs_super fs)"
    "s_feature_incompat (fs_super fs') = s_feature_incompat (fs_super fs)"
    "s_feature_ro_compat (fs_super fs') = s_feature_ro_compat (fs_super fs)"
    "s_desc_size (fs_super fs') = s_desc_size (fs_super fs)"
    "fs_magic fs' = fs_magic fs"
    "fs_group_desc_count fs' = fs_group_desc_count fs"
    "fs_cluster_ratio_bits fs' = fs_cluster_ratio_bits fs"
    "fs_flag_64bits fs' = fs_flag_64bits fs"
    "length (fs_group_desc fs') = length (fs_group_desc fs)"
  using assms unfolding same_geo_def by blast+

lemma geo_has64: "same_geo fs' fs \<Longrightarrow> has_64bit (fs_super fs') = has_64bit (fs_super fs)"
  by (simp add: has_64bit_def geoD)

lemma geo_blocks: "same_geo fs' fs \<Longrightarrow> ext2fs_blocks_count (fs_super fs') = ext2fs_blocks_count (fs_super fs)"
  by (simp add: ext2fs_blocks_count_def geo_has64 geoD)

lemma geo_csum: "same_geo fs' fs \<Longrightarrow> ext2fs_has_group_desc_csum fs' = ext2fs_has_group_desc_csum fs"
  by (simp add: ext2fs_has_group_desc_csum_def geoD)

lemma geo_descs: "same_geo fs' fs \<Longrightarrow> descs_ok fs' = descs_ok fs"
  by (simp add: descs_ok_def EXT2_DESC_SIZE_def geo_has64 geoD)

lemma geo_cgeom: "same_geo fs' fs \<Longrightarrow> cluster_geometry_ok fs' = cluster_geometry_ok fs"
  by (simp add: cluster_geometry_ok_def geometry_ok_def geo_blocks geoD Let_def)

lemma geo_group: "same_geo fs' fs \<Longrightarrow> ext2fs_group_of_blk2 fs' blk = ext2fs_group_of_blk2 fs blk"
  by (simp add: ext2fs_group_of_blk2_def geoD)

lemma geo_group_ino: "same_geo fs' fs \<Longrightarrow> ext2fs_group_of_ino fs' ino = ext2fs_group_of_ino fs ino"
  by (simp add: ext2fs_group_of_ino_def geoD)

lemma geo_first_inode: "same_geo fs' fs \<Longrightarrow> EXT2_FIRST_INODE (fs_super fs') = EXT2_FIRST_INODE (fs_super fs)"
  by (simp add: EXT2_FIRST_INODE_def geoD)

lemma geo_b2c: "same_geo fs' fs \<Longrightarrow> EXT2FS_B2C fs' = EXT2FS_B2C fs"
  by (rule ext) (simp add: EXT2FS_B2C_def geoD)

lemmas geo_simps = geoD geo_has64 geo_blocks geo_csum geo_descs geo_cgeom geo_group geo_group_ino geo_first_inode geo_b2c

lemma geo_put [simp]: "same_geo (gd_put fs g f v) fs"
  by (cases f) (simp_all add: gd_access_defs same_geo_def)

lemma put_super [simp]: "fs_super (gd_put fs g f v) = fs_super fs"
  by (cases f) (simp_all add: gd_access_defs)

lemma ucast_back [simp]: "ucast (ucast n :: u64) = (n :: u32)" "ucast (ucast c :: u64) = (c :: u16)"
  by (rule bit_word_eqI; simp add: bit_unsigned_iff)+

section \<open>The descriptor updates as writes of fields\<close>

lemma st16_twice:
  assumes "p + 1 < length bs"
  shows "st16 (st16 bs p v) p w = st16 bs p w" "ld16 (st16 bs p v) p = v"
proof -
  show "st16 (st16 bs p v) p w = st16 bs p w"
    using assms by (simp add: st16_def list_update_swap[of p "Suc p"])
  show "ld16 (st16 bs p v) p = v" using assms by (simp add: field_simps_mem)
qed

lemma flags_clear_put:
  assumes "descs_ok fs" "g < fs_group_desc_count fs"
  shows "ext2fs_bg_flags_clear fs g m = gd_put fs g Flags (ucast (ext2fs_bg_flags fs g AND NOT m))"
proof -
  have "ext2fs_group_desc fs g + 18 + 1 < length (fs_group_desc fs)"
    using desc_pos(2)[OF assms] by (simp split: if_splits)
  then show ?thesis
    using st16_twice[of "ext2fs_group_desc fs g + 18" "fs_group_desc fs"]
    by (simp add: ext2fs_bg_flags_clear_def ext2fs_bg_flags_set_def ext2fs_bg_flags_zap_def ext2fs_bg_flags_def)
qed

lemma free_blocks_put: "ext2fs_bg_free_blocks_count_set fs g n = gd_put fs g FreeBlocks (ucast n)"
  and free_inodes_put: "ext2fs_bg_free_inodes_count_set fs g n = gd_put fs g FreeInodes (ucast n)"
  and used_dirs_put: "ext2fs_bg_used_dirs_count_set fs g n = gd_put fs g UsedDirs (ucast n)"
  and unused_put: "ext2fs_bg_itable_unused_set fs g n = gd_put fs g ItableUnused (ucast n)"
  and checksum_put: "ext2fs_bg_checksum_set fs g c = gd_put fs g Checksum (ucast c)"
  by simp_all

lemma gd_get_put:
  assumes "descs_ok fs" "g < fs_group_desc_count fs" "h < fs_group_desc_count fs"
    and "v = take_bit (gd_width (has_64bit (fs_super fs)) f) v"
  shows "gd_get (gd_put fs g f v) h f' = (if h = g \<and> f' = f then v else gd_get fs h f')"
  using gd_put_same[OF assms(1,2,4)] gd_put_other_field[of f f'] gd_put_other_group[OF assms(1-3)]
  by (cases "h = g"; cases "f' = f") simp_all

text \<open>A checksum never changes another field.\<close>

lemma csum_set_get:
  assumes "descs_ok fs" "g < fs_group_desc_count fs" "h < fs_group_desc_count fs" "f \<noteq> Checksum"
  shows "gd_get (ext2fs_group_desc_csum_set csum fs g) h f = gd_get fs h f" "same_geo (ext2fs_group_desc_csum_set csum fs g) fs"
    "fs_super (ext2fs_group_desc_csum_set csum fs g) = fs_super fs"
proof -
  show "gd_get (ext2fs_group_desc_csum_set csum fs g) h f = gd_get fs h f"
    using gd_put_other_field[of Checksum f fs g "ucast (csum fs g)"] gd_put_other_group[OF assms(1-3), of Checksum "ucast (csum fs g)" f] assms(4)
    by (cases "h = g") (simp_all add: ext2fs_group_desc_csum_set_def checksum_put del: gd_put.simps)
  show "same_geo (ext2fs_group_desc_csum_set csum fs g) fs"
    by (simp add: ext2fs_group_desc_csum_set_def checksum_put del: gd_put.simps)
  show "fs_super (ext2fs_group_desc_csum_set csum fs g) = fs_super fs"
    by (simp add: ext2fs_group_desc_csum_set_def ext2fs_bg_checksum_set_def)
qed


section \<open>Free clusters\<close>

text \<open>
  The numbers that are not marked in a bitmap, and the group a cluster lies in. The block bitmap of a file system has one bit
  for every cluster from the first data block to the last block.
\<close>

definition unmarked :: "('p gbitmap \<Rightarrow> u64 set) \<Rightarrow> 'p gbitmap \<Rightarrow> u64 set" where
  "unmarked bits b = {gb_start b..gb_end b} - bits b"

definition cluster_group :: "ext2_filsys \<Rightarrow> u64 \<Rightarrow> nat" where
  "cluster_group fs c =
     (unat c - unat (EXT2FS_B2C fs (ucast (s_first_data_block (fs_super fs))))) div unat (s_clusters_per_group (fs_super fs))"

definition block_map_ok :: "('p gbitmap \<Rightarrow> bool) \<Rightarrow> ext2_filsys \<Rightarrow> 'p gbitmap \<Rightarrow> bool" where
  "block_map_ok valid fs b \<longleftrightarrow>
     valid b \<and> EXT2FS_IS_64_BITMAP (gb_magic b) \<and> gb_cluster_bits b = fs_cluster_ratio_bits fs \<and>
     gb_start b = EXT2FS_B2C fs (ucast (s_first_data_block (fs_super fs))) \<and>
     gb_end b = EXT2FS_B2C fs (ext2fs_blocks_count (fs_super fs) - 1)"

text \<open>
  A geometry whose counts fit their fields: without the 64-bit feature a group has fewer than \<open>2 ^ 16\<close> clusters (the
  library allows 65528), and the file system fewer than \<open>2 ^ 32\<close> blocks.
\<close>

definition alloc_geometry_ok :: "ext2_filsys \<Rightarrow> bool" where
  "alloc_geometry_ok fs \<longleftrightarrow>
     (let sb = fs_super fs; wide = has_64bit sb
      in cluster_geometry_ok fs \<and> descs_ok fs \<and> (\<not> wide \<longrightarrow> unat (s_clusters_per_group sb) < 2 ^ 16) \<and>
         unat (ext2fs_blocks_count sb) + 2 ^ fs_cluster_ratio_bits fs \<le> 2 ^ (if wide then 64 else 32))"

definition blocks_accounted :: "('p gbitmap \<Rightarrow> bool) \<Rightarrow> ('p gbitmap \<Rightarrow> u64 set) \<Rightarrow> 'p alloc_fs \<Rightarrow> bool" where
  "blocks_accounted valid bits af \<longleftrightarrow>
     (let fs = af_fs af
      in \<exists>b. af_block_map af = Some (Bitmap64 b) \<and> block_map_ok valid fs b \<and>
           (\<forall>g < fs_group_desc_count fs.
              unat (ext2fs_bg_free_blocks_count fs g) = card {c \<in> unmarked bits b. cluster_group fs c = unat g}) \<and>
           unat (ext2fs_free_blocks_count (fs_super fs)) = 2 ^ fs_cluster_ratio_bits fs * card (unmarked bits b))"

text \<open>Inodes: the group of an inode, the bitmap, and the counts with the flag and the count of the lazily initialised tables.\<close>

definition inode_group :: "ext2_filsys \<Rightarrow> u64 \<Rightarrow> nat" where
  "inode_group fs i = (unat i - 1) div unat (s_inodes_per_group (fs_super fs))"

definition inode_map_ok :: "('p gbitmap \<Rightarrow> bool) \<Rightarrow> ext2_filsys \<Rightarrow> 'p gbitmap \<Rightarrow> bool" where
  "inode_map_ok valid fs b \<longleftrightarrow>
     valid b \<and> EXT2FS_IS_64_BITMAP (gb_magic b) \<and> gb_cluster_bits b = 0 \<and>
     gb_start b = 1 \<and> gb_end b = ucast (s_inodes_count (fs_super fs))"

definition inode_geometry_ok :: "ext2_filsys \<Rightarrow> bool" where
  "inode_geometry_ok fs \<longleftrightarrow>
     (let sb = fs_super fs; ipg = unat (s_inodes_per_group sb)
      in fs_magic fs = Some EXT2_ET_MAGIC_EXT2FS_FILSYS \<and> descs_ok fs \<and> 0 < ipg \<and>
         unat (s_inodes_count sb) = ipg * unat (fs_group_desc_count fs) \<and>
         unat (s_inodes_count sb) + ipg < 2 ^ 32 \<and> (\<not> has_64bit sb \<longrightarrow> ipg < 2 ^ 16) \<and>
         1 \<le> EXT2_FIRST_INODE sb \<and> EXT2_FIRST_INODE sb \<le> s_inodes_count sb)"

text \<open>
  With checksums of the descriptors, a group whose inode bitmap is flagged as uninitialised has no inode in use, and the unused part
  at the end of an inode table holds none.
\<close>

definition inodes_accounted :: "('p gbitmap \<Rightarrow> bool) \<Rightarrow> ('p gbitmap \<Rightarrow> u64 set) \<Rightarrow> 'p alloc_fs \<Rightarrow> bool" where
  "inodes_accounted valid bits af \<longleftrightarrow>
     (let fs = af_fs af; ipg = unat (s_inodes_per_group (fs_super fs))
      in \<exists>b. af_inode_map af = Some (Bitmap64 b) \<and> inode_map_ok valid fs b \<and>
           (\<forall>g < fs_group_desc_count fs.
              unat (ext2fs_bg_free_inodes_count fs g) = card {i \<in> unmarked bits b. inode_group fs i = unat g}) \<and>
           unat (s_free_inodes_count (fs_super fs)) = card (unmarked bits b) \<and>
           (ext2fs_has_group_desc_csum fs \<longrightarrow>
              (\<forall>g < fs_group_desc_count fs.
                 unat (ext2fs_bg_itable_unused fs g) \<le> ipg \<and>
                 (\<forall>i \<in> {gb_start b..gb_end b} - unmarked bits b. inode_group fs i = unat g \<longrightarrow>
                    ext2fs_bg_flags fs g AND EXT2_BG_INODE_UNINIT = 0 \<and>
                    unat i + unat (ext2fs_bg_itable_unused fs g) \<le> (unat g + 1) * ipg))))"

definition same_block_counts :: "ext2_filsys \<Rightarrow> ext2_filsys \<Rightarrow> bool" where
  "same_block_counts fs' fs \<longleftrightarrow>
     ext2fs_free_blocks_count (fs_super fs') = ext2fs_free_blocks_count (fs_super fs) \<and>
     (\<forall>h < fs_group_desc_count fs. ext2fs_bg_free_blocks_count fs' h = ext2fs_bg_free_blocks_count fs h)"

definition same_inode_counts :: "ext2_filsys \<Rightarrow> ext2_filsys \<Rightarrow> bool" where
  "same_inode_counts fs' fs \<longleftrightarrow>
     s_free_inodes_count (fs_super fs') = s_free_inodes_count (fs_super fs) \<and>
     (\<forall>h < fs_group_desc_count fs.
        ext2fs_bg_free_inodes_count fs' h = ext2fs_bg_free_inodes_count fs h \<and>
        ext2fs_bg_itable_unused fs' h = ext2fs_bg_itable_unused fs h \<and>
        (ext2fs_bg_flags fs h AND EXT2_BG_INODE_UNINIT = 0 \<longrightarrow> ext2fs_bg_flags fs' h AND EXT2_BG_INODE_UNINIT = 0))"

lemma geo_inode_group: "same_geo fs' fs \<Longrightarrow> inode_group fs' i = inode_group fs i"
  by (simp add: inode_group_def geo_simps)

lemma geo_inode_map_ok: "same_geo fs' fs \<Longrightarrow> inode_map_ok valid fs' b = inode_map_ok valid fs b"
  by (simp add: inode_map_ok_def geo_simps)

lemma geo_inode_geometry: "same_geo fs' fs \<Longrightarrow> inode_geometry_ok fs' = inode_geometry_ok fs"
  by (simp add: inode_geometry_ok_def geo_simps Let_def)

lemma geo_cluster_group: "same_geo fs' fs \<Longrightarrow> cluster_group fs' c = cluster_group fs c"
  by (simp add: cluster_group_def geo_simps)

lemma geo_map_ok: "same_geo fs' fs \<Longrightarrow> block_map_ok valid fs' b = block_map_ok valid fs b"
  by (simp add: block_map_ok_def geo_simps)

lemma geo_alloc: "same_geo fs' fs \<Longrightarrow> alloc_geometry_ok fs' = alloc_geometry_ok fs"
  by (simp add: alloc_geometry_ok_def geo_simps Let_def)

text \<open>What is accounted depends on the bitmap and the counts alone.\<close>

lemma blocks_accounted_cong:
  assumes "blocks_accounted valid bits af" "same_geo (af_fs af') (af_fs af)" "same_block_counts (af_fs af') (af_fs af)"
    "af_block_map af' = af_block_map af"
  shows "blocks_accounted valid bits af'"
  using assms(1,3,4) unfolding blocks_accounted_def Let_def same_block_counts_def
  by (simp add: geo_map_ok[OF assms(2)] geo_cluster_group[OF assms(2)] geoD(14,15)[OF assms(2)])

lemma inodes_accounted_cong:
  assumes "inodes_accounted valid bits af" "same_geo (af_fs af') (af_fs af)" "same_inode_counts (af_fs af') (af_fs af)"
    "af_inode_map af' = af_inode_map af"
  shows "inodes_accounted valid bits af'"
proof -
  obtain b where b: "af_inode_map af = Some (Bitmap64 b)" "inode_map_ok valid (af_fs af) b"
    "\<forall>g < fs_group_desc_count (af_fs af).
       unat (ext2fs_bg_free_inodes_count (af_fs af) g) = card {i \<in> unmarked bits b. inode_group (af_fs af) i = unat g}"
    "unat (s_free_inodes_count (fs_super (af_fs af))) = card (unmarked bits b)"
    "ext2fs_has_group_desc_csum (af_fs af) \<longrightarrow>
       (\<forall>g < fs_group_desc_count (af_fs af). unat (ext2fs_bg_itable_unused (af_fs af) g) \<le> unat (s_inodes_per_group (fs_super (af_fs af))) \<and>
          (\<forall>i \<in> {gb_start b..gb_end b} - unmarked bits b. inode_group (af_fs af) i = unat g \<longrightarrow>
             ext2fs_bg_flags (af_fs af) g AND EXT2_BG_INODE_UNINIT = 0 \<and>
             unat i + unat (ext2fs_bg_itable_unused (af_fs af) g) \<le> (unat g + 1) * unat (s_inodes_per_group (fs_super (af_fs af)))))"
    using assms(1) unfolding inodes_accounted_def Let_def by blast
  show ?thesis
    unfolding inodes_accounted_def Let_def assms(4) geo_inode_map_ok[OF assms(2)] geo_inode_group[OF assms(2)]
      geo_csum[OF assms(2)] geoD(6,14)[OF assms(2)]
    using b assms(3) unfolding same_inode_counts_def by auto
qed

text \<open>The facts of a geometry, in natural numbers; \<open>s\<close> is the first cluster.\<close>

lemma cluster_facts:
  assumes "cluster_geometry_ok fs"
  obtains f n c k s where "f = unat (s_first_data_block (fs_super fs))" "unat (ext2fs_blocks_count (fs_super fs)) = f + n"
    "c = unat (s_clusters_per_group (fs_super fs))" "k = unat (fs_group_desc_count fs)" "0 < n" "n \<le> k * (c * 2 ^ fs_cluster_ratio_bits fs)"
    "f = s * 2 ^ fs_cluster_ratio_bits fs" "unat (EXT2FS_B2C fs (ucast (s_first_data_block (fs_super fs)))) = s"
    "unat (s_blocks_per_group (fs_super fs)) = c * 2 ^ fs_cluster_ratio_bits fs" "0 < c"
    "fs_cluster_ratio_bits fs < 31"
proof -
  let ?cb = "fs_cluster_ratio_bits fs"
  have g: "geometry_ok fs" "?cb < 31"
    "unat (s_blocks_per_group (fs_super fs)) = unat (s_clusters_per_group (fs_super fs)) * 2 ^ ?cb"
    "unat (s_first_data_block (fs_super fs)) mod 2 ^ ?cb = 0"
    using assms by (simp_all add: cluster_geometry_ok_def Let_def)
  obtain f b k n where geo: "f = unat (s_first_data_block (fs_super fs))" "b = unat (s_blocks_per_group (fs_super fs))"
    "k = unat (fs_group_desc_count fs)" "unat (ext2fs_blocks_count (fs_super fs)) = f + n" "0 < b" "0 < n" "n \<le> k * b"
    using geometry_facts[OF g(1)] by metis
  show thesis
  proof (rule that[of f n "unat (s_clusters_per_group (fs_super fs))" k "f div 2 ^ ?cb"])
    show "f = f div 2 ^ ?cb * 2 ^ ?cb" using g(4) geo(1) by (simp add: dvd_div_mult_self mod_0_imp_dvd)
    show "unat (EXT2FS_B2C fs (ucast (s_first_data_block (fs_super fs)))) = f div 2 ^ ?cb"
      by (simp add: EXT2FS_B2C_def unat_drop_bit geo(1))
    show "0 < unat (s_clusters_per_group (fs_super fs))" using geo(2,5) g(3) by (metis mult_is_0 not_gr0)
  qed (use geo g in simp_all)
qed

text \<open>The cluster of a block lies in the bitmap, and in the group of the block.\<close>

lemma block_cluster:
  assumes "cluster_geometry_ok fs" "ucast (s_first_data_block (fs_super fs)) \<le> blk" "blk < ext2fs_blocks_count (fs_super fs)"
  shows "cluster_group fs (EXT2FS_B2C fs blk) = unat (ext2fs_group_of_blk2 fs blk)"
    and "ext2fs_group_of_blk2 fs blk < fs_group_desc_count fs"
    and "EXT2FS_B2C fs (ucast (s_first_data_block (fs_super fs))) \<le> EXT2FS_B2C fs blk"
    and "EXT2FS_B2C fs blk \<le> EXT2FS_B2C fs (ext2fs_blocks_count (fs_super fs) - 1)"
proof -
  let ?R = "2 ^ fs_cluster_ratio_bits fs :: nat"
  obtain f n c k s where g: "f = unat (s_first_data_block (fs_super fs))" "unat (ext2fs_blocks_count (fs_super fs)) = f + n"
    "c = unat (s_clusters_per_group (fs_super fs))" "k = unat (fs_group_desc_count fs)" "0 < n" "n \<le> k * (c * ?R)"
    "f = s * ?R" "unat (EXT2FS_B2C fs (ucast (s_first_data_block (fs_super fs)))) = s"
    "unat (s_blocks_per_group (fs_super fs)) = c * ?R" "0 < c"
    using cluster_facts[OF assms(1)] by metis
  define d where "d = unat blk - f"
  have d: "unat blk = s * ?R + d" "d < n"
    using assms(2,3) g(1,2,7) by (simp_all add: d_def word_le_nat_alt word_less_nat_alt)
  have blk: "unat (EXT2FS_B2C fs blk) = s + d div ?R" by (simp add: EXT2FS_B2C_def unat_drop_bit d)
  have dc: "cluster_group fs (EXT2FS_B2C fs blk) = d div (c * ?R)"
    unfolding cluster_group_def blk g(8) by (simp add: div_mult2_eq[symmetric] mult.commute g(3))
  have dk: "d div (c * ?R) < k"
    using d(2) g(6,10) by (simp add: div_less_iff_less_mult)
  have "unat (blk - ucast (s_first_data_block (fs_super fs))) = d"
    using assms(2) g(1) by (simp add: unat_minus_le d_def)
  then have "unat ((blk - ucast (s_first_data_block (fs_super fs))) div ucast (s_blocks_per_group (fs_super fs)) :: u64)
      = d div (c * ?R)"
    using g(9) by (simp add: unat_div)
  then have q: "unat (ext2fs_group_of_blk2 fs blk) = d div (c * ?R)"
    using dk g(4) unat_less32[of "fs_group_desc_count fs"]
    by (simp add: ext2fs_group_of_blk2_def unsigned_ucast_eq take_bit_nat_eq_self)
  show "cluster_group fs (EXT2FS_B2C fs blk) = unat (ext2fs_group_of_blk2 fs blk)" using q dc by simp
  show "ext2fs_group_of_blk2 fs blk < fs_group_desc_count fs" using q dk g(4) by (simp add: word_less_nat_alt)
  show "EXT2FS_B2C fs (ucast (s_first_data_block (fs_super fs))) \<le> EXT2FS_B2C fs blk"
    using blk g(8) by (simp add: word_le_nat_alt)
  have "unat (ext2fs_blocks_count (fs_super fs) - 1) = f + n - 1" using unat_pred[OF assms(3)] g(2) by simp
  then show "EXT2FS_B2C fs blk \<le> EXT2FS_B2C fs (ext2fs_blocks_count (fs_super fs) - 1)"
    unfolding word_le_nat_alt EXT2FS_B2C_def unat_drop_bit using d g(7) by (intro div_le_mono) simp
qed

text \<open>The number of clusters, and of the clusters of a group.\<close>

lemma card_word_ivl: "card {a..b :: u64} = (if a \<le> b then unat b + 1 - unat a else 0)"
proof -
  have "unat ` {a..b} = {unat a..unat b}"
  proof
    show "unat ` {a..b} \<subseteq> {unat a..unat b}" by (auto simp: word_le_nat_alt)
    show "{unat a..unat b} \<subseteq> unat ` {a..b}"
    proof
      fix x assume x: "x \<in> {unat a..unat b}"
      then have "x < 2 ^ 64" using unat_less64[of b] by simp
      then have "unat (of_nat x :: u64) = x" by (simp add: unat_of_nat)
      then show "x \<in> unat ` {a..b}" using x by (intro image_eqI[of _ _ "of_nat x"]) (simp_all add: word_le_nat_alt)
    qed
  qed
  then have "card {a..b} = card {unat a..unat b}"
    by (metis card_image inj_on_def word_unat_eq_iff)
  then show ?thesis by (simp add: word_le_nat_alt)
qed

lemma clusters_fit:
  assumes "alloc_geometry_ok fs" "block_map_ok valid fs b"
  shows "2 ^ fs_cluster_ratio_bits fs * card {gb_start b..gb_end b} < 2 ^ (if has_64bit (fs_super fs) then 64 else 32)"
    and "card {c \<in> {gb_start b..gb_end b}. cluster_group fs c = g} \<le> unat (s_clusters_per_group (fs_super fs))"
proof -
  let ?R = "2 ^ fs_cluster_ratio_bits fs :: nat"
  have cg: "cluster_geometry_ok fs" using assms(1) by (simp add: alloc_geometry_ok_def Let_def)
  obtain f n c k s where g: "f = unat (s_first_data_block (fs_super fs))" "unat (ext2fs_blocks_count (fs_super fs)) = f + n"
    "c = unat (s_clusters_per_group (fs_super fs))" "k = unat (fs_group_desc_count fs)" "0 < n" "n \<le> k * (c * ?R)"
    "f = s * ?R" "unat (EXT2FS_B2C fs (ucast (s_first_data_block (fs_super fs)))) = s"
    "unat (s_blocks_per_group (fs_super fs)) = c * ?R" "0 < c"
    using cluster_facts[OF cg] by metis
  have b: "unat (gb_start b) = s" "unat (gb_end b) = (f + n - 1) div ?R"
  proof -
    show "unat (gb_start b) = s" using assms(2) g(8) by (simp add: block_map_ok_def)
    have "unat (ext2fs_blocks_count (fs_super fs) - 1) = f + n - 1" using g(2,5) by (simp add: unat_minus_nat)
    then show "unat (gb_end b) = (f + n - 1) div ?R"
      using assms(2) by (simp add: block_map_ok_def EXT2FS_B2C_def unat_drop_bit)
  qed
  have "?R * card {gb_start b..gb_end b} \<le> ?R * ((f + n - 1) div ?R + 1)"
    by (intro mult_le_mono2) (simp add: card_word_ivl b)
  also have "\<dots> \<le> f + n - 1 + ?R" by simp
  also have "\<dots> < 2 ^ (if has_64bit (fs_super fs) then 64 else 32)"
  proof -
    have "f + n + ?R \<le> 2 ^ (if has_64bit (fs_super fs) then 64 else 32)"
      using assms(1) g(2) unfolding alloc_geometry_ok_def Let_def by metis
    then show ?thesis using g(5) by linarith
  qed
  finally show "?R * card {gb_start b..gb_end b} < 2 ^ (if has_64bit (fs_super fs) then 64 else 32)" .
  have sub: "unat ` {x \<in> {gb_start b..gb_end b}. cluster_group fs x = g} \<subseteq> {s + g * c..<s + g * c + c}"
  proof
    fix y assume "y \<in> unat ` {x \<in> {gb_start b..gb_end b}. cluster_group fs x = g}"
    then obtain x where x: "y = unat x" "gb_start b \<le> x" "cluster_group fs x = g" by auto
    then have "s \<le> y" "(y - s) div c = g" using b(1) g(3,8) by (simp_all add: word_le_nat_alt cluster_group_def)
    then have "g * c \<le> y - s \<and> y - s < g * c + c" using in_group_iff[OF g(10), of g "y - s"] by simp
    then show "y \<in> {s + g * c..<s + g * c + c}" using \<open>s \<le> y\<close> by auto
  qed
  have "card {x \<in> {gb_start b..gb_end b}. cluster_group fs x = g} = card (unat ` {x \<in> {gb_start b..gb_end b}. cluster_group fs x = g})"
    by (intro card_image[symmetric]) (simp add: inj_on_def word_unat_eq_iff)
  also have "\<dots> \<le> card {s + g * c..<s + g * c + c}" by (rule card_mono[OF _ sub]) simp
  finally show "card {c \<in> {gb_start b..gb_end b}. cluster_group fs c = g} \<le> unat (s_clusters_per_group (fs_super fs))"
    using g(3) by simp
qed


section \<open>Allocating and freeing a block\<close>

lemma gd_get_inject [simp]: "(ucast x :: u64) = ucast y \<longleftrightarrow> x = (y :: u32)" "(ucast x' :: u64) = ucast y' \<longleftrightarrow> x' = (y' :: u16)"
  by (metis ucast_back)+

text \<open>
  The new free count \<open>n\<close> of a group and \<open>x\<close> added to that of the superblock, the way the statistics functions write them: the effect by field.
\<close>

definition charge_group :: "gd_csum \<Rightarrow> ext2_filsys \<Rightarrow> u32 \<Rightarrow> u32 \<Rightarrow> u64 \<Rightarrow> ext2_filsys" where
  "charge_group csum fs g n x =
     (let fs = ext2fs_group_desc_csum_set csum (ext2fs_bg_flags_clear (ext2fs_bg_free_blocks_count_set fs g n) g EXT2_BG_BLOCK_UNINIT) g
      in fs\<lparr>fs_super := ext2fs_free_blocks_count_add (fs_super fs) x\<rparr>)"

lemma charge_group_frame:
  assumes "descs_ok fs" "g < fs_group_desc_count fs"
    and "(ucast n :: u64) = take_bit (if has_64bit (fs_super fs) then 32 else 16) (ucast n)"
  shows "same_geo (charge_group csum fs g n x) fs"
    "\<And>h. h < fs_group_desc_count fs \<Longrightarrow>
       ext2fs_bg_free_blocks_count (charge_group csum fs g n x) h = (if h = g then n else ext2fs_bg_free_blocks_count fs h)"
    "\<And>h f. h < fs_group_desc_count fs \<Longrightarrow> f \<notin> {FreeBlocks, Flags, Checksum} \<Longrightarrow> gd_get (charge_group csum fs g n x) h f = gd_get fs h f"
    "\<And>h. h < fs_group_desc_count fs \<Longrightarrow> ext2fs_bg_flags (charge_group csum fs g n x) h =
       (if h = g then ext2fs_bg_flags fs h AND NOT EXT2_BG_BLOCK_UNINIT else ext2fs_bg_flags fs h)"
    "ext2fs_free_blocks_count (fs_super (charge_group csum fs g n x))
       = take_bit (if has_64bit (fs_super fs) then 64 else 32) (ext2fs_free_blocks_count (fs_super fs) + x)"
    "s_free_inodes_count (fs_super (charge_group csum fs g n x)) = s_free_inodes_count (fs_super fs)"
proof -
  define fs1 where "fs1 = ext2fs_bg_free_blocks_count_set fs g n"
  define fs2 where "fs2 = ext2fs_bg_flags_clear fs1 g EXT2_BG_BLOCK_UNINIT"
  define fs3 where "fs3 = ext2fs_group_desc_csum_set csum fs2 g"
  define fs4 where "fs4 = fs3\<lparr>fs_super := ext2fs_free_blocks_count_add (fs_super fs3) x\<rparr>"
  have fs4: "charge_group csum fs g n x = fs4"
    by (simp add: charge_group_def Let_def fs4_def fs3_def fs2_def fs1_def)
  have p1: "fs1 = gd_put fs g FreeBlocks (ucast n)" unfolding fs1_def by (rule free_blocks_put)
  have g1: "same_geo fs1 fs" "fs_super fs1 = fs_super fs" unfolding p1 by (rule geo_put put_super)+
  have d1: "descs_ok fs1" "g < fs_group_desc_count fs1" "fs_group_desc_count fs1 = fs_group_desc_count fs"
    using geo_descs[OF g1(1)] geoD(14)[OF g1(1)] assms(1,2) by simp_all
  define v :: u64 where "v = ucast (ext2fs_bg_flags fs1 g AND NOT EXT2_BG_BLOCK_UNINIT)"
  have p2: "fs2 = gd_put fs1 g Flags v" unfolding fs2_def v_def by (rule flags_clear_put[OF d1(1,2)])
  have g2: "same_geo fs2 fs1" "fs_super fs2 = fs_super fs1" unfolding p2 by (rule geo_put put_super)+
  have d2: "descs_ok fs2" "g < fs_group_desc_count fs2" "fs_group_desc_count fs2 = fs_group_desc_count fs"
    using geo_descs[OF g2(1)] geoD(14)[OF g2(1)] d1 by simp_all
  have g3: "same_geo fs3 fs2" "fs_super fs3 = fs_super fs"
    using csum_set_get(2,3)[OF d2(1,2,2), of Flags] g2(2) g1(2) by (simp_all add: fs3_def)
  have g4: "same_geo fs4 fs3"
    by (simp add: fs4_def same_geo_def ext2fs_free_blocks_count_add_def ext2fs_free_blocks_count_set_def Let_def)
  have fv: "v = take_bit (gd_width (has_64bit (fs_super fs1)) Flags) v"
    by (rule bit_word_eqI) (auto simp: v_def bit_unsigned_iff bit_take_bit_iff dest: bit_imp_le_length)
  have get: "gd_get fs4 h f = (if h = g \<and> f = Flags then v else if h = g \<and> f = FreeBlocks then ucast n else gd_get fs h f)"
    if h: "h < fs_group_desc_count fs" and f: "f \<noteq> Checksum" for h f
  proof -
    have "gd_get fs4 h f = gd_get fs3 h f"
      by (cases f) (simp_all add: fs4_def gd_access_defs ext2fs_group_desc_def EXT2_DESC_SIZE_def has_64bit_def
          ext2fs_free_blocks_count_add_def ext2fs_free_blocks_count_set_def)
    also have "\<dots> = gd_get fs2 h f" unfolding fs3_def by (rule csum_set_get(1)) (use d2 h f in simp_all)
    also have "\<dots> = (if h = g \<and> f = Flags then v else gd_get fs1 h f)"
      unfolding p2 by (rule gd_get_put[OF d1(1,2) _ fv]) (use d1(3) h in simp)
    also have "gd_get fs1 h f = (if h = g \<and> f = FreeBlocks then ucast n else gd_get fs h f)"
      unfolding p1 by (rule gd_get_put[OF assms(1,2) h]) (use assms(3) in simp)
    finally show ?thesis by simp
  qed
  have fl: "ext2fs_bg_flags fs1 g = ext2fs_bg_flags fs g"
    using gd_put_other_field[of FreeBlocks Flags fs g "ucast n"] unfolding p1 by simp
  show "same_geo (charge_group csum fs g n x) fs" unfolding fs4 using g4 g3(1) g2(1) g1(1) same_geo_trans by blast
  have cnt: "ext2fs_free_blocks_count (ext2fs_free_blocks_count_add sb x)
      = take_bit (if has_64bit sb then 64 else 32) (ext2fs_free_blocks_count sb + x)" for sb x
    using super_counts_roundtrip[of sb x] by metis
  show "ext2fs_free_blocks_count (fs_super (charge_group csum fs g n x))
       = take_bit (if has_64bit (fs_super fs) then 64 else 32) (ext2fs_free_blocks_count (fs_super fs) + x)"
    unfolding fs4 using cnt by (simp add: fs4_def g3(2))
  show "s_free_inodes_count (fs_super (charge_group csum fs g n x)) = s_free_inodes_count (fs_super fs)"
    unfolding fs4 by (simp add: fs4_def ext2fs_free_blocks_count_add_def ext2fs_free_blocks_count_set_def Let_def g3(2))
  fix h assume h: "h < fs_group_desc_count fs"
  show "ext2fs_bg_free_blocks_count (charge_group csum fs g n x) h = (if h = g then n else ext2fs_bg_free_blocks_count fs h)"
    unfolding fs4 using get[OF h, of FreeBlocks] by (simp split: if_splits)
  show "gd_get (charge_group csum fs g n x) h f = gd_get fs h f" if "f \<notin> {FreeBlocks, Flags, Checksum}" for f
    unfolding fs4 using get[OF h, of f] that by simp
  show "ext2fs_bg_flags (charge_group csum fs g n x) h =
       (if h = g then ext2fs_bg_flags fs h AND NOT EXT2_BG_BLOCK_UNINIT else ext2fs_bg_flags fs h)"
    unfolding fs4 using get[OF h, of Flags] fl by (simp add: v_def split: if_splits)
qed

text \<open>The dirty flag is in no count.\<close>

lemma mark_dirty_frame [simp]:
  "same_geo (ext2fs_mark_super_dirty fs) fs' = same_geo fs fs'"
  "ext2fs_bg_free_blocks_count (ext2fs_mark_super_dirty fs) h = ext2fs_bg_free_blocks_count fs h"
  "ext2fs_bg_flags (ext2fs_mark_super_dirty fs) h = ext2fs_bg_flags fs h"
  "fs_super (ext2fs_mark_super_dirty fs) = fs_super fs"
  "gd_get (ext2fs_mark_super_dirty fs) h f = gd_get fs h f"
  by (simp_all add: ext2fs_mark_super_dirty_def same_geo_def gd_access_defs ext2fs_group_desc_def)
    (cases f; simp add: gd_access_defs ext2fs_group_desc_def)

lemma block_stats_charge:
  fixes af :: "'p alloc_fs"
  assumes "blk < ext2fs_blocks_count (fs_super (af_fs af))"
  shows "ext2fs_block_alloc_stats2 ops csum af blk inuse =
    af\<lparr>af_fs := ext2fs_mark_super_dirty (charge_group csum (af_fs af) (ext2fs_group_of_blk2 (af_fs af) blk)
           (ext2fs_bg_free_blocks_count (af_fs af) (ext2fs_group_of_blk2 (af_fs af) blk) - word_of_int inuse)
           (word_of_int (- inuse) * EXT2FS_CLUSTER_RATIO (af_fs af))),
       af_block_map := (if inuse > 0 then snd (ext2fs_mark_generic_bmap ops (af_block_map af) blk)
            else snd (ext2fs_unmark_generic_bmap ops (af_block_map af) blk)), af_bb_dirty := True\<rparr>"
proof -
  have R: "EXT2FS_CLUSTER_RATIO (ext2fs_group_desc_csum_set csum fs' g) = EXT2FS_CLUSTER_RATIO fs'"
    "EXT2FS_CLUSTER_RATIO (ext2fs_bg_flags_clear fs' g m) = EXT2FS_CLUSTER_RATIO fs'"
    "EXT2FS_CLUSTER_RATIO (ext2fs_bg_free_blocks_count_set fs' g n) = EXT2FS_CLUSTER_RATIO fs'" for fs' g m n
    by (simp_all add: EXT2FS_CLUSTER_RATIO_def ext2fs_group_desc_csum_set_def gd_access_defs ext2fs_bg_flags_clear_def)
  show ?thesis
    using assms unfolding ext2fs_block_alloc_stats2_def charge_group_def Let_def R by (simp add: not_le)
qed

lemma block_flag_apart [simp]: "(x AND NOT EXT2_BG_BLOCK_UNINIT) AND EXT2_BG_INODE_UNINIT = x AND EXT2_BG_INODE_UNINIT"
  by (simp add: EXT2_BG_BLOCK_UNINIT_def EXT2_BG_INODE_UNINIT_def and.assoc)

lemma unat_adjust:
  fixes x :: "'a::len word"
  assumes "int n = int (unat x) - i" "n < 2 ^ LENGTH('a)"
  shows "unat (x - word_of_int i) = n" "unat (x + word_of_int (- i)) = n"
proof -
  have "word_of_nat n = (word_of_int (int n) :: 'a word)" by simp
  also have "\<dots> = x - word_of_int i" unfolding assms(1) by simp
  finally have "x - word_of_int i = word_of_nat n" ..
  then show "unat (x - word_of_int i) = n" using assms(2) by (simp add: unat_of_nat)
  then show "unat (x + word_of_int (- i)) = n" by simp
qed

lemma ucast_fits:
  fixes n :: u32
  assumes "\<not> wide \<Longrightarrow> unat n < 2 ^ 16"
  shows "(ucast n :: u64) = take_bit (if wide then 32 else 16) (ucast n)"
  using assms unat_less32[of n]
  by (simp add: word_unat_eq_iff unsigned_take_bit_eq unsigned_ucast_eq take_bit_nat_eq_self)

lemma card_adjust:
  fixes S :: "u64 set" and i :: int
  assumes "(i = 1 \<and> c \<in> S \<and> S' = S - {c}) \<or> (i = - 1 \<and> c \<notin> S \<and> S' = insert c S)"
  shows "int (card {x \<in> S'. P x}) = int (card {x \<in> S. P x}) - (if P c then i else 0)"
    and "int (card S') = int (card S) - i"
proof -
  have c1: "card {x \<in> S. Q x} = Suc (card {x \<in> S - {c}. Q x})" if "c \<in> S" "Q c" for Q
  proof -
    have "{x \<in> S. Q x} = insert c {x \<in> S - {c}. Q x}" using that by blast
    then show ?thesis by simp
  qed
  have c2: "card {x \<in> insert c S. Q x} = Suc (card {x \<in> S. Q x})" if "c \<notin> S" "Q c" for Q
  proof -
    have "{x \<in> insert c S. Q x} = insert c {x \<in> S. Q x}" using that by blast
    then show ?thesis using that by simp
  qed
  have n: "{x \<in> S'. P x} = {x \<in> S. P x}" if "\<not> P c" using assms that by blast
  show "int (card {x \<in> S'. P x}) = int (card {x \<in> S. P x}) - (if P c then i else 0)"
    using assms c1[of P] c2[of P] n by (cases "P c") auto
  show "int (card S') = int (card S) - i" using assms c1[of "\<lambda>_. True"] c2[of "\<lambda>_. True"] by auto
qed

context bmap_backend
begin

lemma unmarked_alt: "unmarked bits b = {gb_start b..gb_end b} - clusters b"
  by (auto simp: unmarked_def)

lemma mark_or_unmark:
  assumes "good b" "drop_bit (gb_cluster_bits b) x \<in> {gb_start b..gb_end b}" "i = 1 \<or> i = (- 1 :: int)"
  defines "c \<equiv> drop_bit (gb_cluster_bits b) x"
  obtains b' where "(if i > 0 then snd (ext2fs_mark_generic_bmap ops (Some (Bitmap64 b)) x)
      else snd (ext2fs_unmark_generic_bmap ops (Some (Bitmap64 b)) x)) = Some (Bitmap64 b')"
    "good b'" "same_hdr b' b" "unmarked bits b' = (if i = 1 then unmarked bits b - {c} else insert c (unmarked bits b))"
proof (cases "i = 1")
  case True
  obtain r bm where m: "ext2fs_mark_generic_bmap ops (Some (Bitmap64 b)) x = (r, bm)" by fastforce
  obtain b' where b': "bm = Some (Bitmap64 b')" "good b'" "same_hdr b' b"
    "clusters b' = clusters b \<union> ({c} \<inter> {gb_start b..gb_end b})"
    unfolding c_def by (rule mark_generic[OF assms(1) m])
  have "unmarked bits b' = unmarked bits b - {c}"
    using b'(3) unfolding unmarked_alt b'(4) by (auto simp: same_hdr_iff)
  then show thesis using b'(1-3) True m by (intro that) simp_all
next
  case False
  then have i: "i = - 1" using assms(3) by blast
  obtain r bm where m: "ext2fs_unmark_generic_bmap ops (Some (Bitmap64 b)) x = (r, bm)" by fastforce
  obtain b' where b': "bm = Some (Bitmap64 b')" "good b'" "same_hdr b' b" "clusters b' = clusters b - {c}"
    unfolding c_def by (rule unmark_generic[OF assms(1) m])
  have "unmarked bits b' = insert c (unmarked bits b)"
    using b'(3) assms(2) unfolding unmarked_alt b'(4) c_def by (auto simp: same_hdr_iff)
  then show thesis using b'(1-3) i m by (intro that) simp_all
qed

lemma block_stats_keeps:
  fixes af :: "'p alloc_fs"
  assumes "alloc_geometry_ok (af_fs af)" "blocks_accounted wf bits af" "af_block_map af = Some (Bitmap64 b)"
    and blk: "ucast (s_first_data_block (fs_super (af_fs af))) \<le> blk" "blk < ext2fs_blocks_count (fs_super (af_fs af))"
    and i: "inuse = 1 \<and> EXT2FS_B2C (af_fs af) blk \<in> unmarked bits b \<or>
            inuse = - 1 \<and> EXT2FS_B2C (af_fs af) blk \<notin> unmarked bits b"
  obtains b' where "blocks_accounted wf bits (ext2fs_block_alloc_stats2 ops csum af blk inuse)"
    "same_geo (af_fs (ext2fs_block_alloc_stats2 ops csum af blk inuse)) (af_fs af)"
    "same_inode_counts (af_fs (ext2fs_block_alloc_stats2 ops csum af blk inuse)) (af_fs af)"
    "af_inode_map (ext2fs_block_alloc_stats2 ops csum af blk inuse) = af_inode_map af"
    "af_block_map (ext2fs_block_alloc_stats2 ops csum af blk inuse) = Some (Bitmap64 b')"
    "unmarked bits b' = (if inuse = 1 then unmarked bits b - {EXT2FS_B2C (af_fs af) blk}
       else insert (EXT2FS_B2C (af_fs af) blk) (unmarked bits b))"
proof -
  let ?fs = "af_fs af" and ?c = "EXT2FS_B2C (af_fs af) blk"
  define g where "g = ext2fs_group_of_blk2 ?fs blk"
  define W where "W = (if has_64bit (fs_super ?fs) then 64 else 32 :: nat)"
  have ok: "cluster_geometry_ok ?fs" "descs_ok ?fs" "\<not> has_64bit (fs_super ?fs) \<Longrightarrow> unat (s_clusters_per_group (fs_super ?fs)) < 2 ^ 16"
    using assms(1) by (simp_all add: alloc_geometry_ok_def Let_def)
  note bc = block_cluster[OF ok(1) blk, folded g_def]
  have map: "block_map_ok wf ?fs b"
    and cnt: "\<And>h. h < fs_group_desc_count ?fs \<Longrightarrow>
        unat (ext2fs_bg_free_blocks_count ?fs h) = card {c \<in> unmarked bits b. cluster_group ?fs c = unat h}"
    and tot: "unat (ext2fs_free_blocks_count (fs_super ?fs)) = 2 ^ fs_cluster_ratio_bits ?fs * card (unmarked bits b)"
    using assms(2,3) by (auto simp: blocks_accounted_def Let_def)
  have cb: "fs_cluster_ratio_bits ?fs < 31" using ok(1) by (simp add: cluster_geometry_ok_def Let_def)
  have good: "good b" "drop_bit (gb_cluster_bits b) blk = ?c" "?c \<in> {gb_start b..gb_end b}"
    using map cb bc(3,4) by (simp_all add: block_map_ok_def EXT2FS_B2C_def)
  define S' where "S' = (if inuse = 1 then unmarked bits b - {?c} else insert ?c (unmarked bits b))"
  have "inuse = 1 \<or> inuse = - 1" using i by blast
  then obtain b' where b': "(if inuse > 0 then snd (ext2fs_mark_generic_bmap ops (af_block_map af) blk)
            else snd (ext2fs_unmark_generic_bmap ops (af_block_map af) blk)) = Some (Bitmap64 b')"
      "good b'" "same_hdr b' b" "unmarked bits b' = S'"
    using mark_or_unmark[OF good(1), of blk inuse] good(2,3) assms(3) unfolding S'_def by metis
  have map': "block_map_ok wf ?fs b'" using map b'(2,3) by (simp add: block_map_ok_def same_hdr_iff)
  have sub: "S' \<subseteq> {gb_start b'..gb_end b'}" using b'(4) by (auto simp: unmarked_def)
  have adj: "(inuse = 1 \<and> ?c \<in> unmarked bits b \<and> S' = unmarked bits b - {?c}) \<or>
      (inuse = - 1 \<and> ?c \<notin> unmarked bits b \<and> S' = insert ?c (unmarked bits b))"
    using i by (auto simp: S'_def)
  define n where "n = ext2fs_bg_free_blocks_count ?fs g - word_of_int inuse"
  have grp: "card {c \<in> S'. cluster_group ?fs c = h} \<le> unat (s_clusters_per_group (fs_super ?fs))" for h
  proof (rule order_trans[OF card_mono clusters_fit(2)[OF assms(1) map', of h]])
    show "{c \<in> S'. cluster_group ?fs c = h} \<subseteq> {c \<in> {gb_start b'..gb_end b'}. cluster_group ?fs c = h}"
      using sub by blast
  qed simp
  have un: "unat n = card {c \<in> S'. cluster_group ?fs c = unat g}"
  proof -
    have e: "int (card {c \<in> S'. cluster_group ?fs c = unat g}) = int (unat (ext2fs_bg_free_blocks_count ?fs g)) - inuse"
      using card_adjust(1)[OF adj, of "\<lambda>c. cluster_group ?fs c = unat g"] cnt[OF bc(2)] bc(1) by (simp only: if_P)
    have "card {c \<in> S'. cluster_group ?fs c = unat g} < 2 ^ LENGTH(32)"
      using le_less_trans[OF grp unat_less32] by simp
    then show ?thesis unfolding n_def by (rule unat_adjust(1)[OF e])
  qed
  have fit: "(ucast n :: u64) = take_bit (if has_64bit (fs_super ?fs) then 32 else 16) (ucast n)"
    using un grp[of "unat g"] ok(3) by (intro ucast_fits) simp
  define x where "x = word_of_int (- inuse) * EXT2FS_CLUSTER_RATIO ?fs"
  define fs' where "fs' = ext2fs_mark_super_dirty (charge_group csum ?fs g n x)"
  note ch = charge_group_frame[OF ok(2) bc(2) fit, where csum = csum and x = x]
  have fs': "ext2fs_block_alloc_stats2 ops csum af blk inuse =
       af\<lparr>af_fs := fs', af_block_map := (if inuse > 0 then snd (ext2fs_mark_generic_bmap ops (af_block_map af) blk)
            else snd (ext2fs_unmark_generic_bmap ops (af_block_map af) blk)), af_bb_dirty := True\<rparr>"
    unfolding fs'_def using block_stats_charge[OF blk(2), where ops = ops and csum = csum and inuse = inuse, folded g_def, folded n_def x_def] .
  have fs'_fields: "same_geo fs' ?fs"
    "\<And>h. h < fs_group_desc_count ?fs \<Longrightarrow> ext2fs_bg_free_blocks_count fs' h = (if h = g then n else ext2fs_bg_free_blocks_count ?fs h)"
    "ext2fs_free_blocks_count (fs_super fs') = take_bit W
       (ext2fs_free_blocks_count (fs_super ?fs) + word_of_int (- inuse) * EXT2FS_CLUSTER_RATIO ?fs)"
    "\<And>h f. h < fs_group_desc_count ?fs \<Longrightarrow> f \<notin> {FreeBlocks, Flags, Checksum} \<Longrightarrow> gd_get fs' h f = gd_get ?fs h f"
    "\<And>h. h < fs_group_desc_count ?fs \<Longrightarrow>
       ext2fs_bg_flags fs' h = (if h = g then ext2fs_bg_flags ?fs h AND NOT EXT2_BG_BLOCK_UNINIT else ext2fs_bg_flags ?fs h)"
    "s_free_inodes_count (fs_super fs') = s_free_inodes_count (fs_super ?fs)"
    unfolding fs'_def mark_dirty_frame W_def x_def[symmetric] by ((rule ch; assumption?)+)
  note fs' = fs' fs'_fields
  have cnt': "unat (ext2fs_bg_free_blocks_count fs' h) = card {c \<in> S'. cluster_group ?fs c = unat h}"
    if h: "h < fs_group_desc_count ?fs" for h
  proof (cases "h = g")
    case True
    then show ?thesis using fs'(3)[OF h] un by simp
  next
    case False
    then have "unat g \<noteq> unat h" by (simp add: word_unat_eq_iff)
    then show ?thesis using fs'(3)[OF h] False cnt[OF h] card_adjust(1)[OF adj, of "\<lambda>c. cluster_group ?fs c = unat h"] bc(1) by simp
  qed
  have "2 ^ fs_cluster_ratio_bits ?fs * card S' \<le> 2 ^ fs_cluster_ratio_bits ?fs * card {gb_start b'..gb_end b'}"
    using sub by (intro mult_le_mono2 card_mono) simp_all
  then have lt: "2 ^ fs_cluster_ratio_bits ?fs * card S' < 2 ^ W"
    using clusters_fit(1)[OF assms(1) map'] unfolding W_def by (rule le_less_trans)
  have W64: "(2 :: nat) ^ W \<le> 2 ^ 64" by (simp add: W_def)
  have R: "EXT2FS_CLUSTER_RATIO ?fs = word_of_nat (2 ^ fs_cluster_ratio_bits ?fs)"
    by (simp add: EXT2FS_CLUSTER_RATIO_def push_bit_eq_mult)
  have "int (2 ^ fs_cluster_ratio_bits ?fs * card S') =
      int (unat (ext2fs_free_blocks_count (fs_super ?fs))) - inuse * 2 ^ fs_cluster_ratio_bits ?fs"
    unfolding of_nat_mult card_adjust(2)[OF adj] tot by (simp add: algebra_simps)
  then have tot1: "unat (ext2fs_free_blocks_count (fs_super ?fs) + word_of_int (- (inuse * 2 ^ fs_cluster_ratio_bits ?fs)))
      = 2 ^ fs_cluster_ratio_bits ?fs * card S'"
    using lt W64 by (intro unat_adjust(2)) simp_all
  have "unat (ext2fs_free_blocks_count (fs_super fs')) = 2 ^ fs_cluster_ratio_bits ?fs * card S'"
    unfolding fs'(4) using tot1 lt by (simp add: R unsigned_take_bit_eq take_bit_nat_eq_self)
  then have "blocks_accounted wf bits (af\<lparr>af_fs := fs', af_block_map := Some (Bitmap64 b'), af_bb_dirty := True\<rparr>)"
    using map' cnt' fs'(2) b'(4)
    by (auto simp: blocks_accounted_def geo_map_ok[OF fs'(2)] geo_cluster_group[OF fs'(2)] geoD(14,15)[OF fs'(2)])
  moreover have "ext2fs_bg_flags fs' h AND EXT2_BG_INODE_UNINIT = ext2fs_bg_flags ?fs h AND EXT2_BG_INODE_UNINIT"
    if "h < fs_group_desc_count ?fs" for h
    using fs'(6)[OF that] by simp
  then have "same_inode_counts fs' ?fs"
    using fs'(5)[of _ FreeInodes] fs'(5)[of _ ItableUnused] fs'(7) by (simp add: same_inode_counts_def)
  ultimately show thesis using fs'(1,2) b'(1,4) by (intro that[of b']) (simp_all add: S'_def)
qed

end


section \<open>Allocating and freeing an inode\<close>

lemma inode_uninit_cleared [simp]: "(x AND NOT EXT2_BG_INODE_UNINIT) AND EXT2_BG_INODE_UNINIT = 0"
  by (simp add: EXT2_BG_INODE_UNINIT_def and.assoc)

lemma fits_width:
  fixes n :: u32
  assumes "\<not> has_64bit (fs_super fs) \<Longrightarrow> unat n < 2 ^ 16" "f \<in> {FreeBlocks, FreeInodes, UsedDirs, ItableUnused}"
  shows "(ucast n :: u64) = take_bit (gd_width (has_64bit (fs_super fs)) f) (ucast n)"
  using ucast_fits[of "has_64bit (fs_super fs)" n] assms by auto

text \<open>The effect of \<^verbatim>\<open>ext2fs_inode_alloc_stats2\<close> on the file system, by field; the count of directories is left open.\<close>

lemma inode_stats_fs:
  fixes af :: "'p alloc_fs" and ino :: u32
  defines "fs \<equiv> af_fs af"
  defines "g \<equiv> ext2fs_group_of_ino fs ino" and "ipg \<equiv> s_inodes_per_group (fs_super fs)"
  assumes "descs_ok fs" "g < fs_group_desc_count fs" "ino \<le> s_inodes_count (fs_super fs)"
    and "n = ext2fs_bg_free_inodes_count fs g - word_of_int inuse" "\<not> has_64bit (fs_super fs) \<Longrightarrow> unat n < 2 ^ 16"
    and "u = (if ext2fs_has_group_desc_csum fs \<and> ipg - ext2fs_bg_itable_unused fs g + g * ipg + 1 \<le> ino
              then g * ipg + ipg - ino else ext2fs_bg_itable_unused fs g)"
    and "\<not> has_64bit (fs_super fs) \<Longrightarrow> unat u < 2 ^ 16"
  obtains fs' where
    "ext2fs_inode_alloc_stats2 ops csum af ino inuse isdir =
       af\<lparr>af_fs := fs', af_inode_map := (if inuse > 0 then snd (ext2fs_mark_generic_bmap ops (af_inode_map af) (ucast ino))
            else snd (ext2fs_unmark_generic_bmap ops (af_inode_map af) (ucast ino))), af_ib_dirty := True\<rparr>"
    "same_geo fs' fs"
    "\<And>h. h < fs_group_desc_count fs \<Longrightarrow> ext2fs_bg_free_inodes_count fs' h = (if h = g then n else ext2fs_bg_free_inodes_count fs h)"
    "\<And>h. h < fs_group_desc_count fs \<Longrightarrow> ext2fs_bg_itable_unused fs' h = (if h = g then u else ext2fs_bg_itable_unused fs h)"
    "\<And>h. h < fs_group_desc_count fs \<Longrightarrow> ext2fs_bg_free_blocks_count fs' h = ext2fs_bg_free_blocks_count fs h"
    "\<And>h. h < fs_group_desc_count fs \<Longrightarrow>
       ext2fs_bg_flags fs' h = (if h = g then ext2fs_bg_flags fs h AND NOT EXT2_BG_INODE_UNINIT else ext2fs_bg_flags fs h)"
    "s_free_inodes_count (fs_super fs') = s_free_inodes_count (fs_super fs) - word_of_int inuse"
    "ext2fs_free_blocks_count (fs_super fs') = ext2fs_free_blocks_count (fs_super fs)"
proof -
  define k where "k = fs_group_desc_count fs"
  define fs1 where "fs1 = ext2fs_bg_free_inodes_count_set fs g n"
  define fs2 where "fs2 = (if isdir then ext2fs_bg_used_dirs_count_set fs1 g (ext2fs_bg_used_dirs_count fs1 g + word_of_int inuse) else fs1)"
  define fs3 where "fs3 = ext2fs_bg_flags_clear fs2 g EXT2_BG_INODE_UNINIT"
  define fs4 where "fs4 = (if ext2fs_has_group_desc_csum fs3 then
                       let first_unused_inode = ipg - ext2fs_bg_itable_unused fs3 g + g * ipg + 1;
                           fs = (if ino \<ge> first_unused_inode
                                 then ext2fs_bg_itable_unused_set fs3 g (g * ipg + ipg - ino) else fs3)
                       in ext2fs_group_desc_csum_set csum fs g
                     else fs3)"
  define fs5 where "fs5 = fs4\<lparr>fs_super := (fs_super fs4)\<lparr>s_free_inodes_count := s_free_inodes_count (fs_super fs4) - word_of_int inuse\<rparr>\<rparr>"
  have p1: "fs1 = gd_put fs g FreeInodes (ucast n)" unfolding fs1_def by (rule free_inodes_put)
  have g1: "same_geo fs1 fs" "fs_super fs1 = fs_super fs" unfolding p1 by (rule geo_put put_super)+
  have d1: "descs_ok fs1" "fs_group_desc_count fs1 = k"
    using geo_descs[OF g1(1)] geoD(14)[OF g1(1)] assms(4) by (simp_all add: k_def)
  have gk: "g < k" using assms(5) by (simp add: k_def)
  have get1: "gd_get fs1 h f = (if h = g \<and> f = FreeInodes then ucast n else gd_get fs h f)" if h: "h < k" for h f
    unfolding p1 by (rule gd_get_put[OF assms(4,5) h[unfolded k_def]]) (rule fits_width; use assms(8) in simp)
  obtain x where p2: "fs2 = (if isdir then gd_put fs1 g UsedDirs x else fs1)"
    unfolding fs2_def used_dirs_put by blast
  have g2: "same_geo fs2 fs1" "fs_super fs2 = fs_super fs1" unfolding p2 by (cases isdir; simp del: gd_put.simps)+
  have d2: "descs_ok fs2" "fs_group_desc_count fs2 = k"
    using geo_descs[OF g2(1)] geoD(14)[OF g2(1)] d1 by simp_all
  have get2: "gd_get fs2 h f = gd_get fs1 h f" if "h < k" "f \<noteq> UsedDirs" for h f
    using gd_put_other_field[of UsedDirs f fs1 g x] gd_put_other_group[of fs1 g h UsedDirs x f] that d1 gk
    unfolding p2 by (cases "h = g"; cases isdir) simp_all
  define v :: u64 where "v = ucast (ext2fs_bg_flags fs2 g AND NOT EXT2_BG_INODE_UNINIT)"
  have p3: "fs3 = gd_put fs2 g Flags v" unfolding fs3_def v_def by (rule flags_clear_put[OF d2(1)]) (use d2 gk in simp)
  have g3: "same_geo fs3 fs2" "fs_super fs3 = fs_super fs2" unfolding p3 by (rule geo_put put_super)+
  have d3: "descs_ok fs3" "fs_group_desc_count fs3 = k"
    using geo_descs[OF g3(1)] geoD(14)[OF g3(1)] d2 by simp_all
  have fv: "v = take_bit (gd_width (has_64bit (fs_super fs2)) Flags) v"
    by (rule bit_word_eqI) (auto simp: v_def bit_unsigned_iff bit_take_bit_iff dest: bit_imp_le_length)
  have get3: "gd_get fs3 h f = (if h = g \<and> f = Flags then v else gd_get fs2 h f)" if "h < k" for h f
    unfolding p3 by (rule gd_get_put[OF d2(1) _ _ fv]) (use d2 gk that in simp_all)
  have s3: "fs_super fs3 = fs_super fs" "same_geo fs3 fs"
    using g1(2) g2(2) g3(2) same_geo_trans[OF g3(1) same_geo_trans[OF g2(1) g1(1)]] by simp_all
  have cs: "ext2fs_has_group_desc_csum fs3 = ext2fs_has_group_desc_csum fs" by (rule geo_csum[OF s3(2)])
  have un3: "ext2fs_bg_itable_unused fs3 g = ext2fs_bg_itable_unused fs g"
    using get3[OF gk, of ItableUnused] get2[OF gk, of ItableUnused] get1[OF gk, of ItableUnused] by simp
  define fs3' where "fs3' = gd_put fs3 g ItableUnused (ucast u)"
  have g3': "same_geo fs3' fs3" "fs_super fs3' = fs_super fs3" unfolding fs3'_def by (rule geo_put put_super)+
  have d3': "descs_ok fs3'" "fs_group_desc_count fs3' = k"
    using geo_descs[OF g3'(1)] geoD(14)[OF g3'(1)] d3 by simp_all
  have fu: "(ucast u :: u64) = take_bit (gd_width (has_64bit (fs_super fs3)) ItableUnused) (ucast u)"
    by (rule fits_width) (use assms(10) s3(1) in simp_all)
  have get3': "gd_get fs3' h f = (if h = g \<and> f = ItableUnused then ucast u else gd_get fs3 h f)" if h: "h < k" for h f
    unfolding fs3'_def by (rule gd_get_put[OF d3(1) _ _ fu]) (use d3 gk h in simp_all)
  have p4: "fs4 = (if ext2fs_has_group_desc_csum fs then
        ext2fs_group_desc_csum_set csum (if ipg - ext2fs_bg_itable_unused fs g + g * ipg + 1 \<le> ino then fs3' else fs3) g else fs3)"
    unfolding fs4_def Let_def cs un3 fs3'_def assms(9) unused_put[symmetric] ucast_back by simp
  have get4: "gd_get fs4 h f = (if h = g \<and> f = ItableUnused then ucast u else gd_get fs3 h f)" if "h < k" "f \<noteq> Checksum" for h f
    using csum_set_get(1)[of fs3' g h f csum] csum_set_get(1)[of fs3 g h f csum] that d3 d3' gk get3'[OF that(1), of f] un3
    unfolding p4 assms(9) by (cases "h = g \<and> f = ItableUnused") auto
  have g4: "same_geo fs4 fs" "fs_super fs4 = fs_super fs"
    using csum_set_get(2,3)[of fs3' g g Flags csum] csum_set_get(2,3)[of fs3 g g Flags csum] d3 d3' gk g3' s3
    unfolding p4 by (auto intro: same_geo_trans)
  have get: "gd_get fs5 h f = (if h = g \<and> f = Flags then v else if h = g \<and> f = FreeInodes then ucast n
      else if h = g \<and> f = ItableUnused then ucast u else gd_get fs h f)"
    if h: "h < k" and f: "f \<noteq> Checksum" "f \<noteq> UsedDirs" for h f
  proof -
    have "gd_get fs5 h f = gd_get fs4 h f"
      by (cases f) (simp_all add: fs5_def gd_access_defs ext2fs_group_desc_def EXT2_DESC_SIZE_def has_64bit_def)
    then show ?thesis using get4[OF h f(1)] get3[OF h, of f] get2[OF h f(2)] get1[OF h, of f] by auto
  qed
  have fl: "ext2fs_bg_flags fs2 g = ext2fs_bg_flags fs g"
    using get2[OF gk, of Flags] get1[OF gk, of Flags] by simp
  have same: "gd_get (ext2fs_mark_super_dirty fs5) h f = gd_get fs5 h f" for h f
    by (cases f) (simp_all add: ext2fs_mark_super_dirty_def gd_access_defs ext2fs_group_desc_def)
  show thesis
  proof (rule that[of "ext2fs_mark_super_dirty fs5"])
    show "ext2fs_inode_alloc_stats2 ops csum af ino inuse isdir =
       af\<lparr>af_fs := ext2fs_mark_super_dirty fs5, af_inode_map := (if inuse > 0 then snd (ext2fs_mark_generic_bmap ops (af_inode_map af) (ucast ino))
            else snd (ext2fs_unmark_generic_bmap ops (af_inode_map af) (ucast ino))), af_ib_dirty := True\<rparr>"
    proof -
      have i: "s_inodes_per_group (fs_super fs3) = ipg" by (simp add: s3(1) ipg_def)
      show ?thesis
        using assms(6) i unfolding ext2fs_inode_alloc_stats2_def Let_def fs5_def fs4_def fs3_def fs2_def fs1_def g_def fs_def assms(7)
        by (simp add: not_less)
    qed
    show "same_geo (ext2fs_mark_super_dirty fs5) fs"
      using g4 by (simp add: same_geo_def ext2fs_mark_super_dirty_def fs5_def)
    fix h assume h: "h < fs_group_desc_count fs"
    show "ext2fs_bg_free_inodes_count (ext2fs_mark_super_dirty fs5) h = (if h = g then n else ext2fs_bg_free_inodes_count fs h)"
      using get[OF h[folded k_def], of FreeInodes] same[of h FreeInodes] by (simp split: if_splits)
    show "ext2fs_bg_itable_unused (ext2fs_mark_super_dirty fs5) h = (if h = g then u else ext2fs_bg_itable_unused fs h)"
      using get[OF h[folded k_def], of ItableUnused] same[of h ItableUnused] by (simp split: if_splits)
    show "ext2fs_bg_free_blocks_count (ext2fs_mark_super_dirty fs5) h = ext2fs_bg_free_blocks_count fs h"
      using get[OF h[folded k_def], of FreeBlocks] same[of h FreeBlocks] by simp
    show "ext2fs_bg_flags (ext2fs_mark_super_dirty fs5) h =
        (if h = g then ext2fs_bg_flags fs h AND NOT EXT2_BG_INODE_UNINIT else ext2fs_bg_flags fs h)"
      using get[OF h[folded k_def], of Flags] same[of h Flags] fl by (simp add: v_def split: if_splits)
  next
    show "s_free_inodes_count (fs_super (ext2fs_mark_super_dirty fs5)) = s_free_inodes_count (fs_super fs) - word_of_int inuse"
      by (simp add: ext2fs_mark_super_dirty_def fs5_def g4(2))
    show "ext2fs_free_blocks_count (fs_super (ext2fs_mark_super_dirty fs5)) = ext2fs_free_blocks_count (fs_super fs)"
      by (simp add: ext2fs_mark_super_dirty_def fs5_def g4(2) ext2fs_free_blocks_count_def has_64bit_def)
  qed
qed


text \<open>The group of an inode, in natural numbers.\<close>

lemma inode_facts:
  assumes "inode_geometry_ok fs" "1 \<le> ino" "ino \<le> s_inodes_count (fs_super fs)"
  defines "p \<equiv> unat (s_inodes_per_group (fs_super fs))" and "g \<equiv> ext2fs_group_of_ino fs ino"
  shows "inode_group fs (ucast ino) = unat g" "g < fs_group_desc_count fs"
    "unat g * p < unat ino" "unat ino \<le> unat g * p + p" "unat (g * s_inodes_per_group (fs_super fs)) = unat g * p"
    "unat (g * s_inodes_per_group (fs_super fs) + s_inodes_per_group (fs_super fs)) = unat g * p + p"
    "unat g * p + p \<le> unat (s_inodes_count (fs_super fs))"
proof -
  have g: "0 < p" "unat (s_inodes_count (fs_super fs)) = p * unat (fs_group_desc_count fs)"
    "unat (s_inodes_count (fs_super fs)) + p < 2 ^ 32"
    using assms(1) by (simp_all add: inode_geometry_ok_def Let_def p_def)
  have i: "1 \<le> unat ino" "unat ino \<le> p * unat (fs_group_desc_count fs)"
    using assms(2,3) g(2) by (simp_all add: word_le_nat_alt)
  have "unat (ino - 1) = unat ino - 1" using assms(2) unat_minus_le[of 1 ino] by simp
  then have ug: "unat g = (unat ino - 1) div p"
    by (simp add: g_def ext2fs_group_of_ino_def unat_div p_def)
  show "inode_group fs (ucast ino) = unat g" by (simp add: inode_group_def ug p_def)
  have "unat ino - 1 < p * unat (fs_group_desc_count fs)" using i g(1) by linarith
  then have gk: "unat g < unat (fs_group_desc_count fs)"
    unfolding ug using g(1) by (simp add: div_less_iff_less_mult mult.commute)
  then show "g < fs_group_desc_count fs" by (simp add: word_less_nat_alt)
  have "unat g * p \<le> unat ino - 1" "unat ino - 1 < unat g * p + p"
    using in_group_iff[OF g(1), of "unat g" "unat ino - 1"] ug by auto
  then show "unat g * p < unat ino" "unat ino \<le> unat g * p + p" using i(1) by linarith+
  have "(unat g + 1) * p \<le> unat (fs_group_desc_count fs) * p" using gk by (intro mult_le_mono1) simp
  then show le: "unat g * p + p \<le> unat (s_inodes_count (fs_super fs))" using g(2) by (simp add: mult.commute)
  have lt: "unat g * p < 2 ^ 32" "unat g * p + p < 2 ^ 32" using le g(3) by linarith+
  show m: "unat (g * s_inodes_per_group (fs_super fs)) = unat g * p"
    using lt(1) by (simp add: unat_word_ariths p_def)
  show "unat (g * s_inodes_per_group (fs_super fs) + s_inodes_per_group (fs_super fs)) = unat g * p + p"
    using lt(2) m by (simp add: unat_word_ariths p_def)
qed

lemma inodes_fit:
  assumes "inode_geometry_ok fs" "inode_map_ok valid fs b"
  shows "card {i \<in> {gb_start b..gb_end b}. inode_group fs i = g} \<le> unat (s_inodes_per_group (fs_super fs))"
    and "card {gb_start b..gb_end b} < 2 ^ 32"
proof -
  define p where "p = unat (s_inodes_per_group (fs_super fs))"
  have p: "0 < p" "unat (s_inodes_count (fs_super fs)) + p < 2 ^ 32"
    using assms(1) by (simp_all add: inode_geometry_ok_def Let_def p_def)
  have b: "gb_start b = 1" "gb_end b = ucast (s_inodes_count (fs_super fs))" using assms(2) by (simp_all add: inode_map_ok_def)
  have "unat ` {x \<in> {gb_start b..gb_end b}. inode_group fs x = g} \<subseteq> {g * p + 1..<g * p + 1 + p}"
  proof
    fix y assume "y \<in> unat ` {x \<in> {gb_start b..gb_end b}. inode_group fs x = g}"
    then obtain x where x: "y = unat x" "1 \<le> x" "inode_group fs x = g" by (auto simp: b)
    then have "1 \<le> y" "(y - 1) div p = g" by (simp_all add: word_le_nat_alt inode_group_def p_def)
    then have "g * p \<le> y - 1 \<and> y - 1 < g * p + p" using in_group_iff[OF p(1), of g "y - 1"] by simp
    then show "y \<in> {g * p + 1..<g * p + 1 + p}" using \<open>1 \<le> y\<close> by auto
  qed
  then have "card (unat ` {x \<in> {gb_start b..gb_end b}. inode_group fs x = g}) \<le> card {g * p + 1..<g * p + 1 + p}"
    by (rule card_mono[rotated]) simp
  moreover have "card (unat ` {x \<in> {gb_start b..gb_end b}. inode_group fs x = g}) = card {x \<in> {gb_start b..gb_end b}. inode_group fs x = g}"
    by (intro card_image) (simp add: inj_on_def word_unat_eq_iff)
  ultimately show "card {i \<in> {gb_start b..gb_end b}. inode_group fs i = g} \<le> unat (s_inodes_per_group (fs_super fs))"
    by (simp add: p_def)
  show "card {gb_start b..gb_end b} < 2 ^ 32"
    using p(2) by (simp add: card_word_ivl b)
qed


lemma unused_narrow:
  assumes "\<not> has_64bit (fs_super fs)"
  shows "unat (ext2fs_bg_itable_unused fs g) < 2 ^ 16"
proof -
  define x where "x = ld16 (fs_group_desc fs) (ext2fs_group_desc fs g + 28)"
  have "unat (ext2fs_bg_itable_unused fs g) = take_bit 32 (unat x)"
    using assms by (simp add: ext2fs_bg_itable_unused_def gd_count_def Let_def unsigned_ucast_eq x_def)
  moreover have "unat x < 2 ^ LENGTH(16)" by (rule unsigned_less)
  ultimately show ?thesis using le_less_trans[OF take_bit_nat_less_eq_self[of 32 "unat x"]] by simp
qed

text \<open>The new count of unused inodes still covers no inode in use.\<close>

lemma unused_update:
  fixes ino :: u32
  assumes "inode_geometry_ok fs" "1 \<le> ino" "ino \<le> s_inodes_count (fs_super fs)"
  defines "ipg \<equiv> s_inodes_per_group (fs_super fs)" and "g \<equiv> ext2fs_group_of_ino fs ino"
  assumes "unat old \<le> unat ipg"
    and "u = (if ipg - old + g * ipg + 1 \<le> ino then g * ipg + ipg - ino else old)"
  shows "unat u \<le> unat old" "unat ino + unat u \<le> (unat g + 1) * unat ipg"
    "unat ino + unat old \<le> (unat g + 1) * unat ipg \<Longrightarrow> u = old"
proof -
  note f = inode_facts[OF assms(1-3), folded ipg_def g_def]
  have lim: "unat (s_inodes_count (fs_super fs)) + unat ipg < 2 ^ 32"
    using assms(1) by (simp add: inode_geometry_ok_def Let_def ipg_def)
  have a: "unat (ipg - old) = unat ipg - unat old" using assms(6) by (simp add: unat_minus_le word_le_nat_alt)
  have lt: "unat ipg - unat old + unat g * unat ipg + 1 < 2 ^ 32" using f(3,4,7) lim by linarith
  have "unat (ipg - old + g * ipg) = unat ipg - unat old + unat g * unat ipg"
    unfolding unat_plus_if_size a f(5) using lt by (simp add: word_size)
  then have b: "unat (ipg - old + g * ipg + 1) = unat ipg - unat old + unat g * unat ipg + 1"
    unfolding unat_plus_if_size using lt by (simp add: word_size)
  have c: "unat (g * ipg + ipg - ino) = unat g * unat ipg + unat ipg - unat ino"
    using f(4,6) by (simp add: unat_minus_le word_le_nat_alt)
  show "unat u \<le> unat old" "unat ino + unat u \<le> (unat g + 1) * unat ipg"
    using assms(6,7) b c f(3,4) by (auto simp: word_le_nat_alt not_le)
  show "u = old" if "unat ino + unat old \<le> (unat g + 1) * unat ipg"
    using assms(6,7) b that by (auto simp: word_le_nat_alt)
qed

context bmap_backend
begin

lemma inode_stats_keeps:
  fixes af :: "'p alloc_fs"
  assumes "inode_geometry_ok (af_fs af)" "inodes_accounted wf bits af" "af_inode_map af = Some (Bitmap64 b)"
    and ino: "1 \<le> ino" "ino \<le> s_inodes_count (fs_super (af_fs af))"
    and i: "inuse = 1 \<and> ucast ino \<in> unmarked bits b \<or> inuse = - 1 \<and> ucast ino \<notin> unmarked bits b"
  obtains b' where "inodes_accounted wf bits (ext2fs_inode_alloc_stats2 ops csum af ino inuse isdir)"
    "same_geo (af_fs (ext2fs_inode_alloc_stats2 ops csum af ino inuse isdir)) (af_fs af)"
    "same_block_counts (af_fs (ext2fs_inode_alloc_stats2 ops csum af ino inuse isdir)) (af_fs af)"
    "af_block_map (ext2fs_inode_alloc_stats2 ops csum af ino inuse isdir) = af_block_map af"
    "af_inode_map (ext2fs_inode_alloc_stats2 ops csum af ino inuse isdir) = Some (Bitmap64 b')"
    "unmarked bits b' = (if inuse = 1 then unmarked bits b - {ucast ino} else insert (ucast ino) (unmarked bits b))"
proof -
  let ?fs = "af_fs af" and ?c = "ucast ino :: u64"
  define g where "g = ext2fs_group_of_ino ?fs ino"
  define ipg where "ipg = s_inodes_per_group (fs_super ?fs)"
  define used where "used = {gb_start b..gb_end b} - unmarked bits b"
  note f = inode_facts[OF assms(1) ino, folded ipg_def g_def]
  have ok: "descs_ok ?fs" "\<not> has_64bit (fs_super ?fs) \<Longrightarrow> unat ipg < 2 ^ 16"
    using assms(1) by (simp_all add: inode_geometry_ok_def Let_def ipg_def)
  have map: "inode_map_ok wf ?fs b"
    and cnt: "\<And>h. h < fs_group_desc_count ?fs \<Longrightarrow>
        unat (ext2fs_bg_free_inodes_count ?fs h) = card {c \<in> unmarked bits b. inode_group ?fs c = unat h}"
    and tot: "unat (s_free_inodes_count (fs_super ?fs)) = card (unmarked bits b)"
    and lazy: "\<And>h. ext2fs_has_group_desc_csum ?fs \<Longrightarrow> h < fs_group_desc_count ?fs \<Longrightarrow>
        unat (ext2fs_bg_itable_unused ?fs h) \<le> unat ipg \<and>
        (\<forall>i\<in>used. inode_group ?fs i = unat h \<longrightarrow> ext2fs_bg_flags ?fs h AND EXT2_BG_INODE_UNINIT = 0 \<and>
           unat i + unat (ext2fs_bg_itable_unused ?fs h) \<le> (unat h + 1) * unat ipg)"
    using assms(2,3) by (auto simp: inodes_accounted_def Let_def used_def ipg_def)
  have good: "good b" "drop_bit (gb_cluster_bits b) ?c = ?c" "?c \<in> {gb_start b..gb_end b}"
    using map ino by (simp_all add: inode_map_ok_def word_le_nat_alt)
  define S' where "S' = (if inuse = 1 then unmarked bits b - {?c} else insert ?c (unmarked bits b))"
  have "inuse = 1 \<or> inuse = - 1" using i by blast
  then obtain b' where b': "(if inuse > 0 then snd (ext2fs_mark_generic_bmap ops (af_inode_map af) ?c)
            else snd (ext2fs_unmark_generic_bmap ops (af_inode_map af) ?c)) = Some (Bitmap64 b')"
      "good b'" "same_hdr b' b" "unmarked bits b' = S'"
    using mark_or_unmark[OF good(1), of ?c inuse] good(2,3) assms(3) unfolding S'_def by metis
  have map': "inode_map_ok wf ?fs b'" using map b'(2,3) by (simp add: inode_map_ok_def same_hdr_iff)
  have sub: "S' \<subseteq> {gb_start b'..gb_end b'}" using b'(4) by (auto simp: unmarked_def)
  have adj: "(inuse = 1 \<and> ?c \<in> unmarked bits b \<and> S' = unmarked bits b - {?c}) \<or>
      (inuse = - 1 \<and> ?c \<notin> unmarked bits b \<and> S' = insert ?c (unmarked bits b))"
    using i by (auto simp: S'_def)
  define n where "n = ext2fs_bg_free_inodes_count ?fs g - word_of_int inuse"
  define u where "u = (if ext2fs_has_group_desc_csum ?fs \<and> ipg - ext2fs_bg_itable_unused ?fs g + g * ipg + 1 \<le> ino
              then g * ipg + ipg - ino else ext2fs_bg_itable_unused ?fs g)"
  have grp: "card {c \<in> S'. inode_group ?fs c = h} \<le> unat ipg" for h
  proof (rule order_trans[OF card_mono inodes_fit(1)[OF assms(1) map', of h, folded ipg_def]])
    show "{c \<in> S'. inode_group ?fs c = h} \<subseteq> {c \<in> {gb_start b'..gb_end b'}. inode_group ?fs c = h}"
      using sub by blast
  qed simp
  have un: "unat n = card {c \<in> S'. inode_group ?fs c = unat g}"
  proof -
    have e: "int (card {c \<in> S'. inode_group ?fs c = unat g}) = int (unat (ext2fs_bg_free_inodes_count ?fs g)) - inuse"
      using card_adjust(1)[OF adj, of "\<lambda>c. inode_group ?fs c = unat g"] cnt[OF f(2)] f(1) by (simp only: if_P)
    have "card {c \<in> S'. inode_group ?fs c = unat g} < 2 ^ LENGTH(32)"
      using le_less_trans[OF grp unat_less32] by simp
    then show ?thesis unfolding n_def by (rule unat_adjust(1)[OF e])
  qed
  have u: "unat u \<le> unat (ext2fs_bg_itable_unused ?fs g)" "unat ino + unat u \<le> (unat g + 1) * unat ipg"
    "unat ino + unat (ext2fs_bg_itable_unused ?fs g) \<le> (unat g + 1) * unat ipg \<Longrightarrow> u = ext2fs_bg_itable_unused ?fs g"
    if csum: "ext2fs_has_group_desc_csum ?fs"
    using unused_update[OF assms(1) ino, folded ipg_def g_def, of "ext2fs_bg_itable_unused ?fs g" u]
      lazy[OF csum f(2)] csum by (simp_all add: u_def)
  have nn: "unat n < 2 ^ 16" "unat u < 2 ^ 16" if w: "\<not> has_64bit (fs_super ?fs)"
  proof -
    show "unat n < 2 ^ 16" using un grp[of "unat g"] ok(2)[OF w] by linarith
    show "unat u < 2 ^ 16"
      using u(1) unused_narrow[OF w, of g] by (cases "ext2fs_has_group_desc_csum ?fs") (auto simp: u_def)
  qed
  obtain fs' where fs': "ext2fs_inode_alloc_stats2 ops csum af ino inuse isdir =
       af\<lparr>af_fs := fs', af_inode_map := (if inuse > 0 then snd (ext2fs_mark_generic_bmap ops (af_inode_map af) (ucast ino))
            else snd (ext2fs_unmark_generic_bmap ops (af_inode_map af) (ucast ino))), af_ib_dirty := True\<rparr>"
    "same_geo fs' ?fs"
    "\<And>h. h < fs_group_desc_count ?fs \<Longrightarrow> ext2fs_bg_free_inodes_count fs' h = (if h = g then n else ext2fs_bg_free_inodes_count ?fs h)"
    "\<And>h. h < fs_group_desc_count ?fs \<Longrightarrow> ext2fs_bg_itable_unused fs' h = (if h = g then u else ext2fs_bg_itable_unused ?fs h)"
    "\<And>h. h < fs_group_desc_count ?fs \<Longrightarrow> ext2fs_bg_free_blocks_count fs' h = ext2fs_bg_free_blocks_count ?fs h"
    "\<And>h. h < fs_group_desc_count ?fs \<Longrightarrow>
       ext2fs_bg_flags fs' h = (if h = g then ext2fs_bg_flags ?fs h AND NOT EXT2_BG_INODE_UNINIT else ext2fs_bg_flags ?fs h)"
    "s_free_inodes_count (fs_super fs') = s_free_inodes_count (fs_super ?fs) - word_of_int inuse"
    "ext2fs_free_blocks_count (fs_super fs') = ext2fs_free_blocks_count (fs_super ?fs)"
    by (rule inode_stats_fs[of af ino n inuse u, folded g_def ipg_def, OF ok(1) f(2) ino(2) n_def nn(1) u_def nn(2),
          where ops = ops and csum = csum and isdir = isdir])
      (assumption | rule that)+
  have cnt': "unat (ext2fs_bg_free_inodes_count fs' h) = card {c \<in> S'. inode_group ?fs c = unat h}"
    if h: "h < fs_group_desc_count ?fs" for h
  proof (cases "h = g")
    case True
    then show ?thesis using fs'(3)[OF h] un by simp
  next
    case False
    then have "unat g \<noteq> unat h" by (simp add: word_unat_eq_iff)
    then show ?thesis using fs'(3)[OF h] False cnt[OF h] card_adjust(1)[OF adj, of "\<lambda>c. inode_group ?fs c = unat h"] f(1) by simp
  qed
  have tot': "unat (s_free_inodes_count (fs_super fs')) = card S'"
  proof -
    have "card S' \<le> card {gb_start b'..gb_end b'}" by (rule card_mono[OF _ sub]) simp
    then have "card S' < 2 ^ LENGTH(32)" using inodes_fit(2)[OF assms(1) map'] by simp
    moreover have "int (card S') = int (unat (s_free_inodes_count (fs_super ?fs))) - inuse"
      using card_adjust(2)[OF adj] tot by simp
    ultimately show ?thesis unfolding fs'(7) by (intro unat_adjust(1))
  qed
  have used': "{gb_start b'..gb_end b'} - S' = (if inuse = 1 then insert ?c used else used - {?c})"
    using b'(3) good(3) i by (auto simp: same_hdr_iff S'_def used_def)
  have lazy': "unat (ext2fs_bg_itable_unused fs' h) \<le> unat ipg \<and>
        (\<forall>i\<in>{gb_start b'..gb_end b'} - S'. inode_group ?fs i = unat h \<longrightarrow> ext2fs_bg_flags fs' h AND EXT2_BG_INODE_UNINIT = 0 \<and>
           unat i + unat (ext2fs_bg_itable_unused fs' h) \<le> (unat h + 1) * unat ipg)"
    if csum: "ext2fs_has_group_desc_csum ?fs" and h: "h < fs_group_desc_count ?fs" for h
  proof (cases "h = g")
    case False
    then have "unat g \<noteq> unat h" by (simp add: word_unat_eq_iff)
    then show ?thesis using False fs'(4,6)[OF h] lazy[OF csum h] f(1) used' by (auto split: if_splits)
  next
    case True
    have "unat i + unat u \<le> (unat h + 1) * unat ipg" if "i \<in> {gb_start b'..gb_end b'} - S'" "inode_group ?fs i = unat h" for i
    proof (cases "i = ?c")
      case True
      then show ?thesis using u(2)[OF csum] \<open>h = g\<close> by simp
    next
      case False
      then have "i \<in> used" using that(1) unfolding used' by (auto split: if_splits)
      then show ?thesis using lazy[OF csum h] that(2) u(1)[OF csum] True by fastforce
    qed
    moreover have "unat u \<le> unat ipg" using u(1)[OF csum] lazy[OF csum f(2)] by linarith
    ultimately show ?thesis using True fs'(4,6)[OF h] by simp
  qed
  have "inodes_accounted wf bits (af\<lparr>af_fs := fs', af_inode_map := Some (Bitmap64 b'), af_ib_dirty := True\<rparr>)"
    using map' cnt' tot' lazy' b'(4)
    unfolding inodes_accounted_def Let_def
    by (intro exI[of _ b']) (simp add: geo_inode_map_ok[OF fs'(2)] geo_inode_group[OF fs'(2)] geo_csum[OF fs'(2)]
        geoD(6,14)[OF fs'(2)] ipg_def)
  moreover have "same_block_counts fs' ?fs" using fs'(5,8) by (simp add: same_block_counts_def)
  ultimately show thesis using fs'(1,2) b'(1,4) by (intro that[of b']) (simp_all add: S'_def)
qed

end

end
