(* ===== verification/Alloc_Search.thy ===== *)
theory Alloc_Search
  imports Alloc_Stats
begin

text \<open>
  The searches of \<^verbatim>\<open>alloc.c\<close> on bitmaps whose contents are accounted for: a free block and a free inode.
\<close>

section \<open>Finding a block\<close>

text \<open>Writing the flags of a group and its checksum.\<close>

lemma flags_csum_frame:
  fixes fs :: ext2_filsys and csum :: gd_csum and m :: u16
  assumes "descs_ok fs" "g < fs_group_desc_count fs"
    and fs'_def: "fs' = ext2fs_mark_super_dirty (ext2fs_group_desc_csum_set csum (ext2fs_bg_flags_clear fs g m) g)"
  shows "same_geo fs' fs" "same_block_counts fs' fs" "same_inode_counts fs' fs"
proof -
  define v :: u64 where "v = ucast (ext2fs_bg_flags fs g AND NOT m)"
  define fs1 where "fs1 = gd_put fs g Flags v"
  have p: "ext2fs_bg_flags_clear fs g m = fs1"
    unfolding fs1_def v_def by (rule flags_clear_put[OF assms(1,2)])
  have fv: "v = take_bit (gd_width (has_64bit (fs_super fs)) Flags) v"
    by (rule bit_word_eqI) (auto simp: v_def bit_unsigned_iff bit_take_bit_iff dest: bit_imp_le_length)
  have get1: "gd_get fs1 h f = (if h = g \<and> f = Flags then v else gd_get fs h f)" if "h < fs_group_desc_count fs" for h f
    unfolding fs1_def by (rule gd_get_put[OF assms(1,2) that fv])
  have g1: "same_geo fs1 fs" "fs_super fs1 = fs_super fs" unfolding fs1_def by (rule geo_put put_super)+
  have d1: "descs_ok fs1" "fs_group_desc_count fs1 = fs_group_desc_count fs"
    using geo_descs[OF g1(1)] geoD(14)[OF g1(1)] assms(1) by simp_all
  have get2: "gd_get fs' h f = (if h = g \<and> f = Flags then v else gd_get fs h f)"
    if h: "h < fs_group_desc_count fs" and f: "f \<noteq> Checksum" for h f
  proof -
    have "gd_get fs' h f = gd_get (ext2fs_group_desc_csum_set csum fs1 g) h f"
      by (cases f) (simp_all add: fs'_def p ext2fs_mark_super_dirty_def gd_access_defs ext2fs_group_desc_def)
    also have "\<dots> = gd_get fs1 h f" by (rule csum_set_get(1)) (use d1 assms(2) h f in simp_all)
    finally show ?thesis using get1[OF h] by simp
  qed
  have c: "same_geo (ext2fs_group_desc_csum_set csum fs1 g) fs1" "fs_super (ext2fs_group_desc_csum_set csum fs1 g) = fs_super fs1"
    using csum_set_get(2,3)[of fs1 g g Flags csum] d1 assms(2) by simp_all
  have s2: "fs_super fs' = fs_super fs" using c(2) g1(2) by (simp add: fs'_def p ext2fs_mark_super_dirty_def)
  show "same_geo fs' fs"
    using same_geo_trans[OF c(1) g1(1)] by (simp add: fs'_def p ext2fs_mark_super_dirty_def same_geo_def)
  show "same_block_counts fs' fs" using get2[of _ FreeBlocks] s2 by (simp add: same_block_counts_def)
  show "same_inode_counts fs' fs"
    unfolding same_inode_counts_def
  proof (intro conjI allI impI)
    fix h assume h: "h < fs_group_desc_count fs"
    show "ext2fs_bg_free_inodes_count fs' h = ext2fs_bg_free_inodes_count fs h"
      "ext2fs_bg_itable_unused fs' h = ext2fs_bg_itable_unused fs h"
      using get2[OF h, of FreeInodes] get2[OF h, of ItableUnused] by simp_all
    show "ext2fs_bg_flags fs' h AND EXT2_BG_INODE_UNINIT = 0" if z: "ext2fs_bg_flags fs h AND EXT2_BG_INODE_UNINIT = 0"
    proof (cases "h = g")
      case True
      have "(ext2fs_bg_flags fs g AND NOT m) AND EXT2_BG_INODE_UNINIT = (ext2fs_bg_flags fs g AND EXT2_BG_INODE_UNINIT) AND NOT m"
        by (simp add: ac_simps)
      then show ?thesis using get2[OF h, of Flags] z True by (simp add: v_def)
    next
      case False
      then show ?thesis using get2[OF h, of Flags] z by simp
    qed
  qed (simp add: s2)
qed

lemma flags_clear_twice:
  assumes "descs_ok fs" "g < fs_group_desc_count fs"
  shows "ext2fs_bg_flags_clear (ext2fs_bg_flags_clear fs g m) g m' = ext2fs_bg_flags_clear fs g (m OR m')"
proof -
  have "ext2fs_group_desc fs g + 18 + 1 < length (fs_group_desc fs)"
    using desc_pos(2)[OF assms] by (simp split: if_splits)
  then show ?thesis
    using st16_twice[of "ext2fs_group_desc fs g + 18" "fs_group_desc fs"]
    by (simp add: ext2fs_bg_flags_clear_def ext2fs_bg_flags_def ac_simps)
qed

lemma clear_uninit_frame:
  fixes af :: "'p alloc_fs"
  assumes "descs_ok (af_fs af)" "g < fs_group_desc_count (af_fs af)"
  shows "same_geo (af_fs (clear_block_uninit csum af g)) (af_fs af)"
    "same_block_counts (af_fs (clear_block_uninit csum af g)) (af_fs af)"
    "same_inode_counts (af_fs (clear_block_uninit csum af g)) (af_fs af)"
    "af_block_map (clear_block_uninit csum af g) = af_block_map af"
    "af_inode_map (clear_block_uninit csum af g) = af_inode_map af"
  using flags_csum_frame[OF assms refl, of csum EXT2_BG_BLOCK_UNINIT]
  by (simp_all add: clear_block_uninit_def Let_def same_block_counts_def same_inode_counts_def)

lemma align_down:
  fixes x :: u64
  assumes "k < 64"
  shows "unat (x AND NOT (push_bit k 1 - 1)) = unat x div 2 ^ k * 2 ^ k"
proof -
  have "x AND NOT (push_bit k 1 - 1) = push_bit k (drop_bit k x)"
  proof -
    have "push_bit k (1 :: u64) - 1 = mask k" by (simp add: mask_eq_exp_minus_1)
    then show ?thesis
      by (simp, intro bit_word_eqI) (auto simp: bit_and_iff bit_not_iff bit_mask_iff bit_push_bit_iff bit_drop_bit_eq)
  qed
  moreover have "unat (push_bit k (drop_bit k x)) = unat x div 2 ^ k * 2 ^ k"
  proof -
    have "unat x div 2 ^ k * 2 ^ k < 2 ^ 64" using unat_less64[of x] by (meson div_times_less_eq_dividend le_less_trans)
    then show ?thesis using unat_exp64[OF assms] by (simp add: push_bit_eq_mult unat_mult64 unat_drop_bit)
  qed
  ultimately show ?thesis by simp
qed

context bmap_backend_zero
begin

text \<open>Every cluster of the bitmap has a block in the data range.\<close>

lemma cluster_has_block:
  assumes "cluster_geometry_ok fs" "block_map_ok wf fs b" "c \<in> {gb_start b..gb_end b}"
  obtains x where "ucast (s_first_data_block (fs_super fs)) \<le> x" "x \<le> ext2fs_blocks_count (fs_super fs) - 1" "EXT2FS_B2C fs x = c"
proof -
  let ?R = "2 ^ fs_cluster_ratio_bits fs :: nat"
  obtain f n cc k s where g: "f = unat (s_first_data_block (fs_super fs))" "unat (ext2fs_blocks_count (fs_super fs)) = f + n"
    "cc = unat (s_clusters_per_group (fs_super fs))" "k = unat (fs_group_desc_count fs)" "0 < n" "n \<le> k * (cc * ?R)"
    "f = s * ?R" "unat (EXT2FS_B2C fs (ucast (s_first_data_block (fs_super fs)))) = s"
    using cluster_facts[OF assms(1)] by metis
  have pr: "unat (ext2fs_blocks_count (fs_super fs) - 1) = f + n - 1" using g(2,5) by (simp add: unat_minus_nat)
  have c: "s \<le> unat c" "unat c \<le> (f + n - 1) div ?R"
    using assms(2,3) g(8) pr by (simp_all add: block_map_ok_def word_le_nat_alt) (simp add: EXT2FS_B2C_def unat_drop_bit)
  have "unat c * ?R \<le> (f + n - 1) div ?R * ?R" using c(2) by (rule mult_le_mono1)
  also have "\<dots> \<le> f + n - 1" by simp
  finally have hi: "unat c * ?R \<le> f + n - 1" .
  have lo: "f \<le> unat c * ?R" using c(1) g(7) by simp
  have lt: "unat c * ?R < 2 ^ 64" using hi pr unat_less64[of "ext2fs_blocks_count (fs_super fs) - 1"] by linarith
  define y :: u64 where "y = of_nat (unat c * ?R)"
  have u: "unat y = unat c * ?R"
    unfolding y_def using lt by (simp only: unsigned_of_nat take_bit_nat_eq_self[of "unat c * ?R" 64] len_num1 len_bit0 semiring_norm numeral_mult One_nat_def[symmetric]) (simp add: take_bit_nat_eq_self)
  show thesis
  proof (rule that[of y])
    show "ucast (s_first_data_block (fs_super fs)) \<le> y"
      using lo u g(1) by (simp add: word_le_nat_alt)
    show "y \<le> ext2fs_blocks_count (fs_super fs) - 1"
      using hi u pr by (simp add: word_le_nat_alt)
    show "EXT2FS_B2C fs y = c"
      using u by (simp add: word_unat_eq_iff EXT2FS_B2C_def unat_drop_bit)
  qed
qed

text \<open>\<^verbatim>\<open>ext2fs_new_block2\<close> on the file system's own bitmap.\<close>

lemma new_block2_spec:
  fixes af :: "'a alloc_fs"
  assumes "alloc_geometry_ok (af_fs af)" "af_block_map af = Some (Bitmap64 b)" "block_map_ok wf (af_fs af) b"
    and "op_find_first_zero ops = Some f"
    and "goal = 0 \<or> ucast (s_first_data_block (fs_super (af_fs af))) \<le> goal"
  obtains blk where "ucast (s_first_data_block (fs_super (af_fs af))) \<le> blk" "blk < ext2fs_blocks_count (fs_super (af_fs af))"
    "EXT2FS_B2C (af_fs af) blk \<in> unmarked bits b"
    "ext2fs_new_block2 ops csum None af goal None =
       Some (Inr blk, clear_block_uninit csum af (ext2fs_group_of_blk2 (af_fs af) blk))"
  | "unmarked bits b = {}" "ext2fs_new_block2 ops csum None af goal None = Some (Inl EXT2_ET_BLOCK_ALLOC_FAIL, af)"
proof -
  note found_case = that(1) and none_case = that(2)
  let ?fs = "af_fs af" and ?cb = "fs_cluster_ratio_bits (af_fs af)"
  let ?first = "ucast (s_first_data_block (fs_super ?fs)) :: u64" and ?m = "ext2fs_blocks_count (fs_super ?fs)"
  have cg: "cluster_geometry_ok ?fs" using assms(1) by (simp add: alloc_geometry_ok_def Let_def)
  obtain f0 n s where g: "f0 = unat (s_first_data_block (fs_super ?fs))" "unat ?m = f0 + n" "0 < n"
    "f0 = s * 2 ^ ?cb" "?cb < 31"
    using cluster_facts[OF cg] by metis
  have magic: "fs_magic ?fs = Some EXT2_ET_MAGIC_EXT2FS_FILSYS" using cg by (simp add: cluster_geometry_ok_def Let_def)
  have good: "good b" "gb_cluster_bits b = ?cb" using assms(3) g(5) by (simp_all add: block_map_ok_def)
  have fm: "?first < ?m" using g(1-3) by (simp add: word_less_nat_alt)
  define goal0 where "goal0 = (if goal = 0 \<or> goal \<ge> ?m then ?first else goal)"
  define goal1 where "goal1 = goal0 AND NOT (EXT2FS_CLUSTER_RATIO ?fs - 1)"
  have g0: "?first \<le> goal0" "goal0 < ?m" using assms(5) fm by (auto simp: goal0_def not_le)
  have u1: "unat goal1 = unat goal0 div 2 ^ ?cb * 2 ^ ?cb"
    unfolding goal1_def EXT2FS_CLUSTER_RATIO_def using g(5) by (intro align_down) simp
  have "s \<le> unat goal0 div 2 ^ ?cb"
    using g0(1) g(1,4) by (simp add: word_le_nat_alt) (metis div_le_mono nonzero_mult_div_cancel_right power_not_zero zero_neq_numeral)
  then have "f0 \<le> unat goal1" unfolding u1 g(4) by (rule mult_le_mono1)
  then have g1: "?first \<le> goal1" "goal1 \<le> goal0"
    using u1 g(1) by (simp_all add: word_le_nat_alt)
  have mm: "unat (?m - 1) = unat ?m - 1" "?m - 1 < ?m" "\<And>x. x \<le> ?m - 1 \<longleftrightarrow> x < ?m"
  proof -
    show u: "unat (?m - 1) = unat ?m - 1" using g(2,3) by (simp add: unat_minus_nat)
    show "?m - 1 < ?m" "x \<le> ?m - 1 \<longleftrightarrow> x < ?m" for x
      using u g(2,3) by (auto simp: word_le_nat_alt word_less_nat_alt)
  qed
  have ivl: "gb_start b \<le> drop_bit ?cb x" "drop_bit ?cb x \<le> gb_end b" if "?first \<le> x" "x < ?m" for x
    using block_cluster(3,4)[OF cg that] assms(3) by (simp_all add: block_map_ok_def EXT2FS_B2C_def)
  have free: "EXT2FS_B2C ?fs x \<in> unmarked bits b \<longleftrightarrow> drop_bit ?cb x \<notin> bits b" if "?first \<le> x" "x < ?m" for x
    using ivl[OF that] by (simp add: unmarked_def EXT2FS_B2C_def)
  have gm: "goal1 < ?m" "?first \<le> ?m - 1" using g1(2) g0(2) fm mm(3) by simp_all
  have h1: "goal1 \<le> ?m - 1" "gb_start b \<le> drop_bit (gb_cluster_bits b) goal1" "drop_bit (gb_cluster_bits b) (?m - 1) \<le> gb_end b"
    using gm mm(2,3) g1(1) ivl by (simp_all add: good(2))
  obtain r1 where r1: "ext2fs_find_first_zero_generic_bmap ops (Some (Bitmap64 b)) goal1 (?m - 1) = Some r1"
    "first_match (\<lambda>x. drop_bit ?cb x \<notin> bits b) goal1 (?m - 1) r1"
    by (rule find_first_zero_generic[OF good(1) assms(4) h1, unfolded good(2)])
  have run: "ext2fs_new_block2 ops csum None af goal None = map_option (new_block_found csum af)
      (if r1 = Inl ENOENT \<and> goal1 \<noteq> ?first
       then ext2fs_find_first_zero_generic_bmap ops (Some (Bitmap64 b)) ?first (goal1 - 1) else Some r1)"
    using r1(1) magic assms(2)
    by (simp add: ext2fs_new_block2_def Let_def goal0_def[symmetric] goal1_def[symmetric])
  have found: "thesis" if "ext2fs_new_block2 ops csum None af goal None = Some (new_block_found csum af (Inr x))"
      "?first \<le> x" "x < ?m" "drop_bit ?cb x \<notin> bits b" for x
    using found_case[of x] free[OF that(2,3)] that by (simp add: new_block_found_def)
  have none: thesis if "ext2fs_new_block2 ops csum None af goal None = Some (new_block_found csum af (Inl ENOENT))"
      and all: "\<And>x. ?first \<le> x \<Longrightarrow> x < ?m \<Longrightarrow> drop_bit ?cb x \<in> bits b"
  proof -
    have "c \<notin> unmarked bits b" for c
    proof
      assume c: "c \<in> unmarked bits b"
      then have "c \<in> {gb_start b..gb_end b}" by (simp add: unmarked_def)
      then obtain x where "?first \<le> x" "x \<le> ?m - 1" "EXT2FS_B2C ?fs x = c"
        by (rule cluster_has_block[OF cg assms(3)])
      then show False using all[of x] c mm(3) by (simp add: unmarked_def EXT2FS_B2C_def)
    qed
    then show thesis using that(1) by (intro none_case) (auto simp: new_block_found_def)
  qed
  show thesis
  proof (cases r1)
    case (Inr x)
    then show thesis using found[of x] run r1(2) g1(1) mm(3) by (auto simp: first_match_def intro: order_trans)
  next
    case (Inl e)
    then have e: "e = ENOENT" "\<And>y. goal1 \<le> y \<Longrightarrow> y < ?m \<Longrightarrow> drop_bit ?cb y \<in> bits b"
      using r1(2) mm(3) by (auto simp: first_match_def)
    show thesis
    proof (cases "goal1 = ?first")
      case True
      then show thesis using none run Inl e by auto
    next
      case False
      then have lt: "?first < goal1" using g1(1) by simp
      then have p: "\<And>y. y \<le> goal1 - 1 \<longleftrightarrow> y < goal1"
        using unat_pred[OF lt] by (auto simp: word_le_nat_alt word_less_nat_alt)
      have "?first \<le> goal1 - 1" "goal1 - 1 < ?m"
        using p[of ?first] p[of "goal1 - 1"] lt less_trans[OF _ gm(1), of "goal1 - 1"] by simp_all
      then have h2: "?first \<le> goal1 - 1" "gb_start b \<le> drop_bit (gb_cluster_bits b) ?first"
          "drop_bit (gb_cluster_bits b) (goal1 - 1) \<le> gb_end b"
        using ivl fm by (simp_all add: good(2))
      obtain r2 where r2: "ext2fs_find_first_zero_generic_bmap ops (Some (Bitmap64 b)) ?first (goal1 - 1) = Some r2"
        "first_match (\<lambda>x. drop_bit ?cb x \<notin> bits b) ?first (goal1 - 1) r2"
        by (rule find_first_zero_generic[OF good(1) assms(4) h2, unfolded good(2)])
      show thesis
      proof (cases r2)
        case (Inr x)
        then show thesis using found[of x] run Inl e(1) False r2 p less_trans[OF _ gm(1)] by (auto simp: first_match_def)
      next
        case (Inl e')
        then have "e' = ENOENT" "\<And>y. ?first \<le> y \<Longrightarrow> y < goal1 \<Longrightarrow> drop_bit ?cb y \<in> bits b"
          using r2(2) p by (auto simp: first_match_def)
        note below = this
        have "ext2fs_new_block2 ops csum None af goal None = Some (new_block_found csum af (Inl ENOENT))"
          using run \<open>r1 = Inl e\<close> Inl e(1) below(1) False r2(1) by simp
        moreover have "drop_bit ?cb x \<in> bits b" if "?first \<le> x" "x < ?m" for x
          using below(2)[OF that(1)] e(2)[OF _ that(2)] by (cases "x < goal1") simp_all
        ultimately show thesis by (rule none)
      qed
    qed
  qed
qed


text \<open>
  \<^verbatim>\<open>ext2fs_alloc_block2\<close> without a handler of the client, on a bitmap that is loaded: the outcomes.
\<close>

lemma alloc_block2_spec:
  fixes af :: "'a alloc_fs"
  assumes "alloc_geometry_ok (af_fs af)" "blocks_accounted wf bits af" "af_block_map af = Some (Bitmap64 b)"
    and "op_find_first_zero ops = Some f"
    and "goal = 0 \<or> ucast (s_first_data_block (fs_super (af_fs af))) \<le> goal"
  obtains r af' where "ext2fs_alloc_block2 ops csum None zero rd af goal = Some (r, af')"
    "blocks_accounted wf bits af'" "same_geo (af_fs af') (af_fs af)" "same_inode_counts (af_fs af') (af_fs af)"
    "af_inode_map af' = af_inode_map af"
    "case r of
       Inr blk \<Rightarrow> ucast (s_first_data_block (fs_super (af_fs af))) \<le> blk \<and> blk < ext2fs_blocks_count (fs_super (af_fs af)) \<and>
         EXT2FS_B2C (af_fs af) blk \<in> unmarked bits b \<and>
         (\<exists>b'. af_block_map af' = Some (Bitmap64 b') \<and> unmarked bits b' = unmarked bits b - {EXT2FS_B2C (af_fs af) blk})
     | Inl e \<Rightarrow> af_block_map af' = af_block_map af \<and>
         (e = EXT2_ET_BLOCK_ALLOC_FAIL \<and> unmarked bits b = {} \<or> (\<exists>blk. zero blk = Some e))"
proof -
  note goal_case = that
  have map: "block_map_ok wf (af_fs af) b" using assms(2,3) by (auto simp: blocks_accounted_def Let_def)
  have ok: "cluster_geometry_ok (af_fs af)" "descs_ok (af_fs af)"
    using assms(1) by (simp_all add: alloc_geometry_ok_def Let_def)
  show thesis
  proof (rule new_block2_spec[OF assms(1,3) map assms(4,5), where csum = csum])
    assume none: "unmarked bits b = {}" "ext2fs_new_block2 ops csum None af goal None = Some (Inl EXT2_ET_BLOCK_ALLOC_FAIL, af)"
    have "ext2fs_alloc_block2 ops csum None zero rd af goal = Some (Inl EXT2_ET_BLOCK_ALLOC_FAIL, af)"
      using none(2) assms(3) by (simp add: ext2fs_alloc_block2_def)
    then show thesis using assms(2) none(1) by (intro goal_case[of "Inl EXT2_ET_BLOCK_ALLOC_FAIL" af]) (simp_all add: same_inode_counts_def)
  next
    fix blk
    assume blk: "ucast (s_first_data_block (fs_super (af_fs af))) \<le> blk" "blk < ext2fs_blocks_count (fs_super (af_fs af))"
      "EXT2FS_B2C (af_fs af) blk \<in> unmarked bits b"
      and new: "ext2fs_new_block2 ops csum None af goal None =
        Some (Inr blk, clear_block_uninit csum af (ext2fs_group_of_blk2 (af_fs af) blk))"
    define af1 where "af1 = clear_block_uninit csum af (ext2fs_group_of_blk2 (af_fs af) blk)"
    have g: "ext2fs_group_of_blk2 (af_fs af) blk < fs_group_desc_count (af_fs af)" by (rule block_cluster(2)[OF ok(1) blk(1,2)])
    note f1 = clear_uninit_frame[OF ok(2) g, where csum = csum, folded af1_def]
    have acc1: "blocks_accounted wf bits af1" by (rule blocks_accounted_cong[OF assms(2) f1(1,2,4)])
    show thesis
    proof (cases "zero blk")
      case (Some e)
      then have "ext2fs_alloc_block2 ops csum None zero rd af goal = Some (Inl e, af1)"
        using new assms(3) by (simp add: ext2fs_alloc_block2_def af1_def)
      then show thesis using acc1 f1 Some by (intro goal_case[of "Inl e" af1]) auto
    next
      case None
      let ?af2 = "ext2fs_block_alloc_stats2 ops csum af1 blk 1"
      have run: "ext2fs_alloc_block2 ops csum None zero rd af goal = Some (Inr blk, ?af2)"
        using new assms(3) None by (simp add: ext2fs_alloc_block2_def af1_def)
      have g1: "alloc_geometry_ok (af_fs af1)" using assms(1) geo_alloc[OF f1(1)] by simp
      have c1: "EXT2FS_B2C (af_fs af1) blk = EXT2FS_B2C (af_fs af) blk" by (simp add: geo_b2c[OF f1(1)])
      have m1: "af_block_map af1 = Some (Bitmap64 b)" using f1(4) assms(3) by simp
      have b1: "ucast (s_first_data_block (fs_super (af_fs af1))) \<le> blk" "blk < ext2fs_blocks_count (fs_super (af_fs af1))"
        using blk(1,2) by (simp_all add: geoD(3)[OF f1(1)] geo_blocks[OF f1(1)])
      have i1: "1 = (1 :: int) \<and> EXT2FS_B2C (af_fs af1) blk \<in> unmarked bits b \<or>
          1 = (- 1 :: int) \<and> EXT2FS_B2C (af_fs af1) blk \<notin> unmarked bits b"
        using blk(3) c1 by simp
      obtain b' where b': "blocks_accounted wf bits ?af2" "same_geo (af_fs ?af2) (af_fs af1)"
        "same_inode_counts (af_fs ?af2) (af_fs af1)" "af_inode_map ?af2 = af_inode_map af1"
        "af_block_map ?af2 = Some (Bitmap64 b')" "unmarked bits b' = unmarked bits b - {EXT2FS_B2C (af_fs af) blk}"
        by (rule block_stats_keeps[OF g1 acc1 m1 b1 i1, where csum = csum]) (simp_all add: c1)
      have "same_inode_counts (af_fs ?af2) (af_fs af)"
        using b'(3) f1(3) geoD(14)[OF f1(1)] by (simp add: same_inode_counts_def)
      then show thesis
        using run b' f1(5) blk same_geo_trans[OF b'(2) f1(1)] by (intro goal_case[of "Inr blk" ?af2]) auto
    qed
  qed
qed

end


section \<open>Finding an inode\<close>

text \<open>The inodes \<open>ino\<close>, \<open>ino + 1\<close>, \dots that are unmarked one by one.\<close>

lemma inodes_accounted_map:
  assumes "inodes_accounted valid bits (af\<lparr>af_inode_map := Some (Bitmap64 b)\<rparr>)" "valid b'" "same_hdr b' b"
    "unmarked bits b' = unmarked bits b"
  shows "inodes_accounted valid bits (af\<lparr>af_inode_map := Some (Bitmap64 b')\<rparr>)"
  using assms by (simp add: inodes_accounted_def Let_def inode_map_ok_def same_hdr_iff)

context bmap_backend
begin

lemma unmark_inodes_spec:
  assumes "good b" "gb_cluster_bits b = 0" "\<And>k. k < n \<Longrightarrow> (ucast (ino + of_nat k) :: u64) \<notin> clusters b"
  obtains b' where "unmark_inodes ops (Some (Bitmap64 b)) ino n = Some (Bitmap64 b')" "good b'" "same_hdr b' b"
    "unmarked bits b' = unmarked bits b"
  using assms
proof (induction n arbitrary: b ino thesis)
  case 0
  then show ?case by simp
next
  case (Suc n)
  obtain r bm where m: "ext2fs_unmark_generic_bmap ops (Some (Bitmap64 b)) (ucast ino) = (r, bm)" by fastforce
  obtain b1 where b1: "bm = Some (Bitmap64 b1)" "good b1" "same_hdr b1 b" "clusters b1 = clusters b - {ucast ino}"
    by (rule unmark_generic[OF Suc.prems(2) m]) (use Suc.prems(3) in simp)
  have c1: "clusters b1 = clusters b" using b1(4) Suc.prems(4)[of 0] by simp
  have hdr: "gb_cluster_bits b1 = 0" using b1(3) Suc.prems(3) by (simp add: same_hdr_iff)
  have nx: "(ucast (ino + 1 + of_nat k) :: u64) \<notin> clusters b1" if "k < n" for k
    using Suc.prems(4)[of "Suc k"] that c1 by (simp add: add.assoc)
  obtain b' where b': "unmark_inodes ops (Some (Bitmap64 b1)) (ino + 1) n = Some (Bitmap64 b')" "good b'" "same_hdr b' b1"
    "unmarked bits b' = unmarked bits b1"
    by (rule Suc.IH[OF _ b1(2) hdr nx])
  have "unmarked bits b1 = unmarked bits b"
    unfolding unmarked_alt c1 using b1(3) by (simp add: same_hdr_iff)
  then show ?case using Suc.prems(1)[of b'] b' b1(1,3) m by simp
qed

lemma check_inode_uninit_keeps:
  fixes af :: "'p alloc_fs"
  assumes "inode_geometry_ok (af_fs af)" "inodes_accounted wf bits (af\<lparr>af_inode_map := Some (Bitmap64 b)\<rparr>)"
    "g < fs_group_desc_count (af_fs af)"
  obtains af' b' where "check_inode_uninit ops csum af (Some (Bitmap64 b)) g = (af', Some (Bitmap64 b'))"
    "inodes_accounted wf bits (af'\<lparr>af_inode_map := Some (Bitmap64 b')\<rparr>)" "same_geo (af_fs af') (af_fs af)"
    "same_block_counts (af_fs af') (af_fs af)" "af_block_map af' = af_block_map af"
    "unmarked bits b' = unmarked bits b" "same_hdr b' b"
proof (cases "ext2fs_has_group_desc_csum (af_fs af) \<and> ext2fs_bg_flags_test (af_fs af) g EXT2_BG_INODE_UNINIT \<noteq> 0")
  case False
  then show thesis
    using assms(2) by (intro that[of af b]) (auto simp: check_inode_uninit_def Let_def same_block_counts_def)
next
  case True
  let ?fs = "af_fs af" and ?ipg = "s_inodes_per_group (fs_super (af_fs af))"
  have ok: "descs_ok ?fs" "0 < unat ?ipg" "unat (s_inodes_count (fs_super ?fs)) = unat ?ipg * unat (fs_group_desc_count ?fs)"
    "unat (s_inodes_count (fs_super ?fs)) + unat ?ipg < 2 ^ 32"
    using assms(1) by (simp_all add: inode_geometry_ok_def Let_def)
  have map: "inode_map_ok wf ?fs b"
    and lazy: "\<And>i. i \<in> {gb_start b..gb_end b} - unmarked bits b \<Longrightarrow> inode_group ?fs i = unat g \<Longrightarrow>
        ext2fs_bg_flags ?fs g AND EXT2_BG_INODE_UNINIT = 0"
    using assms(2,3) True by (auto simp: inodes_accounted_def Let_def)
  have good: "good b" "gb_cluster_bits b = 0" using map by (simp_all add: inode_map_ok_def)
  have "ext2fs_bg_flags ?fs g AND EXT2_BG_INODE_UNINIT \<noteq> 0" using True by (auto simp: ext2fs_bg_flags_test_def)
  then have none: "x \<notin> clusters b" if "inode_group ?fs x = unat g" for x
    using lazy[of x] that by (auto simp: unmarked_def)
  have "(unat g + 1) * unat ?ipg \<le> unat (fs_group_desc_count ?fs) * unat ?ipg"
    using assms(3) by (intro mult_le_mono1) (simp add: word_less_nat_alt)
  then have le: "unat g * unat ?ipg + unat ?ipg \<le> unat (s_inodes_count (fs_super ?fs))" using ok(3) by (simp add: mult.commute)
  have nx: "(ucast (g * ?ipg + 1 + of_nat k :: u32) :: u64) \<notin> clusters b" if k: "k < unat ?ipg" for k
  proof (rule none)
    have lt: "unat g * unat ?ipg + 1 + k < 2 ^ 32" using le ok(4) k by linarith
    have "(g * ?ipg + 1 + of_nat k :: u32) = of_nat (unat g * unat ?ipg + 1 + k)" by simp
    then have "unat (g * ?ipg + 1 + of_nat k :: u32) = unat g * unat ?ipg + 1 + k"
      using lt by (simp only: unsigned_of_nat) (simp add: take_bit_nat_eq_self)
    then have u: "unat (ucast (g * ?ipg + 1 + of_nat k :: u32) :: u64) = unat g * unat ?ipg + 1 + k" by simp
    show "inode_group ?fs (ucast (g * ?ipg + 1 + of_nat k :: u32)) = unat g"
      unfolding inode_group_def u using k ok(2) by simp
  qed
  obtain b' where b': "unmark_inodes ops (Some (Bitmap64 b)) (g * ?ipg + 1) (unat ?ipg) = Some (Bitmap64 b')" "good b'" "same_hdr b' b"
    "unmarked bits b' = unmarked bits b"
    by (rule unmark_inodes_spec[OF good nx])
  define fs' where "fs' = ext2fs_mark_super_dirty (ext2fs_group_desc_csum_set csum
      (ext2fs_bg_flags_clear ?fs g (EXT2_BG_INODE_UNINIT OR EXT2_BG_BLOCK_UNINIT)) g)"
  note fr = flags_csum_frame[OF ok(1) assms(3) fs'_def]
  have "inodes_accounted wf bits (af\<lparr>af_fs := fs', af_ib_dirty := True, af_inode_map := Some (Bitmap64 b)\<rparr>)"
    by (rule inodes_accounted_cong[OF assms(2)]) (use fr in simp_all)
  then have acc: "inodes_accounted wf bits (af\<lparr>af_fs := fs', af_ib_dirty := True, af_inode_map := Some (Bitmap64 b')\<rparr>)"
    using inodes_accounted_map[where af = "af\<lparr>af_fs := fs', af_ib_dirty := True\<rparr>" and b = b and b' = b'] b'(2-4) by blast
  show thesis
    using True b' fr acc flags_clear_twice[OF ok(1) assms(3)]
    by (intro that[of "af\<lparr>af_fs := fs', af_ib_dirty := True\<rparr>" b']) (simp_all add: check_inode_uninit_def Let_def fs'_def)
qed

end


text \<open>
  What the search keeps: the bitmap, which it passes on, stays accounted for and has the same free inodes \<open>U\<close>.
\<close>

definition search_state :: "('p gbitmap \<Rightarrow> bool) \<Rightarrow> ('p gbitmap \<Rightarrow> u64 set) \<Rightarrow> 'p alloc_fs \<Rightarrow> u64 set \<Rightarrow> 'p alloc_fs \<Rightarrow> 'p gbitmap \<Rightarrow> bool" where
  "search_state valid bits af0 U af b \<longleftrightarrow>
     inodes_accounted valid bits (af\<lparr>af_inode_map := Some (Bitmap64 b)\<rparr>) \<and> same_geo (af_fs af) (af_fs af0) \<and>
     same_block_counts (af_fs af) (af_fs af0) \<and> af_block_map af = af_block_map af0 \<and> unmarked bits b = U"

text \<open>The searched part of the inodes, before and after the search wraps around.\<close>

definition searched :: "u64 set \<Rightarrow> u32 \<Rightarrow> u32 \<Rightarrow> u32 \<Rightarrow> u32 \<Rightarrow> bool" where
  "searched U first final start i \<longleftrightarrow>
     start \<le> i \<and> i \<le> final \<and> (\<forall>x. start \<le> x \<and> x < i \<longrightarrow> ucast x \<notin> U) \<or>
     first \<le> i \<and> i < start \<and> (\<forall>x. start \<le> x \<and> x \<le> final \<or> first \<le> x \<and> x < i \<longrightarrow> ucast x \<notin> U)"

context bmap_backend_zero
begin

text \<open>One round: the part of the inodes that it looks at, and how it goes on.\<close>

lemma new_inode_round:
  fixes af :: "'a alloc_fs" and start i :: u32
  assumes "inode_geometry_ok (af_fs af)" "search_state wf bits af0 U af b" "op_find_first_zero ops = Some f"
    and i: "1 \<le> i" "i \<le> s_inodes_count (fs_super (af_fs af))"
  defines "n \<equiv> s_inodes_count (fs_super (af_fs af))" and "ipg \<equiv> s_inodes_per_group (fs_super (af_fs af))"
  defines "up \<equiv> i + (ipg - (i - 1) mod ipg)"
  defines "up1 \<equiv> (if i < start \<and> up \<ge> start then start - 1 else up)"
  defines "fin \<equiv> (if up1 > n then n else up1)"
  obtains af' b' where "search_state wf bits af0 U af' b'" "same_geo (af_fs af') (af_fs af)"
    "i \<le> fin" "fin \<le> n" "unat (fin + 1) = unat fin + 1" "i < start \<Longrightarrow> fin < start"
    "(\<exists>z. i \<le> z \<and> z \<le> fin \<and> ucast z \<in> U \<and> new_inode_loop ops csum start af (Some (Bitmap64 b)) i = Some (Inr z, af', Some (Bitmap64 b')))
     \<or> (\<forall>z. i \<le> z \<and> z \<le> fin \<longrightarrow> ucast z \<notin> U) \<and>
       new_inode_loop ops csum start af (Some (Bitmap64 b)) i =
         (let i' = (if fin + 1 > n then EXT2_FIRST_INODE (fs_super (af_fs af)) else fin + 1)
          in if i' \<noteq> start then new_inode_loop ops csum start af' (Some (Bitmap64 b')) i'
             else Some (Inr i', af', Some (Bitmap64 b')))"
proof -
  let ?fs = "af_fs af" and ?g = "(i - 1) div ipg"
  have lim: "0 < unat ipg" "unat n + unat ipg < 2 ^ 32"
    using assms(1) by (simp_all add: inode_geometry_ok_def Let_def n_def ipg_def)
  have g: "?g < fs_group_desc_count ?fs"
    using inode_facts(2)[OF assms(1) i] by (simp add: ext2fs_group_of_ino_def ipg_def)
  have acc: "inodes_accounted wf bits (af\<lparr>af_inode_map := Some (Bitmap64 b)\<rparr>)" using assms(2) by (simp add: search_state_def)
  obtain af' b' where c: "check_inode_uninit ops csum af (Some (Bitmap64 b)) ?g = (af', Some (Bitmap64 b'))"
    "inodes_accounted wf bits (af'\<lparr>af_inode_map := Some (Bitmap64 b')\<rparr>)" "same_geo (af_fs af') ?fs"
    "same_block_counts (af_fs af') ?fs" "af_block_map af' = af_block_map af" "unmarked bits b' = unmarked bits b" "same_hdr b' b"
    by (rule check_inode_uninit_keeps[OF assms(1) acc g])
  have st: "search_state wf bits af0 U af' b'"
    using assms(2) c same_geo_trans[OF c(3)] by (auto simp: search_state_def same_block_counts_def geoD(14))
  have map: "inode_map_ok wf (af_fs af') b'" using c(2) by (auto simp: inodes_accounted_def Let_def)
  have good: "good b'" "gb_cluster_bits b' = 0" "gb_start b' = 1" "gb_end b' = ucast n"
    using map by (simp_all add: inode_map_ok_def geoD(7)[OF c(3)] n_def)
  have m: "unat ((i - 1) mod ipg) < unat ipg" using lim(1) by (simp add: unat_mod)
  have d: "0 < unat (ipg - (i - 1) mod ipg)" "unat (ipg - (i - 1) mod ipg) \<le> unat ipg"
    using m by (simp_all add: unat_minus_nat)
  have "unat i \<le> unat n" using i(2) by (simp add: word_le_nat_alt n_def)
  then have "unat i + unat (ipg - (i - 1) mod ipg) < 2 ^ 32" using d(2) lim(2) by linarith
  then have up: "unat up = unat i + unat (ipg - (i - 1) mod ipg)"
    unfolding up_def unat_plus_if_size by (simp add: word_size)
  have st1: "unat (start - 1) = unat start - 1" if "i < start" by (rule unat_pred[OF that])
  have up1: "i \<le> up1" "i < start \<Longrightarrow> up1 < start"
    using up d(1) st1 by (auto simp: up1_def word_le_nat_alt word_less_nat_alt)
  then have uo: "i \<le> fin" "fin \<le> n" "i < start \<Longrightarrow> fin < start"
    using i(2) by (auto simp: fin_def n_def)
  have us: "unat (fin + 1) = unat fin + 1"
  proof -
    have "unat fin + 1 < 2 ^ 32" using uo(2) lim by (simp add: word_le_nat_alt)
    then show ?thesis by (simp add: unat_plus_if_size word_size)
  qed
  have h: "(ucast i :: u64) \<le> ucast fin" "gb_start b' \<le> drop_bit (gb_cluster_bits b') (ucast i)"
    "drop_bit (gb_cluster_bits b') (ucast fin) \<le> gb_end b'"
    using uo(1,2) i(1) good by (simp_all add: word_le_nat_alt)
  obtain r where r: "ext2fs_find_first_zero_generic_bmap ops (Some (Bitmap64 b')) (ucast i) (ucast fin) = Some r"
    "first_match (\<lambda>x. x \<notin> bits b') (ucast i) (ucast fin) r"
    by (rule find_first_zero_generic[OF good(1) assms(3) h, unfolded good(2) drop_bit_0 id_def])
  have U: "x \<in> U \<longleftrightarrow> x \<notin> bits b'" if "ucast i \<le> x" "x \<le> ucast fin" for x
  proof -
    have "1 \<le> x" "x \<le> ucast n" using that i(1) uo(2) by (auto simp: word_le_nat_alt)
    then show ?thesis using st good(3,4) by (auto simp: search_state_def unmarked_def)
  qed
  have run: "new_inode_loop ops csum start af (Some (Bitmap64 b)) i =
      (case ext2fs_find_first_zero_generic_bmap ops (Some (Bitmap64 b')) (ucast i) (ucast fin) of
           None \<Rightarrow> None
         | Some (Inr first_zero) \<Rightarrow> Some (Inr (ucast first_zero), af', Some (Bitmap64 b'))
         | Some (Inl e) \<Rightarrow>
             if e \<noteq> ENOENT then Some (Inl EXT2_ET_INODE_ALLOC_FAIL, af', Some (Bitmap64 b'))
             else
               let i = (if fin + 1 > n then EXT2_FIRST_INODE (fs_super (af_fs af)) else fin + 1)
               in if i \<noteq> start then new_inode_loop ops csum start af' (Some (Bitmap64 b')) i
                  else Some (Inr i, af', Some (Bitmap64 b')))"
    by (subst new_inode_loop.simps)
      (simp only: Let_def c(1)[unfolded ipg_def] prod.case fin_def up1_def up_def n_def ipg_def)
  show thesis
  proof (cases r)
    case (Inr x)
    then have x: "ucast i \<le> x" "x \<le> ucast fin" "x \<in> U" using r(2) U by (auto simp: first_match_def)
    define z :: u32 where "z = ucast x"
    have z: "ucast z = x"
    proof -
      have "unat x < 2 ^ 32" using x(2) unat_less32[of fin] by (simp add: word_le_nat_alt)
      then show ?thesis by (simp add: z_def word_unat_eq_iff unsigned_ucast_eq unsigned_take_bit_eq take_bit_nat_eq_self)
    qed
    have "new_inode_loop ops csum start af (Some (Bitmap64 b)) i = Some (Inr z, af', Some (Bitmap64 b'))"
      unfolding run r(1) Inr by (simp add: z_def)
    then show thesis
      using x z by (intro that[OF st c(3) uo(1,2) us uo(3)] disjI1 exI[of _ z]) (auto simp: word_le_nat_alt)
  next
    case (Inl e)
    then have e: "e = ENOENT" and none: "\<And>x. ucast i \<le> x \<Longrightarrow> x \<le> ucast fin \<Longrightarrow> x \<notin> U"
      using r(2) U by (auto simp: first_match_def)
    have "\<forall>z. i \<le> z \<and> z \<le> fin \<longrightarrow> ucast z \<notin> U" using none by (simp add: word_le_nat_alt)
    moreover have "new_inode_loop ops csum start af (Some (Bitmap64 b)) i =
         (let i' = (if fin + 1 > n then EXT2_FIRST_INODE (fs_super (af_fs af)) else fin + 1)
          in if i' \<noteq> start then new_inode_loop ops csum start af' (Some (Bitmap64 b')) i'
             else Some (Inr i', af', Some (Bitmap64 b')))"
      unfolding run r(1) Inl e by (simp add: Let_def)
    ultimately show thesis by (intro that[OF st c(3) uo(1,2) us uo(3)] disjI2) blast+
  qed
qed


lemma new_inode_loop_spec:
  fixes af :: "'a alloc_fs" and start i :: u32
  assumes "inode_geometry_ok (af_fs af0)" "search_state wf bits af0 U af b" "op_find_first_zero ops = Some f"
    and "EXT2_FIRST_INODE (fs_super (af_fs af0)) \<le> start" "start \<le> s_inodes_count (fs_super (af_fs af0))"
    and "searched U (EXT2_FIRST_INODE (fs_super (af_fs af0))) (s_inodes_count (fs_super (af_fs af0))) start i"
  shows "\<exists>j af' b'. new_inode_loop ops csum start af (Some (Bitmap64 b)) i = Some (Inr j, af', Some (Bitmap64 b')) \<and>
    search_state wf bits af0 U af' b' \<and>
    (EXT2_FIRST_INODE (fs_super (af_fs af0)) \<le> j \<and> j \<le> s_inodes_count (fs_super (af_fs af0)) \<and> ucast j \<in> U \<or>
     j = start \<and> (\<forall>x. EXT2_FIRST_INODE (fs_super (af_fs af0)) \<le> x \<and> x \<le> s_inodes_count (fs_super (af_fs af0)) \<longrightarrow> ucast x \<notin> U))"
  using assms
proof (induction "if start \<le> i then unat (s_inodes_count (fs_super (af_fs af0))) + 1 - unat i + unat start + 1 else unat start - unat i"
    arbitrary: af b i rule: less_induct)
  case less
  define F where "F = EXT2_FIRST_INODE (fs_super (af_fs af0))"
  define n where "n = s_inodes_count (fs_super (af_fs af0))"
  have geo: "same_geo (af_fs af) (af_fs af0)" using less.prems(2) by (simp add: search_state_def)
  have F: "EXT2_FIRST_INODE (fs_super (af_fs af)) = F" "s_inodes_count (fs_super (af_fs af)) = n"
    "inode_geometry_ok (af_fs af)"
    using geo_first_inode[OF geo] geoD(7)[OF geo] geo_inode_geometry[OF geo] less.prems(1) by (simp_all add: F_def n_def)
  have F1: "1 \<le> F" "F \<le> n" using less.prems(1) by (simp_all add: inode_geometry_ok_def Let_def F_def n_def)
  have sr: "searched U F n start i" "F \<le> start" "start \<le> n" using less.prems(4-6) by (simp_all add: F_def n_def)
  have i: "F \<le> i" "i \<le> n" using sr by (auto simp: searched_def)
  have i1: "1 \<le> i" "i \<le> s_inodes_count (fs_super (af_fs af))" using i F1 F(2) by auto
  obtain af' b' fin where rd: "search_state wf bits af0 U af' b'"
    "i \<le> fin" "fin \<le> n" "unat (fin + 1) = unat fin + 1" "i < start \<Longrightarrow> fin < start"
    "(\<exists>z. i \<le> z \<and> z \<le> fin \<and> ucast z \<in> U \<and> new_inode_loop ops csum start af (Some (Bitmap64 b)) i = Some (Inr z, af', Some (Bitmap64 b')))
     \<or> (\<forall>z. i \<le> z \<and> z \<le> fin \<longrightarrow> ucast z \<notin> U) \<and>
       new_inode_loop ops csum start af (Some (Bitmap64 b)) i =
         (let i' = (if fin + 1 > n then F else fin + 1)
          in if i' \<noteq> start then new_inode_loop ops csum start af' (Some (Bitmap64 b')) i'
             else Some (Inr i', af', Some (Bitmap64 b')))"
    by (rule new_inode_round[OF F(3) less.prems(2,3) i1, where start = start and csum = csum, unfolded F(1,2)])
      (rule that, assumption+)
  define i' where "i' = (if fin + 1 > n then F else fin + 1)"
  from rd(6) show ?case
  proof
    assume "\<exists>z. i \<le> z \<and> z \<le> fin \<and> ucast z \<in> U \<and> new_inode_loop ops csum start af (Some (Bitmap64 b)) i = Some (Inr z, af', Some (Bitmap64 b'))"
    then obtain z where z: "i \<le> z" "z \<le> fin" "ucast z \<in> U"
      "new_inode_loop ops csum start af (Some (Bitmap64 b)) i = Some (Inr z, af', Some (Bitmap64 b'))" by blast
    have "F \<le> z" "z \<le> n" using z i rd(3) by auto
    then show ?case using z rd(1) unfolding F_def[symmetric] n_def[symmetric] by blast
  next
    assume no: "(\<forall>z. i \<le> z \<and> z \<le> fin \<longrightarrow> ucast z \<notin> U) \<and>
       new_inode_loop ops csum start af (Some (Bitmap64 b)) i =
         (let i' = (if fin + 1 > n then F else fin + 1)
          in if i' \<noteq> start then new_inode_loop ops csum start af' (Some (Bitmap64 b')) i'
             else Some (Inr i', af', Some (Bitmap64 b')))"
    then have run: "new_inode_loop ops csum start af (Some (Bitmap64 b)) i =
        (if i' \<noteq> start then new_inode_loop ops csum start af' (Some (Bitmap64 b')) i' else Some (Inr i', af', Some (Bitmap64 b')))"
      by (simp add: i'_def Let_def)
    have fin1: "fin + 1 > n \<longleftrightarrow> fin = n" "x < fin + 1 \<longleftrightarrow> x \<le> fin" for x
      using rd(3,4) by (auto simp: word_le_nat_alt word_less_nat_alt word_unat_eq_iff)
    have split: "ucast x \<notin> U" if "i \<le> x" "x \<le> fin" for x using no that by blast
    show ?case
    proof (cases "i' = start")
      case True
      have "ucast x \<notin> U" if x: "F \<le> x" "x \<le> n" for x
      proof (cases "start \<le> i")
        case True
        have "fin + 1 \<noteq> start" using True rd(2,4) by (auto simp: word_le_nat_alt)
        then have "fin = n" using \<open>i' = start\<close> rd(3) by (auto simp: i'_def fin1 split: if_splits)
        moreover from this have "start = F" using \<open>i' = start\<close> fin1(1) by (simp add: i'_def)
        ultimately show ?thesis using sr(1) True split[of x] x by (cases "x < i") (auto simp: searched_def)
      next
        case False
        then have "fin < start" using rd(5) by simp
        then have "fin \<noteq> n" using sr(3) by auto
        then have "fin + 1 = start" using True by (simp add: i'_def fin1(1))
        then show ?thesis
          using sr(1) False split[of x] x fin1(2)[of x] by (cases "start \<le> x"; cases "x < i") (auto simp: searched_def not_le)
      qed
      then show ?thesis using run True rd(1) unfolding F_def[symmetric] n_def[symmetric] by auto
    next
      case False
      have next1: "searched U F n start i'"
      proof (cases "start \<le> i")
        case True
        then have all: "ucast x \<notin> U" if "start \<le> x" "x \<le> fin" for x
          using sr(1) split[of x] that by (cases "x < i") (auto simp: searched_def)
        show ?thesis
        proof (cases "fin = n")
          case True
          then have "i' = F" using fin1(1) by (simp add: i'_def)
          then show ?thesis using all False sr(2) True by (auto simp: searched_def)
        next
          case fn: False
          then have "i' = fin + 1" by (simp add: i'_def fin1(1))
          moreover have "start \<le> fin + 1" "fin + 1 \<le> n"
            using True rd(2,4) fin1(1) fn by (auto simp: word_le_nat_alt not_less)
          ultimately show ?thesis using all by (auto simp: searched_def fin1(2))
        qed
      next
        case ph2: False
        then have "fin < start" using rd(5) by simp
        then have "fin \<noteq> n" using sr(3) by auto
        then have i': "i' = fin + 1" by (simp add: i'_def fin1(1))
        have "fin + 1 < start"
          using \<open>fin < start\<close> False rd(4) unfolding i' by (auto simp: word_less_nat_alt word_unat_eq_iff)
        moreover have "F \<le> fin + 1" using i(1) rd(2,4) by (auto simp: word_le_nat_alt)
        moreover have "ucast x \<notin> U" if "F \<le> x" "x < fin + 1" for x
          using sr(1) ph2 split[of x] that fin1(2)[of x] by (cases "x < i") (auto simp: searched_def)
        ultimately show ?thesis using sr(1) ph2 unfolding i' by (auto simp: searched_def)
      qed
      have dec: "(if start \<le> i' then unat n + 1 - unat i' + unat start + 1 else unat start - unat i')
          < (if start \<le> i then unat n + 1 - unat i + unat start + 1 else unat start - unat i)"
      proof (cases "fin = n")
        case True
        have "start \<le> i" using True rd(5) sr(3) by (cases "i < start") auto
        moreover have "i' = F" using True fin1(1) by (simp add: i'_def)
        moreover have "\<not> start \<le> F" using False sr(2) calculation(2) by auto
        ultimately show ?thesis by auto
      next
        case fn: False
        then have "i' = fin + 1" by (simp add: i'_def fin1(1))
        moreover have "i' \<le> n" using next1 sr(3) by (auto simp: searched_def)
        moreover have "unat i' \<noteq> unat start" using False by (simp add: word_unat_eq_iff)
        ultimately show ?thesis using rd(2,4,5) by (auto simp: word_le_nat_alt word_less_nat_alt)
      qed
      show ?thesis
        using less.hyps[OF dec[unfolded n_def] less.prems(1) rd(1) less.prems(3-5)] next1 run False
        by (simp add: F_def n_def)
    qed
  qed
qed


text \<open>\<^verbatim>\<open>ext2fs_new_inode\<close> on the file system's own bitmap: the result and what it keeps.\<close>

lemma new_inode_spec:
  fixes af :: "'a alloc_fs"
  assumes "inode_geometry_ok (af_fs af)" "inodes_accounted wf bits af" "af_inode_map af = Some (Bitmap64 b)"
    and "op_find_first_zero ops = Some f" "dir \<le> s_inodes_count (fs_super (af_fs af))"
  obtains r af' b' mp where "ext2fs_new_inode ops csum af dir None = Some (r, af', mp)"
    "inodes_accounted wf bits af'" "same_geo (af_fs af') (af_fs af)" "same_block_counts (af_fs af') (af_fs af)"
    "af_block_map af' = af_block_map af" "af_inode_map af' = Some (Bitmap64 b')" "unmarked bits b' = unmarked bits b"
    "case r of
       Inr ino \<Rightarrow> EXT2_FIRST_INODE (fs_super (af_fs af)) \<le> ino \<and> ino \<le> s_inodes_count (fs_super (af_fs af)) \<and> ucast ino \<in> unmarked bits b
     | Inl e \<Rightarrow> e = EXT2_ET_INODE_ALLOC_FAIL \<and>
         (\<forall>x. EXT2_FIRST_INODE (fs_super (af_fs af)) \<le> x \<and> x \<le> s_inodes_count (fs_super (af_fs af)) \<longrightarrow> ucast x \<notin> unmarked bits b)"
proof -
  note outcome = that
  let ?sb = "fs_super (af_fs af)" and ?U = "unmarked bits b"
  define F where "F = EXT2_FIRST_INODE ?sb"
  define n where "n = s_inodes_count ?sb"
  define st0 where "st0 = (if dir > 0 then ((dir - 1) div s_inodes_per_group ?sb) * s_inodes_per_group ?sb + 1 else 0)"
  define start where "start = (if st0 < F then F else st0)"
  have Fn: "1 \<le> F" "F \<le> n" and magic: "fs_magic (af_fs af) = Some EXT2_ET_MAGIC_EXT2FS_FILSYS"
    using assms(1) by (simp_all add: inode_geometry_ok_def Let_def F_def n_def)
  have "st0 \<le> n"
  proof (cases "dir > 0")
    case True
    then have d: "1 \<le> dir" by (simp add: word_le_nat_alt word_less_nat_alt)
    have "unat ((dir - 1) div s_inodes_per_group ?sb * s_inodes_per_group ?sb) \<le> unat dir - 1"
      using inode_facts(3,5)[OF assms(1) d assms(5)] by (simp add: ext2fs_group_of_ino_def)
    moreover have "unat (x + 1) \<le> unat x + 1" for x :: u32 by (simp add: unat_plus_if_size)
    ultimately have "unat st0 \<le> unat dir - 1 + 1" using True unfolding st0_def by (auto intro: order_trans)
    then have "unat st0 \<le> unat dir" using d by (simp add: word_le_nat_alt)
    then show ?thesis using assms(5) by (simp add: word_le_nat_alt n_def)
  qed (simp add: st0_def)
  then have start: "F \<le> start" "start \<le> n" using Fn(2) by (auto simp: start_def not_less)
  have ss: "search_state wf bits af ?U af b"
    using assms(2,3) by (simp add: search_state_def same_block_counts_def inodes_accounted_def)
  have sr: "searched ?U F n start start" using start by (auto simp: searched_def)
  obtain j af1 b1 where j: "new_inode_loop ops csum start af (Some (Bitmap64 b)) start = Some (Inr j, af1, Some (Bitmap64 b1))"
    "search_state wf bits af ?U af1 b1"
    "F \<le> j \<and> j \<le> n \<and> ucast j \<in> ?U \<or> j = start \<and> (\<forall>x. F \<le> x \<and> x \<le> n \<longrightarrow> ucast x \<notin> ?U)"
    using new_inode_loop_spec[OF assms(1) ss assms(4), folded F_def n_def, OF start sr] by blast
  have acc1: "inodes_accounted wf bits (af1\<lparr>af_inode_map := Some (Bitmap64 b1)\<rparr>)" and geo1: "same_geo (af_fs af1) (af_fs af)"
    using j(2) by (simp_all add: search_state_def)
  have map1: "inode_map_ok wf (af_fs af1) b1" using acc1 by (auto simp: inodes_accounted_def Let_def)
  have good1: "good b1" "gb_cluster_bits b1 = 0" "gb_start b1 = 1" "gb_end b1 = ucast n"
    using map1 by (simp_all add: inode_map_ok_def geoD(7)[OF geo1] n_def)
  obtain t bm where t: "ext2fs_test_generic_bmap ops (Some (Bitmap64 b1)) (ucast j) = (t, bm)" by fastforce
  obtain b2 where b2: "bm = Some (Bitmap64 b2)" "good b2" "same_hdr b2 b1" "clusters b2 = clusters b1"
    "t \<noteq> 0 \<longleftrightarrow> ucast j \<in> clusters b1"
    by (rule test_generic[OF good1(1) t]) (use good1(2) in simp)
  have U2: "unmarked bits b2 = ?U"
    using b2(3,4) j(2) unfolding unmarked_alt search_state_def by (auto simp: same_hdr_iff)
  have jn: "F \<le> j" "j \<le> n" using j(3) start by auto
  have tj: "t \<noteq> 0 \<longleftrightarrow> ucast j \<notin> ?U"
  proof -
    have "(1 :: u64) \<le> ucast j" using order_trans[OF Fn(1) jn(1)] by (simp add: word_le_nat_alt)
    moreover have "(ucast j :: u64) \<le> ucast n" using jn(2) by (simp add: word_le_nat_alt)
    moreover have "?U = {gb_start b1..gb_end b1} - bits b1" using j(2) by (simp add: search_state_def unmarked_def)
    ultimately show ?thesis unfolding b2(5) good1(3,4) by simp
  qed
  have acc2: "inodes_accounted wf bits (af1\<lparr>af_inode_map := Some (Bitmap64 b2)\<rparr>)"
    by (rule inodes_accounted_map[OF acc1]) (use b2(2,3) U2 j(2) in \<open>simp_all add: search_state_def\<close>)
  have run: "ext2fs_new_inode ops csum af dir None =
      Some (if t \<noteq> 0 then Inl EXT2_ET_INODE_ALLOC_FAIL else Inr j, af1\<lparr>af_inode_map := Some (Bitmap64 b2)\<rparr>, Some (Bitmap64 b2))"
    unfolding ext2fs_new_inode_def Let_def st0_def[symmetric] F_def[symmetric] start_def[symmetric] n_def[symmetric]
    using j(1) t b2(1) magic assms(3) start(2) by (simp add: not_less)
  show thesis
  proof (rule outcome[OF run acc2, of b2, folded F_def n_def])
    show "case if t \<noteq> 0 then Inl EXT2_ET_INODE_ALLOC_FAIL else Inr j of
        Inl e \<Rightarrow> e = EXT2_ET_INODE_ALLOC_FAIL \<and> (\<forall>x. F \<le> x \<and> x \<le> n \<longrightarrow> ucast x \<notin> ?U)
      | Inr ino \<Rightarrow> F \<le> ino \<and> ino \<le> n \<and> ucast ino \<in> ?U"
      using j(3) tj jn by auto
  qed (use geo1 j(2) U2 in \<open>simp_all add: search_state_def\<close>)
qed

end


section \<open>A file system on the bit array\<close>

text \<open>The geometry and the counts are in order.\<close>

definition accounted :: "ba_private alloc_fs \<Rightarrow> bool" where
  "accounted af \<longleftrightarrow>
     alloc_geometry_ok (af_fs af) \<and> inode_geometry_ok (af_fs af) \<and>
     blocks_accounted ba_wf ba_bits af \<and> inodes_accounted ba_wf ba_bits af"

lemma ba_find_zero: "op_find_first_zero ext2fs_blkmap64_bitarray = Some ba_find_first_zero"
  by (simp add: ext2fs_blkmap64_bitarray_def)

lemma marked_not_free:
  assumes "ba_wf b" "EXT2FS_IS_64_BITMAP (gb_magic b)" "gb_cluster_bits b < 64"
    "fst (ext2fs_test_generic_bmap ext2fs_blkmap64_bitarray (Some (Bitmap64 b)) x) \<noteq> 0"
  shows "drop_bit (gb_cluster_bits b) x \<notin> unmarked ba_bits b"
proof -
  have good: "ba_wf b \<and> EXT2FS_IS_64_BITMAP (gb_magic b) \<and> gb_cluster_bits b < 64" using assms by blast
  obtain r bm where t: "ext2fs_test_generic_bmap ext2fs_blkmap64_bitarray (Some (Bitmap64 b)) x = (r, bm)" by fastforce
  have "r \<noteq> 0 \<longleftrightarrow> drop_bit (gb_cluster_bits b) x \<in> ba_bits b \<inter> {gb_start b..gb_end b}"
    by (rule ba.test_generic[OF good t]) blast
  then show ?thesis using assms(4) t by (simp add: unmarked_def)
qed

lemma accounted_maps:
  assumes "accounted af"
  obtains b bi where "af_block_map af = Some (Bitmap64 b)" "block_map_ok ba_wf (af_fs af) b"
    "af_inode_map af = Some (Bitmap64 bi)" "inode_map_ok ba_wf (af_fs af) bi"
  using assms by (auto simp: accounted_def blocks_accounted_def inodes_accounted_def Let_def)

lemma accounted_geo:
  assumes "accounted af" "same_geo (af_fs af') (af_fs af)" "blocks_accounted ba_wf ba_bits af'" "inodes_accounted ba_wf ba_bits af'"
  shows "accounted af'"
  using assms by (simp add: accounted_def geo_alloc[OF assms(2)] geo_inode_geometry[OF assms(2)])

end
