(* ===== verification/Alloc_Range.thy ===== *)
theory Alloc_Range
  imports Alloc_Search
begin

text \<open>
  The search for a range of free blocks and its allocation.
\<close>

section \<open>Free ranges\<close>

definition block_free :: "ext2_filsys \<Rightarrow> ba_private gbitmap \<Rightarrow> u64 \<Rightarrow> bool" where
  "block_free fs b x \<longleftrightarrow> EXT2FS_B2C fs x \<in> unmarked ba_bits b"

text \<open>\<open>len\<close> free blocks from \<open>s\<close> on, all in the data range.\<close>

definition free_range :: "ext2_filsys \<Rightarrow> ba_private gbitmap \<Rightarrow> u64 \<Rightarrow> u64 \<Rightarrow> bool" where
  "free_range fs b s len \<longleftrightarrow>
     ucast (s_first_data_block (fs_super fs)) \<le> s \<and> unat s + unat len \<le> unat (ext2fs_blocks_count (fs_super fs)) \<and>
     (\<forall>x. s \<le> x \<and> unat x < unat s + unat len \<longrightarrow> block_free fs b x)"

text \<open>The two searches of a round, on the block bitmap of an accounted file system.\<close>

lemma range_searches:
  assumes "accounted af" "af_block_map af = Some (Bitmap64 b)"
  defines "first \<equiv> ucast (s_first_data_block (fs_super (af_fs af)))" and "m \<equiv> ext2fs_blocks_count (fs_super (af_fs af))"
  assumes "first \<le> s" "s \<le> e" "e < m"
  shows "\<exists>r. ext2fs_find_first_zero_generic_bmap ext2fs_blkmap64_bitarray (Some (Bitmap64 b)) s e = Some r \<and>
             first_match (block_free (af_fs af) b) s e r"
    and "\<exists>r. ext2fs_find_first_set_generic_bmap ext2fs_blkmap64_bitarray (Some (Bitmap64 b)) s e = Some r \<and>
             first_match (\<lambda>x. \<not> block_free (af_fs af) b x) s e r"
proof -
  let ?fs = "af_fs af" and ?cb = "fs_cluster_ratio_bits (af_fs af)"
  have cg: "cluster_geometry_ok ?fs" using assms(1) by (simp add: accounted_def alloc_geometry_ok_def Let_def)
  have map: "block_map_ok ba_wf ?fs b" using accounted_maps[OF assms(1)] assms(2) by (metis option.inject any_bitmap.inject(2))
  have cb: "?cb < 31" using cg by (simp add: cluster_geometry_ok_def Let_def)
  have good: "ba_wf b \<and> EXT2FS_IS_64_BITMAP (gb_magic b) \<and> gb_cluster_bits b < 64" "gb_cluster_bits b = ?cb"
    using map cb by (simp_all add: block_map_ok_def)
  have ivl: "gb_start b \<le> drop_bit ?cb x" "drop_bit ?cb x \<le> gb_end b" if "s \<le> x" "x \<le> e" for x
  proof -
    have "first \<le> x" "x < m" using assms(5-7) that by auto
    then show "gb_start b \<le> drop_bit ?cb x" "drop_bit ?cb x \<le> gb_end b"
      using block_cluster(3,4)[OF cg, of x] map by (simp_all add: block_map_ok_def EXT2FS_B2C_def first_def m_def)
  qed
  have free: "block_free ?fs b x \<longleftrightarrow> drop_bit ?cb x \<notin> ba_bits b" if "s \<le> x" "x \<le> e" for x
    using ivl[OF that] by (simp add: block_free_def unmarked_def EXT2FS_B2C_def)
  have cong: "first_match P s e r = first_match Q s e r" if "\<And>x. s \<le> x \<Longrightarrow> x \<le> e \<Longrightarrow> P x = Q x" for P Q r
    using that unfolding first_match_def by (auto split: sum.splits)
  note h = assms(6) ivl(1)[OF order_refl assms(6), folded good(2)] ivl(2)[OF assms(6) order_refl, folded good(2)]
  show "\<exists>r. ext2fs_find_first_zero_generic_bmap ext2fs_blkmap64_bitarray (Some (Bitmap64 b)) s e = Some r \<and>
             first_match (block_free (af_fs af) b) s e r"
    by (rule ba.find_first_zero_generic[OF good(1) ba_find_zero h]) (use cong[OF free] good(2) in auto)
  have fs: "op_find_first_set ext2fs_blkmap64_bitarray = Some ba_find_first_set"
    by (simp add: ext2fs_blkmap64_bitarray_def)
  show "\<exists>r. ext2fs_find_first_set_generic_bmap ext2fs_blkmap64_bitarray (Some (Bitmap64 b)) s e = Some r \<and>
             first_match (\<lambda>x. \<not> block_free (af_fs af) b x) s e r"
    by (rule ba.find_first_set_generic[OF good(1) fs h])
      (use cong[of "\<lambda>x. \<not> block_free (af_fs af) b x" "\<lambda>x. drop_bit ?cb x \<in> ba_bits b"] free good(2) in auto)
qed


text \<open>A round: no block is free from \<open>start\<close> on, or \<open>s\<close> is the first free one and the blocks from \<open>s\<close> to before \<open>e\<close> are free.\<close>

lemma range_round:
  assumes "accounted af" "af_block_map af = Some (Bitmap64 b)"
  defines "first \<equiv> ucast (s_first_data_block (fs_super (af_fs af)))" and "m \<equiv> ext2fs_blocks_count (fs_super (af_fs af))"
    and "free \<equiv> block_free (af_fs af) b"
  assumes "first \<le> start" "start < m" "len \<noteq> 0" "unat m + unat len \<le> 2 ^ 64"
  obtains
    (none) "\<And>x. start \<le> x \<Longrightarrow> x < m \<Longrightarrow> \<not> free x"
      "new_range_round ext2fs_blkmap64_bitarray fixed_goal min_length (fs_super (af_fs af)) goal len (Some (Bitmap64 b)) start looped =
        Some (if fixed_goal \<or> start = first then Inl (Inl EXT2_ET_BLOCK_ALLOC_FAIL) else Inr (first, looped))"
  | (found) s e where "start \<le> s" "s < m" "\<And>x. start \<le> x \<Longrightarrow> x < s \<Longrightarrow> \<not> free x" "s < e" "e \<le> m" "unat e \<le> unat s + unat len"
      "\<And>x. s \<le> x \<Longrightarrow> x < e \<Longrightarrow> free x" "unat e = unat s + unat len \<or> e = m \<or> \<not> free e"
      "new_range_round ext2fs_blkmap64_bitarray fixed_goal min_length (fs_super (af_fs af)) goal len (Some (Bitmap64 b)) start looped =
        Some (if fixed_goal \<and> s \<noteq> goal then Inl (Inl EXT2_ET_BLOCK_ALLOC_FAIL)
              else if \<not> min_length \<or> e - s \<ge> len then Inl (Inr (s, e - s))
              else if fixed_goal then Inl (Inl EXT2_ET_BLOCK_ALLOC_FAIL)
              else if e = m then (if looped then Inl (Inl EXT2_ET_BLOCK_ALLOC_FAIL) else Inr (first, True))
              else Inr (e, looped))"
proof -
  note none_case = that(1) and found_case = that(2)
  let ?round = "new_range_round ext2fs_blkmap64_bitarray fixed_goal min_length (fs_super (af_fs af)) goal len (Some (Bitmap64 b)) start looped"
  note srch = range_searches[OF assms(1,2), folded first_def m_def free_def]
  have m1: "unat (m - 1) = unat m - 1" "0 < unat m"
    using assms(7) by (auto simp: unat_pred word_less_nat_alt)
  have le1: "x \<le> m - 1 \<longleftrightarrow> x < m" for x using m1 by (auto simp: word_le_nat_alt word_less_nat_alt)
  have s1: "start \<le> m - 1" "m - 1 < m" using assms(7) le1 by auto
  obtain r where r: "ext2fs_find_first_zero_generic_bmap ext2fs_blkmap64_bitarray (Some (Bitmap64 b)) start (m - 1) = Some r"
    "first_match free start (m - 1) r"
    using srch(1)[OF assms(6) s1] by blast
  show thesis
  proof (cases r)
    case (Inl err)
    then have e: "err = ENOENT" "\<And>x. start \<le> x \<Longrightarrow> x < m \<Longrightarrow> \<not> free x" using r(2) le1 by (auto simp: first_match_def)
    have "?round = Some (if fixed_goal \<or> start = first then Inl (Inl EXT2_ET_BLOCK_ALLOC_FAIL) else Inr (first, looped))"
      using r(1) Inl e(1) by (simp add: new_range_round_def first_def m_def)
    then show thesis using e(2) by (intro none_case)
  next
    case (Inr s)
    then have s: "start \<le> s" "s < m" "free s" "\<And>x. start \<le> x \<Longrightarrow> x < s \<Longrightarrow> \<not> free x"
      using r(2) le1 by (auto simp: first_match_def)
    define c where "c = (if s + len - 1 < m - 1 then s + len - 1 else m - 1)"
    have "0 < unat len" using assms(8) by (simp add: unat_gt_0)
    moreover have "unat s + unat len < 2 ^ 64" using s(2) assms(9) by (simp add: word_less_nat_alt)
    ultimately have sl: "unat (s + len - 1) = unat s + unat len - 1" "unat s \<le> unat s + unat len - 1"
      using unat_plus64[of s len] by (simp_all add: unat_minus_nat)
    have c: "unat c + 1 = min (unat s + unat len) (unat m)" "s \<le> c" "c < m"
      using sl m1 s(2) \<open>0 < unat len\<close> by (auto simp: c_def word_le_nat_alt word_less_nat_alt)
    have "first \<le> s" using assms(6) s(1) by simp
    then obtain q where q: "ext2fs_find_first_set_generic_bmap ext2fs_blkmap64_bitarray (Some (Bitmap64 b)) s c = Some q"
      "first_match (\<lambda>x. \<not> free x) s c q"
      using srch(2)[OF _ c(2,3)] by blast
    define e where "e = (case q of Inr x \<Rightarrow> x | Inl _ \<Rightarrow> c + 1)"
    have c1: "unat (c + 1) = unat c + 1" by (rule unat_succ_below[OF c(3)])
    have e: "s < e \<and> e \<le> m \<and> unat e \<le> unat s + unat len \<and> (\<forall>x. s \<le> x \<and> x < e \<longrightarrow> free x) \<and>
        (unat e = unat s + unat len \<or> e = m \<or> \<not> free e)"
    proof (cases q)
      case (Inl err)
      then have fr: "free x" if "s \<le> x" "x \<le> c" for x using q(2) that by (auto simp: first_match_def)
      have lt: "x < c + 1 \<longleftrightarrow> x \<le> c" for x using c1 by (auto simp: word_le_nat_alt word_less_nat_alt)
      have "unat (c + 1) = unat s + unat len \<or> c + 1 = m" using c(1) c1 by (simp add: min_def word_unat_eq_iff split: if_splits)
      then show ?thesis using Inl c c1 fr lt by (auto simp: e_def word_le_nat_alt word_less_nat_alt min_def split: if_splits)
    next
      case (Inr x)
      then have x: "s \<le> x" "x \<le> c" "\<not> free x" "\<And>y. s \<le> y \<Longrightarrow> y < x \<Longrightarrow> free y" using q(2) by (auto simp: first_match_def)
      then have "s \<noteq> x" using s(3) by blast
      then have "s < x" using x(1) by simp
      then show ?thesis using Inr x c(1,3) by (auto simp: e_def word_le_nat_alt word_less_nat_alt order_le_less)
    qed
    have qe: "(case q of Inr e \<Rightarrow> Inr e | Inl e \<Rightarrow> if e = ENOENT then Inr (c + 1) else Inl e) = Inr e"
      using q(2) by (cases q) (auto simp: e_def first_match_def)
    have round: "?round =
        Some (if fixed_goal \<and> s \<noteq> goal then Inl (Inl EXT2_ET_BLOCK_ALLOC_FAIL)
              else if \<not> min_length \<or> e - s \<ge> len then Inl (Inr (s, e - s))
              else if fixed_goal then Inl (Inl EXT2_ET_BLOCK_ALLOC_FAIL)
              else if e \<ge> m then (if looped then Inl (Inl EXT2_ET_BLOCK_ALLOC_FAIL) else Inr (first, True))
              else Inr (e, looped))"
      unfolding new_range_round_def Let_def m_def[symmetric] first_def[symmetric] r(1) Inr bind.simps sum.case
        c_def[symmetric] q(1) option.map qe
      by simp
    have em: "e \<ge> m \<longleftrightarrow> e = m" using e by auto
    show thesis
      by (rule found_case[of s e]) (use s e round[unfolded em] in auto)
  qed
qed

section \<open>The search that does not end\<close>

lemma new_range_stuck:
  assumes "accounted af" "af_block_map af = Some (Bitmap64 b)"
  defines "first \<equiv> ucast (s_first_data_block (fs_super (af_fs af)))" and "m \<equiv> ext2fs_blocks_count (fs_super (af_fs af))"
  assumes "len \<noteq> 0" "unat m + unat len \<le> 2 ^ 64" "\<not> block_free (af_fs af) b (m - 1)"
    and "first \<le> x0" "x0 < m" "block_free (af_fs af) b x0" "\<And>s. \<not> free_range (af_fs af) b s len"
    and start: "first \<le> start" "start < m"
  shows "new_range_loop ext2fs_blkmap64_bitarray csum False True goal len (Some (Bitmap64 b)) af start False = None"
proof (rule ccontr)
  assume "new_range_loop ext2fs_blkmap64_bitarray csum False True goal len (Some (Bitmap64 b)) af start False \<noteq> None"
  then obtain y where y: "new_range_loop ext2fs_blkmap64_bitarray csum False True goal len (Some (Bitmap64 b)) af start False = Some y" by blast
  let ?stuck = "\<lambda>(ops :: (ba_private, ba_mem) bitmap_ops) fixed min_l l mp a st lp.
    ops = ext2fs_blkmap64_bitarray \<and> \<not> fixed \<and> min_l \<and> l = len \<and> mp = Some (Bitmap64 b) \<and> a = af \<and> \<not> lp \<and> first \<le> st \<and> st < m"
  have "\<not> ?stuck ext2fs_blkmap64_bitarray False True len (Some (Bitmap64 b)) af start False"
  proof (rule new_range_loop.raw_induct[OF _ y, where P = "\<lambda>ops csum fixed min_l goal l mp a st lp r. \<not> ?stuck ops fixed min_l l mp a st lp"])
    fix loop ops csum fixed min_l goal l mp a st lp r
    assume IH: "\<And>ops csum fixed min_l goal l mp a st lp r. loop ops csum fixed min_l goal l mp a st lp = Some r \<Longrightarrow> \<not> ?stuck ops fixed min_l l mp a st lp"
      and st: "(if lp \<and> \<not> st \<le> goal then Some (Inl EXT2_ET_BLOCK_ALLOC_FAIL, a)
        else case new_range_round ops fixed min_l (fs_super (af_fs a)) goal l mp st lp of
             None \<Rightarrow> None
           | Some (Inl (Inl e)) \<Rightarrow> Some (Inl e, a)
           | Some (Inl (Inr (pblk, plen))) \<Rightarrow> map_option (\<lambda>af. (Inr (pblk, plen), af)) (clear_uninit_loop csum a pblk (pblk + plen))
           | Some (Inr (start, looped)) \<Rightarrow> loop ops csum fixed min_l goal l mp a start looped) = Some r"
    show "\<not> ?stuck ops fixed min_l l mp a st lp"
    proof
      assume k: "?stuck ops fixed min_l l mp a st lp"
      then have b: "first \<le> st" "st < m" by simp_all
      have m0: "m - 1 < m" "first \<le> m - 1" using b(2) assms(8,9) unat_pred[OF b(2)]
        by (auto simp: word_le_nat_alt word_less_nat_alt)
      have "\<exists>st'. new_range_round ops fixed min_l (fs_super (af_fs a)) goal l mp st lp = Some (Inr (st', False)) \<and> first \<le> st' \<and> st' < m"
      proof (rule range_round[OF assms(1,2), folded first_def m_def, OF b assms(5,6),
            where fixed_goal = fixed and min_length = min_l and goal = goal and looped = lp])
        assume none: "\<And>x. st \<le> x \<Longrightarrow> x < m \<Longrightarrow> \<not> block_free (af_fs af) b x"
          and rd: "new_range_round ext2fs_blkmap64_bitarray fixed min_l (fs_super (af_fs af)) goal len (Some (Bitmap64 b)) st lp =
            Some (if fixed \<or> st = first then Inl (Inl EXT2_ET_BLOCK_ALLOC_FAIL) else Inr (first, lp))"
        have "st \<noteq> first" using none[of x0] assms(8-10) by blast
        then show ?thesis using k rd b by auto
      next
        fix s e
        assume f: "st \<le> s" "s < m" "s < e" "e \<le> m" "unat e \<le> unat s + unat len"
          "\<And>x. s \<le> x \<Longrightarrow> x < e \<Longrightarrow> block_free (af_fs af) b x"
          and rd: "new_range_round ext2fs_blkmap64_bitarray fixed min_l (fs_super (af_fs af)) goal len (Some (Bitmap64 b)) st lp =
            Some (if fixed \<and> s \<noteq> goal then Inl (Inl EXT2_ET_BLOCK_ALLOC_FAIL)
              else if \<not> min_l \<or> e - s \<ge> len then Inl (Inr (s, e - s))
              else if fixed then Inl (Inl EXT2_ET_BLOCK_ALLOC_FAIL)
              else if e = m then (if lp then Inl (Inl EXT2_ET_BLOCK_ALLOC_FAIL) else Inr (first, True))
              else Inr (e, lp))"
        have "unat e \<noteq> unat s + unat len"
        proof
          assume "unat e = unat s + unat len"
          then have "free_range (af_fs af) b s len"
            using f b(1) by (auto simp: free_range_def first_def[symmetric] m_def[symmetric] word_le_nat_alt word_less_nat_alt)
          then show False using assms(11) by blast
        qed
        then have "unat (e - s) < unat len" using f(3,5) by (subst unat_minus_nat) (auto simp: word_less_nat_alt)
        then have "\<not> len \<le> e - s" by (simp add: word_le_nat_alt)
        moreover have "e \<noteq> m"
        proof
          assume "e = m"
          then have "block_free (af_fs af) b (m - 1)" using f(2,3,6) m0(1) unat_pred[OF f(2)]
            by (intro f(6)) (auto simp: word_le_nat_alt word_less_nat_alt)
          then show False using assms(7) by blast
        qed
        ultimately show ?thesis using k rd f b(1) by auto
      qed
      then show False using st k IH by fastforce
    qed
  qed
  then show False using start by simp
qed


section \<open>What a found range is\<close>

lemma clear_uninit_loop_frame:
  fixes af :: "ba_private alloc_fs"
  assumes "accounted af" "ucast (s_first_data_block (fs_super (af_fs af))) \<le> s" "e \<le> ext2fs_blocks_count (fs_super (af_fs af))"
    and "unat e + unat (s_blocks_per_group (fs_super (af_fs af))) \<le> 2 ^ 64"
  shows "\<exists>af'. clear_uninit_loop csum af s e = Some af' \<and> accounted af' \<and> same_geo (af_fs af') (af_fs af) \<and>
    af_block_map af' = af_block_map af \<and> af_inode_map af' = af_inode_map af"
  using assms
proof (induction "unat e - unat s" arbitrary: af s rule: less_induct)
  case less
  show ?case
  proof (cases "s < e")
    case False
    then show ?thesis using less.prems(1) by (subst clear_uninit_loop.simps) auto
  next
    case True
    let ?fs = "af_fs af" and ?p = "s_blocks_per_group (fs_super (af_fs af))"
    define af1 where "af1 = clear_block_uninit csum af (ext2fs_group_of_blk2 ?fs s)"
    have a: "alloc_geometry_ok ?fs" "blocks_accounted ba_wf ba_bits af" "inodes_accounted ba_wf ba_bits af"
      using less.prems(1) by (simp_all add: accounted_def)
    have ok: "cluster_geometry_ok ?fs" "descs_ok ?fs" using a(1) by (simp_all add: alloc_geometry_ok_def Let_def)
    have sm: "s < ext2fs_blocks_count (fs_super ?fs)" using True less.prems(3) by simp
    have g: "ext2fs_group_of_blk2 ?fs s < fs_group_desc_count ?fs" by (rule block_cluster(2)[OF ok(1) less.prems(2) sm])
    note f = clear_uninit_frame[OF ok(2) g, where csum = csum, folded af1_def]
    have acc: "accounted af1"
      by (rule accounted_geo[OF less.prems(1) f(1) blocks_accounted_cong[OF a(2) f(1,2,4)] inodes_accounted_cong[OF a(3) f(1,3,5)]])
    have p0: "0 < unat ?p" using ok(1) unfolding cluster_geometry_ok_def geometry_ok_def Let_def by blast
    have u: "unat (s + ucast ?p) = unat s + unat ?p"
      using True less.prems(4) by (subst unat_plus64) (simp_all add: word_less_nat_alt)
    have lt: "unat e - unat (s + ucast ?p) < unat e - unat s" using u p0 True by (simp add: word_less_nat_alt)
    have nx: "ucast (s_first_data_block (fs_super (af_fs af1))) \<le> s + ucast ?p" "e \<le> ext2fs_blocks_count (fs_super (af_fs af1))"
      "unat e + unat (s_blocks_per_group (fs_super (af_fs af1))) \<le> 2 ^ 64"
      using less.prems(2-4) u by (simp_all add: geoD(3,4)[OF f(1)] geo_blocks[OF f(1)] word_le_nat_alt)
    obtain af' where "clear_uninit_loop csum af1 (s + ucast ?p) e = Some af'" "accounted af'" "same_geo (af_fs af') (af_fs af1)"
      "af_block_map af' = af_block_map af1" "af_inode_map af' = af_inode_map af1"
      using less.hyps[OF lt acc nx] by blast
    moreover from this have "same_geo (af_fs af') ?fs" using same_geo_trans[OF _ f(1)] by blast
    ultimately show ?thesis using True f(4,5) by (subst clear_uninit_loop.simps) (auto simp: af1_def)
  qed
qed

text \<open>The result of a search that returns.\<close>

definition range_result ::
  "bool \<Rightarrow> bool \<Rightarrow> ext2_filsys \<Rightarrow> ba_private gbitmap \<Rightarrow> u64 \<Rightarrow> u64 \<Rightarrow> errcode + u64 \<times> u64 \<Rightarrow> bool" where
  "range_result fixed_goal min_length fs b goal len r \<longleftrightarrow>
     (case r of
        Inr (s, n) \<Rightarrow> free_range fs b s n \<and> n \<noteq> 0 \<and> n \<le> len \<and> (fixed_goal \<longrightarrow> s = goal) \<and> (min_length \<longrightarrow> n = len)
      | Inl e \<Rightarrow> e = EXT2_ET_BLOCK_ALLOC_FAIL)"

lemma new_range_loop_sound:
  assumes "accounted af" "af_block_map af = Some (Bitmap64 b)" "len \<noteq> 0"
    and "unat (ext2fs_blocks_count (fs_super (af_fs af))) + unat len \<le> 2 ^ 64"
    and "unat (ext2fs_blocks_count (fs_super (af_fs af))) + unat (s_blocks_per_group (fs_super (af_fs af))) \<le> 2 ^ 64"
    and start: "ucast (s_first_data_block (fs_super (af_fs af))) \<le> start" "start < ext2fs_blocks_count (fs_super (af_fs af))"
    and ret: "new_range_loop ext2fs_blkmap64_bitarray csum fixed min_l goal len (Some (Bitmap64 b)) af start looped = Some (r, af')"
  shows "range_result fixed min_l (af_fs af) b goal len r \<and> accounted af' \<and> same_geo (af_fs af') (af_fs af) \<and>
    af_block_map af' = af_block_map af"
proof -
  define first :: u64 where "first = ucast (s_first_data_block (fs_super (af_fs af)))"
  define m where "m = ext2fs_blocks_count (fs_super (af_fs af))"
  define Q where "Q fixed min_l goal r \<longleftrightarrow> range_result fixed min_l (af_fs af) b goal len (fst r) \<and> accounted (snd r) \<and>
    same_geo (af_fs (snd r)) (af_fs af) \<and> af_block_map (snd r) = af_block_map af"
    for fixed min_l goal and r :: "(errcode + u64 \<times> u64) \<times> ba_private alloc_fs"
  have "ext2fs_blkmap64_bitarray = ext2fs_blkmap64_bitarray \<and> len = len \<and> Some (Bitmap64 b) = Some (Bitmap64 b) \<and> af = af \<and>
      first \<le> start \<and> start < m \<longrightarrow> Q fixed min_l goal (r, af')"
  proof (rule new_range_loop.raw_induct[OF _ ret, where P = "\<lambda>ops csum fixed min_l goal l mp a st lp r.
      ops = ext2fs_blkmap64_bitarray \<and> l = len \<and> mp = Some (Bitmap64 b) \<and> a = af \<and> first \<le> st \<and> st < m \<longrightarrow> Q fixed min_l goal r"])
    fix loop ops csum fixed min_l goal l mp a st lp r
    assume IH: "\<And>ops csum fixed min_l goal l mp a st lp r. loop ops csum fixed min_l goal l mp a st lp = Some r \<Longrightarrow>
        ops = ext2fs_blkmap64_bitarray \<and> l = len \<and> mp = Some (Bitmap64 b) \<and> a = af \<and> first \<le> st \<and> st < m \<longrightarrow> Q fixed min_l goal r"
      and st: "(if lp \<and> \<not> st \<le> goal then Some (Inl EXT2_ET_BLOCK_ALLOC_FAIL, a)
        else case new_range_round ops fixed min_l (fs_super (af_fs a)) goal l mp st lp of
             None \<Rightarrow> None
           | Some (Inl (Inl e)) \<Rightarrow> Some (Inl e, a)
           | Some (Inl (Inr (pblk, plen))) \<Rightarrow> map_option (\<lambda>af. (Inr (pblk, plen), af)) (clear_uninit_loop csum a pblk (pblk + plen))
           | Some (Inr (start, looped)) \<Rightarrow> loop ops csum fixed min_l goal l mp a start looped) = Some r"
    show "ops = ext2fs_blkmap64_bitarray \<and> l = len \<and> mp = Some (Bitmap64 b) \<and> a = af \<and> first \<le> st \<and> st < m \<longrightarrow> Q fixed min_l goal r"
    proof
      assume k: "ops = ext2fs_blkmap64_bitarray \<and> l = len \<and> mp = Some (Bitmap64 b) \<and> a = af \<and> first \<le> st \<and> st < m"
      then have bd: "first \<le> st" "st < m" by simp_all
      have fm: "first < m" using bd by simp
      have fail: "Q fixed min_l goal (Inl EXT2_ET_BLOCK_ALLOC_FAIL, af)"
        using assms(1) by (simp add: Q_def range_result_def)
      show "Q fixed min_l goal r"
      proof (cases "lp \<and> \<not> st \<le> goal")
        case True
        then show ?thesis using st k fail by auto
      next
        case False
        note go = st[unfolded if_not_P[OF False]]
        show ?thesis
        proof (rule range_round[OF assms(1,2), folded first_def m_def, OF bd assms(3) assms(4)[folded m_def],
              where fixed_goal = fixed and min_length = min_l and goal = goal and looped = lp])
          assume "new_range_round ext2fs_blkmap64_bitarray fixed min_l (fs_super (af_fs af)) goal len (Some (Bitmap64 b)) st lp =
            Some (if fixed \<or> st = first then Inl (Inl EXT2_ET_BLOCK_ALLOC_FAIL) else Inr (first, lp))"
          then show ?thesis using go k fail IH[of ops csum fixed min_l goal l mp a first lp r] fm by (auto split: if_splits)
        next
          fix s e
          assume f: "st \<le> s" "s < m" "s < e" "e \<le> m" "unat e \<le> unat s + unat len"
            "\<And>x. s \<le> x \<Longrightarrow> x < e \<Longrightarrow> block_free (af_fs af) b x"
            and rd: "new_range_round ext2fs_blkmap64_bitarray fixed min_l (fs_super (af_fs af)) goal len (Some (Bitmap64 b)) st lp =
              Some (if fixed \<and> s \<noteq> goal then Inl (Inl EXT2_ET_BLOCK_ALLOC_FAIL)
                else if \<not> min_l \<or> e - s \<ge> len then Inl (Inr (s, e - s))
                else if fixed then Inl (Inl EXT2_ET_BLOCK_ALLOC_FAIL)
                else if e = m then (if lp then Inl (Inl EXT2_ET_BLOCK_ALLOC_FAIL) else Inr (first, True))
                else Inr (e, lp))"
          have es: "unat (e - s) = unat e - unat s" using f(3) by (subst unat_minus_nat) (auto simp: word_less_nat_alt)
          consider (hit) "(\<not> fixed \<or> s = goal) \<and> (\<not> min_l \<or> e - s \<ge> len)"
            | (fail) "new_range_round ext2fs_blkmap64_bitarray fixed min_l (fs_super (af_fs af)) goal len (Some (Bitmap64 b)) st lp
                = Some (Inl (Inl EXT2_ET_BLOCK_ALLOC_FAIL))"
            | (next1) st' lp' where "first \<le> st'" "st' < m"
                "new_range_round ext2fs_blkmap64_bitarray fixed min_l (fs_super (af_fs af)) goal len (Some (Bitmap64 b)) st lp
                = Some (Inr (st', lp'))"
          proof -
            have "first \<le> e" "e \<noteq> m \<Longrightarrow> e < m" using f(1,3,4) bd(1) by auto
            then show thesis using rd fm that by (cases "e = m") (auto split: if_splits)
          qed
          then show ?thesis
          proof cases
            case hit
            have "free_range (af_fs af) b s (e - s)"
              using f bd(1) es unfolding free_range_def first_def[symmetric] m_def[symmetric]
              by (auto simp: word_le_nat_alt word_less_nat_alt)
            moreover have "e - s \<noteq> 0" using f(3) by auto
            moreover have "e - s \<le> len" using f(5) es by (simp add: word_le_nat_alt)
            ultimately have res: "range_result fixed min_l (af_fs af) b goal len (Inr (s, e - s))"
              using hit by (auto simp: range_result_def)
            have "first \<le> s" "unat e + unat (s_blocks_per_group (fs_super (af_fs af))) \<le> 2 ^ 64"
              using f(1,4) bd(1) assms(5) by (auto simp: m_def word_le_nat_alt)
            then obtain af1 where af1: "clear_uninit_loop csum af s e = Some af1" "accounted af1" "same_geo (af_fs af1) (af_fs af)"
              "af_block_map af1 = af_block_map af"
              using clear_uninit_loop_frame[OF assms(1), of s e csum] f(4) by (auto simp: first_def m_def)
            have "r = (Inr (s, e - s), af1)" using go k rd hit af1(1) by (auto split: if_splits)
            then show ?thesis using res af1 by (simp add: Q_def)
          next
            case fail
            then show ?thesis using go k \<open>Q fixed min_l goal (Inl EXT2_ET_BLOCK_ALLOC_FAIL, af)\<close> by auto
          next
            case next1
            then show ?thesis using go k IH[of ops csum fixed min_l goal l mp a st' lp' r] by simp
          qed
        qed
      qed
    qed
  qed
  then show ?thesis using start by (simp add: Q_def first_def m_def)
qed


section \<open>When the search ends\<close>

text \<open>
  A measure that every round which goes on decreases makes the search return; \<open>E\<close> is what an error of a round implies.
\<close>

lemma new_range_loop_returns:
  fixes fixed min_l :: bool and goal len :: u64
  assumes "accounted af" "af_block_map af = Some (Bitmap64 b)" "len \<noteq> 0"
    and "unat (ext2fs_blocks_count (fs_super (af_fs af))) + unat len \<le> 2 ^ 64"
    and "unat (ext2fs_blocks_count (fs_super (af_fs af))) + unat (s_blocks_per_group (fs_super (af_fs af))) \<le> 2 ^ 64"
  defines "round \<equiv> new_range_round ext2fs_blkmap64_bitarray fixed min_l (fs_super (af_fs af)) goal len (Some (Bitmap64 b))"
  assumes I: "\<And>st lp. I st lp \<Longrightarrow> ucast (s_first_data_block (fs_super (af_fs af))) \<le> st \<and> st < ext2fs_blocks_count (fs_super (af_fs af))"
    and nx: "\<And>st lp st' lp'. I st lp \<Longrightarrow> round st lp = Some (Inr (st', lp')) \<Longrightarrow> I st' lp' \<and> \<mu> st' lp' < (\<mu> st lp :: nat)"
    and e1: "\<And>st lp. I st lp \<Longrightarrow> lp \<Longrightarrow> \<not> st \<le> goal \<Longrightarrow> E"
    and e2: "\<And>st lp e. I st lp \<Longrightarrow> round st lp = Some (Inl (Inl e)) \<Longrightarrow> E"
    and "I start looped"
  shows "\<exists>r af'. new_range_loop ext2fs_blkmap64_bitarray csum fixed min_l goal len (Some (Bitmap64 b)) af start looped = Some (r, af') \<and>
    (isl r \<longrightarrow> E)"
  using assms(11)
proof (induction "\<mu> start looped" arbitrary: start looped rule: less_induct)
  case less
  define first :: u64 where "first = ucast (s_first_data_block (fs_super (af_fs af)))"
  define m where "m = ext2fs_blocks_count (fs_super (af_fs af))"
  have bd: "first \<le> start" "start < m" using I[OF less.prems] by (simp_all add: first_def m_def)
  show ?case
  proof (cases "looped \<and> \<not> start \<le> goal")
    case True
    then show ?thesis using e1[OF less.prems] by (subst new_range_loop.simps) auto
  next
    case False
    have "\<exists>x. round start looped = Some x \<and> (\<forall>s n. x = Inl (Inr (s, n)) \<longrightarrow> first \<le> s \<and> s + n \<le> m)"
    proof (rule range_round[OF assms(1,2), folded first_def m_def, OF bd assms(3) assms(4)[folded m_def],
          where fixed_goal = fixed and min_length = min_l and goal = goal and looped = looped, folded round_def])
      fix s e
      assume "start \<le> s" "s < e" "e \<le> m" and "round start looped =
        Some (if fixed \<and> s \<noteq> goal then Inl (Inl EXT2_ET_BLOCK_ALLOC_FAIL)
              else if \<not> min_l \<or> e - s \<ge> len then Inl (Inr (s, e - s))
              else if fixed then Inl (Inl EXT2_ET_BLOCK_ALLOC_FAIL)
              else if e = m then (if looped then Inl (Inl EXT2_ET_BLOCK_ALLOC_FAIL) else Inr (first, True))
              else Inr (e, looped))"
      then show ?thesis using bd(1) by (auto split: if_splits)
    qed auto
    then obtain x where x: "round start looped = Some x" "\<And>s n. x = Inl (Inr (s, n)) \<Longrightarrow> first \<le> s \<and> s + n \<le> m" by blast
    have run: "new_range_loop ext2fs_blkmap64_bitarray csum fixed min_l goal len (Some (Bitmap64 b)) af start looped =
        (case x of
           Inl (Inl e) \<Rightarrow> Some (Inl e, af)
         | Inl (Inr (pblk, plen)) \<Rightarrow> map_option (\<lambda>af. (Inr (pblk, plen), af)) (clear_uninit_loop csum af pblk (pblk + plen))
         | Inr (start, looped) \<Rightarrow> new_range_loop ext2fs_blkmap64_bitarray csum fixed min_l goal len (Some (Bitmap64 b)) af start looped)"
      using False x(1)[unfolded round_def] by (subst new_range_loop.simps) (auto split: sum.splits)
    show ?thesis
    proof (cases x)
      case (Inl y)
      show ?thesis
      proof (cases y)
        case (Inl e)
        then show ?thesis using run \<open>x = Inl y\<close> e2[OF less.prems] x(1) by auto
      next
        case (Inr p)
        obtain s n where p: "p = (s, n)" by (cases p)
        have sn: "first \<le> s" "s + n \<le> m" using x(2)[of s n] Inl Inr p by auto
        then have "unat (s + n) + unat (s_blocks_per_group (fs_super (af_fs af))) \<le> 2 ^ 64"
          using assms(5) by (simp add: m_def word_le_nat_alt)
        then obtain af1 where "clear_uninit_loop csum af s (s + n) = Some af1"
          using clear_uninit_loop_frame[OF assms(1), of s "s + n" csum] sn by (auto simp: first_def m_def)
        then show ?thesis using run Inl Inr p by simp
      qed
    next
      case (Inr p)
      obtain st' lp' where p: "p = (st', lp')" by (cases p)
      then have "round start looped = Some (Inr (st', lp'))" using x(1) Inr by simp
      then have "I st' lp'" "\<mu> st' lp' < \<mu> start looped" using nx[OF less.prems] by blast+
      then show ?thesis using less.hyps[of st' lp'] run Inr p by simp
    qed
  qed
qed

lemma new_range_decides:
  fixes csum :: gd_csum and goal len :: u64
  assumes "accounted af" "af_block_map af = Some (Bitmap64 b)" "len \<noteq> 0"
    and "unat (ext2fs_blocks_count (fs_super (af_fs af))) + unat len \<le> 2 ^ 64"
    and "unat (ext2fs_blocks_count (fs_super (af_fs af))) + unat (s_blocks_per_group (fs_super (af_fs af))) \<le> 2 ^ 64"
  defines "first \<equiv> ucast (s_first_data_block (fs_super (af_fs af)))" and "m \<equiv> ext2fs_blocks_count (fs_super (af_fs af))"
    and "free \<equiv> block_free (af_fs af) b"
  assumes goal: "first \<le> goal" "goal < m"
  defines "res \<equiv> new_range_loop ext2fs_blkmap64_bitarray csum False True goal len (Some (Bitmap64 b)) af goal False"
  shows "\<exists>s. free_range (af_fs af) b s len \<Longrightarrow> \<exists>s af'. res = Some (Inr (s, len), af')"
    and "\<nexists>s. free_range (af_fs af) b s len \<Longrightarrow> (\<forall>x. first \<le> x \<and> x < m \<longrightarrow> \<not> free x) \<or> free (m - 1) \<Longrightarrow>
      \<exists>af'. res = Some (Inl EXT2_ET_BLOCK_ALLOC_FAIL, af')"
    and "\<nexists>s. free_range (af_fs af) b s len \<Longrightarrow> \<not> ((\<forall>x. first \<le> x \<and> x < m \<longrightarrow> \<not> free x) \<or> free (m - 1)) \<Longrightarrow> res = None"
proof -
  let ?round = "new_range_round ext2fs_blkmap64_bitarray False True (fs_super (af_fs af)) goal len (Some (Bitmap64 b))"
  note sound = new_range_loop_sound[OF assms(1-5), folded first_def m_def, OF goal, where fixed = False and min_l = True and goal = goal and looped = False and csum = csum, folded res_def]
  have len0: "0 < unat len" using assms(3) by (simp add: unat_gt_0)
  have fm: "first < m" using goal by simp
  have m1: "first \<le> m - 1" "m - 1 < m" "\<And>x. x < m \<Longrightarrow> x \<le> m - 1"
    using unat_pred[OF fm] fm by (auto simp: word_le_nat_alt word_less_nat_alt)
  have next1: "(st' = first \<and> lp' = lp \<and> st \<noteq> first \<and> (\<forall>x. st \<le> x \<and> x < m \<longrightarrow> \<not> free x)) \<or>
      (\<exists>s e. st \<le> s \<and> s < e \<and> e \<le> m \<and> unat e < unat s + unat len \<and> (\<forall>x. st \<le> x \<and> x < s \<longrightarrow> \<not> free x) \<and> (\<forall>x. s \<le> x \<and> x < e \<longrightarrow> free x) \<and>
         (e \<noteq> m \<longrightarrow> \<not> free e) \<and> (if e = m then \<not> lp \<and> st' = first \<and> lp' else st' = e \<and> lp' = lp))"
    if "first \<le> st" "st < m" "?round st lp = Some (Inr (st', lp'))" for st lp st' lp'
  proof (rule range_round[OF assms(1,2), folded first_def m_def free_def, OF that(1,2) assms(3) assms(4)[folded m_def],
        where fixed_goal = False and min_length = True and goal = goal and looped = lp])
    assume "\<And>x. st \<le> x \<Longrightarrow> x < m \<Longrightarrow> \<not> free x"
      "?round st lp = Some (if False \<or> st = first then Inl (Inl EXT2_ET_BLOCK_ALLOC_FAIL) else Inr (first, lp))"
    then show ?thesis using that(3) by (auto split: if_splits)
  next
    fix s e
    assume f: "st \<le> s" "s < m" "\<And>x. st \<le> x \<Longrightarrow> x < s \<Longrightarrow> \<not> free x" "s < e" "e \<le> m" "unat e \<le> unat s + unat len"
      "\<And>x. s \<le> x \<Longrightarrow> x < e \<Longrightarrow> free x" "unat e = unat s + unat len \<or> e = m \<or> \<not> free e"
      and rd: "?round st lp =
        Some (if False \<and> s \<noteq> goal then Inl (Inl EXT2_ET_BLOCK_ALLOC_FAIL)
              else if \<not> True \<or> e - s \<ge> len then Inl (Inr (s, e - s))
              else if False then Inl (Inl EXT2_ET_BLOCK_ALLOC_FAIL)
              else if e = m then (if lp then Inl (Inl EXT2_ET_BLOCK_ALLOC_FAIL) else Inr (first, True))
              else Inr (e, lp))"
    have nl: "\<not> len \<le> e - s" using rd that(3) by (auto split: if_splits)
    moreover have "unat (e - s) = unat e - unat s" using f(4) by (subst unat_minus_nat) (auto simp: word_less_nat_alt)
    ultimately have "unat e \<noteq> unat s + unat len" by (auto simp: word_le_nat_alt)
    then have "unat e < unat s + unat len" using f(6) by simp
    then show ?thesis using f(1-5,7,8) rd that(3) nl by (intro disjI2 exI[of _ s] exI[of _ e]) (auto split: if_splits)
  qed
  have err: "(\<forall>x. st \<le> x \<and> x < m \<longrightarrow> \<not> free x) \<and> st = first \<or>
      lp \<and> (\<exists>s. st \<le> s \<and> s < m \<and> (\<forall>x. st \<le> x \<and> x < s \<longrightarrow> \<not> free x) \<and> unat m < unat s + unat len)"
    if "first \<le> st" "st < m" "?round st lp = Some (Inl (Inl e))" for st lp e
  proof (rule range_round[OF assms(1,2), folded first_def m_def free_def, OF that(1,2) assms(3) assms(4)[folded m_def],
        where fixed_goal = False and min_length = True and goal = goal and looped = lp])
    assume "\<And>x. st \<le> x \<Longrightarrow> x < m \<Longrightarrow> \<not> free x"
      "?round st lp = Some (if False \<or> st = first then Inl (Inl EXT2_ET_BLOCK_ALLOC_FAIL) else Inr (first, lp))"
    then show ?thesis using that(3) by (auto split: if_splits)
  next
    fix s e'
    assume f: "st \<le> s" "s < m" "\<And>x. st \<le> x \<Longrightarrow> x < s \<Longrightarrow> \<not> free x" "s < e'" "e' \<le> m"
      and rd: "?round st lp =
        Some (if False \<and> s \<noteq> goal then Inl (Inl EXT2_ET_BLOCK_ALLOC_FAIL)
              else if \<not> True \<or> e' - s \<ge> len then Inl (Inr (s, e' - s))
              else if False then Inl (Inl EXT2_ET_BLOCK_ALLOC_FAIL)
              else if e' = m then (if lp then Inl (Inl EXT2_ET_BLOCK_ALLOC_FAIL) else Inr (first, True))
              else Inr (e', lp))"
    have nl: "\<not> len \<le> e' - s" "e' = m" lp using rd that(3) by (auto split: if_splits)
    moreover have "unat (e' - s) = unat e' - unat s" using f(4) by (subst unat_minus_nat) (auto simp: word_less_nat_alt)
    ultimately have "unat m < unat s + unat len" using f(4) by (auto simp: word_le_nat_alt word_less_nat_alt)
    then show ?thesis using f nl by blast
  qed
  show "\<exists>s af'. res = Some (Inr (s, len), af')" if ex: "\<exists>s. free_range (af_fs af) b s len"
  proof -
    obtain s0 where "free_range (af_fs af) b s0 len" using ex by blast
    then have s0: "first \<le> s0" "unat s0 + unat len \<le> unat m" "\<And>x. s0 \<le> x \<Longrightarrow> unat x < unat s0 + unat len \<Longrightarrow> free x"
      by (auto simp: free_range_def first_def m_def free_def)
    have s0m: "s0 < m" "free s0" using s0(2) s0(3)[of s0] len0 by (auto simp: word_less_nat_alt)
    let ?I = "\<lambda>st lp. first \<le> st \<and> st < m \<and> (if goal \<le> s0 then \<not> lp \<and> st \<le> s0 else lp \<longrightarrow> st \<le> s0)"
    let ?mu = "\<lambda>st (lp :: bool). if st \<le> s0 then unat s0 - unat st else unat m + (unat m - unat st)"
    have "\<exists>r af'. res = Some (r, af') \<and> (isl r \<longrightarrow> False)"
      unfolding res_def
    proof (rule new_range_loop_returns[OF assms(1-5), folded first_def m_def, where I = ?I and \<mu> = ?mu])
      show "first \<le> st \<and> st < m" if "?I st lp" for st lp using that by blast
    next
      fix st lp st' lp'
      assume i: "?I st lp" and rd: "?round st lp = Some (Inr (st', lp'))"
      show "?I st' lp' \<and> ?mu st' lp' < ?mu st lp"
        using next1[OF conjunct1[OF i] conjunct1[OF conjunct2[OF i]] rd]
      proof (elim disjE exE conjE)
        assume t: "st' = first" "lp' = lp" "\<forall>x. st \<le> x \<and> x < m \<longrightarrow> \<not> free x"
        then have "\<not> st \<le> s0" using s0m by blast
        then show ?thesis using i t(1,2) s0(1) s0m(1) fm by (auto split: if_splits simp: word_le_nat_alt word_less_nat_alt)
      next
        fix s e
        assume t: "st \<le> s" "s < e" "e \<le> m" "unat e < unat s + unat len" "\<forall>x. st \<le> x \<and> x < s \<longrightarrow> \<not> free x"
          "e \<noteq> m \<longrightarrow> \<not> free e" "if e = m then \<not> lp \<and> st' = first \<and> lp' else st' = e \<and> lp' = lp"
        show ?thesis
        proof (cases "st \<le> s0")
          case True
          then have ss: "s \<le> s0" using t(5) s0m(2) by (meson not_le)
          have "e \<le> s0"
          proof (rule ccontr)
            assume "\<not> e \<le> s0"
            then have "s0 \<le> e" "unat e < unat s0 + unat len" using t(4) ss by (auto simp: word_le_nat_alt)
            then have "free e" "e \<noteq> m" using s0(2,3) by auto
            then show False using t(6) by blast
          qed
          then show ?thesis using i t(1-3,7) True s0m(1) by (auto split: if_splits simp: word_le_nat_alt word_less_nat_alt)
        next
          case False
          then have g: "\<not> goal \<le> s0" "\<not> lp" using i by (auto split: if_splits)
          show ?thesis
          proof (cases "e = m")
            case True
            then show ?thesis using t(7) False g s0(1) fm s0m(1) i by (auto simp: word_le_nat_alt word_less_nat_alt)
          next
            case ne: False
            then have "st < e" "\<not> e \<le> s0" "e < m" using t(1-3) False by auto
            then show ?thesis using ne t(7) False g i by (auto simp: word_le_nat_alt word_less_nat_alt)
          qed
        qed
      qed
    next
      show False if "?I st lp" "lp" "\<not> st \<le> goal" for st lp using that by (auto split: if_splits)
    next
      fix st lp e assume i: "?I st lp" and rd: "?round st lp = Some (Inl (Inl e))"
      show False
        using err[OF conjunct1[OF i] conjunct1[OF conjunct2[OF i]] rd]
      proof (elim disjE exE conjE)
        assume "\<forall>x. st \<le> x \<and> x < m \<longrightarrow> \<not> free x" "st = first"
        then show False using s0(1) s0m by blast
      next
        fix s
        assume t: lp "\<forall>x. st \<le> x \<and> x < s \<longrightarrow> \<not> free x" "unat m < unat s + unat len"
        then have "st \<le> s0" using i by (auto split: if_splits)
        then have "s \<le> s0" using t(2) s0m(2) by (meson not_le)
        then show False using t(3) s0(2) by (simp add: word_le_nat_alt)
      qed
    next
      show "?I goal False" using goal by auto
    qed
    then obtain r af' where r: "res = Some (r, af')" "\<not> isl r" by blast
    then show ?thesis using sound[of r af'] by (cases r) (auto simp: range_result_def)
  qed
  show "\<exists>af'. res = Some (Inl EXT2_ET_BLOCK_ALLOC_FAIL, af')"
    if no: "\<nexists>s. free_range (af_fs af) b s len" and d: "(\<forall>x. first \<le> x \<and> x < m \<longrightarrow> \<not> free x) \<or> free (m - 1)"
  proof -
    let ?I = "\<lambda>st (lp :: bool). first \<le> st \<and> st < m"
    have "\<exists>\<mu> :: u64 \<Rightarrow> bool \<Rightarrow> nat. \<forall>st lp st' lp'. ?I st lp \<longrightarrow> ?round st lp = Some (Inr (st', lp')) \<longrightarrow> ?I st' lp' \<and> \<mu> st' lp' < \<mu> st lp"
      using d
    proof
      assume none: "\<forall>x. first \<le> x \<and> x < m \<longrightarrow> \<not> free x"
      have "?I st' lp' \<and> (if st' = first then 0 else 1) < (if st = first then 0 else (1 :: nat))"
        if i: "?I st lp" and rd: "?round st lp = Some (Inr (st', lp'))" for st lp st' lp'
        using next1[OF conjunct1[OF i] conjunct2[OF i] rd]
      proof (elim disjE exE conjE)
        fix s e assume "st \<le> s" "s < e" "e \<le> m" "\<forall>x. s \<le> x \<and> x < e \<longrightarrow> free x"
        moreover from this have "free s" "first \<le> s" "s < m" using i by auto
        ultimately show ?thesis using none by blast
      qed (use fm in simp)
      then show ?thesis by (intro exI[of _ "\<lambda>st lp. if st = first then 0 else 1"]) blast
    next
      assume fl: "free (m - 1)"
      have "?I st' lp' \<and> (if lp' then 0 else unat m) + (unat m - unat st') < (if lp then 0 else unat m) + (unat m - unat st)"
        if i: "?I st lp" and rd: "?round st lp = Some (Inr (st', lp'))" for st lp st' lp'
        using next1[OF conjunct1[OF i] conjunct2[OF i] rd]
      proof (elim disjE exE conjE)
        assume "\<forall>x. st \<le> x \<and> x < m \<longrightarrow> \<not> free x"
        then show ?thesis using fl m1(2) m1(3)[of st] i by blast
      next
        fix s e assume t: "st \<le> s" "s < e" "e \<le> m" "if e = m then \<not> lp \<and> st' = first \<and> lp' else st' = e \<and> lp' = lp"
        show ?thesis
        proof (cases "e = m")
          case True
          then show ?thesis using t(4) fm i by (auto simp: word_le_nat_alt word_less_nat_alt)
        next
          case False
          then have "st < e" "e < m" using t by auto
          then show ?thesis using False t(4) i by (auto simp: word_le_nat_alt word_less_nat_alt)
        qed
      qed
      then show ?thesis by (intro exI[of _ "\<lambda>st lp. (if lp then 0 else unat m) + (unat m - unat st)"]) blast
    qed
    then obtain \<mu> :: "u64 \<Rightarrow> bool \<Rightarrow> nat" where mu: "\<And>st lp st' lp'. ?I st lp \<Longrightarrow> ?round st lp = Some (Inr (st', lp')) \<Longrightarrow>
        ?I st' lp' \<and> \<mu> st' lp' < \<mu> st lp" by blast
    have "\<exists>r af'. res = Some (r, af') \<and> (isl r \<longrightarrow> True)"
      unfolding res_def
    proof (rule new_range_loop_returns[OF assms(1-5), folded first_def m_def, where I = ?I and \<mu> = \<mu>])
      show "?I st' lp' \<and> \<mu> st' lp' < \<mu> st lp" if "?I st lp" "?round st lp = Some (Inr (st', lp'))" for st lp st' lp'
        using that by (rule mu)
      show "?I goal False" using goal by blast
    qed blast+
    then obtain r af' where r: "res = Some (r, af')" by blast
    then have "range_result False True (af_fs af) b goal len r" using sound[of r af'] by blast
    then show ?thesis using r no by (cases r) (auto simp: range_result_def)
  qed
  show "res = None" if no: "\<nexists>s. free_range (af_fs af) b s len" and d: "\<not> ((\<forall>x. first \<le> x \<and> x < m \<longrightarrow> \<not> free x) \<or> free (m - 1))"
  proof -
    obtain x0 where "first \<le> x0" "x0 < m" "free x0" using d by blast
    then show ?thesis
      unfolding res_def using no d goal
      by (intro new_range_stuck[OF assms(1-3), folded first_def m_def free_def, of x0]) (use assms(4) in \<open>auto simp: m_def\<close>)
  qed
qed


section \<open>The counts of a range\<close>

text \<open>The counts of a file system without clusters, for a set \<open>U\<close> of free blocks.\<close>

definition counts_are :: "ext2_filsys \<Rightarrow> u64 set \<Rightarrow> bool" where
  "counts_are fs U \<longleftrightarrow>
     (\<forall>h < fs_group_desc_count fs. unat (ext2fs_bg_free_blocks_count fs h) = card {c \<in> U. cluster_group fs c = unat h}) \<and>
     unat (ext2fs_free_blocks_count (fs_super fs)) = card U"

definition span :: "u64 \<Rightarrow> nat \<Rightarrow> u64 set" where
  "span blk n = {x. blk \<le> x \<and> unat x < unat blk + n}"

lemma card_span:
  assumes "unat blk + n \<le> 2 ^ 64"
  shows "card (span blk n) = n"
proof (cases "n = 0")
  case True
  then show ?thesis by (simp add: span_def word_le_nat_alt)
next
  case False
  define e :: u64 where "e = of_nat (unat blk + n - 1)"
  have "unat e = unat blk + n - 1"
    unfolding e_def using assms False by (simp only: unsigned_of_nat) (simp add: take_bit_nat_eq_self)
  then have "span blk n = {blk..e}" using False by (auto simp: span_def word_le_nat_alt)
  then show ?thesis using False \<open>unat e = unat blk + n - 1\<close> by (simp add: card_word_ivl word_le_nat_alt)
qed

lemma ucast_word_of_int: "(ucast (word_of_int i :: u64) :: u32) = word_of_int i"
  by (rule bit_word_eqI) (simp add: bit_unsigned_iff bit_word_of_int_iff)

lemma card_range_adjust:
  fixes U R :: "u64 set" and i :: int
  assumes "(i = 1 \<and> R \<subseteq> U \<and> U' = U - R) \<or> (i = - 1 \<and> R \<inter> U = {} \<and> U' = U \<union> R)"
  shows "int (card {x \<in> U'. P x}) = int (card {x \<in> U. P x}) - i * int (card {x \<in> R. P x})"
proof -
  have f: "finite A" for A :: "u64 set" by simp
  from assms show ?thesis
  proof
    assume a: "i = 1 \<and> R \<subseteq> U \<and> U' = U - R"
    then have s: "{x \<in> R. P x} \<subseteq> {x \<in> U. P x}" "{x \<in> U'. P x} = {x \<in> U. P x} - {x \<in> R. P x}" by blast+
    then show ?thesis using card_Diff_subset[OF f s(1)] card_mono[OF f s(1)] a by simp
  next
    assume a: "i = - 1 \<and> R \<inter> U = {} \<and> U' = U \<union> R"
    then have s: "{x \<in> R. P x} \<inter> {x \<in> U. P x} = {}" "{x \<in> U'. P x} = {x \<in> U. P x} \<union> {x \<in> R. P x}" by blast+
    then show ?thesis using card_Un_disjoint[OF f f s(1)] a by (simp add: Un_commute)
  qed
qed

text \<open>The part of the range that lies in the group of its first block.\<close>

lemma group_part:
  fixes num :: u32
  assumes "cluster_geometry_ok fs" "fs_cluster_ratio_bits fs = 0"
    and "ucast (s_first_data_block (fs_super fs)) \<le> blk" "blk < ext2fs_blocks_count (fs_super fs)"
    and "num \<noteq> 0" "unat blk + unat num \<le> unat (ext2fs_blocks_count (fs_super fs))"
  defines "g \<equiv> ext2fs_group_of_blk2 fs blk"
  defines "last_blk \<equiv> ext2fs_group_last_block2 fs g"
  defines "n \<equiv> (if blk + ucast num > last_blk then last_blk - blk + 1 else ucast num :: u64)"
  shows "0 < unat n" "unat n \<le> unat num" "\<And>x. x \<in> span blk (unat n) \<Longrightarrow> cluster_group fs x = unat g"
proof -
  have geo: "geometry_ok fs" using assms(1) by (simp add: cluster_geometry_ok_def Let_def)
  obtain f nn c k s where c: "f = unat (s_first_data_block (fs_super fs))" "unat (ext2fs_blocks_count (fs_super fs)) = f + nn"
    "c = unat (s_clusters_per_group (fs_super fs))" "f = s * 2 ^ fs_cluster_ratio_bits fs"
    "unat (EXT2FS_B2C fs (ucast (s_first_data_block (fs_super fs)))) = s"
    "unat (s_blocks_per_group (fs_super fs)) = c * 2 ^ fs_cluster_ratio_bits fs" "0 < c"
    using cluster_facts[OF assms(1)] by metis
  have cf: "s = f" "unat (s_blocks_per_group (fs_super fs)) = c" using c(4,6) assms(2) by simp_all
  have g: "cluster_group fs blk = unat g" "g < fs_group_desc_count fs"
    using block_cluster(1,2)[OF assms(1,3,4)] assms(2) by (simp_all add: g_def EXT2FS_B2C_def)
  have fb: "f \<le> unat blk" using assms(3) c(1) by (simp add: word_le_nat_alt)
  have "(unat blk - f) div c = unat g" using g(1) c(3,5) cf(1) by (simp add: cluster_group_def)
  then have gi: "unat g * c \<le> unat blk - f" "unat blk - f < unat g * c + c" using in_group_iff[OF c(7), of "unat g" "unat blk - f"] by auto
  note lb = last_block_nat[OF geo g(2), folded last_blk_def]
  have last1: "unat last_blk + 1 \<le> f + unat g * c + c" "unat blk \<le> unat last_blk" "unat last_blk < unat (ext2fs_blocks_count (fs_super fs))"
    using lb gi fb assms(4) c(1,2) cf(2) by (auto simp: word_less_nat_alt split: if_splits)
  have bn: "unat (blk + ucast num) = unat blk + unat num"
  proof -
    have "unat blk + unat num < 2 ^ 64" using assms(6) unat_less64[of "ext2fs_blocks_count (fs_super fs)"] by linarith
    then show ?thesis by (subst unat_plus64) simp_all
  qed
  have d: "unat (last_blk - blk + 1) = unat last_blk + 1 - unat blk"
  proof -
    have "unat (last_blk - blk) = unat last_blk - unat blk" using last1(2) by (simp add: unat_minus_nat)
    moreover have "unat (last_blk - blk) + 1 < 2 ^ 64" using calculation last1(3) unat_less64[of "ext2fs_blocks_count (fs_super fs)"] by linarith
    ultimately show ?thesis using last1(2) by (subst unat_plus64) simp_all
  qed
  have num0: "0 < unat num" using assms(5) by (simp add: unat_gt_0)
  have n: "unat n \<le> unat num" "unat n \<le> unat last_blk + 1 - unat blk" "0 < unat n"
    using bn d last1(2) num0 unfolding n_def by (auto simp: word_less_nat_alt not_less)
  show "0 < unat n" "unat n \<le> unat num" by (rule n)+
  fix x assume "x \<in> span blk (unat n)"
  then have x: "unat blk \<le> unat x" "unat x < unat blk + unat n" by (simp_all add: span_def word_le_nat_alt)
  then have "unat g * c \<le> unat x - f" "unat x - f < unat g * c + c" using gi(1) n(2) last1(1,2) fb by linarith+
  then have "(unat x - f) div c = unat g" using in_group_iff[OF c(7), of "unat g" "unat x - f"] by simp
  then show "cluster_group fs x = unat g" using c(3,5) cf(1) by (simp add: cluster_group_def)
qed


text \<open>
  The loop of \<^verbatim>\<open>ext2fs_block_alloc_stats_range\<close>: group by group, the counts follow the set of free blocks.
\<close>

lemma stats_range_loop_spec:
  fixes num :: u32 and inuse :: int
  assumes "alloc_geometry_ok fs" "fs_cluster_ratio_bits fs = 0" "block_map_ok valid fs b"
    and "counts_are fs U" "U \<subseteq> {gb_start b..gb_end b}"
    and "ucast (s_first_data_block (fs_super fs)) \<le> blk" "unat blk + unat num \<le> unat (ext2fs_blocks_count (fs_super fs))"
    and "inuse = 1 \<and> span blk (unat num) \<subseteq> U \<or> inuse = - 1 \<and> span blk (unat num) \<inter> U = {} \<and> span blk (unat num) \<subseteq> {gb_start b..gb_end b}"
  shows "\<exists>fs'. stats_range_loop csum fs blk num inuse = Some (fs', blk + ucast num, 0) \<and> same_geo fs' fs \<and> same_inode_counts fs' fs \<and>
    counts_are fs' (if inuse = 1 then U - span blk (unat num) else U \<union> span blk (unat num))"
  using assms
proof (induction "unat num" arbitrary: fs blk num U rule: less_induct)
  case less
  show ?case
  proof (cases "num = 0")
    case True
    have "span blk 0 = {}" by (auto simp: span_def word_le_nat_alt)
    then show ?thesis using True less.prems(4) by (subst stats_range_loop.simps) (simp add: same_inode_counts_def)
  next
    case False
    let ?g = "ext2fs_group_of_blk2 fs blk" and ?m = "ext2fs_blocks_count (fs_super fs)"
    define n :: u64 where "n = (if blk + ucast num > ext2fs_group_last_block2 fs ?g then ext2fs_group_last_block2 fs ?g - blk + 1 else ucast num)"
    define N where "N = unat n"
    have cg: "cluster_geometry_ok fs" "descs_ok fs" "\<not> has_64bit (fs_super fs) \<Longrightarrow> unat (s_clusters_per_group (fs_super fs)) < 2 ^ 16"
      using less.prems(1) by (simp_all add: alloc_geometry_ok_def Let_def)
    have "0 < unat num" using False by (simp add: unat_gt_0)
    then have bm: "blk < ?m" using less.prems(7) by (simp add: word_less_nat_alt)
    note gp = group_part[OF cg(1) less.prems(2,6) bm False less.prems(7), folded n_def, folded N_def]
    have g: "?g < fs_group_desc_count fs" by (rule block_cluster(2)[OF cg(1) less.prems(6) bm])
    have R1: "span blk N \<subseteq> span blk (unat num)" using gp(2) by (auto simp: span_def)
    define U1 where "U1 = (if inuse = 1 then U - span blk N else U \<union> span blk N)"
    have adj: "(inuse = 1 \<and> span blk N \<subseteq> U \<and> U1 = U - span blk N) \<or> (inuse = - 1 \<and> span blk N \<inter> U = {} \<and> U1 = U \<union> span blk N)"
      using less.prems(8) R1 by (auto simp: U1_def)
    have U1: "U1 \<subseteq> {gb_start b..gb_end b}" using less.prems(5,8) R1 by (auto simp: U1_def)
    have lim: "unat blk + N \<le> 2 ^ 64" using less.prems(7) gp(2) unat_less64[of ?m] by linarith
    have cR: "card (span blk N) = N" by (rule card_span[OF lim])
    have cRg: "card {x \<in> span blk N. cluster_group fs x = h} = (if h = unat ?g then N else 0)" for h
    proof (cases "h = unat ?g")
      case True
      then have "{x \<in> span blk N. cluster_group fs x = h} = span blk N" using gp(3) by blast
      then show ?thesis using cR True by simp
    next
      case False
      then have "{x \<in> span blk N. cluster_group fs x = h} = {}" using gp(3) by blast
      then show ?thesis using False by simp
    qed
    have cnt: "int (card {x \<in> U1. cluster_group fs x = h}) = int (card {x \<in> U. cluster_group fs x = h}) - inuse * int (if h = unat ?g then N else 0)" for h
      using card_range_adjust[OF adj, of "\<lambda>x. cluster_group fs x = h"] unfolding cRg .
    have tot: "int (card U1) = int (card U) - inuse * int N"
      using card_range_adjust[OF adj, of "\<lambda>_. True"] cR by simp
    have old: "unat (ext2fs_bg_free_blocks_count fs h) = card {c \<in> U. cluster_group fs c = unat h}" if "h < fs_group_desc_count fs" for h
      using less.prems(4) that by (simp add: counts_are_def)
    have oldt: "unat (ext2fs_free_blocks_count (fs_super fs)) = card U" using less.prems(4) by (simp add: counts_are_def)
    have grp: "card {c \<in> U1. cluster_group fs c = h} \<le> unat (s_clusters_per_group (fs_super fs))" for h
    proof (rule order_trans[OF card_mono clusters_fit(2)[OF less.prems(1,3), of h]])
      show "{c \<in> U1. cluster_group fs c = h} \<subseteq> {c \<in> {gb_start b..gb_end b}. cluster_group fs c = h}" using U1 by blast
    qed simp
    have n_int: "n = word_of_int (int N)" by (simp add: N_def)
    define nc where "nc = ext2fs_bg_free_blocks_count fs ?g - word_of_int (inuse * int N)"
    have "card {c \<in> U1. cluster_group fs c = unat ?g} < 2 ^ LENGTH(32)" using le_less_trans[OF grp unat_less32] by simp
    moreover have "int (card {c \<in> U1. cluster_group fs c = unat ?g}) = int (unat (ext2fs_bg_free_blocks_count fs ?g)) - inuse * int N"
      using cnt[of "unat ?g"] old[OF g] by (simp only: if_P)
    ultimately have unc: "unat nc = card {c \<in> U1. cluster_group fs c = unat ?g}" unfolding nc_def by (intro unat_adjust(1))
    have fit: "(ucast nc :: u64) = take_bit (if has_64bit (fs_super fs) then 32 else 16) (ucast nc)"
    proof (rule ucast_fits)
      assume "\<not> has_64bit (fs_super fs)"
      then show "unat nc < 2 ^ 16" using unc grp[of "unat ?g"] cg(3) by linarith
    qed
    define x :: u64 where "x = word_of_int (- (inuse * int N))"
    define fs1 where "fs1 = charge_group csum fs ?g nc x"
    note ch = charge_group_frame[OF cg(2) g fit, where csum = csum and x = x, folded fs1_def]
    have step: "stats_range_loop csum fs blk num inuse = stats_range_loop csum fs1 (blk + n) (num - ucast n) inuse"
    proof -
      have R: "EXT2FS_CLUSTER_RATIO fs = 1" using less.prems(2) by (simp add: EXT2FS_CLUSTER_RATIO_def)
      have i: "ucast (word_of_int inuse * n :: u64) = (word_of_int (inuse * int N) :: u32)"
        unfolding n_int by (simp only: wi_hom_mult ucast_word_of_int)
      have j: "word_of_int (- inuse) * n = x" unfolding x_def n_int by (simp only: wi_hom_mult mult_minus_left)
      have c: "ext2fs_bg_free_blocks_count fs ?g - ucast ((word_of_int inuse * n) div EXT2FS_CLUSTER_RATIO fs) = nc"
        unfolding R nc_def by (simp only: div_by_1 i)
      show ?thesis
        using False by (subst stats_range_loop.simps) (simp only: Let_def if_False n_def[symmetric] c j fs1_def charge_group_def)
    qed
    have cnt1: "counts_are fs1 U1"
      unfolding counts_are_def
    proof (intro conjI allI impI)
      fix h assume "h < fs_group_desc_count fs1"
      then have h: "h < fs_group_desc_count fs" by (simp add: geoD(14)[OF ch(1)])
      show "unat (ext2fs_bg_free_blocks_count fs1 h) = card {c \<in> U1. cluster_group fs1 c = unat h}"
      proof (cases "h = ?g")
        case True
        then show ?thesis using ch(2)[OF h] unc by (simp add: geo_cluster_group[OF ch(1)])
      next
        case False
        then have "unat h \<noteq> unat ?g" by (simp add: word_unat_eq_iff)
        then show ?thesis using ch(2)[OF h] False cnt[of "unat h"] old[OF h] by (simp add: geo_cluster_group[OF ch(1)])
      qed
    next
      define W where "W = (if has_64bit (fs_super fs) then 64 else 32 :: nat)"
      have "card U1 \<le> card {gb_start b..gb_end b}" by (rule card_mono[OF _ U1]) simp
      then have lt: "card U1 < 2 ^ W"
        using clusters_fit(1)[OF less.prems(1,3)] less.prems(2) unfolding W_def by simp
      have "(2 :: nat) ^ W \<le> 2 ^ 64" by (simp add: W_def)
      then have "card U1 < 2 ^ LENGTH(64)" using lt by simp
      moreover have "int (card U1) = int (unat (ext2fs_free_blocks_count (fs_super fs))) - inuse * int N" using tot oldt by simp
      ultimately have "unat (ext2fs_free_blocks_count (fs_super fs) + x) = card U1" unfolding x_def by (intro unat_adjust(2))
      then show "unat (ext2fs_free_blocks_count (fs_super fs1)) = card U1"
        using lt unfolding ch(5) W_def[symmetric] by (simp add: unsigned_take_bit_eq take_bit_nat_eq_self)
    qed
    have ic1: "same_inode_counts fs1 fs"
      using ch(3)[of _ FreeInodes] ch(3)[of _ ItableUnused] ch(4,6) by (simp add: same_inode_counts_def)
    have un: "unat (ucast n :: u32) = N"
      using gp(2) unat_less32[of num] by (simp add: unsigned_ucast_eq unsigned_take_bit_eq take_bit_nat_eq_self N_def)
    have num1: "unat (num - ucast n) = unat num - N" using un gp(2) by (simp add: unat_minus_nat)
    have blk1: "unat (blk + n) = unat blk + N"
      using less.prems(7) gp(2) unat_less64[of ?m] by (subst unat_plus64) (simp_all add: N_def)
    have parts: "span blk (unat num) = span blk N \<union> span (blk + n) (unat num - N)" "span blk N \<inter> span (blk + n) (unat num - N) = {}"
      using gp(2) blk1 by (auto simp: span_def word_le_nat_alt)
    obtain fs' where fs': "stats_range_loop csum fs1 (blk + n) (num - ucast n) inuse = Some (fs', blk + n + ucast (num - ucast n), 0)"
      "same_geo fs' fs1" "same_inode_counts fs' fs1"
      "counts_are fs' (if inuse = 1 then U1 - span (blk + n) (unat (num - ucast n)) else U1 \<union> span (blk + n) (unat (num - ucast n)))"
    proof -
      have lt: "unat (num - ucast n) < unat num" using num1 gp(1,2) by simp
      have p: "alloc_geometry_ok fs1" "fs_cluster_ratio_bits fs1 = 0" "block_map_ok valid fs1 b"
        "ucast (s_first_data_block (fs_super fs1)) \<le> blk + n"
        "unat (blk + n) + unat (num - ucast n) \<le> unat (ext2fs_blocks_count (fs_super fs1))"
        using less.prems(1-3,6,7) blk1 num1 gp(2)
        by (simp_all add: geo_alloc[OF ch(1)] geoD(3,15)[OF ch(1)] geo_map_ok[OF ch(1)] geo_blocks[OF ch(1)] word_le_nat_alt)
      have q: "inuse = 1 \<and> span (blk + n) (unat (num - ucast n)) \<subseteq> U1 \<or> inuse = - 1 \<and> span (blk + n) (unat (num - ucast n)) \<inter> U1 = {} \<and>
          span (blk + n) (unat (num - ucast n)) \<subseteq> {gb_start b..gb_end b}"
        using less.prems(8) parts unfolding num1 U1_def by auto
      show thesis using less.hyps[OF lt p(1-3) cnt1 U1 p(4,5) q] that by blast
    qed
    have e: "blk + n + ucast (num - ucast n) = blk + ucast num"
    proof -
      have "unat blk + unat num < 2 ^ 64" using less.prems(7) unat_less64[of ?m] by linarith
      then have "unat (blk + n + ucast (num - ucast n)) = unat blk + unat num" "unat (blk + ucast num) = unat blk + unat num"
        using blk1 num1 gp(2) by (subst unat_plus64; simp)+
      then show ?thesis by (simp add: word_unat_eq_iff)
    qed
    have "same_inode_counts fs' fs" using fs'(3) ic1 by (simp add: same_inode_counts_def geoD(14)[OF ch(1)])
    moreover have "(if inuse = 1 then U1 - span (blk + n) (unat (num - ucast n)) else U1 \<union> span (blk + n) (unat (num - ucast n)))
        = (if inuse = 1 then U - span blk (unat num) else U \<union> span blk (unat num))"
      unfolding U1_def num1 parts(1) by auto
    ultimately show ?thesis using step fs' same_geo_trans[OF fs'(2) ch(1)] e by auto
  qed
qed


lemma mark_dirty_inodes [simp]:
  "ext2fs_bg_free_inodes_count (ext2fs_mark_super_dirty fs) h = ext2fs_bg_free_inodes_count fs h"
  "ext2fs_bg_itable_unused (ext2fs_mark_super_dirty fs) h = ext2fs_bg_itable_unused fs h"
  by (simp_all add: ext2fs_mark_super_dirty_def gd_access_defs ext2fs_group_desc_def)

text \<open>Marking or unmarking the range, and the loop: the file system stays accounted for.\<close>

lemma stats_range_keeps:
  fixes num :: u32 and inuse :: int
  assumes "accounted af" "af_block_map af = Some (Bitmap64 b)" "fs_cluster_ratio_bits (af_fs af) = 0" "num \<noteq> 0"
    and "ucast (s_first_data_block (fs_super (af_fs af))) \<le> blk" "unat blk + unat num \<le> unat (ext2fs_blocks_count (fs_super (af_fs af)))"
    and "inuse = 1 \<and> span blk (unat num) \<subseteq> unmarked ba_bits b \<or> inuse = - 1 \<and> span blk (unat num) \<inter> unmarked ba_bits b = {}"
  shows "\<exists>af' b'. ext2fs_block_alloc_stats_range ext2fs_blkmap64_bitarray csum af blk num inuse = Some (af', Some (blk + ucast num, 0, inuse)) \<and>
    accounted af' \<and> same_geo (af_fs af') (af_fs af) \<and> af_block_map af' = Some (Bitmap64 b') \<and>
    unmarked ba_bits b' = (if inuse = 1 then unmarked ba_bits b - span blk (unat num) else unmarked ba_bits b \<union> span blk (unat num))"
proof -
  let ?fs = "af_fs af" and ?S = "span blk (unat num)" and ?m = "ext2fs_blocks_count (fs_super (af_fs af))"
  have a: "alloc_geometry_ok ?fs" "blocks_accounted ba_wf ba_bits af" "inodes_accounted ba_wf ba_bits af"
    using assms(1) by (simp_all add: accounted_def)
  have cg: "cluster_geometry_ok ?fs" using a(1) by (simp add: alloc_geometry_ok_def Let_def)
  have map: "block_map_ok ba_wf ?fs b" using accounted_maps[OF assms(1)] assms(2) by (metis option.inject any_bitmap.inject(2))
  have good: "ba_wf b \<and> EXT2FS_IS_64_BITMAP (gb_magic b) \<and> gb_cluster_bits b < 64" "gb_cluster_bits b = 0"
    using map assms(3) by (simp_all add: block_map_ok_def)
  have n0: "0 < unat num" using assms(4) by (simp add: unat_gt_0)
  have lt: "unat blk + unat num < 2 ^ 64" using assms(6) unat_less64[of ?m] by linarith
  have bn: "unat (blk + ucast num) = unat blk + unat num" using lt by (subst unat_plus64) simp_all
  then have bn1: "unat (blk + ucast num - 1) = unat blk + unat num - 1" using n0 by (simp add: unat_minus_nat)
  have cs: "cluster_set 0 blk num = ?S"
    using bn1 n0 by (auto simp: cluster_set_def span_def word_le_nat_alt)
  have sub: "?S \<subseteq> {gb_start b..gb_end b}"
  proof
    fix x assume "x \<in> ?S"
    then have "ucast (s_first_data_block (fs_super ?fs)) \<le> x" "x < ?m"
      using assms(5,6) by (auto simp: span_def word_le_nat_alt word_less_nat_alt)
    then show "x \<in> {gb_start b..gb_end b}"
      using block_cluster(3,4)[OF cg, of x] map assms(3) by (simp add: block_map_ok_def EXT2FS_B2C_def)
  qed
  have ok: "cmd_ok (gb_cluster_bits b) (MarkRange blk num)" "cmd_ok (gb_cluster_bits b) (UnmarkRange blk num)"
    using assms(4) lt good(2) by simp_all
  define S' where "S' = (if inuse = 1 then unmarked ba_bits b - ?S else unmarked ba_bits b \<union> ?S)"
  have inuse: "inuse = 1 \<or> inuse = - 1" using assms(7) by blast
  obtain b' where b': "(if inuse > 0 then ext2fs_mark_block_bitmap_range2 ext2fs_blkmap64_bitarray (af_block_map af) blk num
        else ext2fs_unmark_block_bitmap_range2 ext2fs_blkmap64_bitarray (af_block_map af) blk num) = Some (Bitmap64 b')"
    "ba_wf b'" "same_hdr b' b" "unmarked ba_bits b' = S'"
  proof (cases "inuse = 1")
    case True
    obtain b' where b': "ext2fs_mark_block_bitmap_range2 ext2fs_blkmap64_bitarray (Some (Bitmap64 b)) blk num = Some (Bitmap64 b')"
      "ba_wf b' \<and> EXT2FS_IS_64_BITMAP (gb_magic b') \<and> gb_cluster_bits b' < 64" "same_hdr b' b"
      "ba_bits b' \<inter> {gb_start b'..gb_end b'} = spec_cmd (gb_cluster_bits b) (gb_start b) (gb_end b) (MarkRange blk num) (ba_bits b \<inter> {gb_start b..gb_end b})"
      by (rule ba.mark_range_generic[OF good(1) ok(1)])
    have "unmarked ba_bits b' = S'"
      unfolding S'_def ba.unmarked_alt b'(4) using b'(3) True sub by (auto simp: same_hdr_iff good(2) cs)
    then show thesis using that b' True assms(2) by simp
  next
    case False
    then have i: "inuse = - 1" using inuse by blast
    obtain b' where b': "ext2fs_unmark_block_bitmap_range2 ext2fs_blkmap64_bitarray (Some (Bitmap64 b)) blk num = Some (Bitmap64 b')"
      "ba_wf b' \<and> EXT2FS_IS_64_BITMAP (gb_magic b') \<and> gb_cluster_bits b' < 64" "same_hdr b' b"
      "ba_bits b' \<inter> {gb_start b'..gb_end b'} = spec_cmd (gb_cluster_bits b) (gb_start b) (gb_end b) (UnmarkRange blk num) (ba_bits b \<inter> {gb_start b..gb_end b})"
      by (rule ba.unmark_range_generic[OF good(1) ok(2)])
    have "unmarked ba_bits b' = S'"
      unfolding S'_def ba.unmarked_alt b'(4) using b'(3) i sub by (auto simp: same_hdr_iff good(2) cs)
    then show thesis using that b' i assms(2) by simp
  qed
  have cnt: "counts_are ?fs (unmarked ba_bits b)"
    using a(2) assms(2,3) by (auto simp: blocks_accounted_def counts_are_def Let_def)
  have Us: "unmarked ba_bits b \<subseteq> {gb_start b..gb_end b}" by (auto simp: unmarked_def)
  have "inuse = 1 \<and> ?S \<subseteq> unmarked ba_bits b \<or> inuse = - 1 \<and> ?S \<inter> unmarked ba_bits b = {} \<and> ?S \<subseteq> {gb_start b..gb_end b}"
    using assms(7) sub by blast
  then obtain fs' where fs': "stats_range_loop csum ?fs blk num inuse = Some (fs', blk + ucast num, 0)" "same_geo fs' ?fs" "same_inode_counts fs' ?fs"
    "counts_are fs' S'"
    using stats_range_loop_spec[OF a(1) assms(3) map cnt Us assms(5,6), of inuse csum] unfolding S'_def by blast
  let ?af' = "af\<lparr>af_fs := ext2fs_mark_super_dirty fs', af_block_map := Some (Bitmap64 b'), af_bb_dirty := True\<rparr>"
  have geo2: "same_geo (ext2fs_mark_super_dirty fs') ?fs" using fs'(2) by (simp only: mark_dirty_frame)
  then have geo: "same_geo (af_fs ?af') ?fs" by simp
  have blocks: "blocks_accounted ba_wf ba_bits ?af'"
  proof -
    have "block_map_ok ba_wf ?fs b'" using map b'(2,3) by (simp add: block_map_ok_def same_hdr_iff)
    then have mok: "block_map_ok ba_wf (ext2fs_mark_super_dirty fs') b'" by (simp only: geo_map_ok[OF geo2])
    show ?thesis
      using fs'(4) assms(3) b'(4) mok unfolding counts_are_def blocks_accounted_def Let_def
      by (simp add: geo_cluster_group[OF geo2] geo_cluster_group[OF fs'(2)] geoD(14,15)[OF fs'(2)] geoD(14,15)[OF geo2])
  qed
  have inodes: "inodes_accounted ba_wf ba_bits ?af'"
    by (rule inodes_accounted_cong[OF a(3) geo])
      (use fs'(3) in \<open>simp_all add: same_inode_counts_def\<close>)
  have acc: "accounted ?af'" by (rule accounted_geo[OF assms(1) geo blocks inodes])
  have "\<not> blk + ucast num > ?m" using bn assms(6) by (simp add: word_less_nat_alt)
  moreover have "inuse \<noteq> 0" "(if inuse > 0 then 1 else - 1) = inuse" using inuse by auto
  ultimately have "ext2fs_block_alloc_stats_range ext2fs_blkmap64_bitarray csum af blk num inuse = Some (?af', Some (blk + ucast num, 0, inuse))"
    using fs'(1) b'(1) by (simp add: ext2fs_block_alloc_stats_range_def)
  then show ?thesis using acc fs'(2) b'(4) unfolding S'_def by (intro exI[of _ ?af'] exI[of _ b']) simp
qed

section \<open>The two entry points\<close>

lemma geometry_first:
  assumes "alloc_geometry_ok fs"
  shows "ucast (s_first_data_block (fs_super fs)) < ext2fs_blocks_count (fs_super fs)"
proof -
  have "cluster_geometry_ok fs" using assms by (simp add: alloc_geometry_ok_def Let_def)
  then obtain f n c k s where "f = unat (s_first_data_block (fs_super fs))" "unat (ext2fs_blocks_count (fs_super fs)) = f + n" "0 < n"
    using cluster_facts by metis
  then show ?thesis by (simp add: word_less_nat_alt)
qed

lemma accounted_magic: "accounted af \<Longrightarrow> fs_magic (af_fs af) = Some EXT2_ET_MAGIC_EXT2FS_FILSYS"
  by (simp add: accounted_def alloc_geometry_ok_def cluster_geometry_ok_def Let_def)

definition eff_goal :: "ext2_filsys \<Rightarrow> u64 \<Rightarrow> u64" where
  "eff_goal fs goal = (if goal = 0 \<or> goal \<ge> ext2fs_blocks_count (fs_super fs) then ucast (s_first_data_block (fs_super fs)) else goal)"

lemma eff_goal_bounds:
  assumes "alloc_geometry_ok fs" "goal = 0 \<or> ucast (s_first_data_block (fs_super fs)) \<le> goal"
  shows "ucast (s_first_data_block (fs_super fs)) \<le> eff_goal fs goal" "eff_goal fs goal < ext2fs_blocks_count (fs_super fs)"
  using geometry_first[OF assms(1)] assms(2) by (auto simp: eff_goal_def)

lemma new_range_own:
  assumes "accounted af" "af_block_map af = Some (Bitmap64 b)" "len \<noteq> 0" "flags AND NOT 3 = 0"
  shows "ext2fs_new_range ops csum None af flags goal len None =
    new_range_loop ops csum (flags AND 1 \<noteq> 0) (flags AND 2 \<noteq> 0) (eff_goal (af_fs af) goal) len (Some (Bitmap64 b)) af (eff_goal (af_fs af) goal) False"
  using assms accounted_magic[OF assms(1)] by (simp add: ext2fs_new_range_def Let_def eff_goal_def)

definition range_in_bounds :: "ext2_filsys \<Rightarrow> u64 \<Rightarrow> bool" where
  "range_in_bounds fs len \<longleftrightarrow>
     len \<noteq> 0 \<and> unat (ext2fs_blocks_count (fs_super fs)) + unat len \<le> 2 ^ 64 \<and>
     unat (ext2fs_blocks_count (fs_super fs)) + unat (s_blocks_per_group (fs_super fs)) \<le> 2 ^ 64"

lemma free_range_span:
  assumes "free_range fs b s len" "fs_cluster_ratio_bits fs = 0"
  shows "span s (unat len) \<subseteq> unmarked ba_bits b"
  using assms by (auto simp: free_range_def span_def block_free_def EXT2FS_B2C_def)

text \<open>What \<^verbatim>\<open>ext2fs_alloc_range\<close> does with valid arguments.\<close>

lemma alloc_range_own:
  fixes len :: u32 and goal :: u64 and flags :: u32
  assumes "accounted af" "af_block_map af = Some (Bitmap64 b)" "len \<noteq> 0" "flags AND NOT 3 = 0"
  defines "g \<equiv> eff_goal (af_fs af) goal"
  shows "ext2fs_alloc_range ops csum None zero af flags goal len =
    Option.bind (new_range_loop ops csum (flags AND 1 \<noteq> 0) True g (ucast len) (Some (Bitmap64 b)) af g False)
      (\<lambda>(r, af). case r of
           Inl e \<Rightarrow> Some (Inl e, af)
         | Inr (blk, plen) \<Rightarrow>
             if plen < ucast len then Some (Inl EXT2_ET_BLOCK_ALLOC_FAIL, af)
             else case (if flags AND 2 \<noteq> 0 then zero blk len else None) of
                    Some e \<Rightarrow> Some (Inl e, af)
                  | None \<Rightarrow> map_option (\<lambda>(af, _). (Inr blk, af)) (ext2fs_block_alloc_stats_range ops csum af blk len 1))"
proof -
  have len: "(ucast len :: u64) \<noteq> 0" using assms(3) by (simp add: word_unat_eq_iff)
  have nr: "ext2fs_new_range ops csum None af (2 OR (if flags AND 1 \<noteq> 0 then 1 else 0)) goal (ucast len) None =
      new_range_loop ops csum (flags AND 1 \<noteq> 0) True g (ucast len) (Some (Bitmap64 b)) af g False"
    by (cases "flags AND 1 = 0") (simp_all add: new_range_own[OF assms(1,2) len] g_def)
  show ?thesis
    unfolding ext2fs_alloc_range_def Let_def nr using assms(3,4) accounted_magic[OF assms(1)] by simp
qed

lemma alloc_range_spec:
  fixes len :: u32
  assumes "accounted af" "af_block_map af = Some (Bitmap64 b)" "fs_cluster_ratio_bits (af_fs af) = 0"
    and "goal = 0 \<or> ucast (s_first_data_block (fs_super (af_fs af))) \<le> goal" "range_in_bounds (af_fs af) (ucast len)"
    and ret: "ext2fs_alloc_range ext2fs_blkmap64_bitarray csum None zero af flags goal len = Some (r, af')"
  shows "accounted af' \<and> same_geo (af_fs af') (af_fs af) \<and>
    (case r of
       Inr s \<Rightarrow> free_range (af_fs af) b s (ucast len) \<and>
         (\<exists>b'. af_block_map af' = Some (Bitmap64 b') \<and> unmarked ba_bits b' = unmarked ba_bits b - span s (unat len))
     | Inl e \<Rightarrow> af_block_map af' = af_block_map af)"
proof -
  let ?fs = "af_fs af"
  have len0: "len \<noteq> 0" "(ucast len :: u64) \<noteq> 0" using assms(5) by (auto simp: range_in_bounds_def)
  have geo: "alloc_geometry_ok ?fs" using assms(1) by (simp add: accounted_def)
  show ?thesis
  proof (cases "flags AND NOT 3 = 0")
    case False
    then show ?thesis using ret accounted_magic[OF assms(1)] assms(1) by (auto simp: ext2fs_alloc_range_def same_geo_def)
  next
    case True
    let ?loop = "new_range_loop ext2fs_blkmap64_bitarray csum (flags AND 1 \<noteq> 0) True (eff_goal ?fs goal) (ucast len) (Some (Bitmap64 b)) af
      (eff_goal ?fs goal) False"
    note ar = alloc_range_own[OF assms(1,2) len0(1) True, of ext2fs_blkmap64_bitarray csum zero goal]
    obtain q af1 where q: "?loop = Some (q, af1)"
      using ret by (cases ?loop) (auto simp: ar)
    have s: "range_result (flags AND 1 \<noteq> 0) True ?fs b (eff_goal ?fs goal) (ucast len) q" "accounted af1" "same_geo (af_fs af1) ?fs"
      "af_block_map af1 = af_block_map af"
      using new_range_loop_sound[OF assms(1,2) len0(2) _ _ eff_goal_bounds[OF geo assms(4)] q] assms(5)
      by (simp_all add: range_in_bounds_def)
    note ret = ret[unfolded ar q, simplified]
    show ?thesis
    proof (cases q)
      case (Inl e)
      then show ?thesis using ret s by auto
    next
      case (Inr p)
      then obtain blk where p: "q = Inr (blk, ucast len)" "free_range ?fs b blk (ucast len)"
        using s(1) by (cases p) (auto simp: range_result_def)
      show ?thesis
      proof (cases "if flags AND 2 \<noteq> 0 then zero blk len else None")
        case (Some e)
        then show ?thesis using ret s p by (auto split: if_splits)
      next
        case None
        have m: "af_block_map af1 = Some (Bitmap64 b)" using s(4) assms(2) by simp
        have fr: "ucast (s_first_data_block (fs_super (af_fs af1))) \<le> blk" "unat blk + unat len \<le> unat (ext2fs_blocks_count (fs_super (af_fs af1)))"
          "fs_cluster_ratio_bits (af_fs af1) = 0"
          using p(2) assms(3) by (simp_all add: free_range_def geoD[OF s(3)] geo_blocks[OF s(3)])
        obtain af2 b' where st: "ext2fs_block_alloc_stats_range ext2fs_blkmap64_bitarray csum af1 blk len 1 = Some (af2, Some (blk + ucast len, 0, 1))"
          "accounted af2" "same_geo (af_fs af2) (af_fs af1)" "af_block_map af2 = Some (Bitmap64 b')"
          "unmarked ba_bits b' = unmarked ba_bits b - span blk (unat len)"
          using stats_range_keeps[OF s(2) m fr(3) len0(1) fr(1,2), of 1 csum] free_range_span[OF p(2) assms(3)] by auto
        have "ext2fs_alloc_range ext2fs_blkmap64_bitarray csum None zero af flags goal len = Some (Inr blk, af2)"
          using p(1) None st(1) by (simp add: ar q)
        then show ?thesis using assms(6) st p(2) same_geo_trans[OF st(3) s(3)] by auto
      qed
    qed
  qed
qed

end
