(* ===== verification/Alloc_History.thy ===== *)
theory Alloc_History
  imports Alloc_Range
begin

text \<open>
  Histories of allocations and releases, and what the allocation functions give, on file systems that use the bit array.
\<close>

section \<open>Histories of allocations\<close>

text \<open>
  A file system on the bit array whose geometry and counts are in order, and what the library's users do with it: blocks and inodes
  are allocated, with any outcome, and blocks and inodes in use are freed; ranges of blocks, where clusters are single blocks.
  The client sets no handlers.
\<close>

inductive alloc_step :: "gd_csum \<Rightarrow> ba_private alloc_fs \<Rightarrow> ba_private alloc_fs \<Rightarrow> bool" for csum where
  new_block: "alloc_step csum af af'"
    if "goal = 0 \<or> ucast (s_first_data_block (fs_super (af_fs af))) \<le> goal"
      "ext2fs_alloc_block2 ext2fs_blkmap64_bitarray csum None zero rd af goal = Some (r, af')"
| free_block: "alloc_step csum af (ext2fs_block_alloc_stats2 ext2fs_blkmap64_bitarray csum af blk (- 1))"
    if "ucast (s_first_data_block (fs_super (af_fs af))) \<le> blk" "blk < ext2fs_blocks_count (fs_super (af_fs af))"
      "fst (ext2fs_test_generic_bmap ext2fs_blkmap64_bitarray (af_block_map af) blk) \<noteq> 0"
| new_inode: "alloc_step csum af (ext2fs_inode_alloc_stats2 ext2fs_blkmap64_bitarray csum af' ino 1 isdir)"
    if "dir \<le> s_inodes_count (fs_super (af_fs af))"
      "ext2fs_new_inode ext2fs_blkmap64_bitarray csum af dir None = Some (Inr ino, af', mp)"
| no_inode: "alloc_step csum af af'"
    if "dir \<le> s_inodes_count (fs_super (af_fs af))"
      "ext2fs_new_inode ext2fs_blkmap64_bitarray csum af dir None = Some (Inl e, af', mp)"
| free_inode: "alloc_step csum af (ext2fs_inode_alloc_stats2 ext2fs_blkmap64_bitarray csum af ino (- 1) isdir)"
    if "1 \<le> ino" "ino \<le> s_inodes_count (fs_super (af_fs af))"
      "fst (ext2fs_test_generic_bmap ext2fs_blkmap64_bitarray (af_inode_map af) (ucast ino)) \<noteq> 0"
| new_range: "alloc_step csum af af'"
    if "fs_cluster_ratio_bits (af_fs af) = 0" "goal = 0 \<or> ucast (s_first_data_block (fs_super (af_fs af))) \<le> goal"
      "range_in_bounds (af_fs af) (ucast (len :: u32))"
      "ext2fs_alloc_range ext2fs_blkmap64_bitarray csum None zero af flags goal len = Some (r, af')"
| release_range: "alloc_step csum af af'"
    if "fs_cluster_ratio_bits (af_fs af) = 0" "num \<noteq> 0" "ucast (s_first_data_block (fs_super (af_fs af))) \<le> blk"
      "unat blk + unat num \<le> unat (ext2fs_blocks_count (fs_super (af_fs af)))"
      "\<And>x. x \<in> span blk (unat num) \<Longrightarrow> fst (ext2fs_test_generic_bmap ext2fs_blkmap64_bitarray (af_block_map af) x) \<noteq> 0"
      "ext2fs_block_alloc_stats_range ext2fs_blkmap64_bitarray csum af blk num (- 1) = Some (af', told)"

lemma alloc_step_keeps:
  assumes "alloc_step csum af af'" "accounted af"
  shows "accounted af'"
  using assms
proof (induction rule: alloc_step.induct)
  case (new_block goal af zero rd r af')
  have a: "alloc_geometry_ok (af_fs af)" "blocks_accounted ba_wf ba_bits af" "inodes_accounted ba_wf ba_bits af"
    using new_block(3) by (simp_all add: accounted_def)
  obtain b where b: "af_block_map af = Some (Bitmap64 b)" using accounted_maps[OF new_block(3)] by metis
  have "blocks_accounted ba_wf ba_bits af' \<and> same_geo (af_fs af') (af_fs af) \<and> same_inode_counts (af_fs af') (af_fs af) \<and>
      af_inode_map af' = af_inode_map af"
    by (rule ba.alloc_block2_spec[OF a(1,2) b ba_find_zero new_block(1), where zero = zero and rd = rd and csum = csum])
      (use new_block(2) in simp)
  then show ?case using accounted_geo[OF new_block(3)] inodes_accounted_cong[OF a(3)] by blast
next
  case (free_block af blk)
  have a: "alloc_geometry_ok (af_fs af)" "blocks_accounted ba_wf ba_bits af" "inodes_accounted ba_wf ba_bits af"
    using free_block(4) by (simp_all add: accounted_def)
  obtain b where b: "af_block_map af = Some (Bitmap64 b)" "block_map_ok ba_wf (af_fs af) b" using accounted_maps[OF free_block(4)] by metis
  have "EXT2FS_B2C (af_fs af) blk \<notin> unmarked ba_bits b"
    using marked_not_free[of b blk] b free_block(3) a(1)
    by (simp add: block_map_ok_def alloc_geometry_ok_def cluster_geometry_ok_def Let_def EXT2FS_B2C_def)
  then have i: "- 1 = (1 :: int) \<and> EXT2FS_B2C (af_fs af) blk \<in> unmarked ba_bits b \<or>
      - 1 = (- 1 :: int) \<and> EXT2FS_B2C (af_fs af) blk \<notin> unmarked ba_bits b" by simp
  show ?case
    by (rule ba.block_stats_keeps[OF a(1,2) b(1) free_block(1,2) i, where csum = csum])
      (rule accounted_geo[OF free_block(4)], assumption+, rule inodes_accounted_cong[OF a(3)])
next
  case (new_inode dir af ino af' mp isdir)
  have a: "inode_geometry_ok (af_fs af)" "inodes_accounted ba_wf ba_bits af" "blocks_accounted ba_wf ba_bits af"
    using new_inode(3) by (simp_all add: accounted_def)
  obtain b where b: "af_inode_map af = Some (Bitmap64 b)" using accounted_maps[OF new_inode(3)] by metis
  obtain b' where n: "inodes_accounted ba_wf ba_bits af'" "same_geo (af_fs af') (af_fs af)" "same_block_counts (af_fs af') (af_fs af)"
    "af_block_map af' = af_block_map af" "af_inode_map af' = Some (Bitmap64 b')" "unmarked ba_bits b' = unmarked ba_bits b"
    "EXT2_FIRST_INODE (fs_super (af_fs af)) \<le> ino" "ino \<le> s_inodes_count (fs_super (af_fs af))" "ucast ino \<in> unmarked ba_bits b"
    by (rule ba.new_inode_spec[OF a(1,2) b ba_find_zero new_inode(1), where csum = csum]) (use new_inode(2) in auto)
  have blocks: "blocks_accounted ba_wf ba_bits af'" by (rule blocks_accounted_cong[OF a(3) n(2-4)])
  have acc: "accounted af'" by (rule accounted_geo[OF new_inode(3) n(2) blocks n(1)])
  have geo: "inode_geometry_ok (af_fs af')" using acc by (simp add: accounted_def)
  have "1 \<le> EXT2_FIRST_INODE (fs_super (af_fs af))" using a(1) by (simp add: inode_geometry_ok_def Let_def)
  then have ino: "1 \<le> ino" "ino \<le> s_inodes_count (fs_super (af_fs af'))" using n(7,8) by (simp_all add: geoD(7)[OF n(2)])
  have i: "1 = (1 :: int) \<and> ucast ino \<in> unmarked ba_bits b' \<or> 1 = (- 1 :: int) \<and> ucast ino \<notin> unmarked ba_bits b'"
    using n(6,9) by simp
  show ?case
    by (rule ba.inode_stats_keeps[OF geo n(1,5) ino i, where csum = csum and isdir = isdir])
      (rule accounted_geo[OF acc], assumption, rule blocks_accounted_cong[OF blocks])
next
  case (no_inode dir af e af' mp)
  have a: "inode_geometry_ok (af_fs af)" "inodes_accounted ba_wf ba_bits af" "blocks_accounted ba_wf ba_bits af"
    using no_inode(3) by (simp_all add: accounted_def)
  obtain b where b: "af_inode_map af = Some (Bitmap64 b)" using accounted_maps[OF no_inode(3)] by metis
  have "inodes_accounted ba_wf ba_bits af' \<and> same_geo (af_fs af') (af_fs af) \<and> same_block_counts (af_fs af') (af_fs af) \<and>
      af_block_map af' = af_block_map af"
    by (rule ba.new_inode_spec[OF a(1,2) b ba_find_zero no_inode(1), where csum = csum]) (use no_inode(2) in auto)
  then show ?case using accounted_geo[OF no_inode(3)] blocks_accounted_cong[OF a(3)] by blast
next
  case (free_inode ino af isdir)
  have a: "inode_geometry_ok (af_fs af)" "inodes_accounted ba_wf ba_bits af" "blocks_accounted ba_wf ba_bits af"
    using free_inode(4) by (simp_all add: accounted_def)
  obtain b where b: "af_inode_map af = Some (Bitmap64 b)" "inode_map_ok ba_wf (af_fs af) b" using accounted_maps[OF free_inode(4)] by metis
  have "ucast ino \<notin> unmarked ba_bits b"
    using marked_not_free[of b "ucast ino"] b free_inode(3) by (simp add: inode_map_ok_def)
  then have i: "- 1 = (1 :: int) \<and> ucast ino \<in> unmarked ba_bits b \<or> - 1 = (- 1 :: int) \<and> ucast ino \<notin> unmarked ba_bits b" by simp
  show ?case
    by (rule ba.inode_stats_keeps[OF a(1,2) b(1) free_inode(1,2) i, where csum = csum and isdir = isdir])
      (rule accounted_geo[OF free_inode(4)], assumption, rule blocks_accounted_cong[OF a(3)])
next
  case (new_range af goal len zero flags r af')
  obtain b where "af_block_map af = Some (Bitmap64 b)" using accounted_maps[OF new_range(5)] by metis
  then show ?case using alloc_range_spec[OF new_range(5) _ new_range(1-4)] by blast
next
  case (release_range af num blk af' told)
  obtain b where b: "af_block_map af = Some (Bitmap64 b)" "block_map_ok ba_wf (af_fs af) b" using accounted_maps[OF release_range(7)] by metis
  have "x \<notin> unmarked ba_bits b" if "x \<in> span blk (unat num)" for x
    using marked_not_free[of b x] b release_range(1) release_range(5)[OF that] by (simp add: block_map_ok_def)
  then have "- 1 = (1 :: int) \<and> span blk (unat num) \<subseteq> unmarked ba_bits b \<or> - 1 = (- 1 :: int) \<and> span blk (unat num) \<inter> unmarked ba_bits b = {}"
    by blast
  then show ?case using stats_range_keeps[OF release_range(7) b(1) release_range(1-4), of "- 1" csum] release_range(6) by auto
qed


text \<open>C4: The counts stay exact: in a file system on the bit array whose geometry is consistent (bigalloc clusters included), the free block
  count of every group is the number of its unmarked clusters and that of the superblock the number of blocks in unmarked clusters; the
  free inode counts are those of the inode bitmap; and with descriptor checksums no inode in use lies in a group that is flagged as
  uninitialised or in the unused part of an inode table. This is kept by any sequence of allocations of single blocks and of inodes, failed
  ones included, and of releases of single blocks and inodes that are in use; and, in file systems whose clusters are single blocks only, of
  allocations of ranges and releases of ranges that are in use. (Goals are 0 or data blocks, directories are inodes of the file system,
  ranges lie in it, and the client has set no handlers. With larger clusters range operations do not keep the counts.)\<close>

theorem allocation_keeps_counts:
  assumes "(alloc_step csum)\<^sup>*\<^sup>* af af'" "accounted af"
  shows "accounted af'"
  using assms by (induction rule: rtranclp_induct) (auto intro: alloc_step_keeps)

definition demo_alloc_fs :: ext2_filsys where
  "demo_alloc_fs = cluster_fs\<lparr>
     fs_super := (fs_super cluster_fs)\<lparr>s_inodes_count := 16, s_free_inodes_count := 16, s_free_blocks_count := 32, s_feature_ro_compat := 0x11\<rparr>,
     fs_group_desc := st16 (st16 (st16 (st16 (replicate 64 0) 12 8) 14 16) 18 3) 28 16\<rparr>"

definition demo_inode_bm :: "ba_private any_bitmap" where
  "demo_inode_bm = (case ext2fs_allocate_inode_bitmap ext2fs_blkmap64_bitarray demo_mem legacy_mem demo_alloc_fs None of
     Inr b \<Rightarrow> b | Inl e \<Rightarrow> Bitmap64 demo_bitmap)"

definition demo_alloc :: "ba_private alloc_fs" where
  "demo_alloc = \<lparr>af_fs = demo_alloc_fs, af_block_map = Some cluster_bm, af_inode_map = Some demo_inode_bm,
     af_bb_dirty = False, af_ib_dirty = False\<rparr>"

definition as64 :: "'p any_bitmap \<Rightarrow> 'p gbitmap option" where
  "as64 m = (case m of Bitmap64 b \<Rightarrow> Some b | Bitmap32 _ \<Rightarrow> None)"

lemma as64_eq: "as64 m = Some b \<longleftrightarrow> m = Bitmap64 b"
  by (cases m) (auto simp: as64_def)

lemma demo_geometry: "alloc_geometry_ok demo_alloc_fs" "inode_geometry_ok demo_alloc_fs"
proof -
  have 1: "geometry_ok demo_alloc_fs" by code_simp
  have 2: "fs_magic demo_alloc_fs = Some EXT2_ET_MAGIC_EXT2FS_FILSYS" "fs_flag_64bits demo_alloc_fs"
    "fs_cluster_ratio_bits demo_alloc_fs = 2" "s_blocks_per_group (fs_super demo_alloc_fs) = 32"
    "s_clusters_per_group (fs_super demo_alloc_fs) = 8" "s_first_data_block (fs_super demo_alloc_fs) = 0"
    "fs_group_desc_count demo_alloc_fs = 1" "has_64bit (fs_super demo_alloc_fs)" "ext2fs_blocks_count (fs_super demo_alloc_fs) = 32"
    "EXT2_DESC_SIZE (fs_super demo_alloc_fs) = 64" "length (fs_group_desc demo_alloc_fs) = 64"
    "s_inodes_per_group (fs_super demo_alloc_fs) = 16" "s_inodes_count (fs_super demo_alloc_fs) = 16"
    "EXT2_FIRST_INODE (fs_super demo_alloc_fs) = 11"
    by code_simp+
  have 3: "cluster_geometry_ok demo_alloc_fs" "descs_ok demo_alloc_fs"
    using 1 2 by (simp_all add: cluster_geometry_ok_def descs_ok_def)
  show "alloc_geometry_ok demo_alloc_fs" using 2 3 by (simp add: alloc_geometry_ok_def Let_def)
  show "inode_geometry_ok demo_alloc_fs" using 2 3 by (simp add: inode_geometry_ok_def Let_def)
qed

definition fresh_map :: "u64 \<Rightarrow> u64 \<Rightarrow> nat \<Rightarrow> ba_private any_bitmap \<Rightarrow> bool" where
  "fresh_map s e cb m =
     (case as64 m of
        None \<Rightarrow> False
      | Some b \<Rightarrow> EXT2FS_IS_64_BITMAP (gb_magic b) \<and> gb_start b = s \<and> gb_end b = e \<and> gb_real_end b = e \<and> gb_cluster_bits b = cb \<and>
          bitarray (gb_private b) = replicate (ba_size s e) 0)"

lemma fresh_mapD:
  assumes "fresh_map s e cb m" "s \<le> e" "unat (e - s) < 2 ^ 63"
  obtains b where "m = Bitmap64 b" "EXT2FS_IS_64_BITMAP (gb_magic b)" "gb_start b = s" "gb_end b = e" "gb_cluster_bits b = cb"
    "ba_wf b" "unmarked ba_bits b = {s..e}"
proof -
  obtain b where b: "m = Bitmap64 b" "EXT2FS_IS_64_BITMAP (gb_magic b)" "gb_start b = s" "gb_end b = e" "gb_real_end b = e" "gb_cluster_bits b = cb"
    "bitarray (gb_private b) = replicate (ba_size s e) 0"
    using assms(1) by (auto simp: fresh_map_def as64_eq split: option.splits)
  have wf: "ba_wf b" using assms(2,3) by (simp add: ba_wf_def hdr_ok_def b)
  have "\<not> bit_at (replicate (ba_size s e) 0) (unat (x - s))" if "s \<le> x" "x \<le> e" for x
  proof -
    have "unat (x - s) \<le> unat (e - s)" using that assms(2) by (simp add: unat_minus_nat word_le_nat_alt)
    then have "unat (x - s) div 8 < ba_size s e" by (simp add: ba_size_eq[OF assms(3)] div_le_mono less_Suc_eq_le)
    then show ?thesis by (simp add: bit_at_def)
  qed
  then have "ba_bits b = {}" by (auto simp: ba_bits_def b)
  then have "unmarked ba_bits b = {s..e}" by (simp add: unmarked_def b)
  then show thesis using that b wf by blast
qed

text \<open>A file system of one group in which nothing is in use.\<close>

definition fresh_fs :: "ext2_filsys \<Rightarrow> bool" where
  "fresh_fs fs \<longleftrightarrow>
     (let sb = fs_super fs; e = unat (EXT2FS_B2C fs (ext2fs_blocks_count sb - 1)); n = unat (s_inodes_count sb)
      in fs_group_desc_count fs = 1 \<and> s_first_data_block sb = 0 \<and> e < unat (s_clusters_per_group sb) \<and>
         unat (ext2fs_bg_free_blocks_count fs 0) = e + 1 \<and>
         unat (ext2fs_free_blocks_count sb) = 2 ^ fs_cluster_ratio_bits fs * (e + 1) \<and>
         unat (ext2fs_bg_free_inodes_count fs 0) = n \<and> unat (s_free_inodes_count sb) = n \<and>
         ext2fs_bg_itable_unused fs 0 \<le> s_inodes_per_group sb)"

lemma fresh_accounted:
  assumes "alloc_geometry_ok fs" "inode_geometry_ok fs" "fresh_fs fs"
    and "fresh_map 0 (EXT2FS_B2C fs (ext2fs_blocks_count (fs_super fs) - 1)) (fs_cluster_ratio_bits fs) bm"
    and "fresh_map 1 (ucast (s_inodes_count (fs_super fs))) 0 im"
  shows "accounted \<lparr>af_fs = fs, af_block_map = Some bm, af_inode_map = Some im, af_bb_dirty = False, af_ib_dirty = False\<rparr>"
proof -
  let ?sb = "fs_super fs"
  define e where "e = EXT2FS_B2C fs (ext2fs_blocks_count ?sb - 1)"
  define n :: u64 where "n = ucast (s_inodes_count ?sb)"
  note f = assms(3)[unfolded fresh_fs_def Let_def e_def[symmetric]]
  have ipg: "unat (s_inodes_count ?sb) = unat (s_inodes_per_group ?sb)" "0 < unat (s_inodes_per_group ?sb)"
    using assms(2) f by (simp_all add: inode_geometry_ok_def Let_def)
  have un: "unat n = unat (s_inodes_count ?sb)" by (simp add: n_def)
  have n1: "1 \<le> n" "unat (n - 1) < 2 ^ 63"
    using ipg un unsigned_less[of "s_inodes_count ?sb", where 'a = nat] by (simp_all add: word_le_nat_alt unat_minus_nat)
  obtain b where b: "bm = Bitmap64 b" "EXT2FS_IS_64_BITMAP (gb_magic b)" "gb_start b = 0" "gb_end b = e"
    "gb_cluster_bits b = fs_cluster_ratio_bits fs" "ba_wf b" "unmarked ba_bits b = {0..e}"
    by (rule fresh_mapD[OF assms(4)[folded e_def]]) (use f unsigned_less[of "s_clusters_per_group ?sb", where 'a = nat] in auto)
  obtain bi where bi: "im = Bitmap64 bi" "EXT2FS_IS_64_BITMAP (gb_magic bi)" "gb_start bi = 1" "gb_end bi = n"
    "gb_cluster_bits bi = 0" "ba_wf bi" "unmarked ba_bits bi = {1..n}"
    by (rule fresh_mapD[OF assms(5)[folded n_def] n1])
  have s0: "EXT2FS_B2C fs (ucast (s_first_data_block ?sb)) = 0" using f by (simp add: EXT2FS_B2C_def)
  have one: "(g :: u32) < 1 \<longleftrightarrow> g = 0" for g by (simp add: word_less_nat_alt word_unat_eq_iff)
  have "cluster_group fs c = 0" if "c \<le> e" for c
    unfolding cluster_group_def s0 using that f by (simp add: word_le_nat_alt)
  then have "{c. c \<le> e \<and> cluster_group fs c = 0} = {0..e}" by auto
  moreover have "inode_group fs i = 0" if "i \<le> n" for i
    using that un ipg by (simp add: inode_group_def word_le_nat_alt)
  then have "{i. 1 \<le> i \<and> i \<le> n \<and> inode_group fs i = 0} = {1..n}" by auto
  ultimately have grp: "card {c. c \<le> e \<and> cluster_group fs c = 0} = unat e + 1" "card {i. 1 \<le> i \<and> i \<le> n \<and> inode_group fs i = 0} = unat n"
    using n1(1) by (simp_all add: card_word_ivl word_le_nat_alt)
  have "block_map_ok ba_wf fs b" "inode_map_ok ba_wf fs bi"
    by (simp_all add: block_map_ok_def inode_map_ok_def b bi s0 e_def n_def)
  moreover have "unat (ext2fs_bg_itable_unused fs 0) \<le> unat (s_inodes_per_group ?sb)" using f by (simp add: word_le_nat_alt)
  ultimately show ?thesis
    using f assms(1,2) grp un n1(1)
    by (simp add: accounted_def blocks_accounted_def inodes_accounted_def Let_def b bi one card_word_ivl word_le_nat_alt)
qed

lemma demo_accounted: "accounted demo_alloc"
proof -
  have "fresh_fs demo_alloc_fs"
    "fresh_map 0 (EXT2FS_B2C demo_alloc_fs (ext2fs_blocks_count (fs_super demo_alloc_fs) - 1)) (fs_cluster_ratio_bits demo_alloc_fs) cluster_bm"
    "fresh_map 1 (ucast (s_inodes_count (fs_super demo_alloc_fs))) 0 demo_inode_bm"
    by (code_simp, code_simp, code_simp)
  then show ?thesis unfolding demo_alloc_def by (rule fresh_accounted[OF demo_geometry])
qed

theorem allocation_keeps_counts_witness:
  "\<exists>af'. (alloc_step (\<lambda>_ _. 7))\<^sup>*\<^sup>* demo_alloc af' \<and> accounted af' \<and> ext2fs_bg_free_blocks_count (af_fs af') 0 = 7"
proof -
  have "case ext2fs_alloc_block2 ext2fs_blkmap64_bitarray (\<lambda>_ _. 7) None (\<lambda>_. None) (\<lambda>af. (None, af)) demo_alloc 9 of
      Some (r, af') \<Rightarrow> r = Inr 8 \<and> ext2fs_bg_free_blocks_count (af_fs af') 0 = 7 | None \<Rightarrow> False"
    by code_simp
  then obtain r af' where 1: "ext2fs_alloc_block2 ext2fs_blkmap64_bitarray (\<lambda>_ _. 7) None (\<lambda>_. None) (\<lambda>af. (None, af)) demo_alloc 9
      = Some (r, af')" "ext2fs_bg_free_blocks_count (af_fs af') 0 = 7"
    by (auto split: option.splits)
  have "(9 :: u64) = 0 \<or> ucast (s_first_data_block (fs_super (af_fs demo_alloc))) \<le> (9 :: u64)" by code_simp
  then have 2: "(alloc_step (\<lambda>_ _. 7))\<^sup>*\<^sup>* demo_alloc af'" using alloc_step.new_block 1(1) by (intro r_into_rtranclp) blast
  then show ?thesis using allocation_keeps_counts[OF 2 demo_accounted] 1(2) by blast
qed

text \<open>C14: \<^verbatim>\<open>ext2fs_alloc_block2\<close> on a file system whose geometry and counts are in order returns for every goal in the data range (or 0). On success the block lies in the data range,
  its cluster was free and is now the only one newly marked; \<^verbatim>\<open>EXT2_ET_BLOCK_ALLOC_FAIL\<close> means that no cluster is free; any other error
  is that of writing zeroes, and then nothing is marked.\<close>

theorem alloc_block_correct:
  assumes "accounted af" "af_block_map af = Some (Bitmap64 b)"
    and "goal = 0 \<or> ucast (s_first_data_block (fs_super (af_fs af))) \<le> goal"
  shows "\<exists>r af'. ext2fs_alloc_block2 ext2fs_blkmap64_bitarray csum None zero rd af goal = Some (r, af') \<and>
    (case r of
       Inr blk \<Rightarrow> ucast (s_first_data_block (fs_super (af_fs af))) \<le> blk \<and> blk < ext2fs_blocks_count (fs_super (af_fs af)) \<and>
         EXT2FS_B2C (af_fs af) blk \<in> unmarked ba_bits b \<and>
         (\<exists>b'. af_block_map af' = Some (Bitmap64 b') \<and> unmarked ba_bits b' = unmarked ba_bits b - {EXT2FS_B2C (af_fs af) blk})
     | Inl e \<Rightarrow> af_block_map af' = af_block_map af \<and>
         (e = EXT2_ET_BLOCK_ALLOC_FAIL \<and> unmarked ba_bits b = {} \<or> (\<exists>blk. zero blk = Some e)))"
proof -
  have a: "alloc_geometry_ok (af_fs af)" "blocks_accounted ba_wf ba_bits af" using assms(1) by (simp_all add: accounted_def)
  show ?thesis
    by (rule ba.alloc_block2_spec[OF a assms(2) ba_find_zero assms(3), where csum = csum and zero = zero and rd = rd]) blast
qed

lemma demo_block_map: "\<exists>b. af_block_map demo_alloc = Some (Bitmap64 b)"
  using accounted_maps[OF demo_accounted] by metis

theorem alloc_block_correct_witness:
  "\<exists>r af'. ext2fs_alloc_block2 ext2fs_blkmap64_bitarray (\<lambda>_ _. 7) None (\<lambda>_. None) (\<lambda>af. (None, af)) demo_alloc 9 = Some (Inr r, af') \<and>
     r = 8 \<and> ucast (s_first_data_block (fs_super (af_fs demo_alloc))) \<le> r"
proof -
  obtain b where b: "af_block_map demo_alloc = Some (Bitmap64 b)" using demo_block_map ..
  have 1: "(9 :: u64) = 0 \<or> ucast (s_first_data_block (fs_super (af_fs demo_alloc))) \<le> (9 :: u64)" by code_simp
  have "case ext2fs_alloc_block2 ext2fs_blkmap64_bitarray (\<lambda>_ _. 7) None (\<lambda>_. None) (\<lambda>af. (None, af)) demo_alloc 9 of
      Some (r, af') \<Rightarrow> r = Inr 8 | None \<Rightarrow> False"
    by code_simp
  then show ?thesis
    using alloc_block_correct[OF demo_accounted b 1, of "\<lambda>_ _. 7" "\<lambda>_. None" "\<lambda>af. (None, af)"] by auto
qed

text \<open>C15: \<^verbatim>\<open>ext2fs_new_inode\<close> on a file system whose geometry and counts are in order returns for every parent inode. It gives an inode from the first unreserved to the last that is
  free in the bitmap, and fails, with \<^verbatim>\<open>EXT2_ET_INODE_ALLOC_FAIL\<close>, only when there is none: the search
  wraps around the end of the inodes and stops after one round.\<close>

theorem new_inode_correct:
  assumes "accounted af" "af_inode_map af = Some (Bitmap64 b)" "dir \<le> s_inodes_count (fs_super (af_fs af))"
  shows "\<exists>r af' mp. ext2fs_new_inode ext2fs_blkmap64_bitarray csum af dir None = Some (r, af', mp) \<and>
    (case r of
       Inr ino \<Rightarrow> EXT2_FIRST_INODE (fs_super (af_fs af)) \<le> ino \<and> ino \<le> s_inodes_count (fs_super (af_fs af)) \<and>
         ucast ino \<in> unmarked ba_bits b
     | Inl e \<Rightarrow> e = EXT2_ET_INODE_ALLOC_FAIL \<and>
         (\<forall>x. EXT2_FIRST_INODE (fs_super (af_fs af)) \<le> x \<and> x \<le> s_inodes_count (fs_super (af_fs af)) \<longrightarrow> ucast x \<notin> unmarked ba_bits b))"
proof -
  have a: "inode_geometry_ok (af_fs af)" "inodes_accounted ba_wf ba_bits af" using assms(1) by (simp_all add: accounted_def)
  show ?thesis by (rule ba.new_inode_spec[OF a assms(2) ba_find_zero assms(3), where csum = csum]) blast
qed

theorem new_inode_correct_witness:
  "\<exists>r af' mp. ext2fs_new_inode ext2fs_blkmap64_bitarray (\<lambda>_ _. 7) demo_alloc 2 None = Some (Inr r, af', mp) \<and>
     r = 11 \<and> EXT2_FIRST_INODE (fs_super (af_fs demo_alloc)) \<le> r"
proof -
  obtain b where b: "af_inode_map demo_alloc = Some (Bitmap64 b)" using accounted_maps[OF demo_accounted] by metis
  have 1: "(2 :: u32) \<le> s_inodes_count (fs_super (af_fs demo_alloc))" by code_simp
  have "case ext2fs_new_inode ext2fs_blkmap64_bitarray (\<lambda>_ _. 7) demo_alloc 2 None of
      Some (r, af') \<Rightarrow> r = Inr 11 | None \<Rightarrow> False"
    by code_simp
  then show ?thesis using new_inode_correct[OF demo_accounted b 1, of "\<lambda>_ _. 7"] by auto
qed


section \<open>Ranges of blocks\<close>

definition plain_fs :: ext2_filsys where
  "plain_fs = demo_alloc_fs\<lparr>fs_cluster_ratio_bits := 0, fs_super := (fs_super demo_alloc_fs)\<lparr>s_clusters_per_group := 32\<rparr>,
     fs_group_desc := st16 (fs_group_desc demo_alloc_fs) 12 32\<rparr>"

definition plain_bm :: "ba_private any_bitmap" where
  "plain_bm = (case ext2fs_allocate_block_bitmap ext2fs_blkmap64_bitarray demo_mem legacy_mem plain_fs None of
     Inr b \<Rightarrow> b | Inl e \<Rightarrow> Bitmap64 demo_bitmap)"

definition plain_alloc :: "ba_private alloc_fs" where
  "plain_alloc = \<lparr>af_fs = plain_fs, af_block_map = Some plain_bm, af_inode_map = Some demo_inode_bm, af_bb_dirty = False, af_ib_dirty = False\<rparr>"

lemma plain_geometry: "alloc_geometry_ok plain_fs" "inode_geometry_ok plain_fs"
proof -
  have 1: "geometry_ok plain_fs" by code_simp
  have 2: "fs_magic plain_fs = Some EXT2_ET_MAGIC_EXT2FS_FILSYS" "fs_flag_64bits plain_fs"
    "fs_cluster_ratio_bits plain_fs = 0" "s_blocks_per_group (fs_super plain_fs) = 32"
    "s_clusters_per_group (fs_super plain_fs) = 32" "s_first_data_block (fs_super plain_fs) = 0"
    "fs_group_desc_count plain_fs = 1" "has_64bit (fs_super plain_fs)" "ext2fs_blocks_count (fs_super plain_fs) = 32"
    "EXT2_DESC_SIZE (fs_super plain_fs) = 64" "length (fs_group_desc plain_fs) = 64"
    "s_inodes_per_group (fs_super plain_fs) = 16" "s_inodes_count (fs_super plain_fs) = 16"
    "EXT2_FIRST_INODE (fs_super plain_fs) = 11"
    by code_simp+
  have 3: "cluster_geometry_ok plain_fs" "descs_ok plain_fs"
    using 1 2 by (simp_all add: cluster_geometry_ok_def descs_ok_def)
  show "alloc_geometry_ok plain_fs" using 2 3 by (simp add: alloc_geometry_ok_def Let_def)
  show "inode_geometry_ok plain_fs" using 2 3 by (simp add: inode_geometry_ok_def Let_def)
qed

lemma plain_accounted: "accounted plain_alloc"
proof -
  have "fresh_fs plain_fs"
    "fresh_map 0 (EXT2FS_B2C plain_fs (ext2fs_blocks_count (fs_super plain_fs) - 1)) (fs_cluster_ratio_bits plain_fs) plain_bm"
    "fresh_map 1 (ucast (s_inodes_count (fs_super plain_fs))) 0 demo_inode_bm"
    by (code_simp, code_simp, code_simp)
  then show ?thesis unfolding plain_alloc_def by (rule fresh_accounted[OF plain_geometry])
qed

lemma plain_map: obtains b where "af_block_map plain_alloc = Some (Bitmap64 b)" "unmarked ba_bits b = {0..31}"
proof -
  have "fresh_map 0 31 0 plain_bm" by code_simp
  then obtain b where "plain_bm = Bitmap64 b" "unmarked ba_bits b = {0..31}" by (rule fresh_mapD) simp_all
  then show thesis using that by (simp add: plain_alloc_def)
qed

lemma plain_fields: "fs_cluster_ratio_bits plain_fs = 0" "s_first_data_block (fs_super plain_fs) = 0"
  "ext2fs_blocks_count (fs_super plain_fs) = 32" "s_blocks_per_group (fs_super plain_fs) = 32" "af_fs plain_alloc = plain_fs"
  by code_simp+

text \<open>The empty file system with its last block taken.\<close>

lemma plain_last_taken:
  obtains af b where "accounted af" "af_block_map af = Some (Bitmap64 b)" "unmarked ba_bits b = {0..30}" "same_geo (af_fs af) plain_fs"
    "ext2fs_block_alloc_stats_range ext2fs_blkmap64_bitarray (\<lambda>_ _. 7) plain_alloc 31 1 1 = Some (af, Some (32, 0, 1))"
proof -
  obtain b where b: "af_block_map plain_alloc = Some (Bitmap64 b)" "unmarked ba_bits b = {0..31}" by (rule plain_map)
  have sp: "span 31 (unat (1 :: u32)) = {31}" by (auto simp: span_def word_le_nat_alt word_unat_eq_iff)
  have "(1 :: int) = 1 \<and> span 31 (unat (1 :: u32)) \<subseteq> unmarked ba_bits b \<or> (1 :: int) = - 1 \<and> span 31 (unat (1 :: u32)) \<inter> unmarked ba_bits b = {}"
    unfolding sp b(2) by simp
  then obtain af b' where k: "ext2fs_block_alloc_stats_range ext2fs_blkmap64_bitarray (\<lambda>_ _. 7) plain_alloc 31 1 1 = Some (af, Some (31 + ucast (1 :: u32), 0, 1))"
    "accounted af" "same_geo (af_fs af) (af_fs plain_alloc)" "af_block_map af = Some (Bitmap64 b')" "unmarked ba_bits b' = unmarked ba_bits b - {31}"
    using stats_range_keeps[OF plain_accounted b(1), of 1 31 1 "\<lambda>_ _. 7"] unfolding sp by (auto simp: plain_fields)
  have "{0..31} - {31} = {0..30 :: u64}" by (auto simp: word_le_nat_alt word_unat_eq_iff)
  then show thesis using that[of af b'] k b(2) by (simp add: plain_fields)
qed

text \<open>C20: \<^verbatim>\<open>ext2fs_new_range\<close> with \<^verbatim>\<open>EXT2_NEWRANGE_MIN_LENGTH\<close>, called for \<open>len\<close> blocks on a file system on the bit array whose geometry and counts are in order: if there is a run of
  \<open>len\<close> free blocks anywhere, it returns one; if there is none and every block is in use or the last one is free, it returns
  \<^verbatim>\<open>EXT2_ET_BLOCK_ALLOC_FAIL\<close>; and if there is none, the last block is in use and some block is free, it does not return.\<close>

theorem new_range_outcome:
  fixes csum :: gd_csum and len goal :: u64
  assumes "accounted af" "af_block_map af = Some (Bitmap64 b)"
    and "goal = 0 \<or> ucast (s_first_data_block (fs_super (af_fs af))) \<le> goal" "range_in_bounds (af_fs af) len"
  defines "m \<equiv> ext2fs_blocks_count (fs_super (af_fs af))"
    and "none_free \<equiv> \<forall>x. ucast (s_first_data_block (fs_super (af_fs af))) \<le> x \<and> x < ext2fs_blocks_count (fs_super (af_fs af)) \<longrightarrow>
      \<not> block_free (af_fs af) b x"
    and "res \<equiv> ext2fs_new_range ext2fs_blkmap64_bitarray csum None af 2 goal len None"
  shows "if \<exists>s. free_range (af_fs af) b s len
    then \<exists>s af'. res = Some (Inr (s, len), af') \<and> free_range (af_fs af) b s len
    else if none_free \<or> block_free (af_fs af) b (m - 1)
    then \<exists>af'. res = Some (Inl EXT2_ET_BLOCK_ALLOC_FAIL, af')
    else res = None"
proof -
  have geo: "alloc_geometry_ok (af_fs af)" using assms(1) by (simp add: accounted_def)
  have l: "len \<noteq> 0" "unat (ext2fs_blocks_count (fs_super (af_fs af))) + unat len \<le> 2 ^ 64"
    "unat (ext2fs_blocks_count (fs_super (af_fs af))) + unat (s_blocks_per_group (fs_super (af_fs af))) \<le> 2 ^ 64"
    using assms(4) by (simp_all add: range_in_bounds_def)
  note g = eff_goal_bounds[OF geo assms(3)]
  have res: "res = new_range_loop ext2fs_blkmap64_bitarray csum False True (eff_goal (af_fs af) goal) len (Some (Bitmap64 b)) af
      (eff_goal (af_fs af) goal) False"
    unfolding res_def by (simp add: new_range_own[OF assms(1,2) l(1)])
  note d = new_range_decides[OF assms(1,2) l g, of csum, folded res m_def none_free_def]
  have snd: "free_range (af_fs af) b s len" if "res = Some (Inr (s, len), af')" for s af'
    using new_range_loop_sound[OF assms(1,2) l g that[unfolded res]] by (simp add: range_result_def)
  show ?thesis using d snd by (cases "\<exists>s. free_range (af_fs af) b s len") (auto simp: none_free_def m_def)
qed

theorem new_range_outcome_witness:
  "\<exists>af told. ext2fs_block_alloc_stats_range ext2fs_blkmap64_bitarray (\<lambda>_ _. 7) plain_alloc 31 1 1 = Some (af, told) \<and>
     ext2fs_new_range ext2fs_blkmap64_bitarray (\<lambda>_ _. 7) None af 2 0 32 None = None \<and>
     (\<exists>s af'. ext2fs_new_range ext2fs_blkmap64_bitarray (\<lambda>_ _. 7) None af 2 0 31 None = Some (Inr (s, 31), af'))"
proof (rule plain_last_taken)
  fix af b
  assume a: "accounted af" "af_block_map af = Some (Bitmap64 b)" "unmarked ba_bits b = {0..30}" "same_geo (af_fs af) plain_fs"
    "ext2fs_block_alloc_stats_range ext2fs_blkmap64_bitarray (\<lambda>_ _. 7) plain_alloc 31 1 1 = Some (af, Some (32, 0, 1))"
  have f: "fs_cluster_ratio_bits (af_fs af) = 0" "s_first_data_block (fs_super (af_fs af)) = 0"
    "ext2fs_blocks_count (fs_super (af_fs af)) = 32" "s_blocks_per_group (fs_super (af_fs af)) = 32"
    by (simp_all add: geoD[OF a(4)] geo_blocks[OF a(4)] plain_fields)
  have free: "block_free (af_fs af) b x \<longleftrightarrow> x \<le> 30" for x by (simp add: block_free_def EXT2FS_B2C_def f a(3))
  have "\<not> free_range (af_fs af) b s 32" for s
  proof
    assume "free_range (af_fs af) b s 32"
    then have "unat s = 0" "\<forall>x. s \<le> x \<and> unat x < unat s + 32 \<longrightarrow> x \<le> 30" by (simp_all add: free_range_def f free)
    then show False by (auto simp: word_le_nat_alt dest: spec[of _ 31])
  qed
  moreover have "\<not> (\<forall>x. ucast (s_first_data_block (fs_super (af_fs af))) \<le> x \<and> x < ext2fs_blocks_count (fs_super (af_fs af)) \<longrightarrow> \<not> block_free (af_fs af) b x)"
    "\<not> block_free (af_fs af) b (ext2fs_blocks_count (fs_super (af_fs af)) - 1)"
    by (auto simp: f free intro: exI[of _ 0])
  ultimately have 1: "ext2fs_new_range ext2fs_blkmap64_bitarray (\<lambda>_ _. 7) None af 2 0 32 None = None"
    using new_range_outcome[OF a(1,2), of 0 32 "\<lambda>_ _. 7"] by (simp add: range_in_bounds_def f)
  have ex: "\<exists>s. free_range (af_fs af) b s 31" by (rule exI[of _ 0]) (simp add: free_range_def f free word_le_nat_alt)
  have "\<exists>s af'. ext2fs_new_range ext2fs_blkmap64_bitarray (\<lambda>_ _. 7) None af 2 0 31 None = Some (Inr (s, 31), af')"
    using new_range_outcome[OF a(1,2), of 0 31 "\<lambda>_ _. 7", unfolded if_P[OF ex]] by (auto simp: range_in_bounds_def f)
  then show ?thesis using a(5) 1 by blast
qed

text \<open>C37: Every range that \<^verbatim>\<open>ext2fs_new_range\<close> returns, with any flags, is a non-empty run of free blocks of the data range and at most as
  long as asked for; it has exactly that length with \<^verbatim>\<open>EXT2_NEWRANGE_MIN_LENGTH\<close> and begins at the goal with
  \<^verbatim>\<open>EXT2_NEWRANGE_FIXED_GOAL\<close>. The only error is \<^verbatim>\<open>EXT2_ET_BLOCK_ALLOC_FAIL\<close>, and no bit is marked.\<close>

theorem new_range_sound:
  assumes "accounted af" "af_block_map af = Some (Bitmap64 b)"
    and "goal = 0 \<or> ucast (s_first_data_block (fs_super (af_fs af))) \<le> goal" "range_in_bounds (af_fs af) len"
    and "flags AND NOT 3 = 0"
    and "ext2fs_new_range ext2fs_blkmap64_bitarray csum None af flags goal len None = Some (r, af')"
  shows "accounted af' \<and> af_block_map af' = af_block_map af \<and>
    (case r of
       Inr (s, n) \<Rightarrow> free_range (af_fs af) b s n \<and> n \<noteq> 0 \<and> n \<le> len \<and> (flags AND 2 \<noteq> 0 \<longrightarrow> n = len) \<and>
         (flags AND 1 \<noteq> 0 \<longrightarrow> s = eff_goal (af_fs af) goal)
     | Inl e \<Rightarrow> e = EXT2_ET_BLOCK_ALLOC_FAIL)"
proof -
  have geo: "alloc_geometry_ok (af_fs af)" using assms(1) by (simp add: accounted_def)
  have l: "len \<noteq> 0" "unat (ext2fs_blocks_count (fs_super (af_fs af))) + unat len \<le> 2 ^ 64"
    "unat (ext2fs_blocks_count (fs_super (af_fs af))) + unat (s_blocks_per_group (fs_super (af_fs af))) \<le> 2 ^ 64"
    using assms(4) by (simp_all add: range_in_bounds_def)
  note s = new_range_loop_sound[OF assms(1,2) l eff_goal_bounds[OF geo assms(3)] assms(6)[unfolded new_range_own[OF assms(1,2) l(1) assms(5)]]]
  show ?thesis using s by (auto simp: range_result_def split: sum.splits)
qed

theorem new_range_sound_witness:
  "\<exists>s n af'. ext2fs_new_range ext2fs_blkmap64_bitarray (\<lambda>_ _. 7) None plain_alloc 0 30 5 None = Some (Inr (s, n), af') \<and>
     s = 30 \<and> n = 2 \<and> accounted af'"
proof (rule plain_map)
  fix b assume b: "af_block_map plain_alloc = Some (Bitmap64 b)"
  have "case ext2fs_new_range ext2fs_blkmap64_bitarray (\<lambda>_ _. 7) None plain_alloc 0 30 5 None of Some (r, af') \<Rightarrow> r = Inr (30, 2) | None \<Rightarrow> False"
    by code_simp
  then obtain af' where r: "ext2fs_new_range ext2fs_blkmap64_bitarray (\<lambda>_ _. 7) None plain_alloc 0 30 5 None = Some (Inr (30, 2), af')"
    by (auto split: option.splits)
  have "accounted af'"
    using new_range_sound[OF plain_accounted b _ _ _ r] by (simp add: plain_fields range_in_bounds_def)
  then show ?thesis using r by blast
qed

text \<open>C38: Where clusters are single blocks, \<^verbatim>\<open>ext2fs_block_alloc_stats_range\<close> keeps the counts of the groups and of the superblock exact for
  every range of the data blocks that is entirely free (\<open>inuse = 1\<close>) or entirely in use (\<open>inuse = - 1\<close>), across any number of
  groups, and changes exactly the bits of the range. Its handler is told the block after the range and a count of 0, for the loop over the
  groups has consumed its arguments.\<close>

theorem range_stats_exact:
  assumes "accounted af" "af_block_map af = Some (Bitmap64 b)" "fs_cluster_ratio_bits (af_fs af) = 0" "num \<noteq> 0"
    and "ucast (s_first_data_block (fs_super (af_fs af))) \<le> blk" "unat blk + unat num \<le> unat (ext2fs_blocks_count (fs_super (af_fs af)))"
    and "inuse = 1 \<and> span blk (unat num) \<subseteq> unmarked ba_bits b \<or> inuse = - 1 \<and> span blk (unat num) \<inter> unmarked ba_bits b = {}"
  shows "\<exists>af' b'. ext2fs_block_alloc_stats_range ext2fs_blkmap64_bitarray csum af blk num inuse = Some (af', Some (blk + ucast num, 0, inuse)) \<and>
    accounted af' \<and> af_block_map af' = Some (Bitmap64 b') \<and>
    unmarked ba_bits b' = (if inuse = 1 then unmarked ba_bits b - span blk (unat num) else unmarked ba_bits b \<union> span blk (unat num))"
  using stats_range_keeps[OF assms, of csum] by blast

theorem range_stats_exact_witness:
  "\<exists>af'. ext2fs_block_alloc_stats_range ext2fs_blkmap64_bitarray (\<lambda>_ _. 7) plain_alloc 9 5 1 = Some (af', Some (14, 0, 1)) \<and> accounted af'"
proof (rule plain_map)
  fix b assume b: "af_block_map plain_alloc = Some (Bitmap64 b)" "unmarked ba_bits b = {0..31}"
  have "span 9 (unat (5 :: u32)) \<subseteq> {0..31}" by (auto simp: span_def word_le_nat_alt)
  then show ?thesis
    using range_stats_exact[OF plain_accounted b(1), of 5 9 1 "\<lambda>_ _. 7"] b(2) by (auto simp: plain_fields)
qed

text \<open>A range inside one group: a single round of the loop.\<close>

lemma stats_range_one_group:
  fixes num :: u32 and inuse :: int
  assumes "descs_ok fs" "ext2fs_group_of_blk2 fs blk < fs_group_desc_count fs" "num \<noteq> 0"
    and last: "unat blk + unat num \<le> unat (ext2fs_group_last_block2 fs (ext2fs_group_of_blk2 fs blk)) + 1"
    and nc: "nc = ext2fs_bg_free_blocks_count fs (ext2fs_group_of_blk2 fs blk) -
      ucast ((word_of_int inuse * ucast num :: u64) div EXT2FS_CLUSTER_RATIO fs)" "unat nc < 2 ^ 16"
  obtains fs' where "stats_range_loop csum fs blk num inuse = Some (fs', blk + ucast num, 0)" "same_geo fs' fs"
    "ext2fs_bg_free_blocks_count fs' (ext2fs_group_of_blk2 fs blk) = nc"
proof -
  let ?g = "ext2fs_group_of_blk2 fs blk" and ?n = "ucast num :: u64"
  let ?last = "ext2fs_group_last_block2 fs ?g"
  have n0: "0 < unat num" using assms(3) by (simp add: unat_gt_0)
  have n: "(if blk + ?n > ?last then ?last - blk + 1 else ?n) = ?n"
  proof (cases "blk + ?n > ?last")
    case True
    have "unat (blk + ?n) \<le> unat blk + unat num" by (simp add: unat_word_ariths)
    with True last have "unat blk + unat num = unat ?last + 1" by (simp add: word_less_nat_alt)
    moreover have "unat (blk + ?n) = (unat blk + unat num) mod 2 ^ 64" "unat (?last + 1) = (unat ?last + 1) mod 2 ^ 64"
      by (simp_all add: unat_word_ariths(1))
    ultimately have "unat (blk + ?n) = unat (?last + 1)" by (simp only:)
    then have "blk + ?n = ?last + 1" by (rule word_unat_eq_iff[THEN iffD2])
    then have "?last - blk + 1 = ?n" by (simp add: algebra_simps)
    with True show ?thesis by simp
  qed simp
  have fit: "(ucast nc :: u64) = take_bit (if has_64bit (fs_super fs) then 32 else 16) (ucast nc)"
    by (rule ucast_fits) (rule nc(2))
  define fs1 where "fs1 = charge_group csum fs ?g nc (word_of_int (- inuse) * ?n)"
  note ch = charge_group_frame[OF assms(1,2) fit, where csum = csum and x = "word_of_int (- inuse) * ?n", folded fs1_def]
  have "stats_range_loop csum fs blk num inuse = stats_range_loop csum fs1 (blk + ?n) (num - ucast ?n) inuse"
    using assms(3) by (subst stats_range_loop.simps) (simp only: Let_def if_False n fs1_def charge_group_def nc(1))
  also have "\<dots> = Some (fs1, blk + ?n, 0)" by (subst stats_range_loop.simps) simp
  finally show thesis using that ch(1) ch(2)[OF assms(2)] by simp
qed

lemma ucast_of_unat: "(ucast (w :: u64) :: u32) = word_of_nat (unat w)"
  by (simp add: word_unat_eq_iff unsigned_ucast_eq unsigned_of_nat)

lemma unat_uminus64:
  assumes "(w :: u64) \<noteq> 0"
  shows "unat (- w) = 2 ^ 64 - unat w"
proof -
  have full: "a + b = m" if "(a + b) mod m = 0" "0 < b" "a < m" "b < m" for a b m :: nat
    using that by (cases "a + b < m") (auto simp: le_mod_geq)
  have "(unat (- w) + unat w) mod 2 ^ 64 = 0" using unat_word_ariths(1)[of "- w" w] by simp
  moreover have "0 < unat w" using assms by (simp add: unat_gt_0)
  ultimately have "unat (- w) + unat w = 2 ^ 64" by (rule full[OF _ _ unat_less64 unat_less64])
  then show ?thesis by simp
qed

lemma partial_cluster_arith:
  fixes n M R T :: nat
  assumes "M = R * T" "0 < R" "n \<le> M"
  shows "n div R + (M - n) div R + (if R dvd n then 0 else 1) = T"
proof -
  define q r where "q = n div R" and "r = n mod R"
  have n: "n = R * q + r" "r < R" using assms(2) by (simp_all add: q_def r_def)
  have "(M - n) div R + (if R dvd n then 0 else 1) = T - q"
  proof (cases "r = 0")
    case True
    then have "M - n = R * (T - q)" using n assms(1) by (simp add: right_diff_distrib')
    then show ?thesis using True assms(2) by (simp add: r_def dvd_eq_mod_eq_0)
  next
    case False
    have "R * q < R * T" using assms(1,3) n False by linarith
    then have qT: "q < T" by simp
    then obtain t where t: "T = q + 1 + t" by (metis Suc_eq_plus1 less_natE add.commute add.left_commute plus_1_eq_Suc)
    have "M - n = R * t + (R - r)" using n assms(1) by (simp add: t add_mult_distrib2)
    moreover have "(R * t + (R - r)) div R = t"
      by (rule div_nat_eqI) (use False n(2) in simp_all)
    ultimately show ?thesis using False by (simp add: r_def dvd_eq_mod_eq_0 t)
  qed
  moreover have "q \<le> T"
  proof -
    have "R * q \<le> R * T" using assms(1,3) n(1) by linarith
    then show ?thesis using assms(2) by simp
  qed
  ultimately show ?thesis by (simp add: q_def)
qed

text \<open>C39: With clusters of several blocks the count of a group drifts by partial clusters. For any range inside one group of a
  consistent file system, marking it as in use with \<^verbatim>\<open>ext2fs_block_alloc_stats_range\<close> takes the number of blocks divided
  by the blocks of a cluster, rounded down, off the group's count of free clusters; releasing the same range then leaves the
  count where it was if the range is a whole number of clusters, and one above where it was if it is not.\<close>

theorem range_stats_drift:
  fixes num :: u32
  assumes "alloc_geometry_ok (af_fs af)" "fs_cluster_ratio_bits (af_fs af) \<le> 32" "num \<noteq> 0"
    and "ucast (s_first_data_block (fs_super (af_fs af))) \<le> blk"
    and "unat blk + unat num \<le> unat (ext2fs_blocks_count (fs_super (af_fs af)))"
    and "unat blk + unat num \<le> unat (ext2fs_group_last_block2 (af_fs af) (ext2fs_group_of_blk2 (af_fs af) blk)) + 1"
    and "unat num div 2 ^ fs_cluster_ratio_bits (af_fs af)
      \<le> unat (ext2fs_bg_free_blocks_count (af_fs af) (ext2fs_group_of_blk2 (af_fs af) blk))"
    and "unat (ext2fs_bg_free_blocks_count (af_fs af) (ext2fs_group_of_blk2 (af_fs af) blk)) + 1 < 2 ^ 16"
  defines "g \<equiv> ext2fs_group_of_blk2 (af_fs af) blk" and "ratio \<equiv> 2 ^ fs_cluster_ratio_bits (af_fs af)"
  shows "\<exists>af1 af2 told1 told2.
    ext2fs_block_alloc_stats_range ops csum af blk num 1 = Some (af1, told1) \<and>
    ext2fs_block_alloc_stats_range ops csum af1 blk num (- 1) = Some (af2, told2) \<and>
    unat (ext2fs_bg_free_blocks_count (af_fs af1) g) = unat (ext2fs_bg_free_blocks_count (af_fs af) g) - unat num div ratio \<and>
    unat (ext2fs_bg_free_blocks_count (af_fs af2) g) =
      unat (ext2fs_bg_free_blocks_count (af_fs af) g) + (if ratio dvd unat num then 0 else 1)"
proof -
  let ?fs = "af_fs af" and ?k = "fs_cluster_ratio_bits (af_fs af)"
  define cnt where "cnt = ext2fs_bg_free_blocks_count ?fs g"
  have cg: "cluster_geometry_ok ?fs" "descs_ok ?fs" using assms(1) by (simp_all add: alloc_geometry_ok_def Let_def)
  have n0: "0 < unat num" using assms(3) by (simp add: unat_gt_0)
  then have bm: "blk < ext2fs_blocks_count (fs_super ?fs)" using assms(5) by (simp add: word_less_nat_alt)
  have g: "g < fs_group_desc_count ?fs" unfolding g_def by (rule block_cluster(2)[OF cg(1) assms(4) bm])
  have R: "unat (EXT2FS_CLUSTER_RATIO ?fs) = ratio"
    using assms(2) unat_exp64[of ?k] by (simp add: EXT2FS_CLUSTER_RATIO_def ratio_def push_bit_eq_mult)
  define A :: u32 where "A = ucast ((word_of_int 1 * ucast num :: u64) div EXT2FS_CLUSTER_RATIO ?fs)"
  define B :: u32 where "B = ucast ((word_of_int (- 1) * ucast num :: u64) div EXT2FS_CLUSTER_RATIO ?fs)"
  have Aw: "A = word_of_nat (unat num div ratio)"
    unfolding A_def by (simp add: ucast_of_unat unat_div R)
  have A: "unat A = unat num div ratio"
  proof -
    have "unat num div ratio < 2 ^ 32" using unat_less32[of num] by (meson div_le_dividend le_less_trans)
    then show ?thesis by (simp add: Aw unsigned_of_nat take_bit_nat_eq_self)
  qed
  have B: "cnt - A - B = cnt + (if ratio dvd unat num then 0 else 1)"
  proof -
    have "word_of_int (- 1) * ucast num = - (ucast num :: u64)" by simp
    moreover have "(ucast num :: u64) \<noteq> 0" using n0 by (metis unat_0 unat_ucast_32_64 less_irrefl)
    then have "unat (- (ucast num :: u64)) = 2 ^ 64 - unat num" by (simp add: unat_uminus64)
    ultimately have "B = word_of_nat ((2 ^ 64 - unat num) div ratio)"
      unfolding B_def by (simp only: ucast_of_unat unat_div R)
    then have "A + B + (if ratio dvd unat num then 0 else 1) =
        word_of_nat (unat num div ratio + (2 ^ 64 - unat num) div ratio + (if ratio dvd unat num then 0 else 1))"
      by (simp add: Aw)
    also have "\<dots> = word_of_nat (2 ^ (64 - ?k))"
    proof -
      have "(2 :: nat) ^ 64 = ratio * 2 ^ (64 - ?k)" using assms(2) by (simp add: ratio_def flip: power_add)
      moreover have "unat num \<le> 2 ^ 64" using unat_less32[of num] by simp
      ultimately show ?thesis
        by (subst partial_cluster_arith[of "2 ^ 64" ratio "2 ^ (64 - ?k)"]) (simp_all add: ratio_def)
    qed
    also have "\<dots> = (0 :: u32)" using assms(2) by simp
    finally show ?thesis by (simp add: algebra_simps eq_neg_iff_add_eq_0)
  qed
  have cA: "unat (cnt - A) = unat cnt - unat num div ratio"
    using assms(7) A unfolding cnt_def g_def ratio_def by (subst unat_minus_nat) simp_all
  have lt: "unat (cnt - A) < 2 ^ 16" using cA assms(8) unfolding cnt_def g_def by linarith
  have nc1: "cnt - A = ext2fs_bg_free_blocks_count ?fs (ext2fs_group_of_blk2 ?fs blk) -
      ucast ((word_of_int 1 * ucast num :: u64) div EXT2FS_CLUSTER_RATIO ?fs)"
    by (simp only: A_def cnt_def g_def)
  obtain fs1 where fs1: "stats_range_loop csum ?fs blk num 1 = Some (fs1, blk + ucast num, 0)" "same_geo fs1 ?fs"
      "ext2fs_bg_free_blocks_count fs1 g = cnt - A"
    unfolding g_def by (rule stats_range_one_group[OF cg(2) g[unfolded g_def] assms(3,6) nc1 lt])
  have cB: "unat (cnt - A - B) = unat cnt + (if ratio dvd unat num then 0 else 1)"
  proof (cases "ratio dvd unat num")
    case False
    have "cnt < 2 ^ 16" using assms(8) unfolding cnt_def g_def by (simp add: word_less_nat_alt)
    then have "unat (cnt + 1) = unat cnt + 1" by (rule unat_succ_below)
    then show ?thesis using False by (simp add: B)
  qed (simp add: B)
  define fs1' where "fs1' = ext2fs_mark_super_dirty fs1"
  have geo: "same_geo fs1' ?fs" using fs1(2) unfolding fs1'_def by (simp only: mark_dirty_frame)
  have c1: "ext2fs_bg_free_blocks_count fs1' g = cnt - A" using fs1(3) by (simp add: fs1'_def mark_dirty_frame)
  have geo1: "ext2fs_group_of_blk2 fs1' blk = ext2fs_group_of_blk2 ?fs blk" "EXT2FS_CLUSTER_RATIO fs1' = EXT2FS_CLUSTER_RATIO ?fs"
    "ext2fs_group_last_block2 fs1' g = ext2fs_group_last_block2 ?fs g"
    "ext2fs_blocks_count (fs_super fs1') = ext2fs_blocks_count (fs_super ?fs)" "descs_ok fs1'" "g < fs_group_desc_count fs1'"
    using g cg(2) by (simp_all add: geo_group[OF geo] geo_blocks[OF geo] geo_descs[OF geo] geoD[OF geo] EXT2FS_CLUSTER_RATIO_def
        ext2fs_group_last_block2_def ext2fs_group_first_block2_def EXT2_GROUPS_TO_BLOCKS_def)
  have nc2: "cnt - A - B = ext2fs_bg_free_blocks_count fs1' (ext2fs_group_of_blk2 fs1' blk) -
      ucast ((word_of_int (- 1) * ucast num :: u64) div EXT2FS_CLUSTER_RATIO fs1')"
    using c1 by (simp only: geo1 B_def g_def)
  have last2: "unat blk + unat num \<le> unat (ext2fs_group_last_block2 fs1' (ext2fs_group_of_blk2 fs1' blk)) + 1"
    using assms(6) geo1(3) by (simp add: geo1(1) g_def)
  have lt2: "unat (cnt - A - B) < 2 ^ 16" using cB assms(8) unfolding cnt_def g_def by simp
  obtain fs2 where fs2: "stats_range_loop csum fs1' blk num (- 1) = Some (fs2, blk + ucast num, 0)"
      "ext2fs_bg_free_blocks_count fs2 g = cnt - A - B"
    using stats_range_one_group[OF geo1(5) _ assms(3) last2 nc2 lt2, of csum thesis] geo1(6) unfolding geo1(1) g_def by blast
  have bn: "\<not> blk + ucast num > ext2fs_blocks_count (fs_super ?fs)"
  proof -
    have "unat (blk + ucast num) = unat blk + unat num"
      using assms(5) unat_less64[of "ext2fs_blocks_count (fs_super ?fs)"] by (subst unat_plus64) simp_all
    then show ?thesis using assms(5) by (simp add: word_less_nat_alt)
  qed
  define af1 where "af1 = af\<lparr>af_fs := fs1', af_block_map := ext2fs_mark_block_bitmap_range2 ops (af_block_map af) blk num, af_bb_dirty := True\<rparr>"
  have r1: "ext2fs_block_alloc_stats_range ops csum af blk num 1 = Some (af1, Some (blk + ucast num, 0, 1))"
    using bn fs1(1) by (simp add: ext2fs_block_alloc_stats_range_def af1_def fs1'_def)
  have f1: "af_fs af1 = fs1'" by (simp add: af1_def)
  define af2 where "af2 = af1\<lparr>af_fs := ext2fs_mark_super_dirty fs2, af_block_map := ext2fs_unmark_block_bitmap_range2 ops (af_block_map af1) blk num,
    af_bb_dirty := True\<rparr>"
  have r2: "ext2fs_block_alloc_stats_range ops csum af1 blk num (- 1) = Some (af2, Some (blk + ucast num, 0, - 1))"
    using bn fs2(1) by (simp add: ext2fs_block_alloc_stats_range_def f1 geo1(4) af2_def)
  have "ext2fs_bg_free_blocks_count (af_fs af2) g = cnt - A - B" using fs2(2) by (simp add: af2_def)
  with r1 r2 cA cB c1 f1 show ?thesis unfolding cnt_def by auto
qed

theorem range_stats_drift_witness:
  "\<exists>af1 af2 told1 told2.
     ext2fs_block_alloc_stats_range ext2fs_blkmap64_bitarray (\<lambda>_ _. 7) demo_alloc 4 2 1 = Some (af1, told1) \<and>
     ext2fs_block_alloc_stats_range ext2fs_blkmap64_bitarray (\<lambda>_ _. 7) af1 4 2 (- 1) = Some (af2, told2) \<and>
     unat (ext2fs_bg_free_blocks_count (af_fs af1) 0) = 8 \<and> unat (ext2fs_bg_free_blocks_count (af_fs af2) 0) = 9"
proof -
  have f: "fs_cluster_ratio_bits (af_fs demo_alloc) = 2" "s_first_data_block (fs_super (af_fs demo_alloc)) = 0"
    "ext2fs_blocks_count (fs_super (af_fs demo_alloc)) = 32" "ext2fs_group_of_blk2 (af_fs demo_alloc) 4 = 0"
    "ext2fs_group_last_block2 (af_fs demo_alloc) 0 = 31" "ext2fs_bg_free_blocks_count (af_fs demo_alloc) 0 = 8"
    by code_simp+
  have geo: "alloc_geometry_ok (af_fs demo_alloc)" using demo_geometry(1) by (simp add: demo_alloc_def)
  show ?thesis
    using range_stats_drift[OF geo, of 2 4 ext2fs_blkmap64_bitarray "\<lambda>_ _. 7"] by (simp add: f)
qed

end
