(* ===== verification/Crc.thy ===== *)
theory Crc
  imports Ext2_Fs
begin

text \<open>
  The checksums of the file system: \<^verbatim>\<open>lib/ext2fs/crc16.c\<close>, and \<^verbatim>\<open>crc32c.c\<close> in every configuration that
  \<^verbatim>\<open>crc32c_defs.h\<close> offers (1, 2, 4, 8, 32 or 64 bits at a time, the same for both byte orders of the register, on a little-endian
  machine), with the tables that \<^verbatim>\<open>gen_crc32ctable.c\<close> generates. The bit-by-bit configuration is the reference; all the
  others, the slicing by eight that is the default among them, are shown to compute the same function. A change within 32
  consecutive bits of the data always changes the checksum.
\<close>

unbundle bit_operations_syntax

section \<open>Bits\<close>

text \<open>One step of a register that shifts right or left, and \<open>n\<close> of them.\<close>

definition crc_bit :: "'a::len word \<Rightarrow> 'a word \<Rightarrow> 'a word" where
  "crc_bit poly crc = drop_bit 1 crc XOR (if crc AND 1 \<noteq> 0 then poly else 0)"

definition crc_bit_be :: "u32 \<Rightarrow> u32 \<Rightarrow> u32" where
  "crc_bit_be poly crc = push_bit 1 crc XOR (if crc AND 0x80000000 \<noteq> 0 then poly else 0)"

section \<open>CRC-16\<close>

definition crc16_table :: "u16 list" where
  "crc16_table =
    [0x0000, 0xC0C1, 0xC181, 0x0140, 0xC301, 0x03C0, 0x0280, 0xC241, 0xC601, 0x06C0, 0x0780, 0xC741, 0x0500, 0xC5C1, 0xC481, 0x0440,
     0xCC01, 0x0CC0, 0x0D80, 0xCD41, 0x0F00, 0xCFC1, 0xCE81, 0x0E40, 0x0A00, 0xCAC1, 0xCB81, 0x0B40, 0xC901, 0x09C0, 0x0880, 0xC841,
     0xD801, 0x18C0, 0x1980, 0xD941, 0x1B00, 0xDBC1, 0xDA81, 0x1A40, 0x1E00, 0xDEC1, 0xDF81, 0x1F40, 0xDD01, 0x1DC0, 0x1C80, 0xDC41,
     0x1400, 0xD4C1, 0xD581, 0x1540, 0xD701, 0x17C0, 0x1680, 0xD641, 0xD201, 0x12C0, 0x1380, 0xD341, 0x1100, 0xD1C1, 0xD081, 0x1040,
     0xF001, 0x30C0, 0x3180, 0xF141, 0x3300, 0xF3C1, 0xF281, 0x3240, 0x3600, 0xF6C1, 0xF781, 0x3740, 0xF501, 0x35C0, 0x3480, 0xF441,
     0x3C00, 0xFCC1, 0xFD81, 0x3D40, 0xFF01, 0x3FC0, 0x3E80, 0xFE41, 0xFA01, 0x3AC0, 0x3B80, 0xFB41, 0x3900, 0xF9C1, 0xF881, 0x3840,
     0x2800, 0xE8C1, 0xE981, 0x2940, 0xEB01, 0x2BC0, 0x2A80, 0xEA41, 0xEE01, 0x2EC0, 0x2F80, 0xEF41, 0x2D00, 0xEDC1, 0xEC81, 0x2C40,
     0xE401, 0x24C0, 0x2580, 0xE541, 0x2700, 0xE7C1, 0xE681, 0x2640, 0x2200, 0xE2C1, 0xE381, 0x2340, 0xE101, 0x21C0, 0x2080, 0xE041,
     0xA001, 0x60C0, 0x6180, 0xA141, 0x6300, 0xA3C1, 0xA281, 0x6240, 0x6600, 0xA6C1, 0xA781, 0x6740, 0xA501, 0x65C0, 0x6480, 0xA441,
     0x6C00, 0xACC1, 0xAD81, 0x6D40, 0xAF01, 0x6FC0, 0x6E80, 0xAE41, 0xAA01, 0x6AC0, 0x6B80, 0xAB41, 0x6900, 0xA9C1, 0xA881, 0x6840,
     0x7800, 0xB8C1, 0xB981, 0x7940, 0xBB01, 0x7BC0, 0x7A80, 0xBA41, 0xBE01, 0x7EC0, 0x7F80, 0xBF41, 0x7D00, 0xBDC1, 0xBC81, 0x7C40,
     0xB401, 0x74C0, 0x7580, 0xB541, 0x7700, 0xB7C1, 0xB681, 0x7640, 0x7200, 0xB2C1, 0xB381, 0x7340, 0xB101, 0x71C0, 0x7080, 0xB041,
     0x5000, 0x90C1, 0x9181, 0x5140, 0x9301, 0x53C0, 0x5280, 0x9241, 0x9601, 0x56C0, 0x5780, 0x9741, 0x5500, 0x95C1, 0x9481, 0x5440,
     0x9C01, 0x5CC0, 0x5D80, 0x9D41, 0x5F00, 0x9FC1, 0x9E81, 0x5E40, 0x5A00, 0x9AC1, 0x9B81, 0x5B40, 0x9901, 0x59C0, 0x5880, 0x9841,
     0x8801, 0x48C0, 0x4980, 0x8941, 0x4B00, 0x8BC1, 0x8A81, 0x4A40, 0x4E00, 0x8EC1, 0x8F81, 0x4F40, 0x8D01, 0x4DC0, 0x4C80, 0x8C41,
     0x4400, 0x84C1, 0x8581, 0x4540, 0x8701, 0x47C0, 0x4680, 0x8641, 0x8201, 0x42C0, 0x4380, 0x8341, 0x4100, 0x81C1, 0x8081, 0x4040]"

fun ext2fs_crc16 :: "u16 \<Rightarrow> u8 list \<Rightarrow> u16" where
  "ext2fs_crc16 crc [] = crc"
| "ext2fs_crc16 crc (b # cp) =
     ext2fs_crc16 ((drop_bit 8 crc AND 0xFF) XOR crc16_table ! unat ((crc XOR ucast b) AND 0xFF)) cp"

section \<open>CRC-32: the tables\<close>

definition CRC32C_POLY_LE :: u32 where "CRC32C_POLY_LE = 0x82F63B78"
definition CRCPOLY_BE :: u32 where "CRCPOLY_BE = 0x04c11db7"

definition TABLE_ROWS :: "nat \<Rightarrow> nat" where
  "TABLE_ROWS bits = (if bits > 8 then bits div 8 else 1)"

definition TABLE_SIZE :: "nat \<Rightarrow> nat" where
  "TABLE_SIZE bits = (if bits > 8 then 256 else 2 ^ bits)"

text \<open>The loops of \<^verbatim>\<open>crc32cinit_le\<close>: the entries \<open>i + j\<close> for one \<open>i\<close>, and all \<open>i\<close>.\<close>

function le_init_entries :: "nat \<Rightarrow> u32 \<Rightarrow> nat \<Rightarrow> nat \<Rightarrow> u32 list \<Rightarrow> u32 list" where
  "le_init_entries n crc i j row =
     (if j \<ge> n \<or> i = 0 then row else le_init_entries n crc i (j + 2 * i) (row[i + j := crc XOR row ! j]))"
  by pat_completeness auto
termination by (relation "measure (\<lambda>(n, crc, i, j, row). n - j)") auto

declare le_init_entries.simps [simp del]

function le_init_row :: "nat \<Rightarrow> u32 \<Rightarrow> nat \<Rightarrow> u32 list \<Rightarrow> u32 list" where
  "le_init_row n crc i row =
     (if i = 0 then row
      else let crc = crc_bit CRC32C_POLY_LE crc in le_init_row n crc (i div 2) (le_init_entries n crc i 0 row))"
  by pat_completeness auto
termination by (relation "measure (\<lambda>(n, crc, i, row). i)") auto

declare le_init_row.simps [simp del]

text \<open>The column of \<open>i\<close> in the rows from \<open>j\<close> on; \<open>nx\<close> is the expression for the next \<^verbatim>\<open>crc\<close>, which differs in the two tables.\<close>

function init_column :: "(u32 list \<Rightarrow> u32 \<Rightarrow> u32) \<Rightarrow> nat \<Rightarrow> nat \<Rightarrow> nat \<Rightarrow> u32 \<Rightarrow> u32 list list \<Rightarrow> u32 list list" where
  "init_column nx rows i j crc tab =
     (if j \<ge> rows then tab
      else let crc = nx (tab ! 0) crc in init_column nx rows i (j + 1) crc (tab[j := (tab ! j)[i := crc]]))"
  by pat_completeness auto
termination by (relation "measure (\<lambda>(nx, rows, i, j, crc, tab). rows - j)") auto

declare init_column.simps [simp del]

definition le_next :: "u32 list \<Rightarrow> u32 \<Rightarrow> u32" where
  "le_next row0 crc = row0 ! unat (crc AND 0xff) XOR drop_bit 8 crc"

definition be_next :: "u32 list \<Rightarrow> u32 \<Rightarrow> u32" where
  "be_next row0 crc = row0 ! unat (drop_bit 24 crc AND 0xff) XOR push_bit 8 crc"

definition crc32cinit_le :: "nat \<Rightarrow> u32 list list" where
  "crc32cinit_le bits =
     (let n = TABLE_SIZE bits; rows = TABLE_ROWS bits;
          tab = (replicate rows (replicate n 0))[0 := le_init_row n 1 (n div 2) (replicate n 0)]
      in foldl (\<lambda>tab i. init_column le_next rows i 1 (tab ! 0 ! i) tab) tab [0..<n])"

text \<open>The loops of \<^verbatim>\<open>crc32init_be\<close>.\<close>

function be_init_entries :: "u32 \<Rightarrow> nat \<Rightarrow> nat \<Rightarrow> u32 list \<Rightarrow> u32 list" where
  "be_init_entries crc i j row =
     (if j \<ge> i then row else be_init_entries crc i (j + 1) (row[i + j := crc XOR row ! j]))"
  by pat_completeness auto
termination by (relation "measure (\<lambda>(crc, i, j, row). i - j)") auto

declare be_init_entries.simps [simp del]

function be_init_row :: "nat \<Rightarrow> u32 \<Rightarrow> nat \<Rightarrow> u32 list \<Rightarrow> u32 list" where
  "be_init_row n crc i row =
     (if i \<ge> n \<or> i = 0 then row
      else let crc = crc_bit_be CRCPOLY_BE crc in be_init_row n crc (2 * i) (be_init_entries crc i 0 row))"
  by pat_completeness auto
termination by (relation "measure (\<lambda>(n, crc, i, row). n - i)") auto

declare be_init_row.simps [simp del]

definition crc32init_be :: "nat \<Rightarrow> u32 list list" where
  "crc32init_be bits =
     (let n = TABLE_SIZE bits; rows = TABLE_ROWS bits;
          tab = (replicate rows (replicate n 0))[0 := be_init_row n 0x80000000 1 (replicate n 0)]
      in foldl (\<lambda>tab i. init_column be_next rows i 1 (tab ! 0 ! i) tab) tab [0..<n])"

section \<open>CRC-32: the loops\<close>

definition DO_CRC :: "u32 list list \<Rightarrow> u32 \<Rightarrow> u8 \<Rightarrow> u32" where
  "DO_CRC tab crc x = tab ! 0 ! unat ((crc XOR ucast x) AND 255) XOR drop_bit 8 crc"

definition DO_CRC4 :: "u32 list list \<Rightarrow> u32 \<Rightarrow> u32" where
  "DO_CRC4 tab q = tab ! 3 ! unat (q AND 255) XOR tab ! 2 ! unat (drop_bit 8 q AND 255) XOR
     tab ! 1 ! unat (drop_bit 16 q AND 255) XOR tab ! 0 ! unat (drop_bit 24 q AND 255)"

definition DO_CRC8 :: "u32 list list \<Rightarrow> u32 \<Rightarrow> u32" where
  "DO_CRC8 tab q = tab ! 7 ! unat (q AND 255) XOR tab ! 6 ! unat (drop_bit 8 q AND 255) XOR
     tab ! 5 ! unat (drop_bit 16 q AND 255) XOR tab ! 4 ! unat (drop_bit 24 q AND 255)"

text \<open>
  \<^verbatim>\<open>crc32_body\<close>: bytes while the address \<open>a\<close> is not a multiple of 4, then words, then the last bytes.
\<close>

fun body_align :: "u32 list list \<Rightarrow> nat \<Rightarrow> u32 \<Rightarrow> u8 list \<Rightarrow> u32 \<times> u8 list" where
  "body_align tab a crc [] = (crc, [])"
| "body_align tab a crc (x # p) = (if a mod 4 = 0 then (crc, x # p) else body_align tab (a + 1) (DO_CRC tab crc x) p)"

function body_words :: "nat \<Rightarrow> u32 list list \<Rightarrow> u32 \<Rightarrow> u8 list \<Rightarrow> u32 \<times> u8 list" where
  "body_words bits tab crc p =
     (if bits = 32 then
        (if length p < 4 then (crc, p) else body_words bits tab (DO_CRC4 tab (crc XOR ld32 p 0)) (drop 4 p))
      else
        (if length p < 8 then (crc, p)
         else body_words bits tab (DO_CRC8 tab (crc XOR ld32 p 0) XOR DO_CRC4 tab (ld32 p 4)) (drop 8 p)))"
  by pat_completeness auto
termination by (relation "measure (\<lambda>(bits, tab, crc, p). length p)") auto

declare body_words.simps [simp del]

definition crc32_body :: "nat \<Rightarrow> nat \<Rightarrow> u32 \<Rightarrow> u8 list \<Rightarrow> u32 list list \<Rightarrow> u32" where
  "crc32_body bits a crc buf tab =
     (let (crc, p) = body_align tab a crc buf; (crc, p) = body_words bits tab crc p
      in foldl (DO_CRC tab) crc p)"

definition le_lookup :: "nat \<Rightarrow> u32 list list \<Rightarrow> u32 \<Rightarrow> u32" where
  "le_lookup k tab crc = drop_bit k crc XOR tab ! 0 ! unat (crc AND mask k)"

text \<open>\<open>a\<close> is the address of the buffer, \<open>bits\<close> the constant \<^verbatim>\<open>CRC_LE_BITS\<close> of the build.\<close>

definition crc32_le_generic :: "nat \<Rightarrow> nat \<Rightarrow> u32 \<Rightarrow> u8 list \<Rightarrow> u32 list list \<Rightarrow> u32 \<Rightarrow> u32" where
  "crc32_le_generic bits a crc p tab polynomial =
     (if bits = 1 then foldl (\<lambda>crc b. (crc_bit polynomial ^^ 8) (crc XOR ucast b)) crc p
      else if bits = 2 then foldl (\<lambda>crc b. (le_lookup 2 tab ^^ 4) (crc XOR ucast b)) crc p
      else if bits = 4 then foldl (\<lambda>crc b. (le_lookup 4 tab ^^ 2) (crc XOR ucast b)) crc p
      else if bits = 8 then foldl (\<lambda>crc b. le_lookup 8 tab (crc XOR ucast b)) crc p
      else crc32_body bits a crc p tab)"

definition ext2fs_crc32c_le :: "nat \<Rightarrow> nat \<Rightarrow> u32 \<Rightarrow> u8 list \<Rightarrow> u32" where
  "ext2fs_crc32c_le bits a crc p = crc32_le_generic bits a crc p (crc32cinit_le bits) CRC32C_POLY_LE"

definition swab32 :: "u32 \<Rightarrow> u32" where
  "swab32 x = push_bit 24 (x AND 0xff) OR push_bit 8 (x AND 0xff00) OR drop_bit 8 (x AND 0xff0000) OR drop_bit 24 (x AND 0xff000000)"

definition be_lookup :: "nat \<Rightarrow> u32 list list \<Rightarrow> u32 \<Rightarrow> u32" where
  "be_lookup k tab crc = push_bit k crc XOR tab ! 0 ! unat (drop_bit (32 - k) crc)"

text \<open>With words the constants of the table are byte-swapped (\<^verbatim>\<open>tobe\<close>).\<close>

definition crc32_be_generic :: "nat \<Rightarrow> nat \<Rightarrow> u32 \<Rightarrow> u8 list \<Rightarrow> u32 list list \<Rightarrow> u32 \<Rightarrow> u32" where
  "crc32_be_generic bits a crc p tab polynomial =
     (if bits = 1 then foldl (\<lambda>crc b. (crc_bit_be polynomial ^^ 8) (crc XOR push_bit 24 (ucast b))) crc p
      else if bits = 2 then foldl (\<lambda>crc b. (be_lookup 2 tab ^^ 4) (crc XOR push_bit 24 (ucast b))) crc p
      else if bits = 4 then foldl (\<lambda>crc b. (be_lookup 4 tab ^^ 2) (crc XOR push_bit 24 (ucast b))) crc p
      else if bits = 8 then foldl (\<lambda>crc b. be_lookup 8 tab (crc XOR push_bit 24 (ucast b))) crc p
      else swab32 (crc32_body bits a (swab32 crc) p (map (map swab32) tab)))"

definition ext2fs_crc32_be :: "nat \<Rightarrow> nat \<Rightarrow> u32 \<Rightarrow> u8 list \<Rightarrow> u32" where
  "ext2fs_crc32_be bits a crc p = crc32_be_generic bits a crc p (crc32init_be bits) CRCPOLY_BE"

section \<open>Linear registers\<close>

lemma and1: "(c :: 'a::len word) AND 1 \<noteq> 0 \<longleftrightarrow> bit c 0"
  by (simp add: and_one_eq mod_2_eq_odd bit_0)

lemma crc_bit_bit: "crc_bit poly c = drop_bit 1 c XOR (if bit c 0 then poly else 0)"
  unfolding crc_bit_def and1 ..

lemma crc_bit_xor: "crc_bit poly (a XOR b) = crc_bit poly a XOR crc_bit poly b"
  by (cases "bit a 0"; cases "bit b 0") (simp_all add: crc_bit_bit drop_bit_xor bit_xor_iff ac_simps)

lemma crc_bit_even: "\<not> bit c 0 \<Longrightarrow> crc_bit poly c = drop_bit 1 c"
  by (simp add: crc_bit_bit)

lemma funpow_xor:
  fixes f :: "'a::len word \<Rightarrow> 'a word"
  assumes "\<And>a b. f (a XOR b) = f a XOR f b"
  shows "(f ^^ n) (a XOR b) = (f ^^ n) a XOR (f ^^ n) b"
  by (induction n) (simp_all add: assms)

lemma crc_bits_xor: "(crc_bit poly ^^ n) (a XOR b) = (crc_bit poly ^^ n) a XOR (crc_bit poly ^^ n) b"
  by (rule funpow_xor) (rule crc_bit_xor)

lemma crc_bits_0: "(crc_bit poly ^^ n) 0 = 0"
  using crc_bits_xor[of n poly 0 0] by simp

lemma crc_bits_low:
  assumes "take_bit n c = 0"
  shows "(crc_bit poly ^^ n) c = drop_bit n c"
  using assms
proof (induction n arbitrary: c)
  case (Suc n)
  have b: "\<not> bit c i" if "i < Suc n" for i
  proof -
    have "bit (take_bit (Suc n) c) i = bit c i" using that by (simp add: bit_take_bit_iff)
    then show ?thesis using Suc.prems by simp
  qed
  have "take_bit n (drop_bit 1 c) = 0"
    by (rule bit_word_eqI) (auto simp: bit_take_bit_iff bit_drop_bit_eq b)
  moreover have "crc_bit poly c = drop_bit 1 c" using b[of 0] by (simp add: crc_bit_even)
  ultimately show ?case using Suc.IH[of "drop_bit 1 c"] by (simp add: funpow_swap1 drop_bit_drop_bit)
qed simp

lemma split_low: "c = (c AND NOT (mask k)) XOR take_bit k (c :: 'a::len word)"
  by (rule bit_word_eqI) (auto simp: bit_xor_iff bit_and_iff bit_not_iff bit_mask_iff bit_take_bit_iff)

lemma mask_low: "take_bit n (c AND NOT (mask n)) = 0" "drop_bit n (c AND NOT (mask n)) = drop_bit n (c :: 'a::len word)"
  by (rule bit_word_eqI, auto simp: bit_and_iff bit_not_iff bit_mask_iff bit_take_bit_iff bit_drop_bit_eq dest: bit_imp_le_length)+

lemma crc_bits_split: "(crc_bit poly ^^ n) c = drop_bit n c XOR (crc_bit poly ^^ n) (take_bit n c)"
  by (subst split_low[of c n]) (simp only: crc_bits_xor crc_bits_low mask_low)

section \<open>Bytes\<close>

text \<open>
  A register \<open>F\<close> takes one byte at a time, and row \<open>j\<close> of the table holds \<open>F\<close> repeated \<open>j + 1\<close> times of each byte.
\<close>

locale byte_crc =
  fixes F :: "u32 \<Rightarrow> u32" and tab :: "u32 list list" and rows :: nat
  assumes xor: "F (a XOR b) = F a XOR F b"
    and low: "take_bit 8 c = 0 \<Longrightarrow> F c = drop_bit 8 c"
    and entry: "j < rows \<Longrightarrow> i < 256 \<Longrightarrow> tab ! j ! i = (F ^^ Suc j) (of_nat i)"
begin

lemma take8: "(q :: u32) AND 255 = take_bit 8 q"
  by (simp add: take_bit_eq_mask mask_eq_exp_minus_1)

lemma lookup: "j < rows \<Longrightarrow> tab ! j ! unat (q AND 255) = (F ^^ Suc j) (take_bit 8 q)"
proof -
  have "q AND 255 \<le> 255" by (rule word_and_le1)
  then have "unat (q AND 255) < 256" by (simp add: word_le_nat_alt)
  then show "j < rows \<Longrightarrow> ?thesis" using entry[of j "unat (q AND 255)"] by (simp add: take8)
qed

lemma split: "F c = drop_bit 8 c XOR F (take_bit 8 c)"
  by (subst split_low[of c 8]) (simp only: xor low mask_low)

lemma DO_CRC_eq: "0 < rows \<Longrightarrow> DO_CRC tab crc x = F (crc XOR ucast x)"
proof -
  assume r: "0 < rows"
  have "drop_bit 8 (crc XOR ucast x) = drop_bit 8 crc"
    by (rule bit_word_eqI) (auto simp: bit_drop_bit_eq bit_xor_iff bit_ucast_iff dest: bit_imp_le_length)
  then show ?thesis using lookup[OF r, of "crc XOR ucast x"] by (simp add: DO_CRC_def split[of "crc XOR ucast x"] xor.commute)
qed

lemma shift:
  assumes "8 * k + 8 \<le> 32" "k \<le> m"
  shows "(F ^^ m) (push_bit (8 * k) (take_bit 8 q)) = (F ^^ (m - k)) (take_bit 8 q)"
  using assms
proof (induction k arbitrary: m)
  case (Suc k)
  obtain m' where m: "m = Suc m'" using Suc.prems(2) by (cases m) auto
  have "take_bit 8 (push_bit (8 * Suc k) (take_bit 8 q)) = 0"
    by (rule bit_word_eqI) (auto simp: bit_take_bit_iff bit_push_bit_iff)
  then have "F (push_bit (8 * Suc k) (take_bit 8 q)) = drop_bit 8 (push_bit (8 * Suc k) (take_bit 8 q))" by (rule low)
  also have "\<dots> = push_bit (8 * k) (take_bit 8 q)"
    by (rule bit_word_eqI) (use Suc.prems(1) in \<open>auto simp: bit_drop_bit_eq bit_push_bit_iff bit_take_bit_iff\<close>)
  finally show ?case using Suc.IH[of m'] Suc.prems by (simp add: m funpow_swap1)
qed simp

lemma four_bytes:
  "(q :: u32) = take_bit 8 q XOR push_bit 8 (take_bit 8 (drop_bit 8 q)) XOR push_bit 16 (take_bit 8 (drop_bit 16 q)) XOR
     push_bit 24 (take_bit 8 (drop_bit 24 q))"
  by (rule bit_word_eqI) (auto simp: bit_xor_iff bit_take_bit_iff bit_push_bit_iff bit_drop_bit_eq)

lemmas pow_xor = funpow_xor[OF xor]

lemma words:
  assumes "4 \<le> m"
  shows "(F ^^ m) q = (F ^^ m) (take_bit 8 q) XOR (F ^^ (m - 1)) (take_bit 8 (drop_bit 8 q)) XOR
    (F ^^ (m - 2)) (take_bit 8 (drop_bit 16 q)) XOR (F ^^ (m - 3)) (take_bit 8 (drop_bit 24 q))"
  using assms shift[of 1 m] shift[of 2 m] shift[of 3 m] by (subst four_bytes) (simp add: pow_xor)

lemma DO_CRC4_eq: "4 \<le> rows \<Longrightarrow> DO_CRC4 tab q = (F ^^ 4) q"
  by (simp only: DO_CRC4_def words[of 4 q] lookup) (simp add: eval_nat_numeral)

lemma DO_CRC8_eq: "8 \<le> rows \<Longrightarrow> DO_CRC8 tab q = (F ^^ 8) q"
  by (simp only: DO_CRC8_def words[of 8 q] lookup) (simp add: eval_nat_numeral)

abbreviation bytewise :: "u32 \<Rightarrow> u8 list \<Rightarrow> u32" where
  "bytewise \<equiv> foldl (\<lambda>crc b. F (crc XOR ucast b))"

lemma load_bytes:
  "ld32 buf p = ucast (buf ! p) XOR push_bit 8 (ucast (buf ! (p + 1))) XOR push_bit 16 (ucast (buf ! (p + 2))) XOR
    push_bit 24 (ucast (buf ! (p + 3)))"
proof -
  have l8: "bit (b :: u8) n \<Longrightarrow> n < 8" for b n using bit_imp_le_length[of b n] by simp
  have l16: "bit (b :: u16) n \<Longrightarrow> n < 16" for b n using bit_imp_le_length[of b n] by simp
  have j: "a OR push_bit k b = a XOR push_bit k b" if "\<And>n. bit a n \<Longrightarrow> n < k" for a b :: "'x::len word" and k
    by (rule bit_word_eqI) (auto simp: bit_or_iff bit_xor_iff bit_push_bit_iff dest: that)
  have w: "ld16 buf q = ucast (buf ! q) XOR push_bit 8 (ucast (buf ! (q + 1)))" for q
    unfolding ld16_def by (rule j) (auto simp: bit_ucast_iff dest: l8)
  have d: "ld32 buf p = ucast (ld16 buf p) XOR push_bit 16 (ucast (ld16 buf (p + 2)))"
    unfolding ld32_def by (rule j) (auto simp: bit_ucast_iff dest: l16)
  have u: "(ucast (push_bit 8 (ucast (b :: u8)) :: u16) :: u32) = push_bit 8 (ucast b)" "(ucast (ucast b :: u16) :: u32) = ucast b" for b
    by (rule bit_word_eqI, auto simp: bit_ucast_iff bit_push_bit_iff dest: l8)+
  have p3: "p + 2 + 1 = p + 3" by simp
  show ?thesis by (simp only: d w u unsigned_xor_eq p3 push_bit_xor push_bit_push_bit ac_simps) (simp add: numeral_3_eq_3)
qed

lemma four_steps: "(F ^^ 4) (crc XOR ld32 buf p) = bytewise crc [buf ! p, buf ! (p + 1), buf ! (p + 2), buf ! (p + 3)]"
proof -
  have t: "take_bit 8 (ucast (b :: u8)) = (ucast b :: u32)" for b
    by (rule bit_word_eqI) (auto simp: bit_take_bit_iff bit_ucast_iff dest: bit_imp_le_length)
  have s: "(F ^^ m) (push_bit (8 * k) (ucast b)) = (F ^^ (m - k)) (ucast b)" if "8 * k + 8 \<le> 32" "k \<le> m" for k m and b :: u8
    using shift[OF that, of "ucast b"] by (simp add: t)
  have f: "(F ^^ 2) x = F (F x)" "(F ^^ 3) x = F (F (F x))" "(F ^^ 4) x = F (F (F (F x)))" for x
    by (simp_all add: eval_nat_numeral)
  have "(F ^^ 4) (crc XOR ld32 buf p) = (F ^^ 4) crc XOR ((F ^^ 4) (ucast (buf ! p)) XOR (F ^^ 3) (ucast (buf ! (p + 1))) XOR
      (F ^^ 2) (ucast (buf ! (p + 2))) XOR F (ucast (buf ! (p + 3))))"
    using s[of 1 4 "buf ! (p + 1)"] s[of 2 4 "buf ! (p + 2)"] s[of 3 4 "buf ! (p + 3)"]
    by (simp add: load_bytes pow_xor)
  also have "\<dots> = bytewise crc [buf ! p, buf ! (p + 1), buf ! (p + 2), buf ! (p + 3)]"
    by (simp only: foldl.simps xor f ac_simps)
  finally show ?thesis .
qed

lemma body_align_eq:
  assumes "0 < rows" "body_align tab a crc p = (crc', p')"
  shows "bytewise crc' p' = bytewise crc p"
  using assms(2) by (induction p arbitrary: a crc) (auto simp: DO_CRC_eq[OF assms(1)] split: if_splits)

lemma list4: "4 \<le> length p \<Longrightarrow> p = [p ! 0, p ! 1, p ! 2, p ! 3] @ drop 4 p"
  by (cases p; cases "tl p"; cases "tl (tl p)"; cases "tl (tl (tl p))") (auto simp: eval_nat_numeral)

lemma body_words_eq:
  assumes "bits = 32 \<and> 4 \<le> rows \<or> bits \<noteq> 32 \<and> 8 \<le> rows" "body_words bits tab crc p = (crc', p')"
  shows "bytewise crc' p' = bytewise crc p"
  using assms(2)
proof (induction "length p" arbitrary: crc p rule: less_induct)
  case less
  show ?case
  proof (cases "length p < (if bits = 32 then 4 else 8)")
    case True
    then show ?thesis using less.prems by (simp add: body_words.simps[of bits tab crc p] split: if_splits)
  next
    case long: False
    then have p4: "p = [p ! 0, p ! 1, p ! 2, p ! 3] @ drop 4 p" by (intro list4) (simp split: if_splits)
    show ?thesis
    proof (cases "bits = 32")
      case True
      then have r: "4 \<le> rows" using assms(1) by simp
      have "body_words bits tab (DO_CRC4 tab (crc XOR ld32 p 0)) (drop 4 p) = (crc', p')"
        using less.prems True long by (subst (asm) body_words.simps) simp
      then have "bytewise crc' p' = bytewise (DO_CRC4 tab (crc XOR ld32 p 0)) (drop 4 p)"
        using less.hyps[of "drop 4 p"] True long by simp
      also have "\<dots> = bytewise (bytewise crc [p ! 0, p ! 1, p ! 2, p ! 3]) (drop 4 p)"
        using four_steps[of crc p 0] True long by (simp add: DO_CRC4_eq[OF r] numeral_2_eq_2)
      also have "\<dots> = bytewise crc ([p ! 0, p ! 1, p ! 2, p ! 3] @ drop 4 p)" by (simp only: foldl_append)
      finally show ?thesis by (simp only: p4[symmetric])
    next
      case ne: False
      then have r: "8 \<le> rows" "4 \<le> rows" using assms(1) by simp_all
      let ?c = "(F ^^ 4) (crc XOR ld32 p 0)"
      have "DO_CRC8 tab (crc XOR ld32 p 0) XOR DO_CRC4 tab (ld32 p 4) = (F ^^ 4) ?c XOR (F ^^ 4) (ld32 p 4)"
        using funpow_add[of 4 4 F] by (simp add: DO_CRC8_eq[OF r(1)] DO_CRC4_eq[OF r(2)])
      also have "\<dots> = (F ^^ 4) (?c XOR ld32 p 4)" by (simp only: pow_xor)
      finally have d: "DO_CRC8 tab (crc XOR ld32 p 0) XOR DO_CRC4 tab (ld32 p 4) = (F ^^ 4) (?c XOR ld32 p 4)" .
      have p8: "drop 4 p = [p ! 4, p ! 5, p ! 6, p ! 7] @ drop 8 p" using list4[of "drop 4 p"] long ne by simp
      have "body_words bits tab ((F ^^ 4) (?c XOR ld32 p 4)) (drop 8 p) = (crc', p')"
        using less.prems ne long d by (subst (asm) body_words.simps) simp
      then have "bytewise crc' p' = bytewise ((F ^^ 4) (?c XOR ld32 p 4)) (drop 8 p)"
        using less.hyps[of "drop 8 p"] ne long by simp
      also have "\<dots> = bytewise (bytewise (bytewise crc [p ! 0, p ! 1, p ! 2, p ! 3]) [p ! 4, p ! 5, p ! 6, p ! 7]) (drop 8 p)"
        using four_steps[of crc p 0] four_steps[of ?c p 4] ne long by (simp add: numeral_2_eq_2)
      also have "\<dots> = bytewise crc ([p ! 0, p ! 1, p ! 2, p ! 3] @ [p ! 4, p ! 5, p ! 6, p ! 7] @ drop 8 p)"
        by (simp only: foldl_append)
      finally show ?thesis by (simp only: p8[symmetric] p4[symmetric])
    qed
  qed
qed

lemma crc32_body_eq:
  assumes "bits = 32 \<and> 4 \<le> rows \<or> bits \<noteq> 32 \<and> 8 \<le> rows"
  shows "crc32_body bits a crc buf tab = bytewise crc buf"
proof -
  have r: "0 < rows" using assms by auto
  have "foldl (DO_CRC tab) c p = bytewise c p" for c p
    by (induction p arbitrary: c) (simp_all add: DO_CRC_eq[OF r])
  then show ?thesis
    using body_align_eq[OF r] body_words_eq[OF assms] by (auto simp: crc32_body_def split: prod.splits)
qed

end


section \<open>The generated tables\<close>

lemma le_entries:
  fixes crc :: u32
  assumes "0 < i" "n = 2 * i * N" "length row = n" "t \<le> N"
  shows "length (le_init_entries n crc i (2 * i * t) row) = n \<and>
    (\<forall>m < n. le_init_entries n crc i (2 * i * t) row ! m =
       (if m mod (2 * i) = i \<and> t \<le> m div (2 * i) then crc XOR row ! (m - i) else row ! m))"
  using assms
proof (induction "N - t" arbitrary: t row)
  case 0
  then have "t = N" by simp
  moreover have "\<not> t \<le> m div (2 * i)" if "m < n" for m
    using that 0 \<open>t = N\<close> by (simp add: not_le less_mult_imp_div_less mult.commute)
  moreover have "le_init_entries n crc i (2 * i * t) row = row" using 0 \<open>t = N\<close> by (subst le_init_entries.simps) simp
  ultimately show ?case using 0 by simp
next
  case (Suc d)
  let ?j = "2 * i * t" and ?row = "row[i + 2 * i * t := crc XOR row ! (2 * i * t)]"
  have tN: "t < N" using Suc.hyps(2) by simp
  have lt: "i + ?j < n" using tN Suc.prems(1,2) mult_le_mono2[of "Suc t" N "2 * i"] by simp
  have j: "?j + 2 * i = 2 * i * Suc t" by simp
  have step: "le_init_entries n crc i ?j row = le_init_entries n crc i (2 * i * Suc t) ?row"
    using lt Suc.prems(1) by (subst le_init_entries.simps) (simp add: add.commute)
  have IH: "length (le_init_entries n crc i (2 * i * Suc t) ?row) = n \<and>
    (\<forall>m < n. le_init_entries n crc i (2 * i * Suc t) ?row ! m =
       (if m mod (2 * i) = i \<and> Suc t \<le> m div (2 * i) then crc XOR ?row ! (m - i) else ?row ! m))"
    by (rule Suc.hyps(1)) (use Suc tN in auto)
  have at: "(i + ?j) mod (2 * i) = i" "(i + ?j) div (2 * i) = t" using Suc.prems(1) by simp_all
  have eq: "m = i + ?j" if "m mod (2 * i) = i" "m div (2 * i) = t" for m
    using that mult_div_mod_eq[of "2 * i" m] by simp
  have ne: "m - i \<noteq> i + ?j" if "m mod (2 * i) = i" for m
  proof
    assume k: "m - i = i + ?j"
    then have "m = 2 * i * Suc t" using Suc.prems(1) by simp
    then show False using that Suc.prems(1) by simp
  qed
  show ?case
  proof (intro conjI allI impI)
    show "length (le_init_entries n crc i ?j row) = n" using IH step by simp
    fix m assume m: "m < n"
    show "le_init_entries n crc i ?j row ! m = (if m mod (2 * i) = i \<and> t \<le> m div (2 * i) then crc XOR row ! (m - i) else row ! m)"
    proof (cases "m = i + ?j")
      case True
      then show ?thesis using IH step m at lt Suc.prems(3) by simp
    next
      case False
      then have "m mod (2 * i) = i \<Longrightarrow> m div (2 * i) \<noteq> t" using eq by blast
      then show ?thesis using IH step m False ne[of m] by (auto simp: nth_list_update_neq)
    qed
  qed
qed

lemma pow2_xor:
  assumes "m mod 2 ^ Suc q = 2 ^ q"
  shows "(2 :: 'a::len word) ^ q XOR of_nat (m - 2 ^ q) = of_nat m"
proof -
  have le: "2 ^ q \<le> m" using assms by (metis mod_less_eq_dividend)
  have "m = 2 ^ Suc q * (m div 2 ^ Suc q) + 2 ^ q" using mult_div_mod_eq[of "2 ^ Suc q" m] assms by metis
  then have "m - 2 ^ q = 2 ^ Suc q * (m div 2 ^ Suc q)" by (metis add_diff_cancel_right')
  then have "(m - 2 ^ q) mod 2 ^ Suc q = 0" by (metis mod_mult_self1_is_0)
  then have "take_bit (Suc q) (m - 2 ^ q) = 0" by (simp add: take_bit_eq_mod)
  then have "\<not> bit (m - 2 ^ q) q" by (metis bit_0_eq bit_take_bit_iff lessI bot_apply bot_bool_def)
  then have "2 ^ q XOR (m - 2 ^ q) = 2 ^ q + (m - 2 ^ q)"
    by (intro disjunctive_add_eq_xor[symmetric] bit_eqI) (auto simp: bit_and_iff bit_exp_iff)
  then have "2 ^ q XOR (m - 2 ^ q) = m" using le by simp
  then have "(of_nat (2 ^ q) :: 'a word) XOR of_nat (m - 2 ^ q) = of_nat m" by (metis of_nat_xor_eq)
  then show ?thesis by simp
qed


text \<open>The first row of the right-shifting table: the entry of \<open>m\<close> is the register after the \<open>k\<close> bits of \<open>m\<close>.\<close>

lemma le_row_step:
  assumes "q < k" "k \<le> 8" "length row = 2 ^ k" "crc = (crc_bit poly ^^ k) (2 ^ Suc q)"
    and row: "\<And>m. m < 2 ^ k \<Longrightarrow> m mod 2 ^ Suc q = 0 \<Longrightarrow> row ! m = (crc_bit poly ^^ k) (of_nat m)"
  defines "row' \<equiv> le_init_entries (2 ^ k) (crc_bit poly crc) (2 ^ q) 0 row"
  shows "crc_bit poly crc = (crc_bit poly ^^ k) (2 ^ q)" "length row' = 2 ^ k"
    and "m < 2 ^ k \<Longrightarrow> m mod 2 ^ q = 0 \<Longrightarrow> row' ! m = (crc_bit poly ^^ k) (of_nat m)"
proof -
  let ?S = "crc_bit poly"
  have "?S (2 ^ Suc q) = drop_bit 1 (2 ^ Suc q)" by (rule crc_bit_even) (simp add: bit_0)
  also have "\<dots> = 2 ^ q"
    by (rule bit_word_eqI) (use assms(1,2) in \<open>auto simp: bit_drop_bit_eq bit_exp_iff simp del: power_Suc\<close>)
  finally have s: "?S (2 ^ Suc q) = 2 ^ q" .
  show crc: "?S crc = (?S ^^ k) (2 ^ q)"
    by (simp only: assms(4) funpow_swap1 s)
  have n: "2 ^ k = 2 * 2 ^ q * (2 ^ (k - Suc q) :: nat)" using assms(1) by (simp flip: power_Suc power_add)
  note en = le_entries[OF _ n assms(3), of 0 "?S crc", simplified, folded row'_def]
  show "length row' = 2 ^ k" using en by simp
  show "row' ! m = (?S ^^ k) (of_nat m)" if m: "m < 2 ^ k" "m mod 2 ^ q = 0"
  proof (cases "m mod 2 ^ Suc q = 0")
    case True
    then show ?thesis using en m row[OF m(1)] by simp
  next
    case False
    have "m mod 2 ^ Suc q = m mod 2 ^ q + 2 ^ q * (m div 2 ^ q mod 2)"
      using mod_mult2_eq[of m "2 ^ q" 2] by (simp add: mult.commute[of 2] add.commute)
    then have md: "m mod 2 ^ Suc q = 2 ^ q" using m(2) False by (cases "m div 2 ^ q mod 2 = 0") simp_all
    then have "row' ! m = ?S crc XOR row ! (m - 2 ^ q)" using en m(1) by simp
    moreover have "row ! (m - 2 ^ q) = (?S ^^ k) (of_nat (m - 2 ^ q))"
    proof (rule row)
      show "m - 2 ^ q < 2 ^ k" using m(1) by simp
      have "m = 2 ^ Suc q * (m div 2 ^ Suc q) + 2 ^ q" using mult_div_mod_eq[of "2 ^ Suc q" m] md by metis
      then have "m - 2 ^ q = 2 ^ Suc q * (m div 2 ^ Suc q)" by (metis add_diff_cancel_right')
      then show "(m - 2 ^ q) mod 2 ^ Suc q = 0" by (metis mod_mult_self1_is_0)
    qed
    ultimately show ?thesis
      using pow2_xor[OF md, where ?'a = 32] by (simp add: crc crc_bits_xor[symmetric])
  qed
qed

lemma le_row:
  assumes "q < k" "k \<le> 8" "length row = 2 ^ k" "crc = (crc_bit CRC32C_POLY_LE ^^ k) (2 ^ Suc q)"
    and "\<And>m. m < 2 ^ k \<Longrightarrow> m mod 2 ^ Suc q = 0 \<Longrightarrow> row ! m = (crc_bit CRC32C_POLY_LE ^^ k) (of_nat m)"
  shows "length (le_init_row (2 ^ k) crc (2 ^ q) row) = 2 ^ k \<and>
    (\<forall>m < 2 ^ k. le_init_row (2 ^ k) crc (2 ^ q) row ! m = (crc_bit CRC32C_POLY_LE ^^ k) (of_nat m))"
  using assms
proof (induction q arbitrary: crc row)
  case 0
  note st = le_row_step[OF 0]
  have "le_init_row (2 ^ k) crc 1 row = le_init_entries (2 ^ k) (crc_bit CRC32C_POLY_LE crc) 1 0 row"
    by (subst le_init_row.simps, simp add: Let_def) (subst le_init_row.simps, simp)
  then show ?case using st by simp
next
  case (Suc q)
  note st = le_row_step[OF Suc.prems]
  have "le_init_row (2 ^ k) crc (2 ^ Suc q) row =
      le_init_row (2 ^ k) (crc_bit CRC32C_POLY_LE crc) (2 ^ q) (le_init_entries (2 ^ k) (crc_bit CRC32C_POLY_LE crc) (2 ^ Suc q) 0 row)"
    by (subst le_init_row.simps) (simp add: Let_def)
  then show ?case using Suc.IH[OF _ Suc.prems(2) st(2,1,3)] Suc.prems(1) by simp
qed


text \<open>A column of the other rows: the register after one more byte of zeroes in every row.\<close>

lemma column:
  assumes "1 \<le> j" "length tab = rows" "\<And>r. r < rows \<Longrightarrow> length (tab ! r) = n" "i < n"
    and up: "\<And>c. nx (tab ! 0) c = F c"
  shows "length (init_column nx rows i j crc tab) = rows \<and>
    (\<forall>r < rows. length (init_column nx rows i j crc tab ! r) = n \<and>
      (\<forall>m < n. init_column nx rows i j crc tab ! r ! m = (if m = i \<and> j \<le> r then (F ^^ (r - j + 1)) crc else tab ! r ! m)))"
  using assms
proof (induction "rows - j" arbitrary: j crc tab)
  case 0
  then have "init_column nx rows i j crc tab = tab" by (subst init_column.simps) simp
  then show ?case using 0 by auto
next
  case (Suc d)
  let ?tab = "tab[j := (tab ! j)[i := F crc]]"
  have j: "j < rows" using Suc.hyps(2) by simp
  have st: "init_column nx rows i j crc tab = init_column nx rows i (j + 1) (F crc) ?tab"
    using j Suc.prems(5) by (subst init_column.simps) (simp add: Let_def)
  have t0: "?tab ! 0 = tab ! 0" using Suc.prems(1) by simp
  have IH: "length (init_column nx rows i (j + 1) (F crc) ?tab) = rows \<and>
    (\<forall>r < rows. length (init_column nx rows i (j + 1) (F crc) ?tab ! r) = n \<and>
      (\<forall>m < n. init_column nx rows i (j + 1) (F crc) ?tab ! r ! m =
         (if m = i \<and> j + 1 \<le> r then (F ^^ (r - (j + 1) + 1)) (F crc) else ?tab ! r ! m)))"
    by (rule Suc.hyps(1)) (use Suc.hyps(2) Suc.prems t0 in \<open>auto simp: nth_list_update\<close>)
  have pw: "(F ^^ (r - (j + 1) + 1)) (F crc) = (F ^^ (r - j + 1)) crc" if "j + 1 \<le> r" for r
    using that by (simp add: funpow_swap1 Suc_diff_Suc[symmetric] del: funpow.simps) (simp add: funpow_swap1)
  show ?case unfolding st using IH pw j Suc.prems(2-4) by (auto simp: nth_list_update le_Suc_eq not_le)
qed

lemma columns:
  assumes "length tab = rows" "\<And>r. r < rows \<Longrightarrow> length (tab ! r) = n" "0 < rows" "l \<le> n"
    and up: "\<And>c. nx (tab ! 0) c = F c"
  defines "res \<equiv> foldl (\<lambda>tab i. init_column nx rows i 1 (tab ! 0 ! i) tab) tab [0..<l]"
  shows "length res = rows \<and> (\<forall>r < rows. length (res ! r) = n \<and>
      (\<forall>m < n. res ! r ! m = (if m < l \<and> 1 \<le> r then (F ^^ r) (tab ! 0 ! m) else tab ! r ! m)))"
  using assms(4) unfolding res_def
proof (induction l)
  case 0
  then show ?case using assms(1-3) by simp
next
  case (Suc l)
  let ?res = "foldl (\<lambda>tab i. init_column nx rows i 1 (tab ! 0 ! i) tab) tab [0..<l]"
  have IH: "length ?res = rows" "\<And>r. r < rows \<Longrightarrow> length (?res ! r) = n"
    "\<And>r m. r < rows \<Longrightarrow> m < n \<Longrightarrow> ?res ! r ! m = (if m < l \<and> 1 \<le> r then (F ^^ r) (tab ! 0 ! m) else tab ! r ! m)"
    using Suc by auto
  have r0: "?res ! 0 = tab ! 0" by (rule nth_equalityI) (use IH assms(2,3) in auto)
  have c: "length (init_column nx rows l 1 (?res ! 0 ! l) ?res) = rows \<and>
    (\<forall>r < rows. length (init_column nx rows l 1 (?res ! 0 ! l) ?res ! r) = n \<and>
      (\<forall>m < n. init_column nx rows l 1 (?res ! 0 ! l) ?res ! r ! m =
        (if m = l \<and> 1 \<le> r then (F ^^ (r - 1 + 1)) (?res ! 0 ! l) else ?res ! r ! m)))"
    by (rule column) (use IH Suc.prems up r0 in auto)
  show ?case using c IH r0 by (auto simp: less_Suc_eq)
qed


lemma one_row: "foldl (\<lambda>tab i. init_column nx 1 i 1 (tab ! 0 ! i) tab) tab xs = tab"
  by (induction xs) (simp_all add: init_column.simps)

text \<open>Both generators: a first row, then the columns.\<close>

lemma filled_table:
  fixes F :: "u32 \<Rightarrow> u32"
  assumes "length row0 = n" "\<And>m. m < n \<Longrightarrow> row0 ! m = G m" "0 < rows"
    and up: "\<And>c. rows \<noteq> 1 \<Longrightarrow> nx row0 c = F c"
  defines "tab \<equiv> foldl (\<lambda>tab i. init_column nx rows i 1 (tab ! 0 ! i) tab) ((replicate rows (replicate n 0))[0 := row0]) [0..<n]"
  shows "length tab = rows \<and> (\<forall>r < rows. length (tab ! r) = n \<and> (\<forall>m < n. tab ! r ! m = (F ^^ r) (G m)))"
proof -
  let ?t = "(replicate rows (replicate n 0))[0 := row0]"
  have t: "length ?t = rows" "\<And>r. r < rows \<Longrightarrow> length (?t ! r) = n" "?t ! 0 = row0"
    using assms(1,3) by (auto simp: nth_list_update)
  show ?thesis
  proof (cases "rows = 1")
    case True
    have "tab = [row0]" unfolding tab_def True one_row by simp
    then show ?thesis using True assms(1,2) by simp
  next
    case False
    have "nx (?t ! 0) c = F c" for c using up[OF False] t(3) by simp
    note cs = columns[where nx = nx and F = F, OF t(1,2) assms(3) order_refl this, folded tab_def]
    have "tab ! r ! m = (F ^^ r) (G m)" if "r < rows" "m < n" for r m
      using cs that t(3) assms(2) by (cases "r = 0") auto
    then show ?thesis using cs by blast
  qed
qed

lemma nat_mask: "unat (c AND mask k) < 2 ^ k" for c :: "'a::len word"
  unfolding take_bit_eq_mask[symmetric] unsigned_take_bit_eq by (simp add: take_bit_eq_mod)

text \<open>The number of bits that the first row covers.\<close>

definition row_bits :: "nat \<Rightarrow> nat" where
  "row_bits bits = (if bits > 8 then 8 else bits)"

lemma le_row0:
  fixes k :: nat
  assumes "0 < k" "k \<le> 8"
  defines "row0 \<equiv> le_init_row (2 ^ k) 1 (2 ^ k div 2) (replicate (2 ^ k) 0)"
  shows "length row0 = 2 ^ k" "m < 2 ^ k \<Longrightarrow> row0 ! m = (crc_bit CRC32C_POLY_LE ^^ k) (of_nat m)"
proof -
  obtain q where q: "k = Suc q" using assms(1) by (cases k) auto
  let ?S = "crc_bit CRC32C_POLY_LE"
  have "(?S ^^ k) (2 ^ Suc q) = drop_bit k (2 ^ Suc q)"
    by (rule crc_bits_low, rule bit_word_eqI) (auto simp: q bit_take_bit_iff bit_exp_iff simp del: power_Suc)
  also have "\<dots> = 1"
    by (rule bit_word_eqI) (use assms(2) q in \<open>auto simp: bit_drop_bit_eq bit_exp_iff bit_1_iff simp del: power_Suc\<close>)
  finally have c: "1 = (?S ^^ k) (2 ^ Suc q)" ..
  have z: "(?S ^^ k) 0 = 0" by (rule crc_bits_0)
  have "length row0 = 2 ^ k \<and> (\<forall>m < 2 ^ k. row0 ! m = (?S ^^ k) (of_nat m))"
    using le_row[OF _ assms(2) _ c, of "replicate (2 ^ k) 0"] z q unfolding row0_def by simp
  then show "length row0 = 2 ^ k" "m < 2 ^ k \<Longrightarrow> row0 ! m = (?S ^^ k) (of_nat m)" by simp_all
qed

lemma le_table:
  assumes "bits \<in> {1, 2, 4, 8, 32, 64}" "r < TABLE_ROWS bits" "m < TABLE_SIZE bits"
  shows "crc32cinit_le bits ! r ! m = ((crc_bit CRC32C_POLY_LE ^^ 8) ^^ r) ((crc_bit CRC32C_POLY_LE ^^ row_bits bits) (of_nat m))"
proof -
  let ?S = "crc_bit CRC32C_POLY_LE" and ?k = "row_bits bits"
  have k: "0 < ?k" "?k \<le> 8" "TABLE_SIZE bits = 2 ^ ?k" using assms(1) by (auto simp: row_bits_def TABLE_SIZE_def)
  let ?row0 = "le_init_row (2 ^ ?k) 1 (2 ^ ?k div 2) (replicate (2 ^ ?k) 0)"
  note row0 = le_row0[OF k(1,2)]
  have up: "le_next ?row0 c = (?S ^^ 8) c" if "TABLE_ROWS bits \<noteq> 1" for c
  proof -
    have k8: "?k = 8" using that by (auto simp: row_bits_def TABLE_ROWS_def split: if_splits)
    have "c AND 0xff = c AND mask 8" by (simp add: mask_eq_exp_minus_1)
    then have "?row0 ! unat (c AND 0xff) = (?S ^^ 8) (take_bit 8 c)"
      using row0(2)[of "unat (c AND mask 8)"] nat_mask[of c 8] by (simp add: k8 take_bit_eq_mask)
    then show ?thesis unfolding le_next_def crc_bits_split[of 8 CRC32C_POLY_LE c] by (simp add: xor.commute)
  qed
  show ?thesis
    using filled_table[where nx = le_next, OF row0, of "TABLE_ROWS bits" "crc_bit CRC32C_POLY_LE ^^ 8"] assms(2,3) up
    unfolding crc32cinit_le_def Let_def k(3) by simp
qed


section \<open>All configurations agree\<close>

lemma le_lookup_eq:
  assumes "bits \<in> {2, 4, 8}"
  shows "le_lookup bits (crc32cinit_le bits) c = (crc_bit CRC32C_POLY_LE ^^ bits) c"
proof -
  have "crc32cinit_le bits ! 0 ! unat (c AND mask bits) = (crc_bit CRC32C_POLY_LE ^^ bits) (take_bit bits c)"
    using le_table[of bits 0 "unat (c AND mask bits)"] nat_mask[of c bits] assms
    by (auto simp: TABLE_ROWS_def TABLE_SIZE_def row_bits_def take_bit_eq_mask)
  then show ?thesis unfolding le_lookup_def crc_bits_split[of bits CRC32C_POLY_LE c] by simp
qed

lemma byte_crc_le:
  assumes "bits \<in> {32, 64}"
  shows "byte_crc (crc_bit CRC32C_POLY_LE ^^ 8) (crc32cinit_le bits) (TABLE_ROWS bits)"
proof
  show "(crc_bit CRC32C_POLY_LE ^^ 8) (a XOR b) = (crc_bit CRC32C_POLY_LE ^^ 8) a XOR (crc_bit CRC32C_POLY_LE ^^ 8) b" for a b
    by (rule crc_bits_xor)
  show "(crc_bit CRC32C_POLY_LE ^^ 8) c = drop_bit 8 c" if "take_bit 8 c = 0" for c using that by (rule crc_bits_low)
  show "crc32cinit_le bits ! j ! i = ((crc_bit CRC32C_POLY_LE ^^ 8) ^^ Suc j) (of_nat i)" if "j < TABLE_ROWS bits" "i < 256" for i j
    using le_table[of bits j i] that assms by (auto simp: TABLE_SIZE_def row_bits_def funpow_swap1)
qed

interpretation le64: byte_crc "crc_bit CRC32C_POLY_LE ^^ 8" "crc32cinit_le 64" 8
  using byte_crc_le[of 64] by (simp add: TABLE_ROWS_def)

interpretation le32: byte_crc "crc_bit CRC32C_POLY_LE ^^ 8" "crc32cinit_le 32" 4
  using byte_crc_le[of 32] by (simp add: TABLE_ROWS_def)

lemma crc32c_bitwise: "ext2fs_crc32c_le 1 a crc p = foldl (\<lambda>crc b. (crc_bit CRC32C_POLY_LE ^^ 8) (crc XOR ucast b)) crc p"
  by (simp add: ext2fs_crc32c_le_def crc32_le_generic_def)

lemma crc32c_agree:
  assumes "bits \<in> {1, 2, 4, 8, 32, 64}"
  shows "ext2fs_crc32c_le bits a crc p = ext2fs_crc32c_le 1 0 crc p"
proof -
  have l: "le_lookup 2 (crc32cinit_le 2) = crc_bit CRC32C_POLY_LE ^^ 2" "le_lookup 4 (crc32cinit_le 4) = crc_bit CRC32C_POLY_LE ^^ 4"
    "le_lookup 8 (crc32cinit_le 8) = crc_bit CRC32C_POLY_LE ^^ 8"
    by (rule ext, simp add: le_lookup_eq)+
  have m: "(crc_bit CRC32C_POLY_LE ^^ 2) ^^ 4 = crc_bit CRC32C_POLY_LE ^^ 8" "(crc_bit CRC32C_POLY_LE ^^ 4) ^^ 2 = crc_bit CRC32C_POLY_LE ^^ 8"
    by (simp_all add: funpow_mult)
  show ?thesis
    using assms le64.crc32_body_eq[of 64 a crc p] le32.crc32_body_eq[of 32 a crc p]
    unfolding crc32c_bitwise by (auto simp: ext2fs_crc32c_le_def crc32_le_generic_def l m)
qed


section \<open>The left-shifting register\<close>

lemma and_high: "(c :: u32) AND 0x80000000 \<noteq> 0 \<longleftrightarrow> bit c 31"
proof -
  obtain h where h: "h = (2 ^ 31 :: u32)" by blast
  have e: "(0x80000000 :: u32) = h" by (simp add: h)
  have "bit (c AND h) n \<longleftrightarrow> n = 31 \<and> bit c 31" for n
    unfolding h by (auto simp only: bit_and_iff bit_exp_iff) simp
  then have "c AND h = 0 \<longleftrightarrow> \<not> bit c 31" by (metis bit_word_eqI bit_0_eq bot_apply bot_bool_def)
  then show ?thesis unfolding e by simp
qed

lemma crc_bit_be_bit: "crc_bit_be poly c = push_bit 1 c XOR (if bit c 31 then poly else 0)"
  unfolding crc_bit_be_def and_high ..

lemma crc_bit_be_xor: "crc_bit_be poly (a XOR b) = crc_bit_be poly a XOR crc_bit_be poly b"
  by (cases "bit a 31"; cases "bit b 31") (simp_all add: crc_bit_be_bit push_bit_xor bit_xor_iff ac_simps)

lemma crc_be_xor: "(crc_bit_be poly ^^ n) (a XOR b) = (crc_bit_be poly ^^ n) a XOR (crc_bit_be poly ^^ n) b"
  by (rule funpow_xor) (rule crc_bit_be_xor)

lemma crc_be_0: "(crc_bit_be poly ^^ n) 0 = 0"
  using crc_be_xor[of n poly 0 0] by simp

lemma crc_be_low:
  assumes "n \<le> 32" "\<And>i. 32 - n \<le> i \<Longrightarrow> i < 32 \<Longrightarrow> \<not> bit c i"
  shows "(crc_bit_be poly ^^ n) c = push_bit n c"
  using assms
proof (induction n arbitrary: c)
  case (Suc n)
  have "crc_bit_be poly c = push_bit 1 c" using Suc.prems(1) Suc.prems(2)[of 31] by (simp add: crc_bit_be_bit)
  moreover have "(crc_bit_be poly ^^ n) (push_bit 1 c) = push_bit n (push_bit 1 c)"
  proof (rule Suc.IH)
    fix i assume "32 - n \<le> i" "i < 32"
    moreover from this have "\<not> bit c (i - 1)" using Suc.prems by auto
    ultimately show "\<not> bit (push_bit 1 c) i" by (simp only: bit_push_bit_iff) simp
  qed (use Suc.prems in simp)
  ultimately show ?case by (simp add: funpow_swap1)
qed simp

lemma crc_be_split:
  assumes "k \<le> 32"
  shows "(crc_bit_be poly ^^ k) c = push_bit k c XOR (crc_bit_be poly ^^ k) (push_bit (32 - k) (drop_bit (32 - k) c))"
proof -
  have c: "c = take_bit (32 - k) c XOR push_bit (32 - k) (drop_bit (32 - k) c)"
    by (rule bit_word_eqI) (auto simp: bit_xor_iff bit_take_bit_iff bit_push_bit_iff bit_drop_bit_eq)
  have "(crc_bit_be poly ^^ k) (take_bit (32 - k) c) = push_bit k (take_bit (32 - k) c)"
    by (rule crc_be_low) (use assms in \<open>auto simp: bit_take_bit_iff\<close>)
  also have "\<dots> = push_bit k c"
    by (rule bit_word_eqI) (use assms in \<open>auto simp: bit_take_bit_iff bit_push_bit_iff\<close>)
  finally show ?thesis by (subst c) (simp only: crc_be_xor)
qed

lemma be_entries:
  assumes "j \<le> i" "2 * i \<le> length row"
  shows "length (be_init_entries crc i j row) = length row \<and>
    (\<forall>m < length row. be_init_entries crc i j row ! m = (if i + j \<le> m \<and> m < 2 * i then crc XOR row ! (m - i) else row ! m))"
  using assms
proof (induction "i - j" arbitrary: j row)
  case 0
  then have "be_init_entries crc i j row = row" by (subst be_init_entries.simps) simp
  then show ?case using 0 by auto
next
  case (Suc d)
  let ?row = "row[i + j := crc XOR row ! j]"
  have j: "j < i" using Suc.hyps(2) by simp
  have st: "be_init_entries crc i j row = be_init_entries crc i (j + 1) ?row" using j by (subst be_init_entries.simps) simp
  have IH: "length (be_init_entries crc i (j + 1) ?row) = length ?row \<and>
    (\<forall>m < length ?row. be_init_entries crc i (j + 1) ?row ! m = (if i + (j + 1) \<le> m \<and> m < 2 * i then crc XOR ?row ! (m - i) else ?row ! m))"
    by (rule Suc.hyps(1)) (use Suc.hyps(2) Suc.prems in auto)
  show ?case unfolding st
  proof (intro conjI allI impI)
    fix m assume m: "m < length row"
    show "be_init_entries crc i (j + 1) ?row ! m = (if i + j \<le> m \<and> m < 2 * i then crc XOR row ! (m - i) else row ! m)"
      by (cases "m = i + j") (use IH m j Suc.prems in auto)
  qed (use IH in simp)
qed

text \<open>The entry of \<open>m\<close> is the register after the \<open>k\<close> bits of \<open>m\<close> at its high end.\<close>

lemma be_row:
  assumes "q < k" "k \<le> 8" "length row = 2 ^ k" "crc_bit_be CRCPOLY_BE crc = (crc_bit_be CRCPOLY_BE ^^ k) (2 ^ (32 - k + q))"
    and "\<And>m. m < 2 ^ q \<Longrightarrow> row ! m = (crc_bit_be CRCPOLY_BE ^^ k) (push_bit (32 - k) (of_nat m))"
  shows "length (be_init_row (2 ^ k) crc (2 ^ q) row) = 2 ^ k \<and>
    (\<forall>m < 2 ^ k. be_init_row (2 ^ k) crc (2 ^ q) row ! m = (crc_bit_be CRCPOLY_BE ^^ k) (push_bit (32 - k) (of_nat m)))"
  using assms
proof (induction "k - q" arbitrary: q crc row)
  case (Suc d)
  let ?B = "crc_bit_be CRCPOLY_BE" and ?row = "be_init_entries (crc_bit_be CRCPOLY_BE crc) (2 ^ q) 0 row"
  have le: "2 * 2 ^ q \<le> (2 ^ k :: nat)" using Suc.prems(1) power_increasing[of "Suc q" k "2 :: nat"] by simp
  note en = be_entries[of 0 "2 ^ q" row "?B crc", simplified, unfolded Suc.prems(3), OF le]
  have row: "?row ! m = (?B ^^ k) (push_bit (32 - k) (of_nat m))" if "m < 2 ^ Suc q" for m
  proof (cases "m < 2 ^ q")
    case True
    then show ?thesis using en that le Suc.prems(5) by simp
  next
    case False
    then have mq: "m mod 2 ^ Suc q = m" "m - 2 ^ q < 2 ^ q" using that by simp_all
    have "\<not> bit (m - 2 ^ q) q" using mq(2) by (simp add: bit_iff_odd)
    then have "2 ^ q XOR (m - 2 ^ q) = 2 ^ q + (m - 2 ^ q)"
      by (intro disjunctive_add_eq_xor[symmetric] bit_eqI) (auto simp: bit_and_iff bit_exp_iff)
    then have x: "(of_nat (2 ^ q) :: u32) XOR of_nat (m - 2 ^ q) = of_nat m" using False by (metis of_nat_xor_eq le_add_diff_inverse not_le)
    have "?row ! m = ?B crc XOR row ! (m - 2 ^ q)" using en that le False by simp
    also have "\<dots> = (?B ^^ k) (2 ^ (32 - k + q) XOR push_bit (32 - k) (of_nat (m - 2 ^ q)))"
      using Suc.prems(4) Suc.prems(5)[OF mq(2)] by (simp add: crc_be_xor)
    also have "2 ^ (32 - k + q) = push_bit (32 - k) (of_nat (2 ^ q) :: u32)" by (simp add: push_bit_eq_mult power_add)
    finally show ?thesis by (simp only: push_bit_xor[symmetric] x)
  qed
  have step: "be_init_row (2 ^ k) crc (2 ^ q) row = be_init_row (2 ^ k) (?B crc) (2 * 2 ^ q) ?row"
    using le Suc.prems(1) by (subst be_init_row.simps) (simp add: Let_def)
  show ?case
  proof (cases "Suc q = k")
    case True
    then have "be_init_row (2 ^ k) (?B crc) (2 * 2 ^ q) ?row = ?row" by (subst be_init_row.simps) auto
    then show ?thesis using en row True by (simp add: step)
  next
    case False
    have "?B (2 ^ (32 - k + q)) = push_bit 1 (2 ^ (32 - k + q))"
      by (subst crc_bit_be_bit) (use False Suc.prems(1,2) in \<open>auto simp: bit_exp_iff\<close>)
    then have "?B (2 ^ (32 - k + q)) = 2 ^ (32 - k + Suc q)" by (simp add: push_bit_eq_mult)
    then have b: "?B (?B crc) = (?B ^^ k) (2 ^ (32 - k + Suc q))" using Suc.prems(4) by (simp only: funpow_swap1)
    show ?thesis
      using Suc.hyps(1)[OF _ _ Suc.prems(2) _ b, of ?row] row en False Suc.prems(1) Suc.hyps(2) by (simp add: step)
  qed
qed simp


lemma be_row0:
  fixes k :: nat
  assumes "0 < k" "k \<le> 8"
  defines "row0 \<equiv> be_init_row (2 ^ k) 0x80000000 1 (replicate (2 ^ k) 0)"
  shows "length row0 = 2 ^ k" "m < 2 ^ k \<Longrightarrow> row0 ! m = (crc_bit_be CRCPOLY_BE ^^ k) (push_bit (32 - k) (of_nat m))"
proof -
  let ?B = "crc_bit_be CRCPOLY_BE"
  obtain d where d: "k = Suc d" using assms(1) by (cases k) auto
  have "(?B ^^ d) (2 ^ (32 - k)) = push_bit d (2 ^ (32 - k))"
    by (rule crc_be_low) (use assms(2) d in \<open>auto simp: bit_exp_iff\<close>)
  also have "\<dots> = 2 ^ (d + (32 - k))" by (simp add: push_bit_eq_mult power_add)
  also have "\<dots> = 0x80000000" using assms(2) d by simp
  finally have c: "?B 0x80000000 = (?B ^^ k) (2 ^ (32 - k + 0))" by (simp add: d)
  have "length row0 = 2 ^ k \<and> (\<forall>m < 2 ^ k. row0 ! m = (?B ^^ k) (push_bit (32 - k) (of_nat m)))"
    using be_row[OF assms(1,2) _ c, of "replicate (2 ^ k) 0"] by (simp add: row0_def crc_be_0)
  then show "length row0 = 2 ^ k" "m < 2 ^ k \<Longrightarrow> row0 ! m = (?B ^^ k) (push_bit (32 - k) (of_nat m))" by simp_all
qed

lemma be_table:
  assumes "bits \<in> {1, 2, 4, 8, 32, 64}" "r < TABLE_ROWS bits" "m < TABLE_SIZE bits"
  shows "length (crc32init_be bits) = TABLE_ROWS bits \<and> length (crc32init_be bits ! r) = TABLE_SIZE bits \<and>
    crc32init_be bits ! r ! m =
    ((crc_bit_be CRCPOLY_BE ^^ 8) ^^ r) ((crc_bit_be CRCPOLY_BE ^^ row_bits bits) (push_bit (32 - row_bits bits) (of_nat m)))"
proof -
  let ?B = "crc_bit_be CRCPOLY_BE" and ?k = "row_bits bits"
  have k: "0 < ?k" "?k \<le> 8" "TABLE_SIZE bits = 2 ^ ?k" using assms(1) by (auto simp: row_bits_def TABLE_SIZE_def)
  let ?row0 = "be_init_row (2 ^ ?k) 0x80000000 1 (replicate (2 ^ ?k) 0)"
  note row0 = be_row0[OF k(1,2)]
  have up: "be_next ?row0 c = (?B ^^ 8) c" if "TABLE_ROWS bits \<noteq> 1" for c
  proof -
    have k8: "?k = 8" using that by (auto simp: row_bits_def TABLE_ROWS_def split: if_splits)
    have "drop_bit 24 c AND 0xff = drop_bit 24 c AND mask 8" by (simp add: mask_eq_exp_minus_1)
    also have "\<dots> = drop_bit 24 c"
      by (rule bit_word_eqI) (auto simp: bit_and_iff bit_mask_iff bit_drop_bit_eq dest: bit_imp_le_length)
    finally have a: "drop_bit 24 c AND 0xff = drop_bit 24 c" .
    have "unat (drop_bit 24 c) < 256" using nat_mask[of "drop_bit 24 c" 8] \<open>drop_bit 24 c AND mask 8 = drop_bit 24 c\<close> by simp
    then have "?row0 ! unat (drop_bit 24 c) = (?B ^^ 8) (push_bit 24 (drop_bit 24 c))"
      using row0(2)[of "unat (drop_bit 24 c)"] by (simp add: k8)
    then show ?thesis using crc_be_split[of 8 CRCPOLY_BE c] by (simp add: be_next_def a xor.commute)
  qed
  show ?thesis
    using filled_table[where nx = be_next, OF row0, of "TABLE_ROWS bits" "crc_bit_be CRCPOLY_BE ^^ 8"] assms(2,3) up
    unfolding crc32init_be_def Let_def k(3) by simp
qed

lemma be_lookup_eq:
  assumes "bits \<in> {2, 4, 8}"
  shows "be_lookup bits (crc32init_be bits) c = (crc_bit_be CRCPOLY_BE ^^ bits) c"
proof -
  have "unat (drop_bit (32 - bits) c) < 2 ^ bits"
    using assms unat_less32[of c] by (auto simp: unat_drop_bit)
  then have "crc32init_be bits ! 0 ! unat (drop_bit (32 - bits) c) = (crc_bit_be CRCPOLY_BE ^^ bits) (push_bit (32 - bits) (drop_bit (32 - bits) c))"
    using be_table[of bits 0 "unat (drop_bit (32 - bits) c)"] assms by (auto simp: TABLE_ROWS_def TABLE_SIZE_def row_bits_def)
  then show ?thesis using crc_be_split[of bits CRCPOLY_BE c] assms by (auto simp: be_lookup_def)
qed

text \<open>The byte swap.\<close>

lemma bit_swab32:
  "bit (swab32 x) n \<longleftrightarrow> n < 32 \<and>
     (if 24 \<le> n then bit x (n - 24) else if 16 \<le> n then bit x (n - 8) else if 8 \<le> n then bit x (n + 8) else bit x (n + 24))"
proof -
  obtain m0 m1 m2 m3 where m: "m0 = (mask 8 :: u32)" "m1 = push_bit 8 (mask 8 :: u32)" "m2 = push_bit 16 (mask 8 :: u32)" "m3 = push_bit 24 (mask 8 :: u32)"
    by blast
  have e: "(0xff :: u32) = m0" "(0xff00 :: u32) = m1" "(0xff0000 :: u32) = m2" "(0xff000000 :: u32) = m3"
    by (simp_all add: m mask_eq_exp_minus_1)
  have b: "bit m0 i \<longleftrightarrow> i < 8" "bit m1 i \<longleftrightarrow> 8 \<le> i \<and> i < 16" "bit m2 i \<longleftrightarrow> 16 \<le> i \<and> i < 24" "bit m3 i \<longleftrightarrow> 24 \<le> i \<and> i < 32" for i
    by (auto simp only: m bit_mask_iff bit_push_bit_iff) auto
  show ?thesis
    unfolding swab32_def e
    by (auto simp: bit_or_iff bit_push_bit_iff bit_drop_bit_eq bit_and_iff b add.commute)
qed

lemma swab_swab [simp]: "swab32 (swab32 x) = x"
  by (rule bit_word_eqI) (auto simp: bit_swab32)

lemma swab_xor: "swab32 (a XOR b) = swab32 a XOR swab32 b"
  by (rule bit_word_eqI) (auto simp: bit_swab32 bit_xor_iff)

definition be_byte :: "u32 \<Rightarrow> u32" where
  "be_byte c = swab32 ((crc_bit_be CRCPOLY_BE ^^ 8) (swab32 c))"

lemma be_byte_pow: "(be_byte ^^ n) c = swab32 (((crc_bit_be CRCPOLY_BE ^^ 8) ^^ n) (swab32 c))"
  by (induction n) (simp_all add: be_byte_def)

lemma swab_low:
  assumes "i < 256"
  shows "swab32 (of_nat i) = push_bit 24 (of_nat i)"
proof -
  have b: "n < 8" if "bit (of_nat i :: u32) n" for n
  proof (rule ccontr)
    assume "\<not> n < 8"
    then have "(2 :: nat) ^ 8 \<le> 2 ^ n" by (intro power_increasing) auto
    moreover have "bit i n" using that by (simp add: bit_of_nat_iff)
    ultimately show False using assms by (simp add: bit_iff_odd)
  qed
  show ?thesis
    by (rule bit_word_eqI) (auto simp: bit_swab32 bit_push_bit_iff dest: b)
qed

lemma byte_crc_be:
  assumes "bits \<in> {32, 64}"
  shows "byte_crc be_byte (map (map swab32) (crc32init_be bits)) (TABLE_ROWS bits)"
proof
  show "be_byte (a XOR b) = be_byte a XOR be_byte b" for a b by (simp add: be_byte_def swab_xor crc_be_xor)
  show "be_byte c = drop_bit 8 c" if "take_bit 8 c = 0" for c
  proof -
    have c: "\<not> bit c i" if "i < 8" for i
      using that \<open>take_bit 8 c = 0\<close> bit_take_bit_iff[of 8 c i] by simp
    have "(crc_bit_be CRCPOLY_BE ^^ 8) (swab32 c) = push_bit 8 (swab32 c)"
      by (rule crc_be_low) (auto simp: bit_swab32 c)
    moreover have "swab32 (push_bit 8 (swab32 c)) = drop_bit 8 c"
      by (rule bit_word_eqI) (auto simp: bit_swab32 bit_push_bit_iff bit_drop_bit_eq add.commute dest: bit_imp_le_length)
    ultimately show ?thesis by (simp add: be_byte_def)
  qed
  show "map (map swab32) (crc32init_be bits) ! j ! i = (be_byte ^^ Suc j) (of_nat i)" if "j < TABLE_ROWS bits" "i < 256" for i j
  proof -
    have t: "TABLE_SIZE bits = 256" "row_bits bits = 8" using assms by (auto simp: TABLE_SIZE_def row_bits_def)
    have "map (map swab32) (crc32init_be bits) ! j ! i = swab32 (crc32init_be bits ! j ! i)"
      using be_table[of bits j i] that assms t by auto
    also have "\<dots> = swab32 (((crc_bit_be CRCPOLY_BE ^^ 8) ^^ Suc j) (push_bit 24 (of_nat i)))"
      using be_table[of bits j i] that assms t by (auto simp: funpow_swap1)
    finally show ?thesis unfolding be_byte_pow swab_low[OF that(2)] .
  qed
qed

interpretation be64: byte_crc be_byte "map (map swab32) (crc32init_be 64)" 8
  using byte_crc_be[of 64] by (simp add: TABLE_ROWS_def)

interpretation be32: byte_crc be_byte "map (map swab32) (crc32init_be 32)" 4
  using byte_crc_be[of 32] by (simp add: TABLE_ROWS_def)

lemma swab_fold:
  "swab32 (foldl (\<lambda>crc b. be_byte (crc XOR ucast b)) (swab32 crc) (p :: u8 list)) =
   foldl (\<lambda>crc b. (crc_bit_be CRCPOLY_BE ^^ 8) (crc XOR push_bit 24 (ucast b))) crc p"
proof (induction p arbitrary: crc)
  case (Cons b p)
  have "b AND mask 8 = b" by (rule bit_word_eqI) (auto simp: bit_and_iff bit_mask_iff)
  then have u: "swab32 (ucast b) = push_bit 24 (ucast b)" using swab_low[of "unat b"] nat_mask[of b 8] by simp
  have "be_byte (swab32 crc XOR ucast b) = swab32 ((crc_bit_be CRCPOLY_BE ^^ 8) (crc XOR push_bit 24 (ucast b)))"
    by (simp add: be_byte_def swab_xor u)
  then show ?case using Cons.IH by simp
qed simp

lemma crc32_be_agree:
  assumes "bits \<in> {1, 2, 4, 8, 32, 64}"
  shows "ext2fs_crc32_be bits a crc p = ext2fs_crc32_be 1 0 crc p"
proof -
  let ?B = "crc_bit_be CRCPOLY_BE"
  have l: "be_lookup 2 (crc32init_be 2) = ?B ^^ 2" "be_lookup 4 (crc32init_be 4) = ?B ^^ 4" "be_lookup 8 (crc32init_be 8) = ?B ^^ 8"
    by (rule ext, simp add: be_lookup_eq)+
  have m: "(?B ^^ 2) ^^ 4 = ?B ^^ 8" "(?B ^^ 4) ^^ 2 = ?B ^^ 8" by (simp_all add: funpow_mult)
  show ?thesis
    using assms be64.crc32_body_eq[of 64 a "swab32 crc" p] be32.crc32_body_eq[of 32 a "swab32 crc" p]
    by (auto simp: ext2fs_crc32_be_def crc32_be_generic_def l m swab_fold)
qed

section \<open>CRC-16\<close>

text \<open>A linear function of the numbers below \<open>2 ^ n\<close>, from its values at the powers of two.\<close>

lemma linear_table:
  fixes G :: "'a::len word \<Rightarrow> 'a word"
  assumes "\<And>a b. G (a XOR b) = G a XOR G b"
  shows "foldl (\<lambda>t c. t @ map (\<lambda>x. c XOR x) t) [0] (map (\<lambda>k. G (2 ^ k)) [0..<n]) = map (\<lambda>i. G (of_nat i)) [0..<2 ^ n]"
proof (induction n)
  case 0
  show ?case using assms[of 0 0] by simp
next
  case (Suc n)
  have "G (2 ^ n) XOR G (of_nat i) = G (of_nat (2 ^ n + i))" if "i < 2 ^ n" for i
  proof -
    have "\<not> bit i n" using that by (simp add: bit_iff_odd)
    then have "2 ^ n XOR i = 2 ^ n + i"
      by (intro disjunctive_add_eq_xor[symmetric] bit_eqI) (auto simp: bit_and_iff bit_exp_iff)
    then have "(of_nat (2 ^ n) :: 'a word) XOR of_nat i = of_nat (2 ^ n + i)" by (metis of_nat_xor_eq)
    then show ?thesis by (simp add: assms[symmetric])
  qed
  then have m: "map (\<lambda>x. G (2 ^ n) XOR x) (map (\<lambda>i. G (of_nat i)) [0..<2 ^ n]) = map (\<lambda>i. G (of_nat i)) (map (\<lambda>i. i + 2 ^ n) [0..<2 ^ n])"
    by (auto simp: add.commute)
  have u: "[0..<2 ^ Suc n] = [0..<2 ^ n] @ map (\<lambda>i. i + 2 ^ n) [0..<2 ^ n]"
    using upt_add_eq_append[of 0 "2 ^ n" "2 ^ n"] by (simp add: map_add_upt mult_2)
  show ?case unfolding u map_append m[symmetric] using Suc by simp
qed

lemma crc16_steps:
  "map (crc_bit 0xA001) [1, 0xA001, 0xF001, 0xD801, 0xCC01, 0xC601, 0xC301, 0xC181] =
   [0xA001, 0xF001, 0xD801, 0xCC01, 0xC601, 0xC301, 0xC181, 0xC0C1 :: u16]"
  by code_simp

lemma crc16_powers:
  "map (\<lambda>k. (crc_bit 0xA001 ^^ 8) (2 ^ k)) [0..<8] = [0xC0C1, 0xC181, 0xC301, 0xC601, 0xCC01, 0xD801, 0xF001, 0xA001 :: u16]"
proof -
  let ?S = "crc_bit (0xA001 :: u16)"
  have p: "(?S ^^ 8) (2 ^ k) = (?S ^^ (8 - k)) 1" if "k < 8" for k
  proof -
    have "(?S ^^ k) (2 ^ k) = drop_bit k (2 ^ k)"
      by (rule crc_bits_low, rule bit_word_eqI) (auto simp: bit_take_bit_iff bit_exp_iff)
    also have "\<dots> = 1" by (rule bit_word_eqI) (use that in \<open>auto simp: bit_drop_bit_eq bit_exp_iff bit_1_iff\<close>)
    finally show ?thesis using funpow_add[of "8 - k" k ?S] that by simp
  qed
  have u: "[0..<8] = [0, 1, 2, 3, 4, 5, 6, 7 :: nat]" by (simp add: upt_rec)
  have n: "(?S ^^ 2) x = ?S (?S x)" "(?S ^^ 3) x = ?S (?S (?S x))" "(?S ^^ 4) x = ?S (?S (?S (?S x)))" "(?S ^^ 5) x = ?S (?S (?S (?S (?S x))))"
    "(?S ^^ 6) x = ?S (?S (?S (?S (?S (?S x)))))" "(?S ^^ 7) x = ?S (?S (?S (?S (?S (?S (?S x))))))"
    "(?S ^^ 8) x = ?S (?S (?S (?S (?S (?S (?S (?S x)))))))" for x
    by (simp_all add: eval_nat_numeral)
  have "map (\<lambda>k. (?S ^^ 8) (2 ^ k)) [0..<8] = map (\<lambda>k. (?S ^^ (8 - k)) 1) [0..<8]" using p by simp
  also have "\<dots> = [0xC0C1, 0xC181, 0xC301, 0xC601, 0xCC01, 0xD801, 0xF001, 0xA001]"
    unfolding u using crc16_steps by (simp add: n)
  finally show ?thesis .
qed

lemma crc16_table_bits: "crc16_table = map (\<lambda>i. (crc_bit 0xA001 ^^ 8) (of_nat i)) [0..<256]"
proof -
  have "crc16_table = foldl (\<lambda>t c. t @ map (\<lambda>x. c XOR x) t) [0] [0xC0C1, 0xC181, 0xC301, 0xC601, 0xCC01, 0xD801, 0xF001, 0xA001]"
    by (simp add: crc16_table_def)
  also have "\<dots> = map (\<lambda>i. (crc_bit 0xA001 ^^ 8) (of_nat i)) [0..<2 ^ 8]"
    unfolding crc16_powers[symmetric] by (rule linear_table) (rule crc_bits_xor)
  finally show ?thesis by simp
qed

lemma crc16_bitwise: "ext2fs_crc16 crc p = foldl (\<lambda>crc b. (crc_bit 0xA001 ^^ 8) (crc XOR ucast b)) crc p"
proof (induction p arbitrary: crc)
  case (Cons b p)
  have m: "c AND 0xFF = take_bit 8 c" for c :: u16 by (simp add: take_bit_eq_mask mask_eq_exp_minus_1)
  have t: "crc16_table ! unat (take_bit 8 c) = (crc_bit 0xA001 ^^ 8) (take_bit 8 c)" for c :: u16
    using nat_mask[of c 8] by (simp add: crc16_table_bits take_bit_eq_mask)
  have d: "take_bit 8 (drop_bit 8 crc) = drop_bit 8 (crc XOR ucast b)"
    by (rule bit_word_eqI) (auto simp: bit_take_bit_iff bit_drop_bit_eq bit_xor_iff bit_ucast_iff dest: bit_imp_le_length)
  have "(drop_bit 8 crc AND 0xFF) XOR crc16_table ! unat ((crc XOR ucast b) AND 0xFF) = (crc_bit 0xA001 ^^ 8) (crc XOR ucast b)"
    unfolding m t d by (rule crc_bits_split[symmetric])
  then show ?case using Cons.IH by simp
qed simp

section \<open>Errors that are always detected\<close>

text \<open>The bits of a buffer in the order in which the register takes them.\<close>

definition bit_string :: "u8 list \<Rightarrow> bool list" where
  "bit_string p = map (\<lambda>i. bit (p ! (i div 8)) (i mod 8)) [0..<8 * length p]"

definition bit_step :: "'a::len word \<Rightarrow> 'a word \<Rightarrow> bool \<Rightarrow> 'a word" where
  "bit_step poly crc b = crc_bit poly (crc XOR of_bool b)"

lemma bit_string_Cons: "bit_string (b # p) = map (bit b) [0..<8] @ bit_string p"
proof -
  have u: "[0..<8 * length (b # p)] = [0..<8] @ map (\<lambda>i. i + 8) [0..<8 * length p]"
    using upt_add_eq_append[of 0 8 "8 * length p"] by (simp add: map_add_upt add.commute)
  have "(x + 8) div 8 = Suc (x div 8)" for x :: nat by simp
  then show ?thesis unfolding bit_string_def u map_append by simp
qed

lemma bit_steps:
  fixes crc :: "'a::len word"
  assumes "length d \<le> LENGTH('a)"
  shows "foldl (bit_step poly) crc d = (crc_bit poly ^^ length d) (crc XOR horner_sum of_bool 2 d)"
  using assms
proof (induction d arbitrary: crc)
  case (Cons b d)
  have h: "horner_sum of_bool 2 (b # d) = of_bool b XOR (2 * horner_sum of_bool 2 d :: 'a word)"
    by (rule bit_word_eqI) (use Cons.prems in \<open>auto simp: bit_horner_sum_bit_iff bit_xor_iff bit_double_iff bit_of_bool_iff nth_Cons' simp del: horner_sum_simps\<close>)
  have "crc_bit poly (2 * horner_sum of_bool 2 d :: 'a word) = drop_bit 1 (2 * horner_sum of_bool 2 d)"
    by (rule crc_bit_even) (simp add: bit_double_iff)
  also have "\<dots> = horner_sum of_bool 2 d"
    by (rule bit_word_eqI) (use Cons.prems in \<open>auto simp: bit_drop_bit_eq bit_double_iff bit_horner_sum_bit_iff\<close>)
  finally have s: "crc_bit poly (2 * horner_sum of_bool 2 d :: 'a word) = horner_sum of_bool 2 d" .
  show ?case
    using Cons by (simp add: h bit_step_def funpow_swap1 crc_bit_xor s ac_simps del: horner_sum_simps)
qed simp

lemma byte_bits:
  fixes b :: u8
  assumes "8 \<le> LENGTH('a)"
  shows "foldl (bit_step poly) crc (map (bit b) [0..<8]) = (crc_bit poly ^^ 8) (crc XOR (ucast b :: 'a::len word))"
proof -
  have "horner_sum of_bool 2 (map (bit b) [0..<8]) = (ucast b :: 'a word)"
  proof (rule bit_word_eqI)
    fix n assume "n < LENGTH('a)"
    show "bit (horner_sum of_bool 2 (map (bit b) [0..<8]) :: 'a word) n = bit (ucast b :: 'a word) n"
    proof (cases "n < 8")
      case True
      then show ?thesis using assms by (simp add: bit_horner_sum_bit_iff bit_ucast_iff)
    next
      case False
      then have "\<not> bit b n" using bit_imp_le_length[of b n] by auto
      then show ?thesis using False by (simp add: bit_horner_sum_bit_iff bit_ucast_iff)
    qed
  qed
  then show ?thesis using bit_steps[of "map (bit b) [0..<8]" poly crc] assms by simp
qed

lemma bytes_bits:
  assumes "8 \<le> LENGTH('a)"
  shows "foldl (\<lambda>crc b. (crc_bit poly ^^ 8) (crc XOR (ucast b :: 'a::len word))) crc p = foldl (bit_step poly) crc (bit_string p)"
proof (induction p arbitrary: crc)
  case Nil
  show ?case by (simp add: bit_string_def)
next
  case (Cons b p)
  then show ?case by (simp add: bit_string_Cons byte_bits[OF assms])
qed

lemma crc_bit_inj:
  assumes "bit poly (LENGTH('a::len) - 1)" "crc_bit poly a = crc_bit poly (b :: 'a word)"
  shows "a = b"
proof -
  let ?c = "a XOR b"
  have z: "crc_bit poly ?c = 0" using assms(2) by (simp add: crc_bit_xor)
  have "\<not> bit ?c 0"
  proof
    assume b: "bit ?c 0"
    then have "bit (crc_bit poly ?c) (LENGTH('a) - 1)"
      using assms(1) by (auto simp: crc_bit_bit bit_xor_iff bit_drop_bit_eq dest: bit_imp_le_length)
    then show False by (simp add: z)
  qed
  then have "drop_bit 1 ?c = 0" using z by (simp add: crc_bit_even)
  then have s: "\<not> bit ?c (1 + i)" for i using bit_drop_bit_eq[of 1 ?c] by (metis bit_0_eq bot_apply bot_bool_def comp_apply)
  have "\<not> bit ?c i" for i using \<open>\<not> bit ?c 0\<close> s[of "i - 1"] by (cases "i = 0") simp_all
  then have "bit a i = bit b i" for i by (simp add: bit_xor_iff)
  then show ?thesis by (intro bit_word_eqI) simp
qed


lemma xor_cancel: "c XOR a = c XOR b \<Longrightarrow> a = (b :: 'a::len word)"
proof -
  assume "c XOR a = c XOR b"
  then have "c XOR (c XOR a) = c XOR (c XOR b)" by simp
  then show ?thesis by (simp add: xor.assoc[symmetric])
qed

lemma bit_string_inj:
  assumes "length p = length q" "bit_string p = bit_string q"
  shows "p = q"
proof (rule nth_equalityI)
  fix i assume i: "i < length p"
  have "bit (p ! i) k = bit (q ! i) k" if "k < 8" for k
  proof -
    have "bit_string p ! (8 * i + k) = bit_string q ! (8 * i + k)" using assms(2) by simp
    moreover have "8 * i + k < 8 * length p" using i that by simp
    ultimately show ?thesis using that assms(1) by (simp add: bit_string_def)
  qed
  then show "p ! i = q ! i" by (intro bit_word_eqI) simp
qed (rule assms(1))

text \<open>Two bit strings that differ within one window of the register's length lead to different registers.\<close>

lemma burst_detected:
  fixes crc :: "'a::len word"
  assumes "bit poly (LENGTH('a) - 1)" "length x = length y"
    and "\<And>i. i < length x \<Longrightarrow> x ! i \<noteq> y ! i \<Longrightarrow> l \<le> i \<and> i < l + LENGTH('a)"
    and eq: "foldl (bit_step poly) crc x = foldl (bit_step poly) crc y"
  shows "x = y"
proof -
  let ?f = "foldl (bit_step poly)" and ?n = "LENGTH('a)"
  let ?dx = "take ?n (drop l x)" and ?dy = "take ?n (drop l y)"
  have sx: "z = take l z @ take ?n (drop l z) @ drop (l + ?n) z" for z :: "bool list"
    by (metis append_take_drop_id drop_drop add.commute)
  have t: "take l x = take l y" "drop (l + ?n) x = drop (l + ?n) y"
  proof -
    show "take l x = take l y" by (rule nth_equalityI) (use assms(2,3) in force)+
    show "drop (l + ?n) x = drop (l + ?n) y"
    proof (rule nth_equalityI)
      fix i assume "i < length (drop (l + ?n) x)"
      then have "l + ?n + i < length x" by simp
      then show "drop (l + ?n) x ! i = drop (l + ?n) y ! i" using assms(2) assms(3)[of "l + ?n + i"] by auto
    qed (simp add: assms(2))
  qed
  have st: "a = b" if "bit_step poly a c = bit_step poly b c" for a b :: "'a word" and c
  proof -
    have "a XOR of_bool c = b XOR of_bool c" using crc_bit_inj[OF assms(1)] that by (simp add: bit_step_def)
    then show ?thesis using xor_cancel[of "of_bool c" a b] by (simp add: xor.commute)
  qed
  have inj: "?f a z = ?f b z \<Longrightarrow> a = b" for a b :: "'a word" and z
  proof (induction z arbitrary: a b)
    case (Cons c z)
    then show ?case by (metis foldl_Cons st)
  qed simp
  define c where "c = ?f crc (take l x)"
  have "?f crc x = ?f (?f c ?dx) (drop (l + ?n) x)"
    using arg_cong[OF sx[of x], of "?f crc"] by (simp only: foldl_append c_def)
  moreover have "?f crc y = ?f (?f c ?dy) (drop (l + ?n) x)"
    using arg_cong[OF sx[of y], of "?f crc"] by (simp only: foldl_append c_def t)
  ultimately have "?f (?f c ?dx) (drop (l + ?n) x) = ?f (?f c ?dy) (drop (l + ?n) x)" using eq by (simp only:)
  then have "?f c ?dx = ?f c ?dy" by (rule inj)
  then have p: "(crc_bit poly ^^ length ?dx) (c XOR horner_sum of_bool 2 ?dx) = (crc_bit poly ^^ length ?dx) (c XOR horner_sum of_bool 2 ?dy)"
    using bit_steps[of ?dx poly c] bit_steps[of ?dy poly c] assms(2) by simp
  have pinj: "(crc_bit poly ^^ k) a = (crc_bit poly ^^ k) b \<Longrightarrow> a = b" for k and a b :: "'a word"
    by (induction k) (auto dest: crc_bit_inj[OF assms(1)])
  have h: "horner_sum of_bool 2 ?dx = (horner_sum of_bool 2 ?dy :: 'a word)"
    using pinj[OF p] by (rule xor_cancel)
  have "?dx = ?dy"
  proof (rule nth_equalityI)
    fix i assume i: "i < length ?dx"
    then have "i < ?n" by simp
    then show "?dx ! i = ?dy ! i"
      using arg_cong[OF h, of "\<lambda>w. bit w i"] i assms(2) by (simp add: bit_horner_sum_bit_iff)
  qed (simp add: assms(2))
  then show ?thesis using sx[of x] sx[of y] t by metis
qed


lemma burst_bytes:
  fixes crc :: "'a::len word" and p q :: "u8 list"
  assumes "bit poly (LENGTH('a) - 1)" "8 \<le> LENGTH('a)" "length p = length q" "p \<noteq> q"
    and "\<And>i. i < 8 * length p \<Longrightarrow> bit (p ! (i div 8)) (i mod 8) \<noteq> bit (q ! (i div 8)) (i mod 8) \<Longrightarrow> l \<le> i \<and> i < l + LENGTH('a)"
  shows "foldl (\<lambda>crc b. (crc_bit poly ^^ 8) (crc XOR ucast b)) crc p \<noteq> foldl (\<lambda>crc b. (crc_bit poly ^^ 8) (crc XOR ucast b)) crc q"
proof
  assume "foldl (\<lambda>crc b. (crc_bit poly ^^ 8) (crc XOR ucast b)) crc p = foldl (\<lambda>crc b. (crc_bit poly ^^ 8) (crc XOR ucast b)) crc q"
  then have "foldl (bit_step poly) crc (bit_string p) = foldl (bit_step poly) crc (bit_string q)"
    by (simp only: bytes_bits[OF assms(2)])
  then have "bit_string p = bit_string q"
    by (rule burst_detected[OF assms(1), where l = l, rotated 2]) (use assms(3,5) in \<open>auto simp: bit_string_def\<close>)
  then show False using bit_string_inj[OF assms(3)] assms(4) by blast
qed

section \<open>What the checksums promise\<close>

text \<open>Two buffers differ in a burst of \<open>w\<close> bits, and what the default configuration makes of it.\<close>

definition burst_apart :: "nat \<Rightarrow> u8 list \<Rightarrow> u8 list \<Rightarrow> bool" where
  "burst_apart w p q \<longleftrightarrow> length p = length q \<and> p \<noteq> q \<and>
     (\<exists>l. \<forall>i < 8 * length p. bit (p ! (i div 8)) (i mod 8) \<noteq> bit (q ! (i div 8)) (i mod 8) \<longrightarrow> l \<le> i \<and> i < l + w)"

lemma crc32c_burst:
  assumes "burst_apart 32 p q" "bits \<in> {1, 2, 4, 8, 32, 64}"
  shows "ext2fs_crc32c_le bits a crc p \<noteq> ext2fs_crc32c_le bits a' crc q"
proof -
  obtain l where l: "length p = length q" "p \<noteq> q"
    "\<forall>i < 8 * length p. bit (p ! (i div 8)) (i mod 8) \<noteq> bit (q ! (i div 8)) (i mod 8) \<longrightarrow> l \<le> i \<and> i < l + 32"
    using assms(1) by (auto simp: burst_apart_def)
  have "bit CRC32C_POLY_LE (LENGTH(32) - 1)" by (simp add: CRC32C_POLY_LE_def)
  then have "foldl (\<lambda>crc b. (crc_bit CRC32C_POLY_LE ^^ 8) (crc XOR ucast b)) crc p \<noteq> foldl (\<lambda>crc b. (crc_bit CRC32C_POLY_LE ^^ 8) (crc XOR ucast b)) crc q"
    by (rule burst_bytes[OF _ _ l(1,2), where l = l]) (use l(3) in auto)
  then show ?thesis by (simp only: crc32c_agree[OF assms(2)] crc32c_bitwise not_False_eq_True)
qed



text \<open>C16: The checksums detect every burst: two buffers of the same length that differ, but only in bits within 32 consecutive ones (16 for
  \<^verbatim>\<open>ext2fs_crc16\<close>), have different checksums, whatever the starting value and the configuration.\<close>

theorem crc_detects_bursts:
  "(bits \<in> {1, 2, 4, 8, 32, 64} \<and> burst_apart 32 p q \<longrightarrow> ext2fs_crc32c_le bits a crc p \<noteq> ext2fs_crc32c_le bits a' crc q) \<and>
   (burst_apart 16 p q \<longrightarrow> ext2fs_crc16 crc' p \<noteq> ext2fs_crc16 crc' q)"
proof (intro conjI impI)
  show "ext2fs_crc32c_le bits a crc p \<noteq> ext2fs_crc32c_le bits a' crc q" if "bits \<in> {1, 2, 4, 8, 32, 64} \<and> burst_apart 32 p q"
    using crc32c_burst that by blast
next
  assume "burst_apart 16 p q"
  then obtain l where l: "length p = length q" "p \<noteq> q"
    "\<forall>i < 8 * length p. bit (p ! (i div 8)) (i mod 8) \<noteq> bit (q ! (i div 8)) (i mod 8) \<longrightarrow> l \<le> i \<and> i < l + 16"
    by (auto simp: burst_apart_def)
  have "bit (0xA001 :: u16) (LENGTH(16) - 1)" by simp
  then show "ext2fs_crc16 crc' p \<noteq> ext2fs_crc16 crc' q"
    unfolding crc16_bitwise by (rule burst_bytes[OF _ _ l(1,2), where l = l]) (use l(3) in auto)
qed

theorem crc_detects_bursts_witness: "ext2fs_crc32c_le 64 3 5 [1, 9] \<noteq> ext2fs_crc32c_le 64 0 5 [0, 8]"
  by (rule crc_detects_bursts[of 64 "[1, 9]" "[0, 8]", THEN conjunct1, THEN mp]) (auto simp: burst_apart_def intro!: exI[of _ 0])

end
