(* ===== verification/Dirent.thy ===== *)
theory Dirent
  imports Ext2_Fs
begin

text \<open>
  The entries of a directory block: \<^verbatim>\<open>struct ext2_dir_entry\<close> and its accessors in \<^verbatim>\<open>lib/ext2fs/ext2_fs.h\<close> and \<^verbatim>\<open>lib/ext2fs/ext2fs.h\<close>,
  and the record lengths of \<^verbatim>\<open>lib/ext2fs/dir_iterate.c\<close>. A block is its bytes and an entry the offset of its header; the inode is at offset 0, the
  record length at 4, the name length with the file type at 6 and the name at 8.

  Offsets and lengths are natural numbers: the block size is at most 65536 and a record length at most \<open>2 ^ 18\<close>, so that the sums the
  code forms in \<^verbatim>\<open>unsigned int\<close> do not wrap. A subtraction that can wrap is written with \<open>sub32\<close>.
\<close>

unbundle bit_operations_syntax

definition sub32 :: "nat \<Rightarrow> nat \<Rightarrow> nat" where
  "sub32 a b = unat (of_nat a - of_nat b :: u32)"

abbreviation blksize :: "ext2_filsys \<Rightarrow> nat" where
  "blksize fs \<equiv> unat (fs_blocksize fs)"

section \<open>Fields of an entry\<close>

definition ext2fs_dirent_name_len :: "u8 list \<Rightarrow> nat \<Rightarrow> nat" where
  "ext2fs_dirent_name_len buf d = unat (ld16 buf (d + 6) AND 0xff)"

definition ext2fs_dirent_set_name_len :: "u8 list \<Rightarrow> nat \<Rightarrow> nat \<Rightarrow> u8 list" where
  "ext2fs_dirent_set_name_len buf d len = st16 buf (d + 6) ((ld16 buf (d + 6) AND 0xff00) OR (of_nat len AND 0xff))"

definition ext2fs_dirent_file_type :: "u8 list \<Rightarrow> nat \<Rightarrow> nat" where
  "ext2fs_dirent_file_type buf d = unat (drop_bit 8 (ld16 buf (d + 6)))"

definition ext2fs_dirent_set_file_type :: "u8 list \<Rightarrow> nat \<Rightarrow> nat \<Rightarrow> u8 list" where
  "ext2fs_dirent_set_file_type buf d typ = st16 buf (d + 6) ((ld16 buf (d + 6) AND 0xff) OR push_bit 8 (of_nat typ))"

definition EXT2_DIR_REC_LEN :: "nat \<Rightarrow> nat" where
  "EXT2_DIR_REC_LEN name_len = (name_len + 8 + 3) div 4 * 4"

section \<open>Record lengths\<close>

definition ext2fs_get_rec_len :: "ext2_filsys \<Rightarrow> u8 list \<Rightarrow> nat \<Rightarrow> nat" where
  "ext2fs_get_rec_len fs buf d =
     (let len = unat (ld16 buf (d + 4))
      in if blksize fs < 65536 then len
         else if len = 65535 \<or> len = 0 then blksize fs
         else (len AND 65532) OR push_bit 16 (len AND 3))"

definition ext2fs_set_rec_len :: "ext2_filsys \<Rightarrow> nat \<Rightarrow> u8 list \<Rightarrow> nat \<Rightarrow> errcode + u8 list" where
  "ext2fs_set_rec_len fs len buf d =
     (if len > blksize fs \<or> blksize fs > 2 ^ 18 \<or> len AND 3 \<noteq> 0 then Inl EINVAL
      else if len < 65536 then Inr (st16 buf (d + 4) (of_nat len))
      else if len = blksize fs then Inr (st16 buf (d + 4) (if blksize fs = 65536 then 65535 else 0))
      else Inr (st16 buf (d + 4) (of_nat ((len AND 65532) OR (drop_bit 16 len AND 3)))))"

section \<open>Facts\<close>

lemma and3_nat: "(n :: nat) AND 3 = n mod 4"
  using take_bit_eq_mask[of 2 n] by (simp add: mask_eq_exp_minus_1 take_bit_eq_mod)

lemma and65532_nat: "(n :: nat) AND 65532 = 4 * (n div 4 mod 16384)"
proof -
  have m: "(65532 :: nat) = push_bit 2 (mask 14)" by (simp add: mask_eq_exp_minus_1 push_bit_eq_mult)
  have "n AND push_bit 2 (mask 14) = push_bit 2 (take_bit 14 (drop_bit 2 n))"
    by (rule bit_eqI) (auto simp: bit_and_iff bit_push_bit_iff bit_mask_iff bit_take_bit_iff bit_drop_bit_eq simp flip: add_2_eq_Suc)
  then show ?thesis unfolding m by (simp add: take_bit_eq_mod drop_bit_eq_div push_bit_eq_mult)
qed

lemma or_add_nat:
  assumes "(y :: nat) < 2 ^ k"
  shows "2 ^ k * x OR y = 2 ^ k * x + y"
proof -
  have "take_bit k y = y" using assms by (simp add: take_bit_nat_eq_self_iff)
  moreover have "push_bit k x AND take_bit k y = 0"
    by (rule bit_eqI) (auto simp: bit_and_iff bit_push_bit_iff bit_take_bit_iff)
  ultimately have "push_bit k x AND y = 0" by simp
  then show ?thesis by (simp add: disjunctive_add_eq_or push_bit_eq_mult mult.commute)
qed

lemma sub32_eq: "b \<le> a \<Longrightarrow> a < 2 ^ 32 \<Longrightarrow> sub32 a b = a - b"
proof -
  assume a: "b \<le> a" "a < 2 ^ 32"
  have "of_nat a - of_nat b = (of_nat (a - b) :: u32)" by (simp only: of_nat_diff[OF a(1)])
  moreover have "take_bit 32 (a - b) = a - b" using a(2) by (simp add: take_bit_nat_eq_self_iff)
  ultimately show ?thesis by (simp add: sub32_def unsigned_of_nat)
qed

lemma rec_len_facts: "EXT2_DIR_REC_LEN n mod 4 = 0" "n + 8 \<le> EXT2_DIR_REC_LEN n" "EXT2_DIR_REC_LEN n \<le> n + 11"
  unfolding EXT2_DIR_REC_LEN_def by simp_all

lemma st16_length_eqs [simp]:
  "length (ext2fs_dirent_set_name_len buf d n) = length buf" "length (ext2fs_dirent_set_file_type buf d t) = length buf"
  by (simp_all add: ext2fs_dirent_set_name_len_def ext2fs_dirent_set_file_type_def)

lemma unat_of_nat16: "n < 65536 \<Longrightarrow> unat (of_nat n :: u16) = n"
  by (simp add: unsigned_of_nat take_bit_nat_eq_self_iff)

text \<open>What is stored is read back, for every length but 0 on a block of 64 KiB and more, and but 262140, which is stored as the code of a
  whole block of 256 KiB.\<close>

lemma set_get_rec_len:
  assumes "ext2fs_set_rec_len fs len buf d = Inr buf'" "d + 6 \<le> length buf" "0 < len" "len \<noteq> 262140"
  shows "ext2fs_get_rec_len fs buf' d = len"
proof -
  have l: "len \<le> blksize fs" "blksize fs \<le> 2 ^ 18" "len mod 4 = 0"
    using assms(1) by (simp_all add: ext2fs_set_rec_len_def and3_nat split: if_splits)
  consider "len < 65536" | "len = blksize fs" "\<not> len < 65536" | "len < blksize fs" "\<not> len < 65536" using l by linarith
  then show ?thesis
  proof cases
    case 1
    then have b: "buf' = st16 buf (d + 4) (of_nat len)"
      using assms(1) by (simp add: ext2fs_set_rec_len_def split: if_splits)
    have u: "unat (of_nat len :: u16) = len" using 1 by (rule unat_of_nat16)
    have a: "len AND 65532 = len" using 1 l(3) by (simp add: and65532_nat) presburger
    have "len \<noteq> 65535" using l(3) by auto
    then show ?thesis using 1 assms(2,3) u a l(3) by (simp add: b ext2fs_get_rec_len_def ld16_st16 and3_nat Let_def)
  next
    case 2
    then show ?thesis using assms(1,2) by (auto simp: ext2fs_set_rec_len_def ext2fs_get_rec_len_def ld16_st16 Let_def split: if_splits)
  next
    case 3
    define x y where "x = len div 4 mod 16384" and "y = len div 65536"
    obtain q where q: "len = 4 * q" using l(3) by auto
    have "y = q div 16384" using div_mult2_eq[of len 4 16384] by (simp add: y_def q)
    moreover have "q = q div 16384 * 16384 + q mod 16384" by (rule div_mult_mod_eq[symmetric])
    ultimately have "q = y * 16384 + x" by (simp add: x_def q)
    then have "len = 4 * x + 65536 * y" using q by simp
    then have y: "y < 4" "y \<noteq> 0" "x < 16384" "len = 4 * x + 65536 * y" using 3 l by (auto simp: x_def y_def)
    have v: "4 * x OR y mod 4 = 4 * x + y" using or_add_nat[of y 2 x] y(1) by simp
    have b: "buf' = st16 buf (d + 4) (of_nat (4 * x + y))"
      using assms(1) 3 v by (simp add: ext2fs_set_rec_len_def x_def y_def and65532_nat and3_nat drop_bit_eq_div split: if_splits)
    have u: "unat (of_nat (4 * x + y) :: u16) = 4 * x + y" using y by (intro unat_of_nat16) simp
    have n: "4 * x + y \<noteq> 65535 \<and> 4 * x + y \<noteq> 0" 
    proof -
      have "x = 16383" "y = 3" if "4 * x + y = 65535" using y(1,3) that by linarith+
      then show ?thesis using y(2,4) assms(4) by auto
    qed
    have "4 * x OR 65536 * y = 4 * x + 65536 * y" using or_add_nat[of "4 * x" 16 y] y by (simp add: or.commute)
    moreover have "(4 * x + y) div 4 mod 16384 = x" "(4 * x + y) mod 4 = y" using y by simp_all
    moreover have "push_bit 16 y = 65536 * y" by (simp add: push_bit_eq_mult)
    ultimately have "(4 * x + y AND 65532) OR push_bit 16 (4 * x + y AND 3) = 4 * x + 65536 * y"
      by (simp only: and65532_nat and3_nat)
    moreover have "unat (ld16 buf' (d + 4)) = 4 * x + y" using assms(2) u by (simp add: b ld16_st16)
    moreover have "\<not> blksize fs < 65536" using 3 by simp
    ultimately show ?thesis using n y(4) by (simp only: ext2fs_get_rec_len_def Let_def if_False) simp
  qed
qed

end
