(* ===== verification/Csum.thy ===== *)
theory Csum
  imports Crc Dirent Alloc_Search
begin

text \<open>
  \<^verbatim>\<open>lib/ext2fs/csum.c\<close>: the checksums in the structures of the file system. A structure is its bytes, as they are on the disk; the host is
  little-endian, so that the conversions of the code do nothing. \<open>gen\<close> gives the generation of an inode, or the
  error of \<^verbatim>\<open>ext2fs_read_inode\<close>.
\<close>

unbundle bit_operations_syntax

section \<open>Bytes\<close>

definition bytes32 :: "u32 \<Rightarrow> u8 list" where
  "bytes32 v = [ucast v, ucast (drop_bit 8 v), ucast (drop_bit 16 v), ucast (drop_bit 24 v)]"

definition bytes64 :: "u64 \<Rightarrow> u8 list" where
  "bytes64 v = bytes32 (ucast v) @ bytes32 (ucast (drop_bit 32 v))"

text \<open>The default configuration of the checksum, on an aligned buffer.\<close>

abbreviation crc32c :: "u32 \<Rightarrow> u8 list \<Rightarrow> u32" where
  "crc32c \<equiv> ext2fs_crc32c_le 64 0"

type_synonym inode_gen = "u32 \<Rightarrow> errcode + u32"

definition has_metadata_csum :: "ext2_filsys \<Rightarrow> bool" where
  "has_metadata_csum fs \<longleftrightarrow> s_feature_ro_compat (fs_super fs) AND 0x0400 \<noteq> 0"

section \<open>MMP block, superblock, attribute block, extent block\<close>

definition ext2fs_mmp_csum :: "ext2_filsys \<Rightarrow> u8 list \<Rightarrow> u32" where
  "ext2fs_mmp_csum fs mmp = crc32c (fs_csum_seed fs) (take 1020 mmp)"

definition ext2fs_mmp_csum_verify :: "ext2_filsys \<Rightarrow> u8 list \<Rightarrow> bool" where
  "ext2fs_mmp_csum_verify fs mmp \<longleftrightarrow> \<not> has_metadata_csum fs \<or> ld32 mmp 1020 = ext2fs_mmp_csum fs mmp"

definition ext2fs_mmp_csum_set :: "ext2_filsys \<Rightarrow> u8 list \<Rightarrow> u8 list" where
  "ext2fs_mmp_csum_set fs mmp = (if \<not> has_metadata_csum fs then mmp else st32 mmp 1020 (ext2fs_mmp_csum fs mmp))"

definition ext2fs_verify_csum_type :: "ext2_filsys \<Rightarrow> ext2_super_block \<Rightarrow> bool" where
  "ext2fs_verify_csum_type fs sb \<longleftrightarrow> \<not> has_metadata_csum fs \<or> s_checksum_type sb = 1"

definition ext2fs_superblock_csum :: "ext2_filsys \<Rightarrow> u8 list \<Rightarrow> u32" where
  "ext2fs_superblock_csum fs sb = crc32c (NOT 0) (take 1020 sb)"

definition ext2fs_superblock_csum_verify :: "ext2_filsys \<Rightarrow> u8 list \<Rightarrow> bool" where
  "ext2fs_superblock_csum_verify fs sb \<longleftrightarrow> \<not> has_metadata_csum fs \<or> ld32 sb 1020 = ext2fs_superblock_csum fs sb"

definition ext2fs_superblock_csum_set :: "ext2_filsys \<Rightarrow> u8 list \<Rightarrow> u8 list" where
  "ext2fs_superblock_csum_set fs sb = (if \<not> has_metadata_csum fs then sb else st32 sb 1020 (ext2fs_superblock_csum fs sb))"

definition ext2fs_ext_attr_block_csum :: "ext2_filsys \<Rightarrow> u64 \<Rightarrow> u8 list \<Rightarrow> u32" where
  "ext2fs_ext_attr_block_csum fs block hdr =
     crc32c (crc32c (fs_csum_seed fs) (bytes64 block)) (take (unat (fs_blocksize fs)) (st32 hdr 16 0))"

definition ext2fs_ext_attr_block_csum_verify :: "ext2_filsys \<Rightarrow> u64 \<Rightarrow> u8 list \<Rightarrow> bool" where
  "ext2fs_ext_attr_block_csum_verify fs block hdr \<longleftrightarrow>
     \<not> has_metadata_csum fs \<or> ld32 hdr 16 = ext2fs_ext_attr_block_csum fs block hdr"

definition ext2fs_ext_attr_block_csum_set :: "ext2_filsys \<Rightarrow> u64 \<Rightarrow> u8 list \<Rightarrow> u8 list" where
  "ext2fs_ext_attr_block_csum_set fs block hdr =
     (if \<not> has_metadata_csum fs then hdr else st32 hdr 16 (ext2fs_ext_attr_block_csum fs block hdr))"

text \<open>The checksum of an extent block follows the \<open>eh_max\<close> entries of the node.\<close>

definition EXT3_EXTENT_TAIL_OFFSET :: "u8 list \<Rightarrow> nat" where
  "EXT3_EXTENT_TAIL_OFFSET eh = 12 + 12 * unat (ld16 eh 4)"

definition ext2fs_extent_block_csum :: "ext2_filsys \<Rightarrow> inode_gen \<Rightarrow> u32 \<Rightarrow> u8 list \<Rightarrow> errcode + u32" where
  "ext2fs_extent_block_csum fs gen inum eh =
     (case gen inum of
        Inl e \<Rightarrow> Inl e
      | Inr g \<Rightarrow> Inr (crc32c (crc32c (crc32c (fs_csum_seed fs) (bytes32 inum)) (bytes32 g)) (take (EXT3_EXTENT_TAIL_OFFSET eh) eh)))"

definition ext2fs_extent_block_csum_verify :: "ext2_filsys \<Rightarrow> inode_gen \<Rightarrow> u32 \<Rightarrow> u8 list \<Rightarrow> bool" where
  "ext2fs_extent_block_csum_verify fs gen inum eh \<longleftrightarrow>
     \<not> has_metadata_csum fs \<or> ext2fs_extent_block_csum fs gen inum eh = Inr (ld32 eh (EXT3_EXTENT_TAIL_OFFSET eh))"

definition ext2fs_extent_block_csum_set :: "ext2_filsys \<Rightarrow> inode_gen \<Rightarrow> u32 \<Rightarrow> u8 list \<Rightarrow> errcode + u8 list" where
  "ext2fs_extent_block_csum_set fs gen inum eh =
     (if \<not> has_metadata_csum fs then Inr eh
      else map_sum id (st32 eh (EXT3_EXTENT_TAIL_OFFSET eh)) (ext2fs_extent_block_csum fs gen inum eh))"

section \<open>Bitmaps\<close>

text \<open>The two bitmaps differ in the fields of the descriptor and in the descriptor size from which the upper half is used.\<close>

definition bitmap_csum_verify :: "nat \<Rightarrow> nat \<Rightarrow> u16 \<Rightarrow> ext2_filsys \<Rightarrow> u32 \<Rightarrow> u8 list \<Rightarrow> nat \<Rightarrow> bool" where
  "bitmap_csum_verify lo hi hi_size fs grp bitmap bm_size \<longleftrightarrow>
     (if \<not> has_metadata_csum fs then True
      else
        let gdp = ext2fs_group_desc fs grp;
            provided = ucast (ld16 (fs_group_desc fs) (gdp + lo)) :: u32;
            calculated = crc32c (fs_csum_seed fs) (take bm_size bitmap);
            wide = s_desc_size (fs_super fs) \<ge> hi_size
        in (if wide then provided OR push_bit 16 (ucast (ld16 (fs_group_desc fs) (gdp + hi))) else provided) =
           (if wide then calculated else calculated AND 0xFFFF))"

definition bitmap_csum_set :: "nat \<Rightarrow> nat \<Rightarrow> u16 \<Rightarrow> ext2_filsys \<Rightarrow> u32 \<Rightarrow> u8 list \<Rightarrow> nat \<Rightarrow> ext2_filsys" where
  "bitmap_csum_set lo hi hi_size fs grp bitmap bm_size =
     (if \<not> has_metadata_csum fs then fs
      else
        let gdp = ext2fs_group_desc fs grp; crc = crc32c (fs_csum_seed fs) (take bm_size bitmap);
            fs = with_desc fs (st16 (fs_group_desc fs) (gdp + lo) (ucast (crc AND 0xFFFF)))
        in if s_desc_size (fs_super fs) \<ge> hi_size
           then with_desc fs (st16 (fs_group_desc fs) (gdp + hi) (ucast (drop_bit 16 crc))) else fs)"

definition ext2fs_inode_bitmap_csum_verify :: "ext2_filsys \<Rightarrow> u32 \<Rightarrow> u8 list \<Rightarrow> nat \<Rightarrow> bool" where
  "ext2fs_inode_bitmap_csum_verify = bitmap_csum_verify 26 58 60"

definition ext2fs_inode_bitmap_csum_set :: "ext2_filsys \<Rightarrow> u32 \<Rightarrow> u8 list \<Rightarrow> nat \<Rightarrow> ext2_filsys" where
  "ext2fs_inode_bitmap_csum_set = bitmap_csum_set 26 58 60"

definition ext2fs_block_bitmap_csum_verify :: "ext2_filsys \<Rightarrow> u32 \<Rightarrow> u8 list \<Rightarrow> nat \<Rightarrow> bool" where
  "ext2fs_block_bitmap_csum_verify = bitmap_csum_verify 24 56 58"

definition ext2fs_block_bitmap_csum_set :: "ext2_filsys \<Rightarrow> u32 \<Rightarrow> u8 list \<Rightarrow> nat \<Rightarrow> ext2_filsys" where
  "ext2fs_block_bitmap_csum_set = bitmap_csum_set 24 56 58"

section \<open>Inodes\<close>

definition EXT2_INODE_SIZE :: "ext2_super_block \<Rightarrow> u16" where
  "EXT2_INODE_SIZE s = (if s_rev_level s = 0 then 128 else s_inode_size s)"

definition ext2fs_inode_csum :: "ext2_filsys \<Rightarrow> u32 \<Rightarrow> u8 list \<Rightarrow> bool \<Rightarrow> u32" where
  "ext2fs_inode_csum fs inum inode has_hi =
     (let desc = st16 inode 124 0; desc = (if has_hi then st16 desc 130 0 else desc)
      in crc32c (crc32c (crc32c (fs_csum_seed fs) (bytes32 inum)) (take 4 (drop 100 inode)))
           (take (unat (s_inode_size (fs_super fs))) desc))"

definition inode_has_hi :: "ext2_filsys \<Rightarrow> u8 list \<Rightarrow> bool" where
  "inode_has_hi fs inode \<longleftrightarrow> EXT2_INODE_SIZE (fs_super fs) > 128 \<and> ld16 inode 128 \<ge> 4"

definition ext2fs_inode_csum_verify :: "ext2_filsys \<Rightarrow> u32 \<Rightarrow> u8 list \<Rightarrow> bool" where
  "ext2fs_inode_csum_verify fs inum inode \<longleftrightarrow>
     (if s_creator_os (fs_super fs) \<noteq> 0 \<or> \<not> has_metadata_csum fs then True
      else
        let has_hi = inode_has_hi fs inode; provided = ucast (ld16 inode 124) :: u32;
            calculated = ext2fs_inode_csum fs inum inode has_hi
        in (if has_hi then provided OR push_bit 16 (ucast (ld16 inode 130)) else provided) =
             (if has_hi then calculated else calculated AND 0xFFFF) \<or>
           list_all (\<lambda>b. b = 0) (take 128 inode))"

definition ext2fs_inode_csum_set :: "ext2_filsys \<Rightarrow> u32 \<Rightarrow> u8 list \<Rightarrow> u8 list" where
  "ext2fs_inode_csum_set fs inum inode =
     (if s_creator_os (fs_super fs) \<noteq> 0 \<or> \<not> has_metadata_csum fs then inode
      else
        let has_hi = inode_has_hi fs inode; crc = ext2fs_inode_csum fs inum inode has_hi;
            inode = st16 inode 124 (ucast (crc AND 0xFFFF))
        in if has_hi then st16 inode 130 (ucast (drop_bit 16 crc)) else inode)"

section \<open>Directory blocks\<close>

text \<open>
  A leaf block ends with a false entry of 12 bytes that holds the checksum; a block of the hash tree has it after its
  \<open>limit\<close> entries.
\<close>

definition EXT2_DIRENT_TAIL :: "ext2_filsys \<Rightarrow> nat" where
  "EXT2_DIRENT_TAIL fs = blksize fs - 12"

definition get_dx_countlimit :: "ext2_filsys \<Rightarrow> u8 list \<Rightarrow> errcode + nat" where
  "get_dx_countlimit fs blk =
     (let rec_len = unat (ld16 blk 4);
          found = (if rec_len = blksize fs \<and> ld16 blk 6 = 0 then Inr 8
                   else if rec_len = 12 then
                     if unat (ld16 blk 16) \<noteq> blksize fs - 12 then Inl EXT2_ET_DB_NOT_FOUND
                     else if ld32 blk 24 \<noteq> 0 \<or> blk ! 29 \<noteq> 8 then Inl EXT2_ET_DB_NOT_FOUND
                     else Inr 32
                   else Inl EXT2_ET_DB_NOT_FOUND)
      in case found of
           Inl e \<Rightarrow> Inl e
         | Inr count_offset \<Rightarrow>
             let max_sane_entries = (blksize fs - count_offset) div 8
             in if unat (ld16 blk count_offset) > max_sane_entries \<or> unat (ld16 blk (count_offset + 2)) > max_sane_entries
                then Inl EXT2_ET_DIR_NO_SPACE_FOR_CSUM else Inr count_offset)"

definition ext2fs_initialize_dirent_tail :: "ext2_filsys \<Rightarrow> u8 list \<Rightarrow> nat \<Rightarrow> u8 list" where
  "ext2fs_initialize_dirent_tail fs buf t =
     (let buf = st32 (st32 (st32 buf t 0) (t + 4) 0) (t + 8) 0;
          buf = (case ext2fs_set_rec_len fs 12 buf t of Inr b \<Rightarrow> b | Inl _ \<Rightarrow> buf)
      in st16 buf (t + 6) 0xDE00)"

text \<open>The walk over the record lengths to the place of the tail, and the test of what is there.\<close>

function tail_walk :: "nat \<Rightarrow> u8 list \<Rightarrow> nat \<Rightarrow> nat" where
  "tail_walk tail blk d =
     (let rec_len = ld16 blk (d + 4)
      in if rec_len \<noteq> 0 \<and> rec_len AND 3 = 0 then
           let d = d + unat rec_len in if d \<ge> tail then d else tail_walk tail blk d
         else d)"
  by pat_completeness auto

termination
proof (relation "measure (\<lambda>(tail, _, d). tail - d)", goal_cases)
  case (2 tail blk d r d')
  then have "0 < unat r" by (simp add: unat_gt_0)
  with 2 show ?case by simp
qed simp

declare tail_walk.simps [simp del]

definition get_dirent_tail :: "ext2_filsys \<Rightarrow> u8 list \<Rightarrow> errcode + nat" where
  "get_dirent_tail fs blk =
     (let tail = EXT2_DIRENT_TAIL fs; d = tail_walk tail blk 0
      in if d \<noteq> tail then Inl EXT2_ET_DIR_NO_SPACE_FOR_CSUM
         else if ld32 blk d \<noteq> 0 \<or> ld16 blk (d + 4) \<noteq> 12 \<or> ld16 blk (d + 6) \<noteq> 0xDE00 then Inl EXT2_ET_DIR_NO_SPACE_FOR_CSUM
         else Inr d)"

definition ext2fs_dirent_has_tail :: "ext2_filsys \<Rightarrow> u8 list \<Rightarrow> bool" where
  "ext2fs_dirent_has_tail fs blk \<longleftrightarrow> (case get_dirent_tail fs blk of Inl _ \<Rightarrow> False | Inr _ \<Rightarrow> True)"

definition ext2fs_dirent_csum :: "ext2_filsys \<Rightarrow> inode_gen \<Rightarrow> u32 \<Rightarrow> u8 list \<Rightarrow> nat \<Rightarrow> errcode + u32" where
  "ext2fs_dirent_csum fs gen inum blk n =
     (case gen inum of
        Inl e \<Rightarrow> Inl e
      | Inr g \<Rightarrow> Inr (crc32c (crc32c (crc32c (fs_csum_seed fs) (bytes32 inum)) (bytes32 g)) (take n blk)))"

definition ext2fs_dirent_csum_verify :: "ext2_filsys \<Rightarrow> inode_gen \<Rightarrow> u32 \<Rightarrow> u8 list \<Rightarrow> bool" where
  "ext2fs_dirent_csum_verify fs gen inum blk \<longleftrightarrow>
     (case get_dirent_tail fs blk of
        Inl _ \<Rightarrow> True
      | Inr t \<Rightarrow> (case ext2fs_dirent_csum fs gen inum blk t of Inl _ \<Rightarrow> False | Inr c \<Rightarrow> ld32 blk (t + 8) = c))"

definition ext2fs_dirent_csum_set :: "ext2_filsys \<Rightarrow> inode_gen \<Rightarrow> u32 \<Rightarrow> u8 list \<Rightarrow> errcode + u8 list" where
  "ext2fs_dirent_csum_set fs gen inum blk =
     (case get_dirent_tail fs blk of
        Inl e \<Rightarrow> Inl e
      | Inr t \<Rightarrow> map_sum id (st32 blk (t + 8)) (ext2fs_dirent_csum fs gen inum blk t))"

text \<open>The checksum field is cleared for the calculation and not put back when the inode cannot be read.\<close>

definition ext2fs_dx_csum :: "ext2_filsys \<Rightarrow> inode_gen \<Rightarrow> u32 \<Rightarrow> u8 list \<Rightarrow> nat \<Rightarrow> nat \<Rightarrow> nat \<Rightarrow> (errcode + u32) \<times> u8 list" where
  "ext2fs_dx_csum fs gen inum blk count_offset count t =
     (let n = count_offset + count * 8; old_csum = ld32 blk (t + 4); blk = st32 blk (t + 4) 0
      in case gen inum of
           Inl e \<Rightarrow> (Inl e, blk)
         | Inr g \<Rightarrow>
             (Inr (crc32c (crc32c (crc32c (crc32c (fs_csum_seed fs) (bytes32 inum)) (bytes32 g)) (take n blk)) (take 8 (drop t blk))),
              st32 blk (t + 4) old_csum))"

definition ext2fs_dx_csum_verify :: "ext2_filsys \<Rightarrow> inode_gen \<Rightarrow> u32 \<Rightarrow> u8 list \<Rightarrow> bool \<times> u8 list" where
  "ext2fs_dx_csum_verify fs gen inum blk =
     (case get_dx_countlimit fs blk of
        Inl _ \<Rightarrow> (True, blk)
      | Inr count_offset \<Rightarrow>
          let limit = unat (ld16 blk count_offset); count = unat (ld16 blk (count_offset + 2)); t = count_offset + limit * 8
          in if t > blksize fs - 8 then (False, blk)
             else
               let (r, blk) = ext2fs_dx_csum fs gen inum blk count_offset count t
               in (case r of Inl _ \<Rightarrow> False | Inr c \<Rightarrow> ld32 blk (t + 4) = c, blk))"

definition ext2fs_dx_csum_set :: "ext2_filsys \<Rightarrow> inode_gen \<Rightarrow> u32 \<Rightarrow> u8 list \<Rightarrow> errcode option \<times> u8 list" where
  "ext2fs_dx_csum_set fs gen inum blk =
     (case get_dx_countlimit fs blk of
        Inl e \<Rightarrow> (Some e, blk)
      | Inr count_offset \<Rightarrow>
          let limit = unat (ld16 blk count_offset); count = unat (ld16 blk (count_offset + 2)); t = count_offset + limit * 8
          in if t > blksize fs - 8 then (Some EXT2_ET_DIR_NO_SPACE_FOR_CSUM, blk)
             else
               let (r, blk) = ext2fs_dx_csum fs gen inum blk count_offset count t
               in case r of Inl e \<Rightarrow> (Some e, blk) | Inr c \<Rightarrow> (None, st32 blk (t + 4) c))"

definition ext2fs_dir_block_csum_verify :: "ext2_filsys \<Rightarrow> inode_gen \<Rightarrow> u32 \<Rightarrow> u8 list \<Rightarrow> bool \<times> u8 list" where
  "ext2fs_dir_block_csum_verify fs gen inum blk =
     (if \<not> has_metadata_csum fs then (True, blk)
      else if ext2fs_dirent_has_tail fs blk then (ext2fs_dirent_csum_verify fs gen inum blk, blk)
      else case get_dx_countlimit fs blk of
             Inr _ \<Rightarrow> ext2fs_dx_csum_verify fs gen inum blk
           | Inl _ \<Rightarrow> (False, blk))"

definition ext2fs_dir_block_csum_set :: "ext2_filsys \<Rightarrow> inode_gen \<Rightarrow> u32 \<Rightarrow> u8 list \<Rightarrow> errcode option \<times> u8 list" where
  "ext2fs_dir_block_csum_set fs gen inum blk =
     (if \<not> has_metadata_csum fs then (None, blk)
      else if ext2fs_dirent_has_tail fs blk then
        case ext2fs_dirent_csum_set fs gen inum blk of Inl e \<Rightarrow> (Some e, blk) | Inr blk \<Rightarrow> (None, blk)
      else case get_dx_countlimit fs blk of
             Inr _ \<Rightarrow> ext2fs_dx_csum_set fs gen inum blk
           | Inl _ \<Rightarrow> (if fs_flag_ignore_csum_errors fs then None else Some EXT2_ET_DIR_NO_SPACE_FOR_CSUM, blk))"

section \<open>Group descriptors\<close>

definition desc_bytes :: "ext2_filsys \<Rightarrow> u32 \<Rightarrow> u8 list" where
  "desc_bytes fs grp = take (unat (EXT2_DESC_SIZE (fs_super fs))) (drop (ext2fs_group_desc fs grp) (fs_group_desc fs))"

definition ext2fs_group_desc_csum :: "ext2_filsys \<Rightarrow> u32 \<Rightarrow> u16" where
  "ext2fs_group_desc_csum fs grp =
     (let desc = desc_bytes fs grp
      in if has_metadata_csum fs then
           ucast (crc32c (crc32c (fs_csum_seed fs) (bytes32 grp)) (st16 desc 30 0) AND 0xFFFF)
         else
           let crc = ext2fs_crc16 (NOT 0) (s_uuid (fs_super fs));
               crc = ext2fs_crc16 crc (bytes32 grp);
               crc = ext2fs_crc16 crc (take 30 desc)
           in if 32 < unat (EXT2_DESC_SIZE (fs_super fs)) then ext2fs_crc16 crc (drop 32 desc) else crc)"

definition ext2fs_group_desc_csum_verify :: "ext2_filsys \<Rightarrow> u32 \<Rightarrow> bool" where
  "ext2fs_group_desc_csum_verify fs grp \<longleftrightarrow>
     \<not> (ext2fs_has_group_desc_csum fs \<and> ext2fs_bg_checksum fs grp \<noteq> ext2fs_group_desc_csum fs grp)"

text \<open>
  The last inode of a group that is in use, counted from 1, or the size of the group; \<open>i\<close> runs downwards.
\<close>

partial_function (option) find_last_loop :: "('p, 'm) bitmap_ops \<Rightarrow> 'p bitmap_ptr \<Rightarrow> u32 \<Rightarrow> u32 \<Rightarrow> u32 \<Rightarrow> (u32 \<times> 'p bitmap_ptr) option" where
  "find_last_loop ops mp inodes_per_grp start_ino i =
     (if i \<ge> start_ino then
        let (r, mp) = ext2fs_test_generic_bmap ops mp (ucast i)
        in if r \<noteq> 0 then Some (i - start_ino + 1, mp) else find_last_loop ops mp inodes_per_grp start_ino (i - 1)
      else Some (inodes_per_grp, mp))"

declare find_last_loop.simps [code]

definition find_last_inode_ingrp :: "('p, 'm) bitmap_ops \<Rightarrow> 'p bitmap_ptr \<Rightarrow> u32 \<Rightarrow> u32 \<Rightarrow> (u32 \<times> 'p bitmap_ptr) option" where
  "find_last_inode_ingrp ops mp inodes_per_grp grp_no =
     (let start_ino = grp_no * inodes_per_grp + 1 in find_last_loop ops mp inodes_per_grp start_ino (start_ino + inodes_per_grp - 1))"

text \<open>One group of the loop of \<^verbatim>\<open>ext2fs_set_gdt_csum\<close>, and the loop; the second component is \<^verbatim>\<open>dirty\<close>.\<close>

definition set_gdt_csum_group :: "('p, 'm) bitmap_ops \<Rightarrow> gd_csum \<Rightarrow> 'p alloc_fs \<Rightarrow> u32 \<Rightarrow> ('p alloc_fs \<times> bool) option" where
  "set_gdt_csum_group ops csum af i =
     (let fs0 = af_fs af; sb = fs_super fs0; ipg = s_inodes_per_group sb;
          fs = (if ext2fs_bg_free_blocks_count fs0 i = s_blocks_per_group sb \<and> i \<noteq> fs_group_desc_count fs0 - 1
                then ext2fs_bg_flags_set fs0 i EXT2_BG_BLOCK_UNINIT else fs0);
          inodes = (if ext2fs_bg_free_inodes_count fs0 i = ipg then
                      Some (ext2fs_bg_itable_unused_set (ext2fs_bg_flags_set fs i EXT2_BG_INODE_UNINIT) i ipg, af_inode_map af)
                    else
                      map_option
                        (\<lambda>(n, mp). (ext2fs_bg_itable_unused_set (ext2fs_bg_flags_clear fs i EXT2_BG_INODE_UNINIT) i (ipg - n), mp))
                        (find_last_inode_ingrp ops (af_inode_map af) ipg i))
      in map_option
           (\<lambda>(fs, mp).
              let fs = ext2fs_group_desc_csum_set csum fs i
              in (af\<lparr>af_fs := fs, af_inode_map := mp\<rparr>,
                  ext2fs_bg_flags fs0 i \<noteq> ext2fs_bg_flags fs i \<or> ext2fs_bg_itable_unused fs0 i \<noteq> ext2fs_bg_itable_unused fs i \<or>
                  ext2fs_bg_checksum fs0 i \<noteq> ext2fs_bg_checksum fs i))
           inodes)"

fun set_gdt_csum_loop :: "('p, 'm) bitmap_ops \<Rightarrow> gd_csum \<Rightarrow> nat \<Rightarrow> u32 \<Rightarrow> 'p alloc_fs \<times> bool \<Rightarrow> ('p alloc_fs \<times> bool) option" where
  "set_gdt_csum_loop ops csum 0 i st = Some st"
| "set_gdt_csum_loop ops csum (Suc n) i (af, dirty) =
     Option.bind (set_gdt_csum_group ops csum af i)
       (\<lambda>(af, d). set_gdt_csum_loop ops csum n (i + 1) (af, dirty \<or> d))"

definition ext2fs_set_gdt_csum :: "('p, 'm) bitmap_ops \<Rightarrow> gd_csum \<Rightarrow> 'p alloc_fs \<Rightarrow> (errcode option \<times> 'p alloc_fs) option" where
  "ext2fs_set_gdt_csum ops csum af =
     (if af_inode_map af = None then Some (Some EXT2_ET_NO_INODE_BITMAP, af)
      else if \<not> ext2fs_has_group_desc_csum (af_fs af) then Some (None, af)
      else map_option (\<lambda>(af, dirty). (None, if dirty then af\<lparr>af_fs := ext2fs_mark_super_dirty (af_fs af)\<rparr> else af))
             (set_gdt_csum_loop ops csum (unat (fs_group_desc_count (af_fs af))) 0 (af, False)))"

section \<open>Fields and checksums\<close>

lemma take_st16 [simp]: "n \<le> p \<Longrightarrow> take n (st16 b p v) = take n b"
  by (simp add: st16_def)

lemma take_st32 [simp]: "n \<le> p \<Longrightarrow> take n (st32 b p v) = take n b"
  by (simp add: st32_def)

lemma nth_st16: "i < length b \<Longrightarrow> st16 b p v ! i = (if i = p then ucast v else if i = p + 1 then ucast (drop_bit 8 v) else b ! i)"
  by (simp add: st16_def nth_list_update)

lemma nth_st16_other [simp]: "i < p \<or> p + 1 < i \<Longrightarrow> st16 b p v ! i = b ! i"
  by (auto simp: st16_def nth_list_update)

lemma nth_st32_other [simp]: "i < p \<or> p + 3 < i \<Longrightarrow> st32 b p v ! i = b ! i"
  by (auto simp: st32_def)

lemma st16_absorb [simp]: "st16 (st16 b p v) p w = st16 b p w"
  by (rule nth_equalityI) (simp_all add: nth_st16)

lemma st16_swap: "p + 2 \<le> q \<or> q + 2 \<le> p \<Longrightarrow> st16 (st16 b p v) q w = st16 (st16 b q w) p v"
  by (rule nth_equalityI) (auto simp: nth_st16)

lemma st32_absorb [simp]: "st32 (st32 b p v) p w = st32 b p w"
  by (rule nth_equalityI) (simp_all add: st32_def nth_st16)

lemma drop_take_st16: "p + 2 \<le> d \<or> d + n \<le> p \<Longrightarrow> take n (drop d (st16 b p v)) = take n (drop d b)"
  by (rule nth_equalityI) auto

lemma and_0xFFFF: "(c :: u32) AND 0xFFFF = take_bit 16 c"
  by (simp add: take_bit_eq_mask mask_eq_exp_minus_1)

lemma low16 [simp]: "ucast (ucast (c AND 0xFFFF) :: u16) = (c :: u32) AND 0xFFFF"
  unfolding and_0xFFFF by (rule bit_word_eqI) (auto simp: bit_take_bit_iff bit_unsigned_iff)

lemma join16 [simp]: "c AND 0xFFFF OR push_bit 16 (ucast (ucast (drop_bit 16 c) :: u16)) = (c :: u32)"
  unfolding and_0xFFFF by (rule bit_word_eqI) (auto simp: bit_take_bit_iff bit_or_iff bit_push_bit_iff bit_drop_bit_eq bit_unsigned_iff)

lemma ld_halves:
  "ucast (ld16 b p) = b ! p" "ucast (drop_bit 8 (ld16 b p)) = b ! (p + 1)"
  "ucast (ld32 b p) = ld16 b p" "ucast (drop_bit 16 (ld32 b p)) = ld16 b (p + 2)"
  by (rule bit_word_eqI; auto simp: ld16_def ld32_def bit_or_iff bit_push_bit_iff bit_drop_bit_eq bit_unsigned_iff dest: bit_imp_le_length)+

lemma st16_same: "st16 b p (ld16 b p) = b"
  by (simp only: st16_def ld_halves list_update_id)

lemma st32_same: "st32 b p (ld32 b p) = b"
  by (simp only: st32_def ld_halves st16_same)

section \<open>What is set is verified\<close>

lemma mmp_csum_holds: "1024 \<le> length mmp \<Longrightarrow> ext2fs_mmp_csum_verify fs (ext2fs_mmp_csum_set fs mmp)"
  by (simp add: ext2fs_mmp_csum_verify_def ext2fs_mmp_csum_set_def ext2fs_mmp_csum_def ld32_st32)

lemma superblock_csum_holds: "1024 \<le> length sb \<Longrightarrow> ext2fs_superblock_csum_verify fs (ext2fs_superblock_csum_set fs sb)"
  by (simp add: ext2fs_superblock_csum_verify_def ext2fs_superblock_csum_set_def ext2fs_superblock_csum_def ld32_st32)

lemma ext_attr_csum_holds:
  "20 \<le> length hdr \<Longrightarrow> ext2fs_ext_attr_block_csum_verify fs block (ext2fs_ext_attr_block_csum_set fs block hdr)"
  by (simp add: ext2fs_ext_attr_block_csum_verify_def ext2fs_ext_attr_block_csum_set_def ext2fs_ext_attr_block_csum_def ld32_st32)

lemma extent_csum_holds:
  assumes "ext2fs_extent_block_csum_set fs gen inum eh = Inr eh'" "EXT3_EXTENT_TAIL_OFFSET eh + 4 \<le> length eh"
  shows "ext2fs_extent_block_csum_verify fs gen inum eh'"
proof (cases "has_metadata_csum fs")
  case True
  then obtain g c where g: "gen inum = Inr g" and eh': "eh' = st32 eh (EXT3_EXTENT_TAIL_OFFSET eh) c"
    and c: "ext2fs_extent_block_csum fs gen inum eh = Inr c"
    using assms(1) by (auto simp: ext2fs_extent_block_csum_set_def ext2fs_extent_block_csum_def split: sum.splits)
  have "6 \<le> EXT3_EXTENT_TAIL_OFFSET eh" by (simp add: EXT3_EXTENT_TAIL_OFFSET_def)
  then have "EXT3_EXTENT_TAIL_OFFSET eh' = EXT3_EXTENT_TAIL_OFFSET eh"
    unfolding eh' by (simp add: EXT3_EXTENT_TAIL_OFFSET_def ld16_st32_other)
  then show ?thesis
    using assms(2) c by (simp add: ext2fs_extent_block_csum_verify_def ext2fs_extent_block_csum_def g eh' ld32_st32)
qed (simp add: ext2fs_extent_block_csum_verify_def)

lemma inode_csum_holds:
  assumes "132 \<le> length inode"
  shows "ext2fs_inode_csum_verify fs inum (ext2fs_inode_csum_set fs inum inode)"
proof -
  have s: "st16 (st16 (st16 (st16 inode 124 a) 130 b) 124 c) 130 d = st16 (st16 inode 124 c) 130 d" for a b c d
    by (simp add: st16_swap[of 130 124])
  note d = ext2fs_inode_csum_verify_def ext2fs_inode_csum_set_def Let_def field_simps_mem
  show ?thesis
  proof (cases "inode_has_hi fs inode")
    case True
    let ?c = "ext2fs_inode_csum fs inum inode True"
    let ?i = "st16 (st16 inode 124 (ucast (?c AND 0xFFFF))) 130 (ucast (drop_bit 16 ?c))"
    have "inode_has_hi fs ?i" using True by (simp add: inode_has_hi_def field_simps_mem)
    moreover have "ext2fs_inode_csum fs inum ?i True = ?c" by (simp add: ext2fs_inode_csum_def s drop_take_st16)
    ultimately show ?thesis using assms True by (simp add: d)
  next
    case False
    let ?c = "ext2fs_inode_csum fs inum inode False"
    let ?i = "st16 inode 124 (ucast (?c AND 0xFFFF))"
    have "\<not> inode_has_hi fs ?i" using False by (simp add: inode_has_hi_def field_simps_mem)
    moreover have "ext2fs_inode_csum fs inum ?i False = ?c" by (simp add: ext2fs_inode_csum_def drop_take_st16)
    ultimately show ?thesis using assms False by (simp add: d)
  qed
qed

lemma tail_walk_cong:
  "d < tail \<Longrightarrow> (\<And>i. i < tail + 6 \<Longrightarrow> blk ! i = blk' ! i) \<Longrightarrow> tail_walk tail blk d = tail_walk tail blk' d"
proof (induction tail blk d rule: tail_walk.induct)
  case (1 tail blk d)
  have "ld16 blk (d + 4) = ld16 blk' (d + 4)" using 1(2) by (simp add: ld16_def 1(3))
  then show ?case
    using 1(1)[OF refl _ refl] 1(3) by (subst (1 2) tail_walk.simps) (auto simp: Let_def)
qed

lemma dirent_tail_cong:
  assumes "12 < blksize fs" "\<And>i. i < blksize fs - 4 \<Longrightarrow> blk ! i = blk' ! i"
  shows "get_dirent_tail fs blk = get_dirent_tail fs blk'"
proof -
  have "tail_walk (EXT2_DIRENT_TAIL fs) blk 0 = tail_walk (EXT2_DIRENT_TAIL fs) blk' 0"
    by (rule tail_walk_cong) (use assms in \<open>auto simp: EXT2_DIRENT_TAIL_def\<close>)
  moreover have "ld32 blk d = ld32 blk' d" "ld16 blk (d + 4) = ld16 blk' (d + 4)" "ld16 blk (d + 6) = ld16 blk' (d + 6)"
    if "d = EXT2_DIRENT_TAIL fs" for d
    using assms that by (simp_all add: EXT2_DIRENT_TAIL_def ld32_def ld16_def)
  ultimately show ?thesis by (simp add: get_dirent_tail_def Let_def)
qed

lemma dirent_tail_place: "get_dirent_tail fs blk = Inr t \<Longrightarrow> t = blksize fs - 12"
  by (simp add: get_dirent_tail_def Let_def EXT2_DIRENT_TAIL_def split: if_splits)

lemma leaf_csum_holds:
  assumes "ext2fs_dirent_csum_set fs gen inum blk = Inr blk'" "length blk = blksize fs" "24 \<le> blksize fs"
  shows "ext2fs_dirent_csum_verify fs gen inum blk' \<and> get_dirent_tail fs blk' = get_dirent_tail fs blk"
proof -
  obtain t where t: "get_dirent_tail fs blk = Inr t" using assms(1) by (auto simp: ext2fs_dirent_csum_set_def split: sum.splits)
  obtain c where c: "ext2fs_dirent_csum fs gen inum blk t = Inr c" and blk': "blk' = st32 blk (t + 8) c"
    using assms(1) t by (cases "ext2fs_dirent_csum fs gen inum blk t") (auto simp: ext2fs_dirent_csum_set_def)
  note p = dirent_tail_place[OF t]
  have same: "get_dirent_tail fs blk' = get_dirent_tail fs blk"
    by (rule dirent_tail_cong) (use assms(3) in \<open>auto simp: blk' p\<close>)
  have "ext2fs_dirent_csum fs gen inum blk' t = Inr c"
    using c by (simp add: ext2fs_dirent_csum_def blk' split: sum.splits)
  then show ?thesis
    using same t assms(2,3) by (simp add: ext2fs_dirent_csum_verify_def blk' p ld32_st32)
qed

lemma dx_countlimit_cong:
  assumes "\<And>i. i < 12 \<or> count_offset = 32 \<and> i < 36 \<Longrightarrow> blk ! i = blk' ! i" "get_dx_countlimit fs blk = Inr count_offset"
  shows "get_dx_countlimit fs blk' = Inr count_offset" "count_offset = 8 \<or> count_offset = 32"
    "ld16 blk' count_offset = ld16 blk count_offset" "ld16 blk' (count_offset + 2) = ld16 blk (count_offset + 2)"
proof -
  show o: "count_offset = 8 \<or> count_offset = 32"
    using assms(2) by (auto simp: get_dx_countlimit_def Let_def split: if_splits)
  have r: "ld16 blk' 4 = ld16 blk 4" "ld16 blk' 6 = ld16 blk 6" by (simp_all add: ld16_def assms(1))
  show c: "ld16 blk' count_offset = ld16 blk count_offset" "ld16 blk' (count_offset + 2) = ld16 blk (count_offset + 2)"
    using o by (auto simp: ld16_def assms(1))
  have x: "ld16 blk' 16 = ld16 blk 16 \<and> ld32 blk' 24 = ld32 blk 24 \<and> blk' ! 29 = blk ! 29" if "count_offset = 32"
    using that by (simp add: ld32_def ld16_def assms(1))
  show "get_dx_countlimit fs blk' = Inr count_offset"
    using assms(2) o c x by (auto simp: get_dx_countlimit_def r Let_def split: if_splits)
qed

lemma dx_no_tail:
  assumes "get_dx_countlimit fs blk = Inr count_offset" "24 < blksize fs"
  shows "\<not> ext2fs_dirent_has_tail fs blk"
proof -
  let ?t = "EXT2_DIRENT_TAIL fs"
  have "unat (ld16 blk 4) = blksize fs \<or> unat (ld16 blk 4) = 12 \<and> unat (ld16 blk 16) = blksize fs - 12"
    using assms(1) by (auto simp: get_dx_countlimit_def Let_def split: if_splits)
  moreover have "tail_walk ?t blk 0 \<noteq> ?t" if "unat (ld16 blk 4) = blksize fs"
    using that assms(2) by (subst tail_walk.simps) (auto simp: Let_def EXT2_DIRENT_TAIL_def)
  moreover have "tail_walk ?t blk 0 \<noteq> ?t" if "ld16 blk 4 = 12" "unat (ld16 blk 16) = blksize fs - 12"
  proof -
    have "tail_walk ?t blk 0 = tail_walk ?t blk 12"
      using that assms(2) by (subst tail_walk.simps) (auto simp: Let_def EXT2_DIRENT_TAIL_def)
    also have "\<dots> \<noteq> ?t"
      using that assms(2) by (subst tail_walk.simps) (auto simp: Let_def EXT2_DIRENT_TAIL_def)
    finally show ?thesis .
  qed
  moreover have "ld16 blk 4 = 12" if "unat (ld16 blk 4) = 12" using that by (metis of_nat_numeral of_nat_unat ucast_id)
  ultimately have "tail_walk ?t blk 0 \<noteq> ?t" by blast
  then show ?thesis by (simp add: ext2fs_dirent_has_tail_def get_dirent_tail_def Let_def)
qed

lemma dx_csum_holds:
  assumes "ext2fs_dx_csum_set fs gen inum blk = (None, blk')" "length blk = blksize fs" "24 < blksize fs"
  shows "ext2fs_dx_csum_verify fs gen inum blk' = (True, blk') \<and> (\<exists>c. get_dx_countlimit fs blk' = Inr c)"
proof -
  obtain co where co: "get_dx_countlimit fs blk = Inr co"
    using assms(1) by (auto simp: ext2fs_dx_csum_set_def split: sum.splits)
  define t count where "t = co + unat (ld16 blk co) * 8" and "count = unat (ld16 blk (co + 2))"
  have t: "t \<le> blksize fs - 8" using assms(1) by (auto simp: ext2fs_dx_csum_set_def co t_def Let_def split: if_splits)
  obtain g where g: "gen inum = Inr g"
    using assms(1) t by (auto simp: ext2fs_dx_csum_set_def ext2fs_dx_csum_def co Let_def t_def split: sum.splits)
  define z where "z = st32 blk (t + 4) 0"
  define c where "c = crc32c (crc32c (crc32c (crc32c (fs_csum_seed fs) (bytes32 inum)) (bytes32 g)) (take (co + count * 8) z)) (take 8 (drop t z))"
  have b: "blk' = st32 blk (t + 4) c"
    using assms(1) t unfolding c_def z_def count_def by (simp add: ext2fs_dx_csum_set_def ext2fs_dx_csum_def co g Let_def flip: t_def)
  have co': "co = 8 \<or> co = 32" by (rule dx_countlimit_cong(2)[OF _ co]) simp
  have same: "blk ! i = blk' ! i" if "i < 12 \<or> co = 32 \<and> i < 36" for i
    using that co' by (auto simp: b t_def)
  note cong = dx_countlimit_cong[OF same co]
  have z': "st32 blk' (t + 4) 0 = z" by (simp add: b z_def)
  have l: "ld32 blk' (t + 4) = c" using t assms(2,3) by (simp add: b ld32_st32)
  have "ext2fs_dx_csum fs gen inum blk' co count t = (Inr c, blk')"
  proof -
    have "st32 z (t + 4) c = blk'" by (simp add: z_def b)
    then show ?thesis by (simp only: ext2fs_dx_csum_def Let_def g z' l sum.case c_def[symmetric])
  qed
  moreover have "co + unat (ld16 blk' co) * 8 = t" "unat (ld16 blk' (co + 2)) = count" by (simp_all only: cong(3,4) t_def count_def)
  ultimately show ?thesis using t l by (simp only: ext2fs_dx_csum_verify_def cong(1) Let_def sum.case) simp
qed

lemma dir_block_csum_holds:
  assumes "ext2fs_dir_block_csum_set fs gen inum blk = (None, blk')" "length blk = blksize fs" "24 < blksize fs" "blksize fs mod 4 = 0"
    and "\<not> fs_flag_ignore_csum_errors fs"
  shows "ext2fs_dir_block_csum_verify fs gen inum blk' = (True, blk')"
proof (cases "has_metadata_csum fs")
  case True
  show ?thesis
  proof (cases "ext2fs_dirent_has_tail fs blk")
    case t: True
    then obtain b where "ext2fs_dirent_csum_set fs gen inum blk = Inr b" "blk' = b"
      using assms(1) True by (auto simp: ext2fs_dir_block_csum_set_def split: sum.splits)
    then show ?thesis
      using leaf_csum_holds[of fs gen inum blk blk'] assms(2,3) True t
      by (simp add: ext2fs_dir_block_csum_verify_def ext2fs_dirent_has_tail_def)
  next
    case False
    then have "ext2fs_dx_csum_set fs gen inum blk = (None, blk')"
      using assms(1,5) True by (auto simp: ext2fs_dir_block_csum_set_def split: sum.splits if_splits)
    then obtain c where "ext2fs_dx_csum_verify fs gen inum blk' = (True, blk')" "get_dx_countlimit fs blk' = Inr c"
      using dx_csum_holds assms(2,3) by blast
    then show ?thesis using dx_no_tail[of fs blk' c] assms(3,4) True by (simp add: ext2fs_dir_block_csum_verify_def)
  qed
next
  case False
  then show ?thesis using assms(1) by (simp add: ext2fs_dir_block_csum_verify_def)
qed

text \<open>C19: The checksum that a set function stores is the one its verify function accepts: for the MMP block, the superblock, an attribute
  block, an inode with or without the upper half of the checksum, and an extent block, when its inode can be read.\<close>

theorem csum_set_verifies:
  assumes "1024 \<le> length mmp" "1024 \<le> length sb" "20 \<le> length hdr" "132 \<le> length inode"
    and "EXT3_EXTENT_TAIL_OFFSET eh + 4 \<le> length eh" "ext2fs_extent_block_csum_set fs gen inum eh = Inr eh'"
  shows "ext2fs_mmp_csum_verify fs (ext2fs_mmp_csum_set fs mmp) \<and> ext2fs_superblock_csum_verify fs (ext2fs_superblock_csum_set fs sb) \<and>
    ext2fs_ext_attr_block_csum_verify fs block (ext2fs_ext_attr_block_csum_set fs block hdr) \<and>
    ext2fs_inode_csum_verify fs inum (ext2fs_inode_csum_set fs inum inode) \<and> ext2fs_extent_block_csum_verify fs gen inum eh'"
  using mmp_csum_holds[OF assms(1)] superblock_csum_holds[OF assms(2)] ext_attr_csum_holds[OF assms(3)] inode_csum_holds[OF assms(4)]
    extent_csum_holds[OF assms(6,5)] by blast

definition csum_fs :: ext2_filsys where
  "csum_fs = (demo_fs True)\<lparr>fs_super := (demo_super True)\<lparr>s_feature_ro_compat := 0x400, s_creator_os := 0\<rparr>, fs_blocksize := 64\<rparr>"

lemma csum_fs_fields: "has_metadata_csum csum_fs" "fs_blocksize csum_fs = 64" "\<not> fs_flag_ignore_csum_errors csum_fs" "fs_csum_seed csum_fs = 0"
  by (simp_all add: csum_fs_def has_metadata_csum_def demo_fs_def)

theorem csum_set_verifies_witness:
  "ext2fs_superblock_csum_verify csum_fs (ext2fs_superblock_csum_set csum_fs (replicate 1024 7)) \<and>
   (\<exists>eh'. ext2fs_extent_block_csum_set csum_fs (\<lambda>_. Inr 3) 12 (replicate 32 0) = Inr eh' \<and> ext2fs_extent_block_csum_verify csum_fs (\<lambda>_. Inr 3) 12 eh')"
proof -
  have t: "EXT3_EXTENT_TAIL_OFFSET (replicate 32 0) = 12" by (simp add: EXT3_EXTENT_TAIL_OFFSET_def ld16_def)
  obtain eh' where "ext2fs_extent_block_csum_set csum_fs (\<lambda>_. Inr 3) 12 (replicate 32 0) = Inr eh'"
    by (cases "ext2fs_extent_block_csum_set csum_fs (\<lambda>_. Inr 3) 12 (replicate 32 0)")
      (auto simp: ext2fs_extent_block_csum_set_def ext2fs_extent_block_csum_def split: if_splits)
  then show ?thesis
    using csum_set_verifies[of "replicate 1024 0" "replicate 1024 7" "replicate 20 0" "replicate 132 0" "replicate 32 0" csum_fs "\<lambda>_. Inr 3" 12 eh'] t
    by simp
qed

text \<open>C18: A directory block on which \<^verbatim>\<open>ext2fs_dir_block_csum_set\<close> succeeds, without the flag to ignore errors, is accepted by
  \<^verbatim>\<open>ext2fs_dir_block_csum_verify\<close>, which leaves it as it is: a leaf with its tail, a root or an inner block of a hash tree with any
  limit and count that pass the checks, and any block when the file system has no metadata checksums.\<close>

theorem dir_block_csum_set_verifies:
  assumes "ext2fs_dir_block_csum_set fs gen inum blk = (None, blk')" "length blk = blksize fs" "24 < blksize fs" "blksize fs mod 4 = 0"
    and "\<not> fs_flag_ignore_csum_errors fs"
  shows "ext2fs_dir_block_csum_verify fs gen inum blk' = (True, blk')"
  by (rule dir_block_csum_holds[OF assms])

text \<open>An inner block of a hash tree with one entry.\<close>

definition csum_node :: "u8 list" where
  "csum_node = [0, 0, 0, 0, 64, 0, 0, 0, 3, 0, 1, 0] @ replicate 52 9"

theorem dir_block_csum_set_verifies_witness:
  "\<exists>blk. ext2fs_dir_block_csum_set csum_fs (\<lambda>_. Inr 3) 12 csum_node = (None, blk) \<and>
     ext2fs_dir_block_csum_verify csum_fs (\<lambda>_. Inr 3) 12 blk = (True, blk)"
proof -
  have n: "length csum_node = 64" "ld16 csum_node 4 = 64" "ld16 csum_node 6 = 0" "ld16 csum_node 8 = 3" "ld16 csum_node 10 = 1"
    by (simp_all add: csum_node_def ld16_def)
  have c: "get_dx_countlimit csum_fs csum_node = Inr 8" by (simp add: get_dx_countlimit_def csum_fs_fields n)
  have "\<not> ext2fs_dirent_has_tail csum_fs csum_node" by (rule dx_no_tail[OF c]) (simp add: csum_fs_fields)
  then obtain blk where b: "ext2fs_dir_block_csum_set csum_fs (\<lambda>_. Inr 3) 12 csum_node = (None, blk)"
    by (simp add: ext2fs_dir_block_csum_set_def csum_fs_fields c ext2fs_dx_csum_set_def ext2fs_dx_csum_def n Let_def)
  then show ?thesis
    using dir_block_csum_set_verifies[OF b] by (simp add: csum_fs_fields n)
qed

text \<open>C40: When the inode of the directory cannot be read, the verification of a block of its hash tree reports a bad checksum and has
  overwritten the checksum of the block in the caller's buffer with 0.\<close>

theorem dx_csum_error_clears:
  assumes "has_metadata_csum fs" "gen inum = Inl e" "get_dx_countlimit fs blk = Inr co" "24 < blksize fs"
    and "co + unat (ld16 blk co) * 8 \<le> blksize fs - 8"
  shows "ext2fs_dir_block_csum_verify fs gen inum blk = (False, st32 blk (co + unat (ld16 blk co) * 8 + 4) 0)"
  using assms dx_no_tail[OF assms(3,4)]
  by (simp add: ext2fs_dir_block_csum_verify_def ext2fs_dx_csum_verify_def ext2fs_dx_csum_def Let_def)

theorem dx_csum_error_clears_witness:
  "ext2fs_dir_block_csum_verify csum_fs (\<lambda>_. Inl EIO) 12 csum_node = (False, st32 csum_node 36 0)"
proof -
  have n: "ld16 csum_node 4 = 64" "ld16 csum_node 6 = 0" "ld16 csum_node 8 = 3" "ld16 csum_node 10 = 1"
    by (simp_all add: csum_node_def ld16_def)
  then have c: "get_dx_countlimit csum_fs csum_node = Inr 8" by (simp add: get_dx_countlimit_def csum_fs_fields)
  show ?thesis using dx_csum_error_clears[OF csum_fs_fields(1) _ c, of "\<lambda>_. Inl EIO" 12 EIO] n by (simp add: csum_fs_fields)
qed

end
