(* ===== verification/Csum_Groups.thy ===== *)
theory Csum_Groups
  imports Csum Alloc_History
begin

text \<open>
  The checksums of \<^verbatim>\<open>lib/ext2fs/csum.c\<close> that are kept in the group descriptors: of the bitmaps and of the descriptors
  themselves, and the effect of \<^verbatim>\<open>ext2fs_set_gdt_csum\<close> on a file system whose counts are in order.
\<close>

unbundle bit_operations_syntax

section \<open>Bitmaps\<close>

text \<open>The descriptor has the upper half of the checksum when the size in the superblock covers it.\<close>

definition hi_fits :: "ext2_filsys \<Rightarrow> nat \<Rightarrow> u16 \<Rightarrow> bool" where
  "hi_fits fs hi hi_size \<longleftrightarrow> (hi_size \<le> s_desc_size (fs_super fs) \<longrightarrow> hi + 2 \<le> (if has_64bit (fs_super fs) then 64 else 32))"

lemma bitmap_csum_decides:
  assumes "descs_ok fs" "grp < fs_group_desc_count fs" "has_metadata_csum fs" "lo + 2 \<le> 32" "lo + 2 \<le> hi" "hi_fits fs hi hi_size"
  shows "bitmap_csum_verify lo hi hi_size (bitmap_csum_set lo hi hi_size fs grp bm n) grp bm' n \<longleftrightarrow>
    (let a = crc32c (fs_csum_seed fs) (take n bm); b = crc32c (fs_csum_seed fs) (take n bm')
     in if hi_size \<le> s_desc_size (fs_super fs) then a = b else a AND 0xFFFF = b AND 0xFFFF)"
proof -
  have p: "ext2fs_group_desc fs grp + (if has_64bit (fs_super fs) then 64 else 32) \<le> length (fs_group_desc fs)"
    by (rule desc_pos(2)[OF assms(1,2)])
  then have lo: "ext2fs_group_desc fs grp + lo + 1 < length (fs_group_desc fs)" using assms(4) by (auto split: if_splits)
  have m: "has_metadata_csum (with_desc fs bs) = True" for bs using assms(3) by (simp add: has_metadata_csum_def)
  show ?thesis
  proof (cases "hi_size \<le> s_desc_size (fs_super fs)")
    case True
    then have "ext2fs_group_desc fs grp + hi + 1 < length (fs_group_desc fs)"
      using p assms(6) by (auto simp: hi_fits_def split: if_splits)
    then show ?thesis using True lo assms(3,5)
      by (simp add: bitmap_csum_verify_def bitmap_csum_set_def m Let_def field_simps_mem)
  next
    case False
    then show ?thesis using lo assms(3)
      by (simp add: bitmap_csum_verify_def bitmap_csum_set_def m Let_def field_simps_mem)
  qed
qed

text \<open>C17: On a file system with metadata checksums, the checksum of a block or inode bitmap that is put into a group descriptor is the one
  that is verified against the same bitmap, and, when the descriptors have its upper half, every bitmap that differs from it in a
  burst of at most 32 bits is refused.\<close>

theorem bitmap_csum_refuses_bursts:
  assumes "descs_ok fs" "grp < fs_group_desc_count fs" "has_metadata_csum fs" "has_64bit (fs_super fs) \<or> s_desc_size (fs_super fs) < 58"
  shows "ext2fs_block_bitmap_csum_verify (ext2fs_block_bitmap_csum_set fs grp bm n) grp bm n \<and>
    ext2fs_inode_bitmap_csum_verify (ext2fs_inode_bitmap_csum_set fs grp bm n) grp bm n \<and>
    (burst_apart 32 (take n bm) (take n bm') \<longrightarrow>
      (58 \<le> s_desc_size (fs_super fs) \<longrightarrow> \<not> ext2fs_block_bitmap_csum_verify (ext2fs_block_bitmap_csum_set fs grp bm n) grp bm' n) \<and>
      (60 \<le> s_desc_size (fs_super fs) \<longrightarrow> \<not> ext2fs_inode_bitmap_csum_verify (ext2fs_inode_bitmap_csum_set fs grp bm n) grp bm' n))"
proof -
  have "hi_fits fs 56 58" "hi_fits fs 58 60"
    using assms(4) by (auto simp: hi_fits_def word_le_nat_alt word_less_nat_alt)
  then have d: "ext2fs_block_bitmap_csum_verify (ext2fs_block_bitmap_csum_set fs grp bm n) grp bm' n \<longleftrightarrow>
      (let a = crc32c (fs_csum_seed fs) (take n bm); b = crc32c (fs_csum_seed fs) (take n bm')
       in if 58 \<le> s_desc_size (fs_super fs) then a = b else a AND 0xFFFF = b AND 0xFFFF)"
    "ext2fs_inode_bitmap_csum_verify (ext2fs_inode_bitmap_csum_set fs grp bm n) grp bm' n \<longleftrightarrow>
      (let a = crc32c (fs_csum_seed fs) (take n bm); b = crc32c (fs_csum_seed fs) (take n bm')
       in if 60 \<le> s_desc_size (fs_super fs) then a = b else a AND 0xFFFF = b AND 0xFFFF)" for bm'
    unfolding ext2fs_block_bitmap_csum_verify_def ext2fs_block_bitmap_csum_set_def
      ext2fs_inode_bitmap_csum_verify_def ext2fs_inode_bitmap_csum_set_def
    by (subst bitmap_csum_decides[OF assms(1-3)]; simp)+
  have "crc32c (fs_csum_seed fs) (take n bm) \<noteq> crc32c (fs_csum_seed fs) (take n bm')" if "burst_apart 32 (take n bm) (take n bm')"
    by (rule crc32c_burst[OF that]) simp
  then show ?thesis unfolding d by (simp add: Let_def)
qed

theorem bitmap_csum_refuses_bursts_witness:
  "\<not> ext2fs_block_bitmap_csum_verify (ext2fs_block_bitmap_csum_set csum_fs 1 [1, 2] 2) 1 [1, 3] 2"
proof -
  have d: "descs_ok csum_fs" "1 < fs_group_desc_count csum_fs" "has_64bit (fs_super csum_fs)" "58 \<le> s_desc_size (fs_super csum_fs)"
    by (simp_all add: csum_fs_def descs_ok_def EXT2_DESC_SIZE_def has_64bit_def demo_fs_def demo_super_def feature_defs Let_def)
  have "burst_apart 32 (take 2 [1, 2]) (take 2 [1, 3])" by (auto simp: burst_apart_def intro!: exI[of _ 0])
  then show ?thesis using bitmap_csum_refuses_bursts[OF d(1,2) csum_fs_fields(1), of "[1, 2]" 2 "[1, 3]"] d(3,4) by blast
qed

section \<open>The checksum of a descriptor\<close>

lemma super_csum_set [simp]: "fs_super (ext2fs_bg_checksum_set fs g c) = fs_super fs" "fs_csum_seed (ext2fs_bg_checksum_set fs g c) = fs_csum_seed fs"
  by (simp_all add: ext2fs_bg_checksum_set_def)

lemma desc_bytes_own:
  "32 \<le> unat (EXT2_DESC_SIZE (fs_super fs)) \<Longrightarrow> desc_bytes (ext2fs_bg_checksum_set fs g c) g = st16 (desc_bytes fs g) 30 c"
  by (rule nth_equalityI) (auto simp: desc_bytes_def ext2fs_bg_checksum_set_def nth_st16)

text \<open>The checksum does not depend on the field it is stored in.\<close>

lemma group_desc_csum_own:
  assumes "32 \<le> unat (EXT2_DESC_SIZE (fs_super fs))"
  shows "ext2fs_group_desc_csum (ext2fs_bg_checksum_set fs g c) g = ext2fs_group_desc_csum fs g"
proof -
  have "drop 32 (st16 (desc_bytes fs g) 30 c) = drop 32 (desc_bytes fs g)" by (rule nth_equalityI) auto
  then show ?thesis
    by (simp add: ext2fs_group_desc_csum_def desc_bytes_own[OF assms] has_metadata_csum_def Let_def)
qed

lemma group_csum_verified:
  assumes "descs_ok fs" "g < fs_group_desc_count fs"
  shows "ext2fs_group_desc_csum_verify (ext2fs_group_desc_csum_set ext2fs_group_desc_csum fs g) g"
proof -
  have d: "32 \<le> unat (EXT2_DESC_SIZE (fs_super fs))" using assms(1) by (auto simp: descs_ok_def Let_def split: if_splits)
  have "ext2fs_group_desc fs g + 31 < length (fs_group_desc fs)" using desc_pos(2)[OF assms] by (auto split: if_splits)
  then have "ext2fs_bg_checksum (ext2fs_bg_checksum_set fs g c) g = c" for c
    by (simp add: ext2fs_bg_checksum_def ext2fs_bg_checksum_set_def ld16_st16)
  then show ?thesis
    by (simp add: ext2fs_group_desc_csum_verify_def ext2fs_group_desc_csum_set_def group_desc_csum_own[OF d] ext2fs_has_group_desc_csum_def)
qed

text \<open>A write of a field of one group leaves the descriptor of another as it is.\<close>

lemma desc_bytes_other:
  assumes "descs_ok fs" "g < fs_group_desc_count fs" "h < fs_group_desc_count fs" "g \<noteq> h"
  shows "desc_bytes (gd_put fs g f v) h = desc_bytes fs h"
proof -
  let ?d = "unat (EXT2_DESC_SIZE (fs_super fs))" and ?p = "ext2fs_group_desc fs g" and ?q = "ext2fs_group_desc fs h"
  have d: "(if has_64bit (fs_super fs) then 64 else 32) \<le> ?d" using assms(1) by (simp add: descs_ok_def Let_def)
  have "unat g \<noteq> unat h" using assms(4) by (simp add: word_unat_eq_iff)
  then have "unat g + 1 \<le> unat h \<or> unat h + 1 \<le> unat g" by linarith
  then have "(unat g + 1) * ?d \<le> unat h * ?d \<or> (unat h + 1) * ?d \<le> unat g * ?d" by (metis mult_le_mono1)
  then have "?p + ?d \<le> ?q \<or> ?q + ?d \<le> ?p" using desc_pos(1)[OF assms(1,2)] desc_pos(1)[OF assms(1,3)] by (simp add: add.commute)
  then show ?thesis
    using d by (cases "has_64bit (fs_super fs)"; cases f) (auto simp: desc_bytes_def gd_access_defs drop_take_st16 st32_def)
qed

section \<open>The last inode in use\<close>

abbreviation inode_bits :: "ba_private gbitmap \<Rightarrow> u64 set" where
  "inode_bits b \<equiv> ba.clusters b"

text \<open>\<open>b'\<close> is the bitmap \<open>b\<close> after it has been read.\<close>

definition read_only :: "ba_private gbitmap \<Rightarrow> ba_private gbitmap \<Rightarrow> bool" where
  "read_only b' b \<longleftrightarrow> ba.good b' \<and> same_hdr b' b \<and> ba.clusters b' = ba.clusters b"

text \<open>What the search over the \<open>k\<close> inodes from \<open>start\<close> returns for the inodes \<open>S\<close> in use.\<close>

definition last_in_use :: "u64 set \<Rightarrow> u32 \<Rightarrow> u32 \<Rightarrow> nat \<Rightarrow> u32 \<Rightarrow> bool" where
  "last_in_use S ipg start k m \<longleftrightarrow>
     m = ipg \<and> (\<forall>x :: u32. start \<le> x \<and> unat x < unat start + k \<longrightarrow> ucast x \<notin> S) \<or>
     0 < m \<and> unat m \<le> k \<and> ucast (start + m - 1) \<in> S \<and>
       (\<forall>x :: u32. unat start + unat m \<le> unat x \<and> unat x < unat start + k \<longrightarrow> ucast x \<notin> S)"

lemma find_last_spec:
  fixes start :: u32
  assumes "ba.good b" "gb_cluster_bits b = 0" "0 < start" "unat start + k \<le> 2 ^ 32" 
  shows "\<exists>m b'. find_last_loop ext2fs_blkmap64_bitarray (Some (Bitmap64 b)) ipg start (start - 1 + of_nat k) = Some (m, Some (Bitmap64 b')) \<and>
    read_only b' b \<and> last_in_use (inode_bits b) ipg start k m"
  using assms
proof (induction k arbitrary: b)
  case 0
  have "\<not> start \<le> start - 1" using measure_unat[of start] \<open>0 < start\<close> by (metis leD word_le_nat_alt less_irrefl)
  then have "find_last_loop ext2fs_blkmap64_bitarray (Some (Bitmap64 b)) ipg start (start - 1 + of_nat 0) = Some (ipg, Some (Bitmap64 b))"
    by (subst find_last_loop.simps) simp
  then show ?case using 0 by (auto simp: read_only_def last_in_use_def word_le_nat_alt)
next
  case (Suc k)
  let ?i = "start - 1 + of_nat (Suc k) :: u32"
  have i: "?i = start + of_nat k" by simp
  have ui: "unat ?i = unat start + k"
  proof -
    have "take_bit 32 k = k" using Suc.prems(4) by (simp add: take_bit_nat_eq_self_iff)
    then show ?thesis unfolding i using Suc.prems(4) by (simp add: unat_word_ariths unsigned_of_nat)
  qed
  obtain r bm where t: "ext2fs_test_generic_bmap ext2fs_blkmap64_bitarray (Some (Bitmap64 b)) (ucast ?i) = (r, bm)" by fastforce
  obtain b1 where b1: "bm = Some (Bitmap64 b1)" "ba.good b1" "same_hdr b1 b" "inode_bits b1 = inode_bits b" "r \<noteq> 0 \<longleftrightarrow> ucast ?i \<in> inode_bits b"
    by (rule ba.test_generic[OF Suc.prems(1) t]) (use Suc.prems(2) in simp)
  have ge: "start \<le> ?i" using ui by (simp add: word_le_nat_alt)
  show ?case
  proof (cases "r = 0")
    case False
    then have "find_last_loop ext2fs_blkmap64_bitarray (Some (Bitmap64 b)) ipg start ?i = Some (?i - start + 1, Some (Bitmap64 b1))"
      using ge t b1(1) by (subst find_last_loop.simps) simp
    moreover have "unat (?i - start + 1) = Suc k"
    proof -
      have "0 < unat start" using Suc.prems(3) by (simp add: word_less_nat_alt)
      moreover have "?i - start + 1 = of_nat (Suc k)" by simp
      ultimately show ?thesis using Suc.prems(4) by (simp add: unsigned_of_nat take_bit_nat_eq_self_iff del: of_nat_Suc)
    qed
    moreover have "start + (?i - start + 1) - 1 = ?i" by simp
    ultimately show ?thesis using b1 False by (intro exI[of _ "?i - start + 1"] exI[of _ b1]) (auto simp: read_only_def last_in_use_def word_less_nat_alt)
  next
    case True
    have step: "find_last_loop ext2fs_blkmap64_bitarray (Some (Bitmap64 b)) ipg start ?i =
        find_last_loop ext2fs_blkmap64_bitarray (Some (Bitmap64 b1)) ipg start (start - 1 + of_nat k)"
      using ge t b1(1) True by (subst find_last_loop.simps) (simp add: diff_add_eq)
    have "gb_cluster_bits b1 = 0" using b1(3) Suc.prems(2) by (simp add: same_hdr_iff)
    then obtain m b' where ih: "find_last_loop ext2fs_blkmap64_bitarray (Some (Bitmap64 b1)) ipg start (start - 1 + of_nat k) = Some (m, Some (Bitmap64 b'))"
      "read_only b' b1" "last_in_use (inode_bits b) ipg start k m"
      using Suc.IH[OF b1(2) _ Suc.prems(3), unfolded b1(4)] Suc.prems(4) by auto
    have "ucast x \<notin> inode_bits b" if "unat x = unat start + k" for x :: u32
    proof -
      have "x = ?i" using that ui by (simp add: word_unat_eq_iff)
      then show ?thesis using b1(5) True by blast
    qed
    moreover have "read_only b' b" using ih(2) b1(3,4) by (auto simp: read_only_def same_hdr_iff)
    ultimately show ?thesis using ih(3) unfolding step ih(1) last_in_use_def by (auto simp: less_Suc_eq)
  qed
qed

section \<open>One group of \<^verbatim>\<open>ext2fs_set_gdt_csum\<close>\<close>

lemma flags_set_put:
  assumes "descs_ok fs" "g < fs_group_desc_count fs"
  shows "ext2fs_bg_flags_set fs g m = gd_put fs g Flags (ucast (ext2fs_bg_flags fs g OR m))"
proof -
  have "ext2fs_group_desc fs g + 18 + 1 < length (fs_group_desc fs)"
    using desc_pos(2)[OF assms] by (simp split: if_splits)
  then show ?thesis
    by (simp add: ext2fs_bg_flags_set_def ext2fs_bg_flags_zap_def ext2fs_bg_flags_def field_simps_mem)
qed

text \<open>
  What \<^verbatim>\<open>ext2fs_set_gdt_csum\<close> establishes for a group: the checksum is that of the descriptor, and the flag and the count of the
  unused inodes at the end of the table are exact for the inodes \<open>U\<close> that are free.
\<close>

definition group_fresh :: "ext2_filsys \<Rightarrow> u64 set \<Rightarrow> u32 \<Rightarrow> bool" where
  "group_fresh fs U g \<longleftrightarrow>
     ext2fs_group_desc_csum_verify fs g \<and>
     (ext2fs_bg_flags fs g AND EXT2_BG_INODE_UNINIT \<noteq> 0 \<longleftrightarrow> (\<forall>i. 1 \<le> i \<and> inode_group fs i = unat g \<longrightarrow> i \<in> U)) \<and>
     (if \<forall>i. 1 \<le> i \<and> inode_group fs i = unat g \<longrightarrow> i \<in> U
      then ext2fs_bg_itable_unused fs g = s_inodes_per_group (fs_super fs)
      else \<exists>i. 1 \<le> i \<and> i \<notin> U \<and> inode_group fs i = unat g \<and>
             unat i + unat (ext2fs_bg_itable_unused fs g) = (unat g + 1) * unat (s_inodes_per_group (fs_super fs)))"

text \<open>The inodes of a group, and what the free count of the descriptor says of them.\<close>

definition group_inodes :: "ext2_filsys \<Rightarrow> u32 \<Rightarrow> u64 set" where
  "group_inodes fs g = {i. 1 \<le> i \<and> inode_group fs i = unat g}"

lemma group_inodes_iff:
  assumes "inode_geometry_ok fs"
  shows "i \<in> group_inodes fs g \<longleftrightarrow>
    unat g * unat (s_inodes_per_group (fs_super fs)) < unat i \<and> unat i \<le> unat g * unat (s_inodes_per_group (fs_super fs)) + unat (s_inodes_per_group (fs_super fs))"
proof -
  define p where "p = unat (s_inodes_per_group (fs_super fs))"
  have "0 < p" using assms by (simp add: inode_geometry_ok_def Let_def p_def)
  then have "inode_group fs i = unat g \<longleftrightarrow> unat g * p \<le> unat i - 1 \<and> unat i - 1 < unat g * p + p"
    using in_group_iff[of p "unat g" "unat i - 1"] by (auto simp: inode_group_def p_def)
  then show ?thesis by (auto simp: group_inodes_def p_def[symmetric] word_le_nat_alt)
qed

lemma group_bounds:
  assumes "inode_geometry_ok fs" "g < fs_group_desc_count fs"
  defines "p \<equiv> unat (s_inodes_per_group (fs_super fs))"
  shows "0 < p" "unat g * p + p \<le> unat (s_inodes_count (fs_super fs))" "unat g * p + p < 2 ^ 32"
    "unat (g * s_inodes_per_group (fs_super fs) + 1) = unat g * p + 1"
proof -
  have g: "0 < p" "unat (s_inodes_count (fs_super fs)) = p * unat (fs_group_desc_count fs)"
    "unat (s_inodes_count (fs_super fs)) + p < 2 ^ 32"
    using assms(1) by (simp_all add: inode_geometry_ok_def Let_def p_def)
  have "unat g + 1 \<le> unat (fs_group_desc_count fs)" using assms(2) by (simp add: word_less_nat_alt)
  then have "(unat g + 1) * p \<le> unat (fs_group_desc_count fs) * p" by (rule mult_le_mono1)
  then show le: "unat g * p + p \<le> unat (s_inodes_count (fs_super fs))" using g(2) by (simp add: mult.commute)
  then show lt: "unat g * p + p < 2 ^ 32" using g(3) by linarith
  show "0 < p" by (rule g(1))
  then have "unat g * p + 1 < 2 ^ 32" "unat g * p < 2 ^ 32" using lt by linarith+
  then show "unat (g * s_inodes_per_group (fs_super fs) + 1) = unat g * p + 1"
    by (simp add: unat_word_ariths p_def)
qed

lemma card_group_inodes:
  assumes "inode_geometry_ok fs" "g < fs_group_desc_count fs"
  shows "card (group_inodes fs g) = unat (s_inodes_per_group (fs_super fs))"
proof -
  define p where "p = unat (s_inodes_per_group (fs_super fs))"
  note b = group_bounds[OF assms, folded p_def]
  have u: "unat (of_nat (unat g * p + 1) :: u64) = unat g * p + 1" "unat (of_nat (unat g * p + p) :: u64) = unat g * p + p"
    using b(3) b(1) by (subst unsigned_of_nat; simp add: take_bit_nat_eq_self_iff)+
  have "group_inodes fs g = {of_nat (unat g * p + 1) .. of_nat (unat g * p + p)}"
    using u by (auto simp: group_inodes_iff[OF assms(1)] word_le_nat_alt p_def simp del: of_nat_add of_nat_mult)
  then show ?thesis using u b(1) by (simp add: card_word_ivl word_le_nat_alt p_def del: of_nat_add of_nat_mult)
qed

lemma all_free_iff:
  assumes "inode_geometry_ok fs" "g < fs_group_desc_count fs" "U \<subseteq> {1..}" "finite U"
    and "unat (free :: u32) = card {i \<in> U. inode_group fs i = unat g}"
  shows "free = s_inodes_per_group (fs_super fs) \<longleftrightarrow> group_inodes fs g \<subseteq> U"
proof -
  have e: "{i \<in> U. inode_group fs i = unat g} = U \<inter> group_inodes fs g" using assms(3) by (auto simp: group_inodes_def)
  have f: "finite (group_inodes fs g)" by (rule finite_subset[OF subset_UNIV]) simp
  have "free = s_inodes_per_group (fs_super fs) \<longleftrightarrow> card (U \<inter> group_inodes fs g) = card (group_inodes fs g)"
    using assms(5) e card_group_inodes[OF assms(1,2)] by (simp add: word_unat_eq_iff)
  also have "\<dots> \<longleftrightarrow> U \<inter> group_inodes fs g = group_inodes fs g"
    using card_subset_eq[OF f, of "U \<inter> group_inodes fs g"] by auto
  finally show ?thesis by auto
qed

text \<open>\<open>fs'\<close> is \<open>fs\<close> with the flags \<open>fl\<close>, the count \<open>u\<close> and the checksum of the group \<open>g\<close>.\<close>

definition group_written :: "ext2_filsys \<Rightarrow> ext2_filsys \<Rightarrow> u32 \<Rightarrow> u64 \<Rightarrow> u64 \<Rightarrow> bool" where
  "group_written fs' fs g fl u \<longleftrightarrow>
     same_geo fs' fs \<and> fs_super fs' = fs_super fs \<and> fs_csum_seed fs' = fs_csum_seed fs \<and>
     (\<forall>h < fs_group_desc_count fs. \<forall>f. f \<noteq> Checksum \<longrightarrow>
        gd_get fs' h f = (if h = g \<and> f = Flags then fl else if h = g \<and> f = ItableUnused then u else gd_get fs h f)) \<and>
     (\<forall>h < fs_group_desc_count fs. h \<noteq> g \<longrightarrow> desc_bytes fs' h = desc_bytes fs h \<and> ext2fs_bg_checksum fs' h = ext2fs_bg_checksum fs h)"

lemma written_get:
  assumes "group_written fs' fs g fl u" "h < fs_group_desc_count fs" "f \<noteq> Checksum"
  shows "gd_get fs' h f = (if h = g \<and> f = Flags then fl else if h = g \<and> f = ItableUnused then u else gd_get fs h f)"
  using assms unfolding group_written_def by blast

lemma put_seed [simp]: "fs_csum_seed (gd_put fs g f v) = fs_csum_seed fs"
  by (cases f) (simp_all add: gd_access_defs)

lemma checksum_eq: "ext2fs_bg_checksum fs h = ext2fs_bg_checksum fs' h \<longleftrightarrow> gd_get fs h Checksum = gd_get fs' h Checksum"
  by (auto dest: arg_cong[where f = "ucast :: u64 \<Rightarrow> u16"])

text \<open>Writes to the group \<open>g\<close> leave the others alone.\<close>

definition others_same :: "ext2_filsys \<Rightarrow> ext2_filsys \<Rightarrow> u32 \<Rightarrow> bool" where
  "others_same fs' fs g \<longleftrightarrow>
     same_geo fs' fs \<and> fs_super fs' = fs_super fs \<and> fs_csum_seed fs' = fs_csum_seed fs \<and>
     (\<forall>h < fs_group_desc_count fs. h \<noteq> g \<longrightarrow> desc_bytes fs' h = desc_bytes fs h \<and> gd_get fs' h Checksum = gd_get fs h Checksum)"

lemma others_refl [simp]: "others_same fs fs g" by (simp add: others_same_def)

lemma others_put:
  assumes "others_same fs' fs g" "descs_ok fs" "g < fs_group_desc_count fs"
  shows "others_same (gd_put fs' g f v) fs g"
proof -
  have geo: "same_geo fs' fs" using assms(1) by (simp add: others_same_def)
  have ok: "descs_ok fs'" "fs_group_desc_count fs' = fs_group_desc_count fs" using assms(2) by (simp_all add: geo_descs[OF geo] geoD(14)[OF geo])
  show ?thesis
    using assms(1,3) same_geo_trans[OF geo_put geo] desc_bytes_other[OF ok(1)] gd_put_other_group[OF ok(1)]
    unfolding others_same_def by (auto simp: ok(2) simp del: gd_put.simps gd_get.simps)
qed

lemma group_writtenI:
  fixes fl1 fl2 :: u16 and n :: u32 and c :: bool
  assumes "descs_ok fs" "g < fs_group_desc_count fs" "\<not> has_64bit (fs_super fs) \<Longrightarrow> unat n < 2 ^ 16"
  defines "fs1 \<equiv> (if c then gd_put fs g Flags (ucast fl1) else fs)"
  defines "fs2 \<equiv> gd_put (gd_put fs1 g Flags (ucast fl2)) g ItableUnused (ucast n)"
  shows "group_written (ext2fs_group_desc_csum_set csum fs2 g) fs g (ucast fl2) (ucast n)"
proof -
  have o1: "others_same fs1 fs g" unfolding fs1_def using others_put[OF others_refl assms(1,2)] by (simp del: gd_put.simps)
  have o2: "others_same fs2 fs g" unfolding fs2_def by (intro others_put o1 assms(1,2))
  then have "others_same (ext2fs_group_desc_csum_set csum fs2 g) fs g"
    using others_put[OF o2 assms(1,2)] by (simp add: ext2fs_group_desc_csum_set_def checksum_put del: gd_put.simps gd_get.simps)
  moreover have "gd_get (ext2fs_group_desc_csum_set csum fs2 g) h f =
      (if h = g \<and> f = Flags then ucast fl2 else if h = g \<and> f = ItableUnused then ucast n else gd_get fs h f)"
    if h: "h < fs_group_desc_count fs" and f: "f \<noteq> Checksum" for h f
  proof -
    have ok: "descs_ok fs'" "fs_group_desc_count fs' = fs_group_desc_count fs" "has_64bit (fs_super fs') = has_64bit (fs_super fs)"
      if "same_geo fs' fs" for fs'
      using assms(1) by (simp_all add: geo_descs[OF that] geoD(14)[OF that] geo_has64[OF that])
    have geo: "same_geo fs1 fs" "same_geo fs2 fs" "same_geo (gd_put fs1 g Flags (ucast fl2)) fs"
      using o1 o2 same_geo_trans[OF geo_put, of fs1 fs] by (simp_all add: others_same_def del: gd_put.simps)
    have w: "(ucast v :: u64) = take_bit (gd_width wide Flags) (ucast v)" for v :: u16 and wide
      by simp (rule bit_word_eqI, auto simp: bit_take_bit_iff bit_unsigned_iff dest: bit_imp_le_length)
    have wn: "(ucast n :: u64) = take_bit (gd_width (has_64bit (fs_super fs)) ItableUnused) (ucast n)"
      using ucast_fits[OF assms(3)] by simp
    have 1: "gd_get fs1 h f = (if c \<and> h = g \<and> f = Flags then ucast fl1 else gd_get fs h f)"
      using gd_get_put[OF assms(1,2) h w] by (auto simp: fs1_def simp del: gd_put.simps gd_get.simps gd_width.simps)
    have 2: "gd_get (gd_put fs1 g Flags (ucast fl2)) h f = (if h = g \<and> f = Flags then ucast fl2 else gd_get fs1 h f)"
      using gd_get_put[of fs1 g h] ok[OF geo(1)] assms(2) h w by (simp del: gd_put.simps gd_get.simps gd_width.simps)
    have 3: "gd_get fs2 h f = (if h = g \<and> f = ItableUnused then ucast n else gd_get (gd_put fs1 g Flags (ucast fl2)) h f)"
      unfolding fs2_def using ok[OF geo(3)] assms(2) h wn
      by (subst gd_get_put) (simp_all del: gd_put.simps gd_get.simps gd_width.simps)
    show ?thesis
      using csum_set_get(1)[of fs2 g h f csum] ok[OF geo(2)] assms(2) h f unfolding 1 2 3 by (auto simp del: gd_put.simps gd_get.simps)
  qed
  ultimately show ?thesis
    unfolding group_written_def others_same_def checksum_eq by blast
qed

text \<open>The state of the loop: the counts are in order, the bitmaps are as they were.\<close>

definition gdt_state :: "ba_private alloc_fs \<Rightarrow> u64 set \<Rightarrow> ba_private alloc_fs \<Rightarrow> bool" where
  "gdt_state af0 U af \<longleftrightarrow>
     accounted af \<and> same_geo (af_fs af) (af_fs af0) \<and> af_block_map af = af_block_map af0 \<and>
     (\<exists>b. af_inode_map af = Some (Bitmap64 b) \<and> unmarked ba_bits b = U)"

lemma group_written_accounted:
  fixes fl :: u16 and n :: u32
  assumes "accounted af" "group_written fs' (af_fs af) g (ucast fl) (ucast n)" "g < fs_group_desc_count (af_fs af)"
    and b: "af_inode_map af = Some (Bitmap64 b)" "read_only b' b"
    and "unat n \<le> unat (s_inodes_per_group (fs_super (af_fs af)))"
    and "\<And>i. i \<in> group_inodes (af_fs af) g \<Longrightarrow> i \<le> gb_end b \<Longrightarrow> i \<notin> unmarked ba_bits b \<Longrightarrow>
      fl AND EXT2_BG_INODE_UNINIT = 0 \<and> unat i + unat n \<le> (unat g + 1) * unat (s_inodes_per_group (fs_super (af_fs af)))"
  defines "af' \<equiv> af\<lparr>af_fs := fs', af_inode_map := Some (Bitmap64 b')\<rparr>"
  shows "accounted af'" "unmarked ba_bits b' = unmarked ba_bits b"
proof -
  have geo: "same_geo fs' (af_fs af)" "fs_super fs' = fs_super (af_fs af)" using assms(2) by (simp_all add: group_written_def)
  have get: "gd_get fs' h f = (if h = g \<and> f = Flags then ucast fl else if h = g \<and> f = ItableUnused then ucast n else gd_get (af_fs af) h f)"
    if "h < fs_group_desc_count (af_fs af)" "f \<noteq> Checksum" for h f
    by (rule written_get[OF assms(2) that])
  have fields: "ext2fs_bg_free_blocks_count fs' h = ext2fs_bg_free_blocks_count (af_fs af) h"
    "ext2fs_bg_free_inodes_count fs' h = ext2fs_bg_free_inodes_count (af_fs af) h"
    "ext2fs_bg_flags fs' h = (if h = g then fl else ext2fs_bg_flags (af_fs af) h)"
    "ext2fs_bg_itable_unused fs' h = (if h = g then n else ext2fs_bg_itable_unused (af_fs af) h)"
    if "h < fs_group_desc_count (af_fs af)" for h
    using get[OF that, of FreeBlocks] get[OF that, of FreeInodes] get[OF that, of Flags] get[OF that, of ItableUnused]
    by (auto split: if_splits)
  show U: "unmarked ba_bits b' = unmarked ba_bits b"
  proof -
    have "inode_bits b' = inode_bits b" "{gb_start b'..gb_end b'} = {gb_start b..gb_end b}"
      using b(2) unfolding read_only_def same_hdr_iff by (blast, metis)
    then show ?thesis by (simp only: ba.unmarked_alt)
  qed
  have bl: "blocks_accounted ba_wf ba_bits af'"
    by (rule blocks_accounted_cong[of _ _ af]) (use assms(1) geo fields in \<open>auto simp: accounted_def same_block_counts_def af'_def ext2fs_free_blocks_count_def\<close>)
  let ?fs = "af_fs af" and ?p = "unat (s_inodes_per_group (fs_super (af_fs af)))"
  have map: "inode_map_ok ba_wf ?fs b"
    and cnt: "\<forall>h < fs_group_desc_count ?fs. unat (ext2fs_bg_free_inodes_count ?fs h) = card {i \<in> unmarked ba_bits b. inode_group ?fs i = unat h}"
    and tot: "unat (s_free_inodes_count (fs_super ?fs)) = card (unmarked ba_bits b)"
    and used: "ext2fs_has_group_desc_csum ?fs \<longrightarrow> (\<forall>h < fs_group_desc_count ?fs. unat (ext2fs_bg_itable_unused ?fs h) \<le> ?p \<and>
        (\<forall>i \<in> {gb_start b..gb_end b} - unmarked ba_bits b. inode_group ?fs i = unat h \<longrightarrow>
           ext2fs_bg_flags ?fs h AND EXT2_BG_INODE_UNINIT = 0 \<and> unat i + unat (ext2fs_bg_itable_unused ?fs h) \<le> (unat h + 1) * ?p))"
    using assms(1) b(1) by (auto simp: accounted_def inodes_accounted_def Let_def)
  have hdr: "same_hdr b' b" "ba.good b'" using b(2) by (simp_all add: read_only_def)
  have start: "gb_start b = 1" using map by (simp add: inode_map_ok_def)
  have map': "inode_map_ok ba_wf fs' b'"
    using map hdr by (simp add: inode_map_ok_def same_hdr_iff geo(2))
  have "unat (ext2fs_bg_itable_unused fs' h) \<le> ?p \<and>
      (\<forall>i \<in> {gb_start b'..gb_end b'} - unmarked ba_bits b'. inode_group ?fs i = unat h \<longrightarrow>
         ext2fs_bg_flags fs' h AND EXT2_BG_INODE_UNINIT = 0 \<and> unat i + unat (ext2fs_bg_itable_unused fs' h) \<le> (unat h + 1) * ?p)"
    if "ext2fs_has_group_desc_csum ?fs" "h < fs_group_desc_count ?fs" for h
    using used that assms(6,7) fields(3,4)[OF that(2)] hdr(1) start unfolding U
    by (auto simp: same_hdr_iff group_inodes_def)
  then have "inodes_accounted ba_wf ba_bits af'"
    unfolding inodes_accounted_def Let_def af'_def using map' cnt tot geo(2) fields(2)
    by (auto simp: U geo_inode_group[OF geo(1)] geoD[OF geo(1)] geo_csum[OF geo(1)])
  then show "accounted af'"
    using accounted_geo[OF assms(1) _ bl] geo(1) by (simp add: af'_def)
qed

text \<open>The search for the last inode of a group.\<close>

lemma find_last_group:
  assumes "inode_geometry_ok fs" "inode_map_ok ba_wf fs b" "g < fs_group_desc_count fs" "\<not> group_inodes fs g \<subseteq> unmarked ba_bits b"
  obtains m b' where "find_last_inode_ingrp ext2fs_blkmap64_bitarray (Some (Bitmap64 b)) (s_inodes_per_group (fs_super fs)) g = Some (m, Some (Bitmap64 b'))"
    "read_only b' b" "m \<le> s_inodes_per_group (fs_super fs)"
    "\<And>i. i \<in> group_inodes fs g \<Longrightarrow> i \<notin> unmarked ba_bits b \<Longrightarrow> unat i \<le> unat g * unat (s_inodes_per_group (fs_super fs)) + unat m"
    "\<exists>i. i \<in> group_inodes fs g \<and> i \<notin> unmarked ba_bits b \<and> unat i = unat g * unat (s_inodes_per_group (fs_super fs)) + unat m"
proof -
  let ?ipg = "s_inodes_per_group (fs_super fs)"
  define p where "p = unat ?ipg"
  define start where "start = g * ?ipg + 1"
  note gb = group_bounds[OF assms(1,3), folded p_def start_def]
  have good: "ba.good b" "gb_cluster_bits b = 0" "gb_start b = 1" "gb_end b = ucast (s_inodes_count (fs_super fs))"
    using assms(2) by (simp_all add: inode_map_ok_def)
  have "0 < start" using gb(4) by (simp add: word_less_nat_alt)
  then obtain m b' where f: "find_last_loop ext2fs_blkmap64_bitarray (Some (Bitmap64 b)) ?ipg start (start - 1 + of_nat p) = Some (m, Some (Bitmap64 b'))"
    "read_only b' b" "last_in_use (inode_bits b) ?ipg start p m"
    using find_last_spec[OF good(1,2), of start p ?ipg] gb(3,4) by auto
  have mem: "i \<in> group_inodes fs g \<longleftrightarrow> unat start \<le> unat i \<and> unat i < unat start + p" for i
    by (auto simp: group_inodes_iff[OF assms(1)] gb(4) p_def[symmetric])
  have used: "i \<notin> unmarked ba_bits b \<longleftrightarrow> i \<in> inode_bits b" if "i \<in> group_inodes fs g" for i
    using that gb(2,4) unfolding mem ba.unmarked_alt by (auto simp: good word_le_nat_alt unsigned_ucast_eq take_bit_nat_eq_self)
  have small: "ucast (ucast i :: u32) = i \<and> unat (ucast i :: u32) = unat i" if "i \<in> group_inodes fs g" for i
  proof -
    have "unat i < 2 ^ 32" using that gb(3,4) unfolding mem by linarith
    then have "unat (ucast i :: u32) = unat i" by (simp add: unsigned_ucast_eq take_bit_nat_eq_self)
    moreover have "unat (ucast (ucast i :: u32) :: u64) = unat (ucast i :: u32)" by (simp add: unsigned_ucast_eq unsigned_take_bit_eq take_bit_nat_eq_self)
    ultimately show ?thesis by (simp add: word_unat_eq_iff)
  qed
  obtain i0 where i0: "i0 \<in> group_inodes fs g" "i0 \<in> inode_bits b" using assms(4) used by blast
  have "\<not> (\<forall>x :: u32. start \<le> x \<and> unat x < unat start + p \<longrightarrow> ucast x \<notin> inode_bits b)"
  proof
    assume "\<forall>x :: u32. start \<le> x \<and> unat x < unat start + p \<longrightarrow> ucast x \<notin> inode_bits b"
    from spec[OF this, of "ucast i0"] show False
      using small[OF i0(1)] i0 unfolding mem by (simp only: word_le_nat_alt)
  qed
  then have m: "0 < m" "unat m \<le> p" "ucast (start + m - 1) \<in> inode_bits b"
    "\<forall>x :: u32. unat start + unat m \<le> unat x \<and> unat x < unat start + p \<longrightarrow> ucast x \<notin> inode_bits b"
    using f(3) unfolding last_in_use_def by blast+
  have m0: "0 < unat m" using m(1) by (simp add: word_less_nat_alt)
  have um: "unat (start + m - 1) = unat g * p + unat m"
  proof -
    have "start + m - 1 = g * ?ipg + m" by (simp add: start_def)
    moreover have "unat (g * ?ipg) = unat g * p" using gb(3) by (simp add: unat_word_ariths p_def)
    moreover have "unat g * p + unat m < 2 ^ 32" using gb(3) m(2) by linarith
    ultimately show ?thesis by (simp only: unat_word_ariths) simp
  qed
  have last: "ucast (start + m - 1) \<in> group_inodes fs g"
    unfolding mem using um m(2) m0 gb(4) by (simp add: unsigned_ucast_eq take_bit_nat_eq_self)
  show thesis
  proof (rule that[of m b'])
    have e: "start + ?ipg - 1 = start - 1 + of_nat p" by (simp add: p_def)
    show "find_last_inode_ingrp ext2fs_blkmap64_bitarray (Some (Bitmap64 b)) ?ipg g = Some (m, Some (Bitmap64 b'))"
      using f(1) unfolding find_last_inode_ingrp_def Let_def start_def[symmetric] e .
    show "m \<le> ?ipg" using m(2) by (simp add: word_le_nat_alt p_def)
    show "unat i \<le> unat g * unat ?ipg + unat m" if "i \<in> group_inodes fs g" "i \<notin> unmarked ba_bits b" for i
    proof (rule ccontr)
      assume "\<not> ?thesis"
      then have "unat start + unat m \<le> unat i" using gb(4) by (simp add: p_def)
      then have "unat start + unat m \<le> unat (ucast i :: u32) \<and> unat (ucast i :: u32) < unat start + p"
        using small[OF that(1)] that(1) unfolding mem by simp
      then have "ucast (ucast i :: u32) \<notin> inode_bits b" using m(4) by blast
      then show False using small[OF that(1)] used[OF that(1)] that(2) by metis
    qed
    show "\<exists>i. i \<in> group_inodes fs g \<and> i \<notin> unmarked ba_bits b \<and> unat i = unat g * unat ?ipg + unat m"
      using last used[OF last] m(3) um by (intro exI[of _ "ucast (start + m - 1)"]) (simp add: p_def unsigned_ucast_eq take_bit_nat_eq_self)
  qed (rule f(2))
qed

lemma fresh_of_written:
  fixes fl :: u16 and n :: u32
  assumes "inode_geometry_ok fs" "g < fs_group_desc_count fs" "group_written fs' fs g (ucast fl) (ucast n)"
    and "ext2fs_group_desc_csum_verify fs' g" "U = unmarked ba_bits b"
    and "fl AND EXT2_BG_INODE_UNINIT \<noteq> 0 \<longleftrightarrow> group_inodes fs g \<subseteq> U"
    and "if group_inodes fs g \<subseteq> U then n = s_inodes_per_group (fs_super fs)
      else \<exists>i. i \<in> group_inodes fs g \<and> i \<notin> U \<and> unat i + unat n = (unat g + 1) * unat (s_inodes_per_group (fs_super fs))"
  shows "group_fresh fs' U g"
proof -
  have geo: "same_geo fs' fs" "fs_super fs' = fs_super fs" using assms(3) by (simp_all add: group_written_def)
  have "gd_get fs' g Flags = ucast fl" "gd_get fs' g ItableUnused = ucast n"
    using written_get[OF assms(3,2), of Flags] written_get[OF assms(3,2), of ItableUnused] by auto
  then have f: "ext2fs_bg_flags fs' g = fl" "ext2fs_bg_itable_unused fs' g = n" by simp_all
  have e: "(\<forall>i. 1 \<le> i \<and> inode_group fs' i = unat g \<longrightarrow> i \<in> U) \<longleftrightarrow> group_inodes fs g \<subseteq> U"
    by (auto simp: group_inodes_def geo_inode_group[OF geo(1)])
  show ?thesis
    unfolding group_fresh_def e f geo(2) using assms(4,6,7) by (auto simp: group_inodes_def geo_inode_group[OF geo(1)] split: if_splits)
qed

lemma fresh_elsewhere:
  assumes "group_written fs' fs g fl n" "h < fs_group_desc_count fs" "h \<noteq> g" "group_fresh fs U h"
  shows "group_fresh fs' U h"
proof -
  have geo: "same_geo fs' fs" "fs_super fs' = fs_super fs" "fs_csum_seed fs' = fs_csum_seed fs"
    and o: "desc_bytes fs' h = desc_bytes fs h" "ext2fs_bg_checksum fs' h = ext2fs_bg_checksum fs h"
    using assms(1-3) by (simp_all add: group_written_def)
  have f: "gd_get fs' h Flags = gd_get fs h Flags" "gd_get fs' h ItableUnused = gd_get fs h ItableUnused"
    using written_get[OF assms(1,2), of Flags] written_get[OF assms(1,2), of ItableUnused] assms(3) by auto
  have "ext2fs_group_desc_csum_verify fs' h = ext2fs_group_desc_csum_verify fs h"
    by (simp add: ext2fs_group_desc_csum_verify_def ext2fs_group_desc_csum_def geo(2,3) o ext2fs_has_group_desc_csum_def has_metadata_csum_def Let_def)
  moreover have "ext2fs_bg_flags fs' h = ext2fs_bg_flags fs h" "ext2fs_bg_itable_unused fs' h = ext2fs_bg_itable_unused fs h"
    using f by simp_all
  ultimately have "group_fresh fs' U h = group_fresh fs U h"
    unfolding group_fresh_def geo(2) geo_inode_group[OF geo(1)] by (simp only:)
  then show ?thesis using assms(4) by simp
qed

lemma put_geo: "descs_ok (gd_put fs g f v) = descs_ok fs" "fs_group_desc_count (gd_put fs g f v) = fs_group_desc_count fs"
  by (rule geo_descs[OF geo_put], rule geoD(14)[OF geo_put])

lemma uninit_bit: "(x OR EXT2_BG_INODE_UNINIT) AND EXT2_BG_INODE_UNINIT = EXT2_BG_INODE_UNINIT" "EXT2_BG_INODE_UNINIT \<noteq> 0"
  "(x AND NOT EXT2_BG_INODE_UNINIT) AND EXT2_BG_INODE_UNINIT = 0"
  by (rule bit_word_eqI; auto simp: bit_and_iff bit_or_iff) (simp_all add: EXT2_BG_INODE_UNINIT_def and.assoc)

lemma set_group_step:
  assumes "accounted af" "g < fs_group_desc_count (af_fs af)" "af_inode_map af = Some (Bitmap64 b)"
  defines "U \<equiv> unmarked ba_bits b"
  shows "\<exists>fs' b' d fl n. set_gdt_csum_group ext2fs_blkmap64_bitarray ext2fs_group_desc_csum af g =
      Some (af\<lparr>af_fs := fs', af_inode_map := Some (Bitmap64 b')\<rparr>, d) \<and>
    group_written fs' (af_fs af) g fl n \<and> accounted (af\<lparr>af_fs := fs', af_inode_map := Some (Bitmap64 b')\<rparr>) \<and>
    unmarked ba_bits b' = U \<and> group_fresh fs' U g"
proof -
  let ?fs = "af_fs af" and ?ops = "ext2fs_blkmap64_bitarray"
  let ?ipg = "s_inodes_per_group (fs_super ?fs)"
  have geo: "inode_geometry_ok ?fs" "descs_ok ?fs" using assms(1) by (simp_all add: accounted_def inode_geometry_ok_def Let_def)
  have map: "inode_map_ok ba_wf ?fs b" and free: "unat (ext2fs_bg_free_inodes_count ?fs g) = card {i \<in> U. inode_group ?fs i = unat g}"
    using assms(1-3) by (auto simp: accounted_def inodes_accounted_def Let_def U_def)
  have Us: "U \<subseteq> {1..}" "finite U" using map by (auto simp: U_def unmarked_def inode_map_ok_def)
  have narrow: "\<not> has_64bit (fs_super ?fs) \<Longrightarrow> unat ?ipg < 2 ^ 16" using geo(1) by (simp add: inode_geometry_ok_def Let_def)
  note all_free = all_free_iff[OF geo(1) assms(2) Us free]
  define c where "c \<longleftrightarrow> ext2fs_bg_free_blocks_count ?fs g = s_blocks_per_group (fs_super ?fs) \<and> g \<noteq> fs_group_desc_count ?fs - 1"
  define fl1 where "fl1 = ext2fs_bg_flags ?fs g OR EXT2_BG_BLOCK_UNINIT"
  define fs1 where "fs1 = (if c then gd_put ?fs g Flags (ucast fl1) else ?fs)"
  have fs1: "(if c then ext2fs_bg_flags_set ?fs g EXT2_BG_BLOCK_UNINIT else ?fs) = fs1"
    by (simp add: fs1_def fl1_def flags_set_put[OF geo(2) assms(2)] del: gd_put.simps)
  have ok1: "descs_ok fs1" "g < fs_group_desc_count fs1"
    using geo(2) assms(2) by (simp_all add: fs1_def put_geo del: gd_put.simps)
  obtain n fl2 b' where run: "set_gdt_csum_group ?ops ext2fs_group_desc_csum af g =
      (let fs' = ext2fs_group_desc_csum_set ext2fs_group_desc_csum (gd_put (gd_put fs1 g Flags (ucast fl2)) g ItableUnused (ucast n)) g
       in Some (af\<lparr>af_fs := fs', af_inode_map := Some (Bitmap64 b')\<rparr>,
            ext2fs_bg_flags ?fs g \<noteq> ext2fs_bg_flags fs' g \<or> ext2fs_bg_itable_unused ?fs g \<noteq> ext2fs_bg_itable_unused fs' g \<or>
            ext2fs_bg_checksum ?fs g \<noteq> ext2fs_bg_checksum fs' g))"
    and n: "n \<le> ?ipg" "read_only b' b" "fl2 AND EXT2_BG_INODE_UNINIT \<noteq> 0 \<longleftrightarrow> group_inodes ?fs g \<subseteq> U"
    "\<And>i. i \<in> group_inodes ?fs g \<Longrightarrow> i \<notin> U \<Longrightarrow> unat i + unat n \<le> (unat g + 1) * unat ?ipg"
    "if group_inodes ?fs g \<subseteq> U then n = ?ipg else \<exists>i. i \<in> group_inodes ?fs g \<and> i \<notin> U \<and> unat i + unat n = (unat g + 1) * unat ?ipg"
  proof (cases "group_inodes ?fs g \<subseteq> U")
    case True
    then have full: "ext2fs_bg_free_inodes_count ?fs g = ?ipg" using all_free by simp
    define fl2 where "fl2 = ext2fs_bg_flags fs1 g OR EXT2_BG_INODE_UNINIT"
    show thesis
    proof (rule that[of fl2 ?ipg b])
      show "read_only b b" using map by (simp add: read_only_def inode_map_ok_def same_hdr_iff)
      show "fl2 AND EXT2_BG_INODE_UNINIT \<noteq> 0 \<longleftrightarrow> group_inodes ?fs g \<subseteq> U"
        using True by (simp add: fl2_def uninit_bit)
    qed (use True full assms(3) in \<open>auto simp: set_gdt_csum_group_def Let_def fl2_def flags_set_put[OF ok1]
        fs1[unfolded c_def] unused_put simp del: gd_put.simps gd_get.simps\<close>)
  next
    case False
    then have part: "ext2fs_bg_free_inodes_count ?fs g \<noteq> ?ipg" using all_free by simp
    obtain m b' where m: "find_last_inode_ingrp ?ops (Some (Bitmap64 b)) ?ipg g = Some (m, Some (Bitmap64 b'))" "read_only b' b" "m \<le> ?ipg"
      "\<And>i. i \<in> group_inodes ?fs g \<Longrightarrow> i \<notin> U \<Longrightarrow> unat i \<le> unat g * unat ?ipg + unat m"
      "\<exists>i. i \<in> group_inodes ?fs g \<and> i \<notin> U \<and> unat i = unat g * unat ?ipg + unat m"
      using find_last_group[OF geo(1) map assms(2) False[unfolded U_def]] unfolding U_def by blast
    define fl2 where "fl2 = ext2fs_bg_flags fs1 g AND NOT EXT2_BG_INODE_UNINIT"
    have um: "unat (?ipg - m) = unat ?ipg - unat m" "unat m \<le> unat ?ipg" using m(3) by (simp_all add: unat_sub word_le_nat_alt)
    show thesis
    proof (rule that[of fl2 "?ipg - m" b'])
      show "?ipg - m \<le> ?ipg" using um by (simp add: word_le_nat_alt)
      show "fl2 AND EXT2_BG_INODE_UNINIT \<noteq> 0 \<longleftrightarrow> group_inodes ?fs g \<subseteq> U" using False by (simp add: fl2_def uninit_bit)
      show "unat i + unat (?ipg - m) \<le> (unat g + 1) * unat ?ipg" if "i \<in> group_inodes ?fs g" "i \<notin> U" for i
        using m(4)[OF that] um by simp
      obtain i where "i \<in> group_inodes ?fs g \<and> i \<notin> U \<and> unat i = unat g * unat ?ipg + unat m" using m(5) by blast
      then show "if group_inodes ?fs g \<subseteq> U then ?ipg - m = ?ipg
          else \<exists>i. i \<in> group_inodes ?fs g \<and> i \<notin> U \<and> unat i + unat (?ipg - m) = (unat g + 1) * unat ?ipg"
        using False um by (auto intro: exI[of _ i])
    qed (use False part assms(3) m(1,2) in \<open>auto simp: set_gdt_csum_group_def Let_def fl2_def flags_clear_put[OF ok1]
        fs1[unfolded c_def] unused_put simp del: gd_put.simps gd_get.simps\<close>)
  qed
  define fs' where "fs' = ext2fs_group_desc_csum_set ext2fs_group_desc_csum (gd_put (gd_put fs1 g Flags (ucast fl2)) g ItableUnused (ucast n)) g"
  have "\<not> has_64bit (fs_super ?fs) \<Longrightarrow> unat n < 2 ^ 16" using narrow n(1) by (simp add: word_le_nat_alt)
  then have w: "group_written fs' ?fs g (ucast fl2) (ucast n)"
    unfolding fs'_def fs1_def by (rule group_writtenI[OF geo(2) assms(2)])
  have v: "ext2fs_group_desc_csum_verify fs' g"
    unfolding fs'_def using ok1 by (intro group_csum_verified) (simp_all add: put_geo del: gd_put.simps)
  have "group_fresh fs' U g"
    by (rule fresh_of_written[OF geo(1) assms(2) w v _ n(3,5)]) (simp add: U_def)
  moreover have "accounted (af\<lparr>af_fs := fs', af_inode_map := Some (Bitmap64 b')\<rparr>)" "unmarked ba_bits b' = U"
    using group_written_accounted[OF assms(1) w assms(2,3) n(2)] n(1,3,4) unfolding U_def by (auto simp: word_le_nat_alt)
  ultimately show ?thesis using run w unfolding Let_def fs'_def[symmetric] by blast
qed

section \<open>All groups\<close>

lemma set_gdt_loop:
  assumes "gdt_state af0 U af" "unat (i :: u32) + k = unat (fs_group_desc_count (af_fs af0))"
    and "\<And>h. h < i \<Longrightarrow> group_fresh (af_fs af) U h"
  shows "\<exists>af' d'. set_gdt_csum_loop ext2fs_blkmap64_bitarray ext2fs_group_desc_csum k i (af, d) = Some (af', d') \<and> gdt_state af0 U af' \<and>
    (\<forall>h < fs_group_desc_count (af_fs af0). group_fresh (af_fs af') U h)"
  using assms
proof (induction k arbitrary: i af d)
  case 0
  then have "i = fs_group_desc_count (af_fs af0)" by (simp add: word_unat_eq_iff)
  then show ?case using 0 by simp
next
  case (Suc k)
  have geo: "same_geo (af_fs af) (af_fs af0)" "accounted af" using Suc.prems(1) by (simp_all add: gdt_state_def)
  have cnt: "fs_group_desc_count (af_fs af) = fs_group_desc_count (af_fs af0)" by (rule geoD(14)[OF geo(1)])
  have i: "i < fs_group_desc_count (af_fs af)" using Suc.prems(2) by (simp add: cnt word_less_nat_alt)
  obtain b where b: "af_inode_map af = Some (Bitmap64 b)" "unmarked ba_bits b = U" using Suc.prems(1) by (auto simp: gdt_state_def)
  obtain fs' b' d1 fl n where s: "set_gdt_csum_group ext2fs_blkmap64_bitarray ext2fs_group_desc_csum af i =
      Some (af\<lparr>af_fs := fs', af_inode_map := Some (Bitmap64 b')\<rparr>, d1)"
    "group_written fs' (af_fs af) i fl n" "accounted (af\<lparr>af_fs := fs', af_inode_map := Some (Bitmap64 b')\<rparr>)"
    "unmarked ba_bits b' = U" "group_fresh fs' U i"
    using set_group_step[OF geo(2) i b(1)] unfolding b(2) by blast
  let ?af = "af\<lparr>af_fs := fs', af_inode_map := Some (Bitmap64 b')\<rparr>"
  have "same_geo fs' (af_fs af)" using s(2) by (simp add: group_written_def)
  then have st: "gdt_state af0 U ?af"
    using Suc.prems(1) s(3,4) same_geo_trans[OF _ geo(1)] by (auto simp: gdt_state_def)
  have ui: "unat (i + 1) = unat i + 1"
    using Suc.prems(2) unat_less32[of "fs_group_desc_count (af_fs af0)"] by (simp add: unat_word_ariths)
  have "group_fresh (af_fs ?af) U h" if "h < i + 1" for h
  proof (cases "h = i")
    case False
    then have "h < i" using that ui by (simp add: word_less_nat_alt word_unat_eq_iff)
    then show ?thesis
      using fresh_elsewhere[OF s(2) _ False Suc.prems(3)] i by (simp add: order.strict_trans)
  qed (simp add: s(5))
  then show ?case using Suc.IH[OF st, of "i + 1" "d \<or> d1"] Suc.prems(2) ui s(1) by simp
qed

lemma super_dirty_fresh: "group_fresh (ext2fs_mark_super_dirty fs) U h = group_fresh fs U h"
proof -
  let ?fs = "ext2fs_mark_super_dirty fs"
  have e: "ext2fs_group_desc ?fs h = ext2fs_group_desc fs h" "fs_group_desc ?fs = fs_group_desc fs" "fs_super ?fs = fs_super fs"
    "fs_csum_seed ?fs = fs_csum_seed fs" "inode_group ?fs i = inode_group fs i" for i
    by (simp_all add: ext2fs_mark_super_dirty_def ext2fs_group_desc_def inode_group_def)
  have "ext2fs_group_desc_csum_verify ?fs h = ext2fs_group_desc_csum_verify fs h"
    by (simp add: ext2fs_group_desc_csum_verify_def ext2fs_group_desc_csum_def desc_bytes_def ext2fs_bg_checksum_def
        ext2fs_has_group_desc_csum_def has_metadata_csum_def e Let_def)
  moreover have "ext2fs_bg_flags ?fs h = ext2fs_bg_flags fs h" "ext2fs_bg_itable_unused ?fs h = ext2fs_bg_itable_unused fs h"
    by (simp_all add: gd_access_defs e)
  ultimately show ?thesis unfolding group_fresh_def e by (simp only:)
qed

text \<open>C5: On a file system on the bit array with descriptor checksums whose geometry and counts are in order, \<^verbatim>\<open>ext2fs_set_gdt_csum\<close> returns 0, the geometry, the
  counts and the inodes in use are as before, and every group has a valid checksum, the flag \<^verbatim>\<open>EXT2_BG_INODE_UNINIT\<close> exactly if
  all its inodes are free, and a count of unused inodes that reaches exactly from its last inode in use to its end.\<close>

theorem set_gdt_csum_exact:
  assumes "accounted af" "af_inode_map af = Some (Bitmap64 b)" "ext2fs_has_group_desc_csum (af_fs af)"
  shows "\<exists>af' b'. ext2fs_set_gdt_csum ext2fs_blkmap64_bitarray ext2fs_group_desc_csum af = Some (None, af') \<and> accounted af' \<and>
    same_geo (af_fs af') (af_fs af) \<and> af_block_map af' = af_block_map af \<and> af_inode_map af' = Some (Bitmap64 b') \<and>
    unmarked ba_bits b' = unmarked ba_bits b \<and>
    (\<forall>g < fs_group_desc_count (af_fs af). group_fresh (af_fs af') (unmarked ba_bits b) g)"
proof -
  have "gdt_state af (unmarked ba_bits b) af" using assms(1,2) by (simp add: gdt_state_def)
  then obtain af1 d where l: "set_gdt_csum_loop ext2fs_blkmap64_bitarray ext2fs_group_desc_csum (unat (fs_group_desc_count (af_fs af))) 0 (af, False) = Some (af1, d)"
    "gdt_state af (unmarked ba_bits b) af1" "\<forall>h < fs_group_desc_count (af_fs af). group_fresh (af_fs af1) (unmarked ba_bits b) h"
    using set_gdt_loop[of af "unmarked ba_bits b" af 0 "unat (fs_group_desc_count (af_fs af))" False] by auto
  define af2 where "af2 = (if d then af1\<lparr>af_fs := ext2fs_mark_super_dirty (af_fs af1)\<rparr> else af1)"
  have g: "same_geo (ext2fs_mark_super_dirty fs) fs" for fs by (simp add: ext2fs_mark_super_dirty_def same_geo_def)
  have acc: "accounted af1" using l(2) by (simp add: gdt_state_def)
  have "accounted (af1\<lparr>af_fs := ext2fs_mark_super_dirty (af_fs af1)\<rparr>)" (is "accounted ?af")
  proof (rule accounted_geo[OF acc])
    have same: "same_block_counts (af_fs ?af) (af_fs af1)" "same_inode_counts (af_fs ?af) (af_fs af1)"
      by (simp_all add: same_block_counts_def same_inode_counts_def ext2fs_mark_super_dirty_def gd_access_defs ext2fs_group_desc_def)
    show "blocks_accounted ba_wf ba_bits ?af"
      by (rule blocks_accounted_cong[of _ _ af1]) (use acc same g in \<open>simp_all add: accounted_def\<close>)
    show "inodes_accounted ba_wf ba_bits ?af"
      by (rule inodes_accounted_cong[of _ _ af1]) (use acc same g in \<open>simp_all add: accounted_def\<close>)
  qed (simp add: g)
  then have "gdt_state af (unmarked ba_bits b) af2"
    using l(2) same_geo_trans[OF g] by (auto simp: gdt_state_def af2_def)
  moreover have "ext2fs_set_gdt_csum ext2fs_blkmap64_bitarray ext2fs_group_desc_csum af = Some (None, af2)"
    using assms(2,3) l(1) by (simp add: ext2fs_set_gdt_csum_def af2_def)
  moreover have "\<forall>h < fs_group_desc_count (af_fs af). group_fresh (af_fs af2) (unmarked ba_bits b) h"
    using l(3) by (simp add: af2_def super_dirty_fresh)
  ultimately show ?thesis unfolding gdt_state_def by blast
qed

theorem set_gdt_csum_exact_witness:
  "\<exists>af'. ext2fs_set_gdt_csum ext2fs_blkmap64_bitarray ext2fs_group_desc_csum demo_alloc = Some (None, af') \<and>
     accounted af' \<and> ext2fs_group_desc_csum_verify (af_fs af') 0"
proof -
  obtain b where b: "af_inode_map demo_alloc = Some (Bitmap64 b)" using accounted_maps[OF demo_accounted] by metis
  have f: "ext2fs_has_group_desc_csum (af_fs demo_alloc)" "0 < fs_group_desc_count (af_fs demo_alloc)" by code_simp+
  show ?thesis using set_gdt_csum_exact[OF demo_accounted b f(1)] f(2) unfolding group_fresh_def by blast
qed

end
