(* ===== verification/Spec2Isabelle.thy ===== *)
theory Spec2Isabelle
  imports Badblocks Region Extent_Table Gen_Bitmap64 Bitmaps Dirhash Super_Layout Ea_Refcount Icount Replay Alloc_History Csum_Groups
begin

text \<open>
  Verification of the core of \<^verbatim>\<open>e2fsprogs\<close>, the C library and tools for ext2/3/4 file systems that the Windows flash tool
  of this repository wraps.

  \<^bold>\<open>The program.\<close> \<^verbatim>\<open>lib/ext2fs\<close> keeps a file system handle with the superblock, the array of group descriptors and the
  bitmaps of blocks and inodes, and gives the tools (\<^verbatim>\<open>e2fsck\<close>, \<^verbatim>\<open>resize\<close>, \<^verbatim>\<open>misc\<close>) the operations on them: allocation,
  directories, extents, flushing. The containers underneath carry the correctness of everything above, and
  they are what this library models first.

  \<^bold>\<open>Conventions.\<close> Machine integers are words of their width (\<open>u8\<close>, \<open>u16\<close>, \<open>u32\<close>, \<open>u64\<close> of \<open>Ext2_Prelude\<close>), so
  that the wrap-around of block, inode and group numbers, of counts and of checksums is in the model. Natural numbers stand for the
  sizes of and the indices into arrays, lists and tables (the lists of \<open>Badblocks\<close>, \<open>Icount\<close>, \<open>Ea_Refcount\<close> and \<open>Extent_Table\<close>, which
  the code counts with an \<^verbatim>\<open>int\<close> or a 32-bit number): that such a size overflows when a table grows past 2^31 entries is not modelled.
  \<^verbatim>\<open>unsigned long\<close> and \<^verbatim>\<open>size_t\<close> are taken as 64 bits wide; the range searches of \<open>Bitarray\<close> keep their positions and counts in an
  \<^verbatim>\<open>unsigned long\<close>, so on a build where that has 32 bits (as \<^verbatim>\<open>SIZEOF_LONG\<close> of the checked-in \<^verbatim>\<open>config.h\<close> says) they are what the
  model says for ranges below 2^32 bits. An operation that returns an error code is a function
  into \<open>errcode + 'a\<close>, or returns \<open>errcode option\<close> beside the new state where the state changes on
  failure too. Allocation is a parameter: the outcome of the allocator and, where the code does not
  clear memory, the contents it finds there. A loop is a recursive function with a termination proof; where
  the C loop can run forever (the searches of \<^verbatim>\<open>gen_bitmap.c\<close> the comparison loops with a 32-bit counter, the
  conversion of \<^verbatim>\<open>bitmaps.c\<close>, the scan of the journal, the searches of \<^verbatim>\<open>alloc.c\<close>, the search of
  \<^verbatim>\<open>csum.c\<close> for the last inode of a group) it is a
  \<open>partial_function (option)\<close>, and the theorems say when it returns. No fuel is used.

  \<^bold>\<open>Theories.\<close>
  \<^item> \<open>Ext2_Prelude\<close>: types, error codes, lemmas on words, arrays and sorted lists.
  \<^item> \<open>Badblocks\<close>: \<^verbatim>\<open>lib/ext2fs/badblocks.c\<close> (sorted growing array of 32-bit numbers: add, test, delete, iterate, compare) and
    \<^verbatim>\<open>read_bb_file.c\<close>. Shown: the invariant, the set semantics of each operation, the order of the iteration.
  \<^item> \<open>Region\<close>: \<^verbatim>\<open>e2fsck/region.c\<close>. Shown: each return value of \<^verbatim>\<open>region_allocate\<close> means what it says, and requests granted
    with a count that is not negative and a range that does not wrap never overlap over any history; a negative count is granted again
    inside an allocated region.
  \<^item> \<open>Extent_Table\<close>: \<^verbatim>\<open>resize/extent.c\<close>, the table of moved blocks. Shown: recorded moves are looked up exactly in a
    table of at most 2^24 moves whose locations the comparison orders; two moves 2^31 or more apart, of which one is lost.
  \<^item> \<open>Bitops\<close>, \<open>Bmap64\<close>: the bit operations of \<^verbatim>\<open>bitops.c\<close> and the structure and operation table of \<^verbatim>\<open>bmap64.h\<close>, with the
    locale \<open>bmap_backend\<close> of the laws a backend owes the generic layer.
  \<^item> \<open>Bitarray\<close>: \<^verbatim>\<open>blkmap64_ba.c\<close>, the interpretation of that locale, range access and resize.
  \<^item> \<open>Gen_Bitmap32\<close>, \<open>Gen_Bitmap64\<close>: \<^verbatim>\<open>gen_bitmap.c\<close> and \<^verbatim>\<open>gen_bitmap64.c\<close>. Shown: a bitmap behaves as the set of its marked
    clusters over every history of commands whose ranges are not empty and end below 2^64; the searches and range tests are exact; the
    comparison of two bitmaps sees only the clusters of the last, partial byte.
  \<^item> \<open>Ext2_Fs\<close>, \<open>Blknum\<close>: the superblock, inode and handle, and \<^verbatim>\<open>blknum.c\<close>. Shown: groups partition the blocks, the fields
    of the group descriptors do not disturb each other, split counts are stored exactly.
  \<^item> \<open>Dirhash\<close>: \<^verbatim>\<open>dirhash.c\<close>. Shown: packing of names, the contract of the versions, the bit functions.
  \<^item> \<open>Super_Layout\<close>: \<^verbatim>\<open>closefs.c\<close> without the flush. Shown: which groups carry a superblock, that the blocks reported for
    a group are its first ones, that only changed words of the superblock are written.

  \<^item> \<open>Bitmaps\<close>: \<^verbatim>\<open>bitmaps.c\<close>, the bitmaps of a file system. Shown: the block bitmap covers every block, by clusters; the
    conversion of a per-block bitmap returns and marks exactly the clusters in use, not looking at the last block of the bitmap.
  \<^item> \<open>Count_Map\<close>: bisection of a sorted array, and the locale \<open>count_map\<close> of a counter that acts as a map from keys to counts.
  \<^item> \<open>Ea_Refcount\<close>, \<open>Icount\<close>: \<^verbatim>\<open>e2fsck/ea_refcount.c\<close> and \<^verbatim>\<open>lib/ext2fs/icount.c\<close>, each with an interpretation of that locale.
    Shown: over every sequence of commands and outcomes of the memory requests the counter is that map.
  \<^item> \<open>Revoke\<close>, \<open>Recovery\<close>, \<open>Replay\<close>: \<^verbatim>\<open>e2fsck/revoke.c\<close> and \<^verbatim>\<open>e2fsck/recovery.c\<close>. The hash table keeps the contract of the locale
    \<open>revoke_map\<close>. Shown of recovery: on a well-formed log the three passes end and write exactly the blocks that are not revoked;
    on any log every write is of a block that the log, as read at that point of the run, holds
    for that place; on some damaged logs the scan does not end.

  \<^item> \<open>Alloc\<close>: \<^verbatim>\<open>lib/ext2fs/alloc.c\<close> and \<^verbatim>\<open>alloc_stats.c\<close>, on the bitmaps of \<open>Gen_Bitmap64\<close> and the descriptors of \<open>Blknum\<close>.
    \<open>Alloc_Stats\<close>: what it means that the free counts agree with the bitmaps, and that the counting functions keep it;
    \<open>Alloc_Search\<close>, \<open>Alloc_Range\<close>: what the searches for blocks, inodes and ranges return; \<open>Alloc_History\<close>: histories of
    allocations and releases. Shown: the counts stay exact over every history, where ranges are
    allocated and released only on file systems without clusters (with clusters the counts drift by what is computed there); the searches for a block and an inode return and
    fail only when nothing is free; when the search for a range returns and when it does not.

  \<^item> \<open>Crc\<close>: \<^verbatim>\<open>crc16.c\<close>, \<^verbatim>\<open>crc32c.c\<close> and the table generator \<^verbatim>\<open>gen_crc32ctable.c\<close>, with a locale \<open>byte_crc\<close> for a register that
    takes a byte at a time by a table. Shown: all configurations compute the bitwise division; bursts are detected.
  \<^item> \<open>Dirent\<close>: the fields of directory entries. \<open>Csum\<close>: \<^verbatim>\<open>csum.c\<close>. \<open>Csum_Groups\<close>: the checksums in the group descriptors. Shown: what is set is
    verified, for every structure; a damaged bitmap is refused; \<^verbatim>\<open>ext2fs_set_gdt_csum\<close> keeps the counts of \<open>Alloc_Stats\<close> exact and
    makes the flags, unused counts and checksums of all groups exact.

  \<^bold>\<open>Not modelled.\<close> The I/O managers and everything that mainly drives them (opening, flushing, the passes of
  the checker, the moves of resizing, the command-line tools) is sequences of device I/O; \<^verbatim>\<open>tdb.c\<close> and \<^verbatim>\<open>intl\<close> are vendored; the
  front end is C#.
\<close>

end
